(* ===== verification/Leo_Prelude.thy ===== *)
theory Leo_Prelude
  imports Main "HOL-Library.Word" "HOL-Library.Sublist"
begin

unbundle bit_operations_syntax

text \<open>
  Shared vocabulary of the development: names for the machine integers, byte buffers
  and fixed-capacity vectors that the protocol crates use, and the generic facts about
  them that the component theories rely on.

  \<^item> Rust's \<open>u8\<close>, \<open>u16\<close>, \<open>u32\<close> are words of that width; \<open>usize\<close> is \<open>nat\<close>, and so is \<open>u64\<close>,
    with its wrap-around \<open>wrap64\<close> written out.
  \<^item> A fixed array \<open>[T; N]\<close> is a list whose length the invariants fix to \<open>N\<close>.
  \<^item> A \<open>heapless::Vec<T, N>\<close> is a list of at most \<open>N\<close> elements. The sources call
    \<open>let _ = v.push(x)\<close>, that is, a push onto a full vector is ignored:
    \<open>vec_push\<close> below.
  \<^item> \<open>buf[o..o + n]\<close> is \<open>bslice\<close>, and \<open>buf[o..o + n].copy_from_slice(src)\<close> is
    \<open>blit\<close>. Both are used only where the code has checked the range or where an
    invariant gives it.
\<close>

section \<open>Names of types\<close>

type_synonym u8 = "8 word"
type_synonym u16 = "16 word"
type_synonym u32 = "32 word"
type_synonym bytes = "8 word list"

named_theorems cop_defs \<open>definitions of the COP-1 handlers, unfolded together\<close>
named_theorems srspp_defs \<open>definitions of the SRSPP machines, unfolded together\<close>
named_theorems field_simps_bits \<open>laws of the packed header fields\<close>

text \<open>A call that may abort with a panic (an \<open>unwrap\<close> of an error, a slice out of range).\<close>

datatype 'a outcome = Returns 'a | Panics

text \<open>The wrap-around of \<open>u64\<close>, where such values are natural numbers.\<close>

definition wrap64 :: "nat \<Rightarrow> nat" where
  "wrap64 x = x mod 2 ^ 64"

lemma wrap64_small [simp]: "x < 2 ^ 64 \<Longrightarrow> wrap64 x = x"
  by (simp add: wrap64_def)

section \<open>Vectors of fixed capacity\<close>

definition vec_push :: "nat \<Rightarrow> 'a list \<Rightarrow> 'a \<Rightarrow> 'a list" where
  "vec_push cap xs x = (if length xs < cap then xs @ [x] else xs)"

definition vec_insert :: "nat \<Rightarrow> 'a list \<Rightarrow> nat \<Rightarrow> 'a \<Rightarrow> 'a list" where
  "vec_insert cap xs i x =
     (if length xs < cap \<and> i \<le> length xs then take i xs @ [x] @ drop i xs else xs)"

text \<open>Rust's \<open>iter().position(p)\<close>: the index of the first element satisfying \<open>p\<close>.\<close>

fun position :: "('a \<Rightarrow> bool) \<Rightarrow> 'a list \<Rightarrow> nat option" where
  "position p [] = None"
| "position p (x # xs) = (if p x then Some 0 else map_option Suc (position p xs))"

section \<open>Byte buffers\<close>

definition bslice :: "'a list \<Rightarrow> nat \<Rightarrow> nat \<Rightarrow> 'a list" where
  "bslice buf off n = take n (drop off buf)"

definition blit :: "'a list \<Rightarrow> nat \<Rightarrow> 'a list \<Rightarrow> 'a list" where
  "blit buf off src = take off buf @ src @ drop (off + length src) buf"

section \<open>Facts about vectors\<close>

lemma length_vec_push [simp]: "length xs \<le> cap \<Longrightarrow> length (vec_push cap xs x) \<le> cap"
  by (simp add: vec_push_def)

lemma vec_push_room [simp]: "length xs < cap \<Longrightarrow> vec_push cap xs x = xs @ [x]"
  by (simp add: vec_push_def)

lemma vec_push_full [simp]: "\<not> length xs < cap \<Longrightarrow> vec_push cap xs x = xs"
  by (simp add: vec_push_def)

lemma set_vec_push: "set (vec_push cap xs x) \<subseteq> insert x (set xs)"
  by (auto simp: vec_push_def)

lemma prefix_vec_push: "prefix xs (vec_push cap xs x)"
  by (simp add: vec_push_def)

lemma position_None [simp]: "position p xs = None \<longleftrightarrow> (\<forall>x\<in>set xs. \<not> p x)"
  by (induction xs) auto

lemma position_Some_iff:
  "position p xs = Some i \<longleftrightarrow> i < length xs \<and> p (xs ! i) \<and> (\<forall>j<i. \<not> p (xs ! j))"
proof (induction xs arbitrary: i)
  case Nil
  show ?case by simp
next
  case (Cons x xs)
  show ?case
  proof (cases i)
    case 0
    then show ?thesis by auto
  next
    case (Suc k)
    have "(\<forall>j<Suc k. \<not> p ((x # xs) ! j)) \<longleftrightarrow> \<not> p x \<and> (\<forall>j<k. \<not> p (xs ! j))"
      by (simp add: All_less_Suc2)
    then show ?thesis using Suc Cons.IH [of k] by auto
  qed
qed

lemma position_SomeD:
  assumes "position p xs = Some i"
  shows "i < length xs" and "p (xs ! i)"
  using assms by (auto simp: position_Some_iff)

section \<open>Facts about byte buffers\<close>

lemma length_bslice [simp]: "off + n \<le> length buf \<Longrightarrow> length (bslice buf off n) = n"
  by (simp add: bslice_def)

lemma bslice_0 [simp]: "bslice buf off 0 = []"
  by (simp add: bslice_def)

lemma length_blit [simp]:
  "off + length src \<le> length buf \<Longrightarrow> length (blit buf off src) = length buf"
  by (simp add: blit_def)

lemma blit_Nil [simp]: "blit buf off [] = buf"
  by (simp add: blit_def)

lemma bslice_blit_same [simp]:
  "off + length src \<le> length buf \<Longrightarrow> bslice (blit buf off src) off (length src) = src"
  by (simp add: bslice_def blit_def)

lemma bslice_blit_before [simp]:
  "off + length src \<le> length buf \<Longrightarrow> o' + n \<le> off \<Longrightarrow> bslice (blit buf off src) o' n = bslice buf o' n"
  by (rule nth_equalityI) (auto simp: bslice_def blit_def nth_append)

lemma bslice_blit_after [simp]:
  assumes "off + length src \<le> length buf" "off + length src \<le> o'"
  shows "bslice (blit buf off src) o' n = bslice buf o' n"
proof -
  obtain d where "o' = off + length src + d" using assms(2) le_Suc_ex by blast
  then show ?thesis using assms(1) by (simp add: bslice_def blit_def add.commute add.left_commute)
qed

lemma blit_blit_next:
  "off' = off + length xs \<Longrightarrow> off' + length ys \<le> length buf \<Longrightarrow>
     blit (blit buf off xs) off' ys = blit buf off (xs @ ys)"
  by (simp add: blit_def add.commute add.left_commute)

lemma list_update_blit:
  "off < length buf \<Longrightarrow> buf[off := x] = blit buf off [x]"
  by (simp add: blit_def upd_conv_take_nth_drop)

lemma take_blit_0 [simp]: "n \<le> length xs \<Longrightarrow> take n (blit out 0 xs) = take n xs"
  by (simp add: blit_def)

section \<open>Words as residues\<close>

lemma unat_u8_less: "unat (x :: u8) < 256"
  using unsigned_less [of x] by simp

lemma unat_u16_less: "unat (x :: u16) < 65536"
  using unsigned_less [of x] by simp

lemma take_bit_word_fits: "unat w < 2 ^ n \<Longrightarrow> take_bit n w = w" for w :: "'a::len word"
  by (simp add: word_unat_eq_iff unsigned_take_bit_eq take_bit_nat_eq_self)

text \<open>
  Sequence numbers are residues of unbounded frame indices. Two indices less than the
  modulus apart have equal residues only if they are equal.
\<close>

lemma of_nat_word_eq_near:
  fixes i j :: nat
  assumes "(of_nat i :: 'a::len word) = of_nat j" "i < j + 2 ^ LENGTH('a)" "j < i + 2 ^ LENGTH('a)"
  shows "i = j"
proof -
  have eq: "i mod 2 ^ LENGTH('a) = j mod 2 ^ LENGTH('a)"
    using assms(1) by (metis unat_of_nat)
  show ?thesis
  proof (cases "i \<le> j")
    case True
    then have "2 ^ LENGTH('a) dvd j - i" using eq mod_eq_dvd_iff_nat by metis
    moreover have "j - i < 2 ^ LENGTH('a)" using assms(3) True by linarith
    ultimately show ?thesis using True by (meson diff_is_0_eq le_antisym nat_dvd_not_less not_gr0)
  next
    case False
    then have "2 ^ LENGTH('a) dvd i - j" using eq mod_eq_dvd_iff_nat by (metis nat_le_linear)
    moreover have "i - j < 2 ^ LENGTH('a)" using assms(2) False by linarith
    ultimately show ?thesis using False by (meson diff_is_0_eq le_antisym nat_dvd_not_less not_gr0)
  qed
qed

lemma unat_of_nat_diff:
  fixes i j :: nat
  assumes "i \<le> j" "j - i < 2 ^ LENGTH('a::len)"
  shows "unat ((of_nat j :: 'a word) - of_nat i) = j - i"
proof -
  have "(of_nat j :: 'a word) - of_nat i = of_nat (j - i)" using assms(1) by (simp add: of_nat_diff)
  then show ?thesis using assms(2) by (simp add: unat_of_nat)
qed

lemma unat_of_nat_diff_wrap:
  fixes i j :: nat
  assumes "i < j" "j - i < 2 ^ LENGTH('a::len)"
  shows "unat ((of_nat i :: 'a word) - of_nat j) = 2 ^ LENGTH('a) - (j - i)"
proof -
  let ?k = "2 ^ LENGTH('a) - (j - i)"
  have "i + 2 ^ LENGTH('a) = j + ?k" using assms by simp
  then have "(of_nat (i + 2 ^ LENGTH('a)) :: 'a word) = of_nat (j + ?k)" by simp
  then have "(of_nat i :: 'a word) = of_nat j + of_nat ?k" by (simp only: of_nat_add) simp
  then have "(of_nat i :: 'a word) - of_nat j = of_nat ?k" by simp
  moreover have "?k < 2 ^ LENGTH('a)" using assms by simp
  ultimately show ?thesis by (simp only: unat_of_nat mod_less)
qed

lemma replicate_two: "replicate 2 x = [x, x]"
  by (simp add: numeral_2_eq_2)

end
