(* ===== verification/Bitfield.thy ===== *)
theory Bitfield
  imports Leo_Prelude
begin

text \<open>
  Packed header fields (\<open>crates/leodos-protocols/src/utils/bits.rs\<close>). Every header of the
  stack reads and writes its fields through a mask: \<open>get\<close> selects the masked bits and
  shifts them down by the mask's number of trailing zeros, \<open>set\<close> clears the masked bits
  and ORs in the shifted value. The \<open>set\<close> side does not mask the value, so a value that is
  too wide spills into the bits above the field; the laws below say exactly when it
  does not.

  The locale \<open>bit_field\<close> is the interface a header field is used through: a mask that is
  a contiguous run of \<open>width\<close> bits from \<open>lo\<close>. Each header theory interprets it once per
  field on the mask constant of the source.
\<close>

section \<open>Definitions\<close>

text \<open>Rust's \<open>trailing_zeros\<close>: the number of zero bits below the lowest set bit.\<close>

definition trailing_zeros :: "'a::len word \<Rightarrow> nat" where
  "trailing_zeros m = length (takeWhile (\<lambda>i. \<not> bit m i) [0..<LENGTH('a)])"

definition get_bits :: "'a::len word \<Rightarrow> 'a word \<Rightarrow> 'a word" where
  "get_bits bitmap m = drop_bit (trailing_zeros m) (bitmap AND m)"

definition set_bits :: "'a::len word \<Rightarrow> 'a word \<Rightarrow> 'a word \<Rightarrow> 'a word" where
  "set_bits bitmap m v = (bitmap AND NOT m) OR push_bit (trailing_zeros m) v"

definition check_bits_u8 :: "u8 \<Rightarrow> u8 \<Rightarrow> bool" where
  "check_bits_u8 bitmap m \<longleftrightarrow> bitmap AND m \<noteq> 0"

fun checksum_fold :: "u8 \<Rightarrow> bytes \<Rightarrow> u8" where
  "checksum_fold acc [] = acc"
| "checksum_fold acc (b # bs) = checksum_fold (acc XOR b) bs"

definition checksum_u8 :: "bytes \<Rightarrow> u8" where
  "checksum_u8 bs = checksum_fold 0 bs"

definition validate_checksum_u8 :: "bytes \<Rightarrow> bool" where
  "validate_checksum_u8 bs \<longleftrightarrow> checksum_u8 bs = 0"

section \<open>The interface of a field\<close>

locale bit_field =
  fixes m :: "'a::len word" and lo width :: nat
  assumes mask_eq: "m = push_bit lo (mask width)"
    and width_pos: "0 < width"
    and fits_word: "lo + width \<le> LENGTH('a)"
begin

lemma bit_mask_field: "bit m n \<longleftrightarrow> lo \<le> n \<and> n < lo + width"
  using fits_word by (auto simp: mask_eq bit_simps)

lemma trailing_zeros_mask: "trailing_zeros m = lo"
proof -
  have "takeWhile (\<lambda>i. \<not> bit m i) [0..<LENGTH('a)] = take lo [0..<LENGTH('a)]"
    using width_pos fits_word by (intro takeWhile_eq_take_P_nth) (auto simp: bit_mask_field)
  then show ?thesis using fits_word by (simp add: trailing_zeros_def)
qed

lemma bit_get: "bit (get_bits w m) n \<longleftrightarrow> n < width \<and> bit w (lo + n)"
  using fits_word by (auto simp: get_bits_def trailing_zeros_mask bit_simps bit_mask_field)

lemma bit_set:
  "bit (set_bits w m v) n \<longleftrightarrow>
     n < LENGTH('a) \<and> (if lo \<le> n \<and> n < lo + width then bit v (n - lo)
                       else bit w n \<or> (lo + width \<le> n \<and> bit v (n - lo)))"
  by (auto simp: set_bits_def trailing_zeros_mask bit_simps bit_mask_field dest: bit_imp_le_length)

text \<open>A field reads back the value written, cut to the field's width.\<close>

lemma get_set: "get_bits (set_bits w m v) m = take_bit width v"
  using fits_word by (intro bit_word_eqI) (auto simp: bit_get bit_set bit_simps)

lemma get_set_fits: "take_bit width v = v \<Longrightarrow> get_bits (set_bits w m v) m = v"
  by (simp add: get_set)

text \<open>Writing a field leaves every lower field alone, whatever the value.\<close>

lemma get_below:
  assumes "bit_field m' lo' width'" "lo' + width' \<le> lo"
  shows "get_bits (set_bits w m v) m' = get_bits w m'"
proof (rule bit_word_eqI)
  fix n
  note g = bit_field.bit_get [OF assms(1)]
  show "bit (get_bits (set_bits w m v) m') n \<longleftrightarrow> bit (get_bits w m') n"
    using assms(2) fits_word by (auto simp: g bit_set)
qed

text \<open>Writing a value that fits leaves every higher field alone too.\<close>

lemma get_above:
  assumes "bit_field m' lo' width'" "lo + width \<le> lo'" "take_bit width v = v"
  shows "get_bits (set_bits w m v) m' = get_bits w m'"
proof (rule bit_word_eqI)
  fix n
  note g = bit_field.bit_get [OF assms(1)]
  have small: "bit v k \<Longrightarrow> k < width" for k
    using assms(3) by (metis bit_take_bit_iff)
  show "bit (get_bits (set_bits w m v) m') n \<longleftrightarrow> bit (get_bits w m') n"
    using assms(2) by (auto simp: g bit_set dest: small bit_imp_le_length)
qed

end

section \<open>Checksums\<close>

lemma checksum_fold_xor: "checksum_fold acc bs = acc XOR checksum_fold 0 bs"
proof (induction bs arbitrary: acc)
  case Nil
  show ?case by simp
next
  case (Cons b bs)
  show ?case
    using Cons.IH [of "acc XOR b"] Cons.IH [of b] by (simp add: xor.assoc)
qed

lemma checksum_u8_append: "checksum_u8 (xs @ ys) = checksum_u8 xs XOR checksum_u8 ys"
proof (induction xs)
  case Nil
  show ?case by (simp add: checksum_u8_def)
next
  case (Cons x xs)
  then show ?case
    unfolding checksum_u8_def append_Cons checksum_fold.simps
    by (subst (1 2) checksum_fold_xor) (simp add: xor.assoc)
qed

end
