(* ===== verification/Wire.thy ===== *)
theory Wire
  imports Bitfield
begin

text \<open>
  What every header of the stack is made of. The packed header structs store 16- and
  32-bit fields as the network-endian integers of the wire, that is as the bytes Rust's
  \<open>to_be_bytes\<close> gives and \<open>from_be_bytes\<close> reads; \<open>be16\<close> and \<open>be32\<close> are these functions, with
  their round trips. \<open>num_bits\<close> is the width test of the identifier newtypes
  (\<open>crates/leodos-protocols/src/ids.rs\<close>), shown to be the numeric bound it stands for.
\<close>

section \<open>Definitions\<close>

definition be16_of :: "u16 \<Rightarrow> bytes" where
  "be16_of w = [ucast (drop_bit 8 w), ucast w]"

definition be16_to :: "u8 \<Rightarrow> u8 \<Rightarrow> u16" where
  "be16_to a b = push_bit 8 (ucast a) OR ucast b"

definition be32_of :: "u32 \<Rightarrow> bytes" where
  "be32_of w = [ucast (drop_bit 24 w), ucast (drop_bit 16 w), ucast (drop_bit 8 w), ucast w]"

definition be32_to :: "u8 \<Rightarrow> u8 \<Rightarrow> u8 \<Rightarrow> u8 \<Rightarrow> u32" where
  "be32_to a b c d = push_bit 24 (ucast a) OR push_bit 16 (ucast b) OR push_bit 8 (ucast c) OR ucast d"

text \<open>Rust's \<open>leading_zeros\<close>, and the identifiers' \<open>num_bits\<close> built on it.\<close>

definition leading_zeros :: "'a::len word \<Rightarrow> nat" where
  "leading_zeros w = length (takeWhile (\<lambda>i. \<not> bit w i) (rev [0..<LENGTH('a)]))"

definition num_bits :: "u32 \<Rightarrow> nat" where
  "num_bits w = 32 - leading_zeros w"

section \<open>Round trips\<close>

lemma length_be16_of [simp]: "length (be16_of w) = 2"
  by (simp add: be16_of_def)

lemma length_be32_of [simp]: "length (be32_of w) = 4"
  by (simp add: be32_of_def)

lemma not_bit_u8 [simp]: "8 \<le> n \<Longrightarrow> \<not> bit (x :: u8) n"
  using bit_imp_le_length [of x n] by auto

lemma be16_to_of [simp]: "be16_to (ucast (drop_bit 8 w)) (ucast w) = w"
  by (rule bit_word_eqI) (auto simp: be16_to_def bit_simps)

lemma be16_of_to [simp]: "be16_of (be16_to a b) = [a, b]"
  by (auto simp: be16_of_def be16_to_def bit_simps intro!: bit_word_eqI)

lemma be32_to_of [simp]:
  "be32_to (ucast (drop_bit 24 w)) (ucast (drop_bit 16 w)) (ucast (drop_bit 8 w)) (ucast w) = w"
proof (rule bit_word_eqI)
  fix n assume n: "n < LENGTH(32)"
  consider "n < 8" | "8 \<le> n" "n < 16" | "16 \<le> n" "n < 24" | "24 \<le> n" by linarith
  then show "bit (be32_to (ucast (drop_bit 24 w)) (ucast (drop_bit 16 w)) (ucast (drop_bit 8 w)) (ucast w)) n = bit w n"
    using n by cases (auto simp: be32_to_def bit_simps)
qed

lemma be32_of_to [simp]: "be32_of (be32_to a b c d) = [a, b, c, d]"
  by (auto simp: be32_of_def be32_to_def bit_simps intro!: bit_word_eqI)

section \<open>Numbers of any width\<close>

text \<open>Rust's \<open>to_be_bytes\<close> and \<open>from_be_bytes\<close> where the value is a natural number.\<close>

definition be_nat :: "bytes \<Rightarrow> nat" where
  "be_nat bs = foldl (\<lambda>a b. a * 256 + unat b) 0 bs"

fun nat_be :: "nat \<Rightarrow> nat \<Rightarrow> bytes" where
  "nat_be 0 n = []"
| "nat_be (Suc k) n = nat_be k (n div 256) @ [of_nat n]"

lemma length_nat_be [simp]: "length (nat_be k n) = k"
  by (induction k arbitrary: n) simp_all

lemma be_nat_Nil [simp]: "be_nat [] = 0"
  by (simp add: be_nat_def)

lemma be_nat_snoc [simp]: "be_nat (bs @ [b]) = be_nat bs * 256 + unat b"
  by (simp add: be_nat_def)

lemma be_nat_nat_be: "n < 256 ^ k \<Longrightarrow> be_nat (nat_be k n) = n"
proof (induction k arbitrary: n)
  case 0
  then show ?case by (simp add: be_nat_def)
next
  case (Suc k)
  then have "n div 256 < 256 ^ k" by (simp add: less_mult_imp_div_less mult.commute)
  then show ?case using Suc.IH by (simp add: unat_of_nat)
qed

lemma be_nat_zeros [simp]: "be_nat (replicate j 0 @ bs) = be_nat bs"
proof -
  have "foldl (\<lambda>a b. a * 256 + unat b) 0 (replicate j (0 :: u8)) = 0" by (induction j) simp_all
  then show ?thesis by (simp add: be_nat_def)
qed

lemma drop_nat_be: "j \<le> k \<Longrightarrow> drop (k - j) (nat_be k n) = nat_be j n"
proof (induction j arbitrary: k n)
  case 0
  then show ?case by simp
next
  case (Suc j)
  then obtain k' where k: "k = Suc k'" by (cases k) auto
  then have "k - Suc j = k' - j" "k' - j \<le> length (nat_be k' (n div 256))" using Suc.prems by auto
  then show ?case using Suc.IH [of k' "n div 256"] Suc.prems k by simp
qed

lemma right_aligned: "length sl \<le> 8 \<Longrightarrow> be_nat (blit (replicate 8 0) (8 - length sl) sl) = be_nat sl"
  by (simp add: blit_def)

section \<open>Widths\<close>

lemma le_length_takeWhile:
  "k \<le> length xs \<Longrightarrow> k \<le> length (takeWhile P xs) \<longleftrightarrow> (\<forall>i<k. P (xs ! i))"
proof (induction xs arbitrary: k)
  case Nil
  then show ?case by simp
next
  case (Cons x xs)
  show ?case
  proof (cases k)
    case 0
    then show ?thesis by simp
  next
    case (Suc j)
    then show ?thesis using Cons by (auto simp: All_less_Suc2)
  qed
qed

lemma num_bits_le: "n \<le> 32 \<Longrightarrow> num_bits w \<le> n \<longleftrightarrow> unat w < 2 ^ n"
proof -
  assume n: "n \<le> 32"
  have "num_bits w \<le> n \<longleftrightarrow> 32 - n \<le> leading_zeros w" using n by (auto simp: num_bits_def)
  also have "\<dots> \<longleftrightarrow> (\<forall>i<32 - n. \<not> bit w (31 - i))"
    using le_length_takeWhile [of "32 - n" "rev [0..<32]" "\<lambda>i. \<not> bit w i"] n
    by (auto simp: leading_zeros_def rev_nth simp del: upt.simps)
  also have "\<dots> \<longleftrightarrow> (\<forall>i. bit w i \<longrightarrow> i < n)"
  proof
    assume a: "\<forall>i<32 - n. \<not> bit w (31 - i)"
    show "\<forall>i. bit w i \<longrightarrow> i < n"
    proof (intro allI impI)
      fix i assume b: "bit w i"
      then have "i < 32" using bit_imp_le_length by fastforce
      then show "i < n" using spec [OF a, of "31 - i"] b by (cases "i < n") auto
    qed
  qed auto
  also have "\<dots> \<longleftrightarrow> take_bit n w = w"
    by (metis bit_take_bit_iff bit_word_eqI)
  also have "\<dots> \<longleftrightarrow> unat w < 2 ^ n"
    by (metis take_bit_word_fits take_bit_nat_eq_self_iff unsigned_take_bit_eq)
  finally show ?thesis .
qed

lemma num_bits_gt: "n \<le> 32 \<Longrightarrow> n < num_bits w \<longleftrightarrow> 2 ^ n \<le> unat w"
  using num_bits_le [of n w] by linarith

end
