(* ===== verification/Tc_Frame.thy ===== *)
theory Tc_Frame
  imports Wire
begin

text \<open>
  TC transfer frames
  (\<open>crates/leodos-protocols/src/datalink/framing/sdlp/tc.rs\<close>): the 5-byte header with its
  packed fields, the builder, the parser, and the frame writer and reader built on
  them. The parser aborts (an \<open>unwrap\<close> of a size error) when the length field of the
  header announces a frame shorter than the header; that outcome is \<open>Panics\<close>.
\<close>

section \<open>Definitions\<close>

record tc_header =
  id_and_scid :: u16
  vcid_and_length :: u16
  tc_seq :: u8

record tc_frame =
  tc_hdr :: tc_header
  tc_data :: bytes

definition TC_BYPASS_FLAG_MASK :: u16 where "TC_BYPASS_FLAG_MASK = 0x2000"
definition TC_CONTROL_FLAG_MASK :: u16 where "TC_CONTROL_FLAG_MASK = 0x1000"
definition TC_SCID_MASK :: u16 where "TC_SCID_MASK = 0x03FF"
definition TC_VCID_MASK :: u16 where "TC_VCID_MASK = 0xFC00"
definition TC_FRAME_LEN_MASK :: u16 where "TC_FRAME_LEN_MASK = 0x03FF"

datatype TcBuildError =
    InvalidScid u32
  | InvalidVcid u32
  | DataTooLong nat
  | BufferTooSmall nat nat

datatype TcParseError = TooShortForHeader nat | IncompleteFrame nat nat

datatype BypassFlag = TypeA | TypeB

datatype ControlFlag = TypeD | TypeC

definition TC_HEADER_SIZE :: nat where "TC_HEADER_SIZE = 5"
definition TC_MAX_DATA_FIELD_LEN :: nat where "TC_MAX_DATA_FIELD_LEN = 1019"

definition tc_scid :: "tc_header \<Rightarrow> u32" where
  "tc_scid h = ucast (get_bits (id_and_scid h) TC_SCID_MASK)"

definition tc_set_scid :: "tc_header \<Rightarrow> u32 \<Rightarrow> tc_header" where
  "tc_set_scid h scid = h\<lparr>id_and_scid := set_bits (id_and_scid h) TC_SCID_MASK (ucast scid)\<rparr>"

definition tc_vcid :: "tc_header \<Rightarrow> u32" where
  "tc_vcid h = ucast (get_bits (vcid_and_length h) TC_VCID_MASK)"

definition tc_set_vcid :: "tc_header \<Rightarrow> u32 \<Rightarrow> tc_header" where
  "tc_set_vcid h v = h\<lparr>vcid_and_length := set_bits (vcid_and_length h) TC_VCID_MASK (ucast v)\<rparr>"

definition tc_frame_len :: "tc_header \<Rightarrow> nat" where
  "tc_frame_len h = unat (get_bits (vcid_and_length h) TC_FRAME_LEN_MASK) + 1"

definition tc_set_frame_len :: "tc_header \<Rightarrow> nat \<Rightarrow> tc_header" where
  "tc_set_frame_len h len =
     h\<lparr>vcid_and_length := set_bits (vcid_and_length h) TC_FRAME_LEN_MASK (of_nat (len - 1))\<rparr>"

definition tc_set_sequence_num :: "tc_header \<Rightarrow> u8 \<Rightarrow> tc_header" where
  "tc_set_sequence_num h seq = h\<lparr>tc_seq := seq\<rparr>"

definition bypass_flag :: "tc_header \<Rightarrow> BypassFlag" where
  "bypass_flag h = (if get_bits (id_and_scid h) TC_BYPASS_FLAG_MASK = 1 then TypeB else TypeA)"

definition set_bypass_flag :: "tc_header \<Rightarrow> BypassFlag \<Rightarrow> tc_header" where
  "set_bypass_flag h flag =
     h\<lparr>id_and_scid := set_bits (id_and_scid h) TC_BYPASS_FLAG_MASK (case flag of TypeA \<Rightarrow> 0 | TypeB \<Rightarrow> 1)\<rparr>"

definition control_flag :: "tc_header \<Rightarrow> ControlFlag" where
  "control_flag h = (if get_bits (id_and_scid h) TC_CONTROL_FLAG_MASK = 1 then TypeC else TypeD)"

definition set_control_flag :: "tc_header \<Rightarrow> ControlFlag \<Rightarrow> tc_header" where
  "set_control_flag h flag =
     h\<lparr>id_and_scid := set_bits (id_and_scid h) TC_CONTROL_FLAG_MASK (case flag of TypeD \<Rightarrow> 0 | TypeC \<Rightarrow> 1)\<rparr>"

text \<open>The header struct as the first five bytes of the buffer it overlays.\<close>

definition tc_header_of :: "bytes \<Rightarrow> tc_header" where
  "tc_header_of bs =
     \<lparr>id_and_scid = be16_to (bs ! 0) (bs ! 1), vcid_and_length = be16_to (bs ! 2) (bs ! 3), tc_seq = bs ! 4\<rparr>"

definition tc_header_bytes :: "tc_header \<Rightarrow> bytes" where
  "tc_header_bytes h = be16_of (id_and_scid h) @ be16_of (vcid_and_length h) @ [tc_seq h]"

definition tc_parse :: "bytes \<Rightarrow> (TcParseError + tc_frame) outcome" where
  "tc_parse bs =
     (if length bs < TC_HEADER_SIZE then Returns (Inl (TooShortForHeader (length bs)))
      else let header = tc_header_of bs; specified_len = tc_frame_len header
           in if specified_len > length bs then Returns (Inl (IncompleteFrame specified_len (length bs)))
              else if specified_len < TC_HEADER_SIZE then Panics
              else Returns (Inr \<lparr>tc_hdr = header, tc_data = drop TC_HEADER_SIZE (take specified_len bs)\<rparr>))"

text \<open>\<open>tc_new\<close> returns the caller's buffer with the header stamped into it.\<close>

definition tc_new ::
  "bytes \<Rightarrow> u32 \<Rightarrow> u32 \<Rightarrow> BypassFlag \<Rightarrow> ControlFlag \<Rightarrow> u8 \<Rightarrow> nat \<Rightarrow> TcBuildError + bytes" where
  "tc_new buffer scid vcid bypass control seq data_field_len =
     (if num_bits scid > 10 then Inl (InvalidScid scid)
      else if num_bits vcid > 6 then Inl (InvalidVcid vcid)
      else if data_field_len > TC_MAX_DATA_FIELD_LEN then Inl (DataTooLong data_field_len)
      else let total_len = TC_HEADER_SIZE + data_field_len
           in if length buffer < total_len then Inl (BufferTooSmall total_len (length buffer))
              else let h = tc_header_of buffer;
                       h = tc_set_scid h scid;
                       h = tc_set_vcid h vcid;
                       h = set_bypass_flag h bypass;
                       h = set_control_flag h control;
                       h = tc_set_sequence_num h seq;
                       h = tc_set_frame_len h total_len
                   in Inr (blit buffer 0 (tc_header_bytes h)))"

subsection \<open>The frame writer and reader\<close>

datatype PushError = Full | TooLarge

record tc_writer_config =
  w_scid :: u32
  w_vcid :: u32
  w_bypass :: BypassFlag
  w_control :: ControlFlag
  max_data_field_len :: nat

record tc_writer =
  w_config :: tc_writer_config
  w_sequence :: u8
  w_data_len :: nat
  w_buf :: bytes

definition tc_writer_new :: "nat \<Rightarrow> tc_writer_config \<Rightarrow> tc_writer" where
  "tc_writer_new BUF config =
     \<lparr>w_config = config, w_sequence = 0, w_data_len = 0, w_buf = replicate BUF 0\<rparr>"

definition tc_remaining :: "tc_writer \<Rightarrow> nat" where
  "tc_remaining w = max_data_field_len (w_config w) - w_data_len w"

definition tc_is_empty :: "tc_writer \<Rightarrow> bool" where
  "tc_is_empty w \<longleftrightarrow> w_data_len w = 0"

definition tc_push :: "tc_writer \<Rightarrow> bytes \<Rightarrow> (PushError + tc_writer) outcome" where
  "tc_push w pkt =
     (if length pkt > max_data_field_len (w_config w) then Returns (Inl TooLarge)
      else if length pkt > tc_remaining w then Returns (Inl Full)
      else let off = TC_HEADER_SIZE + w_data_len w
           in if off + length pkt > length (w_buf w) then Panics
              else Returns (Inr (w\<lparr>w_buf := blit (w_buf w) off pkt, w_data_len := w_data_len w + length pkt\<rparr>)))"

text \<open>
  \<open>finish\<close> builds the frame in the first \<open>total\<close> bytes of the buffer. A build error
  returns after the sequence number was consumed and before the data is dropped.
\<close>

definition tc_finish :: "tc_writer \<Rightarrow> (tc_writer \<times> (TcBuildError + bytes)) outcome" where
  "tc_finish w =
     (let total = TC_HEADER_SIZE + w_data_len w; seq = w_sequence w;
          w = w\<lparr>w_sequence := w_sequence w + 1\<rparr>; cfg = w_config w
      in if total > length (w_buf w) then Panics
         else case tc_new (take total (w_buf w)) (w_scid cfg) (w_vcid cfg) (w_bypass cfg) (w_control cfg)
                     seq (w_data_len w) of
                Inl e \<Rightarrow> Returns (w, Inl e)
              | Inr frame \<Rightarrow>
                  Returns (w\<lparr>w_buf := blit (w_buf w) 0 frame, w_data_len := 0\<rparr>, Inr frame))"

record tc_reader =
  r_buf :: bytes
  r_start :: nat
  r_end :: nat

definition tc_reader_new :: "nat \<Rightarrow> tc_reader" where
  "tc_reader_new BUF = \<lparr>r_buf = replicate BUF 0, r_start = 0, r_end = 0\<rparr>"

text \<open>The coding layer fills the buffer through \<open>buffer_mut\<close>; \<open>tc_fill\<close> is such a write.\<close>

definition tc_fill :: "tc_reader \<Rightarrow> bytes \<Rightarrow> tc_reader" where
  "tc_fill r bs = r\<lparr>r_buf := blit (r_buf r) 0 bs\<rparr>"

definition tc_feed :: "tc_reader \<Rightarrow> nat \<Rightarrow> (TcParseError + tc_reader) outcome" where
  "tc_feed r len =
     (if len > length (r_buf r) then Panics
      else case tc_parse (take len (r_buf r)) of
             Panics \<Rightarrow> Panics
           | Returns (Inl e) \<Rightarrow> Returns (Inl e)
           | Returns (Inr parsed) \<Rightarrow>
               Returns (Inr (r\<lparr>r_start := TC_HEADER_SIZE, r_end := TC_HEADER_SIZE + length (tc_data parsed)\<rparr>)))"

definition tc_data_field :: "tc_reader \<Rightarrow> bytes" where
  "tc_data_field r = bslice (r_buf r) (r_start r) (r_end r - r_start r)"

section \<open>The header\<close>

interpretation tc_bypass_f: bit_field TC_BYPASS_FLAG_MASK 13 1
  by unfold_locales (simp_all add: TC_BYPASS_FLAG_MASK_def mask_eq_exp_minus_1 push_bit_eq_mult)
interpretation tc_control_f: bit_field TC_CONTROL_FLAG_MASK 12 1
  by unfold_locales (simp_all add: TC_CONTROL_FLAG_MASK_def mask_eq_exp_minus_1 push_bit_eq_mult)
interpretation tc_scid_f: bit_field TC_SCID_MASK 0 10
  by unfold_locales (simp_all add: TC_SCID_MASK_def mask_eq_exp_minus_1 push_bit_eq_mult)
interpretation tc_vcid_f: bit_field TC_VCID_MASK 10 6
  by unfold_locales (simp_all add: TC_VCID_MASK_def mask_eq_exp_minus_1 push_bit_eq_mult)
interpretation tc_len_f: bit_field TC_FRAME_LEN_MASK 0 10
  by unfold_locales (simp_all add: TC_FRAME_LEN_MASK_def mask_eq_exp_minus_1 push_bit_eq_mult)

lemmas tc_header_defs =
  tc_scid_def tc_set_scid_def tc_vcid_def tc_set_vcid_def tc_frame_len_def tc_set_frame_len_def
  tc_set_sequence_num_def bypass_flag_def set_bypass_flag_def control_flag_def set_control_flag_def

lemma tc_header_of_bytes [simp]: "tc_header_of (tc_header_bytes h @ rest) = h"
  by (simp add: tc_header_of_def tc_header_bytes_def be16_of_def nth_append)

lemma length_tc_header_bytes [simp]: "length (tc_header_bytes h) = 5"
  by (simp add: tc_header_bytes_def)

lemma ucast16_fits:
  fixes v :: u32
  assumes "unat v < 2 ^ n" "n \<le> 16"
  shows "take_bit n (ucast v :: u16) = ucast v" and "ucast (ucast v :: u16) = v"
proof -
  have "(2::nat) ^ n \<le> 2 ^ 16" using assms(2) by (rule power_increasing) simp
  then have "unat v < 65536" using assms(1) by simp
  then have u: "unat (ucast v :: u16) = unat v" by (simp add: unsigned_ucast_eq take_bit_nat_eq_self)
  then show "take_bit n (ucast v :: u16) = ucast v" using assms(1) by (intro take_bit_word_fits) simp
  show "ucast (ucast v :: u16) = v" 
  proof -
    have "ucast (ucast v :: u16) = take_bit 16 v" by (rule bit_word_eqI) (auto simp: bit_simps)
    then show ?thesis using \<open>unat v < 65536\<close> take_bit_word_fits [of v 16] by simp
  qed
qed

text \<open>The header \<open>new\<close> stamps, and what its fields read back as.\<close>

definition tc_stamp :: "tc_header \<Rightarrow> u32 \<Rightarrow> u32 \<Rightarrow> BypassFlag \<Rightarrow> ControlFlag \<Rightarrow> u8 \<Rightarrow> nat \<Rightarrow> tc_header" where
  "tc_stamp h scid vcid b c seq n =
     tc_set_frame_len (tc_set_sequence_num (set_control_flag (set_bypass_flag
       (tc_set_vcid (tc_set_scid h scid) vcid) b) c) seq) n"

lemma tc_stamp_fields:
  assumes "unat scid < 1024" "unat vcid < 64" "1 \<le> n" "n \<le> 1024"
  shows "tc_scid (tc_stamp h scid vcid b c seq n) = scid" "tc_vcid (tc_stamp h scid vcid b c seq n) = vcid"
    "bypass_flag (tc_stamp h scid vcid b c seq n) = b" "control_flag (tc_stamp h scid vcid b c seq n) = c"
    "tc_seq (tc_stamp h scid vcid b c seq n) = seq" "tc_frame_len (tc_stamp h scid vcid b c seq n) = n"
proof -
  note s = ucast16_fits [of scid 10] and v = ucast16_fits [of vcid 6]
  have n: "unat (of_nat (n - 1) :: u16) = n - 1" using assms(3,4) by (cases n) (simp_all add: unat_of_nat del: of_nat_Suc)
  have nf: "take_bit 10 (of_nat (n - 1) :: u16) = of_nat (n - 1)"
    using assms(3,4) n by (intro take_bit_word_fits) simp
  show "tc_scid (tc_stamp h scid vcid b c seq n) = scid"
    using assms s by (simp add: tc_stamp_def tc_header_defs tc_scid_f.get_set
        tc_bypass_f.get_below [OF tc_scid_f.bit_field_axioms] tc_control_f.get_below [OF tc_scid_f.bit_field_axioms])
  show "tc_vcid (tc_stamp h scid vcid b c seq n) = vcid"
    using assms v nf by (simp add: tc_stamp_def tc_header_defs tc_vcid_f.get_set
        tc_len_f.get_above [OF tc_vcid_f.bit_field_axioms])
  show "bypass_flag (tc_stamp h scid vcid b c seq n) = b"
    by (cases b; cases c) (simp_all add: tc_stamp_def tc_header_defs tc_bypass_f.get_set
        tc_control_f.get_above [OF tc_bypass_f.bit_field_axioms])
  show "control_flag (tc_stamp h scid vcid b c seq n) = c"
    by (cases c) (simp_all add: tc_stamp_def tc_header_defs tc_control_f.get_set)
  show "tc_seq (tc_stamp h scid vcid b c seq n) = seq" by (simp add: tc_stamp_def tc_header_defs)
  show "tc_frame_len (tc_stamp h scid vcid b c seq n) = n"
    using nf n assms(3) by (simp add: tc_stamp_def tc_header_defs tc_len_f.get_set)
qed

section \<open>Building and parsing\<close>

text \<open>\<open>tc_ok\<close> is the condition under which \<open>new\<close> builds a frame.\<close>

definition tc_ok :: "bytes \<Rightarrow> u32 \<Rightarrow> u32 \<Rightarrow> nat \<Rightarrow> bool" where
  "tc_ok buffer scid vcid n \<longleftrightarrow> unat scid < 1024 \<and> unat vcid < 64 \<and> n \<le> 1019 \<and> 5 + n \<le> length buffer"

lemma tc_new_ok:
  assumes "tc_ok buffer scid vcid n"
  shows "tc_new buffer scid vcid b c seq n =
    Inr (tc_header_bytes (tc_stamp (tc_header_of buffer) scid vcid b c seq (5 + n)) @ drop 5 buffer)"
  using assms num_bits_gt [of 10 scid] num_bits_gt [of 6 vcid]
  by (simp add: tc_ok_def tc_new_def TC_HEADER_SIZE_def TC_MAX_DATA_FIELD_LEN_def tc_stamp_def blit_def Let_def)

lemma tc_new_err:
  assumes "\<not> tc_ok buffer scid vcid n"
  shows "\<exists>e. tc_new buffer scid vcid b c seq n = Inl e"
  using assms num_bits_gt [of 10 scid] num_bits_gt [of 6 vcid]
  by (auto simp: tc_ok_def tc_new_def TC_HEADER_SIZE_def TC_MAX_DATA_FIELD_LEN_def Let_def)

lemma tc_parse_stamped:
  assumes "unat scid < 1024" "unat vcid < 64" "n \<le> 1019" "n \<le> length payload"
  shows "tc_parse (tc_header_bytes (tc_stamp h scid vcid b c seq (5 + n)) @ payload) =
    Returns (Inr \<lparr>tc_hdr = tc_stamp h scid vcid b c seq (5 + n), tc_data = take n payload\<rparr>)"
proof -
  have "tc_frame_len (tc_stamp h scid vcid b c seq (5 + n)) = 5 + n"
    using assms by (intro tc_stamp_fields) simp_all
  then show ?thesis using assms(4) by (simp add: tc_parse_def TC_HEADER_SIZE_def Let_def)
qed

lemma tc_built_parses:
  assumes "tc_ok buffer scid vcid n"
  shows "\<exists>buffer'. tc_new buffer scid vcid b c seq n = Inr buffer'
      \<and> length buffer' = length buffer \<and> drop 5 buffer' = drop 5 buffer
      \<and> (\<forall>k. k \<ge> 5 + n \<longrightarrow> (\<exists>f. tc_parse (take k buffer') = Returns (Inr f)
           \<and> tc_scid (tc_hdr f) = scid \<and> tc_vcid (tc_hdr f) = vcid \<and> bypass_flag (tc_hdr f) = b
           \<and> control_flag (tc_hdr f) = c \<and> tc_seq (tc_hdr f) = seq \<and> tc_data f = bslice buffer 5 n))"
proof -
  let ?h = "tc_stamp (tc_header_of buffer) scid vcid b c seq (5 + n)"
  have r: "unat scid < 1024" "unat vcid < 64" "n \<le> 1019" "5 + n \<le> length buffer"
    using assms by (simp_all add: tc_ok_def)
  have "tc_parse (take k (tc_header_bytes ?h @ drop 5 buffer)) =
      Returns (Inr \<lparr>tc_hdr = ?h, tc_data = bslice buffer 5 n\<rparr>)" if "k \<ge> 5 + n" for k
  proof -
    have "n \<le> length (take (k - 5) (drop 5 buffer))" "min n (k - 5) = n" using that r(4) by auto
    then show ?thesis using tc_parse_stamped [OF r(1-3), of "take (k - 5) (drop 5 buffer)"] that
      by (simp add: bslice_def)
  qed
  moreover have "1 \<le> 5 + n" "5 + n \<le> 1024" using r by simp_all
  note tc_stamp_fields [OF r(1,2) this, of "tc_header_of buffer" b c seq]
  ultimately show ?thesis using assms r(4) by (auto simp: tc_new_ok)
qed

text \<open>
  Build and parse round trip. Whatever the buffer held before, when the identifiers
  are in range, the data field is at most 1019 bytes and the buffer is long enough, the
  builder succeeds, touches only the first five bytes, and parsing any prefix that
  contains the frame gives back every header field and exactly the data field; in every
  other case the builder returns an error.
\<close>

theorem tc_build_parse:
  "if tc_ok buffer scid vcid n
   then \<exists>buffer'. tc_new buffer scid vcid b c seq n = Inr buffer'
      \<and> length buffer' = length buffer \<and> drop 5 buffer' = drop 5 buffer
      \<and> (\<forall>k. k \<ge> 5 + n \<longrightarrow> (\<exists>f. tc_parse (take k buffer') = Returns (Inr f)
           \<and> tc_scid (tc_hdr f) = scid \<and> tc_vcid (tc_hdr f) = vcid \<and> bypass_flag (tc_hdr f) = b
           \<and> control_flag (tc_hdr f) = c \<and> tc_seq (tc_hdr f) = seq \<and> tc_data f = bslice buffer 5 n))
   else \<exists>e. tc_new buffer scid vcid b c seq n = Inl e"
  using tc_built_parses tc_new_err by simp

theorem tc_build_parse_witness:
  "tc_ok (replicate 8 255) 1 2 3 \<and> (\<exists>buffer'. tc_new (replicate 8 255) 1 2 TypeA TypeD 9 3 = Inr buffer'
      \<and> (\<exists>f. tc_parse buffer' = Returns (Inr f) \<and> tc_seq (tc_hdr f) = 9 \<and> tc_data f = [255, 255, 255]))"
proof -
  have ok: "tc_ok (replicate 8 255) 1 2 3" by (simp add: tc_ok_def)
  then obtain buffer' where b: "tc_new (replicate 8 255) 1 2 TypeA TypeD 9 3 = Inr buffer'"
    "length buffer' = length (replicate 8 255 :: bytes)"
    "\<forall>k. k \<ge> 5 + 3 \<longrightarrow> (\<exists>f. tc_parse (take k buffer') = Returns (Inr f) \<and> tc_seq (tc_hdr f) = 9
       \<and> tc_data f = bslice (replicate 8 255) 5 3)"
    using tc_build_parse [of "replicate 8 255" 1 2 3 TypeA TypeD 9] by auto
  have "bslice (replicate 8 255) 5 3 = [255, 255, 255 :: u8]" by (simp add: bslice_def eval_nat_numeral)
  then show ?thesis using ok b(1,2) spec [OF b(3), of 8] by auto
qed

text \<open>
  C35: When the parser aborts. \<open>parse\<close> of a received byte string panics exactly when the
  string has a full header whose length field announces fewer than five bytes; on every
  other input it returns, and a frame it returns is a prefix of the input.
\<close>

theorem tc_parse_panics_iff:
  "(tc_parse bs = Panics \<longleftrightarrow> 5 \<le> length bs \<and> tc_frame_len (tc_header_of bs) < 5)
   \<and> (\<forall>f. tc_parse bs = Returns (Inr f) \<longrightarrow> prefix (take 5 bs @ tc_data f) bs \<and> tc_hdr f = tc_header_of bs)"
proof -
  have "take 5 bs @ drop 5 (take n bs) = take n bs" if "5 \<le> n" for n
    using that by (metis append_take_drop_id min.absorb1 take_take)
  then show ?thesis by (auto simp: tc_parse_def TC_HEADER_SIZE_def Let_def take_is_prefix split: if_splits)
qed

theorem tc_parse_panics_iff_witness:
  "tc_parse [0, 0, 0, 0, 0] = Panics \<and> (\<exists>f. tc_parse [0, 0, 0, 5, 0, 7] = Returns (Inr f) \<and> tc_data f = [7])"
proof -
  have len: "tc_frame_len (tc_header_of [0, 0, 0, 0, 0]) = 1"
    by (simp add: tc_frame_len_def tc_header_of_def be16_to_def get_bits_def)
  have "tc_parse [0, 0, 0, 5, 0, 7] = Returns (Inr \<lparr>tc_hdr = tc_header_of [0, 0, 0, 5, 0, 7], tc_data = [7]\<rparr>)"
    by (simp add: tc_parse_def TC_HEADER_SIZE_def tc_frame_len_def tc_header_of_def be16_to_def get_bits_def
        TC_FRAME_LEN_MASK_def tc_len_f.trailing_zeros_mask [unfolded TC_FRAME_LEN_MASK_def] Let_def)
  then show ?thesis using len tc_parse_panics_iff [of "[0, 0, 0, 0, 0]"] by simp
qed

section \<open>From the writer to the reader\<close>

fun tc_push_all :: "tc_writer \<Rightarrow> bytes list \<Rightarrow> tc_writer option" where
  "tc_push_all w [] = Some w"
| "tc_push_all w (p # ps) = (case tc_push w p of Returns (Inr w') \<Rightarrow> tc_push_all w' ps | _ \<Rightarrow> None)"

definition tc_writer_ok :: "tc_writer \<Rightarrow> bool" where
  "tc_writer_ok w \<longleftrightarrow> unat (w_scid (w_config w)) < 1024 \<and> unat (w_vcid (w_config w)) < 64
     \<and> max_data_field_len (w_config w) \<le> 1019 \<and> 5 + max_data_field_len (w_config w) \<le> length (w_buf w)"

text \<open>The packets pushed so far lie one after the other in the data field.\<close>

definition tc_held :: "tc_writer \<Rightarrow> bytes" where
  "tc_held w = bslice (w_buf w) 5 (w_data_len w)"

lemma bslice_blit_append:
  assumes "off + n + length src \<le> length buf"
  shows "bslice (blit buf (off + n) src) off (n + length src) = bslice buf off n @ src"
  using assms by (simp add: bslice_def blit_def drop_take take_drop [symmetric] flip: drop_drop)

lemma tc_push_ok:
  assumes "tc_writer_ok w" "w_data_len w + length p \<le> max_data_field_len (w_config w)"
  shows "\<exists>w'. tc_push w p = Returns (Inr w') \<and> tc_writer_ok w' \<and> w_config w' = w_config w
    \<and> w_sequence w' = w_sequence w \<and> w_data_len w' = w_data_len w + length p \<and> tc_held w' = tc_held w @ p"
proof -
  have room: "5 + w_data_len w + length p \<le> length (w_buf w)"
    using assms by (simp add: tc_writer_ok_def)
  then show ?thesis using assms
    by (simp add: tc_push_def tc_remaining_def TC_HEADER_SIZE_def Let_def tc_writer_ok_def tc_held_def
        bslice_blit_append)
qed

lemma tc_push_all_ok:
  assumes "tc_writer_ok w" "w_data_len w + length (concat ps) \<le> max_data_field_len (w_config w)"
  shows "\<exists>w'. tc_push_all w ps = Some w' \<and> tc_writer_ok w' \<and> w_config w' = w_config w
    \<and> w_sequence w' = w_sequence w \<and> w_data_len w' = w_data_len w + length (concat ps)
    \<and> tc_held w' = tc_held w @ concat ps"
  using assms
proof (induction ps arbitrary: w)
  case Nil
  then show ?case by simp
next
  case (Cons p ps)
  obtain w1 where w1: "tc_push w p = Returns (Inr w1)" "tc_writer_ok w1" "w_config w1 = w_config w"
    "w_sequence w1 = w_sequence w" "w_data_len w1 = w_data_len w + length p" "tc_held w1 = tc_held w @ p"
    using tc_push_ok [of w p] Cons.prems by auto
  then show ?case using Cons.IH [of w1] Cons.prems by auto
qed

lemma tc_finish_ok:
  assumes "tc_writer_ok w" "w_data_len w \<le> max_data_field_len (w_config w)"
  shows "\<exists>w' h. tc_finish w = Returns (w', Inr (tc_header_bytes h @ tc_held w)) \<and> tc_writer_ok w'
    \<and> w_config w' = w_config w \<and> tc_is_empty w' \<and> w_sequence w' = w_sequence w + 1
    \<and> tc_parse (tc_header_bytes h @ tc_held w) = Returns (Inr \<lparr>tc_hdr = h, tc_data = tc_held w\<rparr>)
    \<and> tc_seq h = w_sequence w \<and> tc_scid h = w_scid (w_config w) \<and> tc_vcid h = w_vcid (w_config w)"
proof -
  let ?c = "w_config w" and ?n = "w_data_len w" and ?b = "take (5 + w_data_len w) (w_buf w)"
  let ?h = "tc_stamp (tc_header_of ?b) (w_scid ?c) (w_vcid ?c) (w_bypass ?c) (w_control ?c) (w_sequence w) (5 + ?n)"
  have ok: "unat (w_scid ?c) < 1024" "unat (w_vcid ?c) < 64" "?n \<le> 1019" "5 + ?n \<le> length (w_buf w)"
    using assms by (simp_all add: tc_writer_ok_def)
  have held: "drop 5 ?b = tc_held w" "length (tc_held w) = ?n"
    using ok(4) by (simp_all add: tc_held_def bslice_def drop_take)
  have new: "tc_new ?b (w_scid ?c) (w_vcid ?c) (w_bypass ?c) (w_control ?c) (w_sequence w) ?n =
      Inr (tc_header_bytes ?h @ tc_held w)"
    using ok by (subst tc_new_ok) (simp_all add: tc_ok_def held(1))
  have fin: "tc_finish w = Returns (w\<lparr>w_sequence := w_sequence w + 1,
      w_buf := blit (w_buf w) 0 (tc_header_bytes ?h @ tc_held w), w_data_len := 0\<rparr>, Inr (tc_header_bytes ?h @ tc_held w))"
    using ok(4) new by (simp add: tc_finish_def TC_HEADER_SIZE_def Let_def)
  have "tc_parse (tc_header_bytes ?h @ tc_held w) = Returns (Inr \<lparr>tc_hdr = ?h, tc_data = tc_held w\<rparr>)"
    using tc_parse_stamped [OF ok(1-3), of "tc_held w"] held(2) by simp
  moreover have "1 \<le> 5 + ?n" "5 + ?n \<le> 1024" using ok(3) by simp_all
  note tc_stamp_fields [OF ok(1,2) this, of "tc_header_of ?b" "w_bypass ?c" "w_control ?c" "w_sequence w"]
  moreover have "length (blit (w_buf w) 0 (tc_header_bytes ?h @ tc_held w)) = length (w_buf w)"
    using ok(4) held(2) by (intro length_blit) simp
  ultimately show ?thesis using fin assms(1)
    by (intro exI [of _ "fst (case tc_finish w of Returns x \<Rightarrow> x)"] exI [of _ ?h])
      (simp add: tc_writer_ok_def tc_is_empty_def)
qed

text \<open>
  C38: Frames carry packets end to end. On an empty writer whose configuration is in
  range, pushing packets that fit the data field never fails; \<open>finish\<close> then yields a
  frame with the next sequence number, the writer is empty and ready for the next frame,
  and a reader fed with that frame exposes exactly the concatenation of the packets.
\<close>

theorem tc_write_read:
  assumes "tc_writer_ok w" "tc_is_empty w" "length (concat ps) \<le> max_data_field_len (w_config w)"
    "5 + length (concat ps) \<le> length (r_buf r)"
  shows "\<exists>w1 w2 frame f r'. tc_push_all w ps = Some w1 \<and> tc_finish w1 = Returns (w2, Inr frame)
    \<and> tc_writer_ok w2 \<and> tc_is_empty w2 \<and> w_sequence w2 = w_sequence w + 1
    \<and> tc_parse frame = Returns (Inr f) \<and> tc_seq (tc_hdr f) = w_sequence w
    \<and> tc_feed (tc_fill r frame) (length frame) = Returns (Inr r') \<and> tc_data_field r' = concat ps"
proof -
  have e: "w_data_len w = 0" "tc_held w = []" using assms(2) by (simp_all add: tc_is_empty_def tc_held_def)
  obtain w1 where w1: "tc_push_all w ps = Some w1" "tc_writer_ok w1" "w_config w1 = w_config w"
    "w_sequence w1 = w_sequence w" "w_data_len w1 = length (concat ps)" "tc_held w1 = concat ps"
    using tc_push_all_ok [OF assms(1), of ps] assms(3) e by auto
  then obtain w2 h where w2: "tc_finish w1 = Returns (w2, Inr (tc_header_bytes h @ concat ps))" "tc_writer_ok w2"
    "tc_is_empty w2" "w_sequence w2 = w_sequence w + 1" "tc_seq h = w_sequence w"
    "tc_parse (tc_header_bytes h @ concat ps) = Returns (Inr \<lparr>tc_hdr = h, tc_data = concat ps\<rparr>)"
    using tc_finish_ok [OF w1(2)] assms(3) by auto
  let ?f = "tc_header_bytes h @ concat ps" and ?r = "tc_fill r (tc_header_bytes h @ concat ps)"
  have fill: "r_buf ?r = ?f @ drop (length ?f) (r_buf r)" by (simp add: tc_fill_def blit_def)
  have feed: "tc_feed ?r (length ?f) = Returns (Inr (?r\<lparr>r_start := 5, r_end := 5 + length (concat ps)\<rparr>))"
    using assms(4) w2(6) by (simp add: tc_feed_def fill TC_HEADER_SIZE_def)
  have "tc_data_field (?r\<lparr>r_start := 5, r_end := 5 + length (concat ps)\<rparr>) = concat ps"
    by (simp add: tc_data_field_def fill bslice_def)
  then show ?thesis using w1(1) w2 feed by fastforce
qed

theorem tc_write_read_witness:
  "\<exists>w1 w2 frame r'. tc_push_all (tc_writer_new 32 \<lparr>w_scid = 1, w_vcid = 0, w_bypass = TypeA, w_control = TypeD,
       max_data_field_len = 16\<rparr>) [[1, 2], [3]] = Some w1 \<and> tc_finish w1 = Returns (w2, Inr frame)
     \<and> tc_feed (tc_fill (tc_reader_new 32) frame) (length frame) = Returns (Inr r') \<and> tc_data_field r' = [1, 2, 3]"
  using tc_write_read [of "tc_writer_new 32 \<lparr>w_scid = 1, w_vcid = 0, w_bypass = TypeA, w_control = TypeD,
       max_data_field_len = 16\<rparr>" "[[1, 2], [3]]" "tc_reader_new 32"]
  by (auto simp: tc_writer_new_def tc_writer_ok_def tc_is_empty_def tc_reader_new_def)

end
