(* ===== verification/Clcw.thy ===== *)
theory Clcw
  imports Bitfield
begin

text \<open>
  The Communications Link Control Word
  (\<open>crates/leodos-protocols/src/datalink/reliability/cop1/clcw.rs\<close>): the 32-bit report that
  FARM-1 sends back to FOP-1. The struct holds one big-endian \<open>U32\<close>; the model keeps its
  numeric value. Each field is read and written through the mask constants of the
  source; every mask is an interpretation of \<open>bit_field\<close>.
\<close>

section \<open>Definitions\<close>

record clcw =
  clcw_word :: u32

definition TYPE_MASK :: u32 where "TYPE_MASK = 0x80000000"
definition VERSION_MASK :: u32 where "VERSION_MASK = 0x60000000"
definition STATUS_MASK :: u32 where "STATUS_MASK = 0x1C000000"
definition COP_MASK :: u32 where "COP_MASK = 0x03000000"
definition VCID_MASK :: u32 where "VCID_MASK = 0x00FC0000"
definition NO_RF_MASK :: u32 where "NO_RF_MASK = 0x00008000"
definition NO_BIT_LOCK_MASK :: u32 where "NO_BIT_LOCK_MASK = 0x00004000"
definition LOCKOUT_MASK :: u32 where "LOCKOUT_MASK = 0x00002000"
definition WAIT_MASK :: u32 where "WAIT_MASK = 0x00001000"
definition RETRANSMIT_MASK :: u32 where "RETRANSMIT_MASK = 0x00000800"
definition FARM_B_MASK :: u32 where "FARM_B_MASK = 0x00000600"
definition REPORT_MASK :: u32 where "REPORT_MASK = 0x000000FF"

text \<open>The module's private \<open>get\<close> and \<open>set\<close>.\<close>

definition clcw_get :: "clcw \<Rightarrow> u32 \<Rightarrow> u32" where
  "clcw_get c m = drop_bit (trailing_zeros m) (clcw_word c AND m)"

definition clcw_set :: "clcw \<Rightarrow> u32 \<Rightarrow> u32 \<Rightarrow> clcw" where
  "clcw_set c m v = c\<lparr>clcw_word := (clcw_word c AND NOT m) OR push_bit (trailing_zeros m) v\<rparr>"

definition clcw_new :: clcw where
  "clcw_new = \<lparr>clcw_word = 0\<rparr>"

definition control_word_type :: "clcw \<Rightarrow> u8" where
  "control_word_type c = ucast (clcw_get c TYPE_MASK)"

definition version :: "clcw \<Rightarrow> u8" where
  "version c = ucast (clcw_get c VERSION_MASK)"

definition set_version :: "clcw \<Rightarrow> u8 \<Rightarrow> clcw" where
  "set_version c v = clcw_set c VERSION_MASK (ucast v)"

definition status :: "clcw \<Rightarrow> u8" where
  "status c = ucast (clcw_get c STATUS_MASK)"

definition set_status :: "clcw \<Rightarrow> u8 \<Rightarrow> clcw" where
  "set_status c v = clcw_set c STATUS_MASK (ucast v)"

definition cop_in_effect :: "clcw \<Rightarrow> u8" where
  "cop_in_effect c = ucast (clcw_get c COP_MASK)"

definition set_cop_in_effect :: "clcw \<Rightarrow> u8 \<Rightarrow> clcw" where
  "set_cop_in_effect c v = clcw_set c COP_MASK (ucast v)"

definition vcid :: "clcw \<Rightarrow> u32" where
  "vcid c = clcw_get c VCID_MASK"

definition set_vcid :: "clcw \<Rightarrow> u32 \<Rightarrow> clcw" where
  "set_vcid c v = clcw_set c VCID_MASK v"

definition no_rf_available :: "clcw \<Rightarrow> bool" where
  "no_rf_available c \<longleftrightarrow> clcw_get c NO_RF_MASK \<noteq> 0"

definition set_no_rf_available :: "clcw \<Rightarrow> bool \<Rightarrow> clcw" where
  "set_no_rf_available c v = clcw_set c NO_RF_MASK (of_bool v)"

definition no_bit_lock :: "clcw \<Rightarrow> bool" where
  "no_bit_lock c \<longleftrightarrow> clcw_get c NO_BIT_LOCK_MASK \<noteq> 0"

definition set_no_bit_lock :: "clcw \<Rightarrow> bool \<Rightarrow> clcw" where
  "set_no_bit_lock c v = clcw_set c NO_BIT_LOCK_MASK (of_bool v)"

definition lockout :: "clcw \<Rightarrow> bool" where
  "lockout c \<longleftrightarrow> clcw_get c LOCKOUT_MASK \<noteq> 0"

definition set_lockout :: "clcw \<Rightarrow> bool \<Rightarrow> clcw" where
  "set_lockout c v = clcw_set c LOCKOUT_MASK (of_bool v)"

definition wait :: "clcw \<Rightarrow> bool" where
  "wait c \<longleftrightarrow> clcw_get c WAIT_MASK \<noteq> 0"

definition set_wait :: "clcw \<Rightarrow> bool \<Rightarrow> clcw" where
  "set_wait c v = clcw_set c WAIT_MASK (of_bool v)"

definition retransmit :: "clcw \<Rightarrow> bool" where
  "retransmit c \<longleftrightarrow> clcw_get c RETRANSMIT_MASK \<noteq> 0"

definition set_retransmit :: "clcw \<Rightarrow> bool \<Rightarrow> clcw" where
  "set_retransmit c v = clcw_set c RETRANSMIT_MASK (of_bool v)"

definition farm_b_counter :: "clcw \<Rightarrow> u8" where
  "farm_b_counter c = ucast (clcw_get c FARM_B_MASK)"

definition set_farm_b_counter :: "clcw \<Rightarrow> u8 \<Rightarrow> clcw" where
  "set_farm_b_counter c v = clcw_set c FARM_B_MASK (ucast (v AND 3))"

definition report_value :: "clcw \<Rightarrow> u8" where
  "report_value c = ucast (clcw_get c REPORT_MASK)"

definition set_report_value :: "clcw \<Rightarrow> u8 \<Rightarrow> clcw" where
  "set_report_value c v = clcw_set c REPORT_MASK (ucast v)"

section \<open>The masks are fields\<close>

interpretation f_version: bit_field VERSION_MASK 29 2
  by unfold_locales (simp_all add: VERSION_MASK_def mask_eq_exp_minus_1 push_bit_eq_mult)
interpretation f_status: bit_field STATUS_MASK 26 3
  by unfold_locales (simp_all add: STATUS_MASK_def mask_eq_exp_minus_1 push_bit_eq_mult)
interpretation f_cop: bit_field COP_MASK 24 2
  by unfold_locales (simp_all add: COP_MASK_def mask_eq_exp_minus_1 push_bit_eq_mult)
interpretation f_vcid: bit_field VCID_MASK 18 6
  by unfold_locales (simp_all add: VCID_MASK_def mask_eq_exp_minus_1 push_bit_eq_mult)
interpretation f_no_rf: bit_field NO_RF_MASK 15 1
  by unfold_locales (simp_all add: NO_RF_MASK_def mask_eq_exp_minus_1 push_bit_eq_mult)
interpretation f_no_bit_lock: bit_field NO_BIT_LOCK_MASK 14 1
  by unfold_locales (simp_all add: NO_BIT_LOCK_MASK_def mask_eq_exp_minus_1 push_bit_eq_mult)
interpretation f_lockout: bit_field LOCKOUT_MASK 13 1
  by unfold_locales (simp_all add: LOCKOUT_MASK_def mask_eq_exp_minus_1 push_bit_eq_mult)
interpretation f_wait: bit_field WAIT_MASK 12 1
  by unfold_locales (simp_all add: WAIT_MASK_def mask_eq_exp_minus_1 push_bit_eq_mult)
interpretation f_retransmit: bit_field RETRANSMIT_MASK 11 1
  by unfold_locales (simp_all add: RETRANSMIT_MASK_def mask_eq_exp_minus_1 push_bit_eq_mult)
interpretation f_farm_b: bit_field FARM_B_MASK 9 2
  by unfold_locales (simp_all add: FARM_B_MASK_def mask_eq_exp_minus_1 push_bit_eq_mult)
interpretation f_report: bit_field REPORT_MASK 0 8
  by unfold_locales (simp_all add: REPORT_MASK_def mask_eq_exp_minus_1 push_bit_eq_mult)

section \<open>Reading after writing\<close>

lemma clcw_get_eq: "clcw_get c m = get_bits (clcw_word c) m"
  by (simp add: clcw_get_def get_bits_def)

lemma clcw_word_set: "clcw_word (clcw_set c m v) = set_bits (clcw_word c) m v"
  by (simp add: clcw_set_def set_bits_def)

lemma fits_bool: "take_bit (Suc 0) (of_bool b :: u32) = of_bool b"
  by (cases b) simp_all

lemma fits_u8: "take_bit 8 (ucast (v :: u8) :: u32) = ucast v"
  by (rule bit_word_eqI) (auto simp: bit_simps dest: bit_imp_le_length)

lemma fits_2bit: "take_bit 2 (ucast ((v :: u8) AND 3) :: u32) = ucast (v AND 3)"
proof -
  have three: "(3 :: u8) = mask 2" by (simp add: mask_eq_exp_minus_1)
  show ?thesis unfolding three
    by (rule bit_word_eqI) (auto simp: bit_simps)
qed

lemmas clcw_fits = fits_bool fits_u8 fits_2bit

text \<open>Setting a field leaves the fields above it alone when the value fits.\<close>

lemmas clcw_above =
  f_report.get_above [OF f_farm_b.bit_field_axioms, simplified]
  f_report.get_above [OF f_retransmit.bit_field_axioms, simplified]
  f_report.get_above [OF f_wait.bit_field_axioms, simplified]
  f_report.get_above [OF f_lockout.bit_field_axioms, simplified]
  f_report.get_above [OF f_no_bit_lock.bit_field_axioms, simplified]
  f_report.get_above [OF f_no_rf.bit_field_axioms, simplified]
  f_report.get_above [OF f_vcid.bit_field_axioms, simplified]
  f_report.get_above [OF f_cop.bit_field_axioms, simplified]
  f_report.get_above [OF f_status.bit_field_axioms, simplified]
  f_report.get_above [OF f_version.bit_field_axioms, simplified]
  f_farm_b.get_above [OF f_retransmit.bit_field_axioms, simplified]
  f_farm_b.get_above [OF f_wait.bit_field_axioms, simplified]
  f_farm_b.get_above [OF f_lockout.bit_field_axioms, simplified]
  f_farm_b.get_above [OF f_no_bit_lock.bit_field_axioms, simplified]
  f_farm_b.get_above [OF f_no_rf.bit_field_axioms, simplified]
  f_farm_b.get_above [OF f_vcid.bit_field_axioms, simplified]
  f_farm_b.get_above [OF f_cop.bit_field_axioms, simplified]
  f_farm_b.get_above [OF f_status.bit_field_axioms, simplified]
  f_farm_b.get_above [OF f_version.bit_field_axioms, simplified]
  f_retransmit.get_above [OF f_wait.bit_field_axioms, simplified]
  f_retransmit.get_above [OF f_lockout.bit_field_axioms, simplified]
  f_retransmit.get_above [OF f_no_bit_lock.bit_field_axioms, simplified]
  f_retransmit.get_above [OF f_no_rf.bit_field_axioms, simplified]
  f_retransmit.get_above [OF f_vcid.bit_field_axioms, simplified]
  f_retransmit.get_above [OF f_cop.bit_field_axioms, simplified]
  f_retransmit.get_above [OF f_status.bit_field_axioms, simplified]
  f_retransmit.get_above [OF f_version.bit_field_axioms, simplified]
  f_wait.get_above [OF f_lockout.bit_field_axioms, simplified]
  f_wait.get_above [OF f_no_bit_lock.bit_field_axioms, simplified]
  f_wait.get_above [OF f_no_rf.bit_field_axioms, simplified]
  f_wait.get_above [OF f_vcid.bit_field_axioms, simplified]
  f_wait.get_above [OF f_cop.bit_field_axioms, simplified]
  f_wait.get_above [OF f_status.bit_field_axioms, simplified]
  f_wait.get_above [OF f_version.bit_field_axioms, simplified]
  f_lockout.get_above [OF f_no_bit_lock.bit_field_axioms, simplified]
  f_lockout.get_above [OF f_no_rf.bit_field_axioms, simplified]
  f_lockout.get_above [OF f_vcid.bit_field_axioms, simplified]
  f_lockout.get_above [OF f_cop.bit_field_axioms, simplified]
  f_lockout.get_above [OF f_status.bit_field_axioms, simplified]
  f_lockout.get_above [OF f_version.bit_field_axioms, simplified]
  f_no_bit_lock.get_above [OF f_no_rf.bit_field_axioms, simplified]
  f_no_bit_lock.get_above [OF f_vcid.bit_field_axioms, simplified]
  f_no_bit_lock.get_above [OF f_cop.bit_field_axioms, simplified]
  f_no_bit_lock.get_above [OF f_status.bit_field_axioms, simplified]
  f_no_bit_lock.get_above [OF f_version.bit_field_axioms, simplified]
  f_no_rf.get_above [OF f_vcid.bit_field_axioms, simplified]
  f_no_rf.get_above [OF f_cop.bit_field_axioms, simplified]
  f_no_rf.get_above [OF f_status.bit_field_axioms, simplified]
  f_no_rf.get_above [OF f_version.bit_field_axioms, simplified]
  f_vcid.get_above [OF f_cop.bit_field_axioms, simplified]
  f_vcid.get_above [OF f_status.bit_field_axioms, simplified]
  f_vcid.get_above [OF f_version.bit_field_axioms, simplified]
  f_cop.get_above [OF f_status.bit_field_axioms, simplified]
  f_cop.get_above [OF f_version.bit_field_axioms, simplified]
  f_status.get_above [OF f_version.bit_field_axioms, simplified]

text \<open>Setting a field leaves the fields below it alone, whatever the value.\<close>

lemmas clcw_below =
  f_farm_b.get_below [OF f_report.bit_field_axioms, simplified]
  f_retransmit.get_below [OF f_report.bit_field_axioms, simplified]
  f_retransmit.get_below [OF f_farm_b.bit_field_axioms, simplified]
  f_wait.get_below [OF f_report.bit_field_axioms, simplified]
  f_wait.get_below [OF f_farm_b.bit_field_axioms, simplified]
  f_wait.get_below [OF f_retransmit.bit_field_axioms, simplified]
  f_lockout.get_below [OF f_report.bit_field_axioms, simplified]
  f_lockout.get_below [OF f_farm_b.bit_field_axioms, simplified]
  f_lockout.get_below [OF f_retransmit.bit_field_axioms, simplified]
  f_lockout.get_below [OF f_wait.bit_field_axioms, simplified]
  f_no_bit_lock.get_below [OF f_report.bit_field_axioms, simplified]
  f_no_bit_lock.get_below [OF f_farm_b.bit_field_axioms, simplified]
  f_no_bit_lock.get_below [OF f_retransmit.bit_field_axioms, simplified]
  f_no_bit_lock.get_below [OF f_wait.bit_field_axioms, simplified]
  f_no_bit_lock.get_below [OF f_lockout.bit_field_axioms, simplified]
  f_no_rf.get_below [OF f_report.bit_field_axioms, simplified]
  f_no_rf.get_below [OF f_farm_b.bit_field_axioms, simplified]
  f_no_rf.get_below [OF f_retransmit.bit_field_axioms, simplified]
  f_no_rf.get_below [OF f_wait.bit_field_axioms, simplified]
  f_no_rf.get_below [OF f_lockout.bit_field_axioms, simplified]
  f_no_rf.get_below [OF f_no_bit_lock.bit_field_axioms, simplified]
  f_vcid.get_below [OF f_report.bit_field_axioms, simplified]
  f_vcid.get_below [OF f_farm_b.bit_field_axioms, simplified]
  f_vcid.get_below [OF f_retransmit.bit_field_axioms, simplified]
  f_vcid.get_below [OF f_wait.bit_field_axioms, simplified]
  f_vcid.get_below [OF f_lockout.bit_field_axioms, simplified]
  f_vcid.get_below [OF f_no_bit_lock.bit_field_axioms, simplified]
  f_vcid.get_below [OF f_no_rf.bit_field_axioms, simplified]
  f_cop.get_below [OF f_report.bit_field_axioms, simplified]
  f_cop.get_below [OF f_farm_b.bit_field_axioms, simplified]
  f_cop.get_below [OF f_retransmit.bit_field_axioms, simplified]
  f_cop.get_below [OF f_wait.bit_field_axioms, simplified]
  f_cop.get_below [OF f_lockout.bit_field_axioms, simplified]
  f_cop.get_below [OF f_no_bit_lock.bit_field_axioms, simplified]
  f_cop.get_below [OF f_no_rf.bit_field_axioms, simplified]
  f_cop.get_below [OF f_vcid.bit_field_axioms, simplified]
  f_status.get_below [OF f_report.bit_field_axioms, simplified]
  f_status.get_below [OF f_farm_b.bit_field_axioms, simplified]
  f_status.get_below [OF f_retransmit.bit_field_axioms, simplified]
  f_status.get_below [OF f_wait.bit_field_axioms, simplified]
  f_status.get_below [OF f_lockout.bit_field_axioms, simplified]
  f_status.get_below [OF f_no_bit_lock.bit_field_axioms, simplified]
  f_status.get_below [OF f_no_rf.bit_field_axioms, simplified]
  f_status.get_below [OF f_vcid.bit_field_axioms, simplified]
  f_status.get_below [OF f_cop.bit_field_axioms, simplified]
  f_version.get_below [OF f_report.bit_field_axioms, simplified]
  f_version.get_below [OF f_farm_b.bit_field_axioms, simplified]
  f_version.get_below [OF f_retransmit.bit_field_axioms, simplified]
  f_version.get_below [OF f_wait.bit_field_axioms, simplified]
  f_version.get_below [OF f_lockout.bit_field_axioms, simplified]
  f_version.get_below [OF f_no_bit_lock.bit_field_axioms, simplified]
  f_version.get_below [OF f_no_rf.bit_field_axioms, simplified]
  f_version.get_below [OF f_vcid.bit_field_axioms, simplified]
  f_version.get_below [OF f_cop.bit_field_axioms, simplified]
  f_version.get_below [OF f_status.bit_field_axioms, simplified]

lemmas clcw_same =
  f_report.get_set f_farm_b.get_set f_retransmit.get_set f_wait.get_set f_lockout.get_set
  f_no_bit_lock.get_set f_no_rf.get_set f_vcid.get_set f_cop.get_set f_status.get_set
  f_version.get_set

lemmas clcw_getters =
  lockout_def wait_def retransmit_def farm_b_counter_def report_value_def vcid_def
  cop_in_effect_def no_rf_available_def no_bit_lock_def status_def version_def

lemmas clcw_setters =
  set_lockout_def set_wait_def set_retransmit_def set_farm_b_counter_def set_report_value_def
  set_vcid_def set_cop_in_effect_def set_no_rf_available_def set_no_bit_lock_def
  set_status_def set_version_def

lemmas clcw_rw =
  clcw_getters clcw_setters clcw_get_eq clcw_word_set clcw_fits clcw_above clcw_below clcw_same

lemma ucast_ucast_u8 [simp]: "ucast (ucast (v :: u8) :: u32) = v"
  by (rule bit_word_eqI) (simp add: bit_simps)

lemma clcw_flag_set:
  "lockout (set_lockout c b) = b" "wait (set_wait c b) = b" "retransmit (set_retransmit c b) = b"
  by (simp_all add: clcw_rw)

lemma clcw_report_set: "report_value (set_report_value c v) = v"
  by (simp add: clcw_rw)

lemma clcw_farm_b_set: "farm_b_counter (set_farm_b_counter c v) = v AND 3"
  by (simp add: clcw_rw)

end
