(* ===== verification/Farm.thy ===== *)
theory Farm
  imports Clcw
begin

text \<open>
  FARM-1, the receiver of COP-1
  (\<open>crates/leodos-protocols/src/datalink/reliability/cop1/farm.rs\<close>). \<open>farm\<close> is the struct
  \<open>FarmMachine\<close>; \<open>farm_handle\<close> is \<open>FarmMachine::handle\<close>, which clears the caller's action
  vector and dispatches to one function per kind of event. The action vector holds at
  most \<open>MAX_ACTIONS\<close> (4) actions; every event pushes at most one.

  The lemmas give FARM-1's contract: the flags agree with the state, the sliding window
  splits the 256 sequence numbers into zones, AD frames are accepted exactly in sequence,
  lockout is left by an Unlock only, and the CLCW reports the state.
\<close>

section \<open>Definitions\<close>

datatype FarmState = Open | Wait | Lockout

datatype ControlCommand = Unlock | SetVr u8

datatype FarmEvent =
    AdFrame u8 bool bytes
  | BdFrame bytes
  | BcFrame ControlCommand
  | InvalidFrame
  | BufferRelease
  | ClcwReport

datatype FarmAction = FarmAccept bytes | FarmDiscard | ClcwReady

type_synonym FarmActions = "FarmAction list"

definition FARM_MAX_ACTIONS :: nat where "FARM_MAX_ACTIONS = 4"

definition farm_push :: "FarmActions \<Rightarrow> FarmAction \<Rightarrow> FarmActions" where
  "farm_push as a = vec_push FARM_MAX_ACTIONS as a"

record FarmConfig =
  fc_vcid :: u32
  fc_window_width :: u8

record farm =
  farm_state :: FarmState
  farm_vr :: u8
  lockout_flag :: bool
  wait_flag :: bool
  retransmit_flag :: bool
  farm_b :: u8
  pw :: u8
  nw :: u8
  farm_vcid :: u32

datatype SeqZone = Expected | PositiveWindow | NegativeWindow | ZoneLockout

definition farm_new :: "FarmConfig \<Rightarrow> farm" where
  "farm_new config =
     \<lparr>farm_state = Open, farm_vr = 0, lockout_flag = False, wait_flag = False,
      retransmit_flag = False, farm_b = 0,
      pw = fc_window_width config div 2, nw = fc_window_width config div 2,
      farm_vcid = fc_vcid config\<rparr>"

definition farm_clcw :: "farm \<Rightarrow> clcw" where
  "farm_clcw s =
     (let c = clcw_new;
          c = set_cop_in_effect c 1;
          c = set_vcid c (farm_vcid s);
          c = set_lockout c (lockout_flag s);
          c = set_wait c (wait_flag s);
          c = set_retransmit c (retransmit_flag s);
          c = set_farm_b_counter c (farm_b s)
      in set_report_value c (farm_vr s))"

definition classify_seq :: "farm \<Rightarrow> u8 \<Rightarrow> SeqZone" where
  "classify_seq s seq =
     (if seq = farm_vr s then Expected
      else let pos_dist = seq - farm_vr s; neg_dist = farm_vr s - seq
           in if pos_dist > 0 \<and> pos_dist < pw s then PositiveWindow
              else if neg_dist > 0 \<and> neg_dist \<le> nw s then NegativeWindow
              else ZoneLockout)"

definition handle_ad_frame :: "farm \<Rightarrow> u8 \<Rightarrow> bool \<Rightarrow> bytes \<Rightarrow> FarmActions \<Rightarrow> farm \<times> FarmActions" where
  "handle_ad_frame s seq buffer_available fdu acts =
     (let zone = classify_seq s seq
      in case farm_state s of
           Open \<Rightarrow>
             (case zone of
                Expected \<Rightarrow>
                  if buffer_available
                  then (s\<lparr>farm_vr := farm_vr s + 1, retransmit_flag := False\<rparr>,
                        farm_push acts (FarmAccept fdu))
                  else (s\<lparr>retransmit_flag := True, wait_flag := True, farm_state := Wait\<rparr>,
                        farm_push acts FarmDiscard)
              | PositiveWindow \<Rightarrow> (s\<lparr>retransmit_flag := True\<rparr>, farm_push acts FarmDiscard)
              | NegativeWindow \<Rightarrow> (s, farm_push acts FarmDiscard)
              | ZoneLockout \<Rightarrow> (s\<lparr>lockout_flag := True, farm_state := Lockout\<rparr>,
                               farm_push acts FarmDiscard))
         | Wait \<Rightarrow>
             (case zone of
                Expected \<Rightarrow> (s, farm_push acts FarmDiscard)
              | PositiveWindow \<Rightarrow> (s, farm_push acts FarmDiscard)
              | NegativeWindow \<Rightarrow> (s, farm_push acts FarmDiscard)
              | ZoneLockout \<Rightarrow> (s\<lparr>lockout_flag := True, farm_state := Lockout\<rparr>,
                               farm_push acts FarmDiscard))
         | Lockout \<Rightarrow> (s, farm_push acts FarmDiscard))"

definition handle_bd_frame :: "farm \<Rightarrow> bytes \<Rightarrow> FarmActions \<Rightarrow> farm \<times> FarmActions" where
  "handle_bd_frame s fdu acts =
     (s\<lparr>farm_b := (farm_b s + 1) AND 3\<rparr>, farm_push acts (FarmAccept fdu))"

definition handle_bc_frame :: "farm \<Rightarrow> ControlCommand \<Rightarrow> FarmActions \<Rightarrow> farm \<times> FarmActions" where
  "handle_bc_frame s command acts =
     (case command of
        Unlock \<Rightarrow>
          (let s = s\<lparr>farm_b := (farm_b s + 1) AND 3, retransmit_flag := False\<rparr>
           in case farm_state s of
                Open \<Rightarrow> (s, acts)
              | Wait \<Rightarrow> (s\<lparr>wait_flag := False, farm_state := Open\<rparr>, acts)
              | Lockout \<Rightarrow> (s\<lparr>wait_flag := False, lockout_flag := False, farm_state := Open\<rparr>, acts))
      | SetVr new_vr \<Rightarrow>
          (let s = s\<lparr>farm_b := (farm_b s + 1) AND 3, retransmit_flag := False\<rparr>
           in case farm_state s of
                Open \<Rightarrow> (s\<lparr>farm_vr := new_vr\<rparr>, acts)
              | Wait \<Rightarrow> (s\<lparr>farm_vr := new_vr, wait_flag := False, farm_state := Open\<rparr>, acts)
              | Lockout \<Rightarrow> (s, acts)))"

definition handle_buffer_release :: "farm \<Rightarrow> FarmActions \<Rightarrow> farm \<times> FarmActions" where
  "handle_buffer_release s acts =
     (case farm_state s of
        Open \<Rightarrow> (s, acts)
      | Wait \<Rightarrow> (s\<lparr>wait_flag := False, farm_state := Open\<rparr>, acts)
      | Lockout \<Rightarrow> (s\<lparr>wait_flag := False\<rparr>, acts))"

text \<open>\<open>handle\<close> clears the action vector, then dispatches.\<close>

definition farm_handle :: "farm \<Rightarrow> FarmEvent \<Rightarrow> farm \<times> FarmActions" where
  "farm_handle s ev =
     (let acts = []
      in case ev of
           AdFrame seq buffer_available fdu \<Rightarrow> handle_ad_frame s seq buffer_available fdu acts
         | BdFrame fdu \<Rightarrow> handle_bd_frame s fdu acts
         | BcFrame command \<Rightarrow> handle_bc_frame s command acts
         | InvalidFrame \<Rightarrow> (s, farm_push acts FarmDiscard)
         | BufferRelease \<Rightarrow> handle_buffer_release s acts
         | ClcwReport \<Rightarrow> (s, farm_push acts ClcwReady))"

fun farm_run :: "farm \<Rightarrow> FarmEvent list \<Rightarrow> farm \<times> FarmActions" where
  "farm_run s [] = (s, [])"
| "farm_run s (e # es) =
     (let (s', as) = farm_handle s e; (s'', bs) = farm_run s' es in (s'', as @ bs))"

text \<open>The invariant: the flags the CLCW carries agree with the state.\<close>

definition farm_inv :: "farm \<Rightarrow> bool" where
  "farm_inv s \<longleftrightarrow>
     (lockout_flag s \<longleftrightarrow> farm_state s = Lockout) \<and>
     (farm_state s = Wait \<longrightarrow> wait_flag s \<and> retransmit_flag s) \<and>
     (farm_state s = Open \<longrightarrow> \<not> wait_flag s) \<and>
     farm_b s < 4"

section \<open>Lemmas\<close>

lemmas farm_defs [cop_defs] =
  farm_handle_def handle_ad_frame_def handle_bd_frame_def handle_bc_frame_def
  handle_buffer_release_def farm_push_def FARM_MAX_ACTIONS_def

lemmas farm_splits =
  FarmEvent.splits FarmState.splits SeqZone.splits ControlCommand.splits if_splits

lemma and_3_less: "(x :: u8) AND 3 < 4"
proof -
  have "x AND 3 \<le> 3" by (rule word_and_le1)
  then show ?thesis by (simp add: word_le_nat_alt word_less_nat_alt)
qed

lemma farm_new_inv: "farm_inv (farm_new config)"
  by (simp add: farm_inv_def farm_new_def)

lemma handle_ad_frame_inv: "farm_inv s \<Longrightarrow> farm_inv (fst (handle_ad_frame s seq b fdu acts))"
  by (auto simp: handle_ad_frame_def farm_inv_def Let_def split: FarmState.splits SeqZone.splits)

lemma handle_bd_frame_inv: "farm_inv s \<Longrightarrow> farm_inv (fst (handle_bd_frame s fdu acts))"
  by (auto simp: handle_bd_frame_def farm_inv_def and_3_less)

lemma handle_bc_frame_inv: "farm_inv s \<Longrightarrow> farm_inv (fst (handle_bc_frame s cmd acts))"
  by (auto simp: handle_bc_frame_def farm_inv_def and_3_less Let_def
      split: ControlCommand.splits FarmState.splits)

lemma handle_buffer_release_inv: "farm_inv s \<Longrightarrow> farm_inv (fst (handle_buffer_release s acts))"
  by (auto simp: handle_buffer_release_def farm_inv_def split: FarmState.splits)

lemma farm_handle_inv: "farm_inv s \<Longrightarrow> farm_inv (fst (farm_handle s ev))"
  by (cases ev) (simp_all add: farm_handle_def handle_ad_frame_inv handle_bd_frame_inv
      handle_bc_frame_inv handle_buffer_release_inv)

lemma fst_farm_run_Cons [simp]: "fst (farm_run s (e # es)) = fst (farm_run (fst (farm_handle s e)) es)"
  by (simp add: case_prod_beta Let_def)

lemma snd_farm_run_Cons [simp]:
  "snd (farm_run s (e # es)) = snd (farm_handle s e) @ snd (farm_run (fst (farm_handle s e)) es)"
  by (simp add: case_prod_beta Let_def)

declare farm_run.simps(2) [simp del]

text \<open>
  C26: From the state \<open>new\<close> builds, every sequence of events keeps FARM-1's invariant: the
  lockout flag is set exactly in state Lockout, state Wait has the wait and retransmit
  flags set, state Open has the wait flag clear, and the FARM-B counter stays in its two
  bits.
\<close>

theorem farm_run_inv: "farm_inv (fst (farm_run (farm_new config) es))"
proof -
  have "farm_inv s \<Longrightarrow> farm_inv (fst (farm_run s es))" for s
    by (induction es arbitrary: s) (simp_all add: farm_handle_inv)
  then show ?thesis by (simp add: farm_new_inv)
qed

subsection \<open>The sliding window\<close>

lemma unat_pos_dist_neg_dist:
  fixes a b :: u8
  assumes "a \<noteq> b"
  shows "unat (b - a) = 256 - unat (a - b)"
  using assms unat_u8_less [of a] unat_u8_less [of b]
  by (auto simp: unat_arith_simps)

lemma classify_seq_dist:
  assumes "pw s = fc_window_width config div 2" "nw s = fc_window_width config div 2"
  shows "classify_seq s seq =
    (let d = unat (seq - farm_vr s); h = unat (fc_window_width config) div 2
     in if d = 0 then Expected
        else if d < h then PositiveWindow
        else if 256 - h \<le> d then NegativeWindow
        else ZoneLockout)"
proof -
  let ?h = "unat (fc_window_width config) div 2"
  have h: "unat (pw s) = ?h" "unat (nw s) = ?h"
    using assms by (simp_all add: unat_div)
  have small: "?h < 128" using unat_u8_less [of "fc_window_width config"] by simp
  show ?thesis
  proof (cases "seq = farm_vr s")
    case True
    then show ?thesis by (simp add: classify_seq_def)
  next
    case False
    then have "0 < unat (seq - farm_vr s)" by (metis eq_iff_diff_eq_0 unat_gt_0)
    moreover have "unat (farm_vr s - seq) = 256 - unat (seq - farm_vr s)"
      using False unat_pos_dist_neg_dist by metis
    moreover have "unat (seq - farm_vr s) < 256" using unat_u8_less [of "seq - farm_vr s"] by simp
    ultimately show ?thesis using False h small
      by (auto simp: classify_seq_def Let_def word_less_nat_alt word_le_nat_alt)
  qed
qed

text \<open>
  C25: The window of a FARM-1 built by \<open>new\<close> splits the 256 frame sequence numbers by their
  distance d ahead of V(R) modulo 256: d = 0 is the expected frame, 0 < d < W/2 the
  positive window, the last W/2 distances the negative window, everything else lockout.
  The zones never overlap, because W/2 + W/2 is below 256.
\<close>

theorem classify_seq_zones:
  assumes "pw s = fc_window_width config div 2" "nw s = fc_window_width config div 2"
  shows "classify_seq s seq =
    (let d = unat (seq - farm_vr s); h = unat (fc_window_width config) div 2
     in if d = 0 then Expected
        else if d < h then PositiveWindow
        else if 256 - h \<le> d then NegativeWindow
        else ZoneLockout)"
  using assms by (rule classify_seq_dist)

theorem classify_seq_zones_witness:
  "classify_seq (farm_new \<lparr>fc_vcid = 0, fc_window_width = 10\<rparr>) 251 = NegativeWindow"
  using classify_seq_zones [of "farm_new \<lparr>fc_vcid = 0, fc_window_width = 10\<rparr>"
      "\<lparr>fc_vcid = 0, fc_window_width = 10\<rparr>" 251]
  by (simp add: farm_new_def)

subsection \<open>Acceptance\<close>

text \<open>
  What a client of FARM-1 sees of an AD frame. \<open>ad_accepted\<close> is the payload delivered, and
  \<open>ad_trace\<close> the sequence number and payload of every AD frame accepted along a run.
\<close>

definition ad_accepted :: "farm \<Rightarrow> FarmEvent \<Rightarrow> (u8 \<times> bytes) list" where
  "ad_accepted s ev =
     (case ev of AdFrame seq b fdu \<Rightarrow> if FarmAccept fdu \<in> set (snd (farm_handle s ev)) then [(seq, fdu)] else []
      | _ \<Rightarrow> [])"

fun ad_trace :: "farm \<Rightarrow> FarmEvent list \<Rightarrow> (u8 \<times> bytes) list" where
  "ad_trace s [] = []"
| "ad_trace s (e # es) = ad_accepted s e @ ad_trace (fst (farm_handle s e)) es"

lemma farm_accept_iff:
  "FarmAccept x \<in> set (snd (farm_handle s (AdFrame seq b fdu))) \<longleftrightarrow>
     x = fdu \<and> farm_state s = Open \<and> seq = farm_vr s \<and> b"
  by (auto simp: farm_defs classify_seq_def Let_def split: FarmState.splits if_splits SeqZone.splits)

lemma farm_vr_ad:
  "farm_vr (fst (farm_handle s (AdFrame seq b fdu))) =
     (if farm_state s = Open \<and> seq = farm_vr s \<and> b then farm_vr s + 1 else farm_vr s)"
  by (auto simp: farm_defs classify_seq_def Let_def split: FarmState.splits if_splits SeqZone.splits)

lemma farm_vr_other:
  "(\<And>seq b fdu. ev \<noteq> AdFrame seq b fdu) \<Longrightarrow> (\<And>v. ev \<noteq> BcFrame (SetVr v)) \<Longrightarrow>
     farm_vr (fst (farm_handle s ev)) = farm_vr s"
  by (cases ev) (auto simp: farm_defs Let_def split: FarmState.splits ControlCommand.splits)

lemma ad_accepted_vr:
  assumes "\<And>v. ev \<noteq> BcFrame (SetVr v)"
  shows "(ad_accepted s ev = [] \<and> farm_vr (fst (farm_handle s ev)) = farm_vr s) \<or>
         (\<exists>fdu. ad_accepted s ev = [(farm_vr s, fdu)] \<and> farm_vr (fst (farm_handle s ev)) = farm_vr s + 1)"
proof (cases ev)
  case (AdFrame seq b fdu)
  then show ?thesis by (auto simp: ad_accepted_def farm_accept_iff farm_vr_ad)
qed (use assms in \<open>auto simp: ad_accepted_def farm_vr_other\<close>)

text \<open>
  In-sequence acceptance. Along any run with no Set V(R) command, the AD frames FARM-1
  accepts carry consecutive sequence numbers starting at V(R), whatever else arrives in
  between: nothing is accepted twice, and nothing is skipped.
\<close>

theorem farm_accepts_in_sequence:
  assumes "\<forall>v. BcFrame (SetVr v) \<notin> set es"
  shows "map fst (ad_trace s es) = map (\<lambda>k. farm_vr s + of_nat k) [0..<length (ad_trace s es)]
       \<and> farm_vr (fst (farm_run s es)) = farm_vr s + of_nat (length (ad_trace s es))"
  using assms
proof (induction es arbitrary: s)
  case Nil
  show ?case by simp
next
  case (Cons e es)
  let ?s' = "fst (farm_handle s e)" and ?n = "length (ad_trace (fst (farm_handle s e)) es)"
  have tl: "map fst (ad_trace ?s' es) = map (\<lambda>k. farm_vr ?s' + of_nat k) [0..<?n]"
    "farm_vr (fst (farm_run ?s' es)) = farm_vr ?s' + of_nat ?n"
    using Cons by auto
  have "\<And>v. e \<noteq> BcFrame (SetVr v)" using Cons.prems by auto
  from ad_accepted_vr [OF this, of s] show ?case
  proof (elim disjE conjE exE)
    assume "ad_accepted s e = []" "farm_vr ?s' = farm_vr s"
    then show ?thesis using tl by simp
  next
    fix fdu assume "ad_accepted s e = [(farm_vr s, fdu)]" "farm_vr ?s' = farm_vr s + 1"
    then show ?thesis using tl by (simp add: upt_conv_Cons map_Suc_upt [symmetric] del: upt_Suc)
  qed
qed

theorem farm_accepts_in_sequence_witness:
  "(\<forall>v. BcFrame (SetVr v) \<notin> set [AdFrame 0 True [7], AdFrame 0 True [8], BdFrame [1], AdFrame 1 True [9]])
   \<and> map fst (ad_trace (farm_new \<lparr>fc_vcid = 0, fc_window_width = 10\<rparr>)
       [AdFrame 0 True [7], AdFrame 0 True [8], BdFrame [1], AdFrame 1 True [9]]) = [0, 1]"
  using farm_accepts_in_sequence [of "[AdFrame 0 True [7], AdFrame 0 True [8], BdFrame [1], AdFrame 1 True [9]]"
      "farm_new \<lparr>fc_vcid = 0, fc_window_width = 10\<rparr>"]
  by (simp add: ad_accepted_def farm_new_def farm_defs classify_seq_def)

subsection \<open>Lockout\<close>

lemma farm_lockout_step:
  assumes "farm_state s = Lockout" "ev \<noteq> BcFrame Unlock"
  shows "farm_state (fst (farm_handle s ev)) = Lockout \<and> farm_vr (fst (farm_handle s ev)) = farm_vr s
       \<and> ad_accepted s ev = []"
  using assms
  by (cases ev) (auto simp: farm_defs ad_accepted_def Let_def split: FarmState.splits ControlCommand.splits)

text \<open>
  Lockout is absorbing. Once FARM-1 is in state Lockout, no sequence of events without
  an Unlock command leaves it, moves V(R) (not even Set V(R)) or gets an AD frame
  accepted; an Unlock then reopens it with the lockout, wait and retransmit flags clear.
\<close>

theorem farm_lockout_until_unlock:
  assumes "farm_state s = Lockout" "BcFrame Unlock \<notin> set es"
  shows "farm_state (fst (farm_run s es)) = Lockout \<and> farm_vr (fst (farm_run s es)) = farm_vr s
     \<and> ad_trace s es = []
     \<and> (let s' = fst (farm_handle (fst (farm_run s es)) (BcFrame Unlock))
        in farm_state s' = Open \<and> farm_vr s' = farm_vr s
           \<and> \<not> lockout_flag s' \<and> \<not> wait_flag s' \<and> \<not> retransmit_flag s')"
proof -
  have run: "farm_state (fst (farm_run s es)) = Lockout \<and> farm_vr (fst (farm_run s es)) = farm_vr s
      \<and> ad_trace s es = []"
    using assms
  proof (induction es arbitrary: s)
    case Nil
    then show ?case by simp
  next
    case (Cons e es)
    then have step: "farm_state (fst (farm_handle s e)) = Lockout
        \<and> farm_vr (fst (farm_handle s e)) = farm_vr s \<and> ad_accepted s e = []"
      by (intro farm_lockout_step) auto
    then show ?case using Cons.IH [of "fst (farm_handle s e)"] Cons.prems(2) by simp
  qed
  then show ?thesis by (simp add: farm_handle_def handle_bc_frame_def Let_def)
qed

theorem farm_lockout_until_unlock_witness:
  "\<exists>s. farm_state s = Lockout \<and> farm_state (fst (farm_run s [BcFrame (SetVr 9), AdFrame 0 True []])) = Lockout"
proof -
  let ?s = "fst (farm_handle (farm_new \<lparr>fc_vcid = 0, fc_window_width = 10\<rparr>) (AdFrame 100 True []))"
  have lock: "farm_state ?s = Lockout"
    by (simp add: farm_new_def farm_defs classify_seq_def)
  have "farm_state (fst (farm_run ?s [BcFrame (SetVr 9), AdFrame 0 True []])) = Lockout"
    using farm_lockout_until_unlock [OF lock, of "[BcFrame (SetVr 9), AdFrame 0 True []]"] by simp
  with lock show ?thesis by blast
qed

subsection \<open>The report\<close>

lemma farm_clcw_fields:
  "lockout (farm_clcw s) = lockout_flag s" "wait (farm_clcw s) = wait_flag s"
  "retransmit (farm_clcw s) = retransmit_flag s" "report_value (farm_clcw s) = farm_vr s"
  "farm_b_counter (farm_clcw s) = farm_b s AND 3"
  by (simp_all add: farm_clcw_def clcw_rw)

lemma and_3_id: "(x :: u8) < 4 \<Longrightarrow> x AND 3 = x"
proof -
  assume "x < 4"
  then have "take_bit 2 x = x" by (intro take_bit_word_fits) (simp add: word_less_nat_alt)
  then show ?thesis by (simp add: take_bit_eq_mask mask_eq_exp_minus_1)
qed

text \<open>
  The CLCW tells the truth. For every state satisfying the invariant, the word FARM-1
  generates decodes to exactly its lockout, wait and retransmit flags, its FARM-B counter
  and V(R), so the lockout bit is set exactly in state Lockout; and with a virtual channel
  identifier of six bits, also to that identifier and COP-1.
\<close>

theorem farm_clcw_reports:
  assumes "farm_inv s"
  shows "lockout (farm_clcw s) = (farm_state s = Lockout) \<and> wait (farm_clcw s) = wait_flag s
    \<and> retransmit (farm_clcw s) = retransmit_flag s \<and> farm_b_counter (farm_clcw s) = farm_b s
    \<and> report_value (farm_clcw s) = farm_vr s
    \<and> (farm_vcid s < 64 \<longrightarrow> vcid (farm_clcw s) = farm_vcid s \<and> cop_in_effect (farm_clcw s) = 1)"
proof -
  have "farm_vcid s < 64 \<Longrightarrow> take_bit 6 (farm_vcid s) = farm_vcid s"
    by (intro take_bit_word_fits) (simp add: word_less_nat_alt)
  then have "farm_vcid s < 64 \<longrightarrow> vcid (farm_clcw s) = farm_vcid s \<and> cop_in_effect (farm_clcw s) = 1"
    by (simp add: farm_clcw_def clcw_rw)
  then show ?thesis using assms by (simp add: farm_clcw_fields farm_inv_def and_3_id)
qed

theorem farm_clcw_reports_witness:
  "farm_inv (farm_new \<lparr>fc_vcid = 42, fc_window_width = 10\<rparr>)
   \<and> vcid (farm_clcw (farm_new \<lparr>fc_vcid = 42, fc_window_width = 10\<rparr>)) = 42"
  using farm_clcw_reports [OF farm_new_inv, of "\<lparr>fc_vcid = 42, fc_window_width = 10\<rparr>"]
  by (simp add: farm_new_inv) (simp add: farm_new_def)

end
