(* ===== verification/Slots.thy ===== *)
theory Slots
  imports Leo_Prelude "HOL-Library.Multiset"
begin

text \<open>
  Arrays of slots, some of them in use: the facts the two senders (\<open>Fop\<close> and \<open>Srspp_Sender\<close>)
  share about filling a free slot and about the list of slots in use.
\<close>

text \<open>Filling a free slot of an array adds one element to the slots in use.\<close>

lemma mset_filter_fill:
  assumes "i < length xs" "\<not> P (xs ! i)" "P x"
  shows "mset (filter P (xs[i := x])) = add_mset x (mset (filter P xs))"
proof -
  have "mset (filter P (take i xs @ x # drop (Suc i) xs)) =
      add_mset x (mset (filter P (take i xs @ xs ! i # drop (Suc i) xs)))"
    using assms(2,3) by simp
  then show ?thesis
    using assms(1) by (simp only: upd_conv_take_nth_drop id_take_nth_drop [symmetric])
qed

lemma length_filter_update_less:
  "i < length xs \<Longrightarrow> P (xs ! i) \<Longrightarrow> \<not> P x \<Longrightarrow> length (filter P (xs[i := x])) < length (filter P xs)"
proof -
  assume a: "i < length xs" "P (xs ! i)" "\<not> P x"
  have "filter P (take i xs @ x # drop (Suc i) xs) = filter P (take i xs) @ filter P (drop (Suc i) xs)" using a by simp
  moreover have "filter P (take i xs @ xs ! i # drop (Suc i) xs) = filter P (take i xs) @ xs ! i # filter P (drop (Suc i) xs)"
    using a by simp
  ultimately show ?thesis using a by (simp only: upd_conv_take_nth_drop id_take_nth_drop [symmetric]) simp
qed

lemma filter_map_nth: "map f (filter P xs) = map (\<lambda>i. f (xs ! i)) (filter (\<lambda>i. P (xs ! i)) [0..<length xs])"
proof -
  have "filter P xs = map ((!) xs) (filter (P \<circ> (!) xs) [0..<length xs])"
    using filter_map [of P "(!) xs" "[0..<length xs]"] by (simp only: map_nth)
  then show ?thesis by (simp add: comp_def)
qed

end
