(* ===== verification/Fop.thy ===== *)
theory Fop
  imports Clcw Slots
begin

text \<open>
  FOP-1, the sender of COP-1
  (\<open>crates/leodos-protocols/src/datalink/reliability/cop1/fop.rs\<close>). \<open>fop\<close> is the struct
  \<open>FopMachine<WIN, BUF>\<close>: \<open>sent_queue\<close> is the array of \<open>WIN\<close> slots and \<open>fop_data\<close> the byte
  buffer of \<open>BUF\<close> bytes, filled from the front and emptied only by a purge.
  \<open>fop_handle\<close> is \<open>FopMachine::handle\<close>. The action vector holds \<open>MAX_ACTIONS\<close> (16)
  actions; a push beyond that is dropped, as in the source. The 8-bit counters wrap, as
  they do in the release profile.

  The abstract view of a sender is \<open>outstanding\<close>, the sequence number and payload of every
  frame it still holds; the lemmas describe each operation by what it does to that list.
\<close>

section \<open>Definitions\<close>

datatype FopState = Active | Retransmitting | InitNoBC | InitWithSetVr | InitWithUnlock | Initial

datatype FopEvent =
    SendAd bytes
  | SendBd bytes
  | ClcwReceived clcw
  | TimerExpired
  | InitAdNoClcw
  | InitAdWithClcw
  | InitAdSetVr u8
  | InitAdUnlock
  | Terminate
  | Resume

datatype FopAction =
    TransmitAd u8
  | TransmitBd
  | TransmitBcUnlock
  | TransmitBcSetVr u8
  | StartTimer
  | StopTimer
  | Accept
  | Reject
  | Alert
  | Terminated
  | Acknowledged u8

type_synonym FopActions = "FopAction list"

definition FOP_MAX_ACTIONS :: nat where "FOP_MAX_ACTIONS = 16"

definition fop_push :: "FopActions \<Rightarrow> FopAction \<Rightarrow> FopActions" where
  "fop_push as a = vec_push FOP_MAX_ACTIONS as a"

record FopConfig =
  window_width :: u8
  transmission_limit :: u8
  timeout_type :: u8

record FduSlot =
  slot_occupied :: bool
  slot_seq :: u8
  slot_offset :: nat
  slot_len :: nat
  slot_tx :: u8

definition FduSlot_default :: FduSlot where
  "FduSlot_default =
     \<lparr>slot_occupied = False, slot_seq = 0, slot_offset = 0, slot_len = 0, slot_tx = 0\<rparr>"

record fop =
  fop_state :: FopState
  fop_config :: FopConfig
  fop_vs :: u8
  fop_nnr :: u8
  sent_queue :: "FduSlot list"
  fop_data :: bytes
  fop_write_pos :: nat
  bc_tx :: u8
  set_vr_value :: u8
  pending_bd :: "(nat \<times> nat) option"

definition fop_new :: "nat \<Rightarrow> nat \<Rightarrow> FopConfig \<Rightarrow> fop" where
  "fop_new WIN BUF config =
     \<lparr>fop_state = Initial, fop_config = config, fop_vs = 0, fop_nnr = 0,
      sent_queue = replicate WIN FduSlot_default, fop_data = replicate BUF 0,
      fop_write_pos = 0, bc_tx = 0, set_vr_value = 0, pending_bd = None\<rparr>"

text \<open>\<open>get_fdu\<close> returns the payload of the first occupied slot with the sequence number.\<close>

fun find_slot :: "FduSlot list \<Rightarrow> u8 \<Rightarrow> FduSlot option" where
  "find_slot [] seq = None"
| "find_slot (sl # sls) seq =
     (if slot_occupied sl \<and> slot_seq sl = seq then Some sl else find_slot sls seq)"

definition get_fdu :: "fop \<Rightarrow> u8 \<Rightarrow> bytes option" where
  "get_fdu s seq =
     map_option (\<lambda>sl. bslice (fop_data s) (slot_offset sl) (slot_len sl)) (find_slot (sent_queue s) seq)"

definition get_bd_fdu :: "fop \<Rightarrow> bytes option" where
  "get_bd_fdu s = map_option (\<lambda>(off, n). bslice (fop_data s) off n) (pending_bd s)"

definition sent_count :: "fop \<Rightarrow> nat" where
  "sent_count s = length (filter slot_occupied (sent_queue s))"

definition find_empty_slot :: "fop \<Rightarrow> nat option" where
  "find_empty_slot s = position (\<lambda>sl. \<not> slot_occupied sl) (sent_queue s)"

definition buffer_fdu :: "fop \<Rightarrow> bytes \<Rightarrow> (nat \<times> fop) option" where
  "buffer_fdu s fdu =
     (if fop_write_pos s + length fdu > length (fop_data s) then None
      else let off = fop_write_pos s
           in Some (off, s\<lparr>fop_data := blit (fop_data s) off fdu,
                            fop_write_pos := fop_write_pos s + length fdu\<rparr>))"

definition purge_sent_queue :: "fop \<Rightarrow> fop" where
  "purge_sent_queue s =
     s\<lparr>sent_queue := map (\<lambda>sl. sl\<lparr>slot_occupied := False\<rparr>) (sent_queue s), fop_write_pos := 0\<rparr>"

definition fop_alert :: "fop \<Rightarrow> FopActions \<Rightarrow> fop \<times> FopActions" where
  "fop_alert s acts =
     (let acts = fop_push acts StopTimer; s = purge_sent_queue s
      in (s\<lparr>fop_state := Initial\<rparr>, fop_push acts Alert))"

text \<open>A frame is acknowledged when it is less than 128 behind N(R) modulo 256.\<close>

definition acked_by :: "u8 \<Rightarrow> u8 \<Rightarrow> bool" where
  "acked_by nr seq \<longleftrightarrow> (let dist = nr - seq in dist > 0 \<and> dist < 128)"

fun ack_slots :: "u8 \<Rightarrow> FduSlot list \<Rightarrow> FopActions \<Rightarrow> FduSlot list \<times> FopActions" where
  "ack_slots nr [] acts = ([], acts)"
| "ack_slots nr (sl # sls) acts =
     (if slot_occupied sl \<and> acked_by nr (slot_seq sl)
      then let (sls', acts') = ack_slots nr sls (fop_push acts (Acknowledged (slot_seq sl)))
           in (sl\<lparr>slot_occupied := False\<rparr> # sls', acts')
      else let (sls', acts') = ack_slots nr sls acts in (sl # sls', acts'))"

definition remove_acknowledged :: "fop \<Rightarrow> u8 \<Rightarrow> FopActions \<Rightarrow> fop \<times> FopActions" where
  "remove_acknowledged s nr acts =
     (let (q, acts) = ack_slots nr (sent_queue s) acts in (s\<lparr>sent_queue := q\<rparr>, acts))"

text \<open>
  The insertion sort of \<open>initiate_retransmission\<close>, index by index: \<open>sift\<close> is its inner
  \<open>while\<close> loop at position \<open>j\<close>, \<open>sort_by_distance\<close> its outer \<open>for\<close> loop.
\<close>

fun sift :: "u8 \<Rightarrow> u8 list \<Rightarrow> nat \<Rightarrow> u8 \<Rightarrow> u8 list" where
  "sift nnr seqs 0 key = seqs[0 := key]"
| "sift nnr seqs (Suc j) key =
     (if seqs ! j - nnr \<le> key - nnr then seqs[Suc j := key]
      else sift nnr (seqs[Suc j := seqs ! j]) j key)"

definition sort_by_distance :: "u8 \<Rightarrow> u8 list \<Rightarrow> u8 list" where
  "sort_by_distance nnr seqs =
     fold (\<lambda>i seqs. sift nnr seqs i (seqs ! i)) [1..<length seqs] seqs"

fun bump_tx :: "u8 \<Rightarrow> FduSlot list \<Rightarrow> FduSlot list" where
  "bump_tx seq [] = []"
| "bump_tx seq (sl # sls) =
     (if slot_occupied sl \<and> slot_seq sl = seq then sl\<lparr>slot_tx := slot_tx sl + 1\<rparr> # sls
      else sl # bump_tx seq sls)"

fun retransmit_each :: "u8 list \<Rightarrow> FduSlot list \<Rightarrow> FopActions \<Rightarrow> FduSlot list \<times> FopActions" where
  "retransmit_each [] q acts = (q, acts)"
| "retransmit_each (seq # seqs) q acts =
     retransmit_each seqs (bump_tx seq q) (fop_push acts (TransmitAd seq))"

definition initiate_retransmission :: "fop \<Rightarrow> FopActions \<Rightarrow> fop \<times> FopActions" where
  "initiate_retransmission s acts =
     (let seqs = map slot_seq (filter slot_occupied (sent_queue s));
          seqs = sort_by_distance (fop_nnr s) seqs;
          (q, acts) = retransmit_each seqs (sent_queue s) acts;
          acts = (if seqs \<noteq> [] then fop_push acts StartTimer else acts)
      in (s\<lparr>sent_queue := q\<rparr>, acts))"

definition handle_send_ad :: "fop \<Rightarrow> bytes \<Rightarrow> FopActions \<Rightarrow> fop \<times> FopActions" where
  "handle_send_ad s fdu acts =
     (if fop_state s = Active \<or> fop_state s = Retransmitting then
        case find_empty_slot s of
          None \<Rightarrow> (s, fop_push acts Reject)
        | Some slot_idx \<Rightarrow>
            (case buffer_fdu s fdu of
               None \<Rightarrow> (s, fop_push acts Reject)
             | Some (off, s) \<Rightarrow>
                 let seq = fop_vs s;
                     s = s\<lparr>sent_queue := (sent_queue s)[slot_idx :=
                            \<lparr>slot_occupied = True, slot_seq = seq, slot_offset = off,
                             slot_len = length fdu, slot_tx = 0\<rparr>],
                           fop_vs := fop_vs s + 1\<rparr>
                 in if fop_state s = Active
                    then (s\<lparr>sent_queue := (sent_queue s)[slot_idx := (sent_queue s ! slot_idx)\<lparr>slot_tx := 1\<rparr>]\<rparr>,
                          fop_push (fop_push acts (TransmitAd seq)) StartTimer)
                    else (s, acts))
      else (s, fop_push acts Reject))"

definition handle_send_bd :: "fop \<Rightarrow> bytes \<Rightarrow> FopActions \<Rightarrow> fop \<times> FopActions" where
  "handle_send_bd s fdu acts =
     (case buffer_fdu s fdu of
        None \<Rightarrow> (s, fop_push acts Reject)
      | Some (off, s) \<Rightarrow> (s\<lparr>pending_bd := Some (off, length fdu)\<rparr>, fop_push acts TransmitBd))"

definition handle_clcw :: "fop \<Rightarrow> clcw \<Rightarrow> FopActions \<Rightarrow> fop \<times> FopActions" where
  "handle_clcw s c acts =
     (let nr = report_value c
      in case fop_state s of
           Active \<Rightarrow>
             if lockout c then fop_alert s acts
             else let (s, acts) = remove_acknowledged s nr acts;
                      s = s\<lparr>fop_nnr := nr\<rparr>
                  in if retransmit c
                     then let (s, acts) = initiate_retransmission s acts
                          in (s\<lparr>fop_state := Retransmitting\<rparr>, acts)
                     else if sent_count s = 0 then (s, fop_push acts StopTimer)
                     else (s, acts)
         | Retransmitting \<Rightarrow>
             if lockout c then fop_alert s acts
             else let (s, acts) = remove_acknowledged s nr acts;
                      s = s\<lparr>fop_nnr := nr\<rparr>
                  in if \<not> retransmit c
                     then let s = s\<lparr>fop_state := Active\<rparr>
                          in if sent_count s = 0 then (s, fop_push acts StopTimer) else (s, acts)
                     else (s, acts)
         | InitWithSetVr \<Rightarrow>
             if nr = set_vr_value s \<and> \<not> lockout c \<and> \<not> retransmit c
             then let s = s\<lparr>fop_vs := set_vr_value s, fop_nnr := nr\<rparr>;
                      s = purge_sent_queue s
                  in (s\<lparr>fop_state := Active\<rparr>, fop_push (fop_push acts StopTimer) Accept)
             else (s, acts)
         | InitWithUnlock \<Rightarrow>
             if \<not> lockout c \<and> \<not> retransmit c
             then let s = s\<lparr>fop_nnr := nr, fop_vs := nr\<rparr>;
                      s = purge_sent_queue s
                  in (s\<lparr>fop_state := Active\<rparr>, fop_push (fop_push acts StopTimer) Accept)
             else (s, acts)
         | InitNoBC \<Rightarrow> (s, acts)
         | Initial \<Rightarrow> (s, acts))"

definition handle_timer_expired :: "fop \<Rightarrow> FopActions \<Rightarrow> fop \<times> FopActions" where
  "handle_timer_expired s acts =
     (case fop_state s of
        InitWithSetVr \<Rightarrow>
          (let s = s\<lparr>bc_tx := bc_tx s + 1\<rparr>
           in if bc_tx s \<ge> transmission_limit (fop_config s) then fop_alert s acts
              else (s, fop_push (fop_push acts (TransmitBcSetVr (set_vr_value s))) StartTimer))
      | InitWithUnlock \<Rightarrow>
          (let s = s\<lparr>bc_tx := bc_tx s + 1\<rparr>
           in if bc_tx s \<ge> transmission_limit (fop_config s) then fop_alert s acts
              else (s, fop_push (fop_push acts TransmitBcUnlock) StartTimer))
      | InitNoBC \<Rightarrow> (s, acts)
      | Initial \<Rightarrow> (s, acts)
      | _ \<Rightarrow>
          if \<exists>sl\<in>set (sent_queue s). slot_occupied sl \<and> slot_tx sl \<ge> transmission_limit (fop_config s)
          then fop_alert s acts
          else let (s, acts) = initiate_retransmission s acts
               in (s\<lparr>fop_state := Retransmitting\<rparr>, acts))"

definition handle_init_no_clcw :: "fop \<Rightarrow> FopActions \<Rightarrow> fop \<times> FopActions" where
  "handle_init_no_clcw s acts =
     (if fop_state s = Initial
      then ((purge_sent_queue s)\<lparr>fop_state := Active\<rparr>, fop_push acts Accept)
      else (s, fop_push acts Reject))"

definition handle_init_with_clcw :: "fop \<Rightarrow> FopActions \<Rightarrow> fop \<times> FopActions" where
  "handle_init_with_clcw s acts =
     (if fop_state s = Initial
      then ((purge_sent_queue s)\<lparr>fop_state := InitNoBC\<rparr>, fop_push acts StartTimer)
      else (s, fop_push acts Reject))"

definition handle_init_set_vr :: "fop \<Rightarrow> u8 \<Rightarrow> FopActions \<Rightarrow> fop \<times> FopActions" where
  "handle_init_set_vr s vr acts =
     (if fop_state s = Initial
      then ((purge_sent_queue (s\<lparr>set_vr_value := vr, bc_tx := 1\<rparr>))\<lparr>fop_state := InitWithSetVr\<rparr>,
            fop_push (fop_push acts (TransmitBcSetVr vr)) StartTimer)
      else (s, fop_push acts Reject))"

definition handle_init_unlock :: "fop \<Rightarrow> FopActions \<Rightarrow> fop \<times> FopActions" where
  "handle_init_unlock s acts =
     (if fop_state s = Initial
      then ((purge_sent_queue (s\<lparr>bc_tx := 1\<rparr>))\<lparr>fop_state := InitWithUnlock\<rparr>,
            fop_push (fop_push acts TransmitBcUnlock) StartTimer)
      else (s, fop_push acts Reject))"

definition handle_terminate :: "fop \<Rightarrow> FopActions \<Rightarrow> fop \<times> FopActions" where
  "handle_terminate s acts =
     (let acts = fop_push acts StopTimer; s = purge_sent_queue s
      in (s\<lparr>fop_state := Initial\<rparr>, fop_push acts Terminated))"

definition handle_resume :: "fop \<Rightarrow> FopActions \<Rightarrow> fop \<times> FopActions" where
  "handle_resume s acts =
     (if fop_state s = Initial then (s\<lparr>fop_state := Active\<rparr>, fop_push acts Accept)
      else (s, fop_push acts Reject))"

definition fop_handle :: "fop \<Rightarrow> FopEvent \<Rightarrow> fop \<times> FopActions" where
  "fop_handle s ev =
     (let acts = []
      in case ev of
           SendAd fdu \<Rightarrow> handle_send_ad s fdu acts
         | SendBd fdu \<Rightarrow> handle_send_bd s fdu acts
         | ClcwReceived c \<Rightarrow> handle_clcw s c acts
         | TimerExpired \<Rightarrow> handle_timer_expired s acts
         | InitAdNoClcw \<Rightarrow> handle_init_no_clcw s acts
         | InitAdWithClcw \<Rightarrow> handle_init_with_clcw s acts
         | InitAdSetVr vr \<Rightarrow> handle_init_set_vr s vr acts
         | InitAdUnlock \<Rightarrow> handle_init_unlock s acts
         | Terminate \<Rightarrow> handle_terminate s acts
         | Resume \<Rightarrow> handle_resume s acts)"

fun fop_run :: "fop \<Rightarrow> FopEvent list \<Rightarrow> fop \<times> FopActions" where
  "fop_run s [] = (s, [])"
| "fop_run s (e # es) =
     (let (s', as) = fop_handle s e; (s'', bs) = fop_run s' es in (s'', as @ bs))"

section \<open>Invariant and abstract view\<close>

text \<open>
  The buffer invariant: the arrays have their sizes, the write position is inside the
  buffer, and every frame held lies below the write position, so that buffering a new
  FDU never overwrites one.
\<close>

definition slot_ok :: "fop \<Rightarrow> FduSlot \<Rightarrow> bool" where
  "slot_ok s sl \<longleftrightarrow> (slot_occupied sl \<longrightarrow> slot_offset sl + slot_len sl \<le> fop_write_pos s)"

definition fop_wf :: "nat \<Rightarrow> nat \<Rightarrow> fop \<Rightarrow> bool" where
  "fop_wf WIN BUF s \<longleftrightarrow>
     length (sent_queue s) = WIN \<and> length (fop_data s) = BUF \<and> fop_write_pos s \<le> BUF \<and>
     (\<forall>sl\<in>set (sent_queue s). slot_ok s sl)"

definition slot_view :: "bytes \<Rightarrow> FduSlot \<Rightarrow> u8 \<times> bytes" where
  "slot_view d sl = (slot_seq sl, bslice d (slot_offset sl) (slot_len sl))"

definition outstanding :: "fop \<Rightarrow> (u8 \<times> bytes) list" where
  "outstanding s = map (slot_view (fop_data s)) (filter slot_occupied (sent_queue s))"

section \<open>Lemmas\<close>

subsection \<open>The retransmission order\<close>

lemma sift_spec:
  "\<exists>ys. sift nnr (xs @ y # zs) (length xs) key = ys @ zs \<and> mset ys = add_mset key (mset xs)
     \<and> (sorted (map (\<lambda>q. q - nnr) xs) \<longrightarrow> sorted (map (\<lambda>q. q - nnr) ys))"
proof (induction xs arbitrary: y zs rule: rev_induct)
  case Nil
  show ?case by (intro exI [of _ "[key]"]) simp
next
  case (snoc x xs)
  show ?case
  proof (cases "x - nnr \<le> key - nnr")
    case True
    then show ?thesis
      by (intro exI [of _ "xs @ [x, key]"]) (auto simp: nth_append list_update_append sorted_append)
  next
    case False
    obtain ys where ys: "sift nnr (xs @ x # x # zs) (length xs) key = ys @ x # zs"
      "mset ys = add_mset key (mset xs)"
      "sorted (map (\<lambda>q. q - nnr) xs) \<longrightarrow> sorted (map (\<lambda>q. q - nnr) ys)"
      using snoc.IH [of x "x # zs"] by blast
    have "set ys = insert key (set xs)" using ys(2) by (metis set_mset_add_mset_insert set_mset_mset)
    then show ?thesis using False ys
      by (intro exI [of _ "ys @ [x]"]) (auto simp: nth_append list_update_append sorted_append)
  qed
qed

lemma sift_at:
  assumes "n < length r"
  shows "\<exists>ys. sift nnr r n (r ! n) = ys @ drop (Suc n) r \<and> length ys = Suc n \<and> mset (ys @ drop (Suc n) r) = mset r
     \<and> (sorted (map (\<lambda>q. q - nnr) (take n r)) \<longrightarrow> sorted (map (\<lambda>q. q - nnr) ys))"
proof -
  have r: "take n r @ r ! n # drop (Suc n) r = r" using assms by (rule id_take_nth_drop [symmetric])
  have n: "length (take n r) = n" using assms by simp
  obtain ys where ys: "sift nnr r n (r ! n) = ys @ drop (Suc n) r" "mset ys = add_mset (r ! n) (mset (take n r))"
    "sorted (map (\<lambda>q. q - nnr) (take n r)) \<longrightarrow> sorted (map (\<lambda>q. q - nnr) ys)"
    using sift_spec [of nnr "take n r" "r ! n" "drop (Suc n) r" "r ! n"] unfolding r n by blast
  have "length ys = Suc n" using arg_cong [OF ys(2), of size] n by simp
  moreover have "mset (ys @ drop (Suc n) r) = mset (take n r @ r ! n # drop (Suc n) r)" using ys(2) by simp
  ultimately show ?thesis using ys(1,3) unfolding r by blast
qed

lemma sort_by_distance_upto:
  fixes nnr :: u8
  assumes "1 \<le> n" "n \<le> length seqs"
  defines "r \<equiv> fold (\<lambda>i seqs. sift nnr seqs i (seqs ! i)) [1..<n] seqs"
  shows "mset r = mset seqs \<and> sorted (map (\<lambda>q. q - nnr) (take n r)) \<and> drop n r = drop n seqs"
  unfolding r_def using assms(1,2)
proof (induction n rule: nat_induct_at_least)
  case base
  then show ?case by (cases seqs) simp_all
next
  case (Suc n)
  let ?r = "fold (\<lambda>i seqs. sift nnr seqs i (seqs ! i)) [1..<n] seqs"
  have IH: "mset ?r = mset seqs" "sorted (map (\<lambda>q. q - nnr) (take n ?r))" "drop n ?r = drop n seqs"
    using Suc by simp_all
  have "length ?r = length seqs" using IH(1) by (rule mset_eq_length)
  then have "n < length ?r" using Suc.prems by linarith
  from sift_at [OF this, of nnr] obtain ys where ys: "sift nnr ?r n (?r ! n) = ys @ drop (Suc n) ?r"
    "length ys = Suc n" "mset (ys @ drop (Suc n) ?r) = mset ?r"
    "sorted (map (\<lambda>q. q - nnr) (take n ?r)) \<longrightarrow> sorted (map (\<lambda>q. q - nnr) ys)" by blast
  moreover have "drop (Suc n) ?r = drop (Suc n) seqs" unfolding drop_Suc drop_tl IH(3) ..
  moreover have "fold (\<lambda>i seqs. sift nnr seqs i (seqs ! i)) [1..<Suc n] seqs = sift nnr ?r n (?r ! n)"
    using Suc.hyps by simp
  ultimately show ?case using IH(1,2) by simp
qed

lemma sort_by_distance_spec:
  "mset (sort_by_distance nnr seqs) = mset seqs"
  "sorted (map (\<lambda>q. q - nnr) (sort_by_distance nnr seqs))"
proof -
  have "mset (sort_by_distance nnr seqs) = mset seqs \<and> sorted (map (\<lambda>q. q - nnr) (sort_by_distance nnr seqs))"
  proof (cases "seqs = []")
    case True
    then show ?thesis by (simp add: sort_by_distance_def)
  next
    case False
    then have n: "1 \<le> length seqs" by (simp add: Suc_le_eq)
    note sp = sort_by_distance_upto [OF n order_refl, of nnr]
    then have "length (sort_by_distance nnr seqs) = length seqs"
      unfolding sort_by_distance_def by (intro mset_eq_length) simp
    then show ?thesis using sp unfolding sort_by_distance_def by simp
  qed
  then show "mset (sort_by_distance nnr seqs) = mset seqs"
    "sorted (map (\<lambda>q. q - nnr) (sort_by_distance nnr seqs))" by simp_all
qed

subsection \<open>The helpers on the slot array\<close>

lemma ack_slots_queue:
  "fst (ack_slots nr q acts) =
     map (\<lambda>sl. if slot_occupied sl \<and> acked_by nr (slot_seq sl) then sl\<lparr>slot_occupied := False\<rparr> else sl) q"
  by (induction q arbitrary: acts) (simp_all add: case_prod_beta Let_def)

lemma filter_ack_slots:
  "filter slot_occupied (fst (ack_slots nr q acts)) =
     filter (\<lambda>sl. \<not> acked_by nr (slot_seq sl)) (filter slot_occupied q)"
  unfolding ack_slots_queue by (induction q) auto

lemma ack_slots_acts_prefix: "prefix acts (snd (ack_slots nr q acts))"
proof (induction q arbitrary: acts)
  case Nil
  show ?case by simp
next
  case (Cons sl q)
  have "prefix acts (fop_push acts a)" for a by (simp add: fop_push_def prefix_vec_push)
  then show ?case using Cons.IH by (auto simp: case_prod_beta Let_def intro: prefix_order.trans)
qed

text \<open>\<open>untx\<close> forgets the transmission count, the only field a retransmission changes.\<close>

definition untx :: "FduSlot \<Rightarrow> FduSlot" where
  "untx sl = sl\<lparr>slot_tx := 0\<rparr>"

lemma untx_sel [simp]:
  "slot_occupied (untx sl) = slot_occupied sl" "slot_seq (untx sl) = slot_seq sl"
  "slot_offset (untx sl) = slot_offset sl" "slot_len (untx sl) = slot_len sl"
  "slot_view d (untx sl) = slot_view d sl"
  by (simp_all add: untx_def slot_view_def)

lemma untx_bump [simp]: "map untx (bump_tx seq q) = map untx q"
  by (induction q) (simp_all add: untx_def)

lemma untx_retransmit_each [simp]: "map untx (fst (retransmit_each seqs q acts)) = map untx q"
  by (induction seqs arbitrary: q acts) simp_all

lemma same_untx_views:
  assumes "map untx q = map untx q'"
  shows "map (slot_view d) (filter slot_occupied q) = map (slot_view d) (filter slot_occupied q')"
proof -
  have "map (slot_view d) (filter slot_occupied q) = map (slot_view d) (filter slot_occupied (map untx q))" for q
    by (simp add: filter_map comp_def)
  from this [of q] this [of q'] show ?thesis using assms by (simp only:)
qed

lemma same_untx_ok:
  assumes "map untx q = map untx q'"
  shows "(\<forall>sl\<in>set q. slot_ok s sl) = (\<forall>sl\<in>set q'. slot_ok s sl)"
proof -
  have "(\<forall>sl\<in>set q. slot_ok s sl) = (\<forall>sl\<in>set (map untx q). slot_ok s sl)" for q
    by (simp add: slot_ok_def)
  from this [of q] this [of q'] show ?thesis using assms by (simp only:)
qed

lemma retransmit_each_acts:
  "snd (retransmit_each seqs q acts) = fold (\<lambda>q acts. fop_push acts (TransmitAd q)) seqs acts"
  by (induction seqs arbitrary: q acts) simp_all

lemma fold_push_take:
  "length acts \<le> FOP_MAX_ACTIONS \<Longrightarrow>
   fold (\<lambda>x acts. fop_push acts (f x)) xs acts = acts @ take (FOP_MAX_ACTIONS - length acts) (map f xs)"
proof (induction xs arbitrary: acts)
  case Nil
  show ?case by simp
next
  case (Cons x xs)
  show ?case
  proof (cases "length acts < FOP_MAX_ACTIONS")
    case True
    then have "FOP_MAX_ACTIONS - length acts = Suc (FOP_MAX_ACTIONS - Suc (length acts))" by simp
    then show ?thesis using True Cons.IH [of "acts @ [f x]"] by (simp add: fop_push_def)
  next
    case False
    then show ?thesis using Cons by (simp add: fop_push_def)
  qed
qed

lemma find_slot_views:
  "map_option (\<lambda>sl. bslice d (slot_offset sl) (slot_len sl)) (find_slot q seq) =
     map_of (map (slot_view d) (filter slot_occupied q)) seq"
  by (induction q) (auto simp: slot_view_def)

lemma get_fdu_outstanding: "get_fdu s seq = map_of (outstanding s) seq"
  by (simp add: get_fdu_def outstanding_def find_slot_views)

lemma sent_count_outstanding: "sent_count s = length (outstanding s)"
  by (simp add: sent_count_def outstanding_def)

lemma outstanding_upd [simp]:
  "outstanding (s\<lparr>fop_state := a\<rparr>) = outstanding s" "outstanding (s\<lparr>fop_nnr := b\<rparr>) = outstanding s"
  "outstanding (s\<lparr>fop_vs := c\<rparr>) = outstanding s" "outstanding (s\<lparr>pending_bd := e\<rparr>) = outstanding s"
  "outstanding (s\<lparr>bc_tx := f\<rparr>) = outstanding s" "outstanding (s\<lparr>set_vr_value := g\<rparr>) = outstanding s"
  by (simp_all add: outstanding_def)

lemma fop_wf_upd [simp]:
  "fop_wf W B (s\<lparr>fop_state := a\<rparr>) = fop_wf W B s" "fop_wf W B (s\<lparr>fop_nnr := b\<rparr>) = fop_wf W B s"
  "fop_wf W B (s\<lparr>fop_vs := c\<rparr>) = fop_wf W B s" "fop_wf W B (s\<lparr>pending_bd := e\<rparr>) = fop_wf W B s"
  "fop_wf W B (s\<lparr>bc_tx := f\<rparr>) = fop_wf W B s" "fop_wf W B (s\<lparr>set_vr_value := g\<rparr>) = fop_wf W B s"
  by (simp_all add: fop_wf_def slot_ok_def)

subsection \<open>Purge, acknowledgement and retransmission\<close>

lemma purge_views [simp]:
  "outstanding (purge_sent_queue s) = []" "fop_wf W B s \<Longrightarrow> fop_wf W B (purge_sent_queue s)"
  "fop_state (purge_sent_queue s) = fop_state s" "fop_vs (purge_sent_queue s) = fop_vs s"
  "fop_config (purge_sent_queue s) = fop_config s" "bc_tx (purge_sent_queue s) = bc_tx s"
  by (auto simp: purge_sent_queue_def outstanding_def fop_wf_def slot_ok_def filter_map comp_def)

lemma fop_alert_views [simp]:
  "outstanding (fst (fop_alert s acts)) = []" "fop_wf W B s \<Longrightarrow> fop_wf W B (fst (fop_alert s acts))"
  "fop_state (fst (fop_alert s acts)) = Initial" "fop_vs (fst (fop_alert s acts)) = fop_vs s"
  by (simp_all add: fop_alert_def Let_def)

lemma remove_acknowledged_views [simp]:
  "outstanding (fst (remove_acknowledged s nr acts)) = filter (\<lambda>f. \<not> acked_by nr (fst f)) (outstanding s)"
  "fop_wf W B s \<Longrightarrow> fop_wf W B (fst (remove_acknowledged s nr acts))"
  "fop_state (fst (remove_acknowledged s nr acts)) = fop_state s"
  "fop_vs (fst (remove_acknowledged s nr acts)) = fop_vs s"
proof -
  show "outstanding (fst (remove_acknowledged s nr acts)) = filter (\<lambda>f. \<not> acked_by nr (fst f)) (outstanding s)"
    by (simp add: remove_acknowledged_def case_prod_beta Let_def outstanding_def filter_ack_slots
        filter_map comp_def slot_view_def)
qed (auto simp: remove_acknowledged_def case_prod_beta Let_def fop_wf_def slot_ok_def ack_slots_queue)

lemma initiate_retransmission_views [simp]:
  "outstanding (fst (initiate_retransmission s acts)) = outstanding s"
  "fop_wf W B s \<Longrightarrow> fop_wf W B (fst (initiate_retransmission s acts))"
  "fop_state (fst (initiate_retransmission s acts)) = fop_state s"
  "fop_vs (fst (initiate_retransmission s acts)) = fop_vs s"
proof -
  let ?q = "fst (retransmit_each (sort_by_distance (fop_nnr s) (map slot_seq (filter slot_occupied (sent_queue s))))
      (sent_queue s) acts)"
  have q: "map untx ?q = map untx (sent_queue s)" by simp
  then have len: "length ?q = length (sent_queue s)" by (metis length_map)
  have st: "fst (initiate_retransmission s acts) = s\<lparr>sent_queue := ?q\<rparr>"
    by (simp add: initiate_retransmission_def case_prod_beta Let_def)
  show "outstanding (fst (initiate_retransmission s acts)) = outstanding s"
    using same_untx_views [OF q] by (simp add: st outstanding_def)
  show "fop_wf W B s \<Longrightarrow> fop_wf W B (fst (initiate_retransmission s acts))"
    using same_untx_ok [OF q, of s] len by (simp add: st fop_wf_def slot_ok_def)
  show "fop_state (fst (initiate_retransmission s acts)) = fop_state s"
    "fop_vs (fst (initiate_retransmission s acts)) = fop_vs s" by (simp_all add: st)
qed

subsection \<open>Sending\<close>

lemma buffer_fdu_views:
  assumes "fop_wf W B s" "buffer_fdu s fdu = Some (off, s')"
  shows "off = fop_write_pos s" "fop_wf W B s'" "outstanding s' = outstanding s"
    "sent_queue s' = sent_queue s" "fop_vs s' = fop_vs s" "fop_state s' = fop_state s"
    "fop_write_pos s' = off + length fdu" "bslice (fop_data s') off (length fdu) = fdu"
proof -
  have room: "fop_write_pos s + length fdu \<le> length (fop_data s)"
    and s': "s' = s\<lparr>fop_data := blit (fop_data s) (fop_write_pos s) fdu,
                fop_write_pos := fop_write_pos s + length fdu\<rparr>" and off: "off = fop_write_pos s"
    using assms(2) by (auto simp: buffer_fdu_def Let_def split: if_splits)
  then show "off = fop_write_pos s" "sent_queue s' = sent_queue s" "fop_vs s' = fop_vs s"
    "fop_state s' = fop_state s" "fop_write_pos s' = off + length fdu" "bslice (fop_data s') off (length fdu) = fdu"
    by simp_all
  show "fop_wf W B s'" using assms(1) room by (auto simp: s' fop_wf_def slot_ok_def)
  have "slot_view (fop_data s') sl = slot_view (fop_data s) sl" if "sl \<in> set (sent_queue s)" "slot_occupied sl" for sl
    using that assms(1) room by (simp add: s' slot_view_def fop_wf_def slot_ok_def)
  then show "outstanding s' = outstanding s" by (simp add: s' outstanding_def)
qed

text \<open>\<open>can_send\<close> is the condition under which an AD frame is taken on.\<close>

definition can_send :: "fop \<Rightarrow> bytes \<Rightarrow> bool" where
  "can_send s fdu \<longleftrightarrow> (fop_state s = Active \<or> fop_state s = Retransmitting) \<and>
     (\<exists>sl\<in>set (sent_queue s). \<not> slot_occupied sl) \<and> fop_write_pos s + length fdu \<le> length (fop_data s)"

lemma handle_send_ad_reject: "\<not> can_send s fdu \<Longrightarrow> handle_send_ad s fdu acts = (s, fop_push acts Reject)"
proof -
  assume no: "\<not> can_send s fdu"
  show ?thesis
  proof (cases "fop_state s = Active \<or> fop_state s = Retransmitting")
    case False
    then show ?thesis by (simp add: handle_send_ad_def)
  next
    case True
    show ?thesis
    proof (cases "find_empty_slot s")
      case None
      then show ?thesis using True by (simp add: handle_send_ad_def)
    next
      case (Some i)
      then have "\<exists>sl\<in>set (sent_queue s). \<not> slot_occupied sl"
        unfolding find_empty_slot_def using position_SomeD nth_mem by metis
      then have "buffer_fdu s fdu = None" using no True by (simp add: can_send_def buffer_fdu_def)
      then show ?thesis using True Some by (simp add: handle_send_ad_def)
    qed
  qed
qed

lemma handle_send_ad_accept:
  fixes acts :: FopActions
  assumes "fop_wf W B s" "can_send s fdu"
  defines "s' \<equiv> fst (handle_send_ad s fdu acts)"
  shows "fop_wf W B s'" "mset (outstanding s') = add_mset (fop_vs s, fdu) (mset (outstanding s))"
    "fop_vs s' = fop_vs s + 1" "fop_state s' = fop_state s"
    "snd (handle_send_ad s fdu acts) =
       (if fop_state s = Active then fop_push (fop_push acts (TransmitAd (fop_vs s))) StartTimer else acts)"
proof -
  obtain i where i: "find_empty_slot s = Some i"
    using assms(2) unfolding can_send_def find_empty_slot_def by (metis not_None_eq position_None)
  have il: "i < length (sent_queue s)" and free: "\<not> slot_occupied (sent_queue s ! i)"
    using i position_SomeD unfolding find_empty_slot_def by metis+
  obtain t where t: "buffer_fdu s fdu = Some (fop_write_pos s, t)"
    using assms(2) by (auto simp: can_send_def buffer_fdu_def Let_def)
  note bf = buffer_fdu_views [OF assms(1) t]
  let ?sl = "\<lambda>n. \<lparr>slot_occupied = True, slot_seq = fop_vs s, slot_offset = fop_write_pos s,
                 slot_len = length fdu, slot_tx = n\<rparr>"
  obtain n where q: "sent_queue s' = (sent_queue s)[i := ?sl n]" and d: "fop_data s' = fop_data t"
    "fop_write_pos s' = fop_write_pos t"
    using assms(2) i t bf il by (auto simp: s'_def handle_send_ad_def can_send_def Let_def)
  show "fop_vs s' = fop_vs s + 1" "fop_state s' = fop_state s"
    "snd (handle_send_ad s fdu acts) =
       (if fop_state s = Active then fop_push (fop_push acts (TransmitAd (fop_vs s))) StartTimer else acts)"
    using assms(2) i t bf by (auto simp: s'_def handle_send_ad_def can_send_def Let_def)
  have tok: "\<forall>sl\<in>set (sent_queue s). slot_ok t sl" and tl: "length (fop_data t) = B" "fop_write_pos t \<le> B"
    using bf(2,4) by (simp_all add: fop_wf_def)
  have "slot_ok t (?sl n)" using bf(7) by (simp add: slot_ok_def)
  then have "\<forall>sl\<in>set (sent_queue s'). slot_ok t sl" using tok set_update_subset_insert [of "sent_queue s" i "?sl n"]
    unfolding q by blast
  then show "fop_wf W B s'" using assms(1) tl il by (simp add: fop_wf_def q d slot_ok_def)
  have "mset (filter slot_occupied (sent_queue s')) = add_mset (?sl n) (mset (filter slot_occupied (sent_queue s)))"
    unfolding q by (rule mset_filter_fill) (use il free in simp_all)
  then have "mset (outstanding s') =
      add_mset (slot_view (fop_data t) (?sl n)) (mset (map (slot_view (fop_data t)) (filter slot_occupied (sent_queue s))))"
    by (simp add: outstanding_def d)
  moreover have "map (slot_view (fop_data t)) (filter slot_occupied (sent_queue s)) = outstanding s"
    using bf(3,4) by (simp add: outstanding_def)
  moreover have "slot_view (fop_data t) (?sl n) = (fop_vs s, fdu)" using bf(8) by (simp add: slot_view_def)
  ultimately show "mset (outstanding s') = add_mset (fop_vs s, fdu) (mset (outstanding s))" by simp
qed

subsection \<open>Every event keeps the buffer invariant\<close>

lemma fst_fop_run_Cons [simp]: "fst (fop_run s (e # es)) = fst (fop_run (fst (fop_handle s e)) es)"
  by (simp add: case_prod_beta Let_def)

lemma snd_fop_run_Cons [simp]:
  "snd (fop_run s (e # es)) = snd (fop_handle s e) @ snd (fop_run (fst (fop_handle s e)) es)"
  by (simp add: case_prod_beta Let_def)

declare fop_run.simps(2) [simp del]

lemma fop_run_append:
  "fop_run s (es @ fs) = (fst (fop_run (fst (fop_run s es)) fs), snd (fop_run s es) @ snd (fop_run (fst (fop_run s es)) fs))"
  by (induction es arbitrary: s) (simp_all add: prod_eq_iff)

lemma fop_new_wf: "fop_wf W B (fop_new W B config)"
  by (simp add: fop_wf_def fop_new_def slot_ok_def FduSlot_default_def)

lemma handle_send_ad_wf: "fop_wf W B s \<Longrightarrow> fop_wf W B (fst (handle_send_ad s fdu acts))"
  by (cases "can_send s fdu") (simp_all add: handle_send_ad_reject handle_send_ad_accept)

lemma handle_send_bd_wf: "fop_wf W B s \<Longrightarrow> fop_wf W B (fst (handle_send_bd s fdu acts))"
  by (auto simp: handle_send_bd_def split: option.splits dest: buffer_fdu_views)

lemma handle_clcw_wf: "fop_wf W B s \<Longrightarrow> fop_wf W B (fst (handle_clcw s c acts))"
  by (cases "fop_state s") (simp_all add: handle_clcw_def Let_def case_prod_beta)

lemma handle_timer_expired_wf: "fop_wf W B s \<Longrightarrow> fop_wf W B (fst (handle_timer_expired s acts))"
  by (cases "fop_state s") (simp_all add: handle_timer_expired_def Let_def case_prod_beta)

lemmas fop_init_defs =
  handle_init_no_clcw_def handle_init_with_clcw_def handle_init_set_vr_def handle_init_unlock_def
  handle_terminate_def handle_resume_def

lemma fop_handle_wf: "fop_wf W B s \<Longrightarrow> fop_wf W B (fst (fop_handle s ev))"
  by (cases ev) (simp_all add: fop_handle_def handle_send_ad_wf handle_send_bd_wf handle_clcw_wf
      handle_timer_expired_wf fop_init_defs Let_def)

text \<open>
  C29: No event sequence breaks FOP-1's buffer invariant: from \<open>new\<close>, the arrays keep their
  sizes \<open>WIN\<close> and \<open>BUF\<close>, the write position never passes \<open>BUF\<close>, and every frame held
  lies inside the written part of the buffer, so \<open>get_fdu\<close> never slices out of range.
\<close>

theorem fop_run_wf: "fop_wf W B (fst (fop_run (fop_new W B config) es))"
proof -
  have "fop_wf W B s \<Longrightarrow> fop_wf W B (fst (fop_run s es))" for s
    by (induction es arbitrary: s) (simp_all add: fop_handle_wf)
  then show ?thesis by (simp add: fop_new_wf)
qed

subsection \<open>What each event does to the frames held\<close>

text \<open>
  An expired timer exhausts the transmission limit when a frame held has been sent that
  often, or, while a BC frame awaits its answer, when this would be its last attempt.
\<close>

definition timer_exhausted :: "fop \<Rightarrow> bool" where
  "timer_exhausted s \<longleftrightarrow>
     (if fop_state s \<in> {Active, Retransmitting}
      then \<exists>sl\<in>set (sent_queue s). slot_occupied sl \<and> slot_tx sl \<ge> transmission_limit (fop_config s)
      else fop_state s \<in> {InitWithSetVr, InitWithUnlock} \<and> bc_tx s + 1 \<ge> transmission_limit (fop_config s))"

text \<open>
  The abstract sender: a bag of frames. \<open>window_spec\<close> says what becomes of the bag; it
  names no slot, offset or buffer.
\<close>

definition window_spec :: "fop \<Rightarrow> FopEvent \<Rightarrow> (u8 \<times> bytes) multiset" where
  "window_spec s ev =
     (let held = mset (outstanding s); sending = fop_state s \<in> {Active, Retransmitting}
      in case ev of
           SendAd fdu \<Rightarrow> if can_send s fdu then add_mset (fop_vs s, fdu) held else held
         | ClcwReceived c \<Rightarrow>
             if sending then if lockout c then {#} else filter_mset (\<lambda>f. \<not> acked_by (report_value c) (fst f)) held
             else if fop_state s = InitWithUnlock \<and> \<not> lockout c \<and> \<not> retransmit c then {#}
             else if fop_state s = InitWithSetVr \<and> report_value c = set_vr_value s \<and> \<not> lockout c \<and> \<not> retransmit c
             then {#} else held
         | TimerExpired \<Rightarrow>
             if timer_exhausted s then {#} else held
         | SendBd fdu \<Rightarrow> held
         | Terminate \<Rightarrow> {#}
         | Resume \<Rightarrow> held
         | _ \<Rightarrow> if fop_state s = Initial then {#} else held)"

lemma fop_refines:
  assumes "fop_wf W B s"
  shows "mset (outstanding (fst (fop_handle s ev))) = window_spec s ev"
proof (cases ev)
  case (SendAd fdu)
  then show ?thesis using assms
    by (cases "can_send s fdu") (simp_all add: fop_handle_def window_spec_def handle_send_ad_reject handle_send_ad_accept)
next
  case (SendBd fdu)
  have "outstanding (fst (handle_send_bd s fdu acts)) = outstanding s" for acts
    using buffer_fdu_views(3) [OF assms] by (auto simp: handle_send_bd_def split: option.split)
  then show ?thesis using SendBd by (simp add: fop_handle_def window_spec_def)
next
  case (ClcwReceived c)
  then show ?thesis
    by (cases "fop_state s") (simp_all add: fop_handle_def window_spec_def handle_clcw_def Let_def case_prod_beta)
next
  case TimerExpired
  then show ?thesis
    by (cases "fop_state s")
      (auto simp: fop_handle_def window_spec_def handle_timer_expired_def Let_def case_prod_beta timer_exhausted_def)
qed (simp_all add: fop_handle_def window_spec_def fop_init_defs Let_def)

text \<open>
  C40: Refinement to a bag of frames. For every state satisfying the buffer invariant and
  every event, the frames FOP-1 holds afterwards (sequence numbers with their payload
  bytes, read back from the shared buffer) are exactly those of the abstract sender: a
  send adds one frame under V(S), a CLCW removes exactly the acknowledged ones, an alert,
  a successful initialisation or a termination removes all, and nothing else changes any
  payload.
\<close>

theorem fop_refines_window:
  assumes "fop_wf W B s"
  shows "mset (outstanding (fst (fop_handle s ev))) = window_spec s ev"
  using assms by (rule fop_refines)

text \<open>A small machine used as a concrete instance: window 2, buffer of 8 bytes, limit 3.\<close>

definition demo_config :: FopConfig where
  "demo_config = \<lparr>window_width = 4, transmission_limit = 3, timeout_type = 0\<rparr>"

definition demo_fop :: fop where
  "demo_fop = fst (fop_handle (fop_new 2 8 demo_config) InitAdNoClcw)"

lemma demo_fop_wf: "fop_wf 2 8 demo_fop"
  unfolding demo_fop_def by (intro fop_handle_wf fop_new_wf)

lemma demo_fop_views [simp]:
  "outstanding demo_fop = []" "fop_state demo_fop = Active" "fop_vs demo_fop = 0"
  "fop_write_pos demo_fop = 0" "length (fop_data demo_fop) = 8"
  "sent_queue demo_fop = [FduSlot_default, FduSlot_default]"
  by (simp_all add: demo_fop_def fop_handle_def handle_init_no_clcw_def fop_new_def outstanding_def
      purge_sent_queue_def FduSlot_default_def replicate_two)

lemma demo_can_send: "can_send demo_fop [7, 8]"
  by (simp add: can_send_def FduSlot_default_def)

theorem fop_refines_window_witness:
  "fop_wf 2 8 demo_fop \<and> mset (outstanding (fst (fop_handle demo_fop (SendAd [7, 8])))) = {#(0, [7, 8])#}"
  using fop_refines_window [OF demo_fop_wf, of "SendAd [7, 8]"] demo_fop_wf demo_can_send
  by (simp add: window_spec_def)

subsection \<open>Payloads\<close>

text \<open>
  C15: What goes in comes out. When FOP-1 takes on an FDU under V(S), \<open>get_fdu\<close> afterwards
  returns exactly that FDU for V(S) and the same payloads as before for every other
  sequence number, provided no frame still held carries V(S) or shares its number.
\<close>

theorem fop_get_fdu_after_send:
  assumes "fop_wf W B s" "can_send s fdu" "distinct (map fst (outstanding s))"
    "fop_vs s \<notin> fst ` set (outstanding s)"
  shows "get_fdu (fst (fop_handle s (SendAd fdu))) q = (if q = fop_vs s then Some fdu else get_fdu s q)"
proof -
  let ?s' = "fst (fop_handle s (SendAd fdu))"
  have m: "mset (outstanding ?s') = mset ((fop_vs s, fdu) # outstanding s)"
    using handle_send_ad_accept(2) [OF assms(1,2)] by (simp add: fop_handle_def)
  have "mset (map fst (outstanding ?s')) = mset (map fst ((fop_vs s, fdu) # outstanding s))"
    by (simp only: mset_map m)
  then have "distinct (map fst (outstanding ?s'))"
    using assms(3,4) by (metis (no_types, lifting) distinct.simps(2) fst_conv list.set_map list.simps(9) mset_eq_imp_distinct_iff)
  then have "map_of (outstanding ?s') = map_of ((fop_vs s, fdu) # outstanding s)"
    using assms(3,4) mset_eq_setD [OF m] by (subst map_of_inject_set) simp_all
  then show ?thesis by (simp add: get_fdu_outstanding)
qed

theorem fop_get_fdu_after_send_witness:
  "can_send demo_fop [7, 8] \<and> get_fdu (fst (fop_handle demo_fop (SendAd [7, 8]))) 0 = Some [7, 8]"
  using fop_get_fdu_after_send [OF demo_fop_wf demo_can_send, of 0] demo_can_send by simp

subsection \<open>The retransmission timer\<close>

lemma fop_push_take: "fop_push (take FOP_MAX_ACTIONS xs) a = take FOP_MAX_ACTIONS (xs @ [a])"
  by (cases "length xs < FOP_MAX_ACTIONS") (simp_all add: fop_push_def vec_push_def)

lemma initiate_retransmission_acts:
  "\<exists>seqs. mset seqs = image_mset fst (mset (outstanding s)) \<and> sorted (map (\<lambda>q. q - fop_nnr s) seqs)
     \<and> snd (initiate_retransmission s []) = take FOP_MAX_ACTIONS (map TransmitAd seqs @ (if seqs = [] then [] else [StartTimer]))"
proof -
  let ?seqs = "sort_by_distance (fop_nnr s) (map slot_seq (filter slot_occupied (sent_queue s)))"
  have "mset ?seqs = image_mset fst (mset (outstanding s))"
    by (simp add: sort_by_distance_spec(1) outstanding_def slot_view_def multiset.map_comp comp_def)
  moreover have "snd (initiate_retransmission s []) =
      take FOP_MAX_ACTIONS (map TransmitAd ?seqs @ (if ?seqs = [] then [] else [StartTimer]))"
    by (simp add: initiate_retransmission_def Let_def case_prod_beta retransmit_each_acts fold_push_take
        fop_push_take)
  ultimately show ?thesis using sort_by_distance_spec(2) by blast
qed

text \<open>
  Go-back-N on timeout. In an active state with no frame at its transmission limit, an
  expired timer asks for the retransmission of every frame held, each once, oldest first
  (in order of distance from N(R)), then restarts the timer, cut off only by the capacity
  of the action vector; the frames and payloads held do not change.
\<close>

theorem fop_timeout_goes_back_n:
  assumes "fop_state s \<in> {Active, Retransmitting}" "\<not> timer_exhausted s"
  shows "\<exists>seqs. mset seqs = image_mset fst (mset (outstanding s)) \<and> sorted (map (\<lambda>q. q - fop_nnr s) seqs)
     \<and> snd (fop_handle s TimerExpired) = take 16 (map TransmitAd seqs @ (if seqs = [] then [] else [StartTimer]))
     \<and> outstanding (fst (fop_handle s TimerExpired)) = outstanding s
     \<and> fop_state (fst (fop_handle s TimerExpired)) = Retransmitting"
proof -
  have h: "fop_handle s TimerExpired =
      (let (s', as) = initiate_retransmission s [] in (s'\<lparr>fop_state := Retransmitting\<rparr>, as))"
    using assms by (auto simp: fop_handle_def handle_timer_expired_def Let_def timer_exhausted_def)
  obtain seqs where seqs: "mset seqs = image_mset fst (mset (outstanding s))"
    "sorted (map (\<lambda>q. q - fop_nnr s) seqs)"
    "snd (initiate_retransmission s []) = take FOP_MAX_ACTIONS (map TransmitAd seqs @ (if seqs = [] then [] else [StartTimer]))"
    using initiate_retransmission_acts by blast
  show ?thesis
    by (intro exI [of _ seqs] conjI) (use seqs in \<open>simp_all add: h case_prod_beta FOP_MAX_ACTIONS_def\<close>)
qed

definition demo_fop1 :: fop where
  "demo_fop1 = fst (fop_handle demo_fop (SendAd [7, 8]))"

lemma demo_fop1_views:
  "fop_state demo_fop1 = Active" "outstanding demo_fop1 = [(0, [7, 8])]" "\<not> timer_exhausted demo_fop1"
  by (simp_all add: demo_fop1_def demo_fop_def fop_handle_def handle_init_no_clcw_def fop_new_def outstanding_def
      purge_sent_queue_def FduSlot_default_def replicate_two handle_send_ad_def find_empty_slot_def
      buffer_fdu_def demo_config_def timer_exhausted_def slot_view_def bslice_def blit_def word_le_nat_alt)

theorem fop_timeout_goes_back_n_witness:
  "outstanding (fst (fop_handle demo_fop1 TimerExpired)) = [(0, [7, 8])] \<and> \<not> timer_exhausted demo_fop1
    \<and> snd (fop_handle demo_fop1 TimerExpired) = [TransmitAd 0, StartTimer]"
  using fop_timeout_goes_back_n [of demo_fop1] by (auto simp: demo_fop1_views)

subsection \<open>Giving up\<close>

text \<open>
  C30: Giving up. When the timer expires with the transmission limit exhausted, FOP-1
  stops the timer, raises an alert, drops every frame and returns to \<open>Initial\<close>; from there
  no AD frame is accepted and CLCWs and timer events are ignored until the next directive.
\<close>

theorem fop_timeout_alert:
  fixes s :: fop
  assumes "timer_exhausted s"
  defines "s' \<equiv> fst (fop_handle s TimerExpired)"
  shows "snd (fop_handle s TimerExpired) = [StopTimer, Alert] \<and> fop_state s' = Initial \<and> outstanding s' = []
    \<and> fop_handle s' (SendAd fdu) = (s', [Reject]) \<and> fop_handle s' (ClcwReceived c) = (s', [])
    \<and> fop_handle s' TimerExpired = (s', [])"
proof -
  obtain t where h: "fop_handle s TimerExpired = fop_alert t []"
    using assms by (cases "fop_state s")
      (auto simp: fop_handle_def handle_timer_expired_def timer_exhausted_def Let_def)
  have "snd (fop_handle s TimerExpired) = [StopTimer, Alert]"
    by (simp add: h fop_alert_def fop_push_def FOP_MAX_ACTIONS_def Let_def)
  moreover have st: "fop_state s' = Initial" "outstanding s' = []" by (simp_all add: s'_def h)
  moreover have "fop_handle s' (SendAd fdu) = (s', [Reject]) \<and> fop_handle s' (ClcwReceived c) = (s', [])
      \<and> fop_handle s' TimerExpired = (s', [])"
    using st by (simp add: fop_handle_def handle_send_ad_def handle_clcw_def handle_timer_expired_def
        fop_push_def FOP_MAX_ACTIONS_def)
  ultimately show ?thesis by blast
qed

definition demo_exhausted :: fop where
  "demo_exhausted = fst (fop_run demo_fop1 [TimerExpired, TimerExpired])"

lemma demo_exhausted_limit: "timer_exhausted demo_exhausted"
  by (simp add: demo_exhausted_def demo_fop1_def demo_fop_def fop_handle_def handle_init_no_clcw_def fop_new_def
      purge_sent_queue_def FduSlot_default_def replicate_two handle_send_ad_def find_empty_slot_def
      buffer_fdu_def demo_config_def timer_exhausted_def handle_timer_expired_def initiate_retransmission_def
      sort_by_distance_def word_le_nat_alt)

theorem fop_timeout_alert_witness:
  "timer_exhausted demo_exhausted \<and> snd (fop_handle demo_exhausted TimerExpired) = [StopTimer, Alert]"
  using fop_timeout_alert [OF demo_exhausted_limit] demo_exhausted_limit by simp

lemma set_vr_timer:
  assumes "fop_state s = InitWithSetVr" "unat (bc_tx s) + n < unat (transmission_limit (fop_config s))"
  shows "fop_run s (replicate n TimerExpired) =
      (s\<lparr>bc_tx := bc_tx s + of_nat n\<rparr>, concat (replicate n [TransmitBcSetVr (set_vr_value s), StartTimer]))"
  using assms
proof (induction n arbitrary: s)
  case 0
  show ?case by simp
next
  case (Suc n)
  have lim: "unat (transmission_limit (fop_config s)) < 256" by (rule unat_u8_less)
  have inc: "unat (bc_tx s + 1) = unat (bc_tx s) + 1"
    using Suc.prems(2) lim by (simp add: unat_word_ariths)
  have "\<not> transmission_limit (fop_config s) \<le> bc_tx s + 1"
    using Suc.prems(2) inc by (simp add: word_le_nat_alt)
  then have "fop_handle s TimerExpired =
      (s\<lparr>bc_tx := bc_tx s + 1\<rparr>, [TransmitBcSetVr (set_vr_value s), StartTimer])"
    using Suc.prems(1)
    by (simp add: fop_handle_def handle_timer_expired_def Let_def fop_push_def FOP_MAX_ACTIONS_def)
  then show ?case
    using Suc.IH [of "s\<lparr>bc_tx := bc_tx s + 1\<rparr>"] Suc.prems inc by (simp add: fop_run.simps add.assoc)
qed

text \<open>
  C22: The number of BC attempts. After \<open>InitAdSetVr\<close> (which sends the first BC frame), \<open>n\<close>
  timer expirations without an answer send \<open>n\<close> more BC frames as long as the total stays
  below the transmission limit, and the expiration that would make it the limit alerts
  instead: a BC frame is sent \<open>limit - 1\<close> times (once when the limit is 1).
\<close>

theorem fop_set_vr_attempts:
  assumes "fop_state s = Initial" "n + 1 < unat (transmission_limit (fop_config s))"
  shows "snd (fop_run s (InitAdSetVr vr # replicate n TimerExpired)) =
      concat (replicate (n + 1) [TransmitBcSetVr vr, StartTimer])
    \<and> (n + 2 = unat (transmission_limit (fop_config s)) \<longrightarrow>
      snd (fop_run s (InitAdSetVr vr # replicate n TimerExpired @ [TimerExpired])) =
      concat (replicate (n + 1) [TransmitBcSetVr vr, StartTimer]) @ [StopTimer, Alert])"
proof -
  let ?s = "fst (fop_handle s (InitAdSetVr vr))"
  have s: "fop_state ?s = InitWithSetVr" "bc_tx ?s = 1" "set_vr_value ?s = vr" "fop_config ?s = fop_config s"
    "snd (fop_handle s (InitAdSetVr vr)) = [TransmitBcSetVr vr, StartTimer]"
    using assms(1) by (simp_all add: fop_handle_def handle_init_set_vr_def fop_push_def FOP_MAX_ACTIONS_def
        purge_sent_queue_def)
  have run: "fop_run ?s (replicate n TimerExpired) =
      (?s\<lparr>bc_tx := 1 + of_nat n\<rparr>, concat (replicate n [TransmitBcSetVr vr, StartTimer]))"
    using set_vr_timer [of ?s n] assms(2) s by simp
  have "timer_exhausted (?s\<lparr>bc_tx := 1 + of_nat n\<rparr>)" if "n + 2 = unat (transmission_limit (fop_config s))"
  proof -
    have "of_nat (n + 2) = transmission_limit (fop_config s)" unfolding that by simp
    then show ?thesis using s by (simp add: timer_exhausted_def add.commute)
  qed
  then have "n + 2 = unat (transmission_limit (fop_config s)) \<Longrightarrow>
      snd (fop_handle (?s\<lparr>bc_tx := 1 + of_nat n\<rparr>) TimerExpired) = [StopTimer, Alert]"
    using s by (simp add: fop_handle_def handle_timer_expired_def timer_exhausted_def fop_alert_def fop_push_def
        FOP_MAX_ACTIONS_def Let_def)
  then show ?thesis using s(5) run by (simp add: fop_run_append)
qed

theorem fop_set_vr_attempts_witness:
  "snd (fop_run (fop_new 2 8 demo_config) [InitAdSetVr 5, TimerExpired, TimerExpired]) =
    [TransmitBcSetVr 5, StartTimer, TransmitBcSetVr 5, StartTimer, StopTimer, Alert]"
  using fop_set_vr_attempts [of "fop_new 2 8 demo_config" 1 5] by (simp add: fop_new_def demo_config_def)

end
