(* ===== verification/Reliability.thy ===== *)
theory Reliability
  imports Tc_Frame Farm Fop
begin

text \<open>
  The COP-1 wrappers of the data link layer
  (\<open>crates/leodos-protocols/src/datalink/reliability/mod.rs\<close>). \<open>Cop1Writer\<close> feeds outgoing
  data to FOP-1 as Type-AD FDUs; \<open>Cop1Reader\<close> parses an incoming TC frame, classifies it by
  its bypass and control flags and feeds FARM-1. A panic of the parser is a panic of \<open>read\<close>.
\<close>

section \<open>Definitions\<close>

record Cop1Writer =
  cw_fop :: fop

record Cop1Reader =
  cr_farm :: farm

datatype Cop1ReadResult = ReadAccept | ReadDiscard

definition Cop1Writer_new :: "nat \<Rightarrow> nat \<Rightarrow> FopConfig \<Rightarrow> Cop1Writer" where
  "Cop1Writer_new WIN BUF config = \<lparr>cw_fop = fop_new WIN BUF config\<rparr>"

definition Cop1Writer_write :: "Cop1Writer \<Rightarrow> bytes \<Rightarrow> Cop1Writer \<times> FopActions" where
  "Cop1Writer_write w frame =
     (let (s, actions) = fop_handle (cw_fop w) (SendAd frame) in (w\<lparr>cw_fop := s\<rparr>, actions))"

definition Cop1Reader_new :: "FarmConfig \<Rightarrow> Cop1Reader" where
  "Cop1Reader_new config = \<lparr>cr_farm = farm_new config\<rparr>"

definition is_accept :: "FarmAction \<Rightarrow> bool" where
  "is_accept a \<longleftrightarrow> (case a of FarmAccept _ \<Rightarrow> True | _ \<Rightarrow> False)"

definition Cop1Reader_read :: "Cop1Reader \<Rightarrow> bytes \<Rightarrow> (Cop1Reader \<times> Cop1ReadResult) outcome" where
  "Cop1Reader_read r frame =
     (case tc_parse frame of
        Panics \<Rightarrow> Panics
      | Returns (Inl e) \<Rightarrow>
          (let (s, actions) = farm_handle (cr_farm r) InvalidFrame in Returns (r\<lparr>cr_farm := s\<rparr>, ReadDiscard))
      | Returns (Inr f) \<Rightarrow>
          (let seq = tc_seq (tc_hdr f); fdu = tc_data f;
               finish = (\<lambda>(s, actions).
                 Returns (r\<lparr>cr_farm := s\<rparr>, if list_ex is_accept actions then ReadAccept else ReadDiscard))
           in case (bypass_flag (tc_hdr f), control_flag (tc_hdr f)) of
                (TypeA, TypeD) \<Rightarrow> finish (farm_handle (cr_farm r) (AdFrame seq True fdu))
              | (TypeB, TypeD) \<Rightarrow> finish (farm_handle (cr_farm r) (BdFrame fdu))
              | _ \<Rightarrow>
                  (let (s, actions) = farm_handle (cr_farm r) InvalidFrame
                   in Returns (r\<lparr>cr_farm := s\<rparr>, ReadDiscard))))"

section \<open>From the wire to FARM-1\<close>

lemma accept_ad:
  "list_ex is_accept (snd (farm_handle s (AdFrame seq True fdu))) \<longleftrightarrow> farm_state s = Open \<and> seq = farm_vr s"
  by (auto simp: is_accept_def farm_defs classify_seq_def Let_def split: FarmState.splits SeqZone.splits)

lemma accept_bd: "list_ex is_accept (snd (farm_handle s (BdFrame fdu)))"
  by (simp add: is_accept_def farm_defs)

text \<open>
  The reader on a frame the builder made. A TC frame built with in-range identifiers is
  read without panic, whatever bytes follow it: a Type-AD frame is accepted exactly when
  FARM-1 is open and its sequence number is V(R), and then V(R) moves on by one; a Type-BD
  frame is always accepted and V(R) stays; control frames are discarded and leave FARM-1
  as it was.
\<close>

theorem cop1_reader_reads_built_frame:
  assumes "tc_ok buffer scid vc n" "tc_new buffer scid vc b c seq n = Inr buffer'" "5 + n \<le> k"
  shows "\<exists>r' res. Cop1Reader_read r (take k buffer') = Returns (r', res)
     \<and> (case (b, c) of
          (TypeA, TypeD) \<Rightarrow>
            (res = ReadAccept \<longleftrightarrow> farm_state (cr_farm r) = Open \<and> seq = farm_vr (cr_farm r))
            \<and> farm_vr (cr_farm r') = (if res = ReadAccept then farm_vr (cr_farm r) + 1 else farm_vr (cr_farm r))
        | (TypeB, TypeD) \<Rightarrow> res = ReadAccept \<and> farm_vr (cr_farm r') = farm_vr (cr_farm r)
        | _ \<Rightarrow> res = ReadDiscard \<and> r' = r)"
proof -
  obtain f where f: "tc_parse (take k buffer') = Returns (Inr f)" "bypass_flag (tc_hdr f) = b"
    "control_flag (tc_hdr f) = c" "tc_seq (tc_hdr f) = seq"
    using tc_built_parses [OF assms(1), of b c seq] assms(2,3) by auto
  show ?thesis
    by (cases b; cases c)
      (auto simp: Cop1Reader_read_def f Let_def case_prod_beta accept_ad accept_bd farm_vr_ad farm_vr_other,
       simp_all add: farm_handle_def)
qed

theorem cop1_reader_reads_built_frame_witness:
  "\<exists>buffer' r'. tc_new (replicate 8 0) 1 0 TypeA TypeD 0 3 = Inr buffer'
     \<and> Cop1Reader_read (Cop1Reader_new \<lparr>fc_vcid = 0, fc_window_width = 10\<rparr>) (take 8 buffer') = Returns (r', ReadAccept)"
proof -
  have ok: "tc_ok (replicate 8 0) 1 0 3" by (simp add: tc_ok_def)
  then obtain buffer' where b: "tc_new (replicate 8 0) 1 0 TypeA TypeD 0 3 = Inr buffer'"
    using tc_new_ok by blast
  let ?r = "Cop1Reader_new \<lparr>fc_vcid = 0, fc_window_width = 10\<rparr>"
  have "farm_state (cr_farm ?r) = Open" "farm_vr (cr_farm ?r) = 0"
    by (simp_all add: Cop1Reader_new_def farm_new_def)
  then show ?thesis using cop1_reader_reads_built_frame [OF ok b, of 8 ?r] b by fastforce
qed

end
