(* ===== verification/Arq.thy ===== *)
theory Arq
  imports Slots
begin

text \<open>
  The contract between the two ends of a sliding-window link with 8-bit sequence numbers,
  stated without slots, buffers or states. Frame number \<open>i\<close> of a session (an unbounded
  index) travels under the sequence number \<open>of_nat i\<close>. A sender's window from \<open>b\<close> holds
  the frames \<open>b, \<dots>, n - 1\<close> of the \<open>n\<close> sent so far: \<open>window_held\<close>.

  \<open>arq_sender\<close> is what the link relies on of the sender: how a send, a report and a
  timeout change the frames held. \<open>arq_receiver\<close> is what it relies on of the receiver. The
  lemmas in the locales are the residue arithmetic of go-back-N, done once; \<open>Cop1_Link\<close>
  interprets them on FOP-1 and FARM-1.
\<close>

text \<open>A frame is acknowledged when it is less than 128 behind the report modulo 256.\<close>

definition behind :: "u8 \<Rightarrow> u8 \<Rightarrow> bool" where
  "behind nr seq \<longleftrightarrow> 0 < nr - seq \<and> nr - seq < 128"

definition window_held :: "nat \<Rightarrow> 'p list \<Rightarrow> (u8 \<times> 'p) multiset" where
  "window_held b sent = image_mset (\<lambda>i. (of_nat i, sent ! i)) (mset [b..<length sent])"

lemma size_window_held [simp]: "size (window_held b sent) = length sent - b"
  by (simp add: window_held_def)

lemma window_held_snoc:
  assumes "b \<le> length sent"
  shows "window_held b (sent @ [p]) = add_mset (of_nat (length sent), p) (window_held b sent)"
proof -
  have "image_mset (\<lambda>i. (of_nat i :: u8, (sent @ [p]) ! i)) (mset [b..<length sent]) = window_held b sent"
    unfolding window_held_def by (intro image_mset_cong) (auto simp: nth_append)
  then show ?thesis using assms by (simp add: window_held_def)
qed

lemma in_window_held:
  "(q, p) \<in># window_held b sent \<longleftrightarrow> (\<exists>i. b \<le> i \<and> i < length sent \<and> q = of_nat i \<and> p = sent ! i)"
  by (auto simp: window_held_def)

lemma behind_window:
  fixes b i k n :: nat
  assumes "b \<le> i" "i < n" "b \<le> k" "k \<le> n" "n \<le> b + 127"
  shows "behind (of_nat k) (of_nat i) \<longleftrightarrow> i < k"
proof (cases "i < k")
  case True
  then have "unat ((of_nat k :: u8) - of_nat i) = k - i" using assms by (intro unat_of_nat_diff) auto
  then show ?thesis using True assms by (auto simp: behind_def word_less_nat_alt)
next
  case False
  show ?thesis
  proof (cases "i = k")
    case True
    then show ?thesis by (simp add: behind_def)
  next
    case ne: False
    then have "unat ((of_nat k :: u8) - of_nat i) = 2 ^ LENGTH(8) - (i - k)"
      using assms False by (intro unat_of_nat_diff_wrap) auto
    then show ?thesis using False assms by (auto simp: behind_def word_less_nat_alt)
  qed
qed

lemma window_held_ack:
  assumes "b \<le> k" "k \<le> length sent" "length sent \<le> b + 127"
  shows "filter_mset (\<lambda>f. \<not> behind (of_nat k) (fst f)) (window_held b sent) = window_held k sent"
proof -
  have f: "filter_mset (\<lambda>i. \<not> behind (of_nat k) (of_nat i)) (mset [b..<length sent]) = mset [k..<length sent]"
  proof -
    have split: "[b..<length sent] = [b..<k] @ [k..<length sent]"
      using assms by (metis le_iff_add upt_add_eq_append)
    have "filter (\<lambda>i. \<not> behind (of_nat k) (of_nat i)) [b..<length sent] = filter (\<lambda>i. k \<le> i) [b..<length sent]"
      using assms by (intro filter_cong refl) (auto simp: behind_window not_less)
    also have "\<dots> = [k..<length sent]" unfolding split by simp
    finally show ?thesis by (simp only: mset_filter [symmetric])
  qed
  show ?thesis by (simp only: window_held_def filter_mset_image_mset fst_conv f)
qed

section \<open>The sender\<close>

locale arq_sender =
  fixes ok :: "'s \<Rightarrow> bool" and live :: "'s \<Rightarrow> bool" and held :: "'s \<Rightarrow> (u8 \<times> 'p) multiset"
    and vs :: "'s \<Rightarrow> u8" and cap :: nat
    and accepts :: "'s \<Rightarrow> 'p \<Rightarrow> bool" and send :: "'s \<Rightarrow> 'p \<Rightarrow> 's"
    and ack :: "'s \<Rightarrow> 'c \<Rightarrow> 's" and report :: "'c \<Rightarrow> u8" and timeout :: "'s \<Rightarrow> 's"
  assumes held_cap: "ok s \<Longrightarrow> size (held s) \<le> cap"
    and send_ok: "ok s \<Longrightarrow> ok (send s p)" and ack_ok: "ok s \<Longrightarrow> ok (ack s c)" and timeout_ok: "ok s \<Longrightarrow> ok (timeout s)"
    and accepts_live: "accepts s p \<Longrightarrow> live s"
    and send_accept: "ok s \<Longrightarrow> accepts s p \<Longrightarrow> held (send s p) = add_mset (vs s, p) (held s)
          \<and> vs (send s p) = vs s + 1 \<and> live (send s p)"
    and send_reject: "\<not> accepts s p \<Longrightarrow> send s p = s"
    and ack_vs: "ok s \<Longrightarrow> live s \<Longrightarrow> vs (ack s c) = vs s" and timeout_vs: "ok s \<Longrightarrow> live s \<Longrightarrow> vs (timeout s) = vs s"
    and ack_live: "ok s \<Longrightarrow> live s \<Longrightarrow> live (ack s c) \<Longrightarrow>
          held (ack s c) = filter_mset (\<lambda>f. \<not> behind (report c) (fst f)) (held s)"
    and timeout_live: "ok s \<Longrightarrow> live s \<Longrightarrow> live (timeout s) \<Longrightarrow> held (timeout s) = held s"
begin

text \<open>\<open>tracks b sent s\<close>: the sender \<open>s\<close> has taken on \<open>sent\<close> and, while live, holds the window from \<open>b\<close>.\<close>

definition tracks :: "nat \<Rightarrow> 'p list \<Rightarrow> 's \<Rightarrow> bool" where
  "tracks b sent s \<longleftrightarrow> ok s \<and> vs s = of_nat (length sent) \<and> b \<le> length sent \<and> length sent \<le> b + cap
     \<and> (live s \<longrightarrow> held s = window_held b sent)"

lemma tracks_send:
  assumes "tracks b sent s"
  shows "tracks b (if accepts s p then sent @ [p] else sent) (send s p)"
proof (cases "accepts s p")
  case True
  note acc = send_accept [OF _ True] accepts_live [OF True]
  have h: "held (send s p) = window_held b (sent @ [p])"
    using assms acc by (simp add: tracks_def window_held_snoc)
  moreover have "size (held (send s p)) \<le> cap" using assms held_cap send_ok by (simp add: tracks_def)
  ultimately show ?thesis using True assms acc send_ok by (auto simp: tracks_def add.commute)
qed (use assms send_reject in simp)

lemma tracks_ack:
  assumes "tracks b sent s" "live s" "cap \<le> 127" "report c = of_nat k" "b \<le> k" "k \<le> length sent"
  shows "tracks k sent (ack s c)"
  using assms ack_ok ack_vs ack_live [of s c] window_held_ack [of b k sent] by (auto simp: tracks_def)

lemma tracks_timeout:
  assumes "tracks b sent s" "live s"
  shows "tracks b sent (timeout s)"
  using assms timeout_ok timeout_vs timeout_live by (auto simp: tracks_def)

lemma tracks_held:
  assumes "tracks b sent s" "live s" "(q, p) \<in># held s"
  shows "\<exists>i. b \<le> i \<and> i < length sent \<and> length sent \<le> i + cap \<and> q = of_nat i \<and> p = sent ! i"
proof -
  obtain i where i: "b \<le> i" "i < length sent" "q = of_nat i" "p = sent ! i"
    using assms by (auto simp: tracks_def in_window_held)
  moreover have "length sent \<le> i + cap" using assms(1) i(1) by (simp add: tracks_def)
  ultimately show ?thesis by blast
qed

end

section \<open>The receiver\<close>

locale arq_receiver =
  fixes vr :: "'r \<Rightarrow> u8" and takes :: "'r \<Rightarrow> u8 \<Rightarrow> bool \<Rightarrow> bool" and recv :: "'r \<Rightarrow> u8 \<Rightarrow> bool \<Rightarrow> 'p \<Rightarrow> 'r"
  assumes takes_expected: "takes s q room \<Longrightarrow> q = vr s"
    and recv_vr: "vr (recv s q room p) = (if takes s q room then vr s + 1 else vr s)"
begin

text \<open>
  A frame accepted is the next one: its index is the number of frames delivered, provided
  the two are less than 256 apart.
\<close>

lemma takes_next:
  assumes "vr s = of_nat r" "takes s (of_nat i) room" "i < r + 256" "r < i + 256"
  shows "i = r"
  using assms takes_expected by (intro of_nat_word_eq_near [where 'a = 8]) fastforce+

lemma recv_counts:
  assumes "vr s = of_nat r"
  shows "vr (recv s q room p) = of_nat (if takes s q room then Suc r else r)"
  using assms by (simp add: recv_vr add.commute)

end

end
