(* ===== verification/Cop1_Link.thy ===== *)
theory Cop1_Link
  imports Arq Farm Fop
begin

text \<open>
  COP-1 end to end: FOP-1 and FARM-1 joined by two channels that may lose any frame at any
  time but do not reorder. A session starts with both machines fresh and FOP-1 activated
  by \<open>InitAdNoClcw\<close>; it ends when FOP-1 alerts or is terminated. The steps are the events
  of the two state machines, in every interleaving: FDUs offered by the user, bypass
  frames, timer expirations, reports arriving, frames arriving with or without receiver
  buffer space, any other FARM-1 event except Set V(R), a CLCW emitted at any moment, and
  losses in either direction. The driver obeys FOP-1's actions: for \<open>TransmitAd\<close> it puts
  the sequence number with the payload \<open>get_fdu\<close> returns on the channel.

  \<open>sent\<close> and \<open>dlv\<close> record the FDUs taken on by FOP-1 and delivered by FARM-1.
\<close>

section \<open>FOP-1 and FARM-1 satisfy the contract\<close>

definition fop_live :: "fop \<Rightarrow> bool" where
  "fop_live s \<longleftrightarrow> fop_state s \<in> {Active, Retransmitting}"

lemma acked_by_behind: "acked_by = behind"
  by (simp add: fun_eq_iff acked_by_def behind_def Let_def)

lemma fop_held_cap: "fop_wf W B s \<Longrightarrow> length (outstanding s) \<le> W"
  by (auto simp: outstanding_def fop_wf_def)

lemma fop_clcw_vs: "fop_live s \<Longrightarrow> fop_vs (fst (fop_handle s (ClcwReceived c))) = fop_vs s"
  by (auto simp: fop_live_def fop_handle_def handle_clcw_def Let_def case_prod_beta)

lemma fop_timer_vs: "fop_live s \<Longrightarrow> fop_vs (fst (fop_handle s TimerExpired)) = fop_vs s"
  by (auto simp: fop_live_def fop_handle_def handle_timer_expired_def Let_def case_prod_beta)

lemma fop_lockout_dies: "fop_live s \<Longrightarrow> lockout c \<Longrightarrow> \<not> fop_live (fst (fop_handle s (ClcwReceived c)))"
  by (auto simp: fop_live_def fop_handle_def handle_clcw_def)

lemma fop_exhausted_dies: "fop_live s \<Longrightarrow> timer_exhausted s \<Longrightarrow> \<not> fop_live (fst (fop_handle s TimerExpired))"
  by (auto simp: fop_live_def fop_handle_def handle_timer_expired_def timer_exhausted_def)

lemma fop_send_reject: "\<not> can_send s p \<Longrightarrow> fop_handle s (SendAd p) = (s, [Reject])"
  by (simp add: fop_handle_def handle_send_ad_reject fop_push_def FOP_MAX_ACTIONS_def)

interpretation fop_arq: arq_sender "fop_wf W B" fop_live "\<lambda>s. mset (outstanding s)" fop_vs W can_send
    "\<lambda>s p. fst (fop_handle s (SendAd p))" "\<lambda>s c. fst (fop_handle s (ClcwReceived c))" report_value
    "\<lambda>s. fst (fop_handle s TimerExpired)" for W B :: nat
proof unfold_locales
  fix s and p :: bytes
  assume "fop_wf W B s" "can_send s p"
  then show "mset (outstanding (fst (fop_handle s (SendAd p)))) = add_mset (fop_vs s, p) (mset (outstanding s))
      \<and> fop_vs (fst (fop_handle s (SendAd p))) = fop_vs s + 1 \<and> fop_live (fst (fop_handle s (SendAd p)))"
    using handle_send_ad_accept [of W B s p "[]"] by (simp add: fop_handle_def fop_live_def can_send_def)
next
  fix s c
  assume "fop_wf W B s" "fop_live s" "fop_live (fst (fop_handle s (ClcwReceived c)))"
  then show "mset (outstanding (fst (fop_handle s (ClcwReceived c)))) =
      filter_mset (\<lambda>f. \<not> behind (report_value c) (fst f)) (mset (outstanding s))"
    using fop_refines [of W B s "ClcwReceived c"] fop_lockout_dies [of s c]
    by (auto simp: window_spec_def fop_live_def acked_by_behind)
next
  fix s
  assume "fop_wf W B s" "fop_live s" "fop_live (fst (fop_handle s TimerExpired))"
  then show "mset (outstanding (fst (fop_handle s TimerExpired))) = mset (outstanding s)"
    using fop_refines [of W B s TimerExpired] fop_exhausted_dies [of s] by (auto simp: window_spec_def)
qed (simp_all add: fop_held_cap fop_handle_wf fop_clcw_vs fop_timer_vs fop_send_reject can_send_def fop_live_def)

interpretation farm_arq: arq_receiver farm_vr "\<lambda>s q room. farm_state s = Open \<and> q = farm_vr s \<and> room"
    "\<lambda>s q room p. fst (farm_handle s (AdFrame q room p))"
  by unfold_locales (simp_all add: farm_vr_ad)

section \<open>The link\<close>

record link =
  l_fop :: fop
  l_farm :: farm
  fwd :: "(u8 \<times> bytes) list"
  reports :: "clcw list"
  sent :: "bytes list"
  dlv :: "bytes list"

text \<open>What the driver puts on the channel, and what the receiver's user gets.\<close>

fun frames_of :: "fop \<Rightarrow> FopActions \<Rightarrow> (u8 \<times> bytes) list" where
  "frames_of s [] = []"
| "frames_of s (TransmitAd q # as) = (case get_fdu s q of Some p \<Rightarrow> [(q, p)] | None \<Rightarrow> []) @ frames_of s as"
| "frames_of s (_ # as) = frames_of s as"

fun accepted :: "FarmActions \<Rightarrow> bytes list" where
  "accepted [] = []"
| "accepted (FarmAccept p # as) = p # accepted as"
| "accepted (_ # as) = accepted as"

definition link_init :: "nat \<Rightarrow> nat \<Rightarrow> FopConfig \<Rightarrow> FarmConfig \<Rightarrow> link" where
  "link_init W B fc rc =
     \<lparr>l_fop = fst (fop_handle (fop_new W B fc) InitAdNoClcw), l_farm = farm_new rc,
      fwd = [], reports = [], sent = [], dlv = []\<rparr>"

inductive link_step :: "link \<Rightarrow> link \<Rightarrow> bool" where
  send_ad: "fop_handle (l_fop L) (SendAd p) = (s, as) \<Longrightarrow>
     link_step L (L\<lparr>l_fop := s, fwd := fwd L @ frames_of s as,
                   sent := (if Reject \<in> set as then sent L else sent L @ [p])\<rparr>)"
| send_bd: "fop_handle (l_fop L) (SendBd p) = (s, as) \<Longrightarrow> link_step L (L\<lparr>l_fop := s\<rparr>)"
| timer: "fop_handle (l_fop L) TimerExpired = (s, as) \<Longrightarrow>
     link_step L (L\<lparr>l_fop := s, fwd := fwd L @ frames_of s as\<rparr>)"
| report: "reports L = c # cs \<Longrightarrow> fop_handle (l_fop L) (ClcwReceived c) = (s, as) \<Longrightarrow>
     link_step L (L\<lparr>l_fop := s, fwd := fwd L @ frames_of s as, reports := cs\<rparr>)"
| terminate: "fop_handle (l_fop L) Terminate = (s, as) \<Longrightarrow> link_step L (L\<lparr>l_fop := s\<rparr>)"
| arrive: "fwd L = (q, p) # fs \<Longrightarrow> farm_handle (l_farm L) (AdFrame q room p) = (s, as) \<Longrightarrow>
     link_step L (L\<lparr>l_farm := s, fwd := fs, dlv := dlv L @ accepted as\<rparr>)"
| farm_other: "(\<And>q room p. ev \<noteq> AdFrame q room p) \<Longrightarrow> (\<And>v. ev \<noteq> BcFrame (SetVr v)) \<Longrightarrow>
     link_step L (L\<lparr>l_farm := fst (farm_handle (l_farm L) ev)\<rparr>)"
| emit_clcw: "link_step L (L\<lparr>reports := reports L @ [farm_clcw (l_farm L)]\<rparr>)"
| lose_frame: "fwd L = xs @ f # ys \<Longrightarrow> link_step L (L\<lparr>fwd := xs @ ys\<rparr>)"
| lose_clcw: "reports L = xs @ c # ys \<Longrightarrow> link_step L (L\<lparr>reports := xs @ ys\<rparr>)"

section \<open>The invariant\<close>

text \<open>
  Every frame in flight has an index \<open>i\<close> and a snapshot \<open>N\<close>, the number of frames sent when
  it was put on the channel. Snapshots are in order and never below the number of frames
  delivered, and a frame lies within a window of its snapshot. Every report in flight is
  the count of an earlier moment, in order, and not behind the sender's base \<open>b\<close>.
\<close>

definition flight_ok :: "nat \<Rightarrow> bytes list \<Rightarrow> nat \<Rightarrow> (u8 \<times> bytes) list \<Rightarrow> (nat \<times> nat) list \<Rightarrow> bool" where
  "flight_ok W snt r frames fs \<longleftrightarrow>
     frames = map (\<lambda>(i, N). (of_nat i, snt ! i)) fs \<and> sorted (map snd fs)
     \<and> (\<forall>(i, N)\<in>set fs. i < N \<and> N \<le> i + W \<and> r \<le> N \<and> N \<le> length snt)"

definition reports_ok :: "nat \<Rightarrow> nat \<Rightarrow> clcw list \<Rightarrow> nat list \<Rightarrow> bool" where
  "reports_ok b r cs ks \<longleftrightarrow>
     map report_value cs = map of_nat ks \<and> sorted ks \<and> (\<forall>k\<in>set ks. b \<le> k \<and> k \<le> r)"

definition link_at :: "nat \<Rightarrow> nat \<Rightarrow> nat \<Rightarrow> (nat \<times> nat) list \<Rightarrow> nat list \<Rightarrow> link \<Rightarrow> bool" where
  "link_at W B b fs ks L \<longleftrightarrow>
     fop_arq.tracks W B b (sent L) (l_fop L)
     \<and> (fop_live (l_fop L) \<and> fop_nnr (l_fop L) = of_nat b
          \<or> fop_state (l_fop L) = Initial \<and> outstanding (l_fop L) = [])
     \<and> farm_vr (l_farm L) = of_nat (length (dlv L)) \<and> prefix (dlv L) (sent L) \<and> b \<le> length (dlv L)
     \<and> flight_ok W (sent L) (length (dlv L)) (fwd L) fs
     \<and> reports_ok b (length (dlv L)) (reports L) ks"

definition link_inv :: "nat \<Rightarrow> nat \<Rightarrow> link \<Rightarrow> bool" where
  "link_inv W B L \<longleftrightarrow> (\<exists>b fs ks. link_at W B b fs ks L)"

lemma link_invI: "link_at W B b fs ks L \<Longrightarrow> link_inv W B L"
  by (auto simp: link_inv_def)

subsection \<open>Channels\<close>

lemma flight_new:
  assumes "flight_ok W snt r frames fs" "r \<le> length snt"
    "\<forall>f\<in>set new. \<exists>i. i < length snt \<and> length snt \<le> i + W \<and> f = (of_nat i, snt ! i)"
  shows "\<exists>fs'. flight_ok W snt r (frames @ new) fs'"
proof -
  obtain js where js: "new = map (\<lambda>i. (of_nat i, snt ! i)) js" "\<forall>i\<in>set js. i < length snt \<and> length snt \<le> i + W"
    using assms(3)
  proof (induction new arbitrary: thesis)
    case Nil
    show ?case by (rule Nil(1) [of "[]"]) simp_all
  next
    case (Cons f new)
    obtain js where "new = map (\<lambda>i. (of_nat i, snt ! i)) js" "\<forall>i\<in>set js. i < length snt \<and> length snt \<le> i + W"
      using Cons.IH Cons.prems(2) by auto
    moreover obtain i where "i < length snt \<and> length snt \<le> i + W \<and> f = (of_nat i, snt ! i)"
      using Cons.prems(2) by auto
    ultimately show ?case by (intro Cons.prems(1) [of "i # js"]) simp_all
  qed
  show ?thesis
    using assms(1,2) js by (intro exI [of _ "fs @ map (\<lambda>i. (i, length snt)) js"])
      (auto simp: flight_ok_def sorted_append comp_def map_replicate_const)
qed

lemma flight_snoc: "flight_ok W snt r frames fs \<Longrightarrow> flight_ok W (snt @ [p]) r frames fs"
  by (fastforce simp: flight_ok_def nth_append)

lemma flight_lose: "flight_ok W snt r (xs @ f # ys) fs \<Longrightarrow> \<exists>fs'. flight_ok W snt r (xs @ ys) fs'"
proof -
  assume fl: "flight_ok W snt r (xs @ f # ys) fs"
  then obtain us u vs where "fs = us @ u # vs" "xs = map (\<lambda>(i, N). (of_nat i, snt ! i)) us"
    "ys = map (\<lambda>(i, N). (of_nat i, snt ! i)) vs"
    by (auto simp: flight_ok_def append_eq_map_conv Cons_eq_map_conv)
  then show ?thesis using fl by (intro exI [of _ "us @ vs"]) (auto simp: flight_ok_def sorted_append)
qed

lemma flight_head:
  assumes "flight_ok W snt r ((q, p) # frames) fs"
  obtains i N fs' where "fs = (i, N) # fs'" "q = of_nat i" "p = snt ! i" "i < N" "N \<le> i + W" "r \<le> N" "N \<le> length snt"
    "flight_ok W snt r frames fs'" "\<forall>f\<in>set fs'. N \<le> snd f"
  using assms by (auto simp: flight_ok_def Cons_eq_map_conv)

lemma flight_count: "flight_ok W snt r frames fs \<Longrightarrow> \<forall>f\<in>set fs. r' \<le> snd f \<Longrightarrow> flight_ok W snt r' frames fs"
  by (auto simp: flight_ok_def)

lemma reports_emit: "reports_ok b r cs ks \<Longrightarrow> b \<le> r \<Longrightarrow> report_value c = of_nat r \<Longrightarrow> reports_ok b r (cs @ [c]) (ks @ [r])"
  by (auto simp: reports_ok_def sorted_append)

lemma reports_lose: "reports_ok b r (xs @ c # ys) ks \<Longrightarrow> \<exists>ks'. reports_ok b r (xs @ ys) ks'"
proof -
  assume ok: "reports_ok b r (xs @ c # ys) ks"
  then have "map of_nat ks = map report_value xs @ report_value c # map report_value ys"
    by (simp add: reports_ok_def)
  then obtain us u vs where "ks = us @ u # vs" "map of_nat us = map report_value xs" "map of_nat vs = map report_value ys"
    by (auto simp: map_eq_append_conv map_eq_Cons_conv)
  then show ?thesis using ok by (intro exI [of _ "us @ vs"]) (auto simp: reports_ok_def sorted_append)
qed

lemma reports_head:
  assumes "reports_ok b r (c # cs) ks"
  obtains k ks' where "report_value c = of_nat k" "b \<le> k" "k \<le> r" "reports_ok k r cs ks'" "reports_ok b r cs ks'"
proof -
  have "map of_nat ks = report_value c # map report_value cs" using assms by (simp add: reports_ok_def)
  then obtain k ks' where "ks = k # ks'" "report_value c = of_nat k" "map of_nat ks' = map report_value cs"
    by (auto simp: map_eq_Cons_conv)
  then show thesis using assms by (intro that [of k ks']) (auto simp: reports_ok_def)
qed

lemma reports_count: "reports_ok b r cs ks \<Longrightarrow> r \<le> r' \<Longrightarrow> reports_ok b r' cs ks"
  by (auto simp: reports_ok_def)

subsection \<open>One lemma per step\<close>

lemma frames_of_held: "f \<in> set (frames_of s as) \<Longrightarrow> f \<in># mset (outstanding s)"
  by (induction s as rule: frames_of.induct) (auto simp: get_fdu_outstanding split: option.splits dest: map_of_SomeD map_of_SomeD [OF sym])

text \<open>Whatever the sender transmits after a step can be put on the channel.\<close>

lemma link_transmit:
  assumes "fop_arq.tracks W B b snt s" "fop_live s \<or> outstanding s = []" "r \<le> length snt"
    "flight_ok W snt r frames fs"
  shows "\<exists>fs'. flight_ok W snt r (frames @ frames_of s as) fs'"
proof (rule flight_new [OF assms(4,3)], rule ballI)
  fix f assume "f \<in> set (frames_of s as)"
  then have "f \<in># mset (outstanding s)" by (rule frames_of_held)
  then show "\<exists>i. i < length snt \<and> length snt \<le> i + W \<and> f = (of_nat i, snt ! i)"
    using assms(2) fop_arq.tracks_held [OF assms(1), of "fst f" "snd f"] by (cases f) auto
qed

lemma fop_initial_idle:
  assumes "fop_state s = Initial"
  shows "fop_handle s (ClcwReceived c) = (s, [])" "fop_handle s TimerExpired = (s, [])" "\<not> can_send s p"
  using assms by (simp_all add: fop_handle_def handle_clcw_def handle_timer_expired_def can_send_def)

lemma fop_clcw_live:
  assumes "fop_live s"
  shows "if lockout c then fop_state (fst (fop_handle s (ClcwReceived c))) = Initial \<and> outstanding (fst (fop_handle s (ClcwReceived c))) = []
     else fop_live (fst (fop_handle s (ClcwReceived c)))"
  using assms by (simp add: fop_live_def fop_handle_def handle_clcw_def Let_def case_prod_beta split: FopState.split) auto

lemma fop_timer_live:
  assumes "fop_live s"
  shows "if timer_exhausted s then fop_state (fst (fop_handle s TimerExpired)) = Initial \<and> outstanding (fst (fop_handle s TimerExpired)) = []
     else fop_live (fst (fop_handle s TimerExpired))"
  using assms by (auto simp: fop_live_def timer_exhausted_def fop_handle_def handle_timer_expired_def Let_def case_prod_beta)

lemma fop_nnr_helpers [simp]:
  "fop_nnr (fst (initiate_retransmission s acts)) = fop_nnr s" "fop_nnr (fst (remove_acknowledged s nr acts)) = fop_nnr s"
  by (simp_all add: initiate_retransmission_def remove_acknowledged_def Let_def case_prod_beta)

lemma fop_nnr_event:
  "fop_live s \<Longrightarrow> \<not> lockout c \<Longrightarrow> fop_nnr (fst (fop_handle s (ClcwReceived c))) = report_value c"
  "fop_live s \<Longrightarrow> \<not> timer_exhausted s \<Longrightarrow> fop_nnr (fst (fop_handle s TimerExpired)) = fop_nnr s"
  "fop_nnr (fst (fop_handle s (SendAd p))) = fop_nnr s" "fop_nnr (fst (fop_handle s (SendBd p))) = fop_nnr s"
  by (auto simp: fop_live_def timer_exhausted_def fop_handle_def handle_clcw_def handle_timer_expired_def handle_send_ad_def
      handle_send_bd_def buffer_fdu_def Let_def case_prod_beta split: option.split)

lemma fop_live_or_dead:
  assumes "fop_live s"
  shows "fop_live (fst (fop_handle s (ClcwReceived c))) \<and> fop_nnr (fst (fop_handle s (ClcwReceived c))) = report_value c
      \<or> fop_state (fst (fop_handle s (ClcwReceived c))) = Initial \<and> outstanding (fst (fop_handle s (ClcwReceived c))) = []"
    and "fop_live (fst (fop_handle s TimerExpired)) \<and> fop_nnr (fst (fop_handle s TimerExpired)) = fop_nnr s
      \<or> fop_state (fst (fop_handle s TimerExpired)) = Initial \<and> outstanding (fst (fop_handle s TimerExpired)) = []"
  using fop_clcw_live [OF assms, of c] fop_timer_live [OF assms] fop_nnr_event(1,2) [OF assms] by (auto split: if_splits)

lemma send_ad_inv:
  assumes "link_at W B b fs ks L" "fop_handle (l_fop L) (SendAd p) = (s, as)"
  shows "link_inv W B (L\<lparr>l_fop := s, fwd := fwd L @ frames_of s as,
      sent := (if Reject \<in> set as then sent L else sent L @ [p])\<rparr>)"
proof (cases "can_send (l_fop L) p")
  case True
  have wf: "fop_wf W B (l_fop L)" using assms(1) by (simp add: link_at_def fop_arq.tracks_def)
  note acc = handle_send_ad_accept [OF wf True, of "[]"]
  have s: "s = fst (fop_handle (l_fop L) (SendAd p))" "as = snd (fop_handle (l_fop L) (SendAd p))"
    using assms(2) by simp_all
  have nr: "Reject \<notin> set as"
    using acc(5) by (simp add: s fop_handle_def fop_push_def FOP_MAX_ACTIONS_def)
  have live: "fop_live s" using True acc(4) by (simp add: s fop_handle_def fop_live_def can_send_def)
  have "fop_nnr (l_fop L) = of_nat b" using assms(1) True by (auto simp: link_at_def fop_live_def can_send_def)
  then have nnr: "fop_nnr s = of_nat b" by (simp add: s fop_nnr_event)
  have tr: "fop_arq.tracks W B b (sent L @ [p]) s"
    using fop_arq.tracks_send [of W B b "sent L" "l_fop L" p] assms(1) True by (simp add: link_at_def s)
  have r: "length (dlv L) \<le> length (sent L @ [p])"
    using assms(1) by (auto simp: link_at_def dest: prefix_length_le)
  obtain fs' where "flight_ok W (sent L @ [p]) (length (dlv L)) (fwd L @ frames_of s as) fs'"
    using link_transmit [OF tr disjI1 [OF live] r] flight_snoc assms(1) unfolding link_at_def by metis
  then show ?thesis using assms(1) tr nr live nnr
    by (auto simp: link_inv_def link_at_def intro: prefix_order.trans)
next
  case False
  then have "s = l_fop L" "as = [Reject]" using assms(2) by (simp_all add: fop_send_reject)
  then have "L\<lparr>l_fop := s, fwd := fwd L @ frames_of s as, sent := (if Reject \<in> set as then sent L else sent L @ [p])\<rparr> = L"
    by simp
  then show ?thesis using assms(1) unfolding link_inv_def by metis
qed

lemma report_inv:
  assumes "link_at W B b fs ks L" "W \<le> 127" "reports L = c # cs"
    "fop_handle (l_fop L) (ClcwReceived c) = (s, as)"
  shows "link_inv W B (L\<lparr>l_fop := s, fwd := fwd L @ frames_of s as, reports := cs\<rparr>)"
proof -
  obtain k ks' where k: "report_value c = of_nat k" "b \<le> k" "k \<le> length (dlv L)"
    "reports_ok k (length (dlv L)) cs ks'" "reports_ok b (length (dlv L)) cs ks'"
    using assms(1,3) reports_head unfolding link_at_def by metis
  have r: "length (dlv L) \<le> length (sent L)" using assms(1) by (auto simp: link_at_def dest: prefix_length_le)
  have s: "s = fst (fop_handle (l_fop L) (ClcwReceived c))" using assms(4) by simp
  show ?thesis
  proof (cases "fop_live (l_fop L)")
    case True
    have tr: "fop_arq.tracks W B k (sent L) s"
      using fop_arq.tracks_ack [of W B b "sent L" "l_fop L" c k] assms(1,2) True k r by (simp add: link_at_def s)
    have st: "fop_live s \<and> fop_nnr s = of_nat k \<or> fop_state s = Initial \<and> outstanding s = []"
      using fop_live_or_dead(1) [OF True, of c] k(1) by (simp add: s)
    then have "fop_live s \<or> outstanding s = []" by blast
    then obtain fs' where "flight_ok W (sent L) (length (dlv L)) (fwd L @ frames_of s as) fs'"
      using link_transmit [OF tr _ r] assms(1) unfolding link_at_def by blast
    then show ?thesis using assms(1) tr st k by (auto simp: link_inv_def link_at_def)
  next
    case False
    then have "s = l_fop L" "as = []" using assms(1,4) fop_initial_idle(1) by (auto simp: link_at_def)
    then show ?thesis using assms(1) k(5) by (auto simp: link_inv_def link_at_def)
  qed
qed

lemma timer_inv:
  assumes "link_at W B b fs ks L" "fop_handle (l_fop L) TimerExpired = (s, as)"
  shows "link_inv W B (L\<lparr>l_fop := s, fwd := fwd L @ frames_of s as\<rparr>)"
proof (cases "fop_live (l_fop L)")
  case True
  have s: "s = fst (fop_handle (l_fop L) TimerExpired)" using assms(2) by simp
  have r: "length (dlv L) \<le> length (sent L)" using assms(1) by (auto simp: link_at_def dest: prefix_length_le)
  have tr: "fop_arq.tracks W B b (sent L) s"
    using fop_arq.tracks_timeout [of W B b "sent L" "l_fop L"] assms(1) True by (simp add: link_at_def s)
  have "fop_nnr (l_fop L) = of_nat b" using assms(1) True by (auto simp: link_at_def fop_live_def)
  then have st: "fop_live s \<and> fop_nnr s = of_nat b \<or> fop_state s = Initial \<and> outstanding s = []"
    using fop_live_or_dead(2) [OF True] by (simp add: s)
  then have "fop_live s \<or> outstanding s = []" by blast
  then obtain fs' where "flight_ok W (sent L) (length (dlv L)) (fwd L @ frames_of s as) fs'"
    using link_transmit [OF tr _ r] assms(1) unfolding link_at_def by blast
  then show ?thesis using assms(1) tr st by (auto simp: link_inv_def link_at_def)
next
  case False
  then have "s = l_fop L" "as = []" using assms fop_initial_idle(2) by (auto simp: link_at_def)
  then show ?thesis using assms(1) by (auto simp: link_inv_def)
qed

lemma send_bd_terminate_inv:
  assumes "link_at W B b fs ks L"
  shows "link_inv W B (L\<lparr>l_fop := fst (fop_handle (l_fop L) (SendBd p))\<rparr>)"
    and "link_inv W B (L\<lparr>l_fop := fst (fop_handle (l_fop L) Terminate)\<rparr>)"
proof -
  have wf: "fop_wf W B (l_fop L)" using assms by (simp add: link_at_def fop_arq.tracks_def)
  have "outstanding (fst (fop_handle (l_fop L) (SendBd p))) = outstanding (l_fop L)
      \<and> fop_vs (fst (fop_handle (l_fop L) (SendBd p))) = fop_vs (l_fop L)
      \<and> fop_state (fst (fop_handle (l_fop L) (SendBd p))) = fop_state (l_fop L)
      \<and> fop_nnr (fst (fop_handle (l_fop L) (SendBd p))) = fop_nnr (l_fop L)"
    using buffer_fdu_views [OF wf] fop_nnr_event(4) [of "l_fop L" p]
    by (auto simp: fop_handle_def handle_send_bd_def split: option.split)
  then show "link_inv W B (L\<lparr>l_fop := fst (fop_handle (l_fop L) (SendBd p))\<rparr>)"
    using assms fop_handle_wf [OF wf] by (auto simp: link_inv_def link_at_def fop_arq.tracks_def fop_live_def)
  show "link_inv W B (L\<lparr>l_fop := fst (fop_handle (l_fop L) Terminate)\<rparr>)"
    using assms fop_handle_wf [OF wf, of Terminate]
    by (auto simp: link_inv_def link_at_def fop_arq.tracks_def fop_live_def fop_handle_def handle_terminate_def Let_def)
qed

lemma accepted_ad:
  "accepted (snd (farm_handle s (AdFrame q room p))) =
     (if farm_state s = Open \<and> q = farm_vr s \<and> room then [p] else [])"
  by (auto simp: farm_defs classify_seq_def Let_def split: FarmState.splits SeqZone.splits)

lemma arrive_inv:
  assumes "link_at W B b fs ks L" "W \<le> 127" "fwd L = (q, p) # frames"
    "farm_handle (l_farm L) (AdFrame q room p) = (s, as)"
  shows "link_inv W B (L\<lparr>l_farm := s, fwd := frames, dlv := dlv L @ accepted as\<rparr>)"
proof -
  let ?r = "length (dlv L)" and ?take = "farm_state (l_farm L) = Open \<and> q = farm_vr (l_farm L) \<and> room"
  obtain i N fs' where h: "q = of_nat i" "p = sent L ! i" "i < N" "N \<le> i + W" "?r \<le> N" "N \<le> length (sent L)"
    "flight_ok W (sent L) ?r frames fs'" "\<forall>f\<in>set fs'. N \<le> snd f"
    using assms(1,3) flight_head unfolding link_at_def by metis
  have s: "s = fst (farm_handle (l_farm L) (AdFrame q room p))" "as = snd (farm_handle (l_farm L) (AdFrame q room p))"
    using assms(4) by simp_all
  have vr: "farm_vr (l_farm L) = of_nat ?r" using assms(1) by (simp add: link_at_def)
  have vr': "farm_vr s = of_nat (if ?take then Suc ?r else ?r)"
    unfolding s by (rule farm_arq.recv_counts [OF vr])
  show ?thesis
  proof (cases ?take)
    case True
    have "length (sent L) \<le> b + W" "b \<le> ?r" using assms(1) by (simp_all add: link_at_def fop_arq.tracks_def)
    then have "i = ?r" using farm_arq.takes_next [OF vr, of i room] True h(1,3-6) assms(2) by simp
    then have p: "p = sent L ! ?r" "?r < length (sent L)" "\<forall>f\<in>set fs'. Suc ?r \<le> snd f" using h by auto
    moreover have "accepted as = [p]" using True by (simp add: s accepted_ad)
    moreover have "prefix (dlv L @ [p]) (sent L)"
      using assms(1) p(1,2) append_one_prefix [of "dlv L" "sent L"] by (simp add: link_at_def)
    ultimately show ?thesis
      using assms(1) True vr' flight_count [OF h(7), of "Suc ?r"] reports_count [of b ?r "reports L" ks "Suc ?r"]
      by (intro link_invI [of W B b fs' ks]) (simp add: link_at_def)
  next
    case False
    then have "accepted as = []" by (simp add: s accepted_ad del: de_Morgan_conj)
    then show ?thesis using assms(1) False vr' h(7)
      by (intro link_invI [of W B b fs' ks]) (simp add: link_at_def)
  qed
qed

lemma link_init_inv: "link_inv W B (link_init W B fc rc)"
proof -
  have "fop_wf W B (fst (fop_handle (fop_new W B fc) InitAdNoClcw))" by (intro fop_handle_wf fop_new_wf)
  moreover have "fop_live (fst (fop_handle (fop_new W B fc) InitAdNoClcw))"
    "outstanding (fst (fop_handle (fop_new W B fc) InitAdNoClcw)) = []"
    "fop_vs (fst (fop_handle (fop_new W B fc) InitAdNoClcw)) = 0" "fop_nnr (fst (fop_handle (fop_new W B fc) InitAdNoClcw)) = 0"
    by (simp_all add: fop_live_def fop_handle_def handle_init_no_clcw_def fop_new_def purge_sent_queue_def outstanding_def
        FduSlot_default_def)
  ultimately show ?thesis
    by (intro link_invI [of W B 0 "[]" "[]"])
      (simp add: link_at_def link_init_def fop_arq.tracks_def window_held_def farm_new_def flight_ok_def reports_ok_def)
qed

lemma link_step_inv:
  assumes "link_step L L'" "W \<le> 127" "link_inv W B L"
  shows "link_inv W B L'"
proof -
  obtain b fs ks where at: "link_at W B b fs ks L" using assms(3) by (auto simp: link_inv_def)
  from assms(1) show ?thesis
  proof cases
    case (send_ad p s as)
    then show ?thesis using send_ad_inv [OF at] by simp
  next
    case (send_bd p s as)
    then show ?thesis using send_bd_terminate_inv(1) [OF at, of p] by simp
  next
    case (timer s as)
    then show ?thesis using timer_inv [OF at] by simp
  next
    case (report c cs s as)
    then show ?thesis using report_inv [OF at assms(2)] by simp
  next
    case (terminate s as)
    then show ?thesis using send_bd_terminate_inv(2) [OF at] by simp
  next
    case (arrive q p frames room s as)
    then show ?thesis using arrive_inv [OF at assms(2)] by simp
  next
    case (farm_other ev)
    then have "farm_vr (fst (farm_handle (l_farm L) ev)) = farm_vr (l_farm L)" by (intro farm_vr_other)
    then show ?thesis using at farm_other(1) by (intro link_invI [of W B b fs ks]) (simp add: link_at_def)
  next
    case emit_clcw
    then show ?thesis using at reports_emit [of b "length (dlv L)" "reports L" ks "farm_clcw (l_farm L)"]
      by (intro link_invI [of W B b fs "ks @ [length (dlv L)]"]) (simp add: link_at_def farm_clcw_fields)
  next
    case (lose_frame xs f ys)
    then obtain fs' where "flight_ok W (sent L) (length (dlv L)) (xs @ ys) fs'"
      using at flight_lose unfolding link_at_def by metis
    then show ?thesis using at lose_frame(1) by (intro link_invI [of W B b fs' ks]) (simp add: link_at_def)
  next
    case (lose_clcw xs c ys)
    then obtain ks' where "reports_ok b (length (dlv L)) (xs @ ys) ks'"
      using at reports_lose unfolding link_at_def by metis
    then show ?thesis using at lose_clcw(1) by (intro link_invI [of W B b fs ks']) (simp add: link_at_def)
  qed
qed

lemma link_reach_inv:
  assumes "link_step\<^sup>*\<^sup>* (link_init W B fc rc) L" "W \<le> 127"
  shows "link_inv W B L"
  using assms(1) by induction (auto intro: link_init_inv link_step_inv assms(2))

section \<open>End-to-end properties\<close>

text \<open>
  C1: Reliable in-order delivery. With at most 127 slots in FOP-1's window, in every
  reachable state of the link, under every interleaving and any loss of frames and
  reports, the FDUs FARM-1 delivered are a prefix of the FDUs FOP-1 took on: nothing is
  lost, duplicated, reordered or invented, also when the 8-bit sequence numbers wrap, and
  at most a window of FDUs is undelivered.
\<close>

theorem cop1_delivers_prefix:
  assumes "W \<le> 127" "link_step\<^sup>*\<^sup>* (link_init W B fc rc) L"
  shows "prefix (dlv L) (sent L) \<and> length (sent L) \<le> length (dlv L) + W"
proof -
  obtain b fs ks where "link_at W B b fs ks L"
    using link_reach_inv [OF assms(2,1)] by (auto simp: link_inv_def)
  then show ?thesis by (simp add: link_at_def fop_arq.tracks_def)
qed

lemma window_get_fdu:
  assumes "fop_arq.tracks W B b snt s" "W \<le> 127" "fop_live s" "b \<le> i" "i < length snt"
  shows "get_fdu s (of_nat i) = Some (snt ! i)"
proof -
  have held: "mset (outstanding s) = window_held b snt" and b: "length snt \<le> b + W"
    using assms by (auto simp: fop_arq.tracks_def)
  have "(of_nat i, snt ! i) \<in> set (outstanding s)"
    using held assms(4,5) by (metis in_window_held set_mset_mset)
  moreover have "p = snt ! i" if "(of_nat i, p) \<in> set (outstanding s)" for p
  proof -
    have "(of_nat i, p) \<in># window_held b snt" using that held by (metis set_mset_mset)
    then obtain j where j: "b \<le> j" "j < length snt" "(of_nat i :: u8) = of_nat j" "p = snt ! j"
      by (auto simp: in_window_held)
    then have "i = j" using b assms by (intro of_nat_word_eq_near [OF j(3)]) auto
    then show ?thesis using j by simp
  qed
  ultimately show ?thesis
    unfolding get_fdu_outstanding by (metis map_of_SomeD map_of_eq_None_iff not_None_eq fst_conv image_eqI)
qed

text \<open>
  C4: Nothing undelivered is forgotten. In every reachable state in which the session is
  alive, FOP-1 still holds every FDU not yet delivered: \<open>get_fdu\<close> of its sequence number
  returns exactly that FDU, so it can be retransmitted.
\<close>

theorem cop1_keeps_undelivered:
  assumes "W \<le> 127" "link_step\<^sup>*\<^sup>* (link_init W B fc rc) L" "fop_live (l_fop L)"
    "length (dlv L) \<le> i" "i < length (sent L)"
  shows "get_fdu (l_fop L) (of_nat i) = Some (sent L ! i)"
proof -
  obtain b fs ks where at: "link_at W B b fs ks L"
    using link_reach_inv [OF assms(2,1)] by (auto simp: link_inv_def)
  then have "fop_arq.tracks W B b (sent L) (l_fop L)" "b \<le> i" using assms(4) by (auto simp: link_at_def)
  then show ?thesis using window_get_fdu assms(1,3,5) by blast
qed

text \<open>A run of the link used as a concrete instance: one FDU is sent and arrives.\<close>

definition demo_rc :: FarmConfig where
  "demo_rc = \<lparr>fc_vcid = 0, fc_window_width = 10\<rparr>"

definition demo_link1 :: link where
  "demo_link1 = \<lparr>l_fop = demo_fop1, l_farm = farm_new demo_rc, fwd = [(0, [7, 8])], reports = [], sent = [[7, 8]], dlv = []\<rparr>"

definition demo_link2 :: link where
  "demo_link2 = \<lparr>l_fop = demo_fop1, l_farm = fst (farm_handle (farm_new demo_rc) (AdFrame 0 True [7, 8])),
     fwd = [], reports = [], sent = [[7, 8]], dlv = [[7, 8]]\<rparr>"

lemma demo_link1_step: "link_step (link_init 2 8 demo_config demo_rc) demo_link1"
proof -
  have acts: "snd (fop_handle demo_fop (SendAd [7, 8])) = [TransmitAd 0, StartTimer]"
    using handle_send_ad_accept(5) [OF demo_fop_wf demo_can_send, of "[]"]
    by (simp add: fop_handle_def fop_push_def FOP_MAX_ACTIONS_def)
  have init: "l_fop (link_init 2 8 demo_config demo_rc) = demo_fop" by (simp add: link_init_def demo_fop_def)
  have "fop_handle (l_fop (link_init 2 8 demo_config demo_rc)) (SendAd [7, 8]) = (demo_fop1, [TransmitAd 0, StartTimer])"
    unfolding init using acts by (simp add: demo_fop1_def prod_eq_iff)
  from link_step.send_ad [OF this] show ?thesis
    by (simp add: link_init_def demo_link1_def get_fdu_outstanding demo_fop1_views)
qed

lemma demo_link2_step: "link_step demo_link1 demo_link2"
proof -
  have "farm_handle (l_farm demo_link1) (AdFrame 0 True [7, 8]) =
      (fst (farm_handle (farm_new demo_rc) (AdFrame 0 True [7, 8])), [FarmAccept [7, 8]])"
    by (simp add: demo_link1_def farm_new_def farm_defs classify_seq_def)
  from link_step.arrive [OF _ this, of "[]"] show ?thesis by (simp add: demo_link1_def demo_link2_def)
qed

lemma demo_reach: "link_step\<^sup>*\<^sup>* (link_init 2 8 demo_config demo_rc) demo_link1"
  "link_step\<^sup>*\<^sup>* (link_init 2 8 demo_config demo_rc) demo_link2"
  using demo_link1_step demo_link2_step by (auto intro: rtranclp.rtrancl_into_rtrancl)

theorem cop1_delivers_prefix_witness:
  "link_step\<^sup>*\<^sup>* (link_init 2 8 demo_config demo_rc) demo_link2 \<and> dlv demo_link2 = [[7, 8]]
    \<and> prefix (dlv demo_link2) (sent demo_link2)"
  using cop1_delivers_prefix [OF _ demo_reach(2)] demo_reach(2) by (simp add: demo_link2_def)

theorem cop1_keeps_undelivered_witness:
  "link_step\<^sup>*\<^sup>* (link_init 2 8 demo_config demo_rc) demo_link1 \<and> get_fdu (l_fop demo_link1) 0 = Some [7, 8]"
  using cop1_keeps_undelivered [OF _ demo_reach(1), of 0] demo_reach(1)
  by (simp add: demo_link1_def fop_live_def demo_fop1_views)

subsection \<open>No lockout\<close>

lemma farm_handle_window: "pw (fst (farm_handle s ev)) = pw s" "nw (fst (farm_handle s ev)) = nw s"
  by (cases ev; auto simp: farm_defs Let_def split: FarmState.splits SeqZone.splits ControlCommand.splits)+

lemma farm_lockout_only_ad:
  assumes "farm_state s \<noteq> Lockout"
  shows "(\<And>q room p. ev \<noteq> AdFrame q room p) \<Longrightarrow> farm_state (fst (farm_handle s ev)) \<noteq> Lockout"
    and "classify_seq s q \<noteq> ZoneLockout \<Longrightarrow> farm_state (fst (farm_handle s (AdFrame q room p))) \<noteq> Lockout"
proof -
  show "(\<And>q room p. ev \<noteq> AdFrame q room p) \<Longrightarrow> farm_state (fst (farm_handle s ev)) \<noteq> Lockout"
    using assms by (cases ev) (auto simp: farm_defs Let_def split: FarmState.splits ControlCommand.splits)
  show "classify_seq s q \<noteq> ZoneLockout \<Longrightarrow> farm_state (fst (farm_handle s (AdFrame q room p))) \<noteq> Lockout"
    using assms by (auto simp: farm_defs Let_def split: FarmState.splits SeqZone.splits)
qed

lemma in_window_no_lockout:
  fixes i r W :: nat
  assumes "pw s = w div 2" "nw s = w div 2" "farm_vr s = of_nat r" "i < r + W" "r \<le> i + W" "W \<le> unat w div 2"
  shows "classify_seq s (of_nat i) \<noteq> ZoneLockout"
proof -
  have h: "unat w div 2 < 128" using unat_u8_less [of w] by simp
  note z = classify_seq_dist [of s "\<lparr>fc_vcid = 0, fc_window_width = w\<rparr>" "of_nat i"]
  show ?thesis
  proof (cases "r \<le> i")
    case True
    then have "unat ((of_nat i :: u8) - of_nat r) = i - r" using assms h by (intro unat_of_nat_diff) auto
    then show ?thesis using z assms True by (simp add: Let_def split: if_splits)
  next
    case False
    then have "unat ((of_nat i :: u8) - of_nat r) = 2 ^ LENGTH(8) - (r - i)"
      using assms h by (intro unat_of_nat_diff_wrap) auto
    then show ?thesis using z assms False by (simp add: Let_def split: if_splits)
  qed
qed

lemma link_reach_farm:
  assumes "W \<le> unat (fc_window_width rc) div 2" "link_step\<^sup>*\<^sup>* (link_init W B fc rc) L"
  shows "pw (l_farm L) = fc_window_width rc div 2 \<and> nw (l_farm L) = fc_window_width rc div 2
    \<and> farm_state (l_farm L) \<noteq> Lockout \<and> (\<forall>c\<in>set (reports L). \<not> lockout c)"
proof -
  have W: "W \<le> 127" using assms(1) unat_u8_less [of "fc_window_width rc"] by linarith
  let ?P = "\<lambda>L. link_inv W B L \<and> pw (l_farm L) = fc_window_width rc div 2 \<and> nw (l_farm L) = fc_window_width rc div 2
     \<and> farm_inv (l_farm L) \<and> farm_state (l_farm L) \<noteq> Lockout \<and> (\<forall>c\<in>set (reports L). \<not> lockout c)"
  have step: "?P L'" if P: "?P L" and st: "link_step L L'" for L L'
  proof -
    have inv: "link_inv W B L'" using link_step_inv [OF st W] P by blast
    obtain b fs ks where at: "link_at W B b fs ks L" using P by (auto simp: link_inv_def)
    from st show ?thesis
    proof cases
      case (arrive q p frames room s as)
      obtain i N fs' where h: "q = of_nat i" "i < N" "N \<le> i + W" "length (dlv L) \<le> N" "N \<le> length (sent L)"
        using at arrive(2) flight_head unfolding link_at_def by metis
      have "length (sent L) \<le> length (dlv L) + W" "farm_vr (l_farm L) = of_nat (length (dlv L))"
        using at by (simp_all add: link_at_def fop_arq.tracks_def)
      then have "classify_seq (l_farm L) q \<noteq> ZoneLockout" unfolding h(1)
        using P h assms(1) by (intro in_window_no_lockout [where W = W and w = "fc_window_width rc" and r = "length (dlv L)"]) auto
      moreover have "s = fst (farm_handle (l_farm L) (AdFrame q room p))" using arrive(3) by simp
      ultimately show ?thesis
        using inv P arrive(1) farm_lockout_only_ad(2) farm_handle_window farm_handle_inv by simp
    next
      case (farm_other ev)
      then show ?thesis using inv P farm_lockout_only_ad(1) [of "l_farm L" ev] by (simp add: farm_handle_window farm_handle_inv)
    next
      case emit_clcw
      then show ?thesis using inv P by (simp add: farm_clcw_fields farm_inv_def)
    qed (use inv P in auto)
  qed
  have init: "?P (link_init W B fc rc)"
    using link_init_inv by (simp add: link_init_def farm_new_def farm_inv_def)
  have "?P L" using assms(2)
  proof (induction rule: rtranclp_induct)
    case base
    show ?case by (rule init)
  next
    case (step L L')
    then show ?case using \<open>\<And>L L'. ?P L \<Longrightarrow> link_step L L' \<Longrightarrow> ?P L'\<close> by blast
  qed
  then show ?thesis by blast
qed

text \<open>
  C3: A matched pair never locks out. If FARM-1's window is at least twice FOP-1's number
  of slots, no reachable state of the link has FARM-1 in Lockout, so no CLCW of the
  session ever makes FOP-1 alert.
\<close>

theorem cop1_no_lockout:
  assumes "W \<le> unat (fc_window_width rc) div 2" "link_step\<^sup>*\<^sup>* (link_init W B fc rc) L"
  shows "farm_state (l_farm L) \<noteq> Lockout \<and> (\<forall>c\<in>set (reports L). \<not> lockout c)"
  using link_reach_farm [OF assms] by blast

theorem cop1_no_lockout_witness:
  "link_step\<^sup>*\<^sup>* (link_init 2 8 demo_config demo_rc) demo_link2 \<and> farm_state (l_farm demo_link2) \<noteq> Lockout"
  using cop1_no_lockout [OF _ demo_reach(2)] demo_reach(2) by (simp add: demo_rc_def)

end
