(* ===== verification/Cop1_Recovery.thy ===== *)
theory Cop1_Recovery
  imports Cop1_Link
begin

text \<open>
  Recovery from losses. \<open>Cop1_Link\<close> shows that nothing wrong is ever delivered; this theory
  shows that delivery can always be completed. From any reachable state of a matched pair
  in which the session is alive and the transmission limit is not exhausted, the next
  timer expiration puts the whole window on the channel, oldest frame first, and if those
  frames get through, everything sent has been delivered. FOP-1's action vector holds 16
  actions, so the window must have at most 16 slots for one expiration to be enough.
\<close>

lemma sorted_window_seqs:
  fixes b n :: nat
  assumes "mset seqs = mset (map of_nat [b..<n])" "sorted (map (\<lambda>q. q - of_nat b) seqs)" "n \<le> b + 127"
  shows "seqs = map (of_nat :: nat \<Rightarrow> u8) [b..<n]"
proof -
  let ?d = "\<lambda>q :: u8. q - of_nat b"
  have "map ?d (map of_nat [b..<n]) = map (\<lambda>i. of_nat (i - b)) [b..<n]" by (auto simp: of_nat_diff)
  moreover have "sorted (map (\<lambda>i. of_nat (i - b) :: u8) [b..<n])"
    using assms(3) by (auto simp: sorted_iff_nth_mono word_le_nat_alt unat_of_nat)
  ultimately have "sorted (map ?d (map of_nat [b..<n]))" by (simp only:)
  moreover have "mset (map ?d seqs) = mset (map ?d (map of_nat [b..<n]))"
    using assms(1) by (metis mset_map)
  ultimately have "map ?d seqs = map ?d (map of_nat [b..<n])"
    using assms(2) by (metis properties_for_sort)
  moreover have "inj ?d" by (simp add: inj_def)
  ultimately show ?thesis by (simp only: inj_map_eq_map)
qed

section \<open>The timer puts the window on the channel\<close>

lemma frames_of_append: "frames_of s (xs @ ys) = frames_of s xs @ frames_of s ys"
  by (induction s xs rule: frames_of.induct) simp_all

lemma frames_of_transmits:
  assumes "\<forall>i\<in>set js. get_fdu s (of_nat i) = Some (snt ! i)"
  shows "frames_of s (map TransmitAd (map of_nat js)) = map (\<lambda>i. (of_nat i, snt ! i)) js"
  using assms by (induction js) simp_all

lemma timer_acts:
  assumes "fop_live s" "\<not> timer_exhausted s"
  shows "\<exists>seqs. mset seqs = image_mset fst (mset (outstanding s)) \<and> sorted (map (\<lambda>q. q - fop_nnr s) seqs)
    \<and> snd (fop_handle s TimerExpired) = take FOP_MAX_ACTIONS (map TransmitAd seqs @ (if seqs = [] then [] else [StartTimer]))"
proof -
  have "snd (fop_handle s TimerExpired) = snd (initiate_retransmission s [])"
    using assms by (auto simp: fop_live_def timer_exhausted_def fop_handle_def handle_timer_expired_def Let_def case_prod_beta)
  then show ?thesis using initiate_retransmission_acts [of s] by simp
qed

lemma timer_frames:
  assumes "link_at W B b fs ks L" "W \<le> 16" "fop_live (l_fop L)" "\<not> timer_exhausted (l_fop L)"
    "fop_handle (l_fop L) TimerExpired = (s, as)"
  shows "frames_of s as = map (\<lambda>i. (of_nat i, sent L ! i)) [b..<length (sent L)]"
proof -
  let ?n = "length (sent L)"
  have s: "s = fst (fop_handle (l_fop L) TimerExpired)" using assms(5) by simp
  have tr0: "fop_arq.tracks W B b (sent L) (l_fop L)" and nnr: "fop_nnr (l_fop L) = of_nat b"
    using assms(1,3) by (auto simp: link_at_def fop_live_def)
  have n: "b \<le> ?n" "?n \<le> b + W" using tr0 by (simp_all add: fop_arq.tracks_def)
  have tr: "fop_arq.tracks W B b (sent L) s" unfolding s using fop_arq.tracks_timeout [OF tr0 assms(3)] .
  have live: "fop_live s" using fop_timer_live [OF assms(3)] assms(4) by (simp add: s)
  have held: "mset (outstanding (l_fop L)) = window_held b (sent L)"
    using tr0 assms(3) by (simp add: fop_arq.tracks_def)
  obtain seqs where seqs: "mset seqs = image_mset fst (window_held b (sent L))" "sorted (map (\<lambda>q. q - of_nat b) seqs)"
    "as = take FOP_MAX_ACTIONS (map TransmitAd seqs @ (if seqs = [] then [] else [StartTimer]))"
    using timer_acts [OF assms(3,4)] assms(5) held nnr by auto
  have "mset seqs = mset (map of_nat [b..<?n])"
    unfolding seqs(1) window_held_def by (simp only: multiset.map_comp comp_def fst_conv mset_map)
  then have eq: "seqs = map of_nat [b..<?n]" using sorted_window_seqs [OF _ seqs(2)] n assms(2) by simp
  have "length seqs \<le> 16" using n assms(2) by (simp add: eq)
  then obtain rest where rest: "as = map TransmitAd seqs @ rest" "frames_of s rest = []"
    unfolding seqs(3) by (cases "length seqs < 16") (auto simp: FOP_MAX_ACTIONS_def take_Cons')
  have "\<forall>i\<in>set [b..<?n]. get_fdu s (of_nat i) = Some (sent L ! i)"
    using window_get_fdu [OF tr _ live] assms(2) by simp
  then show ?thesis using frames_of_transmits [of "[b..<?n]" s "sent L"] by (simp add: rest frames_of_append eq)
qed

section \<open>Frames that get through are delivered\<close>

lemma arrive_step:
  assumes "fwd L = (q, p) # fs" "farm_state (l_farm L) = Open" "q = farm_vr (l_farm L)"
  shows "link_step L (L\<lparr>l_farm := (l_farm L)\<lparr>farm_vr := farm_vr (l_farm L) + 1, retransmit_flag := False\<rparr>,
      fwd := fs, dlv := dlv L @ [p]\<rparr>)"
proof -
  have "farm_handle (l_farm L) (AdFrame q True p) =
      ((l_farm L)\<lparr>farm_vr := farm_vr (l_farm L) + 1, retransmit_flag := False\<rparr>, [FarmAccept p])"
    using assms(2,3) by (simp add: farm_defs classify_seq_def)
  from link_step.arrive [OF assms(1) this] show ?thesis by simp
qed

lemma old_frame_step:
  fixes i r :: nat
  assumes "fwd L = (of_nat i, p) # fs" "farm_state (l_farm L) = Open" "farm_vr (l_farm L) = of_nat r" "i < r" "r \<le> i + W"
    "pw (l_farm L) = w div 2" "nw (l_farm L) = w div 2" "W \<le> unat w div 2"
  shows "link_step L (L\<lparr>fwd := fs\<rparr>)"
proof -
  have h: "unat w div 2 < 128" using unat_u8_less [of w] by simp
  have d: "unat ((of_nat i :: u8) - of_nat r) = 256 - (r - i)"
    using unat_of_nat_diff_wrap [of i r, where 'a = 8] assms(4,5,8) h by simp
  have z: "classify_seq (l_farm L) (of_nat i) = NegativeWindow"
    using classify_seq_dist [of "l_farm L" "\<lparr>fc_vcid = 0, fc_window_width = w\<rparr>" "of_nat i"] assms d h
    by (simp add: Let_def) linarith
  have "farm_handle (l_farm L) (AdFrame (of_nat i) True p) = (l_farm L, [FarmDiscard])"
    using assms(2) z by (simp add: farm_defs)
  from link_step.arrive [OF assms(1) this] show ?thesis by simp
qed

lemma drain:
  fixes j W :: nat
  assumes "fwd L = map (\<lambda>i. (of_nat i, sent L ! i)) [j..<length (sent L)]" "farm_state (l_farm L) = Open"
    "farm_vr (l_farm L) = of_nat (length (dlv L))" "prefix (dlv L) (sent L)" "j \<le> length (dlv L)"
    "length (sent L) \<le> j + W" "pw (l_farm L) = w div 2" "nw (l_farm L) = w div 2" "W \<le> unat w div 2"
  shows "\<exists>L'. link_step\<^sup>*\<^sup>* L L' \<and> dlv L' = sent L \<and> sent L' = sent L"
  using assms
proof (induction "length (sent L) - j" arbitrary: j L)
  case 0
  then have "length (sent L) \<le> length (dlv L)" by linarith
  then have "dlv L = sent L" using \<open>prefix (dlv L) (sent L)\<close>
    by (metis le_antisym prefix_def prefix_length_le append_eq_append_conv append_Nil2)
  then show ?case by blast
next
  case (Suc d)
  let ?r = "length (dlv L)" and ?fs = "map (\<lambda>i. (of_nat i :: u8, sent L ! i)) [Suc j..<length (sent L)]"
  have r: "?r \<le> length (sent L)" using Suc.prems(4) by (rule prefix_length_le)
  have j: "j < length (sent L)" using Suc.hyps(2) by simp
  then have f: "fwd L = (of_nat j, sent L ! j) # ?fs" using Suc.prems(1) by (simp add: upt_conv_Cons)
  show ?case
  proof (cases "j < ?r")
    case True
    then have st: "link_step L (L\<lparr>fwd := ?fs\<rparr>)"
      using old_frame_step [OF f Suc.prems(2,3) True _ Suc.prems(7,8,9)] Suc.prems(6) r by simp
    have "\<exists>L'. link_step\<^sup>*\<^sup>* (L\<lparr>fwd := ?fs\<rparr>) L' \<and> dlv L' = sent L \<and> sent L' = sent L"
      using Suc.hyps(1) [of "L\<lparr>fwd := ?fs\<rparr>" "Suc j"] Suc.hyps(2) Suc.prems True by simp
    then show ?thesis using st by (meson converse_rtranclp_into_rtranclp)
  next
    case False
    then have jr: "j = ?r" using Suc.prems(5) by simp
    let ?L = "L\<lparr>l_farm := (l_farm L)\<lparr>farm_vr := farm_vr (l_farm L) + 1, retransmit_flag := False\<rparr>, fwd := ?fs,
        dlv := dlv L @ [sent L ! j]\<rparr>"
    have st: "link_step L ?L" using arrive_step [OF f Suc.prems(2)] Suc.prems(3) jr by simp
    have "prefix (dlv L @ [sent L ! j]) (sent L)"
      unfolding jr by (intro append_one_prefix Suc.prems(4)) (use j jr in simp)
    then have "\<exists>L'. link_step\<^sup>*\<^sup>* ?L L' \<and> dlv L' = sent L \<and> sent L' = sent L"
      using Suc.hyps(1) [of ?L "Suc j"] Suc.hyps(2) Suc.prems jr by (simp add: add.commute)
    then show ?thesis using st by (meson converse_rtranclp_into_rtranclp)
  qed
qed

section \<open>Recovery\<close>

lemma lose_all: "link_step\<^sup>*\<^sup>* L (L\<lparr>fwd := []\<rparr>)"
proof (induction "fwd L" arbitrary: L)
  case Nil
  then have "L\<lparr>fwd := []\<rparr> = L" by simp
  then show ?case by simp
next
  case (Cons f fs)
  have "link_step L (L\<lparr>fwd := fs\<rparr>)" using link_step.lose_frame [of L "[]" f fs] Cons.hyps(2) by simp
  moreover have "link_step\<^sup>*\<^sup>* (L\<lparr>fwd := fs\<rparr>) (L\<lparr>fwd := []\<rparr>)" using Cons.hyps(1) [of "L\<lparr>fwd := fs\<rparr>"] by simp
  ultimately show ?case by (rule converse_rtranclp_into_rtranclp)
qed

lemma farm_reopens:
  assumes "farm_state (l_farm L) \<noteq> Lockout"
  shows "\<exists>s. link_step\<^sup>*\<^sup>* L (L\<lparr>l_farm := s\<rparr>) \<and> farm_state s = Open \<and> farm_vr s = farm_vr (l_farm L)
    \<and> pw s = pw (l_farm L) \<and> nw s = nw (l_farm L)"
proof -
  let ?s = "fst (farm_handle (l_farm L) BufferRelease)"
  have "link_step L (L\<lparr>l_farm := ?s\<rparr>)" by (rule link_step.farm_other) simp_all
  moreover have "farm_state ?s = Open \<and> farm_vr ?s = farm_vr (l_farm L) \<and> pw ?s = pw (l_farm L) \<and> nw ?s = nw (l_farm L)"
    using assms by (cases "farm_state (l_farm L)") (simp_all add: farm_defs)
  ultimately show ?thesis by blast
qed



end
