(* ===== verification/Spp.thy ===== *)
theory Spp
  imports Wire
begin

text \<open>
  CCSDS space packets (\<open>crates/leodos-protocols/src/datalink/spp/mod.rs\<close>): the 6-byte primary
  header and its packed fields, the builder and the parser. The identifier newtypes
  \<open>Apid\<close> (11 bits) and \<open>SequenceCount\<close> (14 bits) are 16-bit words with the bounds their
  constructors establish.
\<close>

section \<open>Definitions\<close>

record spp_header =
  packet_version_and_id :: u16
  packet_sequence_control :: u16
  packet_data_length :: u16

record spp_packet =
  spp_hdr :: spp_header
  spp_data :: bytes

definition PACKET_VERSION_MASK :: u16 where "PACKET_VERSION_MASK = 0xE000"
definition PACKET_TYPE_MASK :: u16 where "PACKET_TYPE_MASK = 0x1000"
definition SEC_HDR_MASK :: u16 where "SEC_HDR_MASK = 0x0800"
definition APID_MASK :: u16 where "APID_MASK = 0x07FF"
definition SEQ_FLAG_MASK :: u16 where "SEQ_FLAG_MASK = 0xC000"
definition SEQ_COUNT_MASK :: u16 where "SEQ_COUNT_MASK = 0x3FFF"

datatype PacketType = Telemetry | Telecommand

datatype SecondaryHeaderFlag = Absent | Present

datatype SequenceFlag = Continuation | First | Last | Unsegmented

definition APID_MAX :: u16 where "APID_MAX = 0x07FF"
definition APID_IDLE :: u16 where "APID_IDLE = APID_MAX"
definition SEQUENCE_COUNT_MAX :: u16 where "SEQUENCE_COUNT_MAX = 0x3FFF"

datatype SppValidationError = UnsupportedVersion u8 | IdlePacketWithSecondaryHeader

datatype SppParseError =
    SppTooShortForHeader nat
  | IncompletePacket nat nat
  | Invalid SppValidationError

datatype SppBuildError =
    SppBufferTooSmall nat nat
  | PayloadTooLarge nat nat
  | EmptyDataField
  | InvalidApid u16

definition Apid_new :: "u16 \<Rightarrow> SppBuildError + u16" where
  "Apid_new i = (if i > APID_MAX then Inl (InvalidApid i) else Inr i)"

definition apid_is_idle :: "u16 \<Rightarrow> bool" where
  "apid_is_idle a \<longleftrightarrow> a = APID_IDLE"

definition SequenceCount_new :: u16 where
  "SequenceCount_new = 0"

definition SequenceCount_increment :: "u16 \<Rightarrow> u16" where
  "SequenceCount_increment c = (c + 1) AND SEQUENCE_COUNT_MAX"

definition SequenceCount_from :: "u16 \<Rightarrow> u16" where
  "SequenceCount_from v = v AND SEQUENCE_COUNT_MAX"

definition spp_version :: "spp_header \<Rightarrow> u8" where
  "spp_version h = ucast (get_bits (packet_version_and_id h) PACKET_VERSION_MASK)"

definition spp_set_version :: "spp_header \<Rightarrow> u8 \<Rightarrow> spp_header" where
  "spp_set_version h v =
     h\<lparr>packet_version_and_id := set_bits (packet_version_and_id h) PACKET_VERSION_MASK (ucast v)\<rparr>"

definition packet_type :: "spp_header \<Rightarrow> PacketType" where
  "packet_type h = (if get_bits (packet_version_and_id h) PACKET_TYPE_MASK = 0 then Telemetry else Telecommand)"

definition packet_type_bits :: "PacketType \<Rightarrow> u16" where
  "packet_type_bits t = (case t of Telemetry \<Rightarrow> 0 | Telecommand \<Rightarrow> 1)"

definition set_packet_type :: "spp_header \<Rightarrow> PacketType \<Rightarrow> spp_header" where
  "set_packet_type h t =
     h\<lparr>packet_version_and_id := set_bits (packet_version_and_id h) PACKET_TYPE_MASK (packet_type_bits t)\<rparr>"

definition secondary_header_flag :: "spp_header \<Rightarrow> SecondaryHeaderFlag" where
  "secondary_header_flag h = (if get_bits (packet_version_and_id h) SEC_HDR_MASK = 0 then Absent else Present)"

definition set_secondary_header_flag :: "spp_header \<Rightarrow> SecondaryHeaderFlag \<Rightarrow> spp_header" where
  "set_secondary_header_flag h f =
     h\<lparr>packet_version_and_id := set_bits (packet_version_and_id h) SEC_HDR_MASK (case f of Absent \<Rightarrow> 0 | Present \<Rightarrow> 1)\<rparr>"

definition apid :: "spp_header \<Rightarrow> u16" where
  "apid h = packet_version_and_id h AND APID_MASK"

definition set_apid :: "spp_header \<Rightarrow> u16 \<Rightarrow> spp_header" where
  "set_apid h a = h\<lparr>packet_version_and_id := (packet_version_and_id h AND NOT APID_MASK) OR a\<rparr>"

definition sequence_flag :: "spp_header \<Rightarrow> SequenceFlag" where
  "sequence_flag h =
     (let v = get_bits (packet_sequence_control h) SEQ_FLAG_MASK
      in if v = 0 then Continuation else if v = 1 then First else if v = 2 then Last else Unsegmented)"

definition sequence_flag_bits :: "SequenceFlag \<Rightarrow> u16" where
  "sequence_flag_bits f = (case f of Continuation \<Rightarrow> 0 | First \<Rightarrow> 1 | Last \<Rightarrow> 2 | Unsegmented \<Rightarrow> 3)"

definition set_sequence_flag :: "spp_header \<Rightarrow> SequenceFlag \<Rightarrow> spp_header" where
  "set_sequence_flag h f =
     h\<lparr>packet_sequence_control := set_bits (packet_sequence_control h) SEQ_FLAG_MASK (sequence_flag_bits f)\<rparr>"

definition sequence_count :: "spp_header \<Rightarrow> u16" where
  "sequence_count h = get_bits (packet_sequence_control h) SEQ_COUNT_MASK"

definition set_sequence_count :: "spp_header \<Rightarrow> u16 \<Rightarrow> spp_header" where
  "set_sequence_count h c =
     h\<lparr>packet_sequence_control := set_bits (packet_sequence_control h) SEQ_COUNT_MASK c\<rparr>"

definition data_field_len :: "spp_header \<Rightarrow> nat" where
  "data_field_len h = unat (packet_data_length h) + 1"

definition set_data_field_len :: "spp_header \<Rightarrow> u16 \<Rightarrow> spp_header" where
  "set_data_field_len h len = h\<lparr>packet_data_length := len - 1\<rparr>"

definition SPP_HEADER_SIZE :: nat where "SPP_HEADER_SIZE = 6"

definition packet_len :: "spp_header \<Rightarrow> nat" where
  "packet_len h = data_field_len h + SPP_HEADER_SIZE"

definition cfe_msg_id :: "spp_header \<Rightarrow> u16" where
  "cfe_msg_id h = (apid h OR push_bit 12 (packet_type_bits (packet_type h))) OR 0x0800"

definition spp_validate :: "spp_header \<Rightarrow> SppValidationError option" where
  "spp_validate h =
     (if spp_version h \<noteq> 0 then Some (UnsupportedVersion (spp_version h))
      else if apid_is_idle (apid h) \<and> secondary_header_flag h = Present then Some IdlePacketWithSecondaryHeader
      else None)"

text \<open>The header struct as the first six bytes of the buffer it overlays.\<close>

definition spp_header_of :: "bytes \<Rightarrow> spp_header" where
  "spp_header_of bs =
     \<lparr>packet_version_and_id = be16_to (bs ! 0) (bs ! 1), packet_sequence_control = be16_to (bs ! 2) (bs ! 3),
      packet_data_length = be16_to (bs ! 4) (bs ! 5)\<rparr>"

definition spp_header_bytes :: "spp_header \<Rightarrow> bytes" where
  "spp_header_bytes h =
     be16_of (packet_version_and_id h) @ be16_of (packet_sequence_control h) @ be16_of (packet_data_length h)"

definition spp_parse :: "bytes \<Rightarrow> SppParseError + spp_packet" where
  "spp_parse bs =
     (if length bs < SPP_HEADER_SIZE then Inl (SppTooShortForHeader (length bs))
      else let h = spp_header_of bs
           in case spp_validate h of
                Some e \<Rightarrow> Inl (Invalid e)
              | None \<Rightarrow>
                  let specified_len = packet_len h
                  in if specified_len > length bs then Inl (IncompletePacket specified_len (length bs))
                     else Inr \<lparr>spp_hdr = h, spp_data = drop SPP_HEADER_SIZE (take specified_len bs)\<rparr>)"

text \<open>\<open>spp_new\<close> returns the caller's buffer with the header stamped into it.\<close>

definition spp_new ::
  "bytes \<Rightarrow> u16 \<Rightarrow> PacketType \<Rightarrow> u16 \<Rightarrow> SecondaryHeaderFlag \<Rightarrow> SequenceFlag \<Rightarrow> nat \<Rightarrow> SppBuildError + bytes" where
  "spp_new buffer ap ty count sec flag data_len =
     (if data_len > 65535 then Inl (InvalidApid ap)
      else if data_len = 0 then Inl EmptyDataField
      else let required_len = data_len + SPP_HEADER_SIZE; provided_len = length buffer
           in if provided_len < required_len then Inl (SppBufferTooSmall required_len provided_len)
              else let h = spp_header_of buffer;
                       h = spp_set_version h 0;
                       h = set_packet_type h ty;
                       h = set_apid h ap;
                       h = set_sequence_count h count;
                       h = set_data_field_len h (of_nat data_len);
                       h = set_secondary_header_flag h sec;
                       h = set_sequence_flag h flag
                   in Inr (blit buffer 0 (spp_header_bytes h)))"

section \<open>The header fields\<close>

interpretation spp_version_f: bit_field PACKET_VERSION_MASK 13 3
  by unfold_locales (simp_all add: PACKET_VERSION_MASK_def mask_eq_exp_minus_1 push_bit_eq_mult)
interpretation spp_type_f: bit_field PACKET_TYPE_MASK 12 1
  by unfold_locales (simp_all add: PACKET_TYPE_MASK_def mask_eq_exp_minus_1 push_bit_eq_mult)
interpretation spp_sec_f: bit_field SEC_HDR_MASK 11 1
  by unfold_locales (simp_all add: SEC_HDR_MASK_def mask_eq_exp_minus_1 push_bit_eq_mult)
interpretation spp_apid_f: bit_field APID_MASK 0 11
  by unfold_locales (simp_all add: APID_MASK_def mask_eq_exp_minus_1 push_bit_eq_mult)
interpretation spp_flag_f: bit_field SEQ_FLAG_MASK 14 2
  by unfold_locales (simp_all add: SEQ_FLAG_MASK_def mask_eq_exp_minus_1 push_bit_eq_mult)
interpretation spp_count_f: bit_field SEQ_COUNT_MASK 0 14
  by unfold_locales (simp_all add: SEQ_COUNT_MASK_def mask_eq_exp_minus_1 push_bit_eq_mult)

text \<open>The APID accessors are the field accessors without the shift.\<close>

lemma apid_get_bits: "apid h = get_bits (packet_version_and_id h) APID_MASK"
  by (simp add: apid_def get_bits_def spp_apid_f.trailing_zeros_mask)

lemma set_apid_set_bits: "set_apid h a = h\<lparr>packet_version_and_id := set_bits (packet_version_and_id h) APID_MASK a\<rparr>"
  by (simp add: set_apid_def set_bits_def spp_apid_f.trailing_zeros_mask)

lemmas spp_fields =
  spp_version_def spp_set_version_def packet_type_def set_packet_type_def packet_type_bits_def
  secondary_header_flag_def set_secondary_header_flag_def apid_get_bits set_apid_set_bits sequence_flag_def set_sequence_flag_def
  sequence_flag_bits_def sequence_count_def set_sequence_count_def data_field_len_def set_data_field_len_def

lemmas spp_below =
  spp_version_f.get_below [OF spp_type_f.bit_field_axioms] spp_version_f.get_below [OF spp_sec_f.bit_field_axioms]
  spp_version_f.get_below [OF spp_apid_f.bit_field_axioms] spp_type_f.get_below [OF spp_sec_f.bit_field_axioms]
  spp_type_f.get_below [OF spp_apid_f.bit_field_axioms] spp_sec_f.get_below [OF spp_apid_f.bit_field_axioms]
  spp_flag_f.get_below [OF spp_count_f.bit_field_axioms]

lemmas spp_above =
  spp_type_f.get_above [OF spp_version_f.bit_field_axioms] spp_sec_f.get_above [OF spp_version_f.bit_field_axioms]
  spp_sec_f.get_above [OF spp_type_f.bit_field_axioms] spp_apid_f.get_above [OF spp_version_f.bit_field_axioms]
  spp_apid_f.get_above [OF spp_type_f.bit_field_axioms] spp_apid_f.get_above [OF spp_sec_f.bit_field_axioms]
  spp_count_f.get_above [OF spp_flag_f.bit_field_axioms]

lemmas spp_same =
  spp_version_f.get_set spp_type_f.get_set spp_sec_f.get_set spp_apid_f.get_set spp_flag_f.get_set spp_count_f.get_set

definition spp_stamp ::
  "spp_header \<Rightarrow> u16 \<Rightarrow> PacketType \<Rightarrow> u16 \<Rightarrow> SecondaryHeaderFlag \<Rightarrow> SequenceFlag \<Rightarrow> nat \<Rightarrow> spp_header" where
  "spp_stamp h ap ty count sec flag n =
     set_sequence_flag (set_secondary_header_flag (set_data_field_len (set_sequence_count (set_apid
       (set_packet_type (spp_set_version h 0) ty) ap) count) (of_nat n)) sec) flag"

lemma spp_stamp_fields:
  assumes "unat ap \<le> 2047" "unat count \<le> 16383" "1 \<le> n" "n \<le> 65535"
  shows "spp_version (spp_stamp h ap ty count sec flag n) = 0" "packet_type (spp_stamp h ap ty count sec flag n) = ty"
    "secondary_header_flag (spp_stamp h ap ty count sec flag n) = sec" "apid (spp_stamp h ap ty count sec flag n) = ap"
    "sequence_flag (spp_stamp h ap ty count sec flag n) = flag" "sequence_count (spp_stamp h ap ty count sec flag n) = count"
    "data_field_len (spp_stamp h ap ty count sec flag n) = n"
proof -
  have ap: "take_bit 11 ap = ap" using assms(1) by (intro take_bit_word_fits) simp
  have ct: "take_bit 14 count = count" using assms(2) by (intro take_bit_word_fits) simp
  note rw = spp_stamp_def spp_fields spp_same spp_below spp_above ap ct
  show "spp_version (spp_stamp h ap ty count sec flag n) = 0"
    by (cases ty; cases sec) (simp_all add: rw)
  show "packet_type (spp_stamp h ap ty count sec flag n) = ty"
    by (cases ty; cases sec) (simp_all add: rw)
  show "secondary_header_flag (spp_stamp h ap ty count sec flag n) = sec"
    by (cases sec) (simp_all add: rw)
  show "apid (spp_stamp h ap ty count sec flag n) = ap" by (simp add: rw)
  show "sequence_flag (spp_stamp h ap ty count sec flag n) = flag"
    by (cases flag) (simp_all add: rw)
  show "sequence_count (spp_stamp h ap ty count sec flag n) = count"
    by (cases flag) (simp_all add: rw)
  have "unat (of_nat n - 1 :: u16) = n - 1" using assms(3,4) by (cases n) (simp_all add: unat_of_nat)
  then show "data_field_len (spp_stamp h ap ty count sec flag n) = n" using assms(3) by (simp add: spp_stamp_def spp_fields)
qed

section \<open>Building and parsing\<close>

lemma spp_header_of_bytes [simp]: "spp_header_of (spp_header_bytes h @ rest) = h"
  by (simp add: spp_header_of_def spp_header_bytes_def be16_of_def nth_append)

lemma length_spp_header_bytes [simp]: "length (spp_header_bytes h) = 6"
  by (simp add: spp_header_bytes_def)

text \<open>\<open>spp_ok\<close> is the condition under which \<open>new\<close> builds a packet.\<close>

definition spp_ok :: "bytes \<Rightarrow> nat \<Rightarrow> bool" where
  "spp_ok buffer n \<longleftrightarrow> 1 \<le> n \<and> n \<le> 65535 \<and> 6 + n \<le> length buffer"

lemma spp_new_ok:
  assumes "spp_ok buffer n"
  shows "spp_new buffer ap ty count sec flag n =
    Inr (spp_header_bytes (spp_stamp (spp_header_of buffer) ap ty count sec flag n) @ drop 6 buffer)"
  using assms by (simp add: spp_ok_def spp_new_def SPP_HEADER_SIZE_def spp_stamp_def blit_def Let_def)

lemma spp_new_err: "\<not> spp_ok buffer n \<Longrightarrow> \<exists>e. spp_new buffer ap ty count sec flag n = Inl e"
  by (auto simp: spp_ok_def spp_new_def SPP_HEADER_SIZE_def Let_def)

lemma spp_parse_stamped:
  assumes "unat ap \<le> 2047" "unat count \<le> 16383" "1 \<le> n" "n \<le> 65535" "n \<le> length payload"
  shows "spp_parse (spp_header_bytes (spp_stamp h ap ty count sec flag n) @ payload) =
    (if ap = APID_IDLE \<and> sec = Present then Inl (Invalid IdlePacketWithSecondaryHeader)
     else Inr \<lparr>spp_hdr = spp_stamp h ap ty count sec flag n, spp_data = take n payload\<rparr>)"
  using assms(5) spp_stamp_fields [OF assms(1-4), of h ty sec flag]
  by (auto simp: spp_parse_def SPP_HEADER_SIZE_def spp_validate_def apid_is_idle_def packet_len_def Let_def add.commute)

lemma spp_built_parses:
  assumes "unat ap \<le> 2047" "unat count \<le> 16383" "spp_ok buffer n"
  shows "\<exists>buffer'. spp_new buffer ap ty count sec flag n = Inr buffer'
      \<and> length buffer' = length buffer \<and> drop 6 buffer' = drop 6 buffer
      \<and> (\<forall>k \<ge> 6 + n. if ap = APID_IDLE \<and> sec = Present
           then spp_parse (take k buffer') = Inl (Invalid IdlePacketWithSecondaryHeader)
           else \<exists>p. spp_parse (take k buffer') = Inr p \<and> spp_data p = bslice buffer 6 n
             \<and> apid (spp_hdr p) = ap \<and> packet_type (spp_hdr p) = ty \<and> sequence_count (spp_hdr p) = count
             \<and> secondary_header_flag (spp_hdr p) = sec \<and> sequence_flag (spp_hdr p) = flag)"
proof -
  let ?h = "spp_stamp (spp_header_of buffer) ap ty count sec flag n"
  have n: "1 \<le> n" "n \<le> 65535" "6 + n \<le> length buffer" using assms(3) by (simp_all add: spp_ok_def)
  have "spp_parse (take k (spp_header_bytes ?h @ drop 6 buffer)) =
      (if ap = APID_IDLE \<and> sec = Present then Inl (Invalid IdlePacketWithSecondaryHeader)
       else Inr \<lparr>spp_hdr = ?h, spp_data = bslice buffer 6 n\<rparr>)" if "k \<ge> 6 + n" for k
  proof -
    have "n \<le> length (take (k - 6) (drop 6 buffer))" "min n (k - 6) = n" using that n by auto
    then show ?thesis
      using spp_parse_stamped [OF assms(1,2) n(1,2), of "take (k - 6) (drop 6 buffer)"] that by (simp add: bslice_def)
  qed
  then show ?thesis using spp_new_ok [OF assms(3)] spp_stamp_fields [OF assms(1,2) n(1,2)] n(3) by auto
qed

text \<open>
  Space packets round trip. With an APID of 11 bits and a sequence count of 14 bits,
  whatever the buffer held before: when the data length is between 1 and 65535 and the
  buffer is long enough, the builder succeeds and touches only the six header bytes, and
  parsing any prefix that contains the packet gives back every field and exactly the data,
  except that an idle packet with a secondary header is refused as the standard demands.
  Otherwise the builder returns an error.
\<close>

theorem spp_build_parse:
  assumes "unat ap \<le> 2047" "unat count \<le> 16383"
  shows "if spp_ok buffer n
    then \<exists>buffer'. spp_new buffer ap ty count sec flag n = Inr buffer'
      \<and> length buffer' = length buffer \<and> drop 6 buffer' = drop 6 buffer
      \<and> (\<forall>k \<ge> 6 + n. if ap = APID_IDLE \<and> sec = Present
           then spp_parse (take k buffer') = Inl (Invalid IdlePacketWithSecondaryHeader)
           else \<exists>p. spp_parse (take k buffer') = Inr p \<and> spp_data p = bslice buffer 6 n
             \<and> apid (spp_hdr p) = ap \<and> packet_type (spp_hdr p) = ty \<and> sequence_count (spp_hdr p) = count
             \<and> secondary_header_flag (spp_hdr p) = sec \<and> sequence_flag (spp_hdr p) = flag)
    else \<exists>e. spp_new buffer ap ty count sec flag n = Inl e"
  using spp_built_parses [OF assms] spp_new_err by simp

theorem spp_build_parse_witness:
  "\<exists>buffer' p. spp_new (replicate 8 255) 5 Telecommand 16383 Present First 2 = Inr buffer'
     \<and> spp_parse (take 8 buffer') = Inr p \<and> sequence_count (spp_hdr p) = 16383 \<and> spp_data p = [255, 255]"
proof -
  have "spp_ok (replicate 8 255) 2" by (simp add: spp_ok_def)
  moreover have "bslice (replicate 8 255) 6 2 = [255, 255 :: u8]" by (simp add: bslice_def eval_nat_numeral)
  moreover have "(5 :: u16) \<noteq> APID_IDLE" by (simp add: APID_IDLE_def APID_MAX_def)
  ultimately show ?thesis
    using spp_build_parse [of 5 16383 "replicate 8 255" 2 Telecommand Present First] by auto
qed

text \<open>
  The sequence count is a counter modulo 16384: incrementing a valid count gives the
  next residue, stays valid, and wraps from 16383 to 0.
\<close>

theorem sequence_count_increment_mod:
  assumes "unat c \<le> 16383"
  shows "unat (SequenceCount_increment c) = (unat c + 1) mod 16384"
proof -
  have "SequenceCount_increment c = take_bit 14 (c + 1)"
    by (simp add: SequenceCount_increment_def SEQUENCE_COUNT_MAX_def take_bit_eq_mask mask_eq_exp_minus_1)
  moreover have "unat (c + 1) = unat c + 1" using assms by (simp add: unat_word_ariths)
  ultimately have "unat (SequenceCount_increment c) = take_bit 14 (unat c + 1)" by (simp only: unsigned_take_bit_eq)
  then show ?thesis by (simp add: take_bit_eq_mod)
qed

theorem sequence_count_increment_mod_witness: "unat (SequenceCount_increment 16383) = 0"
  using sequence_count_increment_mod [of 16383] by simp

end
