(* ===== verification/Torus.thy ===== *)
theory Torus
  imports Leo_Prelude
begin

text \<open>
  The inter-satellite grid
  (\<open>crates/leodos-protocols/src/network/isl/torus.rs\<close>): points are pairs of 8-bit indices,
  both axes wrap around. The topology helpers are modelled on words, where \<open>+\<close> and \<open>-\<close>
  wrap; on a valid torus (both dimensions positive) and valid points (indices below the
  dimensions) none of them does.

  \<open>hops\<close> is the grid distance, the number of links of a shortest path. The lemmas
  show how a move in each direction changes it; \<open>Routing\<close> builds on them.
\<close>

section \<open>Definitions\<close>

record Point =
  orb :: u8
  sat :: u8

datatype Direction = North | South | East | West

fun opposite :: "Direction \<Rightarrow> Direction" where
  "opposite North = South"
| "opposite South = North"
| "opposite East = West"
| "opposite West = East"

datatype Hop = Isl Direction | Ground_hop | Local

record Torus =
  num_orbs :: u8
  num_sats :: u8

definition torus_next :: "u8 \<Rightarrow> u8 \<Rightarrow> u8" where
  "torus_next index modulus = (if index = modulus - 1 then 0 else index + 1)"

definition torus_prev :: "u8 \<Rightarrow> u8 \<Rightarrow> u8" where
  "torus_prev index modulus = (if index = 0 then modulus - 1 else index - 1)"

definition torus_distance :: "u8 \<Rightarrow> u8 \<Rightarrow> u8 \<Rightarrow> u8" where
  "torus_distance a b modulus = (if b \<ge> a then b - a else modulus - a + b)"

fun neighbor :: "Torus \<Rightarrow> Point \<Rightarrow> Direction \<Rightarrow> Point" where
  "neighbor T p North = \<lparr>orb = orb p, sat = torus_prev (sat p) (num_sats T)\<rparr>"
| "neighbor T p South = \<lparr>orb = orb p, sat = torus_next (sat p) (num_sats T)\<rparr>"
| "neighbor T p East = \<lparr>orb = torus_next (orb p) (num_orbs T), sat = sat p\<rparr>"
| "neighbor T p West = \<lparr>orb = torus_prev (orb p) (num_orbs T), sat = sat p\<rparr>"

definition next_sat :: "Torus \<Rightarrow> Point \<Rightarrow> u8" where
  "next_sat T p = torus_next (sat p) (num_sats T)"

definition prev_sat :: "Torus \<Rightarrow> Point \<Rightarrow> u8" where
  "prev_sat T p = torus_prev (sat p) (num_sats T)"

definition next_orb :: "Torus \<Rightarrow> Point \<Rightarrow> u8" where
  "next_orb T p = torus_next (orb p) (num_orbs T)"

definition prev_orb :: "Torus \<Rightarrow> Point \<Rightarrow> u8" where
  "prev_orb T p = torus_prev (orb p) (num_orbs T)"

definition distance_orb :: "Torus \<Rightarrow> Point \<Rightarrow> Point \<Rightarrow> u8" where
  "distance_orb T a b = torus_distance (orb a) (orb b) (num_orbs T)"

definition distance_sat :: "Torus \<Rightarrow> Point \<Rightarrow> Point \<Rightarrow> u8" where
  "distance_sat T a b = torus_distance (sat a) (sat b) (num_sats T)"

definition direction_to_sat :: "Torus \<Rightarrow> Point \<Rightarrow> Point \<Rightarrow> Direction" where
  "direction_to_sat T a b =
     (let north_dist = distance_sat T b a; south_dist = distance_sat T a b
      in if north_dist < south_dist then North else South)"

definition direction_to_orb :: "Torus \<Rightarrow> Point \<Rightarrow> Point \<Rightarrow> Direction" where
  "direction_to_orb T a b =
     (let west_dist = distance_orb T b a; east_dist = distance_orb T a b
      in if west_dist < east_dist then West else East)"

text \<open>Points of the torus, and the grid distance.\<close>

definition on_torus :: "Torus \<Rightarrow> Point \<Rightarrow> bool" where
  "on_torus T p \<longleftrightarrow> orb p < num_orbs T \<and> sat p < num_sats T"

definition ring_dist :: "u8 \<Rightarrow> u8 \<Rightarrow> u8 \<Rightarrow> nat" where
  "ring_dist a b m = min (unat (torus_distance a b m)) (unat (torus_distance b a m))"

definition hops :: "Torus \<Rightarrow> Point \<Rightarrow> Point \<Rightarrow> nat" where
  "hops T a b = ring_dist (orb a) (orb b) (num_orbs T) + ring_dist (sat a) (sat b) (num_sats T)"

section \<open>One axis\<close>

text \<open>The same helpers on natural numbers below the modulus.\<close>

definition ndist :: "nat \<Rightarrow> nat \<Rightarrow> nat \<Rightarrow> nat" where
  "ndist a b m = (if a \<le> b then b - a else m - a + b)"

definition nnext :: "nat \<Rightarrow> nat \<Rightarrow> nat" where
  "nnext a m = (if Suc a = m then 0 else Suc a)"

definition nprev :: "nat \<Rightarrow> nat \<Rightarrow> nat" where
  "nprev a m = (if a = 0 then m - 1 else a - 1)"

lemmas nat_axis = ndist_def nnext_def nprev_def

lemma ndist_sum: "a < m \<Longrightarrow> b < m \<Longrightarrow> a \<noteq> b \<Longrightarrow> ndist a b m + ndist b a m = m"
  by (simp add: ndist_def)

lemma ndist_self [simp]: "ndist a a m = 0"
  by (simp add: ndist_def)

lemma ndist_pos: "a < m \<Longrightarrow> b < m \<Longrightarrow> a \<noteq> b \<Longrightarrow> 0 < ndist a b m"
  by (simp add: ndist_def)

lemma ndist_nnext:
  assumes "a < m" "b < m"
  shows "ndist (nnext a m) b m = (if a = b then m - 1 else ndist a b m - 1)"
    and "ndist b (nnext a m) m = (if Suc (ndist b a m) = m then 0 else Suc (ndist b a m))"
proof -
  consider "Suc a = m" | "Suc a < m" using assms(1) by linarith
  then show "ndist (nnext a m) b m = (if a = b then m - 1 else ndist a b m - 1)"
  proof cases
    case 1
    then show ?thesis using assms by (auto simp: ndist_def nnext_def)
  next
    case 2
    then show ?thesis by (cases a b rule: linorder_cases) (simp_all add: ndist_def nnext_def)
  qed
  show "ndist b (nnext a m) m = (if Suc (ndist b a m) = m then 0 else Suc (ndist b a m))"
  proof (cases "Suc a = m")
    case True
    then show ?thesis using assms by (cases "b = 0") (auto simp: ndist_def nnext_def)
  next
    case False
    then show ?thesis using assms by (cases "b \<le> a"; cases "b = Suc a") (auto simp: ndist_def nnext_def)
  qed
qed

lemma nnext_nprev [simp]: "a < m \<Longrightarrow> nnext (nprev a m) m = a" "a < m \<Longrightarrow> nprev (nnext a m) m = a"
  and nprev_less: "a < m \<Longrightarrow> nprev a m < m"
  by (auto simp: nnext_def nprev_def)

lemma ndist_nprev:
  assumes "a < m" "b < m"
  shows "ndist b (nprev a m) m = (if a = b then m - 1 else ndist b a m - 1)"
    and "ndist (nprev a m) b m = (if Suc (ndist a b m) = m then 0 else Suc (ndist a b m))"
proof -
  let ?p = "nprev a m"
  have p: "?p < m" "nnext ?p m = a" using assms(1) by (simp_all add: nprev_less)
  note d = ndist_nnext [OF p(1) assms(2), unfolded p(2)]
  have "ndist b ?p m < m" "ndist ?p b m < m" using p(1) assms(2) by (auto simp: ndist_def)
  then show "ndist b ?p m = (if a = b then m - 1 else ndist b a m - 1)"
    using d(2) ndist_pos [OF assms(2,1)] by (cases "Suc (ndist b ?p m) = m") auto
  show "ndist ?p b m = (if Suc (ndist a b m) = m then 0 else Suc (ndist a b m))"
    using d(1) \<open>ndist ?p b m < m\<close> ndist_pos [OF p(1) assms(2)] by (cases "?p = b") auto
qed

lemma nnext_closer:
  assumes "a < m" "b < m" "a \<noteq> b" "ndist a b m \<le> ndist b a m"
  shows "Suc (min (ndist (nnext a m) b m) (ndist b (nnext a m) m)) = min (ndist a b m) (ndist b a m)"
  using assms ndist_sum [OF assms(1-3)] ndist_pos [OF assms(1-3)] by (auto simp: ndist_nnext)

lemma nprev_closer:
  assumes "a < m" "b < m" "a \<noteq> b" "ndist b a m < ndist a b m"
  shows "Suc (min (ndist (nprev a m) b m) (ndist b (nprev a m) m)) = min (ndist a b m) (ndist b a m)"
  using assms ndist_sum [OF assms(1-3)] ndist_pos [OF assms(2,1)] by (auto simp: ndist_nprev)

lemma nstep_le:
  assumes "a < m" "b < m"
  shows "min (ndist a b m) (ndist b a m) \<le> Suc (min (ndist (nnext a m) b m) (ndist b (nnext a m) m))"
    and "min (ndist a b m) (ndist b a m) \<le> Suc (min (ndist (nprev a m) b m) (ndist b (nprev a m) m))"
  using assms ndist_sum [OF assms] ndist_sum [OF assms(2,1)] ndist_pos [OF assms]
  by (cases "a = b"; auto simp: ndist_nnext ndist_nprev)+

lemma unat_torus_next [simp]: "i < m \<Longrightarrow> unat (torus_next i m) = nnext (unat i) (unat m)"
proof -
  assume i: "i < m"
  then have im: "unat i < unat m" by (simp add: word_less_nat_alt)
  have "unat (m - 1) = unat m - 1" using im by (intro unat_minus_one) auto
  then have eq: "i = m - 1 \<longleftrightarrow> Suc (unat i) = unat m" using im by (auto simp: word_unat_eq_iff)
  have "Suc (unat i) \<noteq> unat m \<Longrightarrow> unat (i + 1) = Suc (unat i)"
    using im unat_u8_less [of m] by (simp add: unat_word_ariths)
  then show ?thesis by (simp add: torus_next_def nnext_def eq)
qed

lemma unat_torus_prev [simp]: "i < m \<Longrightarrow> unat (torus_prev i m) = nprev (unat i) (unat m)"
proof -
  assume i: "i < m"
  then have "m \<noteq> 0" by auto
  then show ?thesis by (auto simp: torus_prev_def nprev_def unat_minus_one unat_eq_zero)
qed

lemma unat_torus_distance [simp]:
  assumes "a < m" "b < m"
  shows "unat (torus_distance a b m) = ndist (unat a) (unat b) (unat m)"
proof (cases "a \<le> b")
  case True
  then show ?thesis by (simp add: torus_distance_def ndist_def word_le_nat_alt unat_sub_if')
next
  case False
  have lt: "unat a < unat m" "unat b < unat a" using assms False by (simp_all add: word_less_nat_alt word_le_nat_alt)
  then have "unat (m - a) = unat m - unat a" by (simp add: unat_sub_if')
  moreover have "unat m - unat a + unat b < 256" using lt unat_u8_less [of m] by linarith
  ultimately have "unat (m - a + b) = unat m - unat a + unat b" by (simp add: unat_word_ariths)
  then show ?thesis using False lt by (simp add: torus_distance_def ndist_def)
qed

lemma torus_next_less [simp]: "i < m \<Longrightarrow> torus_next i m < m"
  by (simp add: word_less_nat_alt nnext_def)

lemma torus_prev_less [simp]: "i < m \<Longrightarrow> torus_prev i m < m"
  by (auto simp: word_less_nat_alt nprev_def)

lemma torus_next_prev [simp]:
  assumes "i < m"
  shows "torus_next (torus_prev i m) m = i"
proof -
  have "unat i < unat m" using assms by (simp add: word_less_nat_alt)
  then have "unat (torus_next (torus_prev i m) m) = unat i" using assms by simp
  then show ?thesis by (simp only: word_unat_eq_iff)
qed

lemma torus_prev_next [simp]:
  assumes "i < m"
  shows "torus_prev (torus_next i m) m = i"
proof -
  have "unat i < unat m" using assms by (simp add: word_less_nat_alt)
  then have "unat (torus_prev (torus_next i m) m) = unat i" using assms by simp
  then show ?thesis by (simp only: word_unat_eq_iff)
qed

lemma ring_dist_nat:
  "a < m \<Longrightarrow> b < m \<Longrightarrow> ring_dist a b m = min (ndist (unat a) (unat b) (unat m)) (ndist (unat b) (unat a) (unat m))"
  by (simp add: ring_dist_def)

lemma ring_dist_0 [simp]: "a < m \<Longrightarrow> b < m \<Longrightarrow> ring_dist a b m = 0 \<longleftrightarrow> a = b"
  by (auto simp: ring_dist_nat ndist_def min_def word_less_nat_alt word_unat_eq_iff)

lemma ring_dist_self [simp]: "ring_dist a a m = 0"
  by (simp add: ring_dist_def torus_distance_def)

text \<open>A step in the direction of the shorter way round brings the target one closer; any step brings it at most one closer.\<close>

lemma ring_toward_next:
  assumes "a < m" "b < m" "a \<noteq> b" "\<not> torus_distance b a m < torus_distance a b m"
  shows "Suc (ring_dist (torus_next a m) b m) = ring_dist a b m"
  using assms nnext_closer [of "unat a" "unat m" "unat b"]
  by (simp add: ring_dist_nat) (simp add: word_less_nat_alt word_unat_eq_iff not_less)

lemma ring_toward_prev:
  assumes "a < m" "b < m" "a \<noteq> b" "torus_distance b a m < torus_distance a b m"
  shows "Suc (ring_dist (torus_prev a m) b m) = ring_dist a b m"
  using assms nprev_closer [of "unat a" "unat m" "unat b"]
  by (simp add: ring_dist_nat) (simp add: word_less_nat_alt word_unat_eq_iff)

lemma ring_step_le:
  assumes "a < m" "b < m"
  shows "ring_dist a b m \<le> Suc (ring_dist (torus_next a m) b m)" "ring_dist a b m \<le> Suc (ring_dist (torus_prev a m) b m)"
  using assms nstep_le [of "unat a" "unat m" "unat b"]
  by (simp_all add: ring_dist_nat) (simp_all add: word_less_nat_alt)

section \<open>The grid\<close>

lemma neighbor_on_torus [simp]: "on_torus T p \<Longrightarrow> on_torus T (neighbor T p d)"
  by (cases d) (simp_all add: on_torus_def)

lemma hops_0: "on_torus T p \<Longrightarrow> on_torus T q \<Longrightarrow> hops T p q = 0 \<longleftrightarrow> p = q"
  by (cases p; cases q) (simp add: hops_def on_torus_def)

lemma hops_step_le: "on_torus T p \<Longrightarrow> on_torus T q \<Longrightarrow> hops T p q \<le> Suc (hops T (neighbor T p d) q)"
  using ring_step_le [of "orb p" "num_orbs T" "orb q"] ring_step_le [of "sat p" "num_sats T" "sat q"]
  by (cases d) (auto simp: hops_def on_torus_def)

lemma hops_toward_orb:
  "on_torus T p \<Longrightarrow> on_torus T q \<Longrightarrow> orb p \<noteq> orb q \<Longrightarrow> Suc (hops T (neighbor T p (direction_to_orb T p q)) q) = hops T p q"
  using ring_toward_next [of "orb p" "num_orbs T" "orb q"] ring_toward_prev [of "orb p" "num_orbs T" "orb q"]
  by (auto simp: hops_def on_torus_def direction_to_orb_def distance_orb_def)

lemma hops_toward_sat:
  "on_torus T p \<Longrightarrow> on_torus T q \<Longrightarrow> sat p \<noteq> sat q \<Longrightarrow> Suc (hops T (neighbor T p (direction_to_sat T p q)) q) = hops T p q"
  using ring_toward_next [of "sat p" "num_sats T" "sat q"] ring_toward_prev [of "sat p" "num_sats T" "sat q"]
  by (auto simp: hops_def on_torus_def direction_to_sat_def distance_sat_def)

text \<open>
  The grid is symmetric. On every torus, from every point, a move and the move in the
  opposite direction cancel, in both orders, and a move never leaves the torus.
\<close>

theorem neighbor_opposite:
  assumes "on_torus T p"
  shows "neighbor T (neighbor T p d) (opposite d) = p \<and> neighbor T (neighbor T p (opposite d)) d = p
    \<and> on_torus T (neighbor T p d)"
  using assms by (cases d) (simp_all add: on_torus_def)

theorem neighbor_opposite_witness:
  "on_torus \<lparr>num_orbs = 20, num_sats = 72\<rparr> \<lparr>orb = 19, sat = 0\<rparr>
   \<and> neighbor \<lparr>num_orbs = 20, num_sats = 72\<rparr> (neighbor \<lparr>num_orbs = 20, num_sats = 72\<rparr> \<lparr>orb = 19, sat = 0\<rparr> East) West
     = \<lparr>orb = 19, sat = 0\<rparr>"
  using neighbor_opposite [of "\<lparr>num_orbs = 20, num_sats = 72\<rparr>" "\<lparr>orb = 19, sat = 0\<rparr>" East]
  by (simp add: on_torus_def word_less_nat_alt)

text \<open>
  C33: The topology helpers never overflow. On valid indices the 8-bit arithmetic of
  \<open>next\<close>, \<open>prev\<close> and \<open>distance\<close> computes the step and the forward distance modulo the
  dimension, for every dimension up to 255.
\<close>

theorem torus_helpers_mod:
  assumes "a < m" "b < m"
  shows "unat (torus_next a m) = (unat a + 1) mod unat m
    \<and> unat (torus_prev a m) = (unat a + unat m - 1) mod unat m
    \<and> unat (torus_distance a b m) = (unat b + unat m - unat a) mod unat m"
proof -
  have m: "unat a < unat m" "unat b < unat m" using assms by (simp_all add: word_less_nat_alt)
  have d: "ndist (unat a) (unat b) (unat m) = (unat b + unat m - unat a) mod unat m"
  proof (cases "unat a \<le> unat b")
    case True
    then have "unat b + unat m - unat a = (unat b - unat a) + unat m" by simp
    then have "(unat b + unat m - unat a) mod unat m = (unat b - unat a) mod unat m" by (simp only: mod_add_self2)
    then show ?thesis using True m by (simp add: ndist_def)
  qed (use m in \<open>simp add: ndist_def\<close>)
  have n: "nnext (unat a) (unat m) = (unat a + 1) mod unat m"
    using m by (cases "Suc (unat a) = unat m") (simp_all add: nnext_def)
  have "nprev (unat a) (unat m) = (unat a + unat m - 1) mod unat m"
    using m by (cases "unat a") (simp_all add: nprev_def)
  then show ?thesis using assms d n by simp
qed

theorem torus_helpers_mod_witness: "(250 :: u8) < 255 \<and> unat (torus_distance 250 3 255) = 8"
  using torus_helpers_mod [of 250 255 3] by (simp add: word_less_nat_alt)

end
