(* ===== verification/Routing.thy ===== *)
theory Routing
  imports Torus
begin

text \<open>
  Addresses and routing algorithms of the inter-satellite network
  (\<open>crates/leodos-protocols/src/network/isl/address.rs\<close> and
  \<open>network/isl/routing/algorithm/{mod,manhattan,distance_minimizing,gateway}.rs\<close>).

  The trait \<open>RoutingAlgorithm\<close> is the locale \<open>routing_algorithm\<close>: a route is local at its
  target and otherwise names a direction that brings the target one hop closer. Both
  implementations satisfy it, so both reach every satellite in the least possible number
  of hops. Two things are parameters, because they are computed with floating point and
  the \<open>libm\<close> crate: \<open>find_gateway\<close>, which picks the satellite over a ground position at a
  time, and \<open>nearer\<close>, the comparison of the cross-plane factors of two orbital planes.
  The theorems hold for every choice of them.
\<close>

section \<open>Addresses\<close>

datatype Address = Ground u8 | Satellite Point

record RawAddress =
  ground_or_orb :: u8
  station_or_sat :: u8

definition RawAddress_parse :: "RawAddress \<Rightarrow> Address" where
  "RawAddress_parse a =
     (if ground_or_orb a = 0 then Ground (station_or_sat a)
      else Satellite \<lparr>orb = ground_or_orb a - 1, sat = station_or_sat a\<rparr>)"

definition RawAddress_from :: "Address \<Rightarrow> RawAddress" where
  "RawAddress_from addr =
     (case addr of
        Ground station \<Rightarrow> \<lparr>ground_or_orb = 0, station_or_sat = station\<rparr>
      | Satellite p \<Rightarrow> \<lparr>ground_or_orb = orb p + 1, station_or_sat = sat p\<rparr>)"

definition SpacecraftId_encode :: "u8 \<Rightarrow> u8 \<Rightarrow> u8 \<Rightarrow> u32" where
  "SpacecraftId_encode o' s sats_per_plane = ucast o' * ucast sats_per_plane + ucast s"

definition SpacecraftId_to_address :: "u32 \<Rightarrow> u8 \<Rightarrow> u8 \<Rightarrow> Address option" where
  "SpacecraftId_to_address i num_planes sats_per_plane =
     (let n = ucast num_planes * ucast sats_per_plane
      in if i < n
         then Some (Satellite \<lparr>orb = ucast (i div ucast sats_per_plane), sat = ucast (i mod ucast sats_per_plane)\<rparr>)
         else None)"

definition GroundStationId_to_address :: "u8 \<Rightarrow> Address" where
  "GroundStationId_to_address station = Ground station"

definition Point_from :: "Address \<Rightarrow> Point" where
  "Point_from addr = (case addr of Satellite p \<Rightarrow> p | Ground _ \<Rightarrow> \<lparr>orb = 0, sat = 0\<rparr>)"

section \<open>Algorithms\<close>

record 'pos GatewayTable =
  stations :: "(u8 \<times> 'pos) list"

definition add_station :: "nat \<Rightarrow> 'pos GatewayTable \<Rightarrow> u8 \<Rightarrow> 'pos \<Rightarrow> 'pos GatewayTable" where
  "add_station N g station pos = g\<lparr>stations := vec_push N (stations g) (station, pos)\<rparr>"

definition gateway :: "('pos \<Rightarrow> u32 \<Rightarrow> Point option) \<Rightarrow> 'pos GatewayTable \<Rightarrow> u8 \<Rightarrow> u32 \<Rightarrow> Point option" where
  "gateway find_gateway g station time_s =
     (case map_of (stations g) station of None \<Rightarrow> None | Some pos \<Rightarrow> find_gateway pos time_s)"

text \<open>
  The first lines of \<open>route\<close>, the same in both algorithms: the point to route to and the
  hop to return there. An unknown or invisible station falls back to plane 0.
\<close>

definition resolve :: "(u8 \<Rightarrow> u32 \<Rightarrow> Point option) \<Rightarrow> Address \<Rightarrow> u32 \<Rightarrow> Point \<times> Hop" where
  "resolve gw target time_s =
     (case target of
        Satellite p \<Rightarrow> (p, Local)
      | Ground station \<Rightarrow>
          ((case gw station time_s of Some p \<Rightarrow> p | None \<Rightarrow> \<lparr>orb = 0, sat = station\<rparr>), Ground_hop))"

definition manhattan_to_point :: "Torus \<Rightarrow> Point \<Rightarrow> Point \<Rightarrow> Direction" where
  "manhattan_to_point T current target =
     (if orb current \<noteq> orb target then direction_to_orb T current target
      else direction_to_sat T current target)"

definition manhattan_route ::
  "Torus \<Rightarrow> (u8 \<Rightarrow> u32 \<Rightarrow> Point option) \<Rightarrow> Point \<Rightarrow> Address \<Rightarrow> u32 \<Rightarrow> Hop" where
  "manhattan_route T gw current target time_s =
     (let (target_point, local_hop) = resolve gw target time_s
      in if current = target_point then local_hop
         else Isl (manhattan_to_point T current target_point))"

definition distmin_to_point ::
  "Torus \<Rightarrow> (u8 \<Rightarrow> u8 \<Rightarrow> u32 \<Rightarrow> bool) \<Rightarrow> Point \<Rightarrow> Point \<Rightarrow> u32 \<Rightarrow> Direction" where
  "distmin_to_point T nearer current target time_s =
     (if orb current = orb target then direction_to_sat T current target
      else if sat current = sat target then direction_to_orb T current target
      else let v_dir = direction_to_orb T current target;
               toward_orb = (case v_dir of East \<Rightarrow> next_orb T current | _ \<Rightarrow> prev_orb T current)
           in if nearer toward_orb (orb current) time_s then v_dir
              else direction_to_sat T current target)"

definition distmin_route ::
  "Torus \<Rightarrow> (u8 \<Rightarrow> u8 \<Rightarrow> u32 \<Rightarrow> bool) \<Rightarrow> (u8 \<Rightarrow> u32 \<Rightarrow> Point option) \<Rightarrow> Point \<Rightarrow> Address \<Rightarrow> u32 \<Rightarrow> Hop" where
  "distmin_route T nearer gw current target time_s =
     (let (target_point, local_hop) = resolve gw target time_s
      in if current = target_point then local_hop
         else Isl (distmin_to_point T nearer current target_point time_s))"

text \<open>
  A packet under way: at each satellite the local router is asked at its own time, and an
  \<open>Isl\<close> hop moves the packet; anything else stops it. \<open>walk\<close> follows explicit directions.
\<close>

fun travel :: "Torus \<Rightarrow> (Point \<Rightarrow> u32 \<Rightarrow> Hop) \<Rightarrow> u32 list \<Rightarrow> Point \<Rightarrow> Point" where
  "travel T rt [] p = p"
| "travel T rt (t # ts) p = (case rt p t of Isl d \<Rightarrow> travel T rt ts (neighbor T p d) | _ \<Rightarrow> p)"

fun walk :: "Torus \<Rightarrow> Direction list \<Rightarrow> Point \<Rightarrow> Point" where
  "walk T [] p = p"
| "walk T (d # ds) p = walk T ds (neighbor T p d)"

section \<open>The contract of a routing algorithm\<close>

locale routing_algorithm =
  fixes T :: Torus and gw :: "u8 \<Rightarrow> u32 \<Rightarrow> Point option" and route :: "Point \<Rightarrow> Address \<Rightarrow> u32 \<Rightarrow> Hop"
  assumes arrived: "route (fst (resolve gw a t)) a t = snd (resolve gw a t)"
    and progress: "on_torus T p \<Longrightarrow> on_torus T (fst (resolve gw a t)) \<Longrightarrow> p \<noteq> fst (resolve gw a t) \<Longrightarrow>
      \<exists>d. route p a t = Isl d \<and> Suc (hops T (neighbor T p d) (fst (resolve gw a t))) = hops T p (fst (resolve gw a t))"
begin

lemma travel_reaches:
  assumes "on_torus T p" "on_torus T q" "\<forall>t\<in>set ts. fst (resolve gw a t) = q" "length ts = hops T p q"
  shows "travel T (\<lambda>p t. route p a t) ts p = q"
  using assms
proof (induction ts arbitrary: p)
  case Nil
  then show ?case using hops_0 [of T p q] by simp
next
  case (Cons t ts)
  have q: "fst (resolve gw a t) = q" "p \<noteq> q" using Cons.prems hops_0 [of T p q] by auto
  then obtain d where "route p a t = Isl d" "Suc (hops T (neighbor T p d) q) = hops T p q"
    using progress [of p a t] Cons.prems(1,2) by auto
  then show ?case using Cons.IH [of "neighbor T p d"] Cons.prems by simp
qed

lemma not_before:
  assumes "on_torus T p" "on_torus T q" "\<forall>t\<in>set ts. fst (resolve gw a t) = q" "length ts < hops T p q"
  shows "\<exists>d. route (travel T (\<lambda>p t. route p a t) ts p) a t' = Isl d \<or> fst (resolve gw a t') \<noteq> q"
  using assms
proof (induction ts arbitrary: p)
  case Nil
  then have "p \<noteq> q" using hops_0 [of T p q] by auto
  then show ?case using progress [of p a t'] Nil.prems(1,2) by auto
next
  case (Cons t ts)
  have q: "fst (resolve gw a t) = q" "p \<noteq> q" using Cons.prems hops_0 [of T p q] by auto
  then obtain d where "route p a t = Isl d" "Suc (hops T (neighbor T p d) q) = hops T p q"
    using progress [of p a t] Cons.prems(1,2) by auto
  then show ?case using Cons.IH [of "neighbor T p d"] Cons.prems by simp
qed

end

lemma resolve_satellite [simp]: "resolve gw (Satellite p) t = (p, Local)"
  by (simp add: resolve_def)

interpretation manhattan: routing_algorithm T gw "manhattan_route T gw" for T gw
proof unfold_locales
  fix p a t
  assume *: "on_torus T p" "on_torus T (fst (resolve gw a t))" "p \<noteq> fst (resolve gw a t)"
  let ?q = "fst (resolve gw a t)"
  have "orb p = orb ?q \<Longrightarrow> sat p \<noteq> sat ?q" using *(3) by (metis (full_types) Point.equality unit.exhaust)
  then have "Suc (hops T (neighbor T p (manhattan_to_point T p ?q)) ?q) = hops T p ?q"
    using * hops_toward_orb hops_toward_sat by (auto simp: manhattan_to_point_def)
  then show "\<exists>d. manhattan_route T gw p a t = Isl d \<and> Suc (hops T (neighbor T p d) ?q) = hops T p ?q"
    using *(3) by (auto simp: manhattan_route_def case_prod_beta)
qed (simp add: manhattan_route_def case_prod_beta)

interpretation distmin: routing_algorithm T gw "distmin_route T nearer gw" for T gw nearer
proof unfold_locales
  fix p a t
  assume *: "on_torus T p" "on_torus T (fst (resolve gw a t))" "p \<noteq> fst (resolve gw a t)"
  let ?q = "fst (resolve gw a t)"
  have "orb p = orb ?q \<Longrightarrow> sat p \<noteq> sat ?q" using *(3) by (metis (full_types) Point.equality unit.exhaust)
  then have "Suc (hops T (neighbor T p (distmin_to_point T nearer p ?q t)) ?q) = hops T p ?q"
    using * hops_toward_orb [of T p ?q] hops_toward_sat [of T p ?q] by (auto simp: distmin_to_point_def Let_def)
  then show "\<exists>d. distmin_route T nearer gw p a t = Isl d \<and> Suc (hops T (neighbor T p d) ?q) = hops T p ?q"
    using *(3) by (auto simp: distmin_route_def case_prod_beta)
qed (simp add: distmin_route_def case_prod_beta)

section \<open>Properties\<close>

lemma walk_on_torus [simp]: "on_torus T p \<Longrightarrow> on_torus T (walk T ds p)"
  by (induction ds arbitrary: p) simp_all

lemma walk_hops: "on_torus T p \<Longrightarrow> on_torus T q \<Longrightarrow> walk T ds p = q \<Longrightarrow> hops T p q \<le> length ds"
proof (induction ds arbitrary: p)
  case Nil
  then show ?case using hops_0 [of T p q] by simp
next
  case (Cons d ds)
  then have "hops T (neighbor T p d) q \<le> length ds" by simp
  then show ?case using hops_step_le [OF Cons.prems(1,2), of d] by simp
qed

text \<open>
  C5: Manhattan routing reaches every satellite by a shortest path. On every torus, from
  every satellite to every other, following the hops Manhattan routing names (asked at any
  times along the way) arrives after exactly \<open>hops\<close> links, where it says \<open>Local\<close>, and no
  sequence of fewer links connects the two satellites.
\<close>

theorem manhattan_shortest:
  assumes "on_torus T p" "on_torus T q"
  shows "(length ts = hops T p q \<longrightarrow> travel T (\<lambda>p t. manhattan_route T gw p (Satellite q) t) ts p = q)
    \<and> manhattan_route T gw q (Satellite q) t = Local
    \<and> (\<forall>ds. walk T ds p = q \<longrightarrow> hops T p q \<le> length ds)"
  using manhattan.travel_reaches [OF assms, of ts gw "Satellite q"] manhattan.arrived [of T gw "Satellite q" t]
    walk_hops [OF assms] by simp

theorem manhattan_shortest_witness:
  "travel \<lparr>num_orbs = 20, num_sats = 72\<rparr> (\<lambda>p t. manhattan_route \<lparr>num_orbs = 20, num_sats = 72\<rparr> (\<lambda>_ _. None) p
      (Satellite \<lparr>orb = 1, sat = 70\<rparr>) t) [0, 0, 0, 0, 0] \<lparr>orb = 19, sat = 1\<rparr> = \<lparr>orb = 1, sat = 70\<rparr>"
  using manhattan_shortest [of "\<lparr>num_orbs = 20, num_sats = 72\<rparr>" "\<lparr>orb = 19, sat = 1\<rparr>" "\<lparr>orb = 1, sat = 70\<rparr>" "[0, 0, 0, 0, 0]"]
  by (simp add: on_torus_def hops_def ring_dist_def torus_distance_def word_less_nat_alt word_le_nat_alt)

text \<open>
  C6: The same for distance-minimizing routing, whatever the comparison of the cross-plane
  factors answers at each satellite: it only chooses among the shortest paths, so it too
  arrives after exactly \<open>hops\<close> links.
\<close>

theorem distance_minimizing_shortest:
  assumes "on_torus T p" "on_torus T q" "length ts = hops T p q"
  shows "travel T (\<lambda>p t. distmin_route T nearer gw p (Satellite q) t) ts p = q
    \<and> distmin_route T nearer gw q (Satellite q) t = Local"
  using distmin.travel_reaches [OF assms(1,2), of ts gw "Satellite q" nearer] assms(3)
    distmin.arrived [of T nearer gw "Satellite q" t] by simp

theorem distance_minimizing_shortest_witness:
  "travel \<lparr>num_orbs = 20, num_sats = 72\<rparr> (\<lambda>p t. distmin_route \<lparr>num_orbs = 20, num_sats = 72\<rparr> (\<lambda>a b t. a < b) (\<lambda>_ _. None) p
      (Satellite \<lparr>orb = 1, sat = 70\<rparr>) t) [0, 0, 0, 0, 0] \<lparr>orb = 19, sat = 1\<rparr> = \<lparr>orb = 1, sat = 70\<rparr>"
  using distance_minimizing_shortest [of "\<lparr>num_orbs = 20, num_sats = 72\<rparr>" "\<lparr>orb = 19, sat = 1\<rparr>" "\<lparr>orb = 1, sat = 70\<rparr>" "[0, 0, 0, 0, 0]"]
  by (simp add: on_torus_def hops_def ring_dist_def torus_distance_def word_less_nat_alt word_le_nat_alt)

text \<open>
  Ground traffic. While a station's gateway stays the same satellite, both algorithms
  bring a packet for the station from any satellite to that gateway in the least number
  of hops and hand it to the ground link there.
\<close>

theorem ground_traffic_reaches_gateway:
  assumes "on_torus T p" "on_torus T g" "length ts = hops T p g" "\<forall>t\<in>set ts. gw station t = Some g" "gw station t' = Some g"
  shows "travel T (\<lambda>p t. manhattan_route T gw p (Ground station) t) ts p = g
    \<and> manhattan_route T gw g (Ground station) t' = Ground_hop
    \<and> travel T (\<lambda>p t. distmin_route T nearer gw p (Ground station) t) ts p = g
    \<and> distmin_route T nearer gw g (Ground station) t' = Ground_hop"
proof -
  have r: "\<forall>t\<in>set ts. fst (resolve gw (Ground station) t) = g" using assms(4) by (simp add: resolve_def)
  have "resolve gw (Ground station) t' = (g, Ground_hop)" using assms(5) by (simp add: resolve_def)
  then show ?thesis
    using manhattan.travel_reaches [OF assms(1,2) r assms(3)] distmin.travel_reaches [OF assms(1,2) r assms(3)]
      manhattan.arrived [of T gw "Ground station" t'] distmin.arrived [of T nearer gw "Ground station" t'] by simp
qed

theorem ground_traffic_reaches_gateway_witness:
  "manhattan_route \<lparr>num_orbs = 20, num_sats = 72\<rparr> (\<lambda>s t. Some \<lparr>orb = 1, sat = 70\<rparr>) \<lparr>orb = 1, sat = 70\<rparr> (Ground 3) 9 = Ground_hop"
  using ground_traffic_reaches_gateway [of "\<lparr>num_orbs = 20, num_sats = 72\<rparr>" "\<lparr>orb = 1, sat = 70\<rparr>" "\<lparr>orb = 1, sat = 70\<rparr>" "[]"
      "\<lambda>s t. Some \<lparr>orb = 1, sat = 70\<rparr>" 3 9]
  by (simp add: on_torus_def hops_def word_less_nat_alt)

lemma unat_ucast_u8 [simp]: "unat (ucast (x :: u8) :: u32) = unat x"
  using unat_u8_less [of x] by (simp add: unsigned_ucast_eq take_bit_nat_eq_self)

lemma ucast_u8_of_nat: "n < 256 \<Longrightarrow> unat (ucast (w :: u32) :: u8) = n \<longleftrightarrow> unat w mod 256 = n"
  by (simp add: unsigned_ucast_eq take_bit_eq_mod)

lemma u8_prod_less: "unat (a :: u8) * unat (b :: u8) < 65536"
  using mult_strict_mono [of "unat a" 256 "unat b" 256] unat_u8_less [of a] unat_u8_less [of b] by simp

lemma unat_mul_u8: "unat (ucast (a :: u8) * ucast (b :: u8) :: u32) = unat a * unat b"
  using u8_prod_less [of a b] by (simp add: unat_word_ariths)

lemma unat_SpacecraftId_encode: "unat (SpacecraftId_encode a s n) = unat a * unat n + unat s"
  using u8_prod_less [of a n] unat_u8_less [of s] unat_mul_u8 [of a n]
  by (simp add: SpacecraftId_encode_def unat_word_ariths(1))

lemma SpacecraftId_decode:
  assumes "unat i < unat planes * unat spp"
  shows "SpacecraftId_to_address i planes spp =
    Some (Satellite \<lparr>orb = of_nat (unat i div unat spp), sat = of_nat (unat i mod unat spp)\<rparr>)"
proof -
  have "i < ucast planes * ucast spp" using assms by (simp add: word_less_nat_alt unat_mul_u8)
  moreover have "ucast (i div ucast spp) = (of_nat (unat i div unat spp) :: u8)"
    "ucast (i mod ucast spp) = (of_nat (unat i mod unat spp) :: u8)"
    by (simp_all add: word_unat_eq_iff unsigned_ucast_eq take_bit_eq_mod unat_of_nat unat_div unat_mod)
  ultimately show ?thesis by (simp add: SpacecraftId_to_address_def)
qed

lemma RawAddress_roundtrip:
  assumes "orb (Point_from addr) \<noteq> 255"
  shows "RawAddress_parse (RawAddress_from addr) = addr"
proof (cases addr)
  case (Satellite q)
  have "orb q \<noteq> 255" using Satellite assms by (simp add: Point_from_def)
  moreover have "orb q + 1 - 1 = 255" if "orb q + 1 = 0"
    unfolding that by (simp add: mask_eq_exp_minus_1 word_unat_eq_iff unsigned_minus_1_eq_mask)
  ultimately have "orb q + 1 \<noteq> 0" unfolding add_diff_cancel_right' by blast
  then show ?thesis using Satellite by (simp add: RawAddress_parse_def RawAddress_from_def)
qed (simp add: RawAddress_parse_def RawAddress_from_def)

text \<open>
  C39: Address round trips. The wire form of an address decodes to the address for every
  ground station and every satellite except in plane 255 (where \<open>orb + 1\<close> overflows); every
  spacecraft identifier of the constellation decodes to a satellite of the torus and
  encodes back to itself, and every satellite's identifier decodes to that satellite.
\<close>

theorem address_roundtrips:
  "(orb (Point_from addr) \<noteq> 255 \<longrightarrow> RawAddress_parse (RawAddress_from addr) = addr)
   \<and> (on_torus \<lparr>num_orbs = planes, num_sats = spp\<rparr> p \<longrightarrow>
        SpacecraftId_to_address (SpacecraftId_encode (orb p) (sat p) spp) planes spp = Some (Satellite p))
   \<and> (SpacecraftId_to_address i planes spp = Some (Satellite p) \<longrightarrow>
        on_torus \<lparr>num_orbs = planes, num_sats = spp\<rparr> p \<and> SpacecraftId_encode (orb p) (sat p) spp = i)"
proof (intro conjI impI)
  show "orb (Point_from addr) \<noteq> 255 \<Longrightarrow> RawAddress_parse (RawAddress_from addr) = addr" by (rule RawAddress_roundtrip)
next
  assume "on_torus \<lparr>num_orbs = planes, num_sats = spp\<rparr> p"
  then have lt: "unat (orb p) < unat planes" "unat (sat p) < unat spp" by (simp_all add: on_torus_def word_less_nat_alt)
  have "unat (orb p) * unat spp + unat (sat p) < Suc (unat (orb p)) * unat spp" using lt(2) by simp
  also have "\<dots> \<le> unat planes * unat spp" using lt(1) by (intro mult_right_mono) simp_all
  finally show "SpacecraftId_to_address (SpacecraftId_encode (orb p) (sat p) spp) planes spp = Some (Satellite p)"
    using lt(2) by (subst SpacecraftId_decode) (simp_all add: unat_SpacecraftId_encode)
next
  assume dec: "SpacecraftId_to_address i planes spp = Some (Satellite p)"
  then have i: "unat i < unat planes * unat spp"
    by (simp add: SpacecraftId_to_address_def Let_def word_less_nat_alt unat_mul_u8 split: if_splits)
  then have p: "p = \<lparr>orb = of_nat (unat i div unat spp), sat = of_nat (unat i mod unat spp)\<rparr>"
    using dec SpacecraftId_decode by simp
  have spp: "0 < unat spp" using i by (cases "unat spp = 0") simp_all
  have d: "unat i div unat spp < unat planes" using i by (simp add: less_mult_imp_div_less)
  have m: "unat i mod unat spp < unat spp" using spp by simp
  have u: "unat (orb p) = unat i div unat spp" "unat (sat p) = unat i mod unat spp"
    using d m unat_u8_less [of planes] unat_u8_less [of spp] by (simp_all add: p unat_of_nat)
  show "on_torus \<lparr>num_orbs = planes, num_sats = spp\<rparr> p" using d m u by (simp add: on_torus_def word_less_nat_alt)
  show "SpacecraftId_encode (orb p) (sat p) spp = i"
    by (simp add: word_unat_eq_iff unat_SpacecraftId_encode u)
qed

theorem address_roundtrips_witness:
  "RawAddress_parse (RawAddress_from (Satellite \<lparr>orb = 19, sat = 7\<rparr>)) = Satellite \<lparr>orb = 19, sat = 7\<rparr>
   \<and> SpacecraftId_to_address (SpacecraftId_encode 19 7 72) 20 72 = Some (Satellite \<lparr>orb = 19, sat = 7\<rparr>)"
  using address_roundtrips [of "Satellite \<lparr>orb = 19, sat = 7\<rparr>" 20 72 "\<lparr>orb = 19, sat = 7\<rparr>"]
  by (simp add: Point_from_def on_torus_def word_less_nat_alt)

end
