(* ===== verification/Isl_Packet.thy ===== *)
theory Isl_Packet
  imports Spp Routing
begin

text \<open>
  cFE telecommands and the routable ISL telecommands built on them
  (\<open>crates/leodos-protocols/src/network/cfe/tc.rs\<close> and
  \<open>network/isl/routing/packet.rs\<close>). A telecommand is a space packet of type Telecommand with
  a 2-byte secondary header (function code, XOR checksum); an ISL telecommand puts a
  2-byte target address at the start of its payload. A packet is its bytes; byte 6 is the
  function code, byte 7 the checksum, bytes 8 and 9 the target.
\<close>

section \<open>Definitions\<close>

datatype TelecommandError =
    TcBufferTooSmall nat nat
  | SpacePacketBuildError SppBuildError
  | SpacePacketParseError SppParseError
  | MissingSecondaryHeader
  | PayloadMismatch
  | TypeMismatch

definition TC_MINIMUM :: nat where "TC_MINIMUM = 8"

definition set_function_code :: "bytes \<Rightarrow> u8 \<Rightarrow> bytes" where
  "set_function_code pkt code = pkt[6 := code]"

definition function_code :: "bytes \<Rightarrow> u8" where
  "function_code pkt = pkt ! 6"

definition set_cfe_checksum :: "bytes \<Rightarrow> bytes" where
  "set_cfe_checksum pkt = (let pkt = pkt[7 := 0] in pkt[7 := checksum_u8 pkt])"

definition validate_cfe_checksum :: "bytes \<Rightarrow> bool" where
  "validate_cfe_checksum pkt \<longleftrightarrow> validate_checksum_u8 pkt"

text \<open>
  \<open>telecommand_new\<close> returns the packet bytes, the prefix of the caller's buffer that the
  view covers. That prefix always has the size the view needs, so the builder's own
  \<open>BufferTooSmall\<close> branch is not reached.
\<close>

definition telecommand_new :: "bytes \<Rightarrow> u16 \<Rightarrow> u16 \<Rightarrow> u8 \<Rightarrow> nat \<Rightarrow> TelecommandError + bytes" where
  "telecommand_new buffer ap count code payload_len =
     (case spp_new buffer ap Telecommand count Present Unsegmented (2 + payload_len) of
        Inl e \<Rightarrow> Inl (SpacePacketBuildError e)
      | Inr buf \<Rightarrow>
          let sp = take (SPP_HEADER_SIZE + (2 + payload_len)) buf
          in if length sp \<noteq> TC_MINIMUM + payload_len then Inl (TcBufferTooSmall payload_len (length sp))
             else Inr (set_cfe_checksum (set_function_code sp code)))"

definition telecommand_parse :: "bytes \<Rightarrow> TelecommandError + bytes" where
  "telecommand_parse bs =
     (case spp_parse bs of
        Inl e \<Rightarrow> Inl (SpacePacketParseError e)
      | Inr sp \<Rightarrow>
          if secondary_header_flag (spp_hdr sp) \<noteq> Present then Inl MissingSecondaryHeader
          else let pkt = take (packet_len (spp_hdr sp)) bs
               in case packet_type (spp_hdr sp) of
                    Telecommand \<Rightarrow> if length pkt < TC_MINIMUM then Inl PayloadMismatch else Inr pkt
                  | Telemetry \<Rightarrow> Inl TypeMismatch)"

definition telecommand_payload :: "bytes \<Rightarrow> bytes" where
  "telecommand_payload pkt = drop TC_MINIMUM pkt"

datatype IslMessageError = Cfe TelecommandError | PayloadTooSmall | IslPayloadTooLarge nat nat

definition isl_target :: "bytes \<Rightarrow> Address" where
  "isl_target pkt = RawAddress_parse \<lparr>ground_or_orb = pkt ! 8, station_or_sat = pkt ! 9\<rparr>"

definition isl_set_target :: "bytes \<Rightarrow> Address \<Rightarrow> bytes" where
  "isl_set_target pkt target =
     (let raw = RawAddress_from target in pkt[8 := ground_or_orb raw, 9 := station_or_sat raw])"

definition isl_payload :: "bytes \<Rightarrow> bytes" where
  "isl_payload pkt = drop 10 pkt"

text \<open>\<open>payload_mut().copy_from_slice(data)\<close>: what a sender does after building.\<close>

definition isl_write_payload :: "bytes \<Rightarrow> bytes \<Rightarrow> bytes" where
  "isl_write_payload pkt payload = take 10 pkt @ payload"

definition isl_new :: "bytes \<Rightarrow> u16 \<Rightarrow> u8 \<Rightarrow> Address \<Rightarrow> nat \<Rightarrow> IslMessageError + bytes" where
  "isl_new buffer ap code target payload_len =
     (case telecommand_new buffer ap SequenceCount_new code (2 + payload_len) of
        Inl e \<Rightarrow> Inl (Cfe e)
      | Inr pkt \<Rightarrow>
          if length pkt \<noteq> 10 + payload_len then Inl (Cfe (TcBufferTooSmall (10 + payload_len) (length pkt)))
          else Inr (set_cfe_checksum (isl_set_target pkt target)))"

definition isl_parse :: "bytes \<Rightarrow> IslMessageError + bytes" where
  "isl_parse bs =
     (case telecommand_parse bs of
        Inl e \<Rightarrow> Inl (Cfe e)
      | Inr tc \<Rightarrow> if length (telecommand_payload tc) < 2 then Inl PayloadTooSmall else Inr tc)"

section \<open>The checksum\<close>

lemma checksum_u8_Cons: "checksum_u8 (b # bs) = b XOR checksum_u8 bs"
  using checksum_u8_append [of "[b]" bs] by (simp add: checksum_u8_def)

lemma checksum_u8_update:
  "i < length bs \<Longrightarrow> bs ! i = 0 \<Longrightarrow> checksum_u8 (bs[i := c]) = checksum_u8 bs XOR c"
proof (induction bs arbitrary: i)
  case Nil
  then show ?case by simp
next
  case (Cons b bs)
  then show ?case by (cases i) (simp_all add: checksum_u8_Cons xor.assoc xor.commute xor.left_commute)
qed

lemma xor_zero_iff: "a XOR b = 0 \<longleftrightarrow> a = b" for a b :: u8
  by (auto simp: bit_eq_iff bit_xor_iff)

lemma set_cfe_checksum_valid:
  assumes "8 \<le> length pkt"
  shows "validate_cfe_checksum (set_cfe_checksum pkt)"
proof -
  have "checksum_u8 ((pkt[7 := 0])[7 := c]) = checksum_u8 (pkt[7 := 0]) XOR c" for c
    using assms by (intro checksum_u8_update) simp_all
  then show ?thesis
    by (simp only: validate_cfe_checksum_def validate_checksum_u8_def set_cfe_checksum_def Let_def xor_self_eq)
qed

text \<open>
  The cFE checksum. Stamping the checksum makes any packet of at least 8 bytes
  valid, changes no other byte, and afterwards changing any single byte makes the packet
  invalid.
\<close>

theorem cfe_checksum_detects:
  assumes "8 \<le> length pkt"
  shows "validate_cfe_checksum (set_cfe_checksum pkt)
    \<and> (\<forall>i. i \<noteq> 7 \<longrightarrow> set_cfe_checksum pkt ! i = pkt ! i)
    \<and> (\<forall>i < length pkt. \<forall>b. b \<noteq> set_cfe_checksum pkt ! i \<longrightarrow> \<not> validate_cfe_checksum ((set_cfe_checksum pkt)[i := b]))"
proof (intro conjI allI impI)
  let ?p = "set_cfe_checksum pkt"
  show v: "validate_cfe_checksum ?p" using assms by (rule set_cfe_checksum_valid)
  show "?p ! i = pkt ! i" if "i \<noteq> 7" for i using that by (simp add: set_cfe_checksum_def Let_def)
  fix i b
  assume i: "i < length pkt" and b: "b \<noteq> ?p ! i"
  have l: "length ?p = length pkt" by (simp add: set_cfe_checksum_def Let_def)
  have z: "checksum_u8 (?p[i := c]) = checksum_u8 (?p[i := 0]) XOR c" for c
    using checksum_u8_update [of i "?p[i := 0]" c] i l by simp
  have "checksum_u8 (?p[i := ?p ! i]) = 0"
    using v by (simp add: validate_cfe_checksum_def validate_checksum_u8_def)
  then have "checksum_u8 (?p[i := 0]) = ?p ! i" unfolding z [of "?p ! i"] xor_zero_iff .
  then show "\<not> validate_cfe_checksum (?p[i := b])"
    using b unfolding validate_cfe_checksum_def validate_checksum_u8_def z [of b] xor_zero_iff by simp
qed

theorem cfe_checksum_detects_witness:
  "validate_cfe_checksum (set_cfe_checksum (replicate 9 1))
   \<and> \<not> validate_cfe_checksum ((set_cfe_checksum (replicate 9 1))[0 := 200])"
proof -
  have "set_cfe_checksum (replicate 9 1) ! 0 = 1" by (simp add: set_cfe_checksum_def)
  then show ?thesis using cfe_checksum_detects [of "replicate 9 1"] by simp
qed

section \<open>Building and parsing\<close>

lemma isl_target_set:
  assumes "10 \<le> length pkt" "orb (Point_from target) \<noteq> 255"
  shows "isl_target (isl_set_target pkt target) = target"
proof -
  have "RawAddress_parse (RawAddress_from target) = target" using assms(2) by (rule RawAddress_roundtrip)
  then show ?thesis
    using assms(1) by (cases "RawAddress_from target") (simp add: isl_target_def isl_set_target_def Let_def)
qed

lemma telecommand_new_ok:
  assumes "spp_ok buffer (2 + n)"
  shows "telecommand_new buffer ap count code n = Inr (set_cfe_checksum (set_function_code
      (spp_header_bytes (spp_stamp (spp_header_of buffer) ap Telecommand count Present Unsegmented (2 + n)) @ bslice buffer 6 (2 + n)) code))"
  using assms by (simp add: telecommand_new_def spp_new_ok SPP_HEADER_SIZE_def TC_MINIMUM_def spp_ok_def Let_def bslice_def
      take_drop add.commute)

text \<open>Everything the builders write after the space packet header stays after it.\<close>

lemma update_after_header: "length xs \<le> i \<Longrightarrow> (xs @ ys)[i := v] = xs @ ys[i - length xs := v]"
  by (simp add: list_update_append)

lemma set_cfe_checksum_body:
  "length xs = 6 \<Longrightarrow> \<exists>c. set_cfe_checksum (xs @ ys) = xs @ ys[1 := c]"
  by (auto simp: set_cfe_checksum_def Let_def list_update_append)

lemma isl_parse_stamped:
  assumes "unat ap \<le> 2046" "unat count \<le> 16383" "4 + n \<le> 65535" "length body = 4 + n"
  shows "isl_parse (spp_header_bytes (spp_stamp h ap Telecommand count Present flag (4 + n)) @ body @ rest) =
    Inr (spp_header_bytes (spp_stamp h ap Telecommand count Present flag (4 + n)) @ body)"
proof -
  let ?h = "spp_stamp h ap Telecommand count Present flag (4 + n)"
  have r: "unat ap \<le> 2047" "1 \<le> 4 + n" using assms(1) by simp_all
  have idle: "ap \<noteq> APID_IDLE" using assms(1) by (auto simp: APID_IDLE_def APID_MAX_def)
  note f = spp_stamp_fields [OF r(1) assms(2) r(2) assms(3), of h Telecommand Present flag]
  have "spp_parse (spp_header_bytes ?h @ body @ rest) = Inr \<lparr>spp_hdr = ?h, spp_data = body\<rparr>"
    using spp_parse_stamped [OF r(1) assms(2) r(2) assms(3), of "body @ rest"] idle assms(4) by simp
  moreover have "packet_len ?h = 10 + n" using f(7) by (simp add: packet_len_def SPP_HEADER_SIZE_def)
  ultimately show ?thesis
    using f(2,3) assms(4) by (simp add: isl_parse_def telecommand_parse_def telecommand_payload_def TC_MINIMUM_def)
qed

lemma isl_new_shape:
  assumes "spp_ok buffer (4 + n)"
  shows "\<exists>c. isl_new buffer ap code target n =
    Inr (spp_header_bytes (spp_stamp (spp_header_of buffer) ap Telecommand 0 Present Unsegmented (4 + n))
      @ [code, c, ground_or_orb (RawAddress_from target), station_or_sat (RawAddress_from target)] @ bslice buffer 10 n)"
proof -
  let ?hd = "spp_header_bytes (spp_stamp (spp_header_of buffer) ap Telecommand 0 Present Unsegmented (4 + n))"
  have len: "10 + n \<le> length buffer" using assms by (simp add: spp_ok_def)
  obtain a b c d where abcd: "bslice buffer 6 (4 + n) = [a, b, c, d] @ bslice buffer 10 n"
  proof -
    have "bslice buffer 6 (4 + n) = bslice buffer 6 4 @ bslice buffer 10 n"
      by (simp only: bslice_def take_add drop_drop) simp
    moreover have "length (bslice buffer 6 4) = Suc (Suc (Suc (Suc 0)))" using len by simp
    ultimately show thesis using that by (auto simp: length_Suc_conv)
  qed
  have four: "2 + (2 + n) = 4 + n" by simp
  note tcn = telecommand_new_ok [of buffer "2 + n" ap 0 code, unfolded four, OF assms]
  obtain c1 where tc: "telecommand_new buffer ap SequenceCount_new code (2 + n) =
      Inr (?hd @ [code, c1, c, d] @ bslice buffer 10 n)"
    using tcn set_cfe_checksum_body [of ?hd "code # b # c # d # bslice buffer 10 n"] abcd
    by (auto simp: set_function_code_def update_after_header SequenceCount_new_def)
  then show ?thesis
    using len set_cfe_checksum_body [of ?hd "[code, c1, ground_or_orb (RawAddress_from target), station_or_sat (RawAddress_from target)]
        @ bslice buffer 10 n"]
    by (auto simp: isl_new_def isl_set_target_def Let_def update_after_header)
qed

lemma isl_new_checksum: "isl_new buffer ap code target n = Inr pkt \<Longrightarrow> validate_cfe_checksum pkt"
  by (auto simp: isl_new_def isl_set_target_def Let_def set_cfe_checksum_valid split: sum.splits if_splits)

text \<open>
  ISL telecommands round trip. For a non-idle APID, a target outside plane 255 and a
  buffer that is long enough, the builder yields a packet with a valid checksum; a
  receiver that parses the packet, even with other bytes behind it, sees exactly that
  packet, its function code and its target, also after the sender has filled in a payload,
  and then the payload too.
\<close>

theorem isl_build_parse:
  assumes "unat ap \<le> 2046" "orb (Point_from target) \<noteq> 255" "spp_ok buffer (4 + n)" "length payload = n"
  shows "\<exists>pkt. isl_new buffer ap code target n = Inr pkt \<and> length pkt = 10 + n \<and> validate_cfe_checksum pkt
    \<and> isl_parse (pkt @ rest) = Inr pkt \<and> isl_target pkt = target \<and> function_code pkt = code
    \<and> (let pkt' = isl_write_payload pkt payload
       in isl_parse (pkt' @ rest) = Inr pkt' \<and> isl_target pkt' = target \<and> function_code pkt' = code \<and> isl_payload pkt' = payload)"
proof -
  let ?r = "RawAddress_from target"
  obtain hd c where pkt: "hd = spp_header_bytes (spp_stamp (spp_header_of buffer) ap Telecommand 0 Present Unsegmented (4 + n))"
    "isl_new buffer ap code target n = Inr (hd @ [code, c, ground_or_orb ?r, station_or_sat ?r] @ bslice buffer 10 n)"
    using isl_new_shape [OF assms(3)] by blast
  let ?pkt = "\<lambda>body. hd @ [code, c, ground_or_orb ?r, station_or_sat ?r] @ body"
  have len: "length hd = 6" "length (bslice buffer 10 n) = n" "4 + n \<le> 65535"
    using pkt(1) assms(3) by (simp_all add: spp_ok_def)
  have parse: "isl_parse (?pkt body @ rest) = Inr (?pkt body)" if "length body = n" for body
    using isl_parse_stamped [OF assms(1) _ len(3), of 0 "[code, c, ground_or_orb ?r, station_or_sat ?r] @ body"
        "spp_header_of buffer" Unsegmented rest] that by (simp add: pkt(1))
  have "RawAddress_parse ?r = target" using assms(2) by (rule RawAddress_roundtrip)
  then have target: "isl_target (?pkt body) = target" for body
    using len(1) by (cases ?r) (simp add: isl_target_def nth_append)
  have code: "function_code (?pkt body) = code" for body
    using len(1) by (simp add: function_code_def nth_append)
  have "validate_cfe_checksum (?pkt (bslice buffer 10 n))" using pkt(2) by (rule isl_new_checksum)
  moreover have "isl_write_payload (?pkt (bslice buffer 10 n)) payload = ?pkt payload"
    using len(1) by (simp add: isl_write_payload_def)
  moreover have "isl_payload (?pkt payload) = payload" using len(1) by (simp add: isl_payload_def)
  ultimately show ?thesis
    using pkt(2) parse [of "bslice buffer 10 n"] parse [OF assms(4)] target code len by auto
qed

theorem isl_build_parse_witness:
  "\<exists>pkt. isl_new (replicate 12 0) 5 9 (Satellite \<lparr>orb = 3, sat = 4\<rparr>) 2 = Inr pkt \<and> isl_parse pkt = Inr pkt
     \<and> isl_target pkt = Satellite \<lparr>orb = 3, sat = 4\<rparr> \<and> isl_payload (isl_write_payload pkt [1, 2]) = [1, 2]"
  using isl_build_parse [of 5 "Satellite \<lparr>orb = 3, sat = 4\<rparr>" "replicate 12 0" 2 "[1, 2]" 9 "[]"]
  by (auto simp: Point_from_def spp_ok_def Let_def)

end
