(* ===== verification/Srspp_Sender.thy ===== *)
theory Srspp_Sender
  imports Spp Routing Slots
begin

text \<open>
  The sender of SRSPP, the selective-repeat transport
  (\<open>crates/leodos-protocols/src/transport/srspp/machine/sender.rs\<close>). \<open>sender\<close> is the struct
  \<open>SenderMachine<WIN, MTU>\<close>: an array of \<open>WIN\<close> packet slots over one byte buffer, which comes
  from the caller's buffer pool. \<open>sender_handle\<close> is \<open>SenderMachine::handle\<close>: it appends
  to the caller's action queue (capacity 32, a push beyond that is dropped) and reports an
  error as a value. On an error the state may already have changed, so the result carries
  the state in every case.

  The abstract view is \<open>in_flight\<close>: sequence number, flags, target, payload and
  end-of-stream mark of every packet held.
\<close>

section \<open>Definitions\<close>

datatype SenderEvent =
    SendRequest Address bytes
  | AckReceived u16 u16
  | RetransmitTimeout u16
  | SendEos Address

datatype SenderAction =
    Transmit u16 u32
  | SndStopTimer u16
  | PacketLost u16
  | MessageLost
  | SpaceAvailable nat

type_synonym SenderActions = "SenderAction list"

definition SENDER_MAX_ACTIONS :: nat where "SENDER_MAX_ACTIONS = 32"

definition sender_push :: "SenderActions \<Rightarrow> SenderAction \<Rightarrow> SenderActions" where
  "sender_push as a = vec_push SENDER_MAX_ACTIONS as a"

datatype SenderError = BufferFull | WindowFull

record PayloadInfo =
  pi_seq :: u16
  pi_flags :: SequenceFlag
  pi_target :: Address
  pi_payload :: bytes
  pi_is_eos :: bool

record SenderConfig =
  sc_source_address :: Address
  sc_apid :: u16
  sc_function_code :: u8
  sc_rto_ticks :: u32
  sc_max_retransmits :: u8
  sc_header_overhead :: nat

datatype SlotState = SlotEmpty | PendingTransmit | AwaitingAck

record PacketMeta =
  pm_state :: SlotState
  pm_seq :: u16
  pm_flags :: SequenceFlag
  pm_target :: RawAddress
  pm_retransmits :: u8
  pm_offset :: nat
  pm_len :: nat
  pm_segmented :: bool
  pm_eos :: bool

definition PacketMeta_default :: PacketMeta where
  "PacketMeta_default =
     \<lparr>pm_state = SlotEmpty, pm_seq = 0, pm_flags = Unsegmented, pm_target = RawAddress_from (Ground 0),
      pm_retransmits = 0, pm_offset = 0, pm_len = 0, pm_segmented = False, pm_eos = False\<rparr>"

record sender =
  s_config :: SenderConfig
  s_meta :: "PacketMeta list"
  s_data :: bytes
  s_write_pos :: nat
  s_next_seq :: u16
  s_send_base :: u16

text \<open>\<open>buf\<close> is the buffer of \<open>buf_size\<close> bytes the pool allocated.\<close>

definition sender_new :: "nat \<Rightarrow> SenderConfig \<Rightarrow> bytes \<Rightarrow> sender" where
  "sender_new WIN config buf =
     \<lparr>s_config = config, s_meta = replicate WIN PacketMeta_default, s_data = buf, s_write_pos = 0,
      s_next_seq = 0, s_send_base = 0\<rparr>"

definition sender_reset :: "sender \<Rightarrow> sender" where
  "sender_reset s =
     s\<lparr>s_meta := replicate (length (s_meta s)) PacketMeta_default, s_write_pos := 0, s_next_seq := 0, s_send_base := 0\<rparr>"

definition live :: "PacketMeta \<Rightarrow> bool" where
  "live m \<longleftrightarrow> pm_state m \<noteq> SlotEmpty"

definition max_payload_per_packet :: "nat \<Rightarrow> sender \<Rightarrow> nat" where
  "max_payload_per_packet MTU s = MTU - sc_header_overhead (s_config s)"

definition available_bytes :: "sender \<Rightarrow> nat" where
  "available_bytes s = length (s_data s) - s_write_pos s"

definition unacked_count :: "sender \<Rightarrow> nat" where
  "unacked_count s = length (filter live (s_meta s))"

definition available_window :: "sender \<Rightarrow> nat" where
  "available_window s = length (s_meta s) - unacked_count s"

definition sender_is_idle :: "sender \<Rightarrow> bool" where
  "sender_is_idle s \<longleftrightarrow> (\<forall>m\<in>set (s_meta s). \<not> live m)"

fun find_meta :: "PacketMeta list \<Rightarrow> u16 \<Rightarrow> PacketMeta option" where
  "find_meta [] q = None"
| "find_meta (m # ms) q = (if live m \<and> pm_seq m = q then Some m else find_meta ms q)"

definition payload_info :: "bytes \<Rightarrow> PacketMeta \<Rightarrow> PayloadInfo" where
  "payload_info d m =
     \<lparr>pi_seq = SequenceCount_from (pm_seq m), pi_flags = pm_flags m, pi_target = RawAddress_parse (pm_target m),
      pi_payload = bslice d (pm_offset m) (pm_len m), pi_is_eos = pm_eos m\<rparr>"

definition get_payload :: "sender \<Rightarrow> u16 \<Rightarrow> PayloadInfo option" where
  "get_payload s q = map_option (payload_info (s_data s)) (find_meta (s_meta s) q)"

text \<open>
  \<open>compact\<close>: the first loop builds the live slot indices in order of offset (a new index
  goes before the first one with a larger offset), the second moves each payload down.
\<close>

fun insert_by_offset :: "PacketMeta list \<Rightarrow> nat \<Rightarrow> nat list \<Rightarrow> nat list" where
  "insert_by_offset ms i [] = [i]"
| "insert_by_offset ms i (j # js) =
     (if pm_offset (ms ! j) > pm_offset (ms ! i) then i # j # js else j # insert_by_offset ms i js)"

definition live_by_offset :: "PacketMeta list \<Rightarrow> nat list" where
  "live_by_offset ms = fold (\<lambda>i js. if live (ms ! i) then insert_by_offset ms i js else js) [0..<length ms] []"

fun move_down :: "nat list \<Rightarrow> PacketMeta list \<Rightarrow> bytes \<Rightarrow> nat \<Rightarrow> PacketMeta list \<times> bytes \<times> nat" where
  "move_down [] ms d new_pos = (ms, d, new_pos)"
| "move_down (i # js) ms d new_pos =
     (let old_offset = pm_offset (ms ! i); len = pm_len (ms ! i);
          d = (if new_pos \<noteq> old_offset then blit d new_pos (bslice d old_offset len) else d)
      in move_down js (ms[i := (ms ! i)\<lparr>pm_offset := new_pos\<rparr>]) d (new_pos + len))"

definition compact :: "sender \<Rightarrow> sender" where
  "compact s =
     (let indices = live_by_offset (s_meta s)
      in if indices = [] then s\<lparr>s_write_pos := 0\<rparr>
         else let (ms, d, new_pos) = move_down indices (s_meta s) (s_data s) 0
              in s\<lparr>s_meta := ms, s_data := d, s_write_pos := new_pos\<rparr>)"

type_synonym sender_result = "sender \<times> SenderActions \<times> SenderError option"

definition queue_packet :: "sender \<Rightarrow> Address \<Rightarrow> bytes \<Rightarrow> SequenceFlag \<Rightarrow> bool \<Rightarrow> SenderActions \<Rightarrow> sender_result" where
  "queue_packet s target payload flags is_segmented acts =
     (case position (\<lambda>m. \<not> live m) (s_meta s) of
        None \<Rightarrow> (s, acts, Some WindowFull)
      | Some slot_idx \<Rightarrow>
          let s = (if length payload > available_bytes s then compact s else s)
          in if length payload > available_bytes s then (s, acts, Some BufferFull)
             else let off = s_write_pos s; q = SequenceCount_from (s_next_seq s);
                      s = s\<lparr>s_data := blit (s_data s) off payload, s_write_pos := off + length payload,
                            s_meta := (s_meta s)[slot_idx :=
                              \<lparr>pm_state = PendingTransmit, pm_seq = s_next_seq s, pm_flags = flags,
                               pm_target = RawAddress_from target, pm_retransmits = 0, pm_offset = off,
                               pm_len = length payload, pm_segmented = is_segmented, pm_eos = False\<rparr>],
                            s_next_seq := (s_next_seq s + 1) AND SEQUENCE_COUNT_MAX\<rparr>
                  in (s, sender_push acts (Transmit q (sc_rto_ticks (s_config s))), None))"

definition queue_eos :: "sender \<Rightarrow> Address \<Rightarrow> SenderActions \<Rightarrow> sender_result" where
  "queue_eos s target acts =
     (case position (\<lambda>m. \<not> live m) (s_meta s) of
        None \<Rightarrow> (s, acts, Some WindowFull)
      | Some slot_idx \<Rightarrow>
          let q = SequenceCount_from (s_next_seq s);
              s = s\<lparr>s_meta := (s_meta s)[slot_idx :=
                      \<lparr>pm_state = PendingTransmit, pm_seq = s_next_seq s, pm_flags = Unsegmented,
                       pm_target = RawAddress_from target, pm_retransmits = 0, pm_offset = s_write_pos s,
                       pm_len = 0, pm_segmented = False, pm_eos = True\<rparr>],
                    s_next_seq := (s_next_seq s + 1) AND SEQUENCE_COUNT_MAX\<rparr>
          in (s, sender_push acts (Transmit q (sc_rto_ticks (s_config s))), None))"

text \<open>
  The segmentation loop of \<open>handle_send_request\<close>, with the part of the data not yet queued
  as its argument. \<open>queue_packet\<close> takes a free slot in each round, so the loop ends even
  when the header overhead leaves no room for payload.
\<close>

definition free_slots :: "sender \<Rightarrow> nat" where
  "free_slots s = length (filter (\<lambda>m. \<not> live m) (s_meta s))"

lemma live_move_down: "map live (fst (move_down js ms d n)) = map live ms"
proof (induction js ms d n rule: move_down.induct)
  case (2 i js ms d n)
  have "map live (ms[i := (ms ! i)\<lparr>pm_offset := n\<rparr>]) = map live ms"
  proof (rule nth_equalityI)
    fix j assume "j < length (map live (ms[i := (ms ! i)\<lparr>pm_offset := n\<rparr>]))"
    then show "map live (ms[i := (ms ! i)\<lparr>pm_offset := n\<rparr>]) ! j = map live ms ! j"
      by (cases "i = j") (simp_all add: live_def)
  qed simp
  then show ?case using 2 by (simp add: Let_def)
qed simp

lemma live_compact: "map live (s_meta (compact s)) = map live (s_meta s)"
  using live_move_down [of "live_by_offset (s_meta s)" "s_meta s" "s_data s" 0]
  by (simp add: compact_def Let_def case_prod_beta)

lemma free_slots_live: "free_slots s = length (filter Not (map live (s_meta s)))"
  by (simp add: free_slots_def filter_map comp_def)

lemma queue_packet_takes_slot:
  assumes "queue_packet s target payload flags seg acts = (s', acts', None)"
  shows "free_slots s' < free_slots s"
proof -
  obtain i where i: "position (\<lambda>m. \<not> live m) (s_meta s) = Some i"
    using assms by (auto simp: queue_packet_def split: option.splits)
  let ?c = "if length payload > available_bytes s then compact s else s"
  have lv: "map live (s_meta ?c) = map live (s_meta s)" by (simp add: live_compact)
  then have len: "length (s_meta ?c) = length (s_meta s)" by (metis length_map)
  have il: "i < length (s_meta s)" "\<not> live (s_meta s ! i)" using position_SomeD [OF i] by simp_all
  have "map live (s_meta s') = (map live (s_meta ?c))[i := True]"
    using assms i by (auto simp: queue_packet_def Let_def live_def map_update split: if_splits)
  then have "free_slots s' = length (filter Not ((map live (s_meta s))[i := True]))"
    unfolding free_slots_live lv by simp
  also have "\<dots> < length (filter Not (map live (s_meta s)))"
    using il by (intro length_filter_update_less) simp_all
  finally show ?thesis by (simp only: free_slots_live)
qed

function segment_loop ::
  "nat \<Rightarrow> Address \<Rightarrow> bytes \<Rightarrow> bool \<Rightarrow> sender \<Rightarrow> SenderActions \<Rightarrow> sender_result" where
  "segment_loop max_payload target remaining is_first s acts =
     (if remaining = [] then (s, acts, None)
      else let chunk_size = min (length remaining) max_payload;
               is_last = (length remaining \<le> chunk_size);
               flags = (if is_first then First else if is_last then Last else Continuation)
           in case queue_packet s target (take chunk_size remaining) flags True acts of
                (s', acts', Some e) \<Rightarrow> (s', acts', Some e)
              | (s', acts', None) \<Rightarrow> segment_loop max_payload target (drop chunk_size remaining) False s' acts')"
  by pat_completeness auto
termination
  by (relation "measure (\<lambda>(mp, t, r, f, s, a). free_slots s)") (auto dest!: queue_packet_takes_slot [OF sym])

definition handle_send_request :: "nat \<Rightarrow> sender \<Rightarrow> Address \<Rightarrow> bytes \<Rightarrow> SenderActions \<Rightarrow> sender_result" where
  "handle_send_request MTU s target data acts =
     (let max_payload = max_payload_per_packet MTU s
      in if length data \<le> max_payload then queue_packet s target data Unsegmented False acts
         else segment_loop max_payload target data True s acts)"

fun update_base :: "PacketMeta list \<Rightarrow> bool \<Rightarrow> u16 \<Rightarrow> bool \<times> u16" where
  "update_base [] found min_unacked = (found, min_unacked)"
| "update_base (m # ms) found min_unacked =
     (if live m
      then let diff = (min_unacked - pm_seq m) AND SEQUENCE_COUNT_MAX
           in update_base ms True (if diff < SEQUENCE_COUNT_MAX div 2 \<and> diff > 0 then pm_seq m else min_unacked)
      else update_base ms found min_unacked)"

definition update_send_base :: "sender \<Rightarrow> sender" where
  "update_send_base s =
     (let (found, min_unacked) = update_base (s_meta s) False (s_next_seq s)
      in s\<lparr>s_send_base := (if found then min_unacked else s_next_seq s)\<rparr>)"

text \<open>The two loops of \<open>handle_ack\<close>: every slot behind the cumulative acknowledgement, then one slot per selective bit.\<close>

definition cum_acked :: "u16 \<Rightarrow> u16 \<Rightarrow> bool" where
  "cum_acked ack_val q \<longleftrightarrow> (ack_val - q) AND SEQUENCE_COUNT_MAX < SEQUENCE_COUNT_MAX div 2"

fun ack_cumulative :: "u16 \<Rightarrow> PacketMeta list \<Rightarrow> nat \<Rightarrow> SenderActions \<Rightarrow> PacketMeta list \<times> nat \<times> SenderActions" where
  "ack_cumulative ack_val [] freed acts = ([], freed, acts)"
| "ack_cumulative ack_val (m # ms) freed acts =
     (if live m \<and> cum_acked ack_val (pm_seq m)
      then let (ms', freed', acts') = ack_cumulative ack_val ms (freed + pm_len m)
                  (sender_push acts (SndStopTimer (SequenceCount_from (pm_seq m))))
           in (m\<lparr>pm_state := SlotEmpty\<rparr> # ms', freed', acts')
      else let (ms', freed', acts') = ack_cumulative ack_val ms freed acts in (m # ms', freed', acts'))"

fun ack_one :: "u16 \<Rightarrow> PacketMeta list \<Rightarrow> nat \<Rightarrow> SenderActions \<Rightarrow> PacketMeta list \<times> nat \<times> SenderActions" where
  "ack_one q [] freed acts = ([], freed, acts)"
| "ack_one q (m # ms) freed acts =
     (if live m \<and> pm_seq m = q
      then (m\<lparr>pm_state := SlotEmpty\<rparr> # ms, freed + pm_len m, sender_push acts (SndStopTimer (SequenceCount_from (pm_seq m))))
      else let (ms', freed', acts') = ack_one q ms freed acts in (m # ms', freed', acts'))"

fun ack_selective ::
  "u16 \<Rightarrow> u16 \<Rightarrow> nat list \<Rightarrow> PacketMeta list \<Rightarrow> nat \<Rightarrow> SenderActions \<Rightarrow> PacketMeta list \<times> nat \<times> SenderActions" where
  "ack_selective ack_val bitmap [] ms freed acts = (ms, freed, acts)"
| "ack_selective ack_val bitmap (b # bs) ms freed acts =
     (if bit bitmap b
      then let (ms', freed', acts') = ack_one ((ack_val + 1 + of_nat b) AND SEQUENCE_COUNT_MAX) ms freed acts
           in ack_selective ack_val bitmap bs ms' freed' acts'
      else ack_selective ack_val bitmap bs ms freed acts)"

definition handle_ack :: "sender \<Rightarrow> u16 \<Rightarrow> u16 \<Rightarrow> SenderActions \<Rightarrow> sender \<times> SenderActions" where
  "handle_ack s ack_val bitmap acts =
     (let (ms, freed, acts) = ack_cumulative ack_val (s_meta s) 0 acts;
          (ms, freed, acts) = ack_selective ack_val bitmap [0..<16] ms freed acts;
          s = update_send_base (s\<lparr>s_meta := ms\<rparr>)
      in (s, if freed > 0 then sender_push acts (SpaceAvailable (available_bytes s)) else acts))"

fun timeout_slots ::
  "SenderConfig \<Rightarrow> u16 \<Rightarrow> PacketMeta list \<Rightarrow> SenderActions \<Rightarrow> PacketMeta list \<times> bool \<times> SenderActions" where
  "timeout_slots cfg q [] acts = ([], False, acts)"
| "timeout_slots cfg q (m # ms) acts =
     (if pm_state m = AwaitingAck \<and> pm_seq m = q
      then if pm_retransmits m \<ge> sc_max_retransmits cfg
           then (m\<lparr>pm_state := SlotEmpty\<rparr> # ms, pm_segmented m, sender_push acts (PacketLost q))
           else (m\<lparr>pm_state := PendingTransmit, pm_retransmits := pm_retransmits m + 1\<rparr> # ms, False,
                 sender_push acts (Transmit q (sc_rto_ticks cfg)))
      else let (ms', lost, acts') = timeout_slots cfg q ms acts in (m # ms', lost, acts'))"

definition handle_timeout :: "sender \<Rightarrow> u16 \<Rightarrow> SenderActions \<Rightarrow> sender \<times> SenderActions" where
  "handle_timeout s q acts =
     (let (ms, lost_segmented, acts) = timeout_slots (s_config s) q (s_meta s) acts;
          acts = (if lost_segmented then sender_push acts MessageLost else acts)
      in (update_send_base (s\<lparr>s_meta := ms\<rparr>), acts))"

fun mark_slots :: "u16 \<Rightarrow> PacketMeta list \<Rightarrow> PacketMeta list" where
  "mark_slots q [] = []"
| "mark_slots q (m # ms) =
     (if pm_state m = PendingTransmit \<and> pm_seq m = q then m\<lparr>pm_state := AwaitingAck\<rparr> # ms else m # mark_slots q ms)"

definition mark_transmitted :: "sender \<Rightarrow> u16 \<Rightarrow> sender" where
  "mark_transmitted s q = s\<lparr>s_meta := mark_slots q (s_meta s)\<rparr>"

definition sender_handle :: "nat \<Rightarrow> sender \<Rightarrow> SenderEvent \<Rightarrow> SenderActions \<Rightarrow> sender_result" where
  "sender_handle MTU s event acts =
     (case event of
        SendRequest target data \<Rightarrow> handle_send_request MTU s target data acts
      | AckReceived cumulative_ack selective_bitmap \<Rightarrow>
          (let (s, acts) = handle_ack s cumulative_ack selective_bitmap acts in (s, acts, None))
      | RetransmitTimeout q \<Rightarrow> (let (s, acts) = handle_timeout s q acts in (s, acts, None))
      | SendEos target \<Rightarrow> queue_eos s target acts)"

declare segment_loop.simps [simp del]

section \<open>Invariant and abstract view\<close>

text \<open>
  Live payloads lie below the write position and do not overlap. An end-of-stream slot has
  no bytes, so it overlaps nothing.
\<close>

definition apart :: "PacketMeta \<Rightarrow> PacketMeta \<Rightarrow> bool" where
  "apart m m' \<longleftrightarrow> pm_len m = 0 \<or> pm_len m' = 0 \<or> pm_offset m + pm_len m \<le> pm_offset m'
     \<or> pm_offset m' + pm_len m' \<le> pm_offset m"

definition sender_wf :: "nat \<Rightarrow> sender \<Rightarrow> bool" where
  "sender_wf WIN s \<longleftrightarrow>
     length (s_meta s) = WIN \<and> s_write_pos s \<le> length (s_data s)
     \<and> (\<forall>i<WIN. live (s_meta s ! i) \<longrightarrow> pm_offset (s_meta s ! i) + pm_len (s_meta s ! i) \<le> s_write_pos s)
     \<and> (\<forall>i<WIN. \<forall>j<WIN. i \<noteq> j \<longrightarrow> live (s_meta s ! i) \<longrightarrow> live (s_meta s ! j) \<longrightarrow> apart (s_meta s ! i) (s_meta s ! j))
     \<and> unat (s_next_seq s) \<le> 16383 \<and> (\<forall>m\<in>set (s_meta s). live m \<longrightarrow> unat (pm_seq m) \<le> 16383)"

definition in_flight :: "sender \<Rightarrow> PayloadInfo list" where
  "in_flight s = map (payload_info (s_data s)) (filter live (s_meta s))"

section \<open>Compaction\<close>

lemma insert_by_offset_set: "set (insert_by_offset ms i js) = insert i (set js)"
  by (induction js) auto

lemma insert_by_offset_distinct: "i \<notin> set js \<Longrightarrow> distinct js \<Longrightarrow> distinct (insert_by_offset ms i js)"
  by (induction js) (auto simp: insert_by_offset_set)

lemma insert_by_offset_sorted:
  "sorted (map (\<lambda>i. pm_offset (ms ! i)) js) \<Longrightarrow> sorted (map (\<lambda>i. pm_offset (ms ! i)) (insert_by_offset ms i js))"
  by (induction js) (auto simp: insert_by_offset_set)

lemma live_by_offset_spec:
  "set (live_by_offset ms) = {i. i < length ms \<and> live (ms ! i)} \<and> distinct (live_by_offset ms)
     \<and> sorted (map (\<lambda>i. pm_offset (ms ! i)) (live_by_offset ms))"
proof -
  let ?f = "\<lambda>n. fold (\<lambda>i js. if live (ms ! i) then insert_by_offset ms i js else js) [0..<n] []"
  have "set (?f n) = {i. i < n \<and> live (ms ! i)} \<and> distinct (?f n) \<and> sorted (map (\<lambda>i. pm_offset (ms ! i)) (?f n))" for n
  proof (induction n)
    case (Suc n)
    have "?f (Suc n) = (if live (ms ! n) then insert_by_offset ms n (?f n) else ?f n)" by simp
    moreover have "n \<notin> set (?f n)" using Suc by simp
    ultimately show ?case using Suc
      by (auto simp: insert_by_offset_set insert_by_offset_distinct insert_by_offset_sorted less_Suc_eq simp del: upt_Suc)
  qed simp
  then show ?thesis by (simp add: live_by_offset_def)
qed

text \<open>When the payloads of \<open>js\<close> can be moved down to \<open>np\<close> in this order without overwriting each other.\<close>

fun fits :: "nat \<Rightarrow> nat list \<Rightarrow> PacketMeta list \<Rightarrow> bool" where
  "fits np [] ms \<longleftrightarrow> True"
| "fits np (i # js) ms \<longleftrightarrow> (pm_len (ms ! i) = 0 \<or> np \<le> pm_offset (ms ! i)) \<and> fits (np + pm_len (ms ! i)) js ms
     \<and> (pm_len (ms ! i) = 0 \<or> (\<forall>j\<in>set js. pm_len (ms ! j) = 0 \<or> pm_offset (ms ! i) + pm_len (ms ! i) \<le> pm_offset (ms ! j)))"

lemma fits_sorted:
  assumes "sorted (map (\<lambda>i. pm_offset (ms ! i)) js)" "distinct js"
    "\<And>i j. i \<in> set js \<Longrightarrow> j \<in> set js \<Longrightarrow> i \<noteq> j \<Longrightarrow> apart (ms ! i) (ms ! j)"
    "\<And>j. j \<in> set js \<Longrightarrow> pm_len (ms ! j) = 0 \<or> np \<le> pm_offset (ms ! j)"
  shows "fits np js ms"
  using assms
proof (induction js arbitrary: np)
  case (Cons i js)
  have after: "pm_len (ms ! i) = 0 \<or> pm_len (ms ! j) = 0 \<or> pm_offset (ms ! i) + pm_len (ms ! i) \<le> pm_offset (ms ! j)"
    if "j \<in> set js" for j
  proof -
    have "pm_offset (ms ! i) \<le> pm_offset (ms ! j)" using Cons.prems(1) that by auto
    moreover have "apart (ms ! i) (ms ! j)" using Cons.prems(2,3) that by auto
    ultimately show ?thesis by (auto simp: apart_def)
  qed
  have "pm_len (ms ! j) = 0 \<or> np + pm_len (ms ! i) \<le> pm_offset (ms ! j)" if "j \<in> set js" for j
    using after [OF that] Cons.prems(4) [of i] Cons.prems(4) [of j] that by (auto dest: add_le_mono1)
  then have "fits (np + pm_len (ms ! i)) js ms" using Cons.IH Cons.prems by auto
  then show ?case using after Cons.prems(4) [of i] by fastforce
qed simp

lemma fits_cong: "(\<And>i. i \<in> set js \<Longrightarrow> ms ! i = ms' ! i) \<Longrightarrow> fits np js ms = fits np js ms'"
  by (induction js arbitrary: np) auto

text \<open>What \<open>move_down\<close> does: payloads are kept, positions are packed, everything else is untouched.\<close>

definition moved :: "nat list \<Rightarrow> PacketMeta list \<Rightarrow> bytes \<Rightarrow> nat \<Rightarrow> PacketMeta list \<Rightarrow> bytes \<Rightarrow> nat \<Rightarrow> bool" where
  "moved js ms d np ms' d' np' \<longleftrightarrow>
     length ms' = length ms \<and> length d' = length d \<and> np' = np + sum_list (map (\<lambda>i. pm_len (ms ! i)) js) \<and> np' \<le> length d
     \<and> (\<forall>k. k \<notin> set js \<longrightarrow> ms' ! k = ms ! k)
     \<and> (\<forall>a n. a + n \<le> np \<longrightarrow> bslice d' a n = bslice d a n)
     \<and> (\<forall>i\<in>set js. \<exists>pos. ms' ! i = (ms ! i)\<lparr>pm_offset := pos\<rparr> \<and> np \<le> pos \<and> pos + pm_len (ms ! i) \<le> np'
          \<and> bslice d' pos (pm_len (ms ! i)) = bslice d (pm_offset (ms ! i)) (pm_len (ms ! i)))
     \<and> (\<forall>i\<in>set js. \<forall>j\<in>set js. i \<noteq> j \<longrightarrow> apart (ms' ! i) (ms' ! j))"

lemma move_one:
  assumes "n = 0 \<or> np \<le> off" "off + n \<le> length d"
  defines "d1 \<equiv> (if np \<noteq> off then blit d np (bslice d off n) else d)"
  shows "length d1 = length d" "np \<le> length d \<Longrightarrow> bslice d1 np n = bslice d off n"
    "a + k \<le> np \<Longrightarrow> bslice d1 a k = bslice d a k" "k = 0 \<or> np + n \<le> a \<Longrightarrow> bslice d1 a k = bslice d a k"
proof -
  have len: "length (bslice d off n) = n" using assms(2) by simp
  show "length d1 = length d" using assms by (cases "n = 0") (simp_all add: d1_def)
  show "np \<le> length d \<Longrightarrow> bslice d1 np n = bslice d off n"
    using assms(1,2) bslice_blit_same [of np "bslice d off n" d] len by (cases "n = 0") (auto simp: d1_def)
  show "a + k \<le> np \<Longrightarrow> bslice d1 a k = bslice d a k"
    using assms(1,2) len by (cases "n = 0") (auto simp: d1_def)
  show "k = 0 \<or> np + n \<le> a \<Longrightarrow> bslice d1 a k = bslice d a k"
    using assms(1,2) len by (cases "n = 0") (auto simp: d1_def)
qed

lemma move_down_moved:
  assumes "fits np js ms" "distinct js" "\<forall>i\<in>set js. i < length ms \<and> pm_offset (ms ! i) + pm_len (ms ! i) \<le> length d"
    "np \<le> length d" "move_down js ms d np = (ms', d', np')"
  shows "moved js ms d np ms' d' np'"
  using assms
proof (induction js arbitrary: ms d np)
  case Nil
  then show ?case by (simp add: moved_def)
next
  case (Cons i js)
  let ?off = "pm_offset (ms ! i)" and ?n = "pm_len (ms ! i)"
  define d1 where "d1 = (if np \<noteq> ?off then blit d np (bslice d ?off ?n) else d)"
  define ms1 where "ms1 = ms[i := (ms ! i)\<lparr>pm_offset := np\<rparr>]"
  have i: "i < length ms" "?off + ?n \<le> length d" "i \<notin> set js" using Cons.prems by simp_all
  have m1: "?n = 0 \<or> np \<le> ?off" using Cons.prems(1) by simp
  note one = move_one [OF m1 i(2), folded d1_def]
  have same: "ms1 ! j = ms ! j" if "j \<in> set js" for j
  proof -
    have "i \<noteq> j" using that i(3) by blast
    then show ?thesis by (simp add: ms1_def)
  qed
  have np1: "np + ?n \<le> length d1" using m1 i(2) Cons.prems(4) one(1) by auto
  have mv: "moved js ms1 d1 (np + ?n) ms' d' np'"
  proof (rule Cons.IH)
    show "fits (np + ?n) js ms1" using Cons.prems(1) fits_cong [of js ms1 ms] same by simp
    show "\<forall>j\<in>set js. j < length ms1 \<and> pm_offset (ms1 ! j) + pm_len (ms1 ! j) \<le> length d1"
      using Cons.prems(3) same one(1) by (simp add: ms1_def)
    show "move_down js ms1 d1 (np + ?n) = (ms', d', np')"
      using Cons.prems(5) by (simp add: Let_def d1_def ms1_def)
  qed (use Cons.prems(2) np1 in simp_all)
  have i': "ms' ! i = (ms ! i)\<lparr>pm_offset := np\<rparr>" using mv i by (simp add: moved_def ms1_def)
  have pay_i: "bslice d' np ?n = bslice d ?off ?n" using mv one(2) Cons.prems(4) by (simp add: moved_def)
  have pay_j: "\<exists>pos. ms' ! j = (ms ! j)\<lparr>pm_offset := pos\<rparr> \<and> np + ?n \<le> pos \<and> pos + pm_len (ms ! j) \<le> np'
      \<and> bslice d' pos (pm_len (ms ! j)) = bslice d (pm_offset (ms ! j)) (pm_len (ms ! j))" if j: "j \<in> set js" for j
  proof -
    have "pm_len (ms ! j) = 0 \<or> np + ?n \<le> pm_offset (ms ! j) \<or> ?n = 0" using Cons.prems(1) m1 j by fastforce
    moreover have "?n = 0 \<Longrightarrow> d1 = d" by (simp add: d1_def)
    ultimately have "bslice d1 (pm_offset (ms ! j)) (pm_len (ms ! j)) = bslice d (pm_offset (ms ! j)) (pm_len (ms ! j))"
      using one(4) by auto
    moreover have "\<exists>pos. ms' ! j = (ms1 ! j)\<lparr>pm_offset := pos\<rparr> \<and> np + ?n \<le> pos \<and> pos + pm_len (ms1 ! j) \<le> np'
      \<and> bslice d' pos (pm_len (ms1 ! j)) = bslice d1 (pm_offset (ms1 ! j)) (pm_len (ms1 ! j))"
      using mv j unfolding moved_def by blast
    ultimately show ?thesis unfolding same [OF j] by simp
  qed
  have apart_ij: "apart (ms' ! i) (ms' ! j) \<and> apart (ms' ! j) (ms' ! i)" if j: "j \<in> set js" for j
    using pay_j [OF j] i' by (auto simp: apart_def)
  show ?case unfolding moved_def
  proof (intro conjI allI impI ballI)
    have "map (\<lambda>k. pm_len (ms1 ! k)) js = map (\<lambda>k. pm_len (ms ! k)) js" using same by simp
    then have "sum_list (map (\<lambda>k. pm_len (ms1 ! k)) js) = sum_list (map (\<lambda>k. pm_len (ms ! k)) js)" by (simp only:)
    then show "np' = np + sum_list (map (\<lambda>k. pm_len (ms ! k)) (i # js))" using mv by (simp add: moved_def)
    show "length ms' = length ms" "length d' = length d" "np' \<le> length d"
      using mv one(1) by (simp_all add: moved_def ms1_def)
    show "ms' ! k = ms ! k" if "k \<notin> set (i # js)" for k using mv that by (simp add: moved_def ms1_def)
    show "bslice d' a n = bslice d a n" if "a + n \<le> np" for a n using mv one(3) that by (simp add: moved_def)
    show "\<exists>pos. ms' ! k = (ms ! k)\<lparr>pm_offset := pos\<rparr> \<and> np \<le> pos \<and> pos + pm_len (ms ! k) \<le> np'
          \<and> bslice d' pos (pm_len (ms ! k)) = bslice d (pm_offset (ms ! k)) (pm_len (ms ! k))" if "k \<in> set (i # js)" for k
    proof (cases "k = i")
      case True
      then show ?thesis using i' pay_i mv by (intro exI [of _ np]) (simp add: moved_def)
    next
      case False
      then show ?thesis using pay_j [of k] that by (auto intro: add_leD1)
    qed
    show "apart (ms' ! k) (ms' ! l)" if "k \<in> set (i # js)" "l \<in> set (i # js)" "k \<noteq> l" for k l
      using that apart_ij mv by (auto simp: moved_def)
  qed
qed

lemma compact_moved:
  assumes "sender_wf W s"
  defines "s' \<equiv> compact s"
  shows "moved (live_by_offset (s_meta s)) (s_meta s) (s_data s) 0 (s_meta s') (s_data s') (s_write_pos s')"
    "s_config s' = s_config s" "s_next_seq s' = s_next_seq s"
proof -
  let ?js = "live_by_offset (s_meta s)"
  note sp = live_by_offset_spec [of "s_meta s"]
  have wf: "\<forall>i\<in>set ?js. i < length (s_meta s) \<and> pm_offset (s_meta s ! i) + pm_len (s_meta s ! i) \<le> length (s_data s)"
    using assms(1) sp by (fastforce simp: sender_wf_def)
  have "fits 0 ?js (s_meta s)"
    using assms(1) sp by (intro fits_sorted) (auto simp: sender_wf_def)
  moreover have "distinct ?js" using sp by blast
  moreover obtain ms d np where mv: "move_down ?js (s_meta s) (s_data s) 0 = (ms, d, np)" by (cases "move_down ?js (s_meta s) (s_data s) 0")
  ultimately have moved: "moved ?js (s_meta s) (s_data s) 0 ms d np" using move_down_moved wf by blast
  show "moved ?js (s_meta s) (s_data s) 0 (s_meta s') (s_data s') (s_write_pos s')"
  proof (cases "?js = []")
    case True
    then show ?thesis by (simp add: s'_def compact_def moved_def)
  next
    case False
    then show ?thesis using moved mv by (simp add: s'_def compact_def Let_def)
  qed
  show "s_config s' = s_config s" "s_next_seq s' = s_next_seq s"
    by (simp_all add: s'_def compact_def Let_def case_prod_beta)
qed

lemma compact_ok:
  assumes "sender_wf W s"
  shows "sender_wf W (compact s)" "in_flight (compact s) = in_flight s"
proof -
  let ?s = "compact s" and ?js = "live_by_offset (s_meta s)"
  note mv = compact_moved(1) [OF assms, unfolded moved_def] and sp = live_by_offset_spec [of "s_meta s"]
  have W: "length (s_meta s) = W" "length (s_meta ?s) = W" using assms mv by (simp_all add: sender_wf_def)
  have slot: "\<exists>pos. s_meta ?s ! i = (s_meta s ! i)\<lparr>pm_offset := pos\<rparr> \<and> pos + pm_len (s_meta s ! i) \<le> s_write_pos ?s
      \<and> bslice (s_data ?s) pos (pm_len (s_meta s ! i)) = bslice (s_data s) (pm_offset (s_meta s ! i)) (pm_len (s_meta s ! i))"
    if "i < W" "live (s_meta s ! i)" for i
    using mv sp that W by auto
  have lv: "live (s_meta ?s ! i) = live (s_meta s ! i)" if "i < W" for i
    using that W live_compact [of s] by (metis length_map nth_map)
  have seqs: "pm_seq (s_meta ?s ! i) = pm_seq (s_meta s ! i)" if "i < W" "live (s_meta s ! i)" for i
    using slot [OF that] by auto
  show "sender_wf W ?s"
    unfolding sender_wf_def
  proof (intro conjI allI impI ballI)
    show "pm_offset (s_meta ?s ! i) + pm_len (s_meta ?s ! i) \<le> s_write_pos ?s" if "i < W" "live (s_meta ?s ! i)" for i
      using slot [of i] lv that by auto
    show "apart (s_meta ?s ! i) (s_meta ?s ! j)"
      if "i < W" "j < W" "i \<noteq> j" "live (s_meta ?s ! i)" "live (s_meta ?s ! j)" for i j
      using mv sp that lv W by auto
    show "unat (pm_seq m) \<le> 16383" if mem: "m \<in> set (s_meta ?s)" and lm: "live m" for m
    proof -
      obtain i where "i < length (s_meta ?s)" and m: "m = s_meta ?s ! i" using mem by (auto simp: in_set_conv_nth)
      then have i: "i < W" "m = s_meta ?s ! i" by (simp_all only: W(2))
      then have l: "live (s_meta s ! i)" using lv lm by simp
      have "s_meta s ! i \<in> set (s_meta s)" using i(1) W(1) nth_mem by blast
      then show ?thesis using seqs [OF i(1) l] i(2) l assms by (simp add: sender_wf_def)
    qed
    show "unat (s_next_seq ?s) \<le> 16383" using assms compact_moved(3) [OF assms] by (simp add: sender_wf_def)
  qed (use mv W in simp_all)
  have info: "payload_info (s_data ?s) (s_meta ?s ! i) = payload_info (s_data s) (s_meta s ! i)"
    if "i < W" "live (s_meta s ! i)" for i
    using slot [OF that] by (auto simp: payload_info_def)
  show "in_flight ?s = in_flight s"
    unfolding in_flight_def filter_map_nth [of _ _ "s_meta ?s"] filter_map_nth [of _ _ "s_meta s"] W
  proof (rule map_cong)
    show "filter (\<lambda>i. live (s_meta ?s ! i)) [0..<W] = filter (\<lambda>i. live (s_meta s ! i)) [0..<W]"
      using lv by (intro filter_cong) auto
  qed (use info in auto)
qed

lemma SequenceCount_from_id: "unat q \<le> 16383 \<Longrightarrow> SequenceCount_from q = q"
proof -
  assume "unat q \<le> 16383"
  then have "take_bit 14 q = q" by (intro take_bit_word_fits) simp
  then show ?thesis by (simp add: SequenceCount_from_def SEQUENCE_COUNT_MAX_def take_bit_eq_mask mask_eq_exp_minus_1)
qed

lemma get_payload_find:
  assumes "sender_wf W s"
  shows "get_payload s q = find (\<lambda>p. pi_seq p = q) (in_flight s)"
proof -
  have "map_option (payload_info d) (find_meta ms q) = find (\<lambda>p. pi_seq p = q) (map (payload_info d) (filter live ms))"
    if "\<forall>m\<in>set ms. live m \<longrightarrow> unat (pm_seq m) \<le> 16383" for d ms
    using that by (induction ms) (auto simp: payload_info_def SequenceCount_from_id)
  then show ?thesis using assms by (simp add: get_payload_def in_flight_def sender_wf_def)
qed

text \<open>
  Compaction is invisible. On every well-formed sender, compacting the send buffer
  keeps the sequence number, flags, target and payload bytes of every packet in flight,
  keeps the slots well-formed (in range and without overlap), and afterwards the write
  position is at most the old one.
\<close>

theorem compact_preserves:
  assumes "sender_wf W s"
  shows "in_flight (compact s) = in_flight s \<and> sender_wf W (compact s)
    \<and> (\<forall>q. get_payload (compact s) q = get_payload s q)"
proof -
  note gp = get_payload_find [OF assms] get_payload_find [OF compact_ok(1) [OF assms]]
  show ?thesis using compact_ok [OF assms] gp by simp
qed

section \<open>Queueing\<close>

definition live_bytes :: "sender \<Rightarrow> nat" where
  "live_bytes s = sum_list (map pm_len (filter live (s_meta s)))"

lemma live_bytes_in_flight: "sender_wf W s \<Longrightarrow> live_bytes s = sum_list (map (length \<circ> pi_payload) (in_flight s))"
proof -
  assume wf: "sender_wf W s"
  have "length (bslice (s_data s) (pm_offset m) (pm_len m)) = pm_len m" if "m \<in> set (s_meta s)" "live m" for m
    using that wf by (intro length_bslice) (fastforce simp: sender_wf_def in_set_conv_nth)
  then show ?thesis
    unfolding live_bytes_def in_flight_def map_map by (intro arg_cong [where f = sum_list] map_cong) (auto simp: payload_info_def)
qed

lemma compact_write_pos:
  assumes "sender_wf W s"
  shows "s_write_pos (compact s) = live_bytes s"
proof -
  let ?js = "live_by_offset (s_meta s)" and ?is = "filter (\<lambda>i. live (s_meta s ! i)) [0..<length (s_meta s)]"
  have "set ?js = set ?is" "distinct ?js" "distinct ?is" using live_by_offset_spec [of "s_meta s"] by auto
  then have "mset ?js = mset ?is" using set_eq_iff_mset_eq_distinct by blast
  then have "sum_list (map (\<lambda>i. pm_len (s_meta s ! i)) ?js) = sum_list (map (\<lambda>i. pm_len (s_meta s ! i)) ?is)"
    unfolding sum_mset_sum_list [symmetric] mset_map by (simp only:)
  then show ?thesis
    using compact_moved(1) [OF assms] unfolding live_bytes_def filter_map_nth [of pm_len live "s_meta s"] by (simp add: moved_def)
qed

lemma position_free: "(\<exists>i. position (\<lambda>m. \<not> live m) (s_meta s) = Some i) \<longleftrightarrow> 0 < free_slots s"
  by (metis (no_types, lifting) filter_empty_conv free_slots_def length_greater_0_conv not_None_eq position_None)

text \<open>A packet is refused only for lack of a slot, or for lack of buffer space after compaction.\<close>

lemma queue_packet_refuses:
  assumes "sender_wf W s"
  shows "snd (snd (queue_packet s target payload flags seg acts)) =
    (if free_slots s = 0 then Some WindowFull
     else if available_bytes s < length payload \<and> length (s_data s) < live_bytes s + length payload then Some BufferFull
     else None)"
proof -
  have "length (s_data (compact s)) = length (s_data s)" using compact_moved(1) [OF assms] by (simp add: moved_def)
  moreover have "live_bytes s \<le> length (s_data s)"
    using compact_ok(1) [OF assms] compact_write_pos [OF assms] compact_moved(1) [OF assms] by (simp add: sender_wf_def moved_def)
  ultimately have av: "available_bytes (compact s) = length (s_data s) - live_bytes s" "live_bytes s \<le> length (s_data s)"
    by (simp_all add: available_bytes_def compact_write_pos [OF assms])
  show ?thesis
  proof (cases "position (\<lambda>m. \<not> live m) (s_meta s)")
    case None
    then have "free_slots s = 0" using position_free [of s] by (metis gr0I option.distinct(1))
    then show ?thesis by (simp add: queue_packet_def None)
  next
    case (Some i)
    then have "free_slots s \<noteq> 0" using position_free [of s] by auto
    then show ?thesis using av by (auto simp: queue_packet_def Some Let_def)
  qed
qed

text \<open>What a new packet adds.\<close>

lemma add_slot:
  assumes "sender_wf W s" "i < W" "\<not> live (s_meta s ! i)" "s_write_pos s + length p \<le> length (s_data s)"
    "live m" "pm_offset m = s_write_pos s" "pm_len m = length p" "pm_seq m = s_next_seq s"
  defines "s' \<equiv> s\<lparr>s_data := blit (s_data s) (s_write_pos s) p, s_write_pos := s_write_pos s + length p,
      s_meta := (s_meta s)[i := m], s_next_seq := (s_next_seq s + 1) AND SEQUENCE_COUNT_MAX\<rparr>"
  shows "sender_wf W s'"
    "mset (in_flight s') = add_mset \<lparr>pi_seq = s_next_seq s, pi_flags = pm_flags m, pi_target = RawAddress_parse (pm_target m),
        pi_payload = p, pi_is_eos = pm_eos m\<rparr> (mset (in_flight s))"
proof -
  have W: "length (s_meta s) = W" and nx: "unat (s_next_seq s) \<le> 16383" using assms(1) by (simp_all add: sender_wf_def)
  have old: "pm_offset (s_meta s ! k) + pm_len (s_meta s ! k) \<le> s_write_pos s" if "k < W" "live (s_meta s ! k)" for k
    using assms(1) that by (simp add: sender_wf_def)
  have "(s_next_seq s + 1) AND SEQUENCE_COUNT_MAX \<le> SEQUENCE_COUNT_MAX" by (rule word_and_le1)
  then have inc: "unat ((s_next_seq s + 1) AND SEQUENCE_COUNT_MAX) \<le> 16383"
    by (simp add: word_le_nat_alt SEQUENCE_COUNT_MAX_def)
  show "sender_wf W s'"
    unfolding sender_wf_def
  proof (intro conjI allI impI ballI)
    show "pm_offset (s_meta s' ! k) + pm_len (s_meta s' ! k) \<le> s_write_pos s'" if "k < W" "live (s_meta s' ! k)" for k
      using old [of k] that W assms(6,7) by (cases "k = i") (simp_all add: s'_def)
    show "apart (s_meta s' ! k) (s_meta s' ! l)"
      if "k < W" "l < W" "k \<noteq> l" "live (s_meta s' ! k)" "live (s_meta s' ! l)" for k l
      using that old [of k] old [of l] W assms(1,6,7)
      by (cases "k = i"; cases "l = i") (auto simp: s'_def apart_def sender_wf_def)
    show "unat (pm_seq m') \<le> 16383" if "m' \<in> set (s_meta s')" "live m'" for m'
      using that assms(1,8) set_update_subset_insert [of "s_meta s" i m] by (auto simp: s'_def sender_wf_def)
  qed (use W assms(4) inc in \<open>simp_all add: s'_def\<close>)
  have meta: "s_meta s' = (s_meta s)[i := m]" by (simp add: s'_def)
  have "mset (filter live (s_meta s')) = add_mset m (mset (filter live (s_meta s)))"
    unfolding meta using assms(2,3,5) W by (intro mset_filter_fill) simp_all
  then have "mset (in_flight s') = add_mset (payload_info (s_data s') m) (mset (map (payload_info (s_data s')) (filter live (s_meta s))))"
    by (simp add: in_flight_def)
  moreover have "map (payload_info (s_data s')) (filter live (s_meta s)) = in_flight s"
  proof -
    have "payload_info (s_data s') m' = payload_info (s_data s) m'" if "m' \<in> set (s_meta s)" "live m'" for m'
    proof -
      obtain k where "k < W" "m' = s_meta s ! k" using \<open>m' \<in> set (s_meta s)\<close> W by (auto simp: in_set_conv_nth)
      then show ?thesis using old [of k] assms(4) \<open>live m'\<close> by (simp add: payload_info_def s'_def)
    qed
    then show ?thesis by (simp add: in_flight_def)
  qed
  moreover have "payload_info (s_data s') m = \<lparr>pi_seq = s_next_seq s, pi_flags = pm_flags m,
      pi_target = RawAddress_parse (pm_target m), pi_payload = p, pi_is_eos = pm_eos m\<rparr>"
    using assms(4,6,7,8) nx by (simp add: payload_info_def s'_def SequenceCount_from_id)
  ultimately show "mset (in_flight s') = add_mset \<lparr>pi_seq = s_next_seq s, pi_flags = pm_flags m,
      pi_target = RawAddress_parse (pm_target m), pi_payload = p, pi_is_eos = pm_eos m\<rparr> (mset (in_flight s))" by simp
qed

lemma queue_packet_ok:
  assumes "sender_wf W s" "queue_packet s target payload flags seg acts = (s', acts', None)"
  shows "sender_wf W s'"
    "mset (in_flight s') = add_mset \<lparr>pi_seq = s_next_seq s, pi_flags = flags,
       pi_target = RawAddress_parse (RawAddress_from target), pi_payload = payload, pi_is_eos = False\<rparr> (mset (in_flight s))"
    "s_next_seq s' = (s_next_seq s + 1) AND SEQUENCE_COUNT_MAX" "s_config s' = s_config s"
    "acts' = sender_push acts (Transmit (s_next_seq s) (sc_rto_ticks (s_config s)))"
proof -
  obtain i where i: "position (\<lambda>m. \<not> live m) (s_meta s) = Some i"
    using assms(2) by (auto simp: queue_packet_def split: option.splits)
  define c where "c = (if length payload > available_bytes s then compact s else s)"
  have c: "sender_wf W c" "in_flight c = in_flight s" "s_next_seq c = s_next_seq s" "s_config c = s_config s"
    "map live (s_meta c) = map live (s_meta s)"
    using assms(1) compact_ok [OF assms(1)] compact_moved(2,3) [OF assms(1)] live_compact [of s] by (simp_all add: c_def)
  have W: "length (s_meta s) = W" "length (s_meta c) = W" using assms(1) c(1) by (simp_all add: sender_wf_def)
  have il: "i < W" "\<not> live (s_meta s ! i)" using position_SomeD [OF i] W(1) by simp_all
  then have cl: "\<not> live (s_meta c ! i)" using c(5) W by (metis nth_map)
  have av: "s_write_pos c \<le> length (s_data c)" using c(1) by (simp add: sender_wf_def)
  define m where "m = \<lparr>pm_state = PendingTransmit, pm_seq = s_next_seq c, pm_flags = flags,
      pm_target = RawAddress_from target, pm_retransmits = 0, pm_offset = s_write_pos c,
      pm_len = length payload, pm_segmented = seg, pm_eos = False\<rparr>"
  have room: "\<not> length payload > available_bytes c"
    using assms(2) i by (auto simp: queue_packet_def Let_def c_def split: if_splits)
  have s': "s' = c\<lparr>s_data := blit (s_data c) (s_write_pos c) payload, s_write_pos := s_write_pos c + length payload,
      s_meta := (s_meta c)[i := m], s_next_seq := (s_next_seq c + 1) AND SEQUENCE_COUNT_MAX\<rparr>"
    and acts': "acts' = sender_push acts (Transmit (SequenceCount_from (s_next_seq c)) (sc_rto_ticks (s_config c)))"
    using assms(2) i room unfolding queue_packet_def by (simp_all add: Let_def c_def [symmetric] m_def)
  have fit: "s_write_pos c + length payload \<le> length (s_data c)" using room av by (simp add: available_bytes_def)
  have nx: "unat (s_next_seq s) \<le> 16383" using assms(1) by (simp add: sender_wf_def)
  note add = add_slot [OF c(1) il(1) cl fit, of m, folded s']
  show "sender_wf W s'" using add(1) by (simp add: m_def live_def)
  show "mset (in_flight s') = add_mset \<lparr>pi_seq = s_next_seq s, pi_flags = flags,
      pi_target = RawAddress_parse (RawAddress_from target), pi_payload = payload, pi_is_eos = False\<rparr> (mset (in_flight s))"
    using add(2) c by (simp add: m_def live_def)
  show "s_next_seq s' = (s_next_seq s + 1) AND SEQUENCE_COUNT_MAX" "s_config s' = s_config s"
    "acts' = sender_push acts (Transmit (s_next_seq s) (sc_rto_ticks (s_config s)))"
    using c nx by (simp_all add: s' acts' SequenceCount_from_id)
qed

lemma queue_packet_err:
  assumes "sender_wf W s" "queue_packet s target payload flags seg acts = (s', acts', Some e)"
  shows "sender_wf W s'" "in_flight s' = in_flight s" "s_next_seq s' = s_next_seq s" "s_config s' = s_config s" "acts' = acts"
  using assms compact_ok [OF assms(1)] compact_moved(2,3) [OF assms(1)]
  by (auto simp: queue_packet_def Let_def split: option.splits if_splits)

lemma queue_eos_ok:
  assumes "sender_wf W s" "queue_eos s target acts = (s', acts', None)"
  shows "sender_wf W s'"
    "mset (in_flight s') = add_mset \<lparr>pi_seq = s_next_seq s, pi_flags = Unsegmented,
       pi_target = RawAddress_parse (RawAddress_from target), pi_payload = [], pi_is_eos = True\<rparr> (mset (in_flight s))"
    "s_next_seq s' = (s_next_seq s + 1) AND SEQUENCE_COUNT_MAX"
proof -
  obtain i where i: "position (\<lambda>m. \<not> live m) (s_meta s) = Some i"
    using assms(2) by (auto simp: queue_eos_def split: option.splits)
  have il: "i < W" "\<not> live (s_meta s ! i)" using position_SomeD [OF i] assms(1) by (simp_all add: sender_wf_def)
  define m where "m = \<lparr>pm_state = PendingTransmit, pm_seq = s_next_seq s, pm_flags = Unsegmented,
      pm_target = RawAddress_from target, pm_retransmits = 0, pm_offset = s_write_pos s,
      pm_len = 0, pm_segmented = False, pm_eos = True\<rparr>"
  have s': "s' = s\<lparr>s_data := blit (s_data s) (s_write_pos s) [], s_write_pos := s_write_pos s + length ([] :: bytes),
      s_meta := (s_meta s)[i := m], s_next_seq := (s_next_seq s + 1) AND SEQUENCE_COUNT_MAX\<rparr>"
    using assms(2) i by (auto simp: queue_eos_def Let_def m_def)
  have fit: "s_write_pos s + length ([] :: bytes) \<le> length (s_data s)" using assms(1) by (simp add: sender_wf_def)
  note add = add_slot [OF assms(1) il fit, of m, folded s']
  show "sender_wf W s'" using add(1) by (simp add: m_def live_def)
  show "mset (in_flight s') = add_mset \<lparr>pi_seq = s_next_seq s, pi_flags = Unsegmented,
      pi_target = RawAddress_parse (RawAddress_from target), pi_payload = [], pi_is_eos = True\<rparr> (mset (in_flight s))"
    using add(2) by (simp add: m_def live_def)
  show "s_next_seq s' = (s_next_seq s + 1) AND SEQUENCE_COUNT_MAX" by (simp add: s')
qed

section \<open>Segmentation\<close>

text \<open>The packets of one message: consecutive numbers, the chunks of the data, the flags of a segmented message.\<close>

fun numbered :: "u16 \<Rightarrow> PayloadInfo list \<Rightarrow> bool" where
  "numbered q [] \<longleftrightarrow> True"
| "numbered q (p # ps) \<longleftrightarrow> pi_seq p = q \<and> numbered ((q + 1) AND SEQUENCE_COUNT_MAX) ps"

definition seg_packet :: "nat \<Rightarrow> Address \<Rightarrow> PayloadInfo \<Rightarrow> bool" where
  "seg_packet mp target p \<longleftrightarrow>
     length (pi_payload p) \<le> mp \<and> pi_target p = RawAddress_parse (RawAddress_from target) \<and> \<not> pi_is_eos p"

lemma segment_loop_ok:
  assumes "sender_wf W s" "segment_loop mp target data first s acts = (s', acts', None)" "data \<noteq> []"
  shows "\<exists>ps. sender_wf W s' \<and> mset (in_flight s') = mset ps + mset (in_flight s) \<and> ps \<noteq> []
    \<and> concat (map pi_payload ps) = data \<and> numbered (s_next_seq s) ps \<and> (\<forall>p\<in>set ps. seg_packet mp target p)
    \<and> tl (map pi_flags ps) = (if length ps = 1 then [] else replicate (length ps - 2) Continuation @ [Last])
    \<and> hd (map pi_flags ps) = (if first then First else if length ps = 1 then Last else Continuation)"
  using assms
proof (induction mp target data first s acts rule: segment_loop.induct)
  case (1 mp target data first s acts)
  let ?n = "min (length data) mp"
  let ?fl = "if first then First else if length data \<le> ?n then Last else Continuation"
  obtain s1 acts1 r where q: "queue_packet s target (take ?n data) ?fl True acts = (s1, acts1, r)" by (metis prod_cases3)
  have r: "r = None" using "1.prems"(2,3) q by (cases r) (simp_all add: segment_loop.simps [of mp target data] Let_def)
  note q1 = queue_packet_ok [OF "1.prems"(1) q [unfolded r]]
  have rec: "segment_loop mp target (drop ?n data) False s1 acts1 = (s', acts', None)"
    using "1.prems"(2,3) q r by (simp add: segment_loop.simps [of mp target data] Let_def)
  define p where "p = \<lparr>pi_seq = s_next_seq s, pi_flags = ?fl, pi_target = RawAddress_parse (RawAddress_from target),
      pi_payload = take ?n data, pi_is_eos = False\<rparr>"
  have pk: "seg_packet mp target p" "pi_seq p = s_next_seq s" "pi_payload p = take ?n data" "pi_flags p = ?fl"
    by (simp_all add: p_def seg_packet_def)
  show ?case
  proof (cases "drop ?n data = []")
    case True
    then have "s' = s1" using rec by (simp add: segment_loop.simps)
    then show ?thesis using q1(1,2) pk True by (intro exI [of _ "[p]"]) (auto simp: p_def)
  next
    case False
    then have last: "\<not> length data \<le> ?n" by auto
    have IH: "\<exists>ps. sender_wf W s' \<and> mset (in_flight s') = mset ps + mset (in_flight s1) \<and> ps \<noteq> []
      \<and> concat (map pi_payload ps) = drop ?n data \<and> numbered (s_next_seq s1) ps \<and> (\<forall>p\<in>set ps. seg_packet mp target p)
      \<and> tl (map pi_flags ps) = (if length ps = 1 then [] else replicate (length ps - 2) Continuation @ [Last])
      \<and> hd (map pi_flags ps) = (if False then First else if length ps = 1 then Last else Continuation)"
      by (rule "1.IH" [OF "1.prems"(3) refl refl refl q [symmetric] refl r q1(1) rec False])
    then obtain ps where ps: "sender_wf W s'" "mset (in_flight s') = mset ps + mset (in_flight s1)" "ps \<noteq> []"
      "concat (map pi_payload ps) = drop ?n data" "numbered (s_next_seq s1) ps" "\<forall>p\<in>set ps. seg_packet mp target p"
      "tl (map pi_flags ps) = (if length ps = 1 then [] else replicate (length ps - 2) Continuation @ [Last])"
      "hd (map pi_flags ps) = (if length ps = 1 then Last else Continuation)" by auto
    have "map pi_flags ps = hd (map pi_flags ps) # tl (map pi_flags ps)" using ps(3) by simp
    then have fl: "map pi_flags ps = replicate (length ps - 1) Continuation @ [Last]"
      unfolding ps(7,8) using ps(3) by (cases ps; cases "tl ps") simp_all
    show ?thesis
      using ps pk q1(2,3) last fl by (intro exI [of _ "p # ps"]) (auto simp: p_def numbered.simps)
  qed
qed

lemma queue_packet_wf: "sender_wf W s \<Longrightarrow> sender_wf W (fst (queue_packet s target payload flags seg acts))"
  using queue_packet_ok(1) queue_packet_err(1) by (metis fst_conv not_None_eq prod_cases3)

lemma segment_loop_wf: "sender_wf W s \<Longrightarrow> sender_wf W (fst (segment_loop mp target data first s acts))"
proof (induction mp target data first s acts rule: segment_loop.induct)
  case (1 mp target data first s acts)
  let ?n = "min (length data) mp"
  let ?fl = "if first then First else if length data \<le> ?n then Last else Continuation"
  obtain s1 acts1 r where q: "queue_packet s target (take ?n data) ?fl True acts = (s1, acts1, r)" by (metis prod_cases3)
  then have wf: "sender_wf W s1" using queue_packet_wf [OF "1.prems", of target "take ?n data" ?fl True acts] by simp
  show ?case
  proof (cases "data = [] \<or> r \<noteq> None")
    case True
    then show ?thesis using "1.prems" wf q by (auto simp: segment_loop.simps [of mp target data] Let_def)
  next
    case False
    then have "sender_wf W (fst (segment_loop mp target (drop ?n data) False s1 acts1))"
      using "1.IH" [OF _ refl refl refl q [symmetric] refl _ wf] by simp
    then show ?thesis using False q by (simp add: segment_loop.simps [of mp target data] Let_def)
  qed
qed

text \<open>
  Segmentation. When a message longer than one packet is accepted, the packets added to
  those in flight carry, in order of consecutive sequence numbers, exactly the message
  cut into pieces of at most the payload size, for the given target, flagged First,
  Continuation any number of times, Last.
\<close>

theorem send_request_segments:
  assumes "sender_wf W s" "max_payload_per_packet MTU s < length data"
    "sender_handle MTU s (SendRequest target data) acts = (s', acts', None)"
  shows "\<exists>ps. sender_wf W s' \<and> mset (in_flight s') = mset ps + mset (in_flight s)
    \<and> concat (map pi_payload ps) = data \<and> numbered (s_next_seq s) ps
    \<and> (\<forall>p\<in>set ps. seg_packet (max_payload_per_packet MTU s) target p)
    \<and> map pi_flags ps = First # replicate (length ps - 2) Continuation @ [Last]"
proof -
  let ?mp = "max_payload_per_packet MTU s"
  have loop: "segment_loop ?mp target data True s acts = (s', acts', None)" "data \<noteq> []"
    using assms(2,3) by (auto simp: sender_handle_def handle_send_request_def Let_def)
  then obtain ps where ps: "sender_wf W s'" "mset (in_flight s') = mset ps + mset (in_flight s)" "ps \<noteq> []"
    "concat (map pi_payload ps) = data" "numbered (s_next_seq s) ps" "\<forall>p\<in>set ps. seg_packet ?mp target p"
    "tl (map pi_flags ps) = (if length ps = 1 then [] else replicate (length ps - 2) Continuation @ [Last])"
    "hd (map pi_flags ps) = First"
    using segment_loop_ok [OF assms(1) loop] by auto
  have "length ps \<noteq> 1"
  proof
    assume "length ps = 1"
    then obtain p where "ps = [p]" by (auto simp: length_Suc_conv)
    then show False using ps(4,6) assms(2) by (simp add: seg_packet_def)
  qed
  moreover have "map pi_flags ps = hd (map pi_flags ps) # tl (map pi_flags ps)" using ps(3) by simp
  ultimately have "map pi_flags ps = First # replicate (length ps - 2) Continuation @ [Last]" using ps(7,8) by simp
  then show ?thesis using ps by (intro exI [of _ ps]) simp
qed

section \<open>Acknowledgements and timeouts\<close>

lemma not_live_empty [simp]: "\<not> live (m\<lparr>pm_state := SlotEmpty\<rparr>)"
  by (simp add: live_def)

lemma same_slots_wf:
  assumes "sender_wf W s" "length ms = length (s_meta s)"
    "\<forall>i<length ms. live (ms ! i) \<longrightarrow> live (s_meta s ! i) \<and> pm_offset (ms ! i) = pm_offset (s_meta s ! i)
       \<and> pm_len (ms ! i) = pm_len (s_meta s ! i) \<and> pm_seq (ms ! i) = pm_seq (s_meta s ! i)"
  shows "sender_wf W (update_send_base (s\<lparr>s_meta := ms\<rparr>))" "sender_wf W (s\<lparr>s_meta := ms\<rparr>)"
proof -
  have W: "length (s_meta s) = W" using assms(1) by (simp add: sender_wf_def)
  have seq: "unat (pm_seq m) \<le> 16383" if m: "m \<in> set ms" "live m" for m
  proof -
    obtain i where i: "i < length ms" "m = ms ! i" using m by (auto simp: in_set_conv_nth)
    then have "s_meta s ! i \<in> set (s_meta s)" using assms(2) by simp
    then show ?thesis using i m assms(1,3) by (simp add: sender_wf_def)
  qed
  show wf: "sender_wf W (s\<lparr>s_meta := ms\<rparr>)"
    using assms W seq unfolding sender_wf_def apart_def by simp
  then show "sender_wf W (update_send_base (s\<lparr>s_meta := ms\<rparr>))"
    by (simp add: update_send_base_def sender_wf_def case_prod_beta)
qed

text \<open>Slots that a pass over the array leaves alone or empties.\<close>

definition thinned :: "PacketMeta list \<Rightarrow> PacketMeta list \<Rightarrow> bool" where
  "thinned ms ms' \<longleftrightarrow> list_all2 (\<lambda>m m'. m' = m \<or> \<not> live m') ms ms'"

lemma thinned_refl [simp]: "thinned ms ms"
  by (simp add: thinned_def list_all2_same)

lemma thinned_trans: "thinned a b \<Longrightarrow> thinned b c \<Longrightarrow> thinned a c"
  unfolding thinned_def by (rule list_all2_trans [of _ _ _ a b c]) auto

lemma thinned_wf:
  assumes "sender_wf W s" "thinned (s_meta s) ms"
  shows "sender_wf W (update_send_base (s\<lparr>s_meta := ms\<rparr>))"
  using assms(2) by (intro same_slots_wf assms(1)) (auto simp: thinned_def list_all2_conv_all_nth)

lemma ack_cumulative_slots:
  "fst (ack_cumulative a ms freed acts) =
     map (\<lambda>m. if live m \<and> cum_acked a (pm_seq m) then m\<lparr>pm_state := SlotEmpty\<rparr> else m) ms"
  by (induction ms arbitrary: freed acts) (simp_all add: case_prod_beta Let_def)

lemma ack_one_thinned: "thinned ms (fst (ack_one q ms freed acts))"
  by (induction ms arbitrary: freed acts) (auto simp: thinned_def case_prod_beta Let_def live_def list_all2_same)

lemma ack_selective_thinned: "thinned ms (fst (ack_selective a b bs ms freed acts))"
proof (induction bs arbitrary: ms freed acts)
  case (Cons k bs)
  show ?case
  proof (cases "bit b k")
    case True
    show ?thesis using True by (simp add: case_prod_beta Let_def) (rule thinned_trans [OF ack_one_thinned Cons.IH])
  qed (simp add: Cons.IH)
qed simp

lemma ack_one_live:
  assumes "distinct (map pm_seq (filter live ms))"
  shows "filter live (fst (ack_one q ms freed acts)) = filter (\<lambda>m. pm_seq m \<noteq> q) (filter live ms)"
  using assms
proof (induction ms arbitrary: freed acts)
  case (Cons m ms)
  show ?case
  proof (cases "live m \<and> pm_seq m = q")
    case True
    then have "q \<notin> set (map pm_seq (filter live ms))" using Cons.prems by simp
    then have "\<forall>m'\<in>set (filter live ms). pm_seq m' \<noteq> q" unfolding set_map by blast
    then have "filter (\<lambda>m. pm_seq m \<noteq> q) (filter live ms) = filter live ms" by (simp only: filter_True)
    then show ?thesis using True by simp
  next
    case False
    then show ?thesis using Cons by (auto simp: case_prod_beta Let_def split: if_splits)
  qed
qed simp

lemma ack_selective_live:
  assumes "distinct (map pm_seq (filter live ms))"
  shows "filter live (fst (ack_selective a b bs ms freed acts)) =
    filter (\<lambda>m. \<not> (\<exists>k\<in>set bs. bit b k \<and> pm_seq m = (a + 1 + of_nat k) AND SEQUENCE_COUNT_MAX)) (filter live ms)"
  using assms
proof (induction bs arbitrary: ms freed acts)
  case (Cons k bs)
  let ?q = "(a + 1 + of_nat k) AND SEQUENCE_COUNT_MAX"
  show ?case
  proof (cases "bit b k")
    case True
    obtain ms1 f1 a1 where one: "ack_one ?q ms freed acts = (ms1, f1, a1)" by (metis prod_cases3)
    have l1: "filter live ms1 = filter (\<lambda>m. pm_seq m \<noteq> ?q) (filter live ms)"
      using ack_one_live [OF Cons.prems, of ?q freed acts] one by simp
    have "distinct (map pm_seq (filter live ms1))"
      unfolding l1 by (rule distinct_map_filter) (rule Cons.prems)
    note IH = Cons.IH [OF this, of f1 a1, unfolded l1 filter_filter]
    show ?thesis using True one IH by (auto simp: Let_def intro!: filter_cong)
  next
    case False
    then show ?thesis using Cons by simp
  qed
qed simp

text \<open>
  What an acknowledgement covers: everything up to 8190 behind the cumulative number
  (inclusive, modulo 16384), and the numbers the bitmap names after it.
\<close>

definition ack_covers :: "u16 \<Rightarrow> u16 \<Rightarrow> u16 \<Rightarrow> bool" where
  "ack_covers a b q \<longleftrightarrow> cum_acked a q \<or> (\<exists>k<16. bit b k \<and> q = (a + 1 + of_nat k) AND SEQUENCE_COUNT_MAX)"

lemma cum_acked_mod:
  assumes "unat a \<le> 16383" "unat q \<le> 16383"
  shows "cum_acked a q \<longleftrightarrow> (unat a + 16384 - unat q) mod 16384 < 8191"
proof -
  have "(a - q) AND SEQUENCE_COUNT_MAX = take_bit 14 (a - q)"
    by (simp add: SEQUENCE_COUNT_MAX_def take_bit_eq_mask mask_eq_exp_minus_1)
  moreover have "unat (take_bit 14 (a - q)) = unat (a - q) mod 16384"
    by (simp only: unsigned_take_bit_eq) (simp add: take_bit_eq_mod)
  moreover have "unat (a - q) mod 16384 = (unat a + 16384 - unat q) mod 16384"
  proof (cases "unat q \<le> unat a")
    case True
    then have "unat (a - q) = unat a - unat q" by (simp add: unat_sub_if')
    moreover have "unat a + 16384 - unat q = unat a - unat q + 16384" using True by simp
    ultimately show ?thesis by (simp only: mod_add_self2)
  next
    case False
    then have "unat (a - q) = 65536 + unat a - unat q" using assms by (simp add: unat_sub_if')
    moreover have "65536 + unat a - unat q = unat a + 16384 - unat q + 3 * 16384" using assms by simp
    ultimately show ?thesis by (metis mod_mult_self1 mult.commute)
  qed
  ultimately show ?thesis by (simp add: cum_acked_def word_less_nat_alt SEQUENCE_COUNT_MAX_def)
qed

lemma filter_live_cum:
  "filter live (map (\<lambda>m. if live m \<and> cum_acked a (pm_seq m) then m\<lparr>pm_state := SlotEmpty\<rparr> else m) ms) =
     filter (\<lambda>m. \<not> cum_acked a (pm_seq m)) (filter live ms)"
  by (induction ms) auto

lemma handle_ack_in_flight:
  assumes "sender_wf W s" "distinct (map pi_seq (in_flight s))"
  shows "sender_wf W (fst (handle_ack s a b acts))"
    "in_flight (fst (handle_ack s a b acts)) = filter (\<lambda>p. \<not> ack_covers a b (pi_seq p)) (in_flight s)"
proof -
  obtain ms1 f1 a1 where c: "ack_cumulative a (s_meta s) 0 acts = (ms1, f1, a1)" by (metis prod_cases3)
  obtain ms2 f2 a2 where e: "ack_selective a b [0..<16] ms1 f1 a1 = (ms2, f2, a2)" by (metis prod_cases3)
  have st: "fst (handle_ack s a b acts) = update_send_base (s\<lparr>s_meta := ms2\<rparr>)"
    by (simp add: handle_ack_def c e Let_def)
  have ms1: "ms1 = map (\<lambda>m. if live m \<and> cum_acked a (pm_seq m) then m\<lparr>pm_state := SlotEmpty\<rparr> else m) (s_meta s)"
    using ack_cumulative_slots [of a "s_meta s" 0 acts] c by simp
  have "thinned (s_meta s) ms1" unfolding ms1 thinned_def by (auto simp: list_all2_conv_all_nth)
  moreover have "thinned ms1 ms2" using ack_selective_thinned [of ms1 a b "[0..<16]" f1 a1] e by simp
  ultimately show "sender_wf W (fst (handle_ack s a b acts))"
    unfolding st using thinned_wf [OF assms(1)] thinned_trans by blast
  have ok: "pi_seq (payload_info d m) = pm_seq m" if "m \<in> set (s_meta s)" "live m" for m d
    using that assms(1) by (simp add: payload_info_def sender_wf_def SequenceCount_from_id)
  have "map pi_seq (in_flight s) = map pm_seq (filter live (s_meta s))"
    unfolding in_flight_def map_map using ok by (intro map_cong) auto
  then have dist: "distinct (map pm_seq (filter live (s_meta s)))" using assms(2) by simp
  have l1: "filter live ms1 = filter (\<lambda>m. \<not> cum_acked a (pm_seq m)) (filter live (s_meta s))"
    unfolding ms1 by (rule filter_live_cum)
  have "distinct (map pm_seq (filter live ms1))" unfolding l1 using dist by (rule distinct_map_filter)
  then have l2: "filter live ms2 = filter (\<lambda>m. \<not> ack_covers a b (pm_seq m)) (filter live (s_meta s))"
    using ack_selective_live [of ms1 a b "[0..<16]" f1 a1] e unfolding l1
    by (auto simp: ack_covers_def intro!: filter_cong)
  have "in_flight (fst (handle_ack s a b acts)) = map (payload_info (s_data s)) (filter live ms2)"
    unfolding st by (simp add: in_flight_def update_send_base_def case_prod_beta)
  also have "\<dots> = filter (\<lambda>p. \<not> ack_covers a b (pi_seq p)) (in_flight s)"
    unfolding l2 in_flight_def filter_map using ok by (intro arg_cong [where f = "map _"] filter_cong) auto
  finally show "in_flight (fst (handle_ack s a b acts)) = filter (\<lambda>p. \<not> ack_covers a b (pi_seq p)) (in_flight s)" .
qed

text \<open>
  Acknowledgements free exactly what they cover. When the packets in flight carry
  distinct sequence numbers, an acknowledgement removes precisely those at most 8190
  behind the cumulative number modulo 16384 and those named by a bit of the selective
  bitmap; every other packet stays in flight with its payload, in the same order.
\<close>

theorem ack_frees_exactly:
  assumes "sender_wf W s" "distinct (map pi_seq (in_flight s))" "unat a \<le> 16383"
    "sender_handle MTU s (AckReceived a b) acts = (s', acts', r)"
  shows "r = None \<and> sender_wf W s' \<and> in_flight s' =
    filter (\<lambda>p. \<not> ((unat a + 16384 - unat (pi_seq p)) mod 16384 < 8191
               \<or> (\<exists>k<16. bit b k \<and> pi_seq p = (a + 1 + of_nat k) AND SEQUENCE_COUNT_MAX))) (in_flight s)"
proof -
  have s': "s' = fst (handle_ack s a b acts)" "r = None"
    using assms(4) by (auto simp: sender_handle_def case_prod_beta)
  have "unat (pi_seq p) \<le> 16383" if "p \<in> set (in_flight s)" for p
    using that assms(1) by (auto simp: in_flight_def payload_info_def sender_wf_def SequenceCount_from_id)
  then show ?thesis
    using handle_ack_in_flight [OF assms(1,2)] s' cum_acked_mod [OF assms(3)]
    by (auto simp: ack_covers_def intro!: filter_cong)
qed

lemma timeout_slots_same:
  "length (fst (timeout_slots cfg q ms acts)) = length ms \<and>
   (\<forall>i<length ms. live (fst (timeout_slots cfg q ms acts) ! i) \<longrightarrow> live (ms ! i)
      \<and> pm_offset (fst (timeout_slots cfg q ms acts) ! i) = pm_offset (ms ! i)
      \<and> pm_len (fst (timeout_slots cfg q ms acts) ! i) = pm_len (ms ! i)
      \<and> pm_seq (fst (timeout_slots cfg q ms acts) ! i) = pm_seq (ms ! i))"
  by (induction ms) (auto simp: case_prod_beta Let_def live_def nth_Cons split: nat.splits)

lemma mark_slots_same:
  "length (mark_slots q ms) = length ms \<and>
   (\<forall>i<length ms. live (mark_slots q ms ! i) \<longrightarrow> live (ms ! i) \<and> pm_offset (mark_slots q ms ! i) = pm_offset (ms ! i)
      \<and> pm_len (mark_slots q ms ! i) = pm_len (ms ! i) \<and> pm_seq (mark_slots q ms ! i) = pm_seq (ms ! i))"
  by (induction ms) (auto simp: live_def nth_Cons split: nat.splits)

lemma mark_slots_info: "map (payload_info d) (filter live (mark_slots q ms)) = map (payload_info d) (filter live ms)"
  by (induction ms) (auto simp: live_def payload_info_def)

lemma timeout_slots_retry:
  assumes "find_meta ms q = Some m" "pm_state m = AwaitingAck" "pm_retransmits m < sc_max_retransmits cfg"
  shows "map (payload_info d) (filter live (fst (timeout_slots cfg q ms acts))) = map (payload_info d) (filter live ms)
    \<and> snd (timeout_slots cfg q ms acts) = (False, sender_push acts (Transmit q (sc_rto_ticks cfg)))
    \<and> find_meta (mark_slots q (fst (timeout_slots cfg q ms acts))) q = Some (m\<lparr>pm_retransmits := pm_retransmits m + 1\<rparr>)"
  using assms by (induction ms) (auto simp: case_prod_beta Let_def live_def payload_info_def not_le [symmetric] split: if_splits)

lemma timeout_slots_lose:
  assumes "find_meta ms q = Some m" "pm_state m = AwaitingAck" "sc_max_retransmits cfg \<le> pm_retransmits m"
    "distinct (map pm_seq (filter live ms))"
  shows "filter live (fst (timeout_slots cfg q ms acts)) = filter (\<lambda>m. pm_seq m \<noteq> q) (filter live ms)
    \<and> snd (timeout_slots cfg q ms acts) = (pm_segmented m, sender_push acts (PacketLost q))"
  using assms
proof (induction ms)
  case (Cons m0 ms)
  show ?case
  proof (cases "live m0 \<and> pm_seq m0 = q")
    case True
    then have "q \<notin> set (map pm_seq (filter live ms))" using Cons.prems(4) by simp
    then have "\<forall>m'\<in>set (filter live ms). pm_seq m' \<noteq> q" unfolding set_map by blast
    then have "filter (\<lambda>m. pm_seq m \<noteq> q) (filter live ms) = filter live ms" by (simp only: filter_True)
    then show ?thesis using True Cons.prems(1-3) by simp
  next
    case False
    then have "\<not> (pm_state m0 = AwaitingAck \<and> pm_seq m0 = q)" by (auto simp: live_def)
    then show ?thesis using False Cons by (auto simp: case_prod_beta Let_def split: if_splits)
  qed
qed simp

text \<open>
  C27: Retransmission is bounded. Take a packet awaiting acknowledgement, with the sequence
  numbers in flight distinct. When its timer expires and it was retransmitted fewer than
  \<open>max_retransmits\<close> times, the sender asks for one more transmission, keeps every packet in
  flight, and after the transmission the packet awaits acknowledgement again with its
  counter up by one. When the limit is reached, the packet is declared lost, its slot is
  freed, every other packet stays, and the loss of a segment is reported as the loss of
  its message.
\<close>

theorem timeout_retries_then_gives_up:
  assumes "sender_wf W s" "distinct (map pi_seq (in_flight s))" "find_meta (s_meta s) q = Some m"
    "pm_state m = AwaitingAck" "sender_handle MTU s (RetransmitTimeout q) acts = (s', acts', r)"
  shows "if pm_retransmits m < sc_max_retransmits (s_config s)
    then in_flight s' = in_flight s \<and> acts' = sender_push acts (Transmit q (sc_rto_ticks (s_config s)))
      \<and> in_flight (mark_transmitted s' q) = in_flight s
      \<and> find_meta (s_meta (mark_transmitted s' q)) q = Some (m\<lparr>pm_retransmits := pm_retransmits m + 1\<rparr>)
    else in_flight s' = filter (\<lambda>p. pi_seq p \<noteq> q) (in_flight s)
      \<and> acts' = (if pm_segmented m then sender_push (sender_push acts (PacketLost q)) MessageLost
                else sender_push acts (PacketLost q))"
proof -
  have ok: "pi_seq (payload_info d m) = pm_seq m" if "m \<in> set (s_meta s)" "live m" for m d
    using that assms(1) by (simp add: payload_info_def sender_wf_def SequenceCount_from_id)
  have "map pi_seq (in_flight s) = map pm_seq (filter live (s_meta s))"
    unfolding in_flight_def map_map using ok by (intro map_cong) auto
  then have dist: "distinct (map pm_seq (filter live (s_meta s)))" using assms(2) by simp
  obtain ms lost a where t: "timeout_slots (s_config s) q (s_meta s) acts = (ms, lost, a)" by (metis prod_cases3)
  have st: "s' = update_send_base (s\<lparr>s_meta := ms\<rparr>)" "acts' = (if lost then sender_push a MessageLost else a)"
    using assms(5) by (auto simp: sender_handle_def handle_timeout_def t Let_def)
  then have fl: "in_flight s' = map (payload_info (s_data s)) (filter live ms)" "s_meta s' = ms" "s_data s' = s_data s"
    by (simp_all add: in_flight_def update_send_base_def case_prod_beta)
  have mark: "in_flight (mark_transmitted s' q) = in_flight s'"
    by (simp add: in_flight_def mark_transmitted_def mark_slots_info)
  show ?thesis
  proof (cases "pm_retransmits m < sc_max_retransmits (s_config s)")
    case True
    then show ?thesis
      using timeout_slots_retry [OF assms(3,4) True, of "s_data s" acts] t fl st mark
      by (simp add: in_flight_def mark_transmitted_def)
  next
    case False
    then have le: "sc_max_retransmits (s_config s) \<le> pm_retransmits m" by simp
    have l: "filter live ms = filter (\<lambda>m. pm_seq m \<noteq> q) (filter live (s_meta s))" "lost = pm_segmented m"
      "a = sender_push acts (PacketLost q)"
      using timeout_slots_lose [OF assms(3,4) le dist, of acts] t by simp_all
    have "map (payload_info (s_data s)) (filter live ms) = filter (\<lambda>p. pi_seq p \<noteq> q) (in_flight s)"
      unfolding l(1) in_flight_def filter_map using ok by (intro arg_cong [where f = "map _"] filter_cong) auto
    then show ?thesis using False fl(1) st(2) l by simp
  qed
qed

lemma sender_new_wf: "sender_wf W (sender_new W config buf)"
  by (simp add: sender_wf_def sender_new_def PacketMeta_default_def live_def)

lemma sender_handle_wf: "sender_wf W s \<Longrightarrow> sender_wf W (fst (sender_handle MTU s ev acts))"
proof -
  assume wf: "sender_wf W s"
  show ?thesis
  proof (cases ev)
    case (SendRequest target data)
    then show ?thesis using wf
      by (simp add: sender_handle_def handle_send_request_def Let_def queue_packet_wf segment_loop_wf)
  next
    case (AckReceived a b)
    obtain ms1 f1 a1 where c: "ack_cumulative a (s_meta s) 0 acts = (ms1, f1, a1)" by (metis prod_cases3)
    obtain ms2 f2 a2 where e: "ack_selective a b [0..<16] ms1 f1 a1 = (ms2, f2, a2)" by (metis prod_cases3)
    have "thinned (s_meta s) ms1"
      using ack_cumulative_slots [of a "s_meta s" 0 acts] c by (auto simp: thinned_def list_all2_conv_all_nth)
    moreover have "thinned ms1 ms2" using ack_selective_thinned [of ms1 a b "[0..<16]" f1 a1] e by simp
    ultimately show ?thesis
      using thinned_wf [OF wf] thinned_trans AckReceived by (simp add: sender_handle_def handle_ack_def c e Let_def)
  next
    case (RetransmitTimeout q)
    then show ?thesis
      using same_slots_wf(1) [OF wf] timeout_slots_same [of "s_config s" q "s_meta s" acts]
      by (simp add: sender_handle_def handle_timeout_def Let_def case_prod_beta)
  next
    case (SendEos target)
    then show ?thesis using wf queue_eos_ok(1) [OF wf, of target acts]
      by (cases "queue_eos s target acts") (auto simp: sender_handle_def queue_eos_def Let_def split: option.splits)
  qed
qed

lemma mark_transmitted_wf: "sender_wf W s \<Longrightarrow> sender_wf W (mark_transmitted s q)"
  using same_slots_wf(2) [of W s] mark_slots_same [of q "s_meta s"] by (simp add: mark_transmitted_def)

lemma sender_reset_wf: "sender_wf W s \<Longrightarrow> sender_wf W (sender_reset s)"
  by (simp add: sender_reset_def sender_wf_def PacketMeta_default_def live_def)

text \<open>The life of a sender: events, transmissions reported back, and resets, in any order.\<close>

datatype sender_input = Event SenderEvent | Transmitted u16 | Reset

fun sender_step :: "nat \<Rightarrow> sender \<Rightarrow> sender_input \<Rightarrow> sender" where
  "sender_step MTU s (Event ev) = fst (sender_handle MTU s ev [])"
| "sender_step MTU s (Transmitted q) = mark_transmitted s q"
| "sender_step MTU s Reset = sender_reset s"

text \<open>
  The send buffer is never corrupted. From a new sender, after any sequence of events,
  transmissions and resets, the slots are in range of the write position and of the
  buffer, live payloads do not overlap, and all sequence numbers are 14-bit.
\<close>

theorem sender_run_wf: "sender_wf W (foldl (sender_step MTU) (sender_new W config buf) inputs)"
proof -
  have "sender_wf W s \<Longrightarrow> sender_wf W (sender_step MTU s i)" for s i
    by (cases i) (simp_all add: sender_handle_wf mark_transmitted_wf sender_reset_wf)
  then have "sender_wf W s \<Longrightarrow> sender_wf W (foldl (sender_step MTU) s inputs)" for s
    by (induction inputs arbitrary: s) auto
  then show ?thesis by (simp add: sender_new_wf)
qed

section \<open>A concrete sender\<close>

text \<open>Window 3, buffer of 8 bytes, two payload bytes per packet, one retransmission.\<close>

definition demo_sender_config :: SenderConfig where
  "demo_sender_config = \<lparr>sc_source_address = Ground 1, sc_apid = 5, sc_function_code = 0, sc_rto_ticks = 9,
     sc_max_retransmits = 1, sc_header_overhead = 4\<rparr>"

definition demo_sender :: sender where
  "demo_sender = sender_new 3 demo_sender_config (replicate 8 0)"

definition demo_sender1 :: sender where
  "demo_sender1 = fst (sender_handle 6 demo_sender (SendRequest (Ground 2) [7]) [])"

lemma replicate_three: "replicate 3 x = [x, x, x]"
  by (simp add: numeral_3_eq_3)

lemmas demo_sender_defs =
  demo_sender_def demo_sender_config_def sender_new_def sender_handle_def handle_send_request_def
  max_payload_per_packet_def queue_packet_def PacketMeta_default_def live_def available_bytes_def replicate_three Let_def
  SequenceCount_from_def SEQUENCE_COUNT_MAX_def in_flight_def payload_info_def RawAddress_from_def RawAddress_parse_def

lemma demo_sender_wf: "sender_wf 3 demo_sender"
  by (simp add: demo_sender_def sender_new_wf)

lemma demo_sender1_views:
  "sender_wf 3 demo_sender1"
  "in_flight demo_sender1 = [\<lparr>pi_seq = 0, pi_flags = Unsegmented, pi_target = Ground 2, pi_payload = [7], pi_is_eos = False\<rparr>]"
proof -
  show "sender_wf 3 demo_sender1" unfolding demo_sender1_def by (intro sender_handle_wf demo_sender_wf)
  show "in_flight demo_sender1 = [\<lparr>pi_seq = 0, pi_flags = Unsegmented, pi_target = Ground 2, pi_payload = [7], pi_is_eos = False\<rparr>]"
    by (simp add: demo_sender1_def demo_sender_defs bslice_def blit_def)
qed

theorem compact_preserves_witness:
  "sender_wf 3 demo_sender1 \<and> in_flight (compact demo_sender1) =
     [\<lparr>pi_seq = 0, pi_flags = Unsegmented, pi_target = Ground 2, pi_payload = [7], pi_is_eos = False\<rparr>]"
  using compact_preserves [OF demo_sender1_views(1)] demo_sender1_views by simp

theorem ack_frees_exactly_witness:
  "in_flight (fst (sender_handle 6 demo_sender1 (AckReceived 0 0) [])) = [] \<and> in_flight demo_sender1 \<noteq> []"
proof -
  obtain s' acts' r where h: "sender_handle 6 demo_sender1 (AckReceived 0 0) [] = (s', acts', r)" by (metis prod_cases3)
  then show ?thesis using ack_frees_exactly [OF demo_sender1_views(1) _ _ h] by (simp add: demo_sender1_views(2))
qed

theorem send_request_segments_witness:
  "\<exists>s' acts' ps. sender_handle 6 demo_sender (SendRequest (Ground 2) [1, 2, 3]) [] = (s', acts', None)
     \<and> mset (in_flight s') = mset ps \<and> concat (map pi_payload ps) = [1, 2, 3] \<and> map pi_flags ps = [First, Last]"
proof -
  obtain s' acts' where h: "sender_handle 6 demo_sender (SendRequest (Ground 2) [1, 2, 3]) [] = (s', acts', None)"
    by (simp add: demo_sender_defs segment_loop.simps)
  have fl: "in_flight demo_sender = []" by (simp add: demo_sender_defs)
  have mp: "max_payload_per_packet 6 demo_sender = 2" by (simp add: demo_sender_defs)
  then have big: "max_payload_per_packet 6 demo_sender < length [1, 2, 3 :: 8 word]" by simp
  obtain ps where ps: "mset (in_flight s') = mset ps + mset (in_flight demo_sender)" "concat (map pi_payload ps) = [1, 2, 3]"
    "map pi_flags ps = First # replicate (length ps - 2) Continuation @ [Last]"
    by (rule exE [OF send_request_segments [OF demo_sender_wf big h]], elim conjE, rule that)
  have "length (in_flight s') = 2" using h by (auto simp: demo_sender_defs segment_loop.simps)
  moreover have "length ps = length (in_flight s')" using ps(1) fl by (metis add.right_neutral mset.simps(1) size_mset)
  ultimately show ?thesis using h ps fl by auto
qed

theorem timeout_retries_then_gives_up_witness:
  "\<exists>m. find_meta (s_meta (mark_transmitted demo_sender1 0)) 0 = Some m \<and> pm_state m = AwaitingAck
     \<and> snd (sender_handle 6 (mark_transmitted demo_sender1 0) (RetransmitTimeout 0) []) = ([Transmit 0 9], None)"
proof -
  let ?s = "mark_transmitted demo_sender1 0"
  obtain m where m: "find_meta (s_meta ?s) 0 = Some m" "pm_state m = AwaitingAck" "pm_retransmits m = 0"
    by (simp add: mark_transmitted_def demo_sender1_def demo_sender_defs)
  have cfg: "s_config ?s = demo_sender_config"
    by (simp add: mark_transmitted_def demo_sender1_def demo_sender_defs)
  have wf: "sender_wf 3 ?s" using demo_sender1_views(1) by (rule mark_transmitted_wf)
  have fl: "in_flight ?s = in_flight demo_sender1" by (simp add: in_flight_def mark_transmitted_def mark_slots_info)
  obtain s' acts' r where h: "sender_handle 6 ?s (RetransmitTimeout 0) [] = (s', acts', r)" by (metis prod_cases3)
  have "r = None" using h by (auto simp: sender_handle_def case_prod_beta)
  moreover have "acts' = [Transmit 0 9]"
    using timeout_retries_then_gives_up [OF wf _ m(1,2) h] m(3) cfg
    by (simp add: fl demo_sender1_views(2) demo_sender_config_def sender_push_def SENDER_MAX_ACTIONS_def)
  ultimately show ?thesis using m h by auto
qed

end
