(* ===== verification/Rx_Base.thy ===== *)
theory Rx_Base
  imports Spp Routing
begin

text \<open>
  What the three receiver backends of SRSPP share
  (\<open>crates/leodos-protocols/src/transport/srspp/machine/receiver\<close>):

  \<^item> \<open>base.rs\<close>: the sequence tracker \<open>ReceiverBase\<close> (next expected number and bitmap of the
    packets received beyond it);
  \<^item> \<open>utils\<close>: the bit set, the slot map and the bump slab that store packets out of order;
  \<^item> \<open>mod.rs\<close>: results and errors, and \<open>AckState\<close>, which turns the outcome of an event into
    acknowledgements and timer actions;
  \<^item> the reassembly of messages, whose fields and function \<open>deliver_packet\<close> the fast and
    the packed backend have in common (the record \<open>reassembly\<close>).

  Shifts by a variable amount are those of the release profile, which masks the amount with
  the width; a slice out of range is \<open>Panics\<close>.
\<close>

section \<open>Sequence tracking\<close>

record ReceiverBase =
  rb_expected :: u16
  rb_bitmap :: u16

definition base_new :: ReceiverBase where
  "base_new = \<lparr>rb_expected = 0, rb_bitmap = 0\<rparr>"

definition base_expected_seq :: "ReceiverBase \<Rightarrow> u16" where
  "base_expected_seq b = SequenceCount_from (rb_expected b)"

definition base_distance :: "ReceiverBase \<Rightarrow> u16 \<Rightarrow> u16" where
  "base_distance b seq = (seq - rb_expected b) AND SEQUENCE_COUNT_MAX"

definition shl_u16 :: "u16 \<Rightarrow> u16" where
  "shl_u16 k = push_bit (unat k mod 16) 1"

definition is_ooo_duplicate :: "ReceiverBase \<Rightarrow> u16 \<Rightarrow> bool" where
  "is_ooo_duplicate b distance \<longleftrightarrow> rb_bitmap b AND shl_u16 (distance - 1) \<noteq> 0"

definition record_ooo :: "ReceiverBase \<Rightarrow> u16 \<Rightarrow> ReceiverBase" where
  "record_ooo b distance = b\<lparr>rb_bitmap := rb_bitmap b OR shl_u16 (distance - 1)\<rparr>"

definition base_advance :: "ReceiverBase \<Rightarrow> ReceiverBase" where
  "base_advance b =
     b\<lparr>rb_expected := (rb_expected b + 1) AND SEQUENCE_COUNT_MAX, rb_bitmap := drop_bit 1 (rb_bitmap b)\<rparr>"

section \<open>Stores for packets out of order\<close>

subsection \<open>Bit sets\<close>

type_synonym Bitset = u32

definition bs_new :: Bitset where "bs_new = 0"

definition bs_set :: "Bitset \<Rightarrow> nat \<Rightarrow> Bitset" where
  "bs_set bits i = bits OR push_bit (i mod 32) 1"

definition bs_clear :: "Bitset \<Rightarrow> nat \<Rightarrow> Bitset" where
  "bs_clear bits i = bits AND NOT (push_bit (i mod 32) 1)"

definition bs_is_set :: "Bitset \<Rightarrow> nat \<Rightarrow> bool" where
  "bs_is_set bits i \<longleftrightarrow> bits AND push_bit (i mod 32) 1 \<noteq> 0"

definition bs_any :: "nat \<Rightarrow> Bitset \<Rightarrow> bool" where
  "bs_any N bits \<longleftrightarrow> bits AND (push_bit (N mod 32) 1 - 1) \<noteq> 0"

definition bs_clear_all :: "Bitset \<Rightarrow> Bitset" where
  "bs_clear_all bits = 0"

subsection \<open>The slot map\<close>

record SlotMap =
  sm_data :: bytes
  sm_lens :: "u16 list"

definition slot_map_new :: "nat \<Rightarrow> nat \<Rightarrow> SlotMap" where
  "slot_map_new TOTAL N = \<lparr>sm_data = replicate TOTAL 0, sm_lens = replicate N 0\<rparr>"

definition slot_write :: "nat \<Rightarrow> SlotMap \<Rightarrow> nat \<Rightarrow> bytes \<Rightarrow> SlotMap outcome" where
  "slot_write SLOT sm i payload =
     (let start = i * SLOT
      in if start + length payload \<le> length (sm_data sm) \<and> i < length (sm_lens sm)
         then Returns (sm\<lparr>sm_data := blit (sm_data sm) start payload,
                          sm_lens := (sm_lens sm)[i := of_nat (length payload)]\<rparr>)
         else Panics)"

definition slot_read :: "nat \<Rightarrow> SlotMap \<Rightarrow> nat \<Rightarrow> bytes \<Rightarrow> (bytes \<times> nat) outcome" where
  "slot_read SLOT sm i dst =
     (let start = i * SLOT; len = unat (sm_lens sm ! i)
      in if i < length (sm_lens sm) \<and> len \<le> length dst \<and> start + len \<le> length (sm_data sm)
         then Returns (blit dst 0 (bslice (sm_data sm) start len), len) else Panics)"

subsection \<open>The bump slab\<close>

record BumpSlab =
  sl_data :: bytes
  sl_len :: nat

definition slab_new :: "nat \<Rightarrow> BumpSlab" where
  "slab_new N = \<lparr>sl_data = replicate N 0, sl_len = 0\<rparr>"

definition slab_alloc :: "BumpSlab \<Rightarrow> bytes \<Rightarrow> (BumpSlab \<times> nat \<times> nat) option" where
  "slab_alloc sl payload =
     (if sl_len sl + length payload > length (sl_data sl) then None
      else Some (sl\<lparr>sl_data := blit (sl_data sl) (sl_len sl) payload, sl_len := sl_len sl + length payload\<rparr>,
                 sl_len sl, length payload))"

definition slab_get :: "BumpSlab \<Rightarrow> nat \<Rightarrow> nat \<Rightarrow> bytes outcome" where
  "slab_get sl offset len =
     (if offset + len \<le> length (sl_data sl) then Returns (bslice (sl_data sl) offset len) else Panics)"

definition slab_clear :: "BumpSlab \<Rightarrow> BumpSlab" where
  "slab_clear sl = sl\<lparr>sl_len := 0\<rparr>"

section \<open>Results, errors and reassembly\<close>

datatype ReceiverError = RxBufferFull | RxMessageTooLarge | RxReassemblyError

record DataOutcome =
  do_progressed :: bool
  do_has_gap :: bool

type_synonym GapOutcome = bool

record reassembly =
  ra_buf :: bytes
  ra_len :: nat
  ra_in_progress :: bool
  ra_complete :: "nat option"

definition reassembly_new :: "nat \<Rightarrow> reassembly" where
  "reassembly_new REASM = \<lparr>ra_buf = replicate REASM 0, ra_len = 0, ra_in_progress = False, ra_complete = None\<rparr>"

definition deliver_packet :: "nat \<Rightarrow> reassembly \<Rightarrow> SequenceFlag \<Rightarrow> bytes \<Rightarrow> ReceiverError + reassembly" where
  "deliver_packet REASM R flags payload =
     (case flags of
        Unsegmented \<Rightarrow>
          if length payload > REASM then Inl RxMessageTooLarge
          else Inr (R\<lparr>ra_buf := blit (ra_buf R) 0 payload, ra_complete := Some (length payload),
                      ra_in_progress := False\<rparr>)
      | First \<Rightarrow>
          if length payload > REASM then Inl RxMessageTooLarge
          else Inr (R\<lparr>ra_buf := blit (ra_buf R) 0 payload, ra_len := length payload,
                      ra_in_progress := True, ra_complete := None\<rparr>)
      | _ \<Rightarrow>
          if \<not> ra_in_progress R then Inl RxReassemblyError
          else let new_len = ra_len R + length payload
               in if new_len > REASM then Inl RxMessageTooLarge
                  else let R = R\<lparr>ra_buf := blit (ra_buf R) (ra_len R) payload, ra_len := new_len\<rparr>
                       in if flags = Last then Inr (R\<lparr>ra_complete := Some (ra_len R), ra_in_progress := False\<rparr>)
                          else Inr R)"

text \<open>
  The guard both backends put before \<open>deliver_packet\<close>: an empty unsegmented packet (the mark
  of the end of a stream) does not overwrite a message nobody has taken yet.
\<close>

definition deliver_or_skip :: "nat \<Rightarrow> reassembly \<Rightarrow> SequenceFlag \<Rightarrow> bytes \<Rightarrow> ReceiverError + reassembly" where
  "deliver_or_skip REASM R flags payload =
     (let skip_overwrite = (payload = [] \<and> flags = Unsegmented \<and> ra_complete R \<noteq> None)
      in if \<not> skip_overwrite then deliver_packet REASM R flags payload else Inr R)"

definition reasm_abort :: "reassembly \<Rightarrow> reassembly" where
  "reasm_abort R = (if ra_in_progress R then R\<lparr>ra_len := 0, ra_in_progress := False\<rparr> else R)"

definition reasm_take :: "reassembly \<Rightarrow> reassembly \<times> bytes option" where
  "reasm_take R = (R\<lparr>ra_complete := None\<rparr>, map_option (\<lambda>len. take len (ra_buf R)) (ra_complete R))"

section \<open>Acknowledgements and timers\<close>

record AckInfo =
  ai_destination :: Address
  ai_cumulative_ack :: u16
  ai_selective_bitmap :: u16

datatype TimerAction = TimerStart u32 | TimerStop

record HandleResult =
  hr_ack :: "AckInfo option"
  hr_ack_timer :: "TimerAction option"
  hr_progress_timer :: "TimerAction option"

definition HandleResult_default :: HandleResult where
  "HandleResult_default = \<lparr>hr_ack = None, hr_ack_timer = None, hr_progress_timer = None\<rparr>"

record ReceiverConfig =
  rc_local_address :: Address
  rc_apid :: u16
  rc_function_code :: u8
  rc_immediate_ack :: bool
  rc_ack_delay_ticks :: u32
  rc_progress_timeout_ticks :: "u32 option"

record AckState =
  as_remote_address :: Address
  as_immediate_ack :: bool
  as_ack_delay_ticks :: u32
  as_progress_timeout_ticks :: "u32 option"
  as_ack_pending :: bool
  as_ack_timer_running :: bool

definition ack_state_new :: "ReceiverConfig \<Rightarrow> Address \<Rightarrow> AckState" where
  "ack_state_new config remote =
     \<lparr>as_remote_address = remote, as_immediate_ack = rc_immediate_ack config,
      as_ack_delay_ticks = rc_ack_delay_ticks config,
      as_progress_timeout_ticks = rc_progress_timeout_ticks config,
      as_ack_pending = False, as_ack_timer_running = False\<rparr>"

definition emit_ack :: "AckState \<Rightarrow> u16 \<Rightarrow> u16 \<Rightarrow> AckState \<times> HandleResult" where
  "emit_ack a seq bitmap =
     (let cumulative = (seq - 1) AND SEQUENCE_COUNT_MAX;
          ack_timer = (if as_ack_timer_running a then Some TimerStop else None)
      in (a\<lparr>as_ack_timer_running := False, as_ack_pending := False\<rparr>,
          \<lparr>hr_ack = Some \<lparr>ai_destination = as_remote_address a,
                         ai_cumulative_ack = SequenceCount_from cumulative, ai_selective_bitmap = bitmap\<rparr>,
           hr_ack_timer = ack_timer, hr_progress_timer = None\<rparr>))"

definition on_ack_timeout :: "AckState \<Rightarrow> u16 \<Rightarrow> u16 \<Rightarrow> AckState \<times> HandleResult" where
  "on_ack_timeout a seq bitmap =
     (let a = a\<lparr>as_ack_timer_running := False\<rparr>
      in if as_ack_pending a then emit_ack a seq bitmap else (a, HandleResult_default))"

definition on_data :: "AckState \<Rightarrow> DataOutcome \<Rightarrow> u16 \<Rightarrow> u16 \<Rightarrow> AckState \<times> HandleResult" where
  "on_data a outc seq bitmap =
     (let progress_timer =
            (case as_progress_timeout_ticks a of
               None \<Rightarrow> None
             | Some ticks \<Rightarrow> if do_has_gap outc then Some (TimerStart ticks)
                            else if do_progressed outc then Some TimerStop else None);
          a = a\<lparr>as_ack_pending := True\<rparr>
      in if as_immediate_ack a
         then let (a, r) = emit_ack a seq bitmap
              in (a, \<lparr>hr_ack = hr_ack r, hr_ack_timer = hr_ack_timer r, hr_progress_timer = progress_timer\<rparr>)
         else if \<not> as_ack_timer_running a
         then (a\<lparr>as_ack_timer_running := True\<rparr>,
               \<lparr>hr_ack = None, hr_ack_timer = Some (TimerStart (as_ack_delay_ticks a)),
                hr_progress_timer = progress_timer\<rparr>)
         else (a, \<lparr>hr_ack = None, hr_ack_timer = None, hr_progress_timer = progress_timer\<rparr>))"

definition on_gap_skip :: "AckState \<Rightarrow> GapOutcome \<Rightarrow> HandleResult" where
  "on_gap_skip a has_gap =
     \<lparr>hr_ack = None, hr_ack_timer = None,
      hr_progress_timer = (if \<not> has_gap then Some TimerStop
                           else map_option TimerStart (as_progress_timeout_ticks a))\<rparr>"

section \<open>Numbers modulo 16384\<close>

text \<open>\<open>seq14 n\<close> is the sequence number of the \<open>n\<close>-th packet of a stream.\<close>

definition seq14 :: "nat \<Rightarrow> u16" where
  "seq14 n = of_nat (n mod 16384)"

lemma unat_seq14 [simp]: "unat (seq14 n) = n mod 16384"
  by (simp add: seq14_def unat_of_nat)

lemma unat_and_seq_max: "unat (w AND SEQUENCE_COUNT_MAX) = unat w mod 16384"
proof -
  have "w AND SEQUENCE_COUNT_MAX = take_bit 14 w"
    by (simp add: SEQUENCE_COUNT_MAX_def take_bit_eq_mask mask_eq_exp_minus_1)
  moreover have "unat (take_bit 14 w) = unat w mod 16384"
    by (simp only: unsigned_take_bit_eq) (simp add: take_bit_eq_mod)
  ultimately show ?thesis by simp
qed

lemma and_seq_max: "w AND SEQUENCE_COUNT_MAX = seq14 (unat w)"
  by (simp add: word_unat_eq_iff unat_and_seq_max)

lemma unat_mod_16384: "unat (x :: u16) mod 16384 = unat y mod 16384 \<longleftrightarrow> seq14 (unat x) = seq14 (unat y)"
  by (simp add: word_unat_eq_iff)

lemma seq14_mod [simp]: "seq14 (n mod 16384) = seq14 n"
  by (simp add: seq14_def)

lemma seq14_unat: "unat w < 16384 \<Longrightarrow> seq14 (unat w) = w"
  by (simp add: word_unat_eq_iff)

lemma seq14_eq_iff: "seq14 m = seq14 n \<longleftrightarrow> m mod 16384 = n mod 16384"
  by (simp add: word_unat_eq_iff)

lemma seq14_add [simp]: "(seq14 n + of_nat k) AND SEQUENCE_COUNT_MAX = seq14 (n + k)"
proof -
  have "unat (seq14 n + of_nat k) mod 16384 = (n mod 16384 + k mod 65536) mod 65536 mod 16384"
    by (simp only: unat_word_ariths unat_of_nat unat_seq14) simp
  also have "\<dots> = (n mod 16384 + k mod 65536) mod 16384" by (simp add: mod_mod_cancel)
  also have "\<dots> = (n + k mod 65536 mod 16384) mod 16384" by (metis mod_add_left_eq mod_add_right_eq)
  also have "\<dots> = (n + k) mod 16384" by (simp add: mod_mod_cancel mod_add_right_eq)
  finally show ?thesis by (simp add: and_seq_max seq14_eq_iff)
qed

lemma seq14_Suc [simp]: "(seq14 n + 1) AND SEQUENCE_COUNT_MAX = seq14 (Suc n)"
  using seq14_add [of n 1] by simp

lemma advance_then_add:
  assumes "unat e < 16384"
  shows "((e + 1) AND SEQUENCE_COUNT_MAX) + of_nat k AND SEQUENCE_COUNT_MAX = (e + of_nat (Suc k)) AND SEQUENCE_COUNT_MAX"
proof -
  have "e = seq14 (unat e)" using assms by (simp add: seq14_unat)
  then show ?thesis by (metis seq14_Suc seq14_add add_Suc_shift)
qed

lemma seq14_pred: "(seq14 (Suc n) - 1) AND SEQUENCE_COUNT_MAX = seq14 n"
proof (cases "Suc (n mod 16384) = 16384")
  case True
  then have "seq14 (Suc n) = 0" by (simp add: seq14_def mod_Suc)
  then have "unat ((seq14 (Suc n) - 1) AND SEQUENCE_COUNT_MAX) = 16383" by (simp only: unat_and_seq_max) (simp add: unsigned_minus_1_eq_mask mask_eq_exp_minus_1)
  then show ?thesis using True by (simp add: word_unat_eq_iff)
next
  case False
  then have u: "unat (seq14 (Suc n)) = Suc (n mod 16384)" by (simp add: mod_Suc)
  then have "unat (seq14 (Suc n) - 1) = n mod 16384" by (subst unat_minus_one) (auto simp: word_unat_eq_iff)
  then show ?thesis by (simp add: word_unat_eq_iff unat_and_seq_max)
qed

lemma unat_distance:
  assumes "unat e < 16384" "unat q < 16384"
  shows "unat ((q - e) AND SEQUENCE_COUNT_MAX) = (unat q + 16384 - unat e) mod 16384"
proof (cases "unat e \<le> unat q")
  case True
  then have "unat (q - e) = unat q - unat e" by (simp add: unat_sub_if')
  moreover have "unat q + 16384 - unat e = unat q - unat e + 16384" using True by simp
  ultimately show ?thesis by (simp only: unat_and_seq_max mod_add_self2)
next
  case False
  then have "unat (q - e) = 65536 + unat q - unat e" using assms by (simp add: unat_sub_if')
  moreover have "65536 + unat q - unat e = unat q + 16384 - unat e + 3 * 16384" using assms by simp
  ultimately show ?thesis by (simp only: unat_and_seq_max) (metis mod_mult_self1 mult.commute)
qed

lemma add_mod_16384: "r < 16384 \<Longrightarrow> k < 16384 \<Longrightarrow> (r + k) mod 16384 = (if r + k < 16384 then r + k else r + k - 16384)"
  for r k :: nat
  by (auto simp: mod_if)

lemma distance_ahead:
  assumes "n \<le> m" "m < n + 16384"
  shows "unat ((seq14 m - seq14 n) AND SEQUENCE_COUNT_MAX) = m - n"
proof -
  define r k where "r = n mod 16384" and "k = m - n"
  have b: "r < 16384" "k < 16384" using assms by (auto simp: r_def k_def)
  have "m = n + k" using assms by (simp add: k_def)
  then have "m mod 16384 = (r + k) mod 16384" by (simp only: r_def mod_add_left_eq)
  then have "(m mod 16384 + 16384 - r) mod 16384 = k" using b by (auto simp: add_mod_16384)
  then show ?thesis using unat_distance [of "seq14 n" "seq14 m"] by (simp add: r_def k_def)
qed

lemma seq14_inj:
  assumes eq: "seq14 i = seq14 j" and near: "i < j + 16384" "j < i + 16384"
  shows "i = j"
proof (cases "i \<le> j")
  case True
  have "unat ((seq14 j - seq14 i) AND SEQUENCE_COUNT_MAX) = j - i" using True near(2) by (rule distance_ahead)
  then show ?thesis unfolding eq using True by simp
next
  case False
  then have "unat ((seq14 i - seq14 j) AND SEQUENCE_COUNT_MAX) = i - j" using near(1) by (intro distance_ahead) simp_all
  then show ?thesis unfolding eq using False by simp
qed

lemma distance_behind:
  assumes "m < n" "n < m + 16384"
  shows "unat ((seq14 m - seq14 n) AND SEQUENCE_COUNT_MAX) = 16384 - (n - m)"
proof -
  define r k where "r = m mod 16384" and "k = n - m"
  have b: "r < 16384" "k < 16384" "0 < k" using assms by (auto simp: r_def k_def)
  have "n = m + k" using assms by (simp add: k_def)
  then have "n mod 16384 = (r + k) mod 16384" by (simp only: r_def mod_add_left_eq)
  then have "r + 16384 - n mod 16384 = 16384 - k \<or> r + 16384 - n mod 16384 = 16384 - k + 16384"
    using b by (auto simp: add_mod_16384)
  then have "(r + 16384 - n mod 16384) mod 16384 = 16384 - k" using b
    by (metis mod_add_self2 mod_less diff_less zero_less_numeral)
  then show ?thesis using unat_distance [of "seq14 n" "seq14 m"] by (simp add: r_def k_def)
qed

section \<open>Laws of the stores\<close>

lemma and_push_bit_one: "k < LENGTH('a) \<Longrightarrow> (w AND push_bit k 1 \<noteq> 0) = bit w k" for w :: "'a::len word"
  by (metis and_exp_eq_0_iff_not_bit push_bit_of_1)

lemma bs_is_set_iff: "bs_is_set bits i = bit bits (i mod 32)"
  unfolding bs_is_set_def by (rule and_push_bit_one) simp

lemma bs_is_set_set: "bs_is_set (bs_set bits i) j \<longleftrightarrow> i mod 32 = j mod 32 \<or> bs_is_set bits j"
  by (auto simp: bs_is_set_iff bs_set_def bit_simps)

lemma bs_is_set_clear: "bs_is_set (bs_clear bits i) j \<longleftrightarrow> i mod 32 \<noteq> j mod 32 \<and> bs_is_set bits j"
  by (auto simp: bs_is_set_iff bs_clear_def bit_simps)

lemma bs_is_set_new [simp]: "\<not> bs_is_set bs_new i"
  by (simp add: bs_is_set_iff bs_new_def)

lemma bs_any_iff:
  assumes "N < 32"
  shows "bs_any N bits \<longleftrightarrow> (\<exists>i<N. bs_is_set bits i)"
proof -
  have m: "push_bit N 1 - 1 = (mask N :: u32)" by (simp add: mask_eq_exp_minus_1 push_bit_of_1)
  have "(bits AND mask N = 0) \<longleftrightarrow> (\<forall>i<N. \<not> bit bits i)"
    using assms by (auto simp: bit_eq_iff bit_simps) (meson less_trans)
  then have "bs_any N bits \<longleftrightarrow> (\<exists>i<N. bit bits i)" using assms m by (simp only: bs_any_def mod_less) simp
  also have "\<dots> \<longleftrightarrow> (\<exists>i<N. bs_is_set bits i)" using assms by (auto simp: bs_is_set_iff)
  finally show ?thesis .
qed

lemma is_ooo_duplicate_iff:
  assumes "0 < unat d" "unat d \<le> 16"
  shows "is_ooo_duplicate b d = bit (rb_bitmap b) (unat d - 1)"
proof -
  have "unat (d - 1) = unat d - 1" using assms by (subst unat_minus_one) (auto simp: word_unat_eq_iff)
  then show ?thesis using assms by (simp only: is_ooo_duplicate_def shl_u16_def) (subst and_push_bit_one, auto)
qed

lemma record_ooo_bit:
  assumes "0 < unat d" "unat d \<le> 16"
  shows "bit (rb_bitmap (record_ooo b d)) k \<longleftrightarrow> k = unat d - 1 \<or> bit (rb_bitmap b) k"
proof -
  have "unat (d - 1) = unat d - 1" using assms by (subst unat_minus_one) (auto simp: word_unat_eq_iff)
  then show ?thesis using assms by (auto simp: record_ooo_def shl_u16_def bit_simps)
qed

lemma record_ooo_expected [simp]: "rb_expected (record_ooo b d) = rb_expected b"
  by (simp add: record_ooo_def)

lemma base_advance_simps [simp]:
  "rb_expected (base_advance b) = (rb_expected b + 1) AND SEQUENCE_COUNT_MAX"
  "bit (rb_bitmap (base_advance b)) k = bit (rb_bitmap b) (Suc k)"
  by (simp_all add: base_advance_def bit_simps)

end
