(* ===== verification/Rx_Spec.thy ===== *)
theory Rx_Spec
  imports Rx_Base
begin

text \<open>
  What a receiver backend of SRSPP promises (the trait \<open>ReceiverBackend\<close> of
  \<open>receiver/mod.rs\<close>): an abstract receiver that keeps the packets received out of order in a
  window indexed by the distance from the next expected number, and hands packets to the
  reassembly strictly in order. The locale \<open>receiver_backend\<close> states that a backend refines
  the abstract receiver on every call it admits; what clients rely on is proved from it once,
  for every backend.
\<close>

section \<open>The abstract receiver\<close>

type_synonym rx_packet = "SequenceFlag \<times> bytes"

record rx_spec =
  sp_expected :: u16
  sp_window :: "rx_packet option list"
  sp_reasm :: reassembly

definition spec_new :: "nat \<Rightarrow> nat \<Rightarrow> rx_spec" where
  "spec_new WIN REASM = \<lparr>sp_expected = 0, sp_window = replicate WIN None, sp_reasm = reassembly_new REASM\<rparr>"

text \<open>
  \<open>run_window\<close> delivers the packets at the front of the window. It returns the rest of the
  window, the number of packets delivered and the error that stopped it, if one did; the
  packet that caused the error is dropped.
\<close>

fun run_window ::
  "nat \<Rightarrow> reassembly \<Rightarrow> rx_packet option list \<Rightarrow> reassembly \<times> rx_packet option list \<times> nat \<times> ReceiverError option" where
  "run_window REASM R (Some p # w) =
     (case deliver_or_skip REASM R (fst p) (snd p) of
        Inl e \<Rightarrow> (R, None # w, 0, Some e)
      | Inr R' \<Rightarrow> let (R'', w', k, e) = run_window REASM R' w in (R'', w', Suc k, e))"
| "run_window REASM R (None # w) = (R, None # w, 0, None)"
| "run_window REASM R [] = (R, [], 0, None)"

definition pad_window :: "nat \<Rightarrow> rx_packet option list \<Rightarrow> rx_packet option list" where
  "pad_window N w = w @ replicate (N - length w) None"

definition spec_has_gap :: "rx_spec \<Rightarrow> bool" where
  "spec_has_gap s \<longleftrightarrow> (\<exists>x\<in>set (sp_window s). x \<noteq> None)"

definition spec_advance :: "nat \<Rightarrow> rx_spec \<Rightarrow> rx_spec \<times> ReceiverError option" where
  "spec_advance REASM s =
     (let (R, w, k, e) = run_window REASM (sp_reasm s) (tl (sp_window s))
      in (s\<lparr>sp_expected := (sp_expected s + of_nat (Suc k)) AND SEQUENCE_COUNT_MAX,
            sp_window := pad_window (length (sp_window s)) w, sp_reasm := R\<rparr>, e))"

definition spec_outcome :: "rx_spec \<Rightarrow> rx_spec \<Rightarrow> ReceiverError option \<Rightarrow> ReceiverError + DataOutcome" where
  "spec_outcome s s' e =
     (case e of Some e \<Rightarrow> Inl e
      | None \<Rightarrow> Inr \<lparr>do_progressed = (sp_expected s' \<noteq> sp_expected s), do_has_gap = spec_has_gap s'\<rparr>)"

definition spec_handle_data ::
  "nat \<Rightarrow> rx_spec \<Rightarrow> u16 \<Rightarrow> SequenceFlag \<Rightarrow> bytes \<Rightarrow> rx_spec \<times> (ReceiverError + DataOutcome)" where
  "spec_handle_data REASM s seq flags payload =
     (let d = unat ((seq - sp_expected s) AND SEQUENCE_COUNT_MAX)
      in if d = 0
         then case deliver_or_skip REASM (sp_reasm s) flags payload of
                Inl e \<Rightarrow> (s, Inl e)
              | Inr R \<Rightarrow> let (s', e) = spec_advance REASM (s\<lparr>sp_reasm := R\<rparr>) in (s', spec_outcome s s' e)
         else let s' = (if d < length (sp_window s) \<and> sp_window s ! d = None
                        then s\<lparr>sp_window := (sp_window s)[d := Some (flags, payload)]\<rparr> else s)
              in (s', spec_outcome s s' None))"

definition spec_skip_gap :: "nat \<Rightarrow> rx_spec \<Rightarrow> rx_spec \<times> (ReceiverError + GapOutcome)" where
  "spec_skip_gap REASM s =
     (let (s', e) = spec_advance REASM (s\<lparr>sp_reasm := reasm_abort (sp_reasm s)\<rparr>)
      in (s', case e of Some e \<Rightarrow> Inl e | None \<Rightarrow> Inr (spec_has_gap s')))"

definition spec_take :: "rx_spec \<Rightarrow> rx_spec \<times> bytes option" where
  "spec_take s = (s\<lparr>sp_reasm := fst (reasm_take (sp_reasm s))\<rparr>, snd (reasm_take (sp_reasm s)))"

section \<open>Runs of a receiver\<close>

text \<open>
  A stream is a sequence \<open>f\<close> of packets; the network may lose, reorder and duplicate them.
  \<open>Arrive i\<close> is the arrival of the \<open>i\<close>-th packet, \<open>Skip\<close> the expiry of the progress timer,
  \<open>Take\<close> the application taking the complete message. \<open>n\<close> counts the packets passed by
  the receiver. An arrival counts only while its number is not ambiguous: less than
  \<open>16384 - W\<close> behind and less than 16384 ahead of the next expected packet.
\<close>

datatype rx_input = Arrive nat | Skip | Take

definition rx_moved :: "u16 \<Rightarrow> u16 \<Rightarrow> nat" where
  "rx_moved e e' = unat ((e' - e) AND SEQUENCE_COUNT_MAX)"

fun rx_feed ::
  "('r \<Rightarrow> u16 \<Rightarrow> SequenceFlag \<Rightarrow> bytes \<Rightarrow> ('r \<times> (ReceiverError + DataOutcome)) outcome) \<Rightarrow>
   ('r \<Rightarrow> ('r \<times> (ReceiverError + GapOutcome)) outcome) \<Rightarrow> ('r \<Rightarrow> 'r \<times> bytes option) \<Rightarrow> ('r \<Rightarrow> u16) \<Rightarrow>
   ('r \<Rightarrow> u16 \<Rightarrow> SequenceFlag \<Rightarrow> bytes \<Rightarrow> bool) \<Rightarrow> ('r \<Rightarrow> bool) \<Rightarrow>
   nat \<Rightarrow> (nat \<Rightarrow> rx_packet) \<Rightarrow> nat \<Rightarrow> 'r \<Rightarrow> rx_input list \<Rightarrow> (nat \<times> 'r \<times> bytes list) outcome" where
  "rx_feed hnd sk tk ex ok oks W f n r [] = Returns (n, r, [])"
| "rx_feed hnd sk tk ex ok oks W f n r (Arrive i # ins) =
     (if n + W \<le> i + 16384 \<and> i < n + 16384 \<and> ok r (seq14 i) (fst (f i)) (snd (f i))
      then case hnd r (seq14 i) (fst (f i)) (snd (f i)) of
             Panics \<Rightarrow> Panics
           | Returns (r', res) \<Rightarrow> rx_feed hnd sk tk ex ok oks W f (n + rx_moved (ex r) (ex r')) r' ins
      else rx_feed hnd sk tk ex ok oks W f n r ins)"
| "rx_feed hnd sk tk ex ok oks W f n r (Skip # ins) =
     (if oks r
      then case sk r of
             Panics \<Rightarrow> Panics
           | Returns (r', res) \<Rightarrow> rx_feed hnd sk tk ex ok oks W f (n + rx_moved (ex r) (ex r')) r' ins
      else rx_feed hnd sk tk ex ok oks W f n r ins)"
| "rx_feed hnd sk tk ex ok oks W f n r (Take # ins) =
     (let (r', m) = tk r
      in case rx_feed hnd sk tk ex ok oks W f n r' ins of
           Panics \<Rightarrow> Panics
         | Returns (n', r'', ms) \<Rightarrow> Returns (n', r'', case m of None \<Rightarrow> ms | Some x \<Rightarrow> x # ms))"

text \<open>
  The messages of a stream: one unsegmented packet, or a first segment, continuations and
  a last segment. \<open>in_order_messages f lo hi ms\<close>: the list \<open>ms\<close> is made of messages of the
  stream between positions \<open>lo\<close> and \<open>hi\<close>, each at most once and in the order of the stream.
\<close>

definition stream_bytes :: "(nat \<Rightarrow> rx_packet) \<Rightarrow> nat \<Rightarrow> nat \<Rightarrow> bytes" where
  "stream_bytes f i j = concat (map (\<lambda>k. snd (f k)) [i..<j])"

definition message_span :: "(nat \<Rightarrow> rx_packet) \<Rightarrow> nat \<Rightarrow> nat \<Rightarrow> bool" where
  "message_span f i j \<longleftrightarrow>
     j = Suc i \<and> fst (f i) = Unsegmented \<or>
     Suc i < j \<and> fst (f i) = First \<and> (\<forall>k. i < k \<and> Suc k < j \<longrightarrow> fst (f k) = Continuation) \<and> fst (f (j - 1)) = Last"

fun in_order_messages :: "(nat \<Rightarrow> rx_packet) \<Rightarrow> nat \<Rightarrow> nat \<Rightarrow> bytes list \<Rightarrow> bool" where
  "in_order_messages f lo hi [] \<longleftrightarrow> lo \<le> hi"
| "in_order_messages f lo hi (m # ms) \<longleftrightarrow>
     (\<exists>i j. lo \<le> i \<and> message_span f i j \<and> m = stream_bytes f i j \<and> in_order_messages f j hi ms)"

section \<open>Reassembly stays on the stream\<close>

definition partial_span :: "(nat \<Rightarrow> rx_packet) \<Rightarrow> nat \<Rightarrow> nat \<Rightarrow> bool" where
  "partial_span f i n \<longleftrightarrow> i < n \<and> fst (f i) = First \<and> (\<forall>k. i < k \<and> k < n \<longrightarrow> fst (f k) = Continuation)"

definition ra_inv :: "nat \<Rightarrow> (nat \<Rightarrow> rx_packet) \<Rightarrow> nat \<Rightarrow> nat \<Rightarrow> reassembly \<Rightarrow> bool" where
  "ra_inv REASM f lo n R \<longleftrightarrow>
     length (ra_buf R) = REASM \<and> ra_len R \<le> REASM \<and> lo \<le> n \<and>
     (ra_in_progress R \<longrightarrow> ra_complete R = None \<and>
        (\<exists>i. lo \<le> i \<and> partial_span f i n \<and> take (ra_len R) (ra_buf R) = stream_bytes f i n)) \<and>
     (\<forall>len. ra_complete R = Some len \<longrightarrow> len \<le> REASM \<and>
        (\<exists>i j. lo \<le> i \<and> j \<le> n \<and> message_span f i j \<and> take len (ra_buf R) = stream_bytes f i j))"

lemma stream_bytes_Suc: "i \<le> n \<Longrightarrow> stream_bytes f i (Suc n) = stream_bytes f i n @ snd (f n)"
  by (simp add: stream_bytes_def)

lemma stream_bytes_one: "stream_bytes f i (Suc i) = snd (f i)"
  by (simp add: stream_bytes_def)

lemma take_blit_here: "off \<le> length buf \<Longrightarrow> take (off + length src) (blit buf off src) = take off buf @ src"
  by (simp add: blit_def min_def)

lemma ra_inv_later: "ra_inv REASM f lo n R \<Longrightarrow> \<not> ra_in_progress R \<Longrightarrow> ra_inv REASM f lo (Suc n) R"
  unfolding ra_inv_def by (meson le_SucI)

lemma deliver_packet_inv:
  assumes "ra_inv REASM f lo n R" "deliver_packet REASM R (fst (f n)) (snd (f n)) = Inr R'"
  shows "ra_inv REASM f lo (Suc n) R'"
proof -
  let ?p = "snd (f n)"
  have R: "length (ra_buf R) = REASM" "ra_len R \<le> REASM" "lo \<le> n" using assms(1) by (simp_all add: ra_inv_def)
  have whole: "take (length ?p) (blit (ra_buf R) 0 ?p) = ?p" by (simp add: blit_def)
  show ?thesis
  proof (cases "fst (f n) = Unsegmented \<or> fst (f n) = First")
    case True
    then have *: "length ?p \<le> REASM" using assms(2) by (auto simp: deliver_packet_def split: if_splits)
    show ?thesis
    proof (cases "fst (f n) = First")
      case First: True
      then have "partial_span f n (Suc n)" by (auto simp: partial_span_def)
      then show ?thesis using assms(2) First R * whole
        by (auto simp: deliver_packet_def ra_inv_def stream_bytes_one intro!: exI [of _ n])
    next
      case False
      then have "fst (f n) = Unsegmented" "message_span f n (Suc n)" using True by (auto simp: message_span_def)
      moreover from this have "\<exists>i j. lo \<le> i \<and> j \<le> Suc n \<and> message_span f i j \<and> ?p = stream_bytes f i j"
        using R(3) stream_bytes_one by (metis order_refl)
      moreover have "R' = R\<lparr>ra_buf := blit (ra_buf R) 0 ?p, ra_complete := Some (length ?p), ra_in_progress := False\<rparr>"
        using calculation(1) assms(2) * by (simp add: deliver_packet_def)
      ultimately show ?thesis using R * whole by (simp add: ra_inv_def)
    qed
  next
    case False
    then have fl: "fst (f n) = Continuation \<or> fst (f n) = Last" by (cases "fst (f n)") auto
    then have ip: "ra_in_progress R" and fits: "ra_len R + length ?p \<le> REASM"
      using assms(2) by (auto simp: deliver_packet_def Let_def split: if_splits)
    then obtain i where i: "lo \<le> i" "partial_span f i n" "take (ra_len R) (ra_buf R) = stream_bytes f i n"
      and c: "ra_complete R = None" using assms(1) by (auto simp: ra_inv_def)
    have bytes: "take (ra_len R + length ?p) (blit (ra_buf R) (ra_len R) ?p) = stream_bytes f i (Suc n)"
      using i R by (simp add: take_blit_here stream_bytes_Suc partial_span_def)
    show ?thesis
    proof (cases "fst (f n) = Last")
      case True
      then have "message_span f i (Suc n)" using i(2) by (auto simp: message_span_def partial_span_def)
      then show ?thesis using assms(2) True ip fits R i(1) bytes
        by (auto simp: deliver_packet_def ra_inv_def Let_def) blast
    next
      case False
      then have "partial_span f i (Suc n)" using i(2) fl by (auto simp: partial_span_def less_Suc_eq)
      then show ?thesis using assms(2) fl False ip fits R i(1) bytes c by (auto simp: deliver_packet_def ra_inv_def Let_def)
    qed
  qed
qed

lemma deliver_or_skip_inv:
  assumes "ra_inv REASM f lo n R" "deliver_or_skip REASM R (fst (f n)) (snd (f n)) = Inr R'"
  shows "ra_inv REASM f lo (Suc n) R'"
proof (cases "snd (f n) = [] \<and> fst (f n) = Unsegmented \<and> ra_complete R \<noteq> None")
  case True
  then have "R' = R" "\<not> ra_in_progress R" using assms by (auto simp: deliver_or_skip_def ra_inv_def)
  then show ?thesis using ra_inv_later assms(1) by blast
next
  case False
  then show ?thesis using assms deliver_packet_inv by (auto simp: deliver_or_skip_def Let_def)
qed

lemma reasm_abort_inv: "ra_inv REASM f lo n R \<Longrightarrow> ra_inv REASM f lo (Suc n) (reasm_abort R)"
  by (rule ra_inv_later) (auto simp: ra_inv_def reasm_abort_def)

lemma reasm_take_inv:
  assumes "ra_inv REASM f lo n R"
  shows "\<exists>lo'. ra_inv REASM f lo' n (fst (reasm_take R)) \<and>
    (case snd (reasm_take R) of None \<Rightarrow> lo' = lo
     | Some m \<Rightarrow> \<exists>i. lo \<le> i \<and> message_span f i lo' \<and> m = stream_bytes f i lo')"
proof (cases "ra_complete R")
  case None
  then show ?thesis using assms by (auto simp: reasm_take_def ra_inv_def)
next
  case (Some len)
  then obtain i j where "lo \<le> i" "j \<le> n" "message_span f i j" "take len (ra_buf R) = stream_bytes f i j" "\<not> ra_in_progress R"
    using assms by (auto simp: ra_inv_def)
  then show ?thesis using assms Some by (auto simp: reasm_take_def ra_inv_def)
qed

section \<open>Every run of the abstract receiver stays on the stream\<close>

definition on_stream :: "(nat \<Rightarrow> rx_packet) \<Rightarrow> nat \<Rightarrow> rx_packet option list \<Rightarrow> bool" where
  "on_stream f n w \<longleftrightarrow> (\<forall>d<length w. \<forall>p. w ! d = Some p \<longrightarrow> p = f (n + d))"

definition spec_inv :: "nat \<Rightarrow> nat \<Rightarrow> (nat \<Rightarrow> rx_packet) \<Rightarrow> nat \<Rightarrow> nat \<Rightarrow> rx_spec \<Rightarrow> bool" where
  "spec_inv WIN REASM f lo n s \<longleftrightarrow>
     sp_expected s = seq14 n \<and> length (sp_window s) = WIN \<and> on_stream f n (sp_window s) \<and>
     ra_inv REASM f lo n (sp_reasm s)"

lemma on_stream_Cons: "on_stream f n (x # w) \<longleftrightarrow> (\<forall>p. x = Some p \<longrightarrow> p = f n) \<and> on_stream f (Suc n) w"
  by (auto simp: on_stream_def nth_Cons split: nat.splits)

lemma on_stream_update: "on_stream f n w \<Longrightarrow> on_stream f n (w[d := Some (f (n + d))])"
  by (cases "d < length w") (auto simp: on_stream_def nth_list_update)

lemma on_stream_pad [simp]: "on_stream f n (pad_window N w) \<longleftrightarrow> on_stream f n w"
  by (auto simp: on_stream_def pad_window_def nth_append)

lemma length_pad_window [simp]: "length w \<le> N \<Longrightarrow> length (pad_window N w) = N"
  by (simp add: pad_window_def)

lemma run_window_length:
  "run_window REASM R w = (R', w', k, e) \<Longrightarrow> length w' + k = length w"
  by (induction REASM R w arbitrary: R' w' k e rule: run_window.induct) (auto split: sum.splits prod.splits)

lemma run_window_inv:
  "ra_inv REASM f lo n R \<Longrightarrow> on_stream f n w \<Longrightarrow> run_window REASM R w = (R', w', k, e)
    \<Longrightarrow> ra_inv REASM f lo (n + k) R' \<and> on_stream f (n + k) w'"
proof (induction REASM R w arbitrary: n R' w' k e rule: run_window.induct)
  case (1 REASM R p w)
  have p: "p = f n" and w: "on_stream f (Suc n) w" using "1.prems"(2) by (auto simp: on_stream_Cons)
  show ?case
  proof (cases "deliver_or_skip REASM R (fst p) (snd p)")
    case (Inl e')
    then show ?thesis using "1.prems" w by (auto simp: on_stream_Cons)
  next
    case (Inr R1)
    obtain R2 w2 k2 e2 where r: "run_window REASM R1 w = (R2, w2, k2, e2)" by (metis prod_cases4)
    have "ra_inv REASM f lo (Suc n) R1" using deliver_or_skip_inv "1.prems"(1) Inr p by blast
    then show ?thesis using "1.IH" [OF Inr _ w r] "1.prems"(3) Inr r by auto
  qed
qed (auto simp: on_stream_def)

lemma spec_advance_inv:
  assumes "sp_expected s = seq14 n" "length (sp_window s) = WIN" "0 < WIN" "on_stream f n (sp_window s)"
    "ra_inv REASM f lo (Suc n) (sp_reasm s)" "spec_advance REASM s = (s', e)"
  shows "\<exists>k<WIN. spec_inv WIN REASM f lo (n + Suc k) s'"
proof -
  obtain R w k e' where r: "run_window REASM (sp_reasm s) (tl (sp_window s)) = (R, w, k, e')" by (metis prod_cases4)
  have "on_stream f (Suc n) (tl (sp_window s))"
    using assms(2,3,4) by (cases "sp_window s") (auto simp: on_stream_Cons)
  from run_window_inv [OF assms(5) this r] run_window_length [OF r]
  have "ra_inv REASM f lo (Suc n + k) R" "on_stream f (Suc n + k) w" "length w + k = WIN - 1" using assms(2) by auto
  moreover have "s' = s\<lparr>sp_expected := seq14 (n + Suc k), sp_window := pad_window WIN w, sp_reasm := R\<rparr>"
    using assms(1,2,6) r by (simp add: spec_advance_def seq14_add [of n "Suc k", simplified])
  ultimately show ?thesis using assms(3) by (auto simp: spec_inv_def intro!: exI [of _ k])
qed

lemma spec_handle_data_inv:
  assumes "spec_inv WIN REASM f lo n s" "0 < WIN" "WIN < 16384" "n + WIN \<le> i + 16384" "i < n + 16384"
    "spec_handle_data REASM s (seq14 i) (fst (f i)) (snd (f i)) = (s', res)"
  shows "\<exists>k\<le>WIN. spec_inv WIN REASM f lo (n + k) s'"
proof -
  let ?d = "unat ((seq14 i - seq14 n) AND SEQUENCE_COUNT_MAX)"
  have s: "sp_expected s = seq14 n" "length (sp_window s) = WIN" "on_stream f n (sp_window s)" "ra_inv REASM f lo n (sp_reasm s)"
    using assms(1) by (auto simp: spec_inv_def)
  have d: "?d < WIN \<Longrightarrow> i = n + ?d"
    using distance_ahead [of n i] distance_behind [of i n] assms(2-5) by (cases "n \<le> i") auto
  show ?thesis
  proof (cases "?d = 0")
    case True
    then have i: "i = n" using d assms(2) by simp
    show ?thesis
    proof (cases "deliver_or_skip REASM (sp_reasm s) (fst (f n)) (snd (f n))")
      case (Inl e)
      then show ?thesis using assms(1,6) True s(1) i by (auto simp: spec_handle_data_def intro!: exI [of _ 0])
    next
      case (Inr R)
      obtain s1 e where a: "spec_advance REASM (s\<lparr>sp_reasm := R\<rparr>) = (s1, e)" by (meson surj_pair)
      have "ra_inv REASM f lo (Suc n) R" using deliver_or_skip_inv s(4) Inr by blast
      then obtain k where "k < WIN" "spec_inv WIN REASM f lo (n + Suc k) s1"
        using spec_advance_inv [OF _ _ assms(2) _ _ a, of n f lo] s by auto
      moreover have "s' = s1" using assms(6) True s(1) i Inr a by (simp add: spec_handle_data_def)
      ultimately show ?thesis by (auto intro!: exI [of _ "Suc k"])
    qed
  next
    case False
    have "on_stream f n ((sp_window s)[?d := Some (fst (f i), snd (f i))])" if "?d < WIN"
      using on_stream_update [OF s(3), of ?d] d [OF that] by simp
    then show ?thesis using assms(1,6) False s by (auto simp: spec_handle_data_def spec_inv_def Let_def intro!: exI [of _ 0])
  qed
qed

lemma spec_skip_gap_inv:
  assumes "spec_inv WIN REASM f lo n s" "0 < WIN" "spec_skip_gap REASM s = (s', res)"
  shows "\<exists>k\<le>WIN. spec_inv WIN REASM f lo (n + k) s'"
proof -
  obtain s1 e where a: "spec_advance REASM (s\<lparr>sp_reasm := reasm_abort (sp_reasm s)\<rparr>) = (s1, e)" by (meson surj_pair)
  have "\<exists>k<WIN. spec_inv WIN REASM f lo (n + Suc k) s1"
    using assms(1) by (intro spec_advance_inv [OF _ _ assms(2) _ _ a]) (auto simp: spec_inv_def reasm_abort_inv)
  moreover have "s' = s1" using assms(3) a by (simp add: spec_skip_gap_def)
  ultimately show ?thesis by (metis Suc_leI)
qed

lemma spec_new_inv: "spec_inv WIN REASM f 0 0 (spec_new WIN REASM)"
  by (simp add: spec_inv_def spec_new_def on_stream_def ra_inv_def reassembly_new_def seq14_def)

lemma rx_moved_seq14: "k < 16384 \<Longrightarrow> rx_moved (seq14 n) (seq14 (n + k)) = k"
  unfolding rx_moved_def by (subst distance_ahead) auto

section \<open>Windows over a ring of slots\<close>

text \<open>
  The fast and the packed backend keep the packet with number \<open>seq\<close> in slot \<open>seq % WIN\<close>.
  \<open>ring_window\<close> reads such a store as a window: entry \<open>d\<close> is the slot of the number \<open>d\<close>
  after the expected one.
\<close>

definition ring_size :: "nat \<Rightarrow> bool" where
  "ring_size WIN \<longleftrightarrow> 0 < WIN \<and> WIN \<le> 16 \<and> WIN dvd 16384"

definition ring_window :: "nat \<Rightarrow> (nat \<Rightarrow> 'p option) \<Rightarrow> u16 \<Rightarrow> 'p option list" where
  "ring_window WIN st e = map (\<lambda>d. st ((unat e + d) mod WIN)) [0..<WIN]"

definition bitmap_ok :: "u16 \<Rightarrow> 'p option list \<Rightarrow> bool" where
  "bitmap_ok b w \<longleftrightarrow> (\<forall>k. bit b k \<longleftrightarrow> Suc k < length w \<and> w ! Suc k \<noteq> None)"

lemma length_ring_window [simp]: "length (ring_window WIN st e) = WIN"
  by (simp add: ring_window_def)

lemma ring_window_nth: "d < WIN \<Longrightarrow> ring_window WIN st e ! d = st ((unat e + d) mod WIN)"
  by (simp add: ring_window_def)

lemma bs_same: "ring_size WIN \<Longrightarrow> i < WIN \<Longrightarrow> j < WIN \<Longrightarrow> i mod 32 = j mod 32 \<longleftrightarrow> i = j"
  by (simp add: ring_size_def)

lemma mod_WIN_inj:
  fixes e d d' WIN :: nat
  assumes "d < WIN" "d' < WIN" "(e + d) mod WIN = (e + d') mod WIN"
  shows "d = d'"
proof -
  have aux: "x = y" if "x \<le> y" "y < WIN" "(e + y) mod WIN = (e + x) mod WIN" for x y
  proof -
    have "WIN dvd y - x" using that(1,3) mod_eq_dvd_iff_nat [of "e + x" "e + y" WIN] by simp
    moreover have "y - x < WIN" using that(2) by simp
    ultimately have "y - x = 0" by (meson nat_dvd_not_less not_gr0)
    then show ?thesis using that(1) by simp
  qed
  show ?thesis using aux [of d d'] aux [of d' d] assms by (metis nat_le_linear)
qed

lemma ring_index:
  assumes "ring_size WIN" "unat e < 16384" "unat q < 16384"
  shows "unat q mod WIN = (unat e + unat ((q - e) AND SEQUENCE_COUNT_MAX)) mod WIN"
proof -
  have "(unat e + unat ((q - e) AND SEQUENCE_COUNT_MAX)) mod 16384 = (unat e + (unat q + 16384 - unat e)) mod 16384"
    using assms(2,3) by (simp only: unat_distance mod_add_right_eq)
  also have "\<dots> = unat q" using assms(2,3) by simp
  finally have "unat q mod WIN = (unat e + unat ((q - e) AND SEQUENCE_COUNT_MAX)) mod 16384 mod WIN" by simp
  then show ?thesis using assms(1) by (simp only: mod_mod_cancel ring_size_def)
qed

lemma ring_index_Suc:
  assumes "ring_size WIN" "unat e < 16384"
  shows "(unat ((e + 1) AND SEQUENCE_COUNT_MAX) + d) mod WIN = (unat e + Suc d) mod WIN"
proof -
  have "unat ((e + 1) AND SEQUENCE_COUNT_MAX) = Suc (unat e) mod 16384"
    using seq14_Suc [of "unat e"] assms(2) by (simp add: seq14_unat)
  then have "(unat ((e + 1) AND SEQUENCE_COUNT_MAX) + d) mod WIN = (Suc (unat e) mod 16384 mod WIN + d) mod WIN"
    by (simp add: mod_add_left_eq)
  also have "\<dots> = (Suc (unat e) + d) mod WIN" using assms(1) by (simp add: ring_size_def mod_mod_cancel mod_add_left_eq)
  finally show ?thesis by simp
qed

text \<open>Advancing past an empty slot rotates the window; changing one slot changes one entry.\<close>

lemma ring_window_advance:
  assumes "ring_size WIN" "unat e < 16384" "ring_window WIN st e ! 0 = None"
  shows "ring_window WIN st ((e + 1) AND SEQUENCE_COUNT_MAX) = tl (ring_window WIN st e) @ [None]"
proof (rule nth_equalityI)
  have W: "0 < WIN" using assms(1) by (simp add: ring_size_def)
  show "length (ring_window WIN st ((e + 1) AND SEQUENCE_COUNT_MAX)) = length (tl (ring_window WIN st e) @ [None])" using W by simp
  fix d assume "d < length (ring_window WIN st ((e + 1) AND SEQUENCE_COUNT_MAX))"
  then have d: "d < WIN" by simp
  have "ring_window WIN st ((e + 1) AND SEQUENCE_COUNT_MAX) ! d = st ((unat e + Suc d) mod WIN)"
    using d ring_index_Suc [OF assms(1,2)] by (simp add: ring_window_nth)
  moreover have "(unat e + Suc d) mod WIN = unat e mod WIN" if "Suc d = WIN" using that by (metis mod_add_self2)
  ultimately show "ring_window WIN st ((e + 1) AND SEQUENCE_COUNT_MAX) ! d = (tl (ring_window WIN st e) @ [None]) ! d"
    using d assms(3) W by (cases "Suc d = WIN") (auto simp: nth_append nth_tl ring_window_nth)
qed

lemma ring_window_update:
  assumes "d < WIN" "\<And>j. j < WIN \<Longrightarrow> st' j = (if j = (unat e + d) mod WIN then x else st j)"
  shows "ring_window WIN st' e = (ring_window WIN st e)[d := x]"
proof (rule nth_equalityI)
  fix d' assume "d' < length (ring_window WIN st' e)"
  then have d': "d' < WIN" by simp
  then show "ring_window WIN st' e ! d' = (ring_window WIN st e)[d := x] ! d'"
    using assms(2) [of "(unat e + d') mod WIN"] mod_WIN_inj [OF d' assms(1), of "unat e"] assms(1)
    by (auto simp: ring_window_nth nth_list_update)
qed simp

lemma ring_window_any:
  assumes "ring_size WIN"
  shows "(\<exists>x\<in>set (ring_window WIN st e). x \<noteq> None) \<longleftrightarrow> (\<exists>i<WIN. st i \<noteq> None)"
proof -
  have W: "0 < WIN" using assms by (simp add: ring_size_def)
  have onto: "\<exists>d<WIN. i = (unat e + d) mod WIN" if "i < WIN" for i
  proof -
    let ?d = "(i + (WIN - unat e mod WIN)) mod WIN"
    have "(unat e + ?d) mod WIN = (unat e mod WIN + (i + (WIN - unat e mod WIN))) mod WIN"
      by (metis mod_add_left_eq mod_add_right_eq)
    also have "unat e mod WIN + (i + (WIN - unat e mod WIN)) = i + WIN" using mod_less_divisor [OF W, of "unat e"] by linarith
    finally have "(unat e + ?d) mod WIN = i" using that by simp
    then show ?thesis using W mod_less_divisor by metis
  qed
  have "(\<exists>i<WIN. st i \<noteq> None) \<longleftrightarrow> (\<exists>d<WIN. st ((unat e + d) mod WIN) \<noteq> None)"
    using onto W by (metis mod_less_divisor)
  then show ?thesis by (simp add: ring_window_def Bex_def)
qed

lemma bitmap_ok_advance:
  assumes "bitmap_ok b w"
  shows "bitmap_ok (drop_bit 1 b) (tl w @ [None])"
  unfolding bitmap_ok_def
proof
  fix k
  have "bit (drop_bit 1 b) k \<longleftrightarrow> Suc (Suc k) < length w \<and> w ! Suc (Suc k) \<noteq> None"
    using assms by (simp add: bitmap_ok_def bit_simps)
  then show "bit (drop_bit 1 b) k \<longleftrightarrow> Suc k < length (tl w @ [None]) \<and> (tl w @ [None]) ! Suc k \<noteq> None"
    by (cases "Suc (Suc k) < length w") (auto simp: nth_append nth_tl)
qed

lemma bitmap_ok_record:
  assumes "bitmap_ok (rb_bitmap b) w" "0 < unat d" "unat d < length w" "length w \<le> 16"
  shows "bitmap_ok (rb_bitmap (record_ooo b d)) (w[unat d := Some x])"
  using assms record_ooo_bit [of d b] by (auto simp: bitmap_ok_def nth_list_update)

lemma bs_clear_fewer:
  assumes "bs_is_set bits i"
  shows "length (filter (bs_is_set (bs_clear bits i)) [0..<32]) < length (filter (bs_is_set bits) [0..<32])"
proof -
  have "i mod 32 \<in> set (filter (bs_is_set bits) [0..<32])" using assms by (simp add: bs_is_set_iff)
  moreover have "i mod 32 \<notin> set (filter (bs_is_set (bs_clear bits i)) [0..<32])" by (simp add: bs_is_set_clear)
  moreover have "set (filter (bs_is_set (bs_clear bits i)) [0..<32]) \<subseteq> set (filter (bs_is_set bits) [0..<32])"
    by (auto simp: bs_is_set_clear)
  ultimately have "set (filter (bs_is_set (bs_clear bits i)) [0..<32]) \<subset> set (filter (bs_is_set bits) [0..<32])" by blast
  from psubset_card_mono [OF finite_set this] show ?thesis by (simp only: distinct_card distinct_filter distinct_upt)
qed

lemma run_window_snoc:
  "run_window REASM R (w @ [None]) =
     (case run_window REASM R w of (R', w', k, e) \<Rightarrow> (R', w' @ [None], k, e))"
  by (induction REASM R w rule: run_window.induct) (auto split: sum.splits prod.splits)

lemma pad_snoc: "length w < N \<Longrightarrow> pad_window N (w @ [None]) = pad_window N w"
proof -
  assume "length w < N"
  then have "N - length w = Suc (N - Suc (length w))" by simp
  then show ?thesis by (simp add: pad_window_def)
qed

section \<open>Evaluation of concrete runs\<close>

lemmas rx_eval =
  base_distance_def base_new_def base_advance_def record_ooo_def is_ooo_duplicate_def shl_u16_def SEQUENCE_COUNT_MAX_def
  bs_new_def bs_set_def bs_clear_def bs_is_set_def bs_any_def
  deliver_or_skip_def deliver_packet_def reassembly_new_def blit_def bslice_def seq14_def rx_moved_def
  base_expected_seq_def SequenceCount_from_def reasm_take_def Let_def

lemma list_update_numeral: "(x # xs)[numeral k := y] = x # xs[pred_numeral k := y]"
  by (simp add: numeral_eq_Suc)

lemma replicate_four_eight: "replicate 4 x = [x, x, x, x]" "replicate 8 x = [x, x, x, x, x, x, x, x]"
  by (simp_all add: numeral_eq_Suc)

section \<open>The contract of a backend\<close>

text \<open>
  \<open>admits\<close> and \<open>admits_skip\<close> say which calls the backend implements as promised: a backend
  restricts the size of payloads, or what may be outstanding.
\<close>

locale receiver_backend =
  fixes WIN REASM :: nat
    and new :: 'r
    and handle_data :: "'r \<Rightarrow> u16 \<Rightarrow> SequenceFlag \<Rightarrow> bytes \<Rightarrow> ('r \<times> (ReceiverError + DataOutcome)) outcome"
    and skip_gap :: "'r \<Rightarrow> ('r \<times> (ReceiverError + GapOutcome)) outcome"
    and take_message :: "'r \<Rightarrow> 'r \<times> bytes option"
    and expected_seq :: "'r \<Rightarrow> u16"
    and recv_bitmap :: "'r \<Rightarrow> u16"
    and abs :: "'r \<Rightarrow> rx_spec"
    and inv :: "'r \<Rightarrow> bool"
    and admits :: "'r \<Rightarrow> u16 \<Rightarrow> SequenceFlag \<Rightarrow> bytes \<Rightarrow> bool"
    and admits_skip :: "'r \<Rightarrow> bool"
  assumes window: "0 < WIN" "WIN \<le> 16"
    and new: "inv new" "abs new = spec_new WIN REASM"
    and handle_data: "inv r \<Longrightarrow> unat seq < 16384 \<Longrightarrow> admits r seq flags payload \<Longrightarrow>
      \<exists>r' res. handle_data r seq flags payload = Returns (r', res) \<and> inv r'
        \<and> spec_handle_data REASM (abs r) seq flags payload = (abs r', res)"
    and skip_gap: "inv r \<Longrightarrow> admits_skip r \<Longrightarrow>
      \<exists>r' res. skip_gap r = Returns (r', res) \<and> inv r' \<and> spec_skip_gap REASM (abs r) = (abs r', res)"
    and take_message: "inv r \<Longrightarrow> take_message r = (r', m) \<Longrightarrow> inv r' \<and> spec_take (abs r) = (abs r', m)"
    and expected_seq: "inv r \<Longrightarrow> expected_seq r = sp_expected (abs r)"
    and recv_bitmap: "inv r \<Longrightarrow> bit (recv_bitmap r) k \<longleftrightarrow> Suc k < WIN \<and> sp_window (abs r) ! Suc k \<noteq> None"
begin

abbreviation feed :: "(nat \<Rightarrow> rx_packet) \<Rightarrow> nat \<Rightarrow> 'r \<Rightarrow> rx_input list \<Rightarrow> (nat \<times> 'r \<times> bytes list) outcome" where
  "feed \<equiv> rx_feed handle_data skip_gap take_message expected_seq admits admits_skip WIN"

text \<open>One step of a run keeps the receiver on the stream.\<close>

lemma moved:
  assumes "inv r" "inv r'" "spec_inv WIN REASM f lo n (abs r)" "k \<le> WIN" "spec_inv WIN REASM f lo (n + k) (abs r')"
  shows "spec_inv WIN REASM f lo (n + rx_moved (expected_seq r) (expected_seq r')) (abs r')"
proof -
  have "rx_moved (expected_seq r) (expected_seq r') = k"
    using assms window by (simp add: expected_seq spec_inv_def rx_moved_seq14)
  then show ?thesis using assms(5) by simp
qed

lemma feed_in_order:
  "inv r \<Longrightarrow> spec_inv WIN REASM f lo n (abs r) \<Longrightarrow>
   \<exists>n' r' ms lo'. feed f n r ins = Returns (n', r', ms) \<and> inv r' \<and> spec_inv WIN REASM f lo' n' (abs r')
     \<and> in_order_messages f lo n' ms"
proof (induction ins arbitrary: lo n r)
  case Nil
  then show ?case by (auto simp: spec_inv_def ra_inv_def)
next
  case (Cons x ins)
  show ?case
  proof (cases x)
    case (Arrive i)
    show ?thesis
    proof (cases "n + WIN \<le> i + 16384 \<and> i < n + 16384 \<and> admits r (seq14 i) (fst (f i)) (snd (f i))")
      case True
      obtain r' res where h: "handle_data r (seq14 i) (fst (f i)) (snd (f i)) = Returns (r', res)" "inv r'"
        "spec_handle_data REASM (abs r) (seq14 i) (fst (f i)) (snd (f i)) = (abs r', res)"
        using handle_data [OF Cons.prems(1), of "seq14 i" "fst (f i)" "snd (f i)"] True by auto
      then obtain k where "k \<le> WIN" "spec_inv WIN REASM f lo (n + k) (abs r')"
        using spec_handle_data_inv [OF Cons.prems(2) _ _ _ _ h(3)] True window by auto
      then show ?thesis using Cons.IH [OF h(2) moved] Cons.prems h(1,2) True Arrive by auto
    next
      case False
      then show ?thesis using Cons Arrive by auto
    qed
  next
    case Skip
    show ?thesis
    proof (cases "admits_skip r")
      case True
      obtain r' res where h: "skip_gap r = Returns (r', res)" "inv r'" "spec_skip_gap REASM (abs r) = (abs r', res)"
        using skip_gap [OF Cons.prems(1) True] by auto
      then obtain k where "k \<le> WIN" "spec_inv WIN REASM f lo (n + k) (abs r')"
        using spec_skip_gap_inv [OF Cons.prems(2) _ h(3)] window by auto
      then show ?thesis using Cons.IH [OF h(2) moved] Cons.prems h(1,2) True Skip by auto
    next
      case False
      then show ?thesis using Cons Skip by auto
    qed
  next
    case Take
    obtain r' m where t: "take_message r = (r', m)" by (meson surj_pair)
    have s: "inv r'" "spec_take (abs r) = (abs r', m)" using take_message Cons.prems(1) t by auto
    obtain lo' where lo': "ra_inv REASM f lo' n (fst (reasm_take (sp_reasm (abs r))))"
      "case m of None \<Rightarrow> lo' = lo | Some x \<Rightarrow> \<exists>i. lo \<le> i \<and> message_span f i lo' \<and> x = stream_bytes f i lo'"
      using reasm_take_inv [of REASM f lo n "sp_reasm (abs r)"] Cons.prems(2) s(2) by (auto simp: spec_inv_def spec_take_def)
    have "abs r' = (abs r)\<lparr>sp_reasm := fst (reasm_take (sp_reasm (abs r)))\<rparr>" using s(2) by (auto simp: spec_take_def)
    then have "spec_inv WIN REASM f lo' n (abs r')" using lo'(1) Cons.prems(2) by (simp add: spec_inv_def)
    from Cons.IH [OF s(1) this] obtain n' r'' ms lo'' where
      "feed f n r' ins = Returns (n', r'', ms)" "inv r''" "spec_inv WIN REASM f lo'' n' (abs r'')" "in_order_messages f lo' n' ms"
      by blast
    then show ?thesis using lo'(2) Take t by (auto split: option.splits)
  qed
qed

theorem delivers_in_order:
  "\<exists>n r ms. feed f 0 new ins = Returns (n, r, ms) \<and> expected_seq r = seq14 n \<and> in_order_messages f 0 n ms"
  using feed_in_order [of new f 0 0 ins] new spec_new_inv expected_seq by (fastforce simp: spec_inv_def)

text \<open>What the acknowledgement built from a receiver's state names.\<close>

theorem acknowledges_received:
  assumes "inv r" "spec_inv WIN REASM f lo n (abs r)" "k < 16"
  shows "bit (recv_bitmap r) k \<longleftrightarrow> Suc k < WIN \<and> sp_window (abs r) ! Suc k = Some (f (n + Suc k))"
  using assms recv_bitmap [OF assms(1), of k] by (auto simp: spec_inv_def on_stream_def)

end

end
