(* ===== verification/Rx_Fast.thy ===== *)
theory Rx_Fast
  imports Rx_Spec
begin

text \<open>
  The fast backend (\<open>receiver/reassembly/fast.rs\<close>, \<open>FastReceiver<WIN, MTU, REASM, TOTAL>\<close>):
  packets out of order go into \<open>WIN\<close> slots of \<open>MTU\<close> bytes, indexed by \<open>seq % WIN\<close>. The const
  parameters are arguments of the definitions. The backend refines the abstract receiver of
  \<open>Rx_Spec\<close> when \<open>WIN\<close> is a power of two up to 16 (so that slots stay apart when the 14-bit
  numbers wrap and distances fit the 16-bit bitmap), \<open>TOTAL = WIN * MTU\<close> as documented, and
  payloads have at most \<open>MTU\<close> bytes.
\<close>

section \<open>Definitions\<close>

record fast =
  fr_base :: ReceiverBase
  fr_occupied :: Bitset
  fr_slots :: SlotMap
  fr_flags :: "SequenceFlag list"
  fr_reasm :: reassembly

definition fast_new :: "nat \<Rightarrow> nat \<Rightarrow> nat \<Rightarrow> fast" where
  "fast_new WIN REASM TOTAL =
     \<lparr>fr_base = base_new, fr_occupied = bs_new, fr_slots = slot_map_new TOTAL WIN,
      fr_flags = replicate WIN Unsegmented, fr_reasm = reassembly_new REASM\<rparr>"

definition fast_slot_idx :: "nat \<Rightarrow> u16 \<Rightarrow> nat" where
  "fast_slot_idx WIN seq = unat seq mod WIN"

definition fast_store_ooo :: "nat \<Rightarrow> nat \<Rightarrow> fast \<Rightarrow> u16 \<Rightarrow> SequenceFlag \<Rightarrow> bytes \<Rightarrow> fast outcome" where
  "fast_store_ooo WIN MTU r seq flags payload =
     (let idx = fast_slot_idx WIN seq
      in if bs_is_set (fr_occupied r) idx then Returns r
         else case slot_write MTU (fr_slots r) idx payload of
                Panics \<Rightarrow> Panics
              | Returns slots \<Rightarrow>
                  Returns (r\<lparr>fr_slots := slots, fr_flags := (fr_flags r)[idx := flags],
                             fr_occupied := bs_set (fr_occupied r) idx\<rparr>))"

text \<open>The loop ends because every round clears an occupied slot. \<open>temp\<close> is the copy buffer of \<open>MTU\<close> bytes.\<close>

function fast_deliver_buffered ::
  "nat \<Rightarrow> nat \<Rightarrow> nat \<Rightarrow> bytes \<Rightarrow> fast \<Rightarrow> (fast \<times> ReceiverError option) outcome" where
  "fast_deliver_buffered WIN MTU REASM temp r =
     (let idx = fast_slot_idx WIN (rb_expected (fr_base r))
      in if \<not> bs_is_set (fr_occupied r) idx then Returns (r, None)
         else let flags = fr_flags r ! idx; r' = r\<lparr>fr_occupied := bs_clear (fr_occupied r) idx\<rparr>
              in case slot_read MTU (fr_slots r') idx temp of
                   Panics \<Rightarrow> Panics
                 | Returns (temp', len) \<Rightarrow>
                     (case deliver_or_skip REASM (fr_reasm r') flags (take len temp') of
                        Inl e \<Rightarrow> Returns (r', Some e)
                      | Inr R \<Rightarrow> fast_deliver_buffered WIN MTU REASM temp'
                                  (r'\<lparr>fr_reasm := R, fr_base := base_advance (fr_base r')\<rparr>)))"
  by pat_completeness auto
termination
  by (relation "measure (\<lambda>(w, m, q, t, r). length (filter (bs_is_set (fr_occupied r)) [0..<32]))")
    (simp_all add: bs_clear_fewer)

declare fast_deliver_buffered.simps [simp del]

definition fast_handle_data ::
  "nat \<Rightarrow> nat \<Rightarrow> nat \<Rightarrow> fast \<Rightarrow> u16 \<Rightarrow> SequenceFlag \<Rightarrow> bytes \<Rightarrow> (fast \<times> (ReceiverError + DataOutcome)) outcome" where
  "fast_handle_data WIN MTU REASM r seq flags payload =
     (let distance = base_distance (fr_base r) seq;
          seq_before = rb_expected (fr_base r);
          finish = (\<lambda>r. Inr \<lparr>do_progressed = (rb_expected (fr_base r) \<noteq> seq_before),
                             do_has_gap = bs_any WIN (fr_occupied r)\<rparr>)
      in if distance = 0
         then case deliver_or_skip REASM (fr_reasm r) flags payload of
                Inl e \<Rightarrow> Returns (r, Inl e)
              | Inr R \<Rightarrow>
                  (case fast_deliver_buffered WIN MTU REASM (replicate MTU 0)
                          (r\<lparr>fr_reasm := R, fr_base := base_advance (fr_base r)\<rparr>) of
                     Panics \<Rightarrow> Panics
                   | Returns (r', Some e) \<Rightarrow> Returns (r', Inl e)
                   | Returns (r', None) \<Rightarrow> Returns (r', finish r'))
         else if distance < of_nat WIN \<and> \<not> is_ooo_duplicate (fr_base r) distance
         then case fast_store_ooo WIN MTU r seq flags payload of
                Panics \<Rightarrow> Panics
              | Returns r' \<Rightarrow>
                  (let r' = r'\<lparr>fr_base := record_ooo (fr_base r') distance\<rparr> in Returns (r', finish r'))
         else Returns (r, finish r))"

definition fast_skip_gap :: "nat \<Rightarrow> nat \<Rightarrow> nat \<Rightarrow> fast \<Rightarrow> (fast \<times> (ReceiverError + GapOutcome)) outcome" where
  "fast_skip_gap WIN MTU REASM r =
     (case fast_deliver_buffered WIN MTU REASM (replicate MTU 0)
             (r\<lparr>fr_reasm := reasm_abort (fr_reasm r), fr_base := base_advance (fr_base r)\<rparr>) of
        Panics \<Rightarrow> Panics
      | Returns (r', Some e) \<Rightarrow> Returns (r', Inl e)
      | Returns (r', None) \<Rightarrow> Returns (r', Inr (bs_any WIN (fr_occupied r'))))"

definition fast_take_message :: "fast \<Rightarrow> fast \<times> bytes option" where
  "fast_take_message r = (r\<lparr>fr_reasm := fst (reasm_take (fr_reasm r))\<rparr>, snd (reasm_take (fr_reasm r)))"

definition fast_has_message :: "fast \<Rightarrow> bool" where
  "fast_has_message r \<longleftrightarrow> ra_complete (fr_reasm r) \<noteq> None"

definition fast_message_len :: "fast \<Rightarrow> nat option" where
  "fast_message_len r = ra_complete (fr_reasm r)"

definition fast_expected_seq :: "fast \<Rightarrow> u16" where
  "fast_expected_seq r = base_expected_seq (fr_base r)"

definition fast_recv_bitmap :: "fast \<Rightarrow> u16" where
  "fast_recv_bitmap r = rb_bitmap (fr_base r)"

section \<open>Abstraction\<close>

definition fast_store :: "nat \<Rightarrow> fast \<Rightarrow> nat \<Rightarrow> rx_packet option" where
  "fast_store MTU r i =
     (if bs_is_set (fr_occupied r) i
      then Some (fr_flags r ! i, bslice (sm_data (fr_slots r)) (i * MTU) (unat (sm_lens (fr_slots r) ! i))) else None)"

definition fast_window :: "nat \<Rightarrow> nat \<Rightarrow> fast \<Rightarrow> rx_packet option list" where
  "fast_window WIN MTU r = ring_window WIN (fast_store MTU r) (rb_expected (fr_base r))"

definition fast_abs :: "nat \<Rightarrow> nat \<Rightarrow> fast \<Rightarrow> rx_spec" where
  "fast_abs WIN MTU r =
     \<lparr>sp_expected = rb_expected (fr_base r), sp_window = fast_window WIN MTU r, sp_reasm = fr_reasm r\<rparr>"

definition fast_params :: "nat \<Rightarrow> nat \<Rightarrow> bool" where
  "fast_params WIN MTU \<longleftrightarrow> ring_size WIN \<and> MTU < 65536"

text \<open>\<open>fast_core\<close> holds also inside the delivery loop, where the slot of the expected number may be occupied.\<close>

definition fast_core :: "nat \<Rightarrow> nat \<Rightarrow> fast \<Rightarrow> bool" where
  "fast_core WIN MTU r \<longleftrightarrow>
     unat (rb_expected (fr_base r)) < 16384 \<and> length (fr_flags r) = WIN \<and> length (sm_lens (fr_slots r)) = WIN \<and>
     length (sm_data (fr_slots r)) = WIN * MTU \<and>
     (\<forall>i<WIN. bs_is_set (fr_occupied r) i \<longrightarrow> unat (sm_lens (fr_slots r) ! i) \<le> MTU) \<and>
     bitmap_ok (rb_bitmap (fr_base r)) (fast_window WIN MTU r)"

definition fast_inv :: "nat \<Rightarrow> nat \<Rightarrow> fast \<Rightarrow> bool" where
  "fast_inv WIN MTU r \<longleftrightarrow> fast_core WIN MTU r \<and> fast_window WIN MTU r ! 0 = None"

lemma length_fast_window [simp]: "length (fast_window WIN MTU r) = WIN"
  by (simp add: fast_window_def)

lemma fast_window_nth: "d < WIN \<Longrightarrow>
    fast_window WIN MTU r ! d = fast_store MTU r ((unat (rb_expected (fr_base r)) + d) mod WIN)"
  by (simp add: fast_window_def ring_window_nth)

section \<open>The steps on the window\<close>

lemma fast_params_ring [simp]: "fast_params WIN MTU \<Longrightarrow> ring_size WIN"
  by (simp add: fast_params_def ring_size_def)

lemma fast_advance:
  assumes "fast_params WIN MTU" "fast_core WIN MTU r" "fast_window WIN MTU r ! 0 = None"
  defines "r' \<equiv> r\<lparr>fr_base := base_advance (fr_base r)\<rparr>"
  shows "fast_core WIN MTU r'" "fast_window WIN MTU r' = tl (fast_window WIN MTU r) @ [None]"
proof -
  have st: "fast_store MTU r' = fast_store MTU r" by (simp add: r'_def fast_store_def fun_eq_iff)
  show w: "fast_window WIN MTU r' = tl (fast_window WIN MTU r) @ [None]"
    using assms(1-3) ring_window_advance [of WIN "rb_expected (fr_base r)" "fast_store MTU r"]
    unfolding fast_window_def st by (simp add: r'_def fast_core_def)
  show "fast_core WIN MTU r'"
    using assms(2) bitmap_ok_advance [of "rb_bitmap (fr_base r)" "fast_window WIN MTU r"]
    by (simp add: fast_core_def w) (simp add: r'_def base_advance_def unat_and_seq_max)
qed

lemma fast_clear:
  assumes "fast_params WIN MTU" "fast_core WIN MTU r"
  defines "r' \<equiv> r\<lparr>fr_occupied := bs_clear (fr_occupied r) (unat (rb_expected (fr_base r)) mod WIN)\<rparr>"
  shows "fast_core WIN MTU r'" "fast_window WIN MTU r' = (fast_window WIN MTU r)[0 := None]"
proof -
  let ?e = "rb_expected (fr_base r)"
  have "fast_store MTU r' j = (if j = (unat ?e + 0) mod WIN then None else fast_store MTU r j)" if "j < WIN" for j
    using that assms(1) bs_same [of WIN "unat ?e mod WIN" j] by (auto simp: fast_store_def r'_def bs_is_set_clear)
  then show w: "fast_window WIN MTU r' = (fast_window WIN MTU r)[0 := None]"
    using ring_window_update [of 0 WIN "fast_store MTU r'" ?e None "fast_store MTU r"] assms(1)
    by (simp add: fast_window_def r'_def fast_params_def ring_size_def)
  show "fast_core WIN MTU r'"
    using assms(2) by (simp add: fast_core_def w bitmap_ok_def) (auto simp: r'_def bs_is_set_clear)
qed

lemma fast_reasm_update [simp]:
  "fast_core WIN MTU (r\<lparr>fr_reasm := R\<rparr>) = fast_core WIN MTU r"
  "fast_window WIN MTU (r\<lparr>fr_reasm := R\<rparr>) = fast_window WIN MTU r"
proof -
  have "fast_store MTU (r\<lparr>fr_reasm := R\<rparr>) = fast_store MTU r" by (simp add: fast_store_def fun_eq_iff)
  then show w: "fast_window WIN MTU (r\<lparr>fr_reasm := R\<rparr>) = fast_window WIN MTU r" by (simp add: fast_window_def)
  show "fast_core WIN MTU (r\<lparr>fr_reasm := R\<rparr>) = fast_core WIN MTU r" by (simp add: fast_core_def w)
qed

text \<open>The delivery loop is \<open>run_window\<close> on the window.\<close>

lemma fast_deliver_buffered_run:
  assumes "fast_params WIN MTU" "fast_core WIN MTU r" "length temp = MTU"
    "run_window REASM (fr_reasm r) (fast_window WIN MTU r) = (R, w, k, e)"
  shows "\<exists>r'. fast_deliver_buffered WIN MTU REASM temp r = Returns (r', e) \<and> fast_inv WIN MTU r' \<and> fr_reasm r' = R
    \<and> rb_expected (fr_base r') = (rb_expected (fr_base r) + of_nat k) AND SEQUENCE_COUNT_MAX
    \<and> fast_window WIN MTU r' = pad_window WIN w"
  using assms
proof (induction WIN MTU REASM temp r arbitrary: R w k e rule: fast_deliver_buffered.induct)
  case (1 WIN MTU REASM temp r)
  let ?e = "rb_expected (fr_base r)"
  let ?i = "unat ?e mod WIN"
  have W: "0 < WIN" "WIN \<le> 16" using "1.prems"(1) by (auto simp: fast_params_def ring_size_def)
  have e: "unat ?e < 16384" using "1.prems"(2) by (simp add: fast_core_def)
  have idx: "fast_slot_idx WIN ?e = ?i" by (simp add: fast_slot_idx_def)
  have w0: "fast_window WIN MTU r ! 0 = fast_store MTU r ?i" using W by (simp add: fast_window_nth)
  obtain x ws where xs: "fast_window WIN MTU r = x # ws" using W length_fast_window [of WIN MTU r] by (cases "fast_window WIN MTU r") auto
  have eid: "?e AND SEQUENCE_COUNT_MAX = ?e" using e by (simp add: and_seq_max seq14_unat)
  show ?case
  proof (cases "bs_is_set (fr_occupied r) ?i")
    case False
    then have none: "fast_window WIN MTU r ! 0 = None" using w0 by (simp add: fast_store_def)
    then have "x = None" using xs by simp
    then have "R = fr_reasm r" "w = fast_window WIN MTU r" "k = 0" "e = None" using "1.prems"(4) xs by auto
    then show ?thesis using "1.prems"(2) none False idx eid
      by (subst fast_deliver_buffered.simps) (simp add: fast_inv_def pad_window_def)
  next
    case True
    let ?len = "unat (sm_lens (fr_slots r) ! ?i)"
    let ?p = "bslice (sm_data (fr_slots r)) (?i * MTU) ?len"
    let ?r1 = "r\<lparr>fr_occupied := bs_clear (fr_occupied r) ?i\<rparr>"
    have x: "x = Some (fr_flags r ! ?i, ?p)" using True w0 xs by (simp add: fast_store_def)
    have il: "?i < WIN" using W by simp
    then have len: "?len \<le> MTU" using "1.prems"(2) True by (simp add: fast_core_def)
    have rng: "?i * MTU + ?len \<le> length (sm_data (fr_slots r))"
    proof -
      have "?i * MTU + ?len \<le> Suc ?i * MTU" using len by simp
      also have "\<dots> \<le> WIN * MTU" using il by (intro mult_le_mono1) simp
      finally show ?thesis using "1.prems"(2) by (simp add: fast_core_def)
    qed
    have rd: "slot_read MTU (fr_slots ?r1) ?i temp = Returns (blit temp 0 ?p, ?len)"
      using rng len il "1.prems"(2,3) by (simp add: slot_read_def fast_core_def Let_def)
    have tk: "take ?len (blit temp 0 ?p) = ?p" using rng len by (simp add: blit_def bslice_def)
    note c = fast_clear [OF "1.prems"(1,2)]
    have w1: "fast_window WIN MTU ?r1 = None # ws" using c(2) xs by simp
    show ?thesis
    proof (cases "deliver_or_skip REASM (fr_reasm r) (fr_flags r ! ?i) ?p")
      case (Inl er)
      then have "R = fr_reasm r" "w = None # ws" "k = 0" "e = Some er" using "1.prems"(4) xs x by auto
      moreover have "fast_deliver_buffered WIN MTU REASM temp r = Returns (?r1, Some er)"
        using True Inl idx rd tk by (subst fast_deliver_buffered.simps) (simp add: Let_def)
      moreover have "length ws = WIN - 1" using xs length_fast_window [of WIN MTU r] by simp
      ultimately show ?thesis using c(1) w1 eid W by (simp add: fast_inv_def pad_window_def)
    next
      case (Inr R1)
      let ?r2 = "?r1\<lparr>fr_reasm := R1, fr_base := base_advance (fr_base r)\<rparr>"
      have core: "fast_core WIN MTU (?r1\<lparr>fr_reasm := R1\<rparr>)" "fast_window WIN MTU (?r1\<lparr>fr_reasm := R1\<rparr>) ! 0 = None"
        using c(1) w1 by simp_all
      have r2: "fast_core WIN MTU ?r2" "fast_window WIN MTU ?r2 = ws @ [None]"
        using fast_advance [OF "1.prems"(1) core] w1 by simp_all
      obtain R2 w2 k2 e2 where run: "run_window REASM R1 ws = (R2, w2, k2, e2)" by (metis prod_cases4)
      have res: "R = R2" "w = w2" "k = Suc k2" "e = e2" using "1.prems"(4) xs x Inr run by auto
      have "run_window REASM (fr_reasm ?r2) (fast_window WIN MTU ?r2) = (R2, w2 @ [None], k2, e2)"
        using run r2(2) by (simp add: run_window_snoc)
      moreover have "length (blit temp 0 ?p) = MTU" using len rng "1.prems"(3) by simp
      ultimately have "\<exists>r'. fast_deliver_buffered WIN MTU REASM (blit temp 0 ?p) ?r2 = Returns (r', e2) \<and> fast_inv WIN MTU r'
          \<and> fr_reasm r' = R2 \<and> rb_expected (fr_base r') = (rb_expected (fr_base ?r2) + of_nat k2) AND SEQUENCE_COUNT_MAX
          \<and> fast_window WIN MTU r' = pad_window WIN (w2 @ [None])"
        using "1.IH" [of ?i "fr_flags r ! ?i" ?r1 "(blit temp 0 ?p, ?len)" "blit temp 0 ?p" ?len R1] True idx rd tk Inr "1.prems"(1) r2(1) by simp
      moreover have "fast_deliver_buffered WIN MTU REASM temp r = fast_deliver_buffered WIN MTU REASM (blit temp 0 ?p) ?r2"
        using True Inr idx rd tk by (subst fast_deliver_buffered.simps) (simp add: Let_def)
      moreover have "rb_expected (fr_base ?r2) + of_nat k2 AND SEQUENCE_COUNT_MAX = (?e + of_nat k) AND SEQUENCE_COUNT_MAX"
        using advance_then_add [OF e, of k2] res(3) by simp
      moreover have "length w2 < WIN" using run_window_length [OF run] xs length_fast_window [of WIN MTU r] by simp
      ultimately show ?thesis using res pad_snoc by simp
    qed
  qed
qed

section \<open>Refinement of every call\<close>

lemma fast_has_gap:
  assumes "fast_params WIN MTU"
  shows "bs_any WIN (fr_occupied r) = spec_has_gap (fast_abs WIN MTU r)"
proof -
  have "bs_any WIN (fr_occupied r) \<longleftrightarrow> (\<exists>i<WIN. fast_store MTU r i \<noteq> None)"
    using assms by (auto simp: bs_any_iff fast_store_def fast_params_def ring_size_def)
  also have "\<dots> = spec_has_gap (fast_abs WIN MTU r)"
    using ring_window_any [of WIN "fast_store MTU r"] assms unfolding spec_has_gap_def fast_abs_def fast_window_def by simp
  finally show ?thesis .
qed

text \<open>Delivering from an advanced window is \<open>spec_advance\<close>.\<close>

lemma fast_advance_refines:
  assumes "fast_params WIN MTU" "fast_inv WIN MTU r"
    "spec_advance REASM ((fast_abs WIN MTU r)\<lparr>sp_reasm := R\<rparr>) = (s', e)"
  shows "\<exists>r'. fast_deliver_buffered WIN MTU REASM (replicate MTU 0)
      (r\<lparr>fr_reasm := R, fr_base := base_advance (fr_base r)\<rparr>) = Returns (r', e)
    \<and> fast_inv WIN MTU r' \<and> fast_abs WIN MTU r' = s'"
proof -
  let ?r0 = "r\<lparr>fr_reasm := R\<rparr>"
  let ?r1 = "?r0\<lparr>fr_base := base_advance (fr_base ?r0)\<rparr>"
  let ?e = "rb_expected (fr_base r)"
  have "fast_core WIN MTU ?r0" "fast_window WIN MTU ?r0 ! 0 = None" using assms(2) by (simp_all add: fast_inv_def)
  note r1 = fast_advance [OF assms(1) this]
  have e: "unat ?e < 16384" using assms(2) by (simp add: fast_inv_def fast_core_def)
  obtain R2 w2 k2 e2 where run: "run_window REASM R (tl (fast_window WIN MTU r)) = (R2, w2, k2, e2)" by (metis prod_cases4)
  have len: "length w2 < WIN" using run_window_length [OF run] assms(1) by (auto simp: fast_params_def ring_size_def)
  have s': "s' = \<lparr>sp_expected = (?e + of_nat (Suc k2)) AND SEQUENCE_COUNT_MAX, sp_window = pad_window WIN w2, sp_reasm = R2\<rparr>" "e = e2"
    using assms(3) run by (auto simp: spec_advance_def fast_abs_def)
  have "run_window REASM (fr_reasm ?r1) (fast_window WIN MTU ?r1) = (R2, w2 @ [None], k2, e2)"
    using run r1(2) by (simp add: run_window_snoc)
  from fast_deliver_buffered_run [OF assms(1) r1(1) _ this, of "replicate MTU 0"] obtain r' where
    r': "fast_deliver_buffered WIN MTU REASM (replicate MTU 0) ?r1 = Returns (r', e2)" "fast_inv WIN MTU r'" "fr_reasm r' = R2"
      "rb_expected (fr_base r') = (rb_expected (fr_base ?r1) + of_nat k2) AND SEQUENCE_COUNT_MAX"
      "fast_window WIN MTU r' = pad_window WIN (w2 @ [None])" by auto
  moreover have "rb_expected (fr_base ?r1) + of_nat k2 AND SEQUENCE_COUNT_MAX = (?e + of_nat (Suc k2)) AND SEQUENCE_COUNT_MAX"
    using advance_then_add [OF e, of k2] by simp
  ultimately show ?thesis using s' pad_snoc [OF len] by (simp add: fast_abs_def)
qed

text \<open>Storing a packet out of order fills the window at its distance.\<close>

lemma fast_store_refines:
  assumes "fast_params WIN MTU" "fast_inv WIN MTU r" "unat seq < 16384" "length payload \<le> MTU"
    "d = unat (base_distance (fr_base r) seq)" "0 < d" "d < WIN" "fast_window WIN MTU r ! d = None"
  shows "\<exists>r'. fast_store_ooo WIN MTU r seq flags payload = Returns r'
    \<and> fast_inv WIN MTU (r'\<lparr>fr_base := record_ooo (fr_base r') (base_distance (fr_base r) seq)\<rparr>)
    \<and> fast_abs WIN MTU (r'\<lparr>fr_base := record_ooo (fr_base r') (base_distance (fr_base r) seq)\<rparr>) =
        (fast_abs WIN MTU r)\<lparr>sp_window := (fast_window WIN MTU r)[d := Some (flags, payload)]\<rparr>"
proof -
  let ?e = "rb_expected (fr_base r)"
  let ?dist = "base_distance (fr_base r) seq"
  let ?i = "(unat ?e + d) mod WIN"
  have W: "0 < WIN" "WIN \<le> 16" "MTU < 65536" using assms(1) by (auto simp: fast_params_def ring_size_def)
  have e: "unat ?e < 16384" and core: "fast_core WIN MTU r" using assms(2) by (auto simp: fast_inv_def fast_core_def)
  have idx: "fast_slot_idx WIN seq = ?i"
    using ring_index [OF _ e assms(3)] assms(1,5) by (simp add: fast_slot_idx_def base_distance_def)
  have il: "?i < WIN" using W by simp
  have free: "\<not> bs_is_set (fr_occupied r) ?i" using assms(7,8) by (auto simp: fast_window_nth fast_store_def split: if_splits)
  have fits: "?i * MTU + length payload \<le> length (sm_data (fr_slots r))"
  proof -
    have "?i * MTU + length payload \<le> Suc ?i * MTU" using assms(4) by simp
    also have "\<dots> \<le> WIN * MTU" using il by (intro mult_le_mono1) simp
    finally show ?thesis using core by (simp add: fast_core_def)
  qed
  define sm where "sm = (fr_slots r)\<lparr>sm_data := blit (sm_data (fr_slots r)) (?i * MTU) payload,
                          sm_lens := (sm_lens (fr_slots r))[?i := of_nat (length payload)]\<rparr>"
  define r' where "r' = r\<lparr>fr_slots := sm, fr_flags := (fr_flags r)[?i := flags], fr_occupied := bs_set (fr_occupied r) ?i\<rparr>"
  define r2 where "r2 = r'\<lparr>fr_base := record_ooo (fr_base r') ?dist\<rparr>"
  have ret: "fast_store_ooo WIN MTU r seq flags payload = Returns r'"
    using free fits il core by (simp add: fast_store_ooo_def idx slot_write_def r'_def sm_def fast_core_def Let_def)
  have ul: "unat (of_nat (length payload) :: u16) = length payload" using assms(4) W(3) by (simp add: unat_of_nat)
  have st: "fast_store MTU r2 j = (if j = ?i then Some (flags, payload) else fast_store MTU r j)" if j: "j < WIN" for j
  proof (cases "j = ?i")
    case True
    then show ?thesis using fits core il ul by (simp add: fast_store_def r2_def r'_def sm_def bs_is_set_set fast_core_def)
  next
    case False
    have "bslice (blit (sm_data (fr_slots r)) (?i * MTU) payload) (j * MTU) (unat (sm_lens (fr_slots r) ! j)) =
        bslice (sm_data (fr_slots r)) (j * MTU) (unat (sm_lens (fr_slots r) ! j))" if "bs_is_set (fr_occupied r) j"
    proof (cases "j < ?i")
      case True
      have "j * MTU + unat (sm_lens (fr_slots r) ! j) \<le> Suc j * MTU" using that j core by (simp add: fast_core_def)
      also have "\<dots> \<le> ?i * MTU" using True by (intro mult_le_mono1) simp
      finally show ?thesis using fits by simp
    next
      case ge: False
      have "?i * MTU + length payload \<le> Suc ?i * MTU" using assms(4) by simp
      also have "\<dots> \<le> j * MTU" using ge False by (intro mult_le_mono1) simp
      finally show ?thesis using fits by simp
    qed
    then show ?thesis using False j il W bs_same [OF fast_params_ring [OF assms(1)], of ?i j]
      by (auto simp: fast_store_def r2_def r'_def sm_def bs_is_set_set)
  qed
  have ex: "rb_expected (fr_base r2) = ?e" by (simp add: r2_def r'_def)
  have w: "fast_window WIN MTU r2 = (fast_window WIN MTU r)[d := Some (flags, payload)]"
    using ring_window_update [OF assms(7) st] ex by (simp add: fast_window_def)
  have bm: "bitmap_ok (rb_bitmap (fr_base r2)) (fast_window WIN MTU r2)"
  proof -
    have "fr_base r2 = record_ooo (fr_base r) ?dist" by (simp add: r2_def r'_def)
    then show ?thesis unfolding w
      using bitmap_ok_record [of "fr_base r" "fast_window WIN MTU r" ?dist] core assms(5,6,7) W by (simp add: fast_core_def)
  qed
  have "\<forall>i<WIN. bs_is_set (fr_occupied r2) i \<longrightarrow> unat (sm_lens (fr_slots r2) ! i) \<le> MTU"
    using core il assms(4) ul W bs_same [OF fast_params_ring [OF assms(1)], of ?i]
    by (auto simp: fast_core_def r2_def r'_def sm_def bs_is_set_set nth_list_update)
  then have "fast_core WIN MTU r2"
    using core fits bm e by (simp add: fast_core_def r2_def r'_def sm_def)
  moreover have "fast_window WIN MTU r2 ! 0 = None" using assms(2,6) unfolding w by (simp add: fast_inv_def)
  ultimately have "fast_inv WIN MTU r2" by (simp add: fast_inv_def)
  moreover have "fast_abs WIN MTU r2 = (fast_abs WIN MTU r)\<lparr>sp_window := (fast_window WIN MTU r)[d := Some (flags, payload)]\<rparr>"
    using w ex by (simp add: fast_abs_def r2_def r'_def)
  ultimately show ?thesis using ret by (simp add: r2_def)
qed

lemma fast_distance:
  assumes "fast_params WIN MTU" "fast_core WIN MTU r"
  shows "base_distance (fr_base r) seq = 0 \<longleftrightarrow> unat ((seq - rb_expected (fr_base r)) AND SEQUENCE_COUNT_MAX) = 0"
    "base_distance (fr_base r) seq < of_nat WIN \<longleftrightarrow> unat ((seq - rb_expected (fr_base r)) AND SEQUENCE_COUNT_MAX) < WIN"
proof -
  show "base_distance (fr_base r) seq = 0 \<longleftrightarrow> unat ((seq - rb_expected (fr_base r)) AND SEQUENCE_COUNT_MAX) = 0"
    by (simp add: base_distance_def unat_eq_0)
  have "unat (of_nat WIN :: u16) = WIN" using assms(1) by (simp add: fast_params_def ring_size_def unat_of_nat)
  then show "base_distance (fr_base r) seq < of_nat WIN \<longleftrightarrow> unat ((seq - rb_expected (fr_base r)) AND SEQUENCE_COUNT_MAX) < WIN"
    by (simp add: base_distance_def word_less_nat_alt)
qed

lemma fast_handle_data_refines:
  assumes "fast_params WIN MTU" "fast_inv WIN MTU r" "unat seq < 16384" "length payload \<le> MTU"
  shows "\<exists>r' res. fast_handle_data WIN MTU REASM r seq flags payload = Returns (r', res) \<and> fast_inv WIN MTU r'
    \<and> spec_handle_data REASM (fast_abs WIN MTU r) seq flags payload = (fast_abs WIN MTU r', res)"
proof -
  let ?dist = "base_distance (fr_base r) seq"
  let ?d = "unat ((seq - rb_expected (fr_base r)) AND SEQUENCE_COUNT_MAX)"
  have core: "fast_core WIN MTU r" using assms(2) by (simp add: fast_inv_def)
  note dist = fast_distance [OF assms(1) core, of seq]
  have sp: "sp_expected (fast_abs WIN MTU r) = rb_expected (fr_base r)" "sp_reasm (fast_abs WIN MTU r) = fr_reasm r"
    "sp_window (fast_abs WIN MTU r) = fast_window WIN MTU r" for r by (simp_all add: fast_abs_def)
  note gap = fast_has_gap [OF assms(1)]
  show ?thesis
  proof (cases "?d = 0")
    case True
    then have d0: "?dist = 0" using dist(1) by simp
    show ?thesis
    proof (cases "deliver_or_skip REASM (fr_reasm r) flags payload")
      case (Inl e)
      then show ?thesis using assms(2) d0 True by (simp add: fast_handle_data_def spec_handle_data_def sp)
    next
      case (Inr R)
      obtain s' e where a: "spec_advance REASM ((fast_abs WIN MTU r)\<lparr>sp_reasm := R\<rparr>) = (s', e)" by (meson surj_pair)
      obtain r' where r': "fast_deliver_buffered WIN MTU REASM (replicate MTU 0)
          (r\<lparr>fr_reasm := R, fr_base := base_advance (fr_base r)\<rparr>) = Returns (r', e)" "fast_inv WIN MTU r'" "fast_abs WIN MTU r' = s'"
        using fast_advance_refines [OF assms(1,2) a] by blast
      then show ?thesis using d0 True Inr a gap [of r'] sp(1) [of r']
        by (cases e) (auto simp: fast_handle_data_def spec_handle_data_def sp spec_outcome_def Let_def)
    qed
  next
    case False
    then have dn: "?dist \<noteq> 0" using dist(1) by simp
    show ?thesis
    proof (cases "?d < WIN")
      case True
      have ud: "unat ?dist = ?d" by (simp add: base_distance_def)
      have "?d \<le> 16" "0 < ?d" using True False assms(1) by (auto simp: fast_params_def ring_size_def)
      then have dup: "is_ooo_duplicate (fr_base r) ?dist \<longleftrightarrow> fast_window WIN MTU r ! ?d \<noteq> None"
        using is_ooo_duplicate_iff [of ?dist "fr_base r"] ud core True by (simp add: fast_core_def bitmap_ok_def)
      show ?thesis
      proof (cases "fast_window WIN MTU r ! ?d = None")
        case free: True
        obtain r' where r': "fast_store_ooo WIN MTU r seq flags payload = Returns r'"
          "fast_inv WIN MTU (r'\<lparr>fr_base := record_ooo (fr_base r') ?dist\<rparr>)"
          "fast_abs WIN MTU (r'\<lparr>fr_base := record_ooo (fr_base r') ?dist\<rparr>) =
             (fast_abs WIN MTU r)\<lparr>sp_window := (fast_window WIN MTU r)[?d := Some (flags, payload)]\<rparr>"
          using fast_store_refines [OF assms(1,2,3,4), of ?d flags] ud False True free by auto
        let ?r2 = "r'\<lparr>fr_base := record_ooo (fr_base r') ?dist\<rparr>"
        have "rb_expected (fr_base ?r2) = rb_expected (fr_base r)" using r'(3) by (simp add: fast_abs_def)
        moreover have "bs_any WIN (fr_occupied r') = spec_has_gap (fast_abs WIN MTU ?r2)" using gap [of ?r2] by simp
        ultimately show ?thesis using r' dn dist True False free dup
          by (simp add: fast_handle_data_def spec_handle_data_def sp spec_outcome_def Let_def)
      next
        case busy: False
        then show ?thesis using assms(2) dn dist True False dup gap [of r]
          by (auto simp: fast_handle_data_def spec_handle_data_def sp spec_outcome_def Let_def)
      qed
    next
      case far: False
      then show ?thesis using assms(2) dn dist False gap [of r]
        by (simp add: fast_handle_data_def spec_handle_data_def sp spec_outcome_def Let_def)
    qed
  qed
qed

lemma fast_skip_gap_refines:
  assumes "fast_params WIN MTU" "fast_inv WIN MTU r"
  shows "\<exists>r' res. fast_skip_gap WIN MTU REASM r = Returns (r', res) \<and> fast_inv WIN MTU r'
    \<and> spec_skip_gap REASM (fast_abs WIN MTU r) = (fast_abs WIN MTU r', res)"
proof -
  let ?R = "reasm_abort (fr_reasm r)"
  obtain s' e where a: "spec_advance REASM ((fast_abs WIN MTU r)\<lparr>sp_reasm := ?R\<rparr>) = (s', e)" by (meson surj_pair)
  obtain r' where r': "fast_deliver_buffered WIN MTU REASM (replicate MTU 0)
      (r\<lparr>fr_reasm := ?R, fr_base := base_advance (fr_base r)\<rparr>) = Returns (r', e)" "fast_inv WIN MTU r'" "fast_abs WIN MTU r' = s'"
    using fast_advance_refines [OF assms a] by blast
  have "sp_reasm (fast_abs WIN MTU r) = fr_reasm r" by (simp add: fast_abs_def)
  then show ?thesis using r' a fast_has_gap [OF assms(1), of r']
    by (cases e) (auto simp: fast_skip_gap_def spec_skip_gap_def)
qed

lemma fast_take_refines:
  assumes "fast_inv WIN MTU r" "fast_take_message r = (r', m)"
  shows "fast_inv WIN MTU r' \<and> spec_take (fast_abs WIN MTU r) = (fast_abs WIN MTU r', m)"
  using assms by (auto simp: fast_take_message_def fast_inv_def spec_take_def fast_abs_def)

lemma fast_new_refines:
  assumes "fast_params WIN MTU"
  shows "fast_inv WIN MTU (fast_new WIN REASM (WIN * MTU))" "fast_abs WIN MTU (fast_new WIN REASM (WIN * MTU)) = spec_new WIN REASM"
proof -
  have w: "fast_window WIN MTU (fast_new WIN REASM (WIN * MTU)) = replicate WIN None"
    by (rule nth_equalityI) (simp_all add: fast_window_nth fast_store_def fast_new_def)
  then show "fast_abs WIN MTU (fast_new WIN REASM (WIN * MTU)) = spec_new WIN REASM"
    by (simp add: fast_abs_def spec_new_def fast_new_def base_new_def)
  show "fast_inv WIN MTU (fast_new WIN REASM (WIN * MTU))"
    using assms w by (auto simp: fast_inv_def fast_core_def fast_new_def base_new_def slot_map_new_def fast_params_def ring_size_def bitmap_ok_def)
qed

section \<open>The fast backend keeps the contract\<close>

lemma fast_backend:
  assumes "fast_params WIN MTU"
  shows "receiver_backend WIN REASM (fast_new WIN REASM (WIN * MTU)) (fast_handle_data WIN MTU REASM)
    (fast_skip_gap WIN MTU REASM) fast_take_message fast_expected_seq fast_recv_bitmap
    (fast_abs WIN MTU) (fast_inv WIN MTU) (\<lambda>r seq flags payload. length payload \<le> MTU) (\<lambda>r. True)"
proof unfold_locales
  show "0 < WIN" "WIN \<le> 16" using assms by (simp_all add: fast_params_def ring_size_def)
  show "fast_inv WIN MTU (fast_new WIN REASM (WIN * MTU))" "fast_abs WIN MTU (fast_new WIN REASM (WIN * MTU)) = spec_new WIN REASM"
    using fast_new_refines [OF assms] by simp_all
  fix r assume inv: "fast_inv WIN MTU r"
  show "fast_expected_seq r = sp_expected (fast_abs WIN MTU r)"
    using inv by (simp add: fast_expected_seq_def base_expected_seq_def fast_abs_def fast_inv_def fast_core_def
        SequenceCount_from_def and_seq_max seq14_unat)
  show "bit (fast_recv_bitmap r) k \<longleftrightarrow> Suc k < WIN \<and> sp_window (fast_abs WIN MTU r) ! Suc k \<noteq> None" for k
    using inv by (simp add: fast_recv_bitmap_def fast_abs_def fast_inv_def fast_core_def bitmap_ok_def)
qed (use assms fast_handle_data_refines fast_skip_gap_refines fast_take_refines in blast)+

text \<open>At the sizes of the default endpoint: eight slots, packets of 512 bytes, messages of up to 8192 bytes.\<close>

interpretation fast8: receiver_backend 8 8192 "fast_new 8 8192 (8 * 512)" "fast_handle_data 8 512 8192"
  "fast_skip_gap 8 512 8192" fast_take_message fast_expected_seq fast_recv_bitmap
  "fast_abs 8 512" "fast_inv 8 512" "\<lambda>r seq flags payload. length payload \<le> 512" "\<lambda>r. True"
  by (rule fast_backend) (simp add: fast_params_def ring_size_def)

text \<open>
  C19: The fast receiver implements the abstract reordering receiver. For every receiver
  state that satisfies the invariant and every packet of at most \<open>MTU\<close> bytes, \<open>handle_data\<close>
  returns without panic, keeps the invariant, and its new state and its result (an error, or
  the progress and gap flags) are those of the abstract receiver, whose window is indexed by
  the distance to the expected number; \<open>skip_gap\<close> and \<open>take_message\<close> likewise.
\<close>

theorem fast_receiver_refines:
  assumes "fast_params WIN MTU" "fast_inv WIN MTU r" "unat seq < 16384" "length payload \<le> MTU"
  shows "(\<exists>r' res. fast_handle_data WIN MTU REASM r seq flags payload = Returns (r', res) \<and> fast_inv WIN MTU r'
      \<and> spec_handle_data REASM (fast_abs WIN MTU r) seq flags payload = (fast_abs WIN MTU r', res))
    \<and> (\<exists>r' res. fast_skip_gap WIN MTU REASM r = Returns (r', res) \<and> fast_inv WIN MTU r'
      \<and> spec_skip_gap REASM (fast_abs WIN MTU r) = (fast_abs WIN MTU r', res))
    \<and> fast_inv WIN MTU (fst (fast_take_message r))
    \<and> spec_take (fast_abs WIN MTU r) = (fast_abs WIN MTU (fst (fast_take_message r)), snd (fast_take_message r))"
  using fast_handle_data_refines [OF assms] fast_skip_gap_refines [OF assms(1,2)]
    fast_take_refines [OF assms(2), of "fst (fast_take_message r)" "snd (fast_take_message r)"] by simp

theorem fast_receiver_refines_witness:
  "\<exists>r' res. fast_handle_data 4 2 8 (fast_new 4 8 8) 1 Last [7, 9] = Returns (r', res) \<and> fast_inv 4 2 r'
     \<and> sp_window (fast_abs 4 2 r') = [None, Some (Last, [7, 9]), None, None]"
proof -
  have p: "fast_params 4 2" by (simp add: fast_params_def ring_size_def)
  have inv: "fast_inv 4 2 (fast_new 4 8 8)" and abs: "fast_abs 4 2 (fast_new 4 8 8) = spec_new 4 8"
    using fast_new_refines [OF p, of 8] by simp_all
  obtain r' res where "fast_handle_data 4 2 8 (fast_new 4 8 8) 1 Last [7, 9] = Returns (r', res)" "fast_inv 4 2 r'"
    "spec_handle_data 8 (spec_new 4 8) 1 Last [7, 9] = (fast_abs 4 2 r', res)"
    using fast_receiver_refines [OF p inv, of 1 "[7, 9]" 8 Last] unfolding abs by auto
  moreover have "sp_window (fst (spec_handle_data 8 (spec_new 4 8) 1 Last [7, 9])) = [None, Some (Last, [7, 9]), None, None]"
    by (simp add: spec_handle_data_def spec_new_def SEQUENCE_COUNT_MAX_def Let_def numeral_eq_Suc)
  ultimately show ?thesis by auto
qed

text \<open>
  C18: In-order delivery. Whatever the network does to a stream of packets of at most
  \<open>MTU\<close> bytes (loss, reordering, duplication within the range of the 14-bit numbers), however
  often the progress timer skips a gap, and whenever the application takes a message: the
  fast receiver never panics, and the messages it hands over are messages of the stream,
  byte for byte, each at most once and in the order of the stream.
\<close>

theorem fast_receiver_in_order:
  assumes "fast_params WIN MTU"
  shows "\<exists>n r ms. rx_feed (fast_handle_data WIN MTU REASM) (fast_skip_gap WIN MTU REASM) fast_take_message fast_expected_seq
      (\<lambda>r seq flags payload. length payload \<le> MTU) (\<lambda>r. True) WIN f 0 (fast_new WIN REASM (WIN * MTU)) ins = Returns (n, r, ms)
    \<and> fast_expected_seq r = seq14 n \<and> in_order_messages f 0 n ms"
  by (rule receiver_backend.delivers_in_order [OF fast_backend [OF assms]])

lemmas fast_eval =
  fast_handle_data_def fast_new_def fast_slot_idx_def fast_store_ooo_def slot_map_new_def slot_write_def slot_read_def
  fast_deliver_buffered.simps fast_take_message_def fast_expected_seq_def

theorem fast_receiver_in_order_witness:
  "\<exists>n r ms. rx_feed (fast_handle_data 4 2 8) (fast_skip_gap 4 2 8) fast_take_message fast_expected_seq
      (\<lambda>r seq flags payload. length payload \<le> 2) (\<lambda>r. True) 4 (\<lambda>i. if even i then (First, [1, 2]) else (Last, [3])) 0
      (fast_new 4 8 8) [Arrive 1, Arrive 0, Take] = Returns (n, r, ms)
    \<and> in_order_messages (\<lambda>i. if even i then (First, [1, 2]) else (Last, [3])) 0 n ms \<and> ms = [[1, 2, 3]]"
proof -
  let ?f = "\<lambda>i. if even i then (First, [1, 2]) else (Last, [3])"
  let ?ins = "[Arrive 1, Arrive 0, Take]"
  obtain n r ms where run: "rx_feed (fast_handle_data 4 2 8) (fast_skip_gap 4 2 8) fast_take_message fast_expected_seq
      (\<lambda>r seq flags payload. length payload \<le> 2) (\<lambda>r. True) 4 ?f 0 (fast_new 4 8 8) ?ins = Returns (n, r, ms)"
    "in_order_messages ?f 0 n ms"
    using fast_receiver_in_order [of 4 2 8 ?f ?ins] by (auto simp: fast_params_def ring_size_def)
  moreover have "map_outcome (\<lambda>(n, r, ms). ms) (rx_feed (fast_handle_data 4 2 8) (fast_skip_gap 4 2 8) fast_take_message fast_expected_seq
      (\<lambda>r seq flags payload. length payload \<le> 2) (\<lambda>r. True) 4 ?f 0 (fast_new 4 8 8) ?ins) = Returns [[1, 2, 3]]"
    by (simp add: rx_eval fast_eval list_update_numeral replicate_four_eight replicate_two)
  ultimately show ?thesis by auto
qed

end
