(* ===== verification/Srspp_Link.thy ===== *)
theory Srspp_Link
  imports Srspp_Sender Rx_Fast
begin

text \<open>
  Sender and receiver of SRSPP together, over a network that loses, reorders, duplicates and
  delays data packets and acknowledgements. The state pairs \<open>SenderMachine\<close> with
  \<open>FastReceiver\<close> and \<open>AckState\<close>; three ghost components record what was queued so far, how
  many packets the receiver has passed, and which packets and acknowledgements the network
  may still deliver. Delays are bounded as the 14-bit numbers require: a data packet arrives
  before the receiver is \<open>16384 - WIN\<close> packets past it, an acknowledgement before 8192 more
  packets are queued.

  The two sides disagree on the selective bitmap: the receiver sets bit \<open>k\<close> for the packet
  \<open>k + 1\<close> after the expected one, the sender reads bit \<open>k\<close> as the packet \<open>k\<close> after it. So an
  acknowledgement with a selective bitmap makes the sender forget the very packet that is
  missing (\<open>srspp_ack_frees_missing\<close>). The guarantee proved for the link
  (\<open>srspp_keeps_undelivered\<close>) is therefore about runs whose acknowledgements carry an empty
  bitmap. Runs in which the sender declares a packet lost, the receiver skips a gap, or the
  receiver reports an error are excluded too: after them the protocol promises no delivery.
\<close>

section \<open>What the receiver holds\<close>

definition held :: "nat \<Rightarrow> 'p option list \<Rightarrow> nat set" where
  "held n w = {i. i < n} \<union> {n + d | d. d < length w \<and> w ! d \<noteq> None}"

lemma heldI: "i < n \<Longrightarrow> i \<in> held n w" "d < length w \<Longrightarrow> w ! d \<noteq> None \<Longrightarrow> n + d \<in> held n w"
  by (auto simp: held_def)

lemma held_nth: "n \<le> i \<Longrightarrow> i \<in> held n w \<longleftrightarrow> i - n < length w \<and> w ! (i - n) \<noteq> None"
  by (auto simp: held_def intro!: exI [of _ "i - n"])

lemma run_window_ok:
  "run_window REASM R w = (R', w', k, None) \<Longrightarrow> w' = drop k w \<and> k \<le> length w \<and> (\<forall>d<k. w ! d \<noteq> None)"
proof (induction REASM R w arbitrary: R' w' k rule: run_window.induct)
  case (1 REASM R p w)
  show ?case
  proof (cases "deliver_or_skip REASM R (fst p) (snd p)")
    case (Inr R1)
    obtain R2 w2 k2 e2 where r: "run_window REASM R1 w = (R2, w2, k2, e2)" by (metis prod_cases4)
    then have k: "w' = w2" "k = Suc k2" "e2 = None" using "1.prems" Inr by auto
    then have "w2 = drop k2 w" "k2 \<le> length w" "\<forall>d<k2. w ! d \<noteq> None" using "1.IH" [OF Inr] r by auto
    then show ?thesis using k by (auto simp: nth_Cons split: nat.splits)
  qed (use "1.prems" in auto)
qed auto

lemma held_pad: "held n (pad_window N w) = held n w"
  by (auto simp: held_def pad_window_def nth_append)

lemma held_drop:
  assumes "\<forall>d<k. w ! d \<noteq> None" "k \<le> length w"
  shows "held (n + k) (drop k w) = held n w"
proof (intro set_eqI iffI)
  fix i assume "i \<in> held (n + k) (drop k w)"
  then consider "i < n" | "n \<le> i" "i < n + k" | d where "i = n + k + d" "d < length w - k" "w ! (k + d) \<noteq> None"
    by (fastforce simp: held_def)
  then show "i \<in> held n w"
  proof cases
    case 2
    then show ?thesis using assms by (simp add: held_nth)
  next
    case 3
    then show ?thesis using heldI(2) [of "k + d" w n] by (simp add: add.assoc)
  qed (simp add: held_def)
next
  fix i assume i: "i \<in> held n w"
  show "i \<in> held (n + k) (drop k w)"
  proof (cases "i < n + k")
    case False
    then have "i - n < length w" "w ! (i - n) \<noteq> None" using i by (simp_all add: held_nth)
    then show ?thesis using False assms(2) by (simp add: held_nth)
  qed (simp add: held_def)
qed

text \<open>A packet accepted without error joins the packets held; nothing held is dropped.\<close>

lemma spec_handle_data_held:
  assumes "sp_expected s = seq14 n" "length (sp_window s) = WIN" "0 < WIN" "WIN < 16384"
    "n + WIN \<le> i + 16384" "i < n + 16384" "spec_handle_data REASM s (seq14 i) flags payload = (s', Inr outc)"
  shows "\<exists>k\<le>WIN. sp_expected s' = seq14 (n + k) \<and> length (sp_window s') = WIN
    \<and> held (n + k) (sp_window s') = (if n \<le> i \<and> i < n + WIN then insert i (held n (sp_window s)) else held n (sp_window s))"
proof -
  let ?d = "unat ((seq14 i - seq14 n) AND SEQUENCE_COUNT_MAX)"
  let ?w = "sp_window s"
  have ahead: "n \<le> i \<Longrightarrow> ?d = i - n" using distance_ahead assms(6) by blast
  have far: "i < n \<Longrightarrow> WIN \<le> ?d" using distance_behind [of i n] assms(3,4,5) by simp
  show ?thesis
  proof (cases "?d = 0")
    case True
    then have i: "i = n" using ahead far assms(3) by (cases "n \<le> i") auto
    obtain R where R: "deliver_or_skip REASM (sp_reasm s) flags payload = Inr R"
      using assms(1,7) True i by (cases "deliver_or_skip REASM (sp_reasm s) flags payload") (auto simp: spec_handle_data_def)
    obtain R2 w2 k2 e2 where run: "run_window REASM R (tl ?w) = (R2, w2, k2, e2)" by (metis prod_cases4)
    have e2: "e2 = None" and s': "s' = s\<lparr>sp_expected := seq14 (n + Suc k2), sp_window := pad_window WIN w2, sp_reasm := R2\<rparr>"
      using assms(1,2,7) True i R run seq14_add [of n "Suc k2"]
      by (auto simp: spec_handle_data_def spec_advance_def spec_outcome_def split: option.splits)
    note ok = run_window_ok [OF run [unfolded e2]]
    have ws: "?w = hd ?w # tl ?w" using assms(2,3) by (cases ?w) auto
    have "held (n + Suc k2) w2 = held (Suc n) (tl ?w)" using held_drop [of k2 "tl ?w" "Suc n"] ok by simp
    also have "\<dots> = insert n (held n ?w)"
    proof (intro set_eqI)
      fix j show "j \<in> held (Suc n) (tl ?w) \<longleftrightarrow> j \<in> insert n (held n ?w)"
      proof (cases "j \<le> n")
        case False
        then obtain d where "j = Suc n + d" by (metis Suc_leI le_Suc_ex not_le)
        moreover have "?w ! Suc d = tl ?w ! d" using ws by (metis nth_Cons_Suc)
        ultimately show ?thesis using assms(2,3) by (auto simp: held_nth)
      qed (auto simp: held_def)
    qed
    finally have "held (n + Suc k2) w2 = insert n (held n ?w)" .
    moreover have "Suc k2 \<le> WIN" using ok assms(2,3) by (cases ?w) auto
    ultimately show ?thesis using s' i ok assms(2,3) by (intro exI [of _ "Suc k2"]) (auto simp: held_pad)
  next
    case False
    have s': "s' = (if ?d < WIN \<and> ?w ! ?d = None then s\<lparr>sp_window := ?w[?d := Some (flags, payload)]\<rparr> else s)"
      using assms(1,2,7) False by (auto simp: spec_handle_data_def Let_def split: if_splits)
    show ?thesis
    proof (cases "n \<le> i \<and> i < n + WIN")
      case True
      then have d: "?d = i - n" "i = n + ?d" "?d < WIN" using ahead by auto
      have "held n (?w[?d := Some (flags, payload)]) = insert i (held n ?w)"
      proof (intro set_eqI)
        fix j show "j \<in> held n (?w[?d := Some (flags, payload)]) \<longleftrightarrow> j \<in> insert i (held n ?w)"
        proof (cases "n \<le> j")
          case True
          then show ?thesis using d assms(2) by (auto simp: held_nth nth_list_update)
        qed (auto simp: held_def)
      qed
      moreover have "insert i (held n ?w) = held n ?w" if "?w ! ?d \<noteq> None"
        using heldI(2) [of ?d ?w n] that d assms(2) by auto
      ultimately show ?thesis using s' True assms(1,2) d by (intro exI [of _ 0]) auto
    next
      case out: False
      then have "\<not> ?d < WIN" using ahead far by (cases "n \<le> i") auto
      then show ?thesis using s' out assms(1,2) by (intro exI [of _ 0]) auto
    qed
  qed
qed

section \<open>What the sender adds\<close>

text \<open>A send request or an end-of-stream request adds consecutively numbered packets, also when it fails half-way.\<close>

definition adds :: "nat \<Rightarrow> sender \<Rightarrow> sender \<Rightarrow> PayloadInfo list \<Rightarrow> bool" where
  "adds W s s' ps \<longleftrightarrow> sender_wf W s' \<and> mset (in_flight s') = mset ps + mset (in_flight s) \<and> numbered (s_next_seq s) ps
     \<and> s_next_seq s' = (s_next_seq s + of_nat (length ps)) AND SEQUENCE_COUNT_MAX"

lemma adds_none: "sender_wf W s' \<Longrightarrow> in_flight s' = in_flight s \<Longrightarrow> s_next_seq s' = s_next_seq s \<Longrightarrow> sender_wf W s \<Longrightarrow> adds W s s' []"
  by (simp add: adds_def sender_wf_def and_seq_max seq14_unat)

lemma adds_Cons:
  assumes "sender_wf W s" "mset (in_flight s1) = add_mset p (mset (in_flight s))" "pi_seq p = s_next_seq s"
    "s_next_seq s1 = (s_next_seq s + 1) AND SEQUENCE_COUNT_MAX" "adds W s1 s' ps"
  shows "adds W s s' (p # ps)"
proof -
  have "unat (s_next_seq s) < 16384" using assms(1) by (simp add: sender_wf_def)
  then show ?thesis using assms advance_then_add [of "s_next_seq s" "length ps"] by (simp add: adds_def)
qed

lemma queue_packet_adds:
  assumes "sender_wf W s" "queue_packet s target payload flags seg acts = (s', acts', r)"
  shows "\<exists>ps. adds W s s' ps"
proof (cases r)
  case None
  note q = queue_packet_ok [OF assms(1) assms(2) [unfolded None]]
  have "adds W s' s' []" using q(1) adds_none by blast
  then show ?thesis using adds_Cons [OF assms(1) q(2) _ q(3)] by fastforce
next
  case (Some e)
  note q = queue_packet_err [OF assms(1) assms(2) [unfolded Some]]
  show ?thesis using adds_none [OF q(1,2,3) assms(1)] by blast
qed

lemma segment_loop_adds:
  "sender_wf W s \<Longrightarrow> segment_loop mp target data first s acts = (s', acts', r) \<Longrightarrow> \<exists>ps. adds W s s' ps"
proof (induction mp target data first s acts arbitrary: s' acts' r rule: segment_loop.induct)
  case (1 mp target data first s acts)
  let ?n = "min (length data) mp"
  let ?fl = "if first then First else if length data \<le> ?n then Last else Continuation"
  obtain s1 acts1 r1 where q: "queue_packet s target (take ?n data) ?fl True acts = (s1, acts1, r1)" by (metis prod_cases3)
  show ?case
  proof (cases "data = []")
    case True
    then have "s' = s" using "1.prems"(2) by (simp add: segment_loop.simps)
    then show ?thesis using adds_none "1.prems"(1) by blast
  next
    case False
    show ?thesis
    proof (cases r1)
      case None
      note q1 = queue_packet_ok [OF "1.prems"(1) q [unfolded None]]
      have "segment_loop mp target (drop ?n data) False s1 acts1 = (s', acts', r)"
        using "1.prems"(2) False q None by (simp add: segment_loop.simps [of mp target data] Let_def)
      then have "\<exists>ps. adds W s1 s' ps" by (rule "1.IH" [OF False refl refl refl q [symmetric] refl None q1(1)])
      then show ?thesis using adds_Cons [OF "1.prems"(1) q1(2) _ q1(3)] by fastforce
    next
      case (Some e)
      then have "s' = s1" using "1.prems"(2) False q by (simp add: segment_loop.simps [of mp target data] Let_def)
      then show ?thesis using queue_packet_adds [OF "1.prems"(1) q] by blast
    qed
  qed
qed

lemma queue_eos_adds:
  assumes "sender_wf W s" "queue_eos s target acts = (s', acts', r)"
  shows "\<exists>ps. adds W s s' ps"
proof (cases r)
  case None
  note q = queue_eos_ok [OF assms(1) assms(2) [unfolded None]]
  have "adds W s' s' []" using q(1) adds_none by blast
  then show ?thesis using adds_Cons [OF assms(1) q(2) _ q(3)] by fastforce
next
  case (Some e)
  then have "s' = s" using assms(2) by (auto simp: queue_eos_def Let_def split: option.splits)
  then show ?thesis using adds_none [OF assms(1) refl refl assms(1)] by blast
qed

definition is_send :: "SenderEvent \<Rightarrow> bool" where
  "is_send ev \<longleftrightarrow> (case ev of SendRequest _ _ \<Rightarrow> True | SendEos _ \<Rightarrow> True | _ \<Rightarrow> False)"

lemma send_adds:
  assumes "sender_wf W s" "is_send ev" "sender_handle MTU s ev acts = (s', acts', r)"
  shows "\<exists>ps. adds W s s' ps"
proof (cases ev)
  case (SendRequest target data)
  then show ?thesis
    using assms(3) queue_packet_adds [OF assms(1)] segment_loop_adds [OF assms(1)]
    by (auto simp: sender_handle_def handle_send_request_def Let_def split: if_splits)
next
  case (SendEos target)
  then show ?thesis using assms(3) queue_eos_adds [OF assms(1)] by (simp add: sender_handle_def)
qed (use assms(2) in \<open>auto simp: is_send_def\<close>)

lemma numbered_nth: "numbered (seq14 n) ps \<Longrightarrow> i < length ps \<Longrightarrow> pi_seq (ps ! i) = seq14 (n + i)"
proof (induction ps arbitrary: n i)
  case (Cons p ps)
  then show ?case by (cases i) (auto simp: Cons.IH [of "Suc n"])
qed simp

section \<open>The link\<close>

record srspp_link =
  sl_tx :: sender
  sl_rx :: fast
  sl_as :: AckState
  sl_log :: "PayloadInfo list"
  sl_passed :: nat
  sl_net :: "nat set"
  sl_acks :: "(nat \<times> AckInfo) set"

definition srspp_init :: "nat \<Rightarrow> nat \<Rightarrow> nat \<Rightarrow> nat \<Rightarrow> SenderConfig \<Rightarrow> ReceiverConfig \<Rightarrow> bytes \<Rightarrow> srspp_link" where
  "srspp_init W WIN MTU REASM sc rc buf =
     \<lparr>sl_tx = sender_new W sc buf, sl_rx = fast_new WIN REASM (WIN * MTU), sl_as = ack_state_new rc (sc_source_address sc),
      sl_log = [], sl_passed = 0, sl_net = {}, sl_acks = {}\<rparr>"

text \<open>The acknowledgement of a result, if there is one, is stamped with the packets passed when it was sent.\<close>

definition post_ack :: "nat \<Rightarrow> HandleResult \<Rightarrow> (nat \<times> AckInfo) set \<Rightarrow> (nat \<times> AckInfo) set" where
  "post_ack n hr acks = (case hr_ack hr of None \<Rightarrow> acks | Some a \<Rightarrow> insert (n, a) acks)"

inductive srspp_step :: "nat \<Rightarrow> nat \<Rightarrow> nat \<Rightarrow> nat \<Rightarrow> nat \<Rightarrow> srspp_link \<Rightarrow> srspp_link \<Rightarrow> bool"
  for W SMTU WIN MTU REASM where
  send: "is_send ev \<Longrightarrow> sender_handle SMTU (sl_tx l) ev [] = (tx, acts, r) \<Longrightarrow> adds W (sl_tx l) tx ps \<Longrightarrow>
    srspp_step W SMTU WIN MTU REASM l (l\<lparr>sl_tx := tx, sl_log := sl_log l @ ps\<rparr>)"
| transmit: "i < length (sl_log l) \<Longrightarrow> get_payload (sl_tx l) (pi_seq (sl_log l ! i)) = Some (sl_log l ! i) \<Longrightarrow>
    srspp_step W SMTU WIN MTU REASM l
      (l\<lparr>sl_tx := mark_transmitted (sl_tx l) (pi_seq (sl_log l ! i)), sl_net := insert i (sl_net l)\<rparr>)"
| timeout: "sender_handle SMTU (sl_tx l) (RetransmitTimeout q) [] = (tx, acts, r) \<Longrightarrow> PacketLost q \<notin> set acts \<Longrightarrow>
    srspp_step W SMTU WIN MTU REASM l (l\<lparr>sl_tx := tx\<rparr>)"
| arrive: "i \<in> sl_net l \<Longrightarrow> sl_passed l + WIN \<le> i + 16384 \<Longrightarrow> p = sl_log l ! i \<Longrightarrow> length (pi_payload p) \<le> MTU \<Longrightarrow>
    fast_handle_data WIN MTU REASM (sl_rx l) (pi_seq p) (pi_flags p) (pi_payload p) = Returns (rx, Inr outc) \<Longrightarrow>
    on_data (sl_as l) outc (fast_expected_seq rx) (fast_recv_bitmap rx) = (as, hr) \<Longrightarrow>
    n = sl_passed l + rx_moved (fast_expected_seq (sl_rx l)) (fast_expected_seq rx) \<Longrightarrow>
    srspp_step W SMTU WIN MTU REASM l
      (l\<lparr>sl_rx := rx, sl_as := as, sl_passed := n, sl_acks := post_ack n hr (sl_acks l)\<rparr>)"
| ack_timer: "on_ack_timeout (sl_as l) (fast_expected_seq (sl_rx l)) (fast_recv_bitmap (sl_rx l)) = (as, hr) \<Longrightarrow>
    srspp_step W SMTU WIN MTU REASM l (l\<lparr>sl_as := as, sl_acks := post_ack (sl_passed l) hr (sl_acks l)\<rparr>)"
| ack: "(m, a) \<in> sl_acks l \<Longrightarrow> ai_selective_bitmap a = 0 \<Longrightarrow> length (sl_log l) \<le> m + 8192 \<Longrightarrow>
    sender_handle SMTU (sl_tx l) (AckReceived (ai_cumulative_ack a) (ai_selective_bitmap a)) [] = (tx, acts, r) \<Longrightarrow>
    srspp_step W SMTU WIN MTU REASM l (l\<lparr>sl_tx := tx\<rparr>)"
| take_msg: "fast_take_message (sl_rx l) = (rx, msg) \<Longrightarrow>
    srspp_step W SMTU WIN MTU REASM l (l\<lparr>sl_rx := rx\<rparr>)"

abbreviation srspp_reach :: "nat \<Rightarrow> nat \<Rightarrow> nat \<Rightarrow> nat \<Rightarrow> nat \<Rightarrow> srspp_link \<Rightarrow> srspp_link \<Rightarrow> bool" where
  "srspp_reach W SMTU WIN MTU REASM \<equiv> (srspp_step W SMTU WIN MTU REASM)\<^sup>*\<^sup>*"

section \<open>Acknowledgements\<close>

lemma emit_ack_info:
  "on_data as outc e b = (as', hr) \<Longrightarrow> hr_ack hr = Some a \<Longrightarrow>
     ai_cumulative_ack a = SequenceCount_from ((e - 1) AND SEQUENCE_COUNT_MAX) \<and> ai_selective_bitmap a = b"
  "on_ack_timeout as e b = (as', hr) \<Longrightarrow> hr_ack hr = Some a \<Longrightarrow>
     ai_cumulative_ack a = SequenceCount_from ((e - 1) AND SEQUENCE_COUNT_MAX) \<and> ai_selective_bitmap a = b"
  by (auto simp: on_data_def on_ack_timeout_def emit_ack_def HandleResult_default_def Let_def split: if_splits)

lemma cumulative_number: "SequenceCount_from ((seq14 m - 1) AND SEQUENCE_COUNT_MAX) = seq14 (m + 16383)"
proof -
  have "seq14 m = seq14 (Suc (m + 16383))" by (simp add: seq14_eq_iff)
  then have "(seq14 m - 1) AND SEQUENCE_COUNT_MAX = seq14 (m + 16383)" using seq14_pred [of "m + 16383"] by simp
  then show ?thesis by (simp add: SequenceCount_from_def and_seq_max)
qed

text \<open>Within half the number space, the cumulative number covers exactly the packets passed.\<close>

lemma cum_acked_index:
  assumes "m \<le> i + 8191" "i \<le> m + 8192"
  shows "cum_acked (seq14 (m + 16383)) (seq14 i) \<longleftrightarrow> i < m"
proof -
  have half: "unat (SEQUENCE_COUNT_MAX div 2) = 8191" by (simp add: SEQUENCE_COUNT_MAX_def)
  show ?thesis
  proof (cases "i < m")
    case True
    then have "m + 16383 = m - 1 + 16384" by simp
    then have "seq14 (m + 16383) = seq14 (m - 1)" by (simp only: seq14_eq_iff mod_add_self2)
    then have "unat ((seq14 (m + 16383) - seq14 i) AND SEQUENCE_COUNT_MAX) = m - 1 - i"
      using distance_ahead [of i "m - 1"] True assms(1) by simp
    then show ?thesis using True assms(1) half by (simp add: cum_acked_def word_less_nat_alt)
  next
    case False
    then have "unat ((seq14 (m + 16383) - seq14 i) AND SEQUENCE_COUNT_MAX) = m + 16383 - i"
      using distance_ahead [of i "m + 16383"] assms(2) by simp
    then show ?thesis using False assms(2) half by (simp add: cum_acked_def word_less_nat_alt)
  qed
qed

section \<open>The invariant of the link\<close>

text \<open>The packets in flight are those queued from position \<open>b\<close> on, and \<open>b\<close> never overtakes the receiver.\<close>

definition srspp_inv :: "nat \<Rightarrow> nat \<Rightarrow> nat \<Rightarrow> nat \<Rightarrow> srspp_link \<Rightarrow> bool" where
  "srspp_inv W WIN MTU b l \<longleftrightarrow>
     sender_wf W (sl_tx l) \<and> fast_inv WIN MTU (sl_rx l) \<and>
     s_next_seq (sl_tx l) = seq14 (length (sl_log l)) \<and> rb_expected (fr_base (sl_rx l)) = seq14 (sl_passed l) \<and>
     (\<forall>i<length (sl_log l). pi_seq (sl_log l ! i) = seq14 i) \<and>
     b \<le> sl_passed l \<and> mset (in_flight (sl_tx l)) = mset (drop b (sl_log l)) \<and>
     held (sl_passed l) (fast_window WIN MTU (sl_rx l)) \<subseteq> {..<length (sl_log l)} \<and>
     sl_net l \<subseteq> {..<length (sl_log l)} \<and>
     (\<forall>(m, a)\<in>sl_acks l. m \<le> sl_passed l \<and> ai_cumulative_ack a = seq14 (m + 16383))"

lemma in_flight_le: "sender_wf W s \<Longrightarrow> length (in_flight s) \<le> W"
  using length_filter_le [of live "s_meta s"] by (simp add: in_flight_def sender_wf_def)

lemma passed_le: "held n w \<subseteq> {..<L} \<Longrightarrow> n \<le> L"
  by (cases n) (auto simp: held_def)

lemma post_ack_ok:
  assumes "\<forall>(m, a)\<in>acks. m \<le> n \<and> ai_cumulative_ack a = seq14 (m + 16383)" "n \<le> n'"
    "\<And>a. hr_ack hr = Some a \<Longrightarrow> ai_cumulative_ack a = seq14 (n' + 16383)"
  shows "\<forall>(m, a)\<in>post_ack n' hr acks. m \<le> n' \<and> ai_cumulative_ack a = seq14 (m + 16383)"
  using assms by (auto simp: post_ack_def split: option.splits)

lemma fast_expected: "fast_inv WIN MTU r \<Longrightarrow> fast_expected_seq r = rb_expected (fr_base r)"
  by (simp add: fast_expected_seq_def base_expected_seq_def fast_inv_def fast_core_def SequenceCount_from_def and_seq_max seq14_unat)

lemma timeout_keeps:
  assumes "sender_wf W s" "sender_handle MTU s (RetransmitTimeout q) [] = (s', acts, r)" "PacketLost q \<notin> set acts"
  shows "in_flight s' = in_flight s \<and> s_next_seq s' = s_next_seq s"
proof -
  obtain ms lost a where t: "timeout_slots (s_config s) q (s_meta s) [] = (ms, lost, a)" by (metis prod_cases3)
  have st: "s' = update_send_base (s\<lparr>s_meta := ms\<rparr>)" "set a \<subseteq> set acts"
    using assms(2) by (auto simp: sender_handle_def handle_timeout_def t Let_def sender_push_def vec_push_def split: if_splits)
  have "PacketLost q \<notin> set (snd (snd (timeout_slots cfg q ms []))) \<Longrightarrow>
      map (payload_info d) (filter live (fst (timeout_slots cfg q ms []))) = map (payload_info d) (filter live ms)" for cfg d ms
    by (induction ms) (auto simp: case_prod_beta Let_def live_def payload_info_def sender_push_def vec_push_def SENDER_MAX_ACTIONS_def split: if_splits)
  from this [of "s_config s" "s_meta s" "s_data s"] show ?thesis
    using st assms(3) t by (auto simp: in_flight_def update_send_base_def case_prod_beta)
qed

text \<open>A cumulative acknowledgement leaves the packets from the number acknowledged on.\<close>

lemma filter_drop_from:
  "filter (\<lambda>i. m \<le> i) [b..<L] = [max b m..<L]"
proof (cases "m \<le> L")
  case True
  show ?thesis
  proof (cases "m \<le> b")
    case False
    then have "[b..<L] = [b..<m] @ [m..<L]" using True upt_add_eq_append [of b m "L - m"] by simp
    then show ?thesis using False by simp
  qed simp
next
  case False
  then show ?thesis by simp
qed

lemma drop_nths: "drop k xs = map ((!) xs) [k..<length xs]"
  using drop_map [of k "(!) xs" "[0..<length xs]"] by (simp only: map_nth drop_upt add_0)

lemma ack_drops:
  assumes "sender_wf W s" "W \<le> 8191" "mset (in_flight s) = mset (drop b log)" "\<forall>i<length log. pi_seq (log ! i) = seq14 i"
    "m \<le> length log" "length log \<le> m + 8192"
    "sender_handle MTU s (AckReceived (seq14 (m + 16383)) 0) [] = (s', acts, r)"
  shows "sender_wf W s' \<and> mset (in_flight s') = mset (drop (max b m) log) \<and> s_next_seq s' = s_next_seq s"
proof -
  let ?L = "length log"
  have span: "?L \<le> b + W" using in_flight_le [OF assms(1)] assms(3) by (metis size_mset length_drop le_diff_conv add.commute)
  note dm = drop_nths [of _ log]
  have seqs: "mset (map pi_seq (in_flight s)) = mset (map seq14 [b..<?L])"
  proof -
    have "mset (map pi_seq (in_flight s)) = mset (map pi_seq (drop b log))" using assms(3) by simp
    also have "map pi_seq (drop b log) = map seq14 [b..<?L]" unfolding dm using assms(4) by simp
    finally show ?thesis .
  qed
  have "inj_on seq14 (set [b..<?L])"
  proof (rule inj_onI)
    fix i j assume ij: "i \<in> set [b..<?L]" "j \<in> set [b..<?L]" "seq14 i = seq14 j"
    then have "i < j + 16384" "j < i + 16384" using span assms(2) by auto
    with ij(3) show "i = j" by (rule seq14_inj)
  qed
  then have "distinct (map seq14 [b..<?L])" by (simp add: distinct_map)
  then have dist: "distinct (map pi_seq (in_flight s))" using mset_eq_imp_distinct_iff [OF seqs] by simp
  have s': "s' = fst (handle_ack s (seq14 (m + 16383)) 0 [])" using assms(7) by (auto simp: sender_handle_def case_prod_beta)
  note h = handle_ack_in_flight [OF assms(1) dist, of "seq14 (m + 16383)" 0 "[]"]
  have cov: "ack_covers (seq14 (m + 16383)) 0 (pi_seq (log ! i)) \<longleftrightarrow> i < m" if "i \<in> set [b..<?L]" for i
    using that assms(2,4,5,6) span cum_acked_index [of m i] by (simp add: ack_covers_def)
  have "mset (in_flight s') = mset (filter (\<lambda>p. \<not> ack_covers (seq14 (m + 16383)) 0 (pi_seq p)) (drop b log))"
    using h(2) s' assms(3) by (simp add: mset_filter)
  also have "filter (\<lambda>p. \<not> ack_covers (seq14 (m + 16383)) 0 (pi_seq p)) (drop b log) = map ((!) log) (filter (\<lambda>i. m \<le> i) [b..<?L])"
    unfolding dm filter_map using cov by (intro arg_cong [where f = "map _"] filter_cong) (auto simp: not_less)
  also have "\<dots> = drop (max b m) log" unfolding filter_drop_from dm ..
  finally have "mset (in_flight s') = mset (drop (max b m) log)" .
  moreover have "s_next_seq s' = s_next_seq s"
    using s' by (simp add: handle_ack_def Let_def case_prod_beta update_send_base_def)
  ultimately show ?thesis using h(1) s' by simp
qed

lemma srspp_init_inv:
  assumes "fast_params WIN MTU"
  shows "srspp_inv W WIN MTU 0 (srspp_init W WIN MTU REASM sc rc buf)"
proof -
  let ?r = "fast_new WIN REASM (WIN * MTU)"
  have inv: "fast_inv WIN MTU ?r" "fast_window WIN MTU ?r = replicate WIN None"
    using fast_new_refines [OF assms, of REASM] by (simp_all add: fast_abs_def spec_new_def)
  have "in_flight (sender_new W sc buf) = []"
    by (simp add: in_flight_def sender_new_def PacketMeta_default_def live_def)
  then show ?thesis using inv
    by (simp add: srspp_inv_def srspp_init_def sender_new_wf) (auto simp: sender_new_def fast_new_def base_new_def seq14_def held_def)
qed

lemma srspp_arrive_inv:
  assumes "srspp_inv W WIN MTU b l" "fast_params WIN MTU" "W \<le> 8191" "i \<in> sl_net l" "sl_passed l + WIN \<le> i + 16384"
    "p = sl_log l ! i" "length (pi_payload p) \<le> MTU"
    "fast_handle_data WIN MTU REASM (sl_rx l) (pi_seq p) (pi_flags p) (pi_payload p) = Returns (rx, Inr outc)"
    "on_data (sl_as l) outc (fast_expected_seq rx) (fast_recv_bitmap rx) = (as, hr)"
    "n = sl_passed l + rx_moved (fast_expected_seq (sl_rx l)) (fast_expected_seq rx)"
  shows "srspp_inv W WIN MTU b (l\<lparr>sl_rx := rx, sl_as := as, sl_passed := n, sl_acks := post_ack n hr (sl_acks l)\<rparr>)"
proof -
  let ?n = "sl_passed l" and ?L = "length (sl_log l)" and ?s = "fast_abs WIN MTU (sl_rx l)"
  have b: "b \<le> ?n" "mset (in_flight (sl_tx l)) = mset (drop b (sl_log l))" using assms(1) by (auto simp: srspp_inv_def)
  have inv: "fast_inv WIN MTU (sl_rx l)" "rb_expected (fr_base (sl_rx l)) = seq14 ?n" "sender_wf W (sl_tx l)"
    "held ?n (fast_window WIN MTU (sl_rx l)) \<subseteq> {..<?L}" "i < ?L" "pi_seq p = seq14 i"
    using assms(1,4,6) by (auto simp: srspp_inv_def)
  have "?L \<le> b + W" using in_flight_le [OF inv(3)] b(2) by (metis size_mset length_drop le_diff_conv add.commute)
  then have near: "i < ?n + 16384" using inv(5) b(1) assms(3) by simp
  have W: "0 < WIN" "WIN < 16384" using assms(2) by (auto simp: fast_params_def ring_size_def)
  have rx: "fast_inv WIN MTU rx" "spec_handle_data REASM ?s (seq14 i) (pi_flags p) (pi_payload p) = (fast_abs WIN MTU rx, Inr outc)"
    using fast_handle_data_refines [OF assms(2) inv(1) _ assms(7), of "seq14 i" REASM "pi_flags p"] assms(8) inv(6) by auto
  have sp: "sp_expected ?s = seq14 ?n" "length (sp_window ?s) = WIN" using inv(2) by (simp_all add: fast_abs_def)
  obtain k where k: "k \<le> WIN" "rb_expected (fr_base rx) = seq14 (?n + k)"
    "held (?n + k) (fast_window WIN MTU rx) = (if ?n \<le> i \<and> i < ?n + WIN then insert i (held ?n (fast_window WIN MTU (sl_rx l)))
       else held ?n (fast_window WIN MTU (sl_rx l)))"
    using spec_handle_data_held [OF sp W assms(5) near rx(2)] by (auto simp: fast_abs_def)
  have n: "n = ?n + k" using assms(10) k(1,2) inv(1,2) rx(1) W by (simp add: fast_expected rx_moved_seq14)
  have "held n (fast_window WIN MTU rx) \<subseteq> {..<?L}" using k(3) inv(4,5) n by (auto split: if_splits)
  moreover have "\<forall>(m, a)\<in>post_ack n hr (sl_acks l). m \<le> n \<and> ai_cumulative_ack a = seq14 (m + 16383)"
    using assms(1) n emit_ack_info(1) [OF assms(9)] cumulative_number [of n] k(2) fast_expected [OF rx(1)]
    by (intro post_ack_ok [of _ ?n]) (auto simp: srspp_inv_def)
  ultimately show ?thesis using assms(1) rx(1) k(2) n b by (auto simp: srspp_inv_def)
qed

lemma srspp_step_inv:
  assumes "srspp_step W SMTU WIN MTU REASM l l'" "srspp_inv W WIN MTU b l" "fast_params WIN MTU" "W \<le> 8191"
  shows "\<exists>b'. srspp_inv W WIN MTU b' l'"
  using assms(1)
proof (cases rule: srspp_step.cases)
  case (send ev tx acts r ps)
  let ?L = "length (sl_log l)"
  have b: "b \<le> sl_passed l" "mset (in_flight (sl_tx l)) = mset (drop b (sl_log l))" using assms(2) by (auto simp: srspp_inv_def)
  have "sl_passed l \<le> ?L" using assms(2) passed_le by (auto simp: srspp_inv_def)
  then have fl: "mset (in_flight tx) = mset (drop b (sl_log l @ ps))" using send(4) b by (simp add: adds_def)
  have num: "numbered (seq14 ?L) ps" and nx: "s_next_seq tx = seq14 (?L + length ps)"
    using send(4) assms(2) by (auto simp: adds_def srspp_inv_def)
  have "pi_seq ((sl_log l @ ps) ! i) = seq14 i" if "i < ?L + length ps" for i
    using that assms(2) numbered_nth [OF num, of "i - ?L"] by (auto simp: srspp_inv_def nth_append)
  then have "srspp_inv W WIN MTU b l'" using assms(2) send(1,4) fl nx by (auto simp: srspp_inv_def adds_def)
  then show ?thesis by blast
next
  case (transmit i)
  have "in_flight (mark_transmitted s q) = in_flight s" "s_next_seq (mark_transmitted s q) = s_next_seq s" for s q
    by (simp_all add: in_flight_def mark_transmitted_def mark_slots_info)
  then have "srspp_inv W WIN MTU b l'" using assms(2) transmit by (auto simp: srspp_inv_def mark_transmitted_wf)
  then show ?thesis by blast
next
  case (timeout q tx acts r)
  have "sender_wf W (sl_tx l)" using assms(2) by (simp add: srspp_inv_def)
  then have "srspp_inv W WIN MTU b l'"
    using assms(2) timeout timeout_keeps [OF _ timeout(2,3)] sender_handle_wf [of W "sl_tx l" SMTU "RetransmitTimeout q" "[]"]
    by (auto simp: srspp_inv_def)
  then show ?thesis by blast
next
  case (arrive i p rx outc as hr n)
  then show ?thesis using srspp_arrive_inv [OF assms(2,3,4) arrive(2-8)] by blast
next
  case (ack_timer as hr)
  have inv: "fast_inv WIN MTU (sl_rx l)" "rb_expected (fr_base (sl_rx l)) = seq14 (sl_passed l)" using assms(2) by (auto simp: srspp_inv_def)
  have "\<forall>(m, a)\<in>post_ack (sl_passed l) hr (sl_acks l). m \<le> sl_passed l \<and> ai_cumulative_ack a = seq14 (m + 16383)"
    using assms(2) emit_ack_info(2) [OF ack_timer(2)] cumulative_number [of "sl_passed l"] inv fast_expected
    by (intro post_ack_ok [of _ "sl_passed l"]) (auto simp: srspp_inv_def)
  then have "srspp_inv W WIN MTU b l'" using assms(2) ack_timer(1) by (auto simp: srspp_inv_def)
  then show ?thesis by blast
next
  case (ack m a tx acts r)
  have b: "b \<le> sl_passed l" "mset (in_flight (sl_tx l)) = mset (drop b (sl_log l))" using assms(2) by (auto simp: srspp_inv_def)
  have m: "m \<le> sl_passed l" "ai_cumulative_ack a = seq14 (m + 16383)" using assms(2) ack(2) by (auto simp: srspp_inv_def)
  have "sl_passed l \<le> length (sl_log l)" using assms(2) passed_le by (auto simp: srspp_inv_def)
  then have "sender_wf W tx \<and> mset (in_flight tx) = mset (drop (max b m) (sl_log l)) \<and> s_next_seq tx = s_next_seq (sl_tx l)"
    using assms(2,4) ack b(2) m by (intro ack_drops [of W "sl_tx l"]) (auto simp: srspp_inv_def)
  moreover have "max b m \<le> sl_passed l" using b(1) m(1) by simp
  ultimately have "srspp_inv W WIN MTU (max b m) l'" using assms(2) ack(1) by (auto simp: srspp_inv_def)
  then show ?thesis by blast
next
  case (take_msg rx msg)
  have "fast_inv WIN MTU (sl_rx l)" using assms(2) by (simp add: srspp_inv_def)
  then have "fast_inv WIN MTU rx" "fast_window WIN MTU rx = fast_window WIN MTU (sl_rx l)" "fr_base rx = fr_base (sl_rx l)"
    using fast_take_refines [OF _ take_msg(2)] take_msg(2) by (auto simp: fast_take_message_def)
  then have "srspp_inv W WIN MTU b l'" using assms(2) take_msg(1) by (simp add: srspp_inv_def)
  then show ?thesis by blast
qed

lemma srspp_reach_inv:
  assumes "srspp_reach W SMTU WIN MTU REASM (srspp_init W WIN MTU REASM sc rc buf) l" "fast_params WIN MTU" "W \<le> 8191"
  shows "\<exists>b. srspp_inv W WIN MTU b l"
  using assms(1)
proof (induction rule: rtranclp_induct)
  case base
  show ?case using srspp_init_inv [OF assms(2)] by blast
next
  case (step l l')
  then show ?case using srspp_step_inv [OF _ _ assms(2,3)] by blast
qed

lemma srspp_inv_get:
  assumes "srspp_inv W WIN MTU b l" "W \<le> 8191" "b \<le> i" "i < length (sl_log l)"
  shows "get_payload (sl_tx l) (seq14 i) = Some (sl_log l ! i)"
proof -
  let ?L = "length (sl_log l)"
  have wf: "sender_wf W (sl_tx l)" and fl: "mset (in_flight (sl_tx l)) = mset (drop b (sl_log l))"
    and num: "\<forall>j<?L. pi_seq (sl_log l ! j) = seq14 j" using assms(1) by (auto simp: srspp_inv_def)
  have span: "?L \<le> b + W" using in_flight_le [OF wf] fl by (metis size_mset length_drop le_diff_conv add.commute)
  have set: "set (in_flight (sl_tx l)) = {sl_log l ! j | j. b \<le> j \<and> j < ?L}"
    using mset_eq_setD [OF fl] by (auto simp: drop_nths)
  have only: "p = sl_log l ! i" if p: "p \<in> set (in_flight (sl_tx l))" "pi_seq p = seq14 i" for p
  proof -
    obtain j where j: "p = sl_log l ! j" "b \<le> j" "j < ?L" using p(1) set by auto
    then have "seq14 j = seq14 i" using p(2) num by simp
    then have "j = i" using j span assms(2,3,4) by (intro seq14_inj) auto
    then show ?thesis using j(1) by simp
  qed
  have "sl_log l ! i \<in> set (in_flight (sl_tx l))" "pi_seq (sl_log l ! i) = seq14 i" using set assms(3,4) num by auto
  then have "find (\<lambda>p. pi_seq p = seq14 i) (in_flight (sl_tx l)) \<noteq> None" by (auto simp: find_None_iff)
  then obtain p where p: "find (\<lambda>p. pi_seq p = seq14 i) (in_flight (sl_tx l)) = Some p" by auto
  then have "p \<in> set (in_flight (sl_tx l))" "pi_seq p = seq14 i" by (auto simp: find_Some_iff)
  then show ?thesis using only p get_payload_find [OF wf] by simp
qed


text \<open>
  C35: A selective acknowledgement frees the missing packet. Take any fast receiver that is
  waiting for packet \<open>n\<close> and has buffered packet \<open>n + 1\<close>, and any sender that still holds
  packet \<open>n\<close>. When the acknowledgement the receiver sends in this state reaches the sender,
  the sender drops packet \<open>n\<close>, the one the receiver is missing, and can no longer
  retransmit it.
\<close>

theorem srspp_ack_frees_missing:
  assumes "fast_params WIN MTU" "fast_inv WIN MTU rx" "rb_expected (fr_base rx) = seq14 n"
    "1 < WIN" "fast_window WIN MTU rx ! 1 \<noteq> None"
    "sender_wf W tx" "distinct (map pi_seq (in_flight tx))" "get_payload tx (seq14 n) = Some p"
    "on_data as outc (fast_expected_seq rx) (fast_recv_bitmap rx) = (as', hr)" "hr_ack hr = Some a"
    "sender_handle SMTU tx (AckReceived (ai_cumulative_ack a) (ai_selective_bitmap a)) [] = (tx', acts, r)"
  shows "fast_window WIN MTU rx ! 0 = None \<and> get_payload tx' (seq14 n) = None"
proof -
  have a: "ai_cumulative_ack a = seq14 (n + 16383)" "ai_selective_bitmap a = rb_bitmap (fr_base rx)"
    using emit_ack_info(1) [OF assms(9,10)] cumulative_number [of n] fast_expected [OF assms(2)] assms(3)
    by (simp_all add: fast_recv_bitmap_def)
  have "bit (ai_selective_bitmap a) 0"
    using assms(2,4,5) a(2) by (simp add: fast_inv_def fast_core_def bitmap_ok_def)
  moreover have "seq14 n = (ai_cumulative_ack a + 1 + of_nat 0) AND SEQUENCE_COUNT_MAX"
    using seq14_Suc [of "n + 16383"] a(1) by (simp add: seq14_eq_iff)
  ultimately have cov: "ack_covers (ai_cumulative_ack a) (ai_selective_bitmap a) (seq14 n)"
    unfolding ack_covers_def by (metis zero_less_numeral)
  have tx': "tx' = fst (handle_ack tx (ai_cumulative_ack a) (ai_selective_bitmap a) [])"
    using assms(11) by (auto simp: sender_handle_def case_prod_beta)
  note h = handle_ack_in_flight [OF assms(6,7), of "ai_cumulative_ack a" "ai_selective_bitmap a" "[]"]
  have "sender_wf W tx'" "\<forall>p\<in>set (in_flight tx'). pi_seq p \<noteq> seq14 n" using h tx' cov by auto
  then have "get_payload tx' (seq14 n) = None" by (simp add: get_payload_find find_None_iff)
  then show ?thesis using assms(2) by (simp add: fast_inv_def)
qed

section \<open>Concrete instances\<close>

definition demo_receiver_config :: ReceiverConfig where
  "demo_receiver_config = \<lparr>rc_local_address = Ground 2, rc_apid = 5, rc_function_code = 0, rc_immediate_ack = True,
     rc_ack_delay_ticks = 20, rc_progress_timeout_ticks = None\<rparr>"


theorem srspp_ack_frees_missing_witness:
  "\<exists>rx as' hr a tx' acts r. fast_handle_data 4 2 8 (fast_new 4 8 8) 1 Unsegmented [9] = Returns (rx, Inr \<lparr>do_progressed = False, do_has_gap = True\<rparr>)
     \<and> on_data (ack_state_new demo_receiver_config (Ground 1)) \<lparr>do_progressed = False, do_has_gap = True\<rparr> (fast_expected_seq rx) (fast_recv_bitmap rx) = (as', hr)
     \<and> hr_ack hr = Some a
     \<and> sender_handle 6 demo_sender1 (AckReceived (ai_cumulative_ack a) (ai_selective_bitmap a)) [] = (tx', acts, r)
     \<and> get_payload demo_sender1 0 \<noteq> None \<and> get_payload tx' 0 = None"
proof -
  have p: "fast_params 4 2" by (simp add: fast_params_def ring_size_def)
  have inv: "fast_inv 4 2 (fast_new 4 8 8)" and abs: "fast_abs 4 2 (fast_new 4 8 8) = spec_new 4 8"
    using fast_new_refines [OF p, of 8] by simp_all
  obtain rx res where rx: "fast_handle_data 4 2 8 (fast_new 4 8 8) 1 Unsegmented [9] = Returns (rx, res)" "fast_inv 4 2 rx"
    "spec_handle_data 8 (spec_new 4 8) 1 Unsegmented [9] = (fast_abs 4 2 rx, res)"
    using fast_handle_data_refines [OF p inv, of 1 "[9]" 8 Unsegmented] unfolding abs by auto
  have spec: "spec_handle_data 8 (spec_new 4 8) 1 Unsegmented [9] =
      (\<lparr>sp_expected = 0, sp_window = [None, Some (Unsegmented, [9]), None, None], sp_reasm = reassembly_new 8\<rparr>,
       Inr \<lparr>do_progressed = False, do_has_gap = True\<rparr>)"
    by (simp add: spec_handle_data_def spec_new_def SEQUENCE_COUNT_MAX_def spec_outcome_def spec_has_gap_def Let_def replicate_four_eight)
  have res: "res = Inr \<lparr>do_progressed = False, do_has_gap = True\<rparr>" and e: "rb_expected (fr_base rx) = seq14 0"
    and fw: "fast_window 4 2 rx = [None, Some (Unsegmented, [9]), None, None]"
    using rx(3) unfolding spec by (simp_all add: fast_abs_def seq14_def)
  have w: "fast_window 4 2 rx ! 1 \<noteq> None" unfolding fw by simp
  let ?as = "ack_state_new demo_receiver_config (Ground 1)"
  obtain as' hr where od: "on_data ?as \<lparr>do_progressed = False, do_has_gap = True\<rparr> (fast_expected_seq rx) (fast_recv_bitmap rx) = (as', hr)"
    by (meson surj_pair)
  obtain a where a: "hr_ack hr = Some a"
    using od by (auto simp: on_data_def emit_ack_def ack_state_new_def demo_receiver_config_def Let_def)
  obtain tx' acts r where h: "sender_handle 6 demo_sender1 (AckReceived (ai_cumulative_ack a) (ai_selective_bitmap a)) [] = (tx', acts, r)"
    by (metis prod_cases3)
  have d: "distinct (map pi_seq (in_flight demo_sender1))" by (simp add: demo_sender1_views(2))
  obtain pk where g: "get_payload demo_sender1 (seq14 0) = Some pk"
    using get_payload_find [OF demo_sender1_views(1)] by (simp add: demo_sender1_views(2) seq14_def)
  have "get_payload tx' (seq14 0) = None"
    using srspp_ack_frees_missing [OF p rx(2) e _ w demo_sender1_views(1) d g od a h] by simp
  then show ?thesis using rx(1) res od a h g by (auto simp: seq14_def)
qed

end
