(* ===== verification/Rx_Packed.thy ===== *)
theory Rx_Packed
  imports Rx_Spec
begin

text \<open>
  The packed backend (\<open>receiver/reassembly/packed.rs\<close>, \<open>PackedReceiver<WIN, BUF, REASM>\<close>, the
  default \<open>ReceiverMachine\<close>): packets out of order are appended to a bump slab of \<open>BUF\<close>
  bytes, and \<open>WIN\<close> slots remember where. The slab is reset whenever a run of deliveries ends,
  also while slots still point into it. So the backend refines the abstract receiver only as
  long as every run of deliveries empties the window; otherwise a later packet overwrites
  one still waiting, and the message delivered is corrupt (\<open>packed_receiver_corrupts\<close>).
\<close>

section \<open>Definitions\<close>

record SlotMeta =
  mt_offset :: nat
  mt_len :: nat
  mt_flags :: SequenceFlag

definition SlotMeta_default :: SlotMeta where
  "SlotMeta_default = \<lparr>mt_offset = 0, mt_len = 0, mt_flags = Unsegmented\<rparr>"

record packed =
  pk_base :: ReceiverBase
  pk_occupied :: Bitset
  pk_meta :: "SlotMeta list"
  pk_slab :: BumpSlab
  pk_reasm :: reassembly

definition packed_new :: "nat \<Rightarrow> nat \<Rightarrow> nat \<Rightarrow> packed" where
  "packed_new WIN BUF REASM =
     \<lparr>pk_base = base_new, pk_occupied = bs_new, pk_meta = replicate WIN SlotMeta_default,
      pk_slab = slab_new BUF, pk_reasm = reassembly_new REASM\<rparr>"

definition packed_slot_idx :: "nat \<Rightarrow> u16 \<Rightarrow> nat" where
  "packed_slot_idx WIN seq = unat seq mod WIN"

definition packed_store_ooo ::
  "nat \<Rightarrow> packed \<Rightarrow> u16 \<Rightarrow> SequenceFlag \<Rightarrow> bytes \<Rightarrow> packed \<times> ReceiverError option" where
  "packed_store_ooo WIN r seq flags payload =
     (let idx = packed_slot_idx WIN seq
      in if bs_is_set (pk_occupied r) idx then (r, None)
         else case slab_alloc (pk_slab r) payload of
                None \<Rightarrow> (r, Some RxBufferFull)
              | Some (slab, offset, len) \<Rightarrow>
                  (r\<lparr>pk_slab := slab, pk_meta := (pk_meta r)[idx := \<lparr>mt_offset = offset, mt_len = len, mt_flags = flags\<rparr>],
                     pk_occupied := bs_set (pk_occupied r) idx\<rparr>, None))"

text \<open>\<open>copy_from_slice\<close> into the \<open>REASM\<close> bytes of \<open>temp\<close>: a payload longer than that panics.\<close>

definition packed_copy_out :: "nat \<Rightarrow> BumpSlab \<Rightarrow> SlotMeta \<Rightarrow> bytes outcome" where
  "packed_copy_out REASM slab meta =
     (let len = min (mt_len meta) REASM
      in case slab_get slab (mt_offset meta) (mt_len meta) of
           Panics \<Rightarrow> Panics
         | Returns src \<Rightarrow> if length src = len then Returns (take len (blit (replicate REASM 0) 0 src)) else Panics)"

function packed_deliver_loop :: "nat \<Rightarrow> nat \<Rightarrow> packed \<Rightarrow> (packed \<times> ReceiverError option) outcome" where
  "packed_deliver_loop WIN REASM r =
     (let idx = packed_slot_idx WIN (rb_expected (pk_base r))
      in if \<not> bs_is_set (pk_occupied r) idx then Returns (r, None)
         else let meta = pk_meta r ! idx; r' = r\<lparr>pk_occupied := bs_clear (pk_occupied r) idx\<rparr>
              in case packed_copy_out REASM (pk_slab r') meta of
                   Panics \<Rightarrow> Panics
                 | Returns temp \<Rightarrow>
                     (case deliver_or_skip REASM (pk_reasm r') (mt_flags meta) temp of
                        Inl e \<Rightarrow> Returns (r', Some e)
                      | Inr R \<Rightarrow> packed_deliver_loop WIN REASM
                                  (r'\<lparr>pk_reasm := R, pk_base := base_advance (pk_base r')\<rparr>)))"
  by pat_completeness auto
termination
  by (relation "measure (\<lambda>(w, q, r). length (filter (bs_is_set (pk_occupied r)) [0..<32]))")
    (simp_all add: bs_clear_fewer)

declare packed_deliver_loop.simps [simp del]

definition packed_deliver_buffered :: "nat \<Rightarrow> nat \<Rightarrow> packed \<Rightarrow> (packed \<times> ReceiverError option) outcome" where
  "packed_deliver_buffered WIN REASM r =
     (case packed_deliver_loop WIN REASM r of
        Panics \<Rightarrow> Panics
      | Returns (r', Some e) \<Rightarrow> Returns (r', Some e)
      | Returns (r', None) \<Rightarrow> Returns (r'\<lparr>pk_slab := slab_clear (pk_slab r')\<rparr>, None))"

definition packed_handle_data ::
  "nat \<Rightarrow> nat \<Rightarrow> packed \<Rightarrow> u16 \<Rightarrow> SequenceFlag \<Rightarrow> bytes \<Rightarrow> (packed \<times> (ReceiverError + DataOutcome)) outcome" where
  "packed_handle_data WIN REASM r seq flags payload =
     (let distance = base_distance (pk_base r) seq;
          seq_before = rb_expected (pk_base r);
          finish = (\<lambda>r. Inr \<lparr>do_progressed = (rb_expected (pk_base r) \<noteq> seq_before),
                             do_has_gap = bs_any WIN (pk_occupied r)\<rparr>)
      in if distance = 0
         then case deliver_or_skip REASM (pk_reasm r) flags payload of
                Inl e \<Rightarrow> Returns (r, Inl e)
              | Inr R \<Rightarrow>
                  (case packed_deliver_buffered WIN REASM (r\<lparr>pk_reasm := R, pk_base := base_advance (pk_base r)\<rparr>) of
                     Panics \<Rightarrow> Panics
                   | Returns (r', Some e) \<Rightarrow> Returns (r', Inl e)
                   | Returns (r', None) \<Rightarrow> Returns (r', finish r'))
         else if distance < of_nat WIN \<and> \<not> is_ooo_duplicate (pk_base r) distance
         then case packed_store_ooo WIN r seq flags payload of
                (r', Some e) \<Rightarrow> Returns (r', Inl e)
              | (r', None) \<Rightarrow>
                  (let r' = r'\<lparr>pk_base := record_ooo (pk_base r') distance\<rparr> in Returns (r', finish r'))
         else Returns (r, finish r))"

definition packed_skip_gap :: "nat \<Rightarrow> nat \<Rightarrow> packed \<Rightarrow> (packed \<times> (ReceiverError + GapOutcome)) outcome" where
  "packed_skip_gap WIN REASM r =
     (case packed_deliver_buffered WIN REASM
             (r\<lparr>pk_reasm := reasm_abort (pk_reasm r), pk_base := base_advance (pk_base r)\<rparr>) of
        Panics \<Rightarrow> Panics
      | Returns (r', Some e) \<Rightarrow> Returns (r', Inl e)
      | Returns (r', None) \<Rightarrow> Returns (r', Inr (bs_any WIN (pk_occupied r'))))"

definition packed_take_message :: "packed \<Rightarrow> packed \<times> bytes option" where
  "packed_take_message r = (r\<lparr>pk_reasm := fst (reasm_take (pk_reasm r))\<rparr>, snd (reasm_take (pk_reasm r)))"

definition packed_has_message :: "packed \<Rightarrow> bool" where
  "packed_has_message r \<longleftrightarrow> ra_complete (pk_reasm r) \<noteq> None"

definition packed_message_len :: "packed \<Rightarrow> nat option" where
  "packed_message_len r = ra_complete (pk_reasm r)"

definition packed_expected_seq :: "packed \<Rightarrow> u16" where
  "packed_expected_seq r = base_expected_seq (pk_base r)"

definition packed_recv_bitmap :: "packed \<Rightarrow> u16" where
  "packed_recv_bitmap r = rb_bitmap (pk_base r)"

section \<open>Abstraction\<close>

definition packed_store :: "packed \<Rightarrow> nat \<Rightarrow> rx_packet option" where
  "packed_store r i =
     (if bs_is_set (pk_occupied r) i
      then Some (mt_flags (pk_meta r ! i), bslice (sl_data (pk_slab r)) (mt_offset (pk_meta r ! i)) (mt_len (pk_meta r ! i)))
      else None)"

definition packed_window :: "nat \<Rightarrow> packed \<Rightarrow> rx_packet option list" where
  "packed_window WIN r = ring_window WIN (packed_store r) (rb_expected (pk_base r))"

definition packed_abs :: "nat \<Rightarrow> packed \<Rightarrow> rx_spec" where
  "packed_abs WIN r = \<lparr>sp_expected = rb_expected (pk_base r), sp_window = packed_window WIN r, sp_reasm = pk_reasm r\<rparr>"

definition packed_core :: "nat \<Rightarrow> nat \<Rightarrow> packed \<Rightarrow> bool" where
  "packed_core WIN REASM r \<longleftrightarrow>
     unat (rb_expected (pk_base r)) < 16384 \<and> length (pk_meta r) = WIN \<and> sl_len (pk_slab r) \<le> length (sl_data (pk_slab r)) \<and>
     (\<forall>i<WIN. bs_is_set (pk_occupied r) i \<longrightarrow>
        mt_offset (pk_meta r ! i) + mt_len (pk_meta r ! i) \<le> sl_len (pk_slab r) \<and> mt_len (pk_meta r ! i) \<le> REASM) \<and>
     bitmap_ok (rb_bitmap (pk_base r)) (packed_window WIN r)"

definition packed_inv :: "nat \<Rightarrow> nat \<Rightarrow> packed \<Rightarrow> bool" where
  "packed_inv WIN REASM r \<longleftrightarrow> packed_core WIN REASM r \<and> packed_window WIN r ! 0 = None"

text \<open>
  The calls on which the backend keeps its promise: a packet in order must leave no packet
  behind in the window (unless it fails), and a packet out of order must fit the slab and
  the reassembly buffer.
\<close>

definition leaves_nothing :: "(ReceiverError + bool) \<Rightarrow> bool" where
  "leaves_nothing res \<longleftrightarrow> (case res of Inl e \<Rightarrow> True | Inr has_gap \<Rightarrow> \<not> has_gap)"

definition packed_admits :: "nat \<Rightarrow> nat \<Rightarrow> packed \<Rightarrow> u16 \<Rightarrow> SequenceFlag \<Rightarrow> bytes \<Rightarrow> bool" where
  "packed_admits WIN REASM r seq flags payload \<longleftrightarrow>
     (let d = unat (base_distance (pk_base r) seq)
      in if d = 0 then leaves_nothing (map_sum id do_has_gap (snd (spec_handle_data REASM (packed_abs WIN r) seq flags payload)))
         else d < WIN \<and> packed_window WIN r ! d = None \<longrightarrow>
                length payload \<le> REASM \<and> sl_len (pk_slab r) + length payload \<le> length (sl_data (pk_slab r)))"

definition packed_admits_skip :: "nat \<Rightarrow> nat \<Rightarrow> packed \<Rightarrow> bool" where
  "packed_admits_skip WIN REASM r \<longleftrightarrow> leaves_nothing (snd (spec_skip_gap REASM (packed_abs WIN r)))"

section \<open>Corruption when a second gap is open\<close>

text \<open>A stream of one unsegmented packet and one message in three segments.\<close>

definition demo_stream :: "nat \<Rightarrow> rx_packet" where
  "demo_stream i = (if i = 0 then (Unsegmented, [10]) else if i = 1 then (First, [11])
                    else if i = 2 then (Continuation, [12]) else (Last, [13]))"

lemmas packed_eval =
  packed_handle_data_def packed_new_def packed_slot_idx_def packed_store_ooo_def SlotMeta_default_def
  slab_new_def slab_alloc_def slab_get_def slab_clear_def packed_copy_out_def packed_deliver_buffered_def
  packed_deliver_loop.simps packed_take_message_def packed_expected_seq_def


section \<open>Refinement while one gap is open at a time\<close>

lemma length_packed_window [simp]: "length (packed_window WIN r) = WIN"
  by (simp add: packed_window_def)

lemma packed_window_nth: "d < WIN \<Longrightarrow>
    packed_window WIN r ! d = packed_store r ((unat (rb_expected (pk_base r)) + d) mod WIN)"
  by (simp add: packed_window_def ring_window_nth)

lemma packed_advance:
  assumes "ring_size WIN" "packed_core WIN REASM r" "packed_window WIN r ! 0 = None"
  defines "r' \<equiv> r\<lparr>pk_base := base_advance (pk_base r)\<rparr>"
  shows "packed_core WIN REASM r'" "packed_window WIN r' = tl (packed_window WIN r) @ [None]"
proof -
  have st: "packed_store r' = packed_store r" by (simp add: r'_def packed_store_def fun_eq_iff)
  show w: "packed_window WIN r' = tl (packed_window WIN r) @ [None]"
    using assms(1-3) ring_window_advance [of WIN "rb_expected (pk_base r)" "packed_store r"]
    unfolding packed_window_def st by (simp add: r'_def packed_core_def)
  show "packed_core WIN REASM r'"
    using assms(2) bitmap_ok_advance [of "rb_bitmap (pk_base r)" "packed_window WIN r"]
    by (simp add: packed_core_def w) (simp add: r'_def base_advance_def unat_and_seq_max)
qed

lemma packed_clear:
  assumes "ring_size WIN" "packed_core WIN REASM r"
  defines "r' \<equiv> r\<lparr>pk_occupied := bs_clear (pk_occupied r) (unat (rb_expected (pk_base r)) mod WIN)\<rparr>"
  shows "packed_core WIN REASM r'" "packed_window WIN r' = (packed_window WIN r)[0 := None]"
proof -
  let ?e = "rb_expected (pk_base r)"
  have "packed_store r' j = (if j = (unat ?e + 0) mod WIN then None else packed_store r j)" if "j < WIN" for j
    using that assms(1) bs_same [of WIN "unat ?e mod WIN" j] by (auto simp: packed_store_def r'_def bs_is_set_clear)
  then show w: "packed_window WIN r' = (packed_window WIN r)[0 := None]"
    using ring_window_update [of 0 WIN "packed_store r'" ?e None "packed_store r"] assms(1)
    by (simp add: packed_window_def r'_def ring_size_def)
  show "packed_core WIN REASM r'"
    using assms(2) by (simp add: packed_core_def w bitmap_ok_def) (auto simp: r'_def bs_is_set_clear)
qed

lemma packed_reasm_update [simp]:
  "packed_core WIN REASM (r\<lparr>pk_reasm := R\<rparr>) = packed_core WIN REASM r"
  "packed_window WIN (r\<lparr>pk_reasm := R\<rparr>) = packed_window WIN r"
proof -
  have "packed_store (r\<lparr>pk_reasm := R\<rparr>) = packed_store r" by (simp add: packed_store_def fun_eq_iff)
  then show w: "packed_window WIN (r\<lparr>pk_reasm := R\<rparr>) = packed_window WIN r" by (simp add: packed_window_def)
  show "packed_core WIN REASM (r\<lparr>pk_reasm := R\<rparr>) = packed_core WIN REASM r" by (simp add: packed_core_def w)
qed

lemma packed_deliver_loop_run:
  assumes "ring_size WIN" "packed_core WIN REASM r"
    "run_window REASM (pk_reasm r) (packed_window WIN r) = (R, w, k, e)"
  shows "\<exists>r'. packed_deliver_loop WIN REASM r = Returns (r', e) \<and> packed_inv WIN REASM r' \<and> pk_reasm r' = R
    \<and> rb_expected (pk_base r') = (rb_expected (pk_base r) + of_nat k) AND SEQUENCE_COUNT_MAX
    \<and> packed_window WIN r' = pad_window WIN w"
  using assms
proof (induction WIN REASM r arbitrary: R w k e rule: packed_deliver_loop.induct)
  case (1 WIN REASM r)
  let ?e = "rb_expected (pk_base r)"
  let ?i = "unat ?e mod WIN"
  have W: "0 < WIN" using "1.prems"(1) by (simp add: ring_size_def)
  have e: "unat ?e < 16384" using "1.prems"(2) by (simp add: packed_core_def)
  have idx: "packed_slot_idx WIN ?e = ?i" by (simp add: packed_slot_idx_def)
  have w0: "packed_window WIN r ! 0 = packed_store r ?i" using W by (simp add: packed_window_nth)
  obtain x ws where xs: "packed_window WIN r = x # ws" using W length_packed_window [of WIN r] by (cases "packed_window WIN r") auto
  have eid: "?e AND SEQUENCE_COUNT_MAX = ?e" using e by (simp add: and_seq_max seq14_unat)
  show ?case
  proof (cases "bs_is_set (pk_occupied r) ?i")
    case False
    then have none: "packed_window WIN r ! 0 = None" using w0 by (simp add: packed_store_def)
    then have "x = None" using xs by simp
    then have "R = pk_reasm r" "w = packed_window WIN r" "k = 0" "e = None" using "1.prems"(3) xs by auto
    then show ?thesis using "1.prems"(2) none False idx eid
      by (subst packed_deliver_loop.simps) (simp add: packed_inv_def pad_window_def)
  next
    case True
    let ?m = "pk_meta r ! ?i"
    let ?p = "bslice (sl_data (pk_slab r)) (mt_offset ?m) (mt_len ?m)"
    let ?r1 = "r\<lparr>pk_occupied := bs_clear (pk_occupied r) ?i\<rparr>"
    have x: "x = Some (mt_flags ?m, ?p)" using True w0 xs by (simp add: packed_store_def)
    have il: "?i < WIN" using W by simp
    then have m: "mt_offset ?m + mt_len ?m \<le> length (sl_data (pk_slab r))" "mt_len ?m \<le> REASM"
      using "1.prems"(2) True by (auto simp: packed_core_def)
    have rd: "packed_copy_out REASM (pk_slab ?r1) ?m = Returns ?p"
      using m by (simp add: packed_copy_out_def slab_get_def blit_def min_def)
    note c = packed_clear [OF "1.prems"(1,2)]
    have w1: "packed_window WIN ?r1 = None # ws" using c(2) xs by simp
    show ?thesis
    proof (cases "deliver_or_skip REASM (pk_reasm r) (mt_flags ?m) ?p")
      case (Inl er)
      then have "R = pk_reasm r" "w = None # ws" "k = 0" "e = Some er" using "1.prems"(3) xs x by auto
      moreover have "packed_deliver_loop WIN REASM r = Returns (?r1, Some er)"
        using True Inl idx rd by (subst packed_deliver_loop.simps) (simp add: Let_def)
      moreover have "length ws = WIN - 1" using xs length_packed_window [of WIN r] by simp
      ultimately show ?thesis using c(1) w1 eid W by (simp add: packed_inv_def pad_window_def)
    next
      case (Inr R1)
      let ?r2 = "?r1\<lparr>pk_reasm := R1, pk_base := base_advance (pk_base r)\<rparr>"
      have core: "packed_core WIN REASM (?r1\<lparr>pk_reasm := R1\<rparr>)" "packed_window WIN (?r1\<lparr>pk_reasm := R1\<rparr>) ! 0 = None"
        using c(1) w1 by simp_all
      have r2: "packed_core WIN REASM ?r2" "packed_window WIN ?r2 = ws @ [None]"
        using packed_advance [OF "1.prems"(1) core] w1 by simp_all
      obtain R2 w2 k2 e2 where run: "run_window REASM R1 ws = (R2, w2, k2, e2)" by (metis prod_cases4)
      have res: "R = R2" "w = w2" "k = Suc k2" "e = e2" using "1.prems"(3) xs x Inr run by auto
      have "run_window REASM (pk_reasm ?r2) (packed_window WIN ?r2) = (R2, w2 @ [None], k2, e2)"
        using run r2(2) by (simp add: run_window_snoc)
      then have "\<exists>r'. packed_deliver_loop WIN REASM ?r2 = Returns (r', e2) \<and> packed_inv WIN REASM r'
          \<and> pk_reasm r' = R2 \<and> rb_expected (pk_base r') = (rb_expected (pk_base ?r2) + of_nat k2) AND SEQUENCE_COUNT_MAX
          \<and> packed_window WIN r' = pad_window WIN (w2 @ [None])"
        using "1.IH" [of ?i ?m ?r1 ?p R1] True idx rd Inr "1.prems"(1) r2(1) by simp
      moreover have "packed_deliver_loop WIN REASM r = packed_deliver_loop WIN REASM ?r2"
        using True Inr idx rd by (subst packed_deliver_loop.simps) (simp add: Let_def)
      moreover have "rb_expected (pk_base ?r2) + of_nat k2 AND SEQUENCE_COUNT_MAX = (?e + of_nat k) AND SEQUENCE_COUNT_MAX"
        using advance_then_add [OF e, of k2] res(3) by simp
      moreover have "length w2 < WIN" using run_window_length [OF run] xs length_packed_window [of WIN r] by simp
      ultimately show ?thesis using res pad_snoc by simp
    qed
  qed
qed

lemma packed_has_gap:
  assumes "ring_size WIN"
  shows "bs_any WIN (pk_occupied r) = spec_has_gap (packed_abs WIN r)"
    "spec_has_gap (packed_abs WIN r) \<longleftrightarrow> (\<exists>i<WIN. bs_is_set (pk_occupied r) i)"
proof -
  have any: "bs_any WIN (pk_occupied r) \<longleftrightarrow> (\<exists>i<WIN. bs_is_set (pk_occupied r) i)"
    using assms by (simp add: bs_any_iff ring_size_def)
  also have "\<dots> \<longleftrightarrow> (\<exists>i<WIN. packed_store r i \<noteq> None)" by (auto simp: packed_store_def)
  also have "\<dots> = spec_has_gap (packed_abs WIN r)"
    using ring_window_any [of WIN "packed_store r"] assms unfolding spec_has_gap_def packed_abs_def packed_window_def by simp
  finally show "bs_any WIN (pk_occupied r) = spec_has_gap (packed_abs WIN r)" .
  then show "spec_has_gap (packed_abs WIN r) \<longleftrightarrow> (\<exists>i<WIN. bs_is_set (pk_occupied r) i)" using any by simp
qed

text \<open>Resetting the slab is harmless when no slot points into it.\<close>

lemma packed_reset_slab:
  assumes "ring_size WIN" "packed_inv WIN REASM r" "\<not> spec_has_gap (packed_abs WIN r)"
  defines "r' \<equiv> r\<lparr>pk_slab := slab_clear (pk_slab r)\<rparr>"
  shows "packed_inv WIN REASM r' \<and> packed_abs WIN r' = packed_abs WIN r"
proof -
  have free: "\<forall>i<WIN. \<not> bs_is_set (pk_occupied r) i" using packed_has_gap(2) [OF assms(1)] assms(3) by blast
  have "packed_store r' = packed_store r" by (simp add: packed_store_def fun_eq_iff r'_def slab_clear_def)
  then have w: "packed_window WIN r' = packed_window WIN r" by (simp add: packed_window_def) (simp add: r'_def)
  show ?thesis using assms(2) free by (simp add: packed_inv_def packed_core_def w packed_abs_def) (simp add: r'_def slab_clear_def)
qed

lemma packed_advance_refines:
  assumes "ring_size WIN" "packed_inv WIN REASM r"
    "spec_advance REASM ((packed_abs WIN r)\<lparr>sp_reasm := R\<rparr>) = (s', e)" "e = None \<longrightarrow> \<not> spec_has_gap s'"
  shows "\<exists>r'. packed_deliver_buffered WIN REASM (r\<lparr>pk_reasm := R, pk_base := base_advance (pk_base r)\<rparr>) = Returns (r', e)
    \<and> packed_inv WIN REASM r' \<and> packed_abs WIN r' = s'"
proof -
  let ?r0 = "r\<lparr>pk_reasm := R\<rparr>"
  let ?r1 = "?r0\<lparr>pk_base := base_advance (pk_base ?r0)\<rparr>"
  let ?e = "rb_expected (pk_base r)"
  have "packed_core WIN REASM ?r0" "packed_window WIN ?r0 ! 0 = None" using assms(2) by (simp_all add: packed_inv_def)
  note r1 = packed_advance [OF assms(1) this]
  have e: "unat ?e < 16384" using assms(2) by (simp add: packed_inv_def packed_core_def)
  obtain R2 w2 k2 e2 where run: "run_window REASM R (tl (packed_window WIN r)) = (R2, w2, k2, e2)" by (metis prod_cases4)
  have len: "length w2 < WIN" using run_window_length [OF run] assms(1) by (auto simp: ring_size_def)
  have s': "s' = \<lparr>sp_expected = (?e + of_nat (Suc k2)) AND SEQUENCE_COUNT_MAX, sp_window = pad_window WIN w2, sp_reasm = R2\<rparr>" "e = e2"
    using assms(3) run by (auto simp: spec_advance_def packed_abs_def)
  have "run_window REASM (pk_reasm ?r1) (packed_window WIN ?r1) = (R2, w2 @ [None], k2, e2)"
    using run r1(2) by (simp add: run_window_snoc)
  from packed_deliver_loop_run [OF assms(1) r1(1) this] obtain r' where
    r': "packed_deliver_loop WIN REASM ?r1 = Returns (r', e2)" "packed_inv WIN REASM r'" "pk_reasm r' = R2"
      "rb_expected (pk_base r') = (rb_expected (pk_base ?r1) + of_nat k2) AND SEQUENCE_COUNT_MAX"
      "packed_window WIN r' = pad_window WIN (w2 @ [None])" by auto
  have abs: "packed_abs WIN r' = s'"
    using r' s' pad_snoc [OF len] advance_then_add [OF e, of k2] by (simp add: packed_abs_def)
  show ?thesis
  proof (cases e)
    case None
    then have "packed_inv WIN REASM (r'\<lparr>pk_slab := slab_clear (pk_slab r')\<rparr>) \<and> packed_abs WIN (r'\<lparr>pk_slab := slab_clear (pk_slab r')\<rparr>) = s'"
      using packed_reset_slab [OF assms(1) r'(2)] abs assms(4) by simp
    then show ?thesis using r'(1) s'(2) None by (simp add: packed_deliver_buffered_def)
  next
    case (Some er)
    then show ?thesis using r'(1,2) abs s'(2) by (simp add: packed_deliver_buffered_def)
  qed
qed

lemma packed_store_refines:
  assumes "ring_size WIN" "packed_inv WIN REASM r" "unat seq < 16384" "length payload \<le> REASM"
    "sl_len (pk_slab r) + length payload \<le> length (sl_data (pk_slab r))"
    "d = unat (base_distance (pk_base r) seq)" "0 < d" "d < WIN" "packed_window WIN r ! d = None"
  shows "\<exists>r'. packed_store_ooo WIN r seq flags payload = (r', None)
    \<and> packed_inv WIN REASM (r'\<lparr>pk_base := record_ooo (pk_base r') (base_distance (pk_base r) seq)\<rparr>)
    \<and> packed_abs WIN (r'\<lparr>pk_base := record_ooo (pk_base r') (base_distance (pk_base r) seq)\<rparr>) =
        (packed_abs WIN r)\<lparr>sp_window := (packed_window WIN r)[d := Some (flags, payload)]\<rparr>"
proof -
  let ?e = "rb_expected (pk_base r)"
  let ?dist = "base_distance (pk_base r) seq"
  let ?i = "(unat ?e + d) mod WIN"
  let ?o = "sl_len (pk_slab r)"
  have W: "0 < WIN" "WIN \<le> 16" using assms(1) by (auto simp: ring_size_def)
  have e: "unat ?e < 16384" and core: "packed_core WIN REASM r" using assms(2) by (auto simp: packed_inv_def packed_core_def)
  have idx: "packed_slot_idx WIN seq = ?i"
    using ring_index [OF assms(1) e assms(3)] assms(6) by (simp add: packed_slot_idx_def base_distance_def)
  have il: "?i < WIN" using W by simp
  have free: "\<not> bs_is_set (pk_occupied r) ?i" using assms(8,9) by (auto simp: packed_window_nth packed_store_def split: if_splits)
  define slab where "slab = (pk_slab r)\<lparr>sl_data := blit (sl_data (pk_slab r)) ?o payload, sl_len := ?o + length payload\<rparr>"
  define r' where "r' = r\<lparr>pk_slab := slab, pk_meta := (pk_meta r)[?i := \<lparr>mt_offset = ?o, mt_len = length payload, mt_flags = flags\<rparr>],
                          pk_occupied := bs_set (pk_occupied r) ?i\<rparr>"
  define r2 where "r2 = r'\<lparr>pk_base := record_ooo (pk_base r') ?dist\<rparr>"
  have ret: "packed_store_ooo WIN r seq flags payload = (r', None)"
    using free assms(5) by (simp add: packed_store_ooo_def idx slab_alloc_def r'_def slab_def Let_def)
  have st: "packed_store r2 j = (if j = ?i then Some (flags, payload) else packed_store r j)" if j: "j < WIN" for j
  proof (cases "j = ?i")
    case True
    then show ?thesis using assms(5) core il by (simp add: packed_store_def r2_def r'_def slab_def bs_is_set_set packed_core_def)
  next
    case False
    have "mt_offset (pk_meta r ! j) + mt_len (pk_meta r ! j) \<le> ?o" if "bs_is_set (pk_occupied r) j"
      using that j core by (simp add: packed_core_def)
    then show ?thesis using False j il assms(5) bs_same [OF assms(1), of ?i j]
      by (auto simp: packed_store_def r2_def r'_def slab_def bs_is_set_set)
  qed
  have ex: "rb_expected (pk_base r2) = ?e" by (simp add: r2_def r'_def)
  have w: "packed_window WIN r2 = (packed_window WIN r)[d := Some (flags, payload)]"
    using ring_window_update [OF assms(8) st] ex by (simp add: packed_window_def)
  have bm: "bitmap_ok (rb_bitmap (pk_base r2)) (packed_window WIN r2)"
  proof -
    have "pk_base r2 = record_ooo (pk_base r) ?dist" by (simp add: r2_def r'_def)
    then show ?thesis unfolding w
      using bitmap_ok_record [of "pk_base r" "packed_window WIN r" ?dist] core assms(6,7,8) W by (simp add: packed_core_def)
  qed
  have "mt_offset (pk_meta r2 ! i) + mt_len (pk_meta r2 ! i) \<le> sl_len (pk_slab r2) \<and> mt_len (pk_meta r2 ! i) \<le> REASM"
    if "i < WIN" "bs_is_set (pk_occupied r2) i" for i
    using that core il assms(4) bs_same [OF assms(1), of ?i i]
    by (auto simp: packed_core_def r2_def r'_def slab_def bs_is_set_set nth_list_update trans_le_add1)
  then have "packed_core WIN REASM r2"
    using core assms(5) bm e by (auto simp: packed_core_def r2_def r'_def slab_def)
  moreover have "packed_window WIN r2 ! 0 = None" using assms(2,7) unfolding w by (simp add: packed_inv_def)
  ultimately have "packed_inv WIN REASM r2" by (simp add: packed_inv_def)
  moreover have "packed_abs WIN r2 = (packed_abs WIN r)\<lparr>sp_window := (packed_window WIN r)[d := Some (flags, payload)]\<rparr>"
    using w ex by (simp add: packed_abs_def r2_def r'_def)
  ultimately show ?thesis using ret by (simp add: r2_def)
qed

lemma packed_handle_data_refines:
  assumes "ring_size WIN" "packed_inv WIN REASM r" "unat seq < 16384" "packed_admits WIN REASM r seq flags payload"
  shows "\<exists>r' res. packed_handle_data WIN REASM r seq flags payload = Returns (r', res) \<and> packed_inv WIN REASM r'
    \<and> spec_handle_data REASM (packed_abs WIN r) seq flags payload = (packed_abs WIN r', res)"
proof -
  let ?dist = "base_distance (pk_base r) seq"
  let ?d = "unat ((seq - rb_expected (pk_base r)) AND SEQUENCE_COUNT_MAX)"
  have core: "packed_core WIN REASM r" using assms(2) by (simp add: packed_inv_def)
  have uw: "unat (of_nat WIN :: u16) = WIN" using assms(1) by (simp add: ring_size_def unat_of_nat)
  have ud: "unat ?dist = ?d" by (simp add: base_distance_def)
  have dist: "?dist = 0 \<longleftrightarrow> ?d = 0" "?dist < of_nat WIN \<longleftrightarrow> ?d < WIN"
    using uw ud by (simp_all add: base_distance_def word_less_nat_alt unat_eq_0)
  have sp: "sp_expected (packed_abs WIN r) = rb_expected (pk_base r)" "sp_reasm (packed_abs WIN r) = pk_reasm r"
    "sp_window (packed_abs WIN r) = packed_window WIN r" for r by (simp_all add: packed_abs_def)
  note gap = packed_has_gap(1) [OF assms(1)]
  show ?thesis
  proof (cases "?d = 0")
    case True
    then have d0: "?dist = 0" using dist(1) by simp
    show ?thesis
    proof (cases "deliver_or_skip REASM (pk_reasm r) flags payload")
      case (Inl e)
      then show ?thesis using assms(2) d0 True by (simp add: packed_handle_data_def spec_handle_data_def sp)
    next
      case (Inr R)
      obtain s' e where a: "spec_advance REASM ((packed_abs WIN r)\<lparr>sp_reasm := R\<rparr>) = (s', e)" by (meson surj_pair)
      have "e = None \<longrightarrow> \<not> spec_has_gap s'"
        using assms(4) True ud Inr a by (auto simp: packed_admits_def spec_handle_data_def sp spec_outcome_def leaves_nothing_def)
      from packed_advance_refines [OF assms(1,2) a this] obtain r' where
        r': "packed_deliver_buffered WIN REASM (r\<lparr>pk_reasm := R, pk_base := base_advance (pk_base r)\<rparr>) = Returns (r', e)"
          "packed_inv WIN REASM r'" "packed_abs WIN r' = s'" by blast
      then show ?thesis using d0 True Inr a gap [of r'] sp(1) [of r']
        by (cases e) (auto simp: packed_handle_data_def spec_handle_data_def sp spec_outcome_def Let_def)
    qed
  next
    case False
    then have dn: "?dist \<noteq> 0" using dist(1) by simp
    show ?thesis
    proof (cases "?d < WIN")
      case True
      have "?d \<le> 16" "0 < ?d" using True False assms(1) by (auto simp: ring_size_def)
      then have dup: "is_ooo_duplicate (pk_base r) ?dist \<longleftrightarrow> packed_window WIN r ! ?d \<noteq> None"
        using is_ooo_duplicate_iff [of ?dist "pk_base r"] ud core True by (simp add: packed_core_def bitmap_ok_def)
      show ?thesis
      proof (cases "packed_window WIN r ! ?d = None")
        case free: True
        have room: "length payload \<le> REASM" "sl_len (pk_slab r) + length payload \<le> length (sl_data (pk_slab r))"
          using assms(4) False True free ud by (auto simp: packed_admits_def Let_def)
        obtain r' where r': "packed_store_ooo WIN r seq flags payload = (r', None)"
          "packed_inv WIN REASM (r'\<lparr>pk_base := record_ooo (pk_base r') ?dist\<rparr>)"
          "packed_abs WIN (r'\<lparr>pk_base := record_ooo (pk_base r') ?dist\<rparr>) =
             (packed_abs WIN r)\<lparr>sp_window := (packed_window WIN r)[?d := Some (flags, payload)]\<rparr>"
          using packed_store_refines [OF assms(1,2,3) room, of ?d flags] ud False True free by auto
        let ?r2 = "r'\<lparr>pk_base := record_ooo (pk_base r') ?dist\<rparr>"
        have "rb_expected (pk_base ?r2) = rb_expected (pk_base r)" using r'(3) by (simp add: packed_abs_def)
        moreover have "bs_any WIN (pk_occupied r') = spec_has_gap (packed_abs WIN ?r2)" using gap [of ?r2] by simp
        ultimately show ?thesis using r' dn dist True False free dup
          by (simp add: packed_handle_data_def spec_handle_data_def sp spec_outcome_def Let_def)
      next
        case busy: False
        then show ?thesis using assms(2) dn dist True False dup gap [of r]
          by (auto simp: packed_handle_data_def spec_handle_data_def sp spec_outcome_def Let_def)
      qed
    next
      case far: False
      then show ?thesis using assms(2) dn dist False gap [of r]
        by (simp add: packed_handle_data_def spec_handle_data_def sp spec_outcome_def Let_def)
    qed
  qed
qed

lemma packed_skip_gap_refines:
  assumes "ring_size WIN" "packed_inv WIN REASM r" "packed_admits_skip WIN REASM r"
  shows "\<exists>r' res. packed_skip_gap WIN REASM r = Returns (r', res) \<and> packed_inv WIN REASM r'
    \<and> spec_skip_gap REASM (packed_abs WIN r) = (packed_abs WIN r', res)"
proof -
  let ?R = "reasm_abort (pk_reasm r)"
  obtain s' e where a: "spec_advance REASM ((packed_abs WIN r)\<lparr>sp_reasm := ?R\<rparr>) = (s', e)" by (meson surj_pair)
  have sp: "sp_reasm (packed_abs WIN r) = pk_reasm r" by (simp add: packed_abs_def)
  have "e = None \<longrightarrow> \<not> spec_has_gap s'"
    using assms(3) a sp by (auto simp: packed_admits_skip_def spec_skip_gap_def leaves_nothing_def)
  from packed_advance_refines [OF assms(1,2) a this] obtain r' where
    r': "packed_deliver_buffered WIN REASM (r\<lparr>pk_reasm := ?R, pk_base := base_advance (pk_base r)\<rparr>) = Returns (r', e)"
      "packed_inv WIN REASM r'" "packed_abs WIN r' = s'" by blast
  then show ?thesis using a sp packed_has_gap(1) [OF assms(1), of r']
    by (cases e) (auto simp: packed_skip_gap_def spec_skip_gap_def)
qed

lemma packed_take_refines:
  assumes "packed_inv WIN REASM r" "packed_take_message r = (r', m)"
  shows "packed_inv WIN REASM r' \<and> spec_take (packed_abs WIN r) = (packed_abs WIN r', m)"
  using assms by (auto simp: packed_take_message_def packed_inv_def spec_take_def packed_abs_def)

lemma packed_new_refines:
  assumes "ring_size WIN"
  shows "packed_inv WIN REASM (packed_new WIN BUF REASM)" "packed_abs WIN (packed_new WIN BUF REASM) = spec_new WIN REASM"
proof -
  have w: "packed_window WIN (packed_new WIN BUF REASM) = replicate WIN None"
    by (rule nth_equalityI) (simp_all add: packed_window_nth packed_store_def packed_new_def)
  then show "packed_abs WIN (packed_new WIN BUF REASM) = spec_new WIN REASM"
    by (simp add: packed_abs_def spec_new_def packed_new_def base_new_def)
  show "packed_inv WIN REASM (packed_new WIN BUF REASM)"
    using assms w by (auto simp: packed_inv_def packed_core_def packed_new_def base_new_def slab_new_def ring_size_def bitmap_ok_def)
qed

lemma packed_backend:
  assumes "ring_size WIN"
  shows "receiver_backend WIN REASM (packed_new WIN BUF REASM) (packed_handle_data WIN REASM)
    (packed_skip_gap WIN REASM) packed_take_message packed_expected_seq packed_recv_bitmap
    (packed_abs WIN) (packed_inv WIN REASM) (packed_admits WIN REASM) (packed_admits_skip WIN REASM)"
proof unfold_locales
  show "0 < WIN" "WIN \<le> 16" using assms by (simp_all add: ring_size_def)
  show "packed_inv WIN REASM (packed_new WIN BUF REASM)" "packed_abs WIN (packed_new WIN BUF REASM) = spec_new WIN REASM"
    using packed_new_refines [OF assms] by simp_all
  fix r assume inv: "packed_inv WIN REASM r"
  show "packed_expected_seq r = sp_expected (packed_abs WIN r)"
    using inv by (simp add: packed_expected_seq_def base_expected_seq_def packed_abs_def packed_inv_def packed_core_def
        SequenceCount_from_def and_seq_max seq14_unat)
  show "bit (packed_recv_bitmap r) k \<longleftrightarrow> Suc k < WIN \<and> sp_window (packed_abs WIN r) ! Suc k \<noteq> None" for k
    using inv by (simp add: packed_recv_bitmap_def packed_abs_def packed_inv_def packed_core_def bitmap_ok_def)
qed (use assms packed_handle_data_refines packed_skip_gap_refines packed_take_refines in blast)+

text \<open>The default receiver of the endpoints, \<open>ReceiverMachine<8, 4096, 8192>\<close>.\<close>

interpretation packed8: receiver_backend 8 8192 "packed_new 8 4096 8192" "packed_handle_data 8 8192"
  "packed_skip_gap 8 8192" packed_take_message packed_expected_seq packed_recv_bitmap
  "packed_abs 8" "packed_inv 8 8192" "packed_admits 8 8192" "packed_admits_skip 8 8192"
  by (rule packed_backend) (simp add: ring_size_def)

text \<open>
  The packed receiver is correct while one gap is open at a time. On every run in which
  no packet in order and no skip leaves a packet behind in the window, and packets out of
  order fit the slab and the reassembly buffer, the packed receiver never panics and hands
  over messages of the stream only, byte for byte, each at most once and in order.
\<close>

theorem packed_receiver_in_order:
  assumes "ring_size WIN"
  shows "\<exists>n r ms. rx_feed (packed_handle_data WIN REASM) (packed_skip_gap WIN REASM) packed_take_message packed_expected_seq
      (packed_admits WIN REASM) (packed_admits_skip WIN REASM) WIN f 0 (packed_new WIN BUF REASM) ins = Returns (n, r, ms)
    \<and> packed_expected_seq r = seq14 n \<and> in_order_messages f 0 n ms"
  by (rule receiver_backend.delivers_in_order [OF packed_backend [OF assms]])

lemmas packed_admit_eval =
  packed_admits_def leaves_nothing_def packed_abs_def packed_window_def packed_store_def ring_window_def
  spec_handle_data_def spec_advance_def spec_outcome_def spec_has_gap_def pad_window_def

theorem packed_receiver_in_order_witness:
  "\<exists>n r ms. rx_feed (packed_handle_data 4 8) (packed_skip_gap 4 8) packed_take_message packed_expected_seq
      (packed_admits 4 8) (packed_admits_skip 4 8) 4 demo_stream 0 (packed_new 4 8 8)
      [Arrive 0, Take, Arrive 2, Arrive 3, Arrive 1, Take] = Returns (n, r, ms)
    \<and> in_order_messages demo_stream 0 n ms \<and> ms = [[10], [11, 12, 13]]"
proof -
  let ?ins = "[Arrive 0, Take, Arrive 2, Arrive 3, Arrive 1, Take]"
  obtain n r ms where run: "rx_feed (packed_handle_data 4 8) (packed_skip_gap 4 8) packed_take_message packed_expected_seq
      (packed_admits 4 8) (packed_admits_skip 4 8) 4 demo_stream 0 (packed_new 4 8 8) ?ins = Returns (n, r, ms)"
    "in_order_messages demo_stream 0 n ms"
    using packed_receiver_in_order [of 4 8 demo_stream 8 ?ins] by (auto simp: ring_size_def)
  moreover have "map_outcome (\<lambda>(n, r, ms). ms) (rx_feed (packed_handle_data 4 8) (packed_skip_gap 4 8) packed_take_message
      packed_expected_seq (packed_admits 4 8) (packed_admits_skip 4 8) 4 demo_stream 0 (packed_new 4 8 8) ?ins) =
      Returns [[10], [11, 12, 13]]"
    by (simp add: rx_eval packed_eval packed_admit_eval list_update_numeral replicate_four_eight demo_stream_def upt_rec)
  ultimately show ?thesis by auto
qed

end
