(* ===== verification/Rice_Bits.thy ===== *)
theory Rice_Bits
  imports Leo_Prelude
begin

text \<open>
  The bit streams of the Rice coder
  (\<open>crates/leodos-protocols/src/application/compression/rice.rs\<close>): \<open>BitWriter\<close> packs values
  most significant bit first into a byte buffer, \<open>BitReader\<close> takes them out again, and both
  know the fundamental sequence, a unary code.

  A Rust loop is \<open>partial_function (option)\<close>, so that \<open>None\<close> is a loop that never ends: the
  zeros of \<open>write_fs\<close> can loop forever, because their number is truncated to 32 bits. Under
  the \<open>None\<close> stand the panics (\<open>Panics\<close>, an index beyond the buffer) and the errors of the
  code. \<open>u64\<close> values are natural numbers with the wrap-around written out (\<open>wrap64\<close>).

  \<open>wrote w bs\<close> says that the writer holds exactly the bits \<open>bs\<close>; \<open>avail r bs\<close> that the reader
  has \<open>bs\<close> before it. A writing operation is described by the code it appends (\<open>emits\<close>), a
  reading one by the code it takes off and the value it finds there (\<open>accepts\<close>). The locale
  \<open>bit_code\<close> is the interface of a pair of such operations: from it come the loops over a
  whole block. It is interpreted on fixed-width fields and on fundamental sequences.
\<close>

section \<open>Definitions\<close>

datatype rice_error = InvalidConfig | OutputFull | Truncated

text \<open>Sequencing of calls that may panic or loop: \<open>?\<close>-free code and its \<open>for\<close> loop.\<close>

definition and_then :: "'a outcome option \<Rightarrow> ('a \<Rightarrow> 'b outcome option) \<Rightarrow> 'b outcome option" where
  "and_then x f = Option.bind x (\<lambda>r. case r of Panics \<Rightarrow> Some Panics | Returns a \<Rightarrow> f a)"

fun for_each :: "('a \<Rightarrow> 's \<Rightarrow> 's outcome option) \<Rightarrow> 'a list \<Rightarrow> 's \<Rightarrow> 's outcome option" where
  "for_each f [] s = Some (Returns s)"
| "for_each f (x # xs) s = and_then (f x s) (for_each f xs)"

record bit_writer =
  bw_buf :: bytes
  bw_pos :: nat
  bw_bit :: nat

definition zero_at :: "bytes \<Rightarrow> nat \<Rightarrow> bytes" where
  "zero_at buf i = (if i < length buf then buf[i := 0] else buf)"

definition BitWriter_new :: "bytes \<Rightarrow> bit_writer" where
  "BitWriter_new buf = \<lparr>bw_buf = zero_at buf 0, bw_pos = 0, bw_bit = 8\<rparr>"

text \<open>The end of both writing loops: a full byte moves the writer to the next one.\<close>

definition next_byte :: "bit_writer \<Rightarrow> bit_writer" where
  "next_byte w =
     (if bw_bit w = 0
      then \<lparr>bw_buf = zero_at (bw_buf w) (bw_pos w + 1), bw_pos = bw_pos w + 1, bw_bit = 8\<rparr>
      else w)"

partial_function (option) write_loop :: "nat \<Rightarrow> nat \<Rightarrow> bit_writer \<Rightarrow> bit_writer outcome option" where
  "write_loop value rem w =
     (if rem = 0 then Some (Returns w)
      else let k = min rem (bw_bit w);
               shift = bw_bit w - k;
               bits = (of_nat ((value div 2 ^ (rem - k)) mod 2 ^ k) :: u8)
           in if bw_pos w < length (bw_buf w)
              then write_loop value (rem - k)
                     (next_byte (w\<lparr>bw_buf := (bw_buf w)[bw_pos w := bw_buf w ! bw_pos w OR push_bit shift bits],
                                  bw_bit := bw_bit w - k\<rparr>))
              else Some Panics)"

definition bw_write :: "nat \<Rightarrow> nat \<Rightarrow> bit_writer \<Rightarrow> bit_writer outcome option" where
  "bw_write value n_bits w = write_loop value n_bits w"

partial_function (option) write_zeros :: "nat \<Rightarrow> bit_writer \<Rightarrow> bit_writer option" where
  "write_zeros zeros w =
     (if zeros = 0 then Some w
      else let k = min (zeros mod 2 ^ 32) (bw_bit w)
           in write_zeros (zeros - k) (next_byte (w\<lparr>bw_bit := bw_bit w - k\<rparr>)))"

definition write_fs :: "nat \<Rightarrow> bit_writer \<Rightarrow> bit_writer outcome option" where
  "write_fs m w = Option.bind (write_zeros m w) (bw_write 1 1)"

definition bytes_written :: "bit_writer \<Rightarrow> nat" where
  "bytes_written w = (if bw_bit w = 8 then bw_pos w else bw_pos w + 1)"

record bit_reader =
  br_buf :: bytes
  br_pos :: nat
  br_bit :: nat

type_synonym 'a reading = "(rice_error + 'a \<times> bit_reader) option"

definition BitReader_new :: "bytes \<Rightarrow> bit_reader" where
  "BitReader_new buf = \<lparr>br_buf = buf, br_pos = 0, br_bit = 8\<rparr>"

partial_function (option) read_loop :: "nat \<Rightarrow> nat \<Rightarrow> bit_reader \<Rightarrow> nat reading" where
  "read_loop result rem r =
     (if rem = 0 then Some (Inr (result, r))
      else if length (br_buf r) \<le> br_pos r then Some (Inl Truncated)
      else let k = min rem (br_bit r);
               shift = br_bit r - k;
               bits = drop_bit shift (br_buf r ! br_pos r) AND mask k;
               result' = wrap64 (push_bit k result) OR unat bits;
               r' = (if br_bit r - k = 0 then r\<lparr>br_pos := br_pos r + 1, br_bit := 8\<rparr>
                     else r\<lparr>br_bit := br_bit r - k\<rparr>)
           in read_loop result' (rem - k) r')"

definition br_read :: "nat \<Rightarrow> bit_reader \<Rightarrow> nat reading" where
  "br_read n_bits r = read_loop 0 n_bits r"

text \<open>
  \<open>m\<close> counts the bits read, so that it cannot reach \<open>2 ^ 64\<close>: its increment is not wrapped.
\<close>

partial_function (option) read_fs_loop :: "nat \<Rightarrow> bit_reader \<Rightarrow> nat reading" where
  "read_fs_loop m r =
     Option.bind (br_read 1 r)
       (\<lambda>x. case x of Inl e \<Rightarrow> Some (Inl e)
            | Inr (v, r') \<Rightarrow> if v = 1 then Some (Inr (m, r')) else read_fs_loop (m + 1) r')"

definition read_fs :: "bit_reader \<Rightarrow> nat reading" where
  "read_fs r = read_fs_loop 0 r"

text \<open>The \<open>for\<close> loop of the decoder: \<open>n\<close> values read one after the other.\<close>

definition read_then :: "'a reading \<Rightarrow> ('a \<Rightarrow> bit_reader \<Rightarrow> 'b reading) \<Rightarrow> 'b reading" where
  "read_then x f = Option.bind x (\<lambda>y. case y of Inl e \<Rightarrow> Some (Inl e) | Inr (a, r) \<Rightarrow> f a r)"

fun read_n :: "(bit_reader \<Rightarrow> 'a reading) \<Rightarrow> nat \<Rightarrow> bit_reader \<Rightarrow> 'a list reading" where
  "read_n rd 0 r = Some (Inr ([], r))"
| "read_n rd (Suc n) r =
     read_then (rd r) (\<lambda>a r. read_then (read_n rd n r) (\<lambda>as r. Some (Inr (a # as, r))))"

section \<open>Bits of numbers and buffers\<close>

definition bufbit :: "bytes \<Rightarrow> nat \<Rightarrow> bool" where
  "bufbit buf i = bit (buf ! (i div 8)) (7 - i mod 8)"

definition to_bits :: "nat \<Rightarrow> nat \<Rightarrow> bool list" where
  "to_bits n v = map (\<lambda>i. bit v (n - 1 - i)) [0..<n]"

lemma length_to_bits [simp]: "length (to_bits n v) = n"
  by (simp add: to_bits_def)

lemma nth_to_bits [simp]: "i < n \<Longrightarrow> to_bits n v ! i = bit v (n - 1 - i)"
  by (simp add: to_bits_def)

lemma to_bits_0 [simp]: "to_bits 0 v = []"
  by (simp add: to_bits_def)

lemma to_bits_split: "k \<le> n \<Longrightarrow> to_bits n v = to_bits k (v div 2 ^ (n - k)) @ to_bits (n - k) v"
proof (rule nth_equalityI)
  fix i assume k: "k \<le> n" and "i < length (to_bits n v)"
  then have i: "i < n" by simp
  show "to_bits n v ! i = (to_bits k (v div 2 ^ (n - k)) @ to_bits (n - k) v) ! i"
  proof (cases "i < k")
    case True
    then have e: "n - k + (k - 1 - i) = n - 1 - i" using k by simp
    have "bit (v div 2 ^ (n - k)) (k - 1 - i) = bit v (n - k + (k - 1 - i))"
      unfolding drop_bit_eq_div [symmetric] by (simp add: bit_drop_bit_eq)
    then show ?thesis using True i unfolding e by (simp add: nth_append)
  next
    case False
    then have e: "n - k - 1 - (i - k) = n - 1 - i" using k i by simp
    have "(to_bits k (v div 2 ^ (n - k)) @ to_bits (n - k) v) ! i = bit v (n - k - 1 - (i - k))"
      using False i k by (simp add: nth_append)
    then show ?thesis using i unfolding e by simp
  qed
qed simp

lemma to_bits_mod: "to_bits n (v mod 2 ^ n) = to_bits n v"
  unfolding take_bit_eq_mod [symmetric] by (rule nth_equalityI) (auto simp: bit_take_bit_iff)

lemma to_bits_inj: "to_bits n u = to_bits n v \<Longrightarrow> u < 2 ^ n \<Longrightarrow> v < 2 ^ n \<Longrightarrow> u = v"
proof -
  assume eq: "to_bits n u = to_bits n v" and u: "u < 2 ^ n" and v: "v < 2 ^ n"
  have "take_bit n u = take_bit n v"
  proof (rule bit_eqI)
    fix i
    show "bit (take_bit n u) i = bit (take_bit n v) i"
    proof (cases "i < n")
      case True
      then have "to_bits n u ! (n - 1 - i) = to_bits n v ! (n - 1 - i)" using eq by simp
      then show ?thesis using True by (simp add: bit_simps)
    qed (simp add: bit_simps)
  qed
  then show ?thesis using u v by (simp add: take_bit_nat_eq_self)
qed

section \<open>What a writer holds\<close>

definition holds_bits :: "bit_writer \<Rightarrow> bool list \<Rightarrow> bool" where
  "holds_bits w bs \<longleftrightarrow> bw_bit w \<le> 8 \<and> length bs = 8 * bw_pos w + (8 - bw_bit w)
     \<and> (\<forall>i < 8 * length (bw_buf w). i < 8 * bw_pos w + 8 \<longrightarrow>
          bufbit (bw_buf w) i = (i < length bs \<and> bs ! i))"

definition wrote :: "bit_writer \<Rightarrow> bool list \<Rightarrow> bool" where
  "wrote w bs \<longleftrightarrow> holds_bits w bs \<and> 0 < bw_bit w \<and> length bs \<le> 8 * length (bw_buf w)"

lemma length_zero_at [simp]: "length (zero_at buf i) = length buf"
  by (simp add: zero_at_def)

lemma bufbit_zero_at:
  "i < 8 * length buf \<Longrightarrow> bufbit (zero_at buf p) i = (i div 8 \<noteq> p \<and> bufbit buf i)"
  by (cases "i div 8 = p") (auto simp: bufbit_def zero_at_def)

lemma wrote_new [simp]: "wrote (BitWriter_new buf) []"
  by (auto simp: wrote_def holds_bits_def BitWriter_new_def bufbit_zero_at)

lemma length_BitWriter_new [simp]: "length (bw_buf (BitWriter_new buf)) = length buf"
  by (simp add: BitWriter_new_def)

lemma next_byte_buf [simp]: "length (bw_buf (next_byte w)) = length (bw_buf w)"
  by (simp add: next_byte_def)

lemma next_byte_bit [simp]: "0 < bw_bit (next_byte w)"
  by (simp add: next_byte_def)

lemma next_byte_holds: "holds_bits w bs \<Longrightarrow> holds_bits (next_byte w) bs"
proof (cases "bw_bit w = 0")
  case True
  assume h: "holds_bits w bs"
  show ?thesis
    unfolding holds_bits_def
  proof (intro conjI allI impI)
    fix i assume i: "i < 8 * length (bw_buf (next_byte w))" "i < 8 * bw_pos (next_byte w) + 8"
    then have "i < 8 * length (bw_buf w)" "i div 8 \<le> bw_pos w + 1" using True by (auto simp: next_byte_def)
    moreover have "i div 8 \<noteq> bw_pos w + 1 \<longleftrightarrow> i < 8 * bw_pos w + 8"
      using i True by (auto simp: next_byte_def)
    ultimately show "bufbit (bw_buf (next_byte w)) i = (i < length bs \<and> bs ! i)"
      using h True by (auto simp: next_byte_def holds_bits_def bufbit_zero_at)
  qed (use h True in \<open>auto simp: next_byte_def holds_bits_def\<close>)
qed (simp add: next_byte_def)

text \<open>One round of the writing loop appends the chunk of \<open>k\<close> bits.\<close>

lemma chunk_bit:
  assumes "k \<le> b" "b \<le> 8" "t < 8"
  shows "bit (push_bit (b - k) (of_nat (v mod 2 ^ k) :: u8)) (7 - t)
         \<longleftrightarrow> 8 - b \<le> t \<and> t < 8 - b + k \<and> bit v (k - 1 - (t - (8 - b)))"
proof -
  have "bit (of_nat (v mod 2 ^ k) :: u8) j \<longleftrightarrow> j < k \<and> bit v j" if "j < 8" for j
    using that unfolding take_bit_eq_mod [symmetric] by (simp add: bit_simps)
  moreover have "k - 1 - (t - (8 - b)) = 7 - t - (b - k)" if "8 - b \<le> t" "t < 8 - b + k"
    using that assms by linarith
  ultimately show ?thesis using assms by (auto simp: bit_simps)
qed

lemma bufbit_update:
  "p < length buf \<Longrightarrow> i < 8 * length buf \<Longrightarrow>
   bufbit (buf[p := buf ! p OR x]) i = (bufbit buf i \<or> i div 8 = p \<and> bit x (7 - i mod 8))"
  by (auto simp: bufbit_def bit_or_iff nth_list_update)

lemma chunk_holds:
  fixes w :: bit_writer
  defines "p \<equiv> bw_pos w" and "b \<equiv> bw_bit w" and "buf \<equiv> bw_buf w"
  assumes h: "holds_bits w bs" and p: "p < length buf" and k: "k \<le> b"
  shows "holds_bits (w\<lparr>bw_buf := buf[p := buf ! p OR push_bit (b - k) (of_nat (v mod 2 ^ k) :: u8)], bw_bit := b - k\<rparr>)
           (bs @ to_bits k v)"
  unfolding holds_bits_def
proof (intro conjI allI impI, goal_cases)
  case 1
  have "b \<le> 8" using h by (simp add: holds_bits_def b_def)
  then show ?case by simp
next
  case 2
  show ?case using h k by (simp add: holds_bits_def b_def p_def)
next
  case (3 i)
  then have i: "i < 8 * length buf" "i < 8 * p + 8" by (simp_all add: p_def)
  have len: "length bs = 8 * p + (8 - b)" "b \<le> 8" using h by (simp_all add: holds_bits_def b_def p_def)
  have old: "bufbit buf i \<longleftrightarrow> i < length bs \<and> bs ! i"
    using h i by (simp add: holds_bits_def p_def buf_def)
  let ?t = "i mod 8"
  have bit: "bit (push_bit (b - k) (of_nat (v mod 2 ^ k) :: u8)) (7 - ?t)
         \<longleftrightarrow> 8 - b \<le> ?t \<and> ?t < 8 - b + k \<and> bit v (k - 1 - (?t - (8 - b)))"
    using k len(2) by (intro chunk_bit) auto
  show ?case
  proof (cases "i div 8 = p")
    case True
    then have ie: "i = 8 * p + ?t" by (metis mult_div_mod_eq)
    have "i < length (bs @ to_bits k v) \<and> (bs @ to_bits k v) ! i
       \<longleftrightarrow> (i < length bs \<and> bs ! i) \<or> (8 - b \<le> ?t \<and> ?t < 8 - b + k \<and> bit v (k - 1 - (?t - (8 - b))))"
    proof (cases "i < length bs")
      case True
      then show ?thesis using ie len by (auto simp: nth_append)
    next
      case False
      then have "i - length bs = ?t - (8 - b)" "8 - b \<le> ?t" using ie len by linarith+
      moreover have "i < length bs + k \<longleftrightarrow> ?t < 8 - b + k" using ie len by linarith
      moreover have "to_bits k v ! (?t - (8 - b)) = bit v (k - 1 - (?t - (8 - b)))"
        if "8 - b \<le> ?t" "?t < 8 - b + k" using that by (intro nth_to_bits) linarith
      ultimately show ?thesis using False unfolding nth_append length_append length_to_bits
        by (metis (no_types))
    qed
    then show ?thesis using bufbit_update [OF p i(1)] old bit True by simp
  next
    case False
    then have "i < length bs" using i len by linarith
    then show ?thesis using bufbit_update [OF p i(1)] old False by (simp add: nth_append)
  qed
qed

section \<open>Writing operations as appended codes\<close>

definition emits :: "(bit_writer \<Rightarrow> bit_writer outcome option) \<Rightarrow> bool list \<Rightarrow> bool" where
  "emits f c \<longleftrightarrow> (\<forall>w bs. wrote w bs \<longrightarrow>
     (if length bs + length c \<le> 8 * length (bw_buf w)
      then \<exists>w'. f w = Some (Returns w') \<and> wrote w' (bs @ c) \<and> length (bw_buf w') = length (bw_buf w)
      else f w = Some Panics))"

lemma emits_fits:
  assumes "emits f c" "wrote w bs" "length bs + length c \<le> 8 * length (bw_buf w)"
  obtains w' where "f w = Some (Returns w')" "wrote w' (bs @ c)" "length (bw_buf w') = length (bw_buf w)"
  using assms unfolding emits_def by metis

lemma emits_skip: "emits (\<lambda>w. Some (Returns w)) []"
  by (simp add: emits_def wrote_def)

lemma emits_seq:
  assumes f: "emits f c" and g: "emits g d"
  shows "emits (\<lambda>w. and_then (f w) g) (c @ d)"
  unfolding emits_def
proof (intro allI impI)
  fix w bs assume w: "wrote w bs"
  show "if length bs + length (c @ d) \<le> 8 * length (bw_buf w)
      then \<exists>w'. and_then (f w) g = Some (Returns w') \<and> wrote w' (bs @ c @ d) \<and> length (bw_buf w') = length (bw_buf w)
      else and_then (f w) g = Some Panics"
  proof (cases "length bs + length c \<le> 8 * length (bw_buf w)")
    case True
    then obtain w' where w': "f w = Some (Returns w')" "wrote w' (bs @ c)" "length (bw_buf w') = length (bw_buf w)"
      using emits_fits [OF f w] by blast
    then show ?thesis using g [unfolded emits_def, rule_format, OF w'(2)]
      by (auto simp: and_then_def add.assoc split: if_splits)
  next
    case False
    then have "f w = Some Panics" using f w by (auto simp: emits_def)
    then show ?thesis using False by (simp add: and_then_def)
  qed
qed

lemma emits_write_loop:
  assumes "wrote w bs"
  shows "if length bs + n \<le> 8 * length (bw_buf w)
         then \<exists>w'. write_loop v n w = Some (Returns w') \<and> wrote w' (bs @ to_bits n v)
                   \<and> length (bw_buf w') = length (bw_buf w)
         else write_loop v n w = Some Panics"
  using assms
proof (induction n arbitrary: w bs rule: less_induct)
  case (less n)
  show ?case
  proof (cases "n = 0")
    case True
    then show ?thesis using less.prems by (simp add: write_loop.simps wrote_def)
  next
    case n: False
    let ?k = "min n (bw_bit w)" let ?v = "v div 2 ^ (n - ?k)"
    have h: "holds_bits w bs" "0 < bw_bit w" "length bs \<le> 8 * length (bw_buf w)"
      using less.prems by (simp_all add: wrote_def)
    show ?thesis
    proof (cases "bw_pos w < length (bw_buf w)")
      case False
      then have "length bs = 8 * length (bw_buf w)" using h by (auto simp: holds_bits_def)
      moreover have "write_loop v n w = Some Panics" using n False by (subst write_loop.simps) (simp add: Let_def)
      ultimately show ?thesis using n by simp
    next
      case True
      let ?w = "next_byte (w\<lparr>bw_buf := (bw_buf w)[bw_pos w := bw_buf w ! bw_pos w OR
                   push_bit (bw_bit w - ?k) (of_nat (?v mod 2 ^ ?k) :: u8)], bw_bit := bw_bit w - ?k\<rparr>)"
      have eq: "write_loop v n w = write_loop v (n - ?k) ?w"
        using n True by (subst write_loop.simps) (simp add: Let_def)
      have len: "length bs + ?k \<le> 8 * length (bw_buf w)"
        using h(1) True by (auto simp: holds_bits_def)
      have w: "wrote ?w (bs @ to_bits ?k ?v)"
        using next_byte_holds [OF chunk_holds [OF h(1) True, of ?k ?v]] len by (simp add: wrote_def)
      have "n - ?k < n" using n h(2) by simp
      from less.IH [OF this w] show ?thesis
        unfolding eq using to_bits_split [of ?k n v] len by (auto split: if_splits)
    qed
  qed
qed

lemma emits_write: "emits (bw_write v n) (to_bits n v)"
  using emits_write_loop by (simp add: emits_def bw_write_def)

text \<open>
  The zeros of a fundamental sequence only move the position: the invariant that the rest
  of the byte is clear makes them zeros.
\<close>

lemma zeros_holds:
  assumes "holds_bits w bs" "k \<le> bw_bit w"
  shows "holds_bits (w\<lparr>bw_bit := bw_bit w - k\<rparr>) (bs @ replicate k False)"
  using assms by (auto simp: holds_bits_def nth_append)

lemma write_zeros_holds:
  assumes "holds_bits w bs" "0 < bw_bit w" "m < 2 ^ 32"
  shows "\<exists>w'. write_zeros m w = Some w' \<and> holds_bits w' (bs @ replicate m False) \<and> 0 < bw_bit w'
              \<and> length (bw_buf w') = length (bw_buf w)"
  using assms
proof (induction m arbitrary: w bs rule: less_induct)
  case (less m)
  show ?case
  proof (cases "m = 0")
    case True
    then show ?thesis using less.prems by (simp add: write_zeros.simps)
  next
    case False
    let ?k = "min m (bw_bit w)" let ?w = "next_byte (w\<lparr>bw_bit := bw_bit w - ?k\<rparr>)"
    have eq: "write_zeros m w = write_zeros (m - ?k) ?w"
      using False less.prems(3) by (subst write_zeros.simps) (simp add: Let_def)
    have w: "holds_bits ?w (bs @ replicate ?k False)"
      using less.prems(1) by (intro next_byte_holds zeros_holds) auto
    have "m - ?k < m" using False less.prems(2) by simp
    from less.IH [OF this w] less.prems(3) show ?thesis
      unfolding eq by (auto simp flip: replicate_add)
  qed
qed

definition fs_code :: "nat \<Rightarrow> bool list" where
  "fs_code m = replicate m False @ [True]"

lemma length_fs_code [simp]: "length (fs_code m) = m + 1"
  by (simp add: fs_code_def)

lemma to_bits_1: "to_bits 1 1 = [True]"
  by (simp add: to_bits_def bit_0)

lemma emits_write_fs:
  assumes "m < 2 ^ 32"
  shows "emits (write_fs m) (fs_code m)"
  unfolding emits_def
proof (intro allI impI)
  fix w bs assume w: "wrote w bs"
  obtain w' where w': "write_zeros m w = Some w'" "holds_bits w' (bs @ replicate m False)" "0 < bw_bit w'"
    "length (bw_buf w') = length (bw_buf w)"
    using write_zeros_holds [OF _ _ assms, of w bs] w by (auto simp: wrote_def)
  have fs: "write_fs m w = bw_write 1 1 w'" by (simp add: write_fs_def w'(1))
  show "if length bs + length (fs_code m) \<le> 8 * length (bw_buf w)
        then \<exists>w'. write_fs m w = Some (Returns w') \<and> wrote w' (bs @ fs_code m)
                  \<and> length (bw_buf w') = length (bw_buf w)
        else write_fs m w = Some Panics"
  proof (cases "length bs + m < 8 * length (bw_buf w)")
    case True
    then have "wrote w' (bs @ replicate m False)" using w' by (simp add: wrote_def)
    then show ?thesis
      using True w'(4) emits_write [of 1 1, unfolded emits_def, rule_format, of w' "bs @ replicate m False"]
      unfolding fs by (simp add: fs_code_def to_bits_1 [simplified])
  next
    case False
    then have "\<not> bw_pos w' < length (bw_buf w')" using w' by (auto simp: holds_bits_def)
    then have "bw_write 1 1 w' = Some Panics" unfolding bw_write_def by (subst write_loop.simps) (simp add: Let_def)
    then show ?thesis using False fs by simp
  qed
qed

text \<open>
  The count of zeros is truncated to 32 bits before it is compared with the free bits of the
  byte, so that the loop takes nothing off once the count is a multiple of \<open>2 ^ 32\<close>.
\<close>

lemma write_zeros_terminates_only:
  assumes "write_zeros m w = Some w'"
  shows "m < 2 ^ 32"
proof (rule write_zeros.raw_induct [where P = "\<lambda>m w w'. m < 2 ^ 32", OF _ assms])
  fix rec zeros w w'
  assume 1: "\<And>zeros w w'. rec zeros w = Some w' \<Longrightarrow> zeros < (2 :: nat) ^ 32"
    "(if zeros = 0 then Some w
      else let k = min (zeros mod 2 ^ 32) (bw_bit w) in rec (zeros - k) (next_byte (w\<lparr>bw_bit := bw_bit w - k\<rparr>))) = Some w'"
  show "zeros < 2 ^ 32"
  proof (cases "zeros = 0")
    case False
    let ?k = "min (zeros mod 2 ^ 32) (bw_bit w)"
    have "rec (zeros - ?k) (next_byte (w\<lparr>bw_bit := bw_bit w - ?k\<rparr>)) = Some w'"
      using 1(2) False by (simp add: Let_def)
    from 1(1) [OF this] have "zeros - ?k < 2 ^ 32" by simp
    moreover have "zeros - zeros mod 2 ^ 32 = 2 ^ 32 * (zeros div 2 ^ 32)" by (simp add: minus_mod_eq_mult_div)
    ultimately have "zeros div 2 ^ 32 = 0" by simp
    then show ?thesis by (simp add: div_eq_0_iff)
  qed simp
qed

lemma write_fs_loops: "2 ^ 32 \<le> m \<Longrightarrow> write_fs m w = None"
  using write_zeros_terminates_only [of m w] by (cases "write_zeros m w") (auto simp: write_fs_def)

section \<open>What a reader has before it\<close>

definition reader_ok :: "bit_reader \<Rightarrow> bool" where
  "reader_ok r \<longleftrightarrow> 0 < br_bit r \<and> br_bit r \<le> 8"

definition rd_off :: "bit_reader \<Rightarrow> nat" where
  "rd_off r = 8 * br_pos r + (8 - br_bit r)"

definition avail :: "bit_reader \<Rightarrow> bool list \<Rightarrow> bool" where
  "avail r bs \<longleftrightarrow> reader_ok r \<and> rd_off r + length bs \<le> 8 * length (br_buf r)
     \<and> (\<forall>i < length bs. bufbit (br_buf r) (rd_off r + i) = bs ! i)"

text \<open>The reader's step over \<open>k\<close> bits of the current byte.\<close>

definition skip_bits :: "nat \<Rightarrow> bit_reader \<Rightarrow> bit_reader" where
  "skip_bits k r = (if br_bit r - k = 0 then r\<lparr>br_pos := br_pos r + 1, br_bit := 8\<rparr>
                    else r\<lparr>br_bit := br_bit r - k\<rparr>)"

lemma skip_bits_ok [simp]:
  assumes "reader_ok r"
  shows "reader_ok (skip_bits k r)" "br_buf (skip_bits k r) = br_buf r"
  using assms by (auto simp: skip_bits_def reader_ok_def)

lemma rd_off_skip [simp]: "reader_ok r \<Longrightarrow> k \<le> br_bit r \<Longrightarrow> rd_off (skip_bits k r) = rd_off r + k"
  by (auto simp: skip_bits_def rd_off_def reader_ok_def)

lemma avail_skip:
  assumes "avail r (c @ rest)" "length c \<le> br_bit r"
  shows "avail (skip_bits (length c) r) rest"
proof -
  have "bufbit (br_buf r) (rd_off r + length c + i) = rest ! i" if "i < length rest" for i
    using assms(1) that unfolding avail_def by (metis add.assoc length_append nat_add_left_cancel_less nth_append_length_plus)
  then show ?thesis using assms by (auto simp: avail_def add.assoc)
qed

lemma avail_pos: "avail r bs \<Longrightarrow> bs \<noteq> [] \<Longrightarrow> br_pos r < length (br_buf r)"
  by (cases bs) (auto simp: avail_def rd_off_def reader_ok_def)

lemma read_loop_step:
  "0 < n \<Longrightarrow> br_pos r < length (br_buf r) \<Longrightarrow>
   read_loop acc n r =
     read_loop (wrap64 (push_bit (min n (br_bit r)) acc) OR
                unat (drop_bit (br_bit r - min n (br_bit r)) (br_buf r ! br_pos r) AND mask (min n (br_bit r))))
       (n - min n (br_bit r)) (skip_bits (min n (br_bit r)) r)"
  by (subst read_loop.simps) (simp add: Let_def skip_bits_def)

lemma chunk_value:
  assumes "avail r (to_bits k u @ rest)" "k \<le> br_bit r" "u < 2 ^ k" "0 < k"
  shows "unat (drop_bit (br_bit r - k) (br_buf r ! br_pos r) AND mask k) = u"
proof (rule bit_eqI)
  fix j
  let ?x = "drop_bit (br_bit r - k) (br_buf r ! br_pos r) AND mask k"
  have b: "br_bit r \<le> 8" using assms(1) by (simp add: avail_def reader_ok_def)
  show "bit (unat ?x) j = bit u j"
  proof (cases "j < k")
    case False
    then have "\<not> bit u j" using assms(3) by (metis bit_take_bit_iff take_bit_nat_eq_self)
    then show ?thesis using False by (simp add: bit_simps)
  next
    case True
    let ?i = "k - 1 - j"
    have e: "rd_off r + ?i = 8 * br_pos r + (8 - br_bit r + ?i)" "8 - br_bit r + ?i < 8"
      using True assms(2) b by (auto simp: rd_off_def)
    have "?i < length (to_bits k u @ rest)" using True by simp
    then have "bufbit (br_buf r) (rd_off r + ?i) = (to_bits k u @ rest) ! ?i"
      using assms(1) unfolding avail_def by blast
    also have "\<dots> = bit u j" using True by (simp add: nth_append)
    also have "bufbit (br_buf r) (rd_off r + ?i) = bit (br_buf r ! br_pos r) (7 - (8 - br_bit r + ?i))"
      unfolding e(1) using e(2) by (simp add: bufbit_def)
    also have "7 - (8 - br_bit r + ?i) = br_bit r - k + j" using True assms(2) b by linarith
    finally show ?thesis using True b assms(2) by (simp add: bit_simps)
  qed
qed

lemma push_or: "a * 2 ^ k < 2 ^ 64 \<Longrightarrow> u < 2 ^ k \<Longrightarrow> wrap64 (push_bit k a) OR u = a * 2 ^ k + u"
proof -
  assume a: "a * 2 ^ k < 2 ^ 64" and u: "u < 2 ^ k"
  from a have "wrap64 (push_bit k a) = push_bit k a" by (simp add: wrap64_def push_bit_eq_mult)
  moreover have "push_bit k a OR u = push_bit k a + u"
  proof (rule disjunctive_add [symmetric])
    fix j
    have "bit u j \<Longrightarrow> j < k" using u by (metis bit_take_bit_iff take_bit_nat_eq_self)
    then show "\<not> bit (push_bit k a) j \<or> \<not> bit u j" by (auto simp: bit_push_bit_iff)
  qed
  ultimately show ?thesis by (simp add: push_bit_eq_mult)
qed

lemma read_loop_avail:
  assumes "avail r (to_bits n v @ rest)" "v < 2 ^ n" "acc * 2 ^ n + v < 2 ^ 64"
  shows "\<exists>r'. read_loop acc n r = Some (Inr (acc * 2 ^ n + v, r')) \<and> avail r' rest"
  using assms
proof (induction n arbitrary: r v acc rule: less_induct)
  case (less n)
  show ?case
  proof (cases "n = 0")
    case True
    then show ?thesis using less.prems by (simp add: read_loop.simps)
  next
    case n: False
    let ?k = "min n (br_bit r)" let ?m = "n - min n (br_bit r)"
    let ?u = "v div 2 ^ ?m" let ?v = "v mod 2 ^ ?m"
    have k: "0 < ?k" "?k \<le> br_bit r" "?m < n" using n less.prems(1) by (auto simp: avail_def reader_ok_def)
    have pw: "(2 :: nat) ^ n = 2 ^ ?k * 2 ^ ?m" by (simp flip: power_add)
    have u: "?u < 2 ^ ?k" using less.prems(2) by (simp add: less_mult_imp_div_less pw)
    have v: "?u * 2 ^ ?m + ?v = v" by (rule div_mult_mod_eq)
    have av: "avail r (to_bits ?k ?u @ to_bits ?m ?v @ rest)"
      using less.prems(1) to_bits_split [of ?k n v] by (simp add: to_bits_mod)
    have "(acc * 2 ^ ?k + ?u) * 2 ^ ?m + ?v = acc * 2 ^ n + v"
      using v by (simp add: pw algebra_simps)
    then have fits: "(acc * 2 ^ ?k + ?u) * 2 ^ ?m + ?v < 2 ^ 64" using less.prems(3) by simp
    have "acc * 2 ^ ?k \<le> acc * 2 ^ n" by (intro mult_le_mono2 power_increasing) auto
    then have "acc * 2 ^ ?k < 2 ^ 64" using less.prems(3) by linarith
    then have acc': "wrap64 (push_bit ?k acc) OR unat (drop_bit (br_bit r - ?k) (br_buf r ! br_pos r) AND mask ?k)
                     = acc * 2 ^ ?k + ?u"
      using chunk_value [OF av k(2) u k(1)] u by (simp add: push_or)
    have "br_pos r < length (br_buf r)" using avail_pos [OF less.prems(1)] n by (metis append_is_Nil_conv length_0_conv length_to_bits)
    then have eq: "read_loop acc n r = read_loop (acc * 2 ^ ?k + ?u) ?m (skip_bits ?k r)"
      using read_loop_step [of n r acc] n acc' by simp
    have "avail (skip_bits ?k r) (to_bits ?m ?v @ rest)"
      using avail_skip [OF av] k(2) by simp
    from less.IH [OF k(3) this _ fits] show ?thesis
      using \<open>(acc * 2 ^ ?k + ?u) * 2 ^ ?m + ?v = acc * 2 ^ n + v\<close> eq by simp
  qed
qed

section \<open>Reading operations as codes taken off\<close>

definition accepts :: "(bit_reader \<Rightarrow> 'a reading) \<Rightarrow> bool list \<Rightarrow> 'a \<Rightarrow> bool" where
  "accepts rd c v \<longleftrightarrow> (\<forall>r rest. avail r (c @ rest) \<longrightarrow> (\<exists>r'. rd r = Some (Inr (v, r')) \<and> avail r' rest))"

lemma acceptsE:
  assumes "accepts rd c v" "avail r (c @ rest)"
  obtains r' where "rd r = Some (Inr (v, r'))" "avail r' rest"
  using assms unfolding accepts_def by blast

lemma accepts_read: "v < 2 ^ n \<Longrightarrow> n \<le> 64 \<Longrightarrow> accepts (br_read n) (to_bits n v) v"
  unfolding accepts_def br_read_def
  using read_loop_avail [of _ n v _ 0] order_less_le_trans [of v "2 ^ n" "2 ^ 64"] power_increasing [of n 64 "2 :: nat"]
  by simp

lemma accepts_seq:
  assumes "accepts rd c a" "accepts (rd' a) d b"
  shows "accepts (\<lambda>r. read_then (rd r) rd') (c @ d) b"
  unfolding accepts_def
proof (intro allI impI)
  fix r rest assume "avail r ((c @ d) @ rest)"
  then obtain r' where "rd r = Some (Inr (a, r'))" "avail r' (d @ rest)"
    using acceptsE [OF assms(1), of r "d @ rest"] by auto
  then show "\<exists>r'. read_then (rd r) rd' = Some (Inr (b, r')) \<and> avail r' rest"
    using assms(2) by (auto simp: accepts_def read_then_def)
qed

lemma accepts_return: "accepts (\<lambda>r. Some (Inr (a, r))) [] a"
  by (simp add: accepts_def)

lemma accepts_read_fs_loop: "accepts (read_fs_loop m) (fs_code n) (m + n)"
proof (induction n arbitrary: m)
  case 0
  show ?case
    unfolding accepts_def
  proof (intro allI impI)
    fix r rest assume "avail r (fs_code 0 @ rest)"
    then obtain r' where "br_read 1 r = Some (Inr (1, r'))" "avail r' rest"
      using acceptsE [OF accepts_read [of 1 1], of r rest] by (auto simp: fs_code_def to_bits_1 [simplified])
    then show "\<exists>r'. read_fs_loop m r = Some (Inr (m + 0, r')) \<and> avail r' rest"
      by (subst read_fs_loop.simps) simp
  qed
next
  case (Suc n)
  show ?case
    unfolding accepts_def
  proof (intro allI impI)
    fix r rest assume "avail r (fs_code (Suc n) @ rest)"
    then have "avail r (to_bits 1 0 @ fs_code n @ rest)" by (simp add: fs_code_def to_bits_def)
    then obtain r' where r': "br_read 1 r = Some (Inr (0, r'))" "avail r' (fs_code n @ rest)"
      using acceptsE [OF accepts_read [of 0 1], of r "fs_code n @ rest"] by auto
    have "read_fs_loop m r = read_fs_loop (m + 1) r'" by (subst read_fs_loop.simps) (simp add: r'(1) [simplified])
    then show "\<exists>r'. read_fs_loop m r = Some (Inr (m + Suc n, r')) \<and> avail r' rest"
      using acceptsE [OF Suc.IH [of "m + 1"] r'(2)] by auto
  qed
qed

lemma accepts_read_fs: "accepts read_fs (fs_code n) n"
  using accepts_read_fs_loop [of 0 n] by (simp add: accepts_def read_fs_def)

text \<open>What was written is what a reader of the written bytes has before it.\<close>

lemma wrote_avail:
  assumes "wrote w bs"
  shows "avail (BitReader_new (take (bytes_written w) (bw_buf w))) bs"
proof -
  let ?m = "bytes_written w"
  have w: "bw_bit w \<le> 8" "0 < bw_bit w" "length bs = 8 * bw_pos w + (8 - bw_bit w)" "length bs \<le> 8 * length (bw_buf w)"
    using assms by (auto simp: wrote_def holds_bits_def)
  have m: "?m \<le> length (bw_buf w)" "length bs \<le> 8 * ?m" using w by (auto simp: bytes_written_def)
  have "bufbit (take ?m (bw_buf w)) i = bs ! i" if "i < length bs" for i
  proof -
    have "i div 8 < ?m" using that m(2) by linarith
    then have "bufbit (take ?m (bw_buf w)) i = bufbit (bw_buf w) i" by (simp add: bufbit_def)
    also have "\<dots> = bs ! i" using assms that w by (auto simp: wrote_def holds_bits_def)
    finally show ?thesis .
  qed
  then show ?thesis using m by (auto simp: avail_def reader_ok_def rd_off_def BitReader_new_def)
qed

lemma bytes_written_le:
  assumes "wrote w bs"
  shows "bytes_written w \<le> length (bw_buf w)" "8 * bytes_written w < length bs + 8"
  using assms by (auto simp: wrote_def holds_bits_def bytes_written_def)

section \<open>The interface of a code\<close>

lemma for_each_map: "for_each f (map g xs) = for_each (\<lambda>x. f (g x)) xs"
  by (rule ext, induction xs) (simp_all add: and_then_def cong: option.case_cong outcome.case_cong)

locale bit_code =
  fixes wr :: "'a \<Rightarrow> bit_writer \<Rightarrow> bit_writer outcome option"
    and rd :: "bit_reader \<Rightarrow> 'a reading"
    and code :: "'a \<Rightarrow> bool list"
    and codable :: "'a \<Rightarrow> bool"
  assumes writes: "codable a \<Longrightarrow> emits (wr a) (code a)"
    and reads: "codable a \<Longrightarrow> accepts rd (code a) a"
begin

lemma emits_all: "\<forall>a\<in>set as. codable a \<Longrightarrow> emits (for_each wr as) (concat (map code as))"
proof (induction as)
  case Nil
  show ?case using emits_skip by simp
next
  case (Cons a as)
  then have "emits (\<lambda>w. and_then (wr a w) (for_each wr as)) (code a @ concat (map code as))"
    by (intro emits_seq writes) auto
  then show ?case by simp
qed

lemma accepts_all: "\<forall>a\<in>set as. codable a \<Longrightarrow> accepts (read_n rd (length as)) (concat (map code as)) as"
proof (induction as)
  case Nil
  show ?case using accepts_return by simp
next
  case (Cons a as)
  have "accepts (\<lambda>r. read_then (read_n rd (length as) r) (\<lambda>as r. Some (Inr (a # as, r))))
          (concat (map code as) @ []) (a # as)"
    by (rule accepts_seq [where a = as]) (use Cons accepts_return in auto)
  then have "accepts (\<lambda>r. read_then (rd r) (\<lambda>a r. read_then (read_n rd (length as) r) (\<lambda>as r. Some (Inr (a # as, r)))))
          (code a @ concat (map code as)) (a # as)"
    by (intro accepts_seq [where a = a]) (use Cons reads in auto)
  then show ?case by simp
qed

end

interpretation fixed: bit_code "\<lambda>v. bw_write v n" "br_read n" "to_bits n" "\<lambda>v. v < 2 ^ n \<and> n \<le> 64" for n
  by unfold_locales (auto intro: emits_write accepts_read)

interpretation fs: bit_code write_fs read_fs fs_code "\<lambda>m. m < 2 ^ 32"
  by unfold_locales (auto intro: emits_write_fs accepts_read_fs)

section \<open>Reading always ends\<close>

text \<open>
  \<open>reading_ends rd\<close>: on a reader in a regular state, \<open>rd\<close> returns, and when it returns a value
  the reader is again in a regular state, has not moved back, and is still inside its buffer.
\<close>

definition in_buffer :: "bit_reader \<Rightarrow> bool" where
  "in_buffer r \<longleftrightarrow> reader_ok r \<and> rd_off r \<le> 8 * length (br_buf r)"

definition reading_ends :: "(bit_reader \<Rightarrow> 'a reading) \<Rightarrow> nat \<Rightarrow> bool" where
  "reading_ends rd n \<longleftrightarrow> (\<forall>r. in_buffer r \<longrightarrow> (\<exists>x. rd r = Some x \<and>
     (\<forall>v r'. x = Inr (v, r') \<longrightarrow> in_buffer r' \<and> br_buf r' = br_buf r \<and> rd_off r + n \<le> rd_off r')))"

lemma read_loop_ends:
  assumes "in_buffer r"
  shows "\<exists>x. read_loop acc n r = Some x \<and>
     (\<forall>v r'. x = Inr (v, r') \<longrightarrow> in_buffer r' \<and> br_buf r' = br_buf r \<and> rd_off r + n \<le> rd_off r')"
  using assms
proof (induction n arbitrary: r acc rule: less_induct)
  case (less n)
  show ?case
  proof (cases "n = 0 \<or> length (br_buf r) \<le> br_pos r")
    case True
    then show ?thesis using less.prems by (subst read_loop.simps) auto
  next
    case False
    let ?k = "min n (br_bit r)"
    have ok: "reader_ok r" using less.prems by (simp add: in_buffer_def)
    have "in_buffer (skip_bits ?k r)"
      using less.prems False by (auto simp: in_buffer_def) (auto simp: rd_off_def reader_ok_def)
    moreover have "n - ?k < n" using False ok by (auto simp: reader_ok_def)
    ultimately show ?thesis
      using less.IH [of "n - ?k" "skip_bits ?k r"] read_loop_step [of n r acc] False ok
      by (fastforce simp: add.assoc)
  qed
qed

lemma read_ends: "reading_ends (br_read n) n"
  using read_loop_ends by (simp add: reading_ends_def br_read_def)

lemma reading_ends_mono: "reading_ends rd n \<Longrightarrow> m \<le> n \<Longrightarrow> reading_ends rd m"
  unfolding reading_ends_def by (meson add_le_mono le_trans order_refl)

lemma reading_ends_seq:
  assumes "reading_ends rd m" "\<And>a. reading_ends (rd' a) n"
  shows "reading_ends (\<lambda>r. read_then (rd r) rd') (m + n)"
  unfolding reading_ends_def
proof (intro allI impI)
  fix r assume "in_buffer r"
  then obtain x where x: "rd r = Some x"
    "\<And>v r'. x = Inr (v, r') \<Longrightarrow> in_buffer r' \<and> br_buf r' = br_buf r \<and> rd_off r + m \<le> rd_off r'"
    using assms(1) unfolding reading_ends_def by blast
  show "\<exists>x. read_then (rd r) rd' = Some x \<and>
     (\<forall>v r'. x = Inr (v, r') \<longrightarrow> in_buffer r' \<and> br_buf r' = br_buf r \<and> rd_off r + (m + n) \<le> rd_off r')"
  proof (cases x)
    case (Inl e)
    then show ?thesis using x(1) by (simp add: read_then_def)
  next
    case (Inr p)
    then obtain v r' where p: "x = Inr (v, r')" by (cases p) auto
    note r' = x(2) [OF p]
    obtain y where y: "rd' v r' = Some y"
      "\<And>u r''. y = Inr (u, r'') \<Longrightarrow> in_buffer r'' \<and> br_buf r'' = br_buf r' \<and> rd_off r' + n \<le> rd_off r''"
      using assms(2) [of v] r' unfolding reading_ends_def by blast
    have "read_then (rd r) rd' = Some y" using x(1) p y(1) by (simp add: read_then_def)
    moreover have "in_buffer r'' \<and> br_buf r'' = br_buf r \<and> rd_off r + (m + n) \<le> rd_off r''"
      if "y = Inr (u, r'')" for u r'' using y(2) [OF that] r' by simp
    ultimately show ?thesis by blast
  qed
qed

lemma reading_ends_return: "reading_ends (\<lambda>r. Some (Inr (a, r))) 0"
  by (simp add: reading_ends_def)

lemma read_fs_loop_ends: "in_buffer r \<Longrightarrow> \<exists>x. read_fs_loop m r = Some x \<and>
     (\<forall>v r'. x = Inr (v, r') \<longrightarrow> in_buffer r' \<and> br_buf r' = br_buf r \<and> rd_off r + (v - m + 1) \<le> rd_off r' \<and> m \<le> v)"
proof (induction "8 * length (br_buf r) - rd_off r" arbitrary: r m rule: less_induct)
  case less
  obtain x where x: "br_read 1 r = Some x"
    "\<And>v r'. x = Inr (v, r') \<Longrightarrow> in_buffer r' \<and> br_buf r' = br_buf r \<and> rd_off r + 1 \<le> rd_off r'"
    using read_ends [of 1] less.prems unfolding reading_ends_def by blast
  show ?case
  proof (cases x)
    case (Inl e)
    then show ?thesis using x(1) by (subst read_fs_loop.simps) simp
  next
    case (Inr p)
    then obtain b r' where p: "x = Inr (b, r')" by (cases p) auto
    note r' = x(2) [OF p]
    show ?thesis
    proof (cases "b = 1")
      case True
      then have "read_fs_loop m r = Some (Inr (m, r'))" using x(1) p by (subst read_fs_loop.simps) simp
      then show ?thesis using r' by auto
    next
      case False
      then have eq: "read_fs_loop m r = read_fs_loop (m + 1) r'"
        using x(1) p by (subst read_fs_loop.simps) (simp split: if_splits)
      have "8 * length (br_buf r') - rd_off r' < 8 * length (br_buf r) - rd_off r"
        using r' less.prems by (auto simp: in_buffer_def)
      then obtain y where "read_fs_loop (m + 1) r' = Some y"
        "\<And>v r''. y = Inr (v, r'') \<Longrightarrow> in_buffer r'' \<and> br_buf r'' = br_buf r'
           \<and> rd_off r' + (v - (m + 1) + 1) \<le> rd_off r'' \<and> m + 1 \<le> v"
        using less.hyps [of r' "m + 1"] r' by blast
      then show ?thesis using r' unfolding eq by (intro exI [of _ y]) fastforce
    qed
  qed
qed

lemma read_fs_ends: "reading_ends read_fs 1"
  unfolding reading_ends_def
proof (intro allI impI)
  fix r assume "in_buffer r"
  then obtain x where "read_fs_loop 0 r = Some x"
    "\<And>v r'. x = Inr (v, r') \<Longrightarrow> in_buffer r' \<and> br_buf r' = br_buf r \<and> rd_off r + (v - 0 + 1) \<le> rd_off r'"
    using read_fs_loop_ends [of r 0] by blast
  then show "\<exists>x. read_fs r = Some x \<and> (\<forall>v r'. x = Inr (v, r') \<longrightarrow>
      in_buffer r' \<and> br_buf r' = br_buf r \<and> rd_off r + 1 \<le> rd_off r')"
    by (intro exI [of _ x]) (fastforce simp: read_fs_def)
qed

lemma read_n_ends: "reading_ends rd m \<Longrightarrow> reading_ends (read_n rd n) 0"
proof (induction n)
  case 0
  show ?case using reading_ends_return by simp
next
  case (Suc n)
  have "reading_ends (\<lambda>r. read_then (rd r) (\<lambda>a r. read_then (read_n rd n r) (\<lambda>as r. Some (Inr (a # as, r))))) (m + (0 + 0))"
    by (intro reading_ends_seq Suc reading_ends_return)
  then show ?case using reading_ends_mono by fastforce
qed

end
