(* ===== verification/Rice.thy ===== *)
theory Rice
  imports Rice_Bits
begin

text \<open>
  The Rice coder of CCSDS 121.0-B-3
  (\<open>crates/leodos-protocols/src/application/compression/rice.rs\<close>): a unit-delay predictor with
  its error mapper, the choice of the cheapest coding option per block, the encoder with its
  runs of zero blocks, and the decoder.

  Samples and counters of the source are \<open>u32\<close>, mapped errors and costs \<open>u64\<close>; they are
  natural numbers here, with every operation of the source that can wrap written with its
  wrap-around, as a release build computes it. A loop that does not end is \<open>None\<close>, a panic
  \<open>Some Panics\<close>, an error of the code \<open>Some (Returns (Inl e))\<close>.
\<close>

section \<open>Configuration\<close>

record Config =
  bits_per_sample :: nat
  block_size :: nat
  ref_interval :: nat
  preprocessor :: bool

definition MAX_J :: nat where "MAX_J = 64"

definition id_len :: "Config \<Rightarrow> nat" where
  "id_len cfg =
     (let n = bits_per_sample cfg in
      if 1 \<le> n \<and> n \<le> 2 then 1
      else if 3 \<le> n \<and> n \<le> 4 then 2
      else if 5 \<le> n \<and> n \<le> 8 then 3
      else if 9 \<le> n \<and> n \<le> 16 then 4
      else if 17 \<le> n \<and> n \<le> 32 then 5
      else 0)"

definition config_validate :: "Config \<Rightarrow> bool" where
  "config_validate cfg \<longleftrightarrow> \<not> (bits_per_sample cfg = 0 \<or> 32 < bits_per_sample cfg)
     \<and> block_size cfg \<in> {8, 16, 32, 64} \<and> \<not> 4096 < ref_interval cfg"

definition x_max :: "Config \<Rightarrow> nat" where
  "x_max cfg = 2 ^ bits_per_sample cfg - 1"

section \<open>Preprocessor\<close>

text \<open>The wrapping subtraction of \<open>u64\<close> and the cast \<open>as i64\<close>.\<close>

definition sub64 :: "nat \<Rightarrow> nat \<Rightarrow> nat" where
  "sub64 a b = wrap64 (a + 2 ^ 64 - b)"

definition as_i64 :: "nat \<Rightarrow> int" where
  "as_i64 x = (if x < 2 ^ 63 then int x else int x - 2 ^ 64)"

definition map_error :: "int \<Rightarrow> nat \<Rightarrow> nat \<Rightarrow> nat" where
  "map_error delta x_hat xm =
     (let theta = as_i64 (min x_hat (sub64 xm x_hat)) in
      if delta \<ge> 0 \<and> delta \<le> theta then 2 * nat delta
      else if delta < 0 \<and> - delta \<le> theta then nat (2 * (- delta)) - 1
      else wrap64 (nat (theta mod 2 ^ 64) + nat \<bar>delta\<bar>))"

definition unmap_error :: "nat \<Rightarrow> nat \<Rightarrow> nat \<Rightarrow> int" where
  "unmap_error d x_hat xm =
     (let theta = as_i64 (min x_hat (sub64 xm x_hat)) in
      if as_i64 d \<le> 2 * theta
      then (if d mod 2 = 0 then as_i64 (d div 2) else - as_i64 (wrap64 (d + 1) div 2))
      else if as_i64 x_hat \<le> as_i64 (sub64 xm x_hat) then as_i64 d - theta
      else theta - as_i64 d)"

fun map_samples :: "nat \<Rightarrow> nat \<Rightarrow> nat list \<Rightarrow> nat list" where
  "map_samples xm prev_val [] = []"
| "map_samples xm prev_val (x # xs) = map_error (int x - int prev_val) prev_val xm # map_samples xm x xs"

definition preprocess_block :: "nat list \<Rightarrow> bool \<Rightarrow> nat \<Rightarrow> nat \<Rightarrow> nat list" where
  "preprocess_block samples is_ref prev xm =
     (if is_ref then map_samples xm (samples ! 0) (drop 1 samples) else map_samples xm prev samples)"

section \<open>Choice of the coding option\<close>

definition cost_split :: "nat list \<Rightarrow> nat \<Rightarrow> nat" where
  "cost_split data k =
     wrap64 (foldl (\<lambda>total d. wrap64 (total + wrap64 (d div 2 ^ k + 1))) 0 data + wrap64 (k * length data))"

text \<open>
  \<open>chunks(2)\<close> of a block, the missing partner of an odd last value being 0; on an even number
  of values also \<open>chunks_exact(2)\<close>.
\<close>

fun chunk_pairs :: "nat list \<Rightarrow> (nat \<times> nat) list" where
  "chunk_pairs [] = []"
| "chunk_pairs [d] = [(d, 0)]"
| "chunk_pairs (d1 # d2 # ds) = (d1, d2) # chunk_pairs ds"

definition pair_gamma :: "nat \<times> nat \<Rightarrow> nat" where
  "pair_gamma p =
     (let sum = wrap64 (fst p + snd p) in wrap64 (wrap64 (sum * wrap64 (sum + 1)) div 2 + snd p))"

definition cost_second_ext :: "nat list \<Rightarrow> nat option" where
  "cost_second_ext data =
     (if length data mod 2 \<noteq> 0 then None
      else Some (foldl (\<lambda>total p. wrap64 (total + wrap64 (pair_gamma p + 1))) 0 (chunk_pairs data)))"

definition cost_no_comp :: "nat \<Rightarrow> nat \<Rightarrow> nat" where
  "cost_no_comp data_len n = wrap64 (data_len * n)"

datatype CodingOption = ZeroBlock | SecondExtension | Split nat | NoCompression

definition try_split :: "nat list \<Rightarrow> nat \<Rightarrow> nat \<times> CodingOption \<Rightarrow> nat \<Rightarrow> nat \<times> CodingOption" where
  "try_split data idl best k =
     (let total = wrap64 (cost_split data k + idl) in if total < fst best then (total, Split k) else best)"

definition try_second :: "nat list \<Rightarrow> nat \<Rightarrow> nat \<times> CodingOption \<Rightarrow> nat \<times> CodingOption" where
  "try_second data idl best =
     (case cost_second_ext data of None \<Rightarrow> best
      | Some se_cost \<Rightarrow> let total = wrap64 (se_cost + (idl + 1)) in
          if total < fst best then (total, SecondExtension) else best)"

definition try_no_comp :: "nat list \<Rightarrow> nat \<Rightarrow> nat \<Rightarrow> nat \<times> CodingOption \<Rightarrow> nat \<times> CodingOption" where
  "try_no_comp data n idl best =
     (let nc_cost = wrap64 (cost_no_comp (length data) n + idl) in
      if nc_cost \<le> fst best then (nc_cost, NoCompression) else best)"

definition select_option :: "nat list \<Rightarrow> nat \<Rightarrow> nat \<Rightarrow> nat \<Rightarrow> CodingOption" where
  "select_option data n idl max_k =
     (if \<forall>d \<in> set data. d = 0 then ZeroBlock
      else snd (foldl (try_split data idl)
                  (try_second data idl (try_no_comp data n idl (2 ^ 64 - 1, NoCompression))) [0..<Suc max_k]))"

section \<open>Encoder\<close>

definition encode_data :: "nat list \<Rightarrow> nat \<Rightarrow> CodingOption \<Rightarrow> bit_writer \<Rightarrow> bit_writer outcome option" where
  "encode_data data n opt w =
     (case opt of
        Split k \<Rightarrow>
          and_then (for_each (\<lambda>d. write_fs (d div 2 ^ k)) data w)
            (\<lambda>w. if k > 0 then for_each (\<lambda>d. bw_write (d AND mask k) k) data w else Some (Returns w))
      | SecondExtension \<Rightarrow> for_each (\<lambda>p. write_fs (pair_gamma p)) (chunk_pairs data) w
      | NoCompression \<Rightarrow> for_each (\<lambda>d. bw_write d n) data w
      | ZeroBlock \<Rightarrow> Some (Returns w))"

definition seg_size :: "Config \<Rightarrow> nat \<Rightarrow> nat" where
  "seg_size cfg block_idx =
     (if ref_interval cfg = 0 then 64
      else min (ref_interval cfg - (block_idx mod 2 ^ 32) mod ref_interval cfg) 64)"

definition flush_zero_blocks ::
  "nat \<Rightarrow> nat \<Rightarrow> nat option \<Rightarrow> nat \<Rightarrow> bool \<Rightarrow> bit_writer \<Rightarrow> bit_writer outcome option" where
  "flush_zero_blocks idl n ref_sample count use_ros w =
     and_then (bw_write 0 (idl + 1) w) (\<lambda>w.
     and_then (case ref_sample of Some r \<Rightarrow> bw_write r n w | None \<Rightarrow> Some (Returns w)) (\<lambda>w.
     if use_ros \<and> count \<ge> 5 then write_fs 4 w
     else if count \<le> 4 then write_fs (count - 1) w
     else write_fs count w))"

definition is_ref_block :: "Config \<Rightarrow> nat \<Rightarrow> bool" where
  "is_ref_block cfg blk \<longleftrightarrow> preprocessor cfg \<and> ref_interval cfg > 0 \<and> blk mod ref_interval cfg = 0"

record comp_state =
  cs_w :: bit_writer
  prev_sample :: nat
  zero_run :: nat
  zero_ref :: "nat option"
  seg_remaining :: nat

definition block_data :: "Config \<Rightarrow> nat list \<Rightarrow> bool \<Rightarrow> nat \<Rightarrow> nat list" where
  "block_data cfg block is_ref prev =
     (if preprocessor cfg then preprocess_block block is_ref prev (x_max cfg) else block)"

definition max_split :: "Config \<Rightarrow> nat" where
  "max_split cfg = min ((2 ^ id_len cfg + 2 ^ 32 - 3) mod 2 ^ 32) (bits_per_sample cfg - 2)"

definition write_cds ::
  "Config \<Rightarrow> CodingOption \<Rightarrow> bool \<Rightarrow> nat list \<Rightarrow> nat list \<Rightarrow> bit_writer \<Rightarrow> bit_writer outcome option" where
  "write_cds cfg opt is_ref block data w =
     and_then (case opt of
                 SecondExtension \<Rightarrow> bw_write 1 (id_len cfg + 1) w
               | Split k \<Rightarrow> bw_write (k + 1) (id_len cfg) w
               | NoCompression \<Rightarrow> bw_write (2 ^ id_len cfg - 1) (id_len cfg) w
               | ZeroBlock \<Rightarrow> Some Panics) (\<lambda>w.
     and_then (if is_ref then bw_write (block ! 0) (bits_per_sample cfg) w else Some (Returns w)) (\<lambda>w.
     encode_data data (bits_per_sample cfg) opt w))"

text \<open>The branch of a zero block: it is counted, and the run is written at the end of a segment.\<close>

definition zero_block :: "Config \<Rightarrow> nat \<Rightarrow> nat \<Rightarrow> bool \<Rightarrow> nat list \<Rightarrow> comp_state \<Rightarrow> comp_state outcome option" where
  "zero_block cfg num_blocks blk is_ref block s =
     (let zref = (if zero_run s = 0 then (if is_ref then Some (block ! 0) else None) else zero_ref s);
          run = zero_run s + 1;
          seg = seg_remaining s - 1;
          at_seg_end = (seg = 0);
          at_input_end = (blk = num_blocks - 1)
      in if at_seg_end \<or> at_input_end
         then and_then (flush_zero_blocks (id_len cfg) (bits_per_sample cfg) zref run (at_seg_end \<and> run \<ge> 5) (cs_w s))
                (\<lambda>w. Some (Returns (s\<lparr>cs_w := w, zero_run := 0, zero_ref := None,
                        seg_remaining := if at_seg_end then seg_size cfg (blk + 1) else seg\<rparr>)))
         else Some (Returns (s\<lparr>zero_run := run, zero_ref := zref, seg_remaining := seg\<rparr>)))"

definition compress_block :: "Config \<Rightarrow> nat list \<Rightarrow> nat \<Rightarrow> nat \<Rightarrow> comp_state \<Rightarrow> comp_state outcome option" where
  "compress_block cfg samples num_blocks blk s =
     (let j = block_size cfg;
          block = bslice samples (blk * j) j;
          is_ref = is_ref_block cfg blk;
          data = block_data cfg block is_ref (prev_sample s);
          s = s\<lparr>prev_sample := block ! (j - 1)\<rparr>;
          opt = select_option data (bits_per_sample cfg) (id_len cfg) (max_split cfg)
      in if opt = ZeroBlock then zero_block cfg num_blocks blk is_ref block s
         else and_then (if zero_run s > 0
                        then and_then (flush_zero_blocks (id_len cfg) (bits_per_sample cfg) (zero_ref s) (zero_run s) False (cs_w s))
                               (\<lambda>w. Some (Returns (s\<lparr>cs_w := w, zero_run := 0, zero_ref := None\<rparr>)))
                        else Some (Returns s))
                (\<lambda>s. let seg = seg_remaining s - 1;
                         s = s\<lparr>seg_remaining := if seg = 0 then seg_size cfg (blk + 1) else seg\<rparr>
                     in and_then (write_cds cfg opt is_ref block data (cs_w s)) (\<lambda>w. Some (Returns (s\<lparr>cs_w := w\<rparr>)))))"

text \<open>The result: the number of bytes written, and the output buffer.\<close>

definition compress :: "Config \<Rightarrow> nat list \<Rightarrow> bytes \<Rightarrow> (rice_error + nat \<times> bytes) outcome option" where
  "compress cfg samples output =
     (if \<not> config_validate cfg then Some (Returns (Inl InvalidConfig))
      else if samples = [] then Some (Returns (Inr (0, output)))
      else if length samples mod block_size cfg \<noteq> 0 then Some (Returns (Inl InvalidConfig))
      else let num_blocks = length samples div block_size cfg;
               s = \<lparr>cs_w = BitWriter_new output, prev_sample = 0, zero_run = 0, zero_ref = None,
                    seg_remaining = seg_size cfg 0\<rparr>
           in and_then (for_each (compress_block cfg samples num_blocks) [0..<num_blocks] s)
                (\<lambda>s. Some (Returns (Inr (bytes_written (cs_w s), bw_buf (cs_w s))))))"

section \<open>Decoder\<close>

definition decode_zero_count :: "nat \<Rightarrow> nat \<Rightarrow> nat" where
  "decode_zero_count fs_val seg =
     (if fs_val \<le> 3 then fs_val + 1 else if fs_val = 4 then seg else fs_val mod 2 ^ 32)"

text \<open>
  The loop looks for the diagonal of \<open>\<gamma>\<close>. Its variables stay below \<open>\<gamma> + 1\<close> until the last
  round, so that no sum wraps for any code that was read from a stream.
\<close>

function second_ext_loop :: "nat \<Rightarrow> nat \<Rightarrow> nat \<Rightarrow> nat \<times> nat" where
  "second_ext_loop gamma beta threshold =
     (let next = threshold + beta + 1 in
      if gamma < next then (beta, threshold) else second_ext_loop gamma (beta + 1) next)"
  by pat_completeness auto

termination second_ext_loop
  by (relation "measure (\<lambda>(gamma, beta, threshold). gamma + 1 - threshold)") auto

declare second_ext_loop.simps [simp del]

definition decode_second_ext_pair :: "nat \<Rightarrow> nat \<times> nat" where
  "decode_second_ext_pair gamma =
     (let (beta, threshold) = second_ext_loop gamma 0 0; d2 = gamma - threshold in (beta - d2, d2))"

definition decode_mapped ::
  "CodingOption \<Rightarrow> nat \<Rightarrow> nat \<Rightarrow> bool \<Rightarrow> bit_reader \<Rightarrow> (rice_error + nat list \<times> bit_reader) outcome option" where
  "decode_mapped opt j n is_ref r =
     (let data_len = (if is_ref then j - 1 else j) in
      case opt of
        Split k \<Rightarrow> map_option Returns
          (read_then (read_n read_fs data_len r) (\<lambda>fs r.
             if k > 0 then read_then (read_n (br_read k) data_len r) (\<lambda>ls r.
                             Some (Inr (map2 (\<lambda>f l. wrap64 (push_bit k f) OR l) fs ls, r)))
             else Some (Inr (map (\<lambda>f. wrap64 (push_bit k f)) fs, r))))
      | SecondExtension \<Rightarrow>
          (let n_pairs = (if is_ref then j else data_len) div 2; se_start = (if is_ref then 1 else 0) in
           Option.bind (read_n read_fs n_pairs r) (\<lambda>x. case x of
             Inl e \<Rightarrow> Some (Returns (Inl e))
           | Inr (gammas, r) \<Rightarrow>
               if n_pairs > 0 \<and> MAX_J < se_start + 2 * n_pairs then Some Panics
               else let se_mapped = replicate se_start 0 @
                          concat (map (\<lambda>g. let (d1, d2) = decode_second_ext_pair g in [d1, d2]) gammas)
                    in Some (Returns (Inr (take data_len (drop se_start se_mapped), r)))))
      | NoCompression \<Rightarrow> map_option Returns (read_n (br_read n) data_len r)
      | ZeroBlock \<Rightarrow> Some Panics)"

fun unmap_samples :: "nat \<Rightarrow> nat \<Rightarrow> nat list \<Rightarrow> nat list" where
  "unmap_samples xm prev [] = []"
| "unmap_samples xm prev (d # ds) =
     (let sample = nat ((int prev + unmap_error d prev xm) mod 2 ^ 32) in sample # unmap_samples xm sample ds)"

record dec_state =
  ds_r :: bit_reader
  ds_out :: "nat list"
  out_pos :: nat
  blk_idx :: nat
  ds_prev :: nat
  ds_seg :: nat

definition decode_single_block :: "Config \<Rightarrow> bool \<Rightarrow> CodingOption \<Rightarrow> dec_state \<Rightarrow> (rice_error + dec_state) outcome option" where
  "decode_single_block cfg is_ref opt s =
     (let j = block_size cfg; n = bits_per_sample cfg in
      Option.bind (if is_ref then br_read n (ds_r s) else Some (Inr (0, ds_r s))) (\<lambda>x. case x of
        Inl e \<Rightarrow> Some (Returns (Inl e))
      | Inr (v, r) \<Rightarrow>
          let ref_val = v mod 2 ^ 32 in
          and_then (decode_mapped opt j n is_ref r) (\<lambda>y. case y of
            Inl e \<Rightarrow> Some (Returns (Inl e))
          | Inr (mapped, r) \<Rightarrow>
              let block = (if is_ref then [ref_val] else []) @
                    (if preprocessor cfg
                     then unmap_samples (x_max cfg) (if is_ref then ref_val else ds_prev s) mapped
                     else map (\<lambda>d. d mod 2 ^ 32) mapped);
                  output = blit (ds_out s) (out_pos s) block
              in Some (Returns (Inr (s\<lparr>ds_r := r, ds_out := output, ds_prev := output ! (out_pos s + j - 1),
                                       out_pos := out_pos s + j\<rparr>))))))"

text \<open>The end of both branches of the decoder: the next block of the segment.\<close>

definition next_block :: "Config \<Rightarrow> dec_state \<Rightarrow> dec_state" where
  "next_block cfg s =
     (let blk = blk_idx s + 1; seg = ds_seg s - 1 in
      s\<lparr>blk_idx := blk, ds_seg := if seg = 0 then seg_size cfg blk else seg\<rparr>)"

definition fill_zero_block :: "Config \<Rightarrow> bool \<Rightarrow> nat \<Rightarrow> nat \<Rightarrow> dec_state \<Rightarrow> dec_state outcome option" where
  "fill_zero_block cfg is_ref ref_val i s =
     (let j = block_size cfg;
          first = (if is_ref \<and> i = 0 then ref_val else if preprocessor cfg then ds_prev s else 0);
          block = first # replicate (j - 1) (if preprocessor cfg then first else 0)
      in if out_pos s + j \<le> length (ds_out s)
         then let output = blit (ds_out s) (out_pos s) block
              in Some (Returns (next_block cfg (s\<lparr>ds_out := output, ds_prev := output ! (out_pos s + j - 1),
                                                   out_pos := out_pos s + j\<rparr>)))
         else Some Panics)"

definition decode_zero_blocks :: "Config \<Rightarrow> bool \<Rightarrow> dec_state \<Rightarrow> (rice_error + dec_state) outcome option" where
  "decode_zero_blocks cfg is_ref s =
     Option.bind (read_then (if is_ref then br_read (bits_per_sample cfg) (ds_r s) else Some (Inr (0, ds_r s)))
                    (\<lambda>v r. read_then (read_fs r) (\<lambda>fs r. Some (Inr ((v mod 2 ^ 32, fs), r)))))
       (\<lambda>x. case x of
          Inl e \<Rightarrow> Some (Returns (Inl e))
        | Inr ((ref_val, fs_val), r) \<Rightarrow>
            and_then (for_each (fill_zero_block cfg is_ref ref_val) [0..<decode_zero_count fs_val (ds_seg s)] (s\<lparr>ds_r := r\<rparr>))
              (\<lambda>s. Some (Returns (Inr s))))"

text \<open>One round of the decoder's loop.\<close>

definition single_and_next :: "Config \<Rightarrow> bool \<Rightarrow> CodingOption \<Rightarrow> dec_state \<Rightarrow> (rice_error + dec_state) outcome option" where
  "single_and_next cfg is_ref opt s =
     and_then (decode_single_block cfg is_ref opt s) (\<lambda>x. case x of
       Inl e \<Rightarrow> Some (Returns (Inl e)) | Inr s \<Rightarrow> Some (Returns (Inr (next_block cfg s))))"

definition decompress_step :: "Config \<Rightarrow> dec_state \<Rightarrow> (rice_error + dec_state) outcome option" where
  "decompress_step cfg s =
     (let is_ref = is_ref_block cfg (blk_idx s) in
      Option.bind (br_read (id_len cfg) (ds_r s)) (\<lambda>x. case x of
        Inl e \<Rightarrow> Some (Returns (Inl e))
      | Inr (id_val, r) \<Rightarrow>
          if id_val = 0
          then Option.bind (br_read 1 r) (\<lambda>y. case y of
                 Inl e \<Rightarrow> Some (Returns (Inl e))
               | Inr (extra, r) \<Rightarrow>
                   if extra = 0 then decode_zero_blocks cfg is_ref (s\<lparr>ds_r := r\<rparr>)
                   else single_and_next cfg is_ref SecondExtension (s\<lparr>ds_r := r\<rparr>))
          else if id_val = 2 ^ id_len cfg - 1 then single_and_next cfg is_ref NoCompression (s\<lparr>ds_r := r\<rparr>)
          else single_and_next cfg is_ref (Split (id_val - 1)) (s\<lparr>ds_r := r\<rparr>)))"

partial_function (option) decompress_loop ::
  "Config \<Rightarrow> dec_state \<Rightarrow> (rice_error + nat \<times> nat list) outcome option" where
  "decompress_loop cfg s =
     (if out_pos s + block_size cfg \<le> length (ds_out s)
      then Option.bind (decompress_step cfg s) (\<lambda>x. case x of
             Panics \<Rightarrow> Some Panics
           | Returns y \<Rightarrow> (case y of Inl e \<Rightarrow> Some (Returns (Inl e)) | Inr s' \<Rightarrow> decompress_loop cfg s'))
      else Some (Returns (Inr (out_pos s, ds_out s))))"

definition decompress :: "Config \<Rightarrow> bytes \<Rightarrow> nat list \<Rightarrow> (rice_error + nat \<times> nat list) outcome option" where
  "decompress cfg input output =
     (if \<not> config_validate cfg then Some (Returns (Inl InvalidConfig))
      else decompress_loop cfg
             \<lparr>ds_r = BitReader_new input, ds_out = output, out_pos = 0, blk_idx = 0, ds_prev = 0,
              ds_seg = seg_size cfg 0\<rparr>)"

section \<open>The predictor loses nothing\<close>

lemma sub64_le: "b \<le> a \<Longrightarrow> a < 2 ^ 64 \<Longrightarrow> sub64 a b = a - b"
proof -
  assume a: "b \<le> a" "a < 2 ^ 64"
  have "a + 2 ^ 64 - b = a - b + 2 ^ 64" by (rule diff_add_assoc2 [OF a(1)])
  then have "sub64 a b = (a - b) mod 2 ^ 64" unfolding sub64_def wrap64_def by (simp only: mod_add_self2)
  then show ?thesis using a(2) by simp
qed

lemma as_i64_small [simp]: "x < 2 ^ 63 \<Longrightarrow> as_i64 x = int x"
  by (simp add: as_i64_def)

text \<open>Within the sample range the mapper is the folding of the standard.\<close>

lemma map_error_eq:
  assumes "x \<le> xm" "h \<le> xm" "xm < 2 ^ 32"
  shows "map_error (int x - int h) h xm =
     (let theta = min h (xm - h) in
      if h \<le> x \<and> x - h \<le> theta then 2 * (x - h)
      else if x < h \<and> h - x \<le> theta then 2 * (h - x) - 1
      else theta + (if h \<le> x then x - h else h - x))"
proof -
  define t where "t = min h (xm - h)"
  have t: "as_i64 (min h (sub64 xm h)) = int t" "t < 2 ^ 32" using assms by (auto simp: sub64_le t_def)
  consider d where "x = h + d" "d < 2 ^ 32" | d where "h = x + d" "0 < d" "d < 2 ^ 32"
  proof (cases "h \<le> x")
    case True
    then show thesis using assms by (intro that(1) [of "x - h"]) auto
  next
    case False
    then show thesis using assms by (intro that(2) [of "h - x"]) auto
  qed
  then show ?thesis
  proof cases
    case 1
    then have "int x - int h = int d" by simp
    moreover have "wrap64 (t + d) = t + d" using t(2) 1 by (intro wrap64_small) simp
    ultimately show ?thesis using 1 t(2) unfolding map_error_def t_def [symmetric] t(1) Let_def by (simp add: nat_mod_distrib)
  next
    case 2
    then have "int x - int h = - int d" by simp
    moreover have "wrap64 (t + d) = t + d" using t(2) 2 by (intro wrap64_small) simp
    ultimately show ?thesis using 2 t(2) unfolding map_error_def t_def [symmetric] t(1) Let_def
      by (auto simp: nat_mod_distrib)
  qed
qed

lemma map_error_le:
  assumes "x \<le> xm" "h \<le> xm" "xm < 2 ^ 32"
  shows "map_error (int x - int h) h xm \<le> xm"
  unfolding map_error_eq [OF assms] Let_def using assms by (auto simp: min_def)

lemma unmap_error_eq:
  assumes "d \<le> xm" "h \<le> xm" "xm < 2 ^ 32"
  shows "unmap_error d h xm =
     (let theta = min h (xm - h) in
      if d \<le> 2 * theta then (if even d then int (d div 2) else - int ((d + 1) div 2))
      else if h \<le> xm - h then int d - int theta else int theta - int d)"
proof -
  have s: "sub64 xm h = xm - h" using assms by (simp add: sub64_le)
  have b: "d < 2 ^ 63" "h < 2 ^ 63" "xm - h < 2 ^ 63" "min h (xm - h) < 2 ^ 63" "d div 2 < 2 ^ 63"
    "d + 1 < 2 ^ 64" "(d + 1) div 2 < 2 ^ 63" using assms by auto
  show ?thesis
    unfolding unmap_error_def s Let_def as_i64_small [OF b(1)] as_i64_small [OF b(2)] as_i64_small [OF b(3)]
      as_i64_small [OF b(4)] as_i64_small [OF b(5)] wrap64_small [OF b(6)] as_i64_small [OF b(7)]
    by (simp add: even_iff_mod_2_eq_zero)
qed

lemma unmap_map_error:
  assumes "x \<le> xm" "h \<le> xm" "xm < 2 ^ 32"
  shows "unmap_error (map_error (int x - int h) h xm) h xm = int x - int h"
proof -
  define t where "t = min h (xm - h)"
  have le: "map_error (int x - int h) h xm \<le> xm" by (rule map_error_le [OF assms])
  note un = unmap_error_eq [OF le assms(2,3)] Let_def t_def [symmetric]
    and ma = map_error_eq [OF assms] Let_def t_def [symmetric]
  consider (up) "h \<le> x" "x - h \<le> t" | (down) d where "h = x + d" "0 < d" "d \<le> t"
    | (far_up) "h \<le> x" "t < x - h" | (far_down) "x < h" "t < h - x"
    by (metis le_add_diff_inverse linorder_not_less nat_less_le zero_less_diff)
  then show ?thesis
  proof cases
    case up
    then have "map_error (int x - int h) h xm = 2 * (x - h)" unfolding ma by simp
    then show ?thesis using up unfolding un by simp
  next
    case down
    then have "map_error (int x - int h) h xm = 2 * d - 1" unfolding ma by simp
    moreover have "odd (2 * d - 1)" "(2 * d - 1 + 1) div 2 = d" "2 * d - 1 \<le> 2 * t" using down by auto
    ultimately show ?thesis using down unfolding un by simp
  next
    case far_up
    then have "h \<le> xm - h" "t = h" using assms by (auto simp: t_def min_def split: if_splits)
    moreover have "map_error (int x - int h) h xm = t + (x - h)" using far_up unfolding ma by simp
    ultimately show ?thesis using far_up unfolding un by auto
  next
    case far_down
    then have "\<not> h \<le> xm - h" using assms by (auto simp: t_def min_def split: if_splits)
    moreover have "map_error (int x - int h) h xm = t + (h - x)" using far_down unfolding ma by simp
    ultimately show ?thesis using far_down unfolding un by simp
  qed
qed

lemma length_map_samples [simp]: "length (map_samples xm prev xs) = length xs"
  by (induction xm prev xs rule: map_samples.induct) auto

lemma map_samples_le:
  "\<forall>x\<in>set xs. x \<le> xm \<Longrightarrow> prev \<le> xm \<Longrightarrow> xm < 2 ^ 32 \<Longrightarrow> \<forall>d\<in>set (map_samples xm prev xs). d \<le> xm"
  by (induction xm prev xs rule: map_samples.induct) (auto intro: map_error_le)

lemma unmap_map_samples:
  "\<forall>x\<in>set xs. x \<le> xm \<Longrightarrow> prev \<le> xm \<Longrightarrow> xm < 2 ^ 32 \<Longrightarrow> unmap_samples xm prev (map_samples xm prev xs) = xs"
  by (induction xm prev xs rule: map_samples.induct) (auto simp: unmap_map_error Let_def)

section \<open>The pairs of the second extension\<close>

definition tri :: "nat \<Rightarrow> nat" where
  "tri b = b * (b + 1) div 2"

lemma tri_Suc: "tri (Suc b) = tri b + b + 1"
  by (simp add: tri_def)

lemma tri_mono: "b \<le> c \<Longrightarrow> tri b \<le> tri c"
  unfolding tri_def by (intro div_le_mono mult_le_mono) auto

lemma second_ext_loop_eq:
  assumes "e \<le> B" "b \<le> B"
  shows "second_ext_loop (tri B + e) b (tri b) = (B, tri B)"
  using assms(2)
proof (induction "B - b" arbitrary: b)
  case 0
  then have "b = B" by simp
  then show ?case using assms(1) by (subst second_ext_loop.simps) (simp add: Let_def)
next
  case (Suc k)
  then have "tri (Suc b) \<le> tri B" by (intro tri_mono) simp
  then have "\<not> tri B + e < tri b + b + 1" by (simp add: tri_Suc)
  then have "second_ext_loop (tri B + e) b (tri b) = second_ext_loop (tri B + e) (Suc b) (tri (Suc b))"
    by (subst second_ext_loop.simps) (simp add: Let_def tri_Suc)
  then show ?case using Suc by simp
qed

lemma decode_second_ext_pair_eq: "decode_second_ext_pair (tri (d1 + d2) + d2) = (d1, d2)"
  using second_ext_loop_eq [of d2 "d1 + d2" 0] by (simp add: decode_second_ext_pair_def tri_def)

end
