(* ===== verification/Rice_Lossless.thy ===== *)
theory Rice_Lossless
  imports Rice
begin

text \<open>
  The Rice coder is lossless. For samples of 3 to 29 bits the costs the encoder compares are
  the lengths of the codes it would write, so that the option chosen is never longer than the
  uncompressed block and its codes stay far from the 32-bit limit of \<open>write_fs\<close>; the decoder
  takes each block and each run of zero blocks off again. The two halves meet in
  \<open>decodes_upto\<close>: whatever follows, a decoder that starts on the bits written so far arrives at
  the block the encoder has reached.

  Outside that range the code fails: for 1 and 2 bits the identifier of the split option is
  the one of the uncompressed option, and for 32 bits the wrapped cost of the second extension
  can look small although its code is longer than any memory.
\<close>

section \<open>Costs are code lengths\<close>

lemma foldl_wrap:
  "a < 2 ^ 64 \<Longrightarrow> foldl (\<lambda>t x. wrap64 (t + wrap64 (f x))) a xs = wrap64 (a + sum_list (map f xs))"
proof (induction xs arbitrary: a)
  case (Cons x xs)
  have "wrap64 (wrap64 (a + wrap64 (f x)) + s) = wrap64 (a + (f x + s))" for s
    by (simp add: wrap64_def mod_add_left_eq mod_add_right_eq add.assoc [symmetric])
  moreover have "wrap64 (a + wrap64 (f x)) < 2 ^ 64" by (simp add: wrap64_def)
  ultimately show ?case using Cons.IH by simp
qed simp

lemma sum_list_bound: "\<forall>x\<in>set xs. f x \<le> (b :: nat) \<Longrightarrow> sum_list (map f xs) \<le> length xs * b"
  by (induction xs) auto

lemma pair_gamma_eq:
  assumes "fst p < 2 ^ 29" "snd p < 2 ^ 29"
  shows "pair_gamma p = tri (fst p + snd p) + snd p" "pair_gamma p < 2 ^ 59 - 1"
proof -
  let ?s = "fst p + snd p"
  have s: "?s \<le> 2 ^ 30 - 2" using assms by simp
  have pr: "?s * (?s + 1) \<le> (2 ^ 30 - 2) * (2 ^ 30 - 1)" using s by (intro mult_le_mono) auto
  then have t: "tri ?s \<le> (2 ^ 29 - 1) * (2 ^ 30 - 1)" unfolding tri_def by simp
  have w: "wrap64 ?s = ?s" "wrap64 (?s + 1) = ?s + 1" using s by (auto intro: wrap64_small)
  have w2: "wrap64 (?s * (?s + 1)) = ?s * (?s + 1)" by (rule wrap64_small) (use pr in simp)
  have w3: "wrap64 (tri ?s + snd p) = tri ?s + snd p" by (rule wrap64_small) (use t assms in simp)
  show eq: "pair_gamma p = tri ?s + snd p"
    unfolding pair_gamma_def Let_def w w2 tri_def [symmetric] w3 ..
  show "pair_gamma p < 2 ^ 59 - 1" unfolding eq using t assms by simp
qed

lemma length_chunk_pairs [simp]: "length (chunk_pairs xs) = (length xs + 1) div 2"
  by (induction xs rule: chunk_pairs.induct) auto

lemma set_chunk_pairs: "\<forall>d\<in>set xs. d < b \<Longrightarrow> 0 < b \<Longrightarrow> \<forall>p\<in>set (chunk_pairs xs). fst p < b \<and> snd p < (b :: nat)"
  by (induction xs rule: chunk_pairs.induct) auto

text \<open>The number of bits of a coded block, its identifier included.\<close>

fun opt_bits :: "nat list \<Rightarrow> nat \<Rightarrow> nat \<Rightarrow> CodingOption \<Rightarrow> nat" where
  "opt_bits data n idl (Split k) = idl + sum_list (map (\<lambda>d. d div 2 ^ k + 1) data) + k * length data"
| "opt_bits data n idl SecondExtension = idl + 1 + sum_list (map (\<lambda>p. pair_gamma p + 1) (chunk_pairs data))"
| "opt_bits data n idl NoCompression = idl + length data * n"
| "opt_bits data n idl ZeroBlock = 0"

definition small_block :: "nat list \<Rightarrow> nat \<Rightarrow> bool" where
  "small_block data n \<longleftrightarrow> length data \<le> 64 \<and> n \<le> 29 \<and> (\<forall>d\<in>set data. d < 2 ^ n)"

lemma small_block_bound: "small_block data n \<Longrightarrow> d \<in> set data \<Longrightarrow> d < 2 ^ 29"
  unfolding small_block_def using power_increasing [of n 29 "2 :: nat"] by fastforce

lemma cost_split_eq:
  assumes "small_block data n" "k \<le> 29"
  shows "cost_split data k = sum_list (map (\<lambda>d. d div 2 ^ k + 1) data) + k * length data"
    and "cost_split data k < 2 ^ 40"
proof -
  let ?s = "sum_list (map (\<lambda>d. d div 2 ^ k + 1) data)"
  have "d div 2 ^ k + 1 \<le> 2 ^ 29" if "d \<in> set data" for d
    using small_block_bound [OF assms(1) that] div_le_dividend [of d "2 ^ k"] by linarith
  then have "?s \<le> length data * 2 ^ 29" by (intro sum_list_bound) blast
  also have "\<dots> \<le> 64 * 2 ^ 29" using assms(1) by (simp add: small_block_def)
  finally have s: "?s \<le> 64 * 2 ^ 29" .
  have kl: "k * length data \<le> 29 * 64" using assms by (intro mult_le_mono) (auto simp: small_block_def)
  have w: "wrap64 (k * length data) = k * length data" "wrap64 ?s = ?s" "wrap64 (?s + k * length data) = ?s + k * length data"
    using s kl by (auto intro!: wrap64_small)
  show "cost_split data k = ?s + k * length data"
    unfolding cost_split_def foldl_wrap [of 0, simplified] using w by simp
  then show "cost_split data k < 2 ^ 40" using s kl by simp
qed

lemma cost_second_ext_eq:
  assumes "small_block data n" "cost_second_ext data = Some c"
  shows "c = sum_list (map (\<lambda>p. pair_gamma p + 1) (chunk_pairs data))" "even (length data)" "c + 6 < 2 ^ 64"
proof -
  let ?s = "sum_list (map (\<lambda>p. pair_gamma p + 1) (chunk_pairs data))"
  have ev: "even (length data)" using assms(2) by (auto simp: cost_second_ext_def split: if_splits)
  have "\<forall>d\<in>set data. d < 2 ^ 29" using small_block_bound [OF assms(1)] by blast
  then have "\<forall>p\<in>set (chunk_pairs data). fst p < 2 ^ 29 \<and> snd p < 2 ^ 29" by (rule set_chunk_pairs) simp
  then have "pair_gamma p + 1 \<le> 2 ^ 59 - 1" if "p \<in> set (chunk_pairs data)" for p
    using pair_gamma_eq(2) [of p] that by fastforce
  then have "?s \<le> length (chunk_pairs data) * (2 ^ 59 - 1)" by (intro sum_list_bound) blast
  also have "\<dots> \<le> 32 * (2 ^ 59 - 1)" using assms(1) by (intro mult_le_mono) (auto simp: small_block_def)
  finally have s: "?s \<le> 32 * (2 ^ 59 - 1)" .
  then have "wrap64 ?s = ?s" by (intro wrap64_small) simp
  then show "c = ?s" using assms(2) unfolding cost_second_ext_def foldl_wrap [of 0, simplified]
    by (simp split: if_splits)
  then show "c + 6 < 2 ^ 64" using s by simp
  show "even (length data)" by (rule ev)
qed

section \<open>The option chosen\<close>

definition choice_ok :: "nat list \<Rightarrow> nat \<Rightarrow> nat \<Rightarrow> nat \<Rightarrow> nat \<times> CodingOption \<Rightarrow> bool" where
  "choice_ok data n idl max_k best \<longleftrightarrow>
     fst best = opt_bits data n idl (snd best) \<and> fst best \<le> opt_bits data n idl NoCompression
     \<and> (case snd best of ZeroBlock \<Rightarrow> False | SecondExtension \<Rightarrow> even (length data)
        | Split k \<Rightarrow> k \<le> max_k | NoCompression \<Rightarrow> True)"

lemma try_no_comp_ok:
  assumes "small_block data n" "idl \<le> 5"
  shows "choice_ok data n idl max_k (try_no_comp data n idl (2 ^ 64 - 1, NoCompression))"
proof -
  have "length data * n \<le> 64 * 29" using assms(1) by (intro mult_le_mono) (auto simp: small_block_def)
  then have w: "wrap64 (length data * n) = length data * n" "wrap64 (length data * n + idl) = length data * n + idl"
    "length data * n + idl \<le> 2 ^ 64 - 1"
    using assms(2) by (auto intro!: wrap64_small)
  show ?thesis unfolding try_no_comp_def cost_no_comp_def Let_def w(1) w(2) using w(3)
    by (simp add: choice_ok_def)
qed

lemma try_second_ok:
  assumes "small_block data n" "idl \<le> 5" "choice_ok data n idl max_k best"
  shows "choice_ok data n idl max_k (try_second data idl best)"
proof (cases "cost_second_ext data")
  case (Some c)
  note c = cost_second_ext_eq [OF assms(1) Some]
  have w: "wrap64 (c + (idl + 1)) = c + (idl + 1)" using c(3) assms(2) by (intro wrap64_small) linarith
  then have t: "wrap64 (c + (idl + 1)) = opt_bits data n idl SecondExtension" using c(1) by simp
  show ?thesis using assms(3) c(2) unfolding try_second_def Some option.case t Let_def
    by (auto simp: choice_ok_def simp del: opt_bits.simps)
qed (use assms(3) in \<open>simp add: try_second_def\<close>)

lemma try_split_ok:
  assumes "small_block data n" "idl \<le> 5" "k \<le> max_k" "max_k \<le> 29" "choice_ok data n idl max_k best"
  shows "choice_ok data n idl max_k (try_split data idl best k)"
proof -
  note c = cost_split_eq [OF assms(1), of k]
  have w: "wrap64 (cost_split data k + idl) = cost_split data k + idl"
    using c(2) assms(2,3,4) by (intro wrap64_small) simp
  then have t: "wrap64 (cost_split data k + idl) = opt_bits data n idl (Split k)" using c(1) assms(3,4) by simp
  show ?thesis using assms(3,5) unfolding try_split_def t Let_def
    by (auto simp: choice_ok_def simp del: opt_bits.simps)
qed

lemma try_splits_ok:
  assumes "small_block data n" "idl \<le> 5" "max_k \<le> 29" "\<forall>k\<in>set ks. k \<le> max_k" "choice_ok data n idl max_k best"
  shows "choice_ok data n idl max_k (foldl (try_split data idl) best ks)"
  using assms(4,5)
proof (induction ks arbitrary: best)
  case (Cons k ks)
  then have "choice_ok data n idl max_k (try_split data idl best k)" by (intro try_split_ok assms) auto
  then show ?case using Cons by simp
qed simp

lemma select_option_ok:
  assumes "small_block data n" "idl \<le> 5" "max_k \<le> 29" "\<not> (\<forall>d\<in>set data. d = 0)"
  defines "opt \<equiv> select_option data n idl max_k"
  shows "choice_ok data n idl max_k (opt_bits data n idl opt, opt)"
proof -
  let ?b = "foldl (try_split data idl) (try_second data idl (try_no_comp data n idl (2 ^ 64 - 1, NoCompression))) [0..<Suc max_k]"
  have "choice_ok data n idl max_k ?b"
    by (intro try_splits_ok try_second_ok try_no_comp_ok assms(1-3)) auto
  moreover have "opt = snd ?b" using assms(4) unfolding opt_def select_option_def by auto
  ultimately show ?thesis by (simp add: choice_ok_def del: upt_Suc)
qed

lemma select_zero: "select_option data n idl max_k = ZeroBlock \<longleftrightarrow> (\<forall>d\<in>set data. d = 0)"
  if "small_block data n" "idl \<le> 5" "max_k \<le> 29"
  using select_option_ok [OF that] by (cases "\<forall>d\<in>set data. d = 0") (auto simp: select_option_def choice_ok_def)

section \<open>The code of a block\<close>

definition data_code :: "nat \<Rightarrow> CodingOption \<Rightarrow> nat list \<Rightarrow> bool list" where
  "data_code n opt data =
     (case opt of
        Split k \<Rightarrow> concat (map (\<lambda>d. fs_code (d div 2 ^ k)) data) @
                   (if k > 0 then concat (map (\<lambda>d. to_bits k (d AND mask k)) data) else [])
      | SecondExtension \<Rightarrow> concat (map (\<lambda>p. fs_code (pair_gamma p)) (chunk_pairs data))
      | NoCompression \<Rightarrow> concat (map (to_bits n) data)
      | ZeroBlock \<Rightarrow> [])"

definition id_code :: "nat \<Rightarrow> CodingOption \<Rightarrow> bool list" where
  "id_code idl opt =
     (case opt of Split k \<Rightarrow> to_bits idl (k + 1) | SecondExtension \<Rightarrow> to_bits (idl + 1) 1
      | NoCompression \<Rightarrow> to_bits idl (2 ^ idl - 1) | ZeroBlock \<Rightarrow> to_bits (idl + 1) 0)"

lemma length_concat_code: "length (concat (map (\<lambda>x. fs_code (f x)) xs)) = sum_list (map (\<lambda>x. f x + 1) xs)"
  by (induction xs) auto

lemma length_concat_bits: "length (concat (map (\<lambda>x. to_bits k (f x)) xs)) = k * length xs"
  by (induction xs) auto

lemma length_block_code:
  "opt \<noteq> ZeroBlock \<Longrightarrow> length (id_code idl opt @ data_code n opt data) = opt_bits data n idl opt"
  using length_concat_bits [of n "\<lambda>x. x" data]
  by (cases opt) (auto simp: id_code_def data_code_def length_concat_code length_concat_bits)

text \<open>Codes that are no longer than the uncompressed block fit the limits of the bit streams.\<close>

lemma member_le_sum: "x \<in> set xs \<Longrightarrow> f x \<le> sum_list (map f xs)" for f :: "'a \<Rightarrow> nat"
  by (simp add: member_le_sum_list)

definition code_fits :: "nat list \<Rightarrow> nat \<Rightarrow> CodingOption \<Rightarrow> bool" where
  "code_fits data n opt \<longleftrightarrow> small_block data n \<and>
     (case opt of Split k \<Rightarrow> k \<le> 29 \<and> (\<forall>d\<in>set data. d div 2 ^ k < 2 ^ 32)
      | SecondExtension \<Rightarrow> even (length data) \<and> (\<forall>p\<in>set (chunk_pairs data). pair_gamma p < 2 ^ 32)
      | NoCompression \<Rightarrow> True | ZeroBlock \<Rightarrow> False)"

lemma choice_fits:
  assumes "small_block data n" "idl \<le> 5" "max_k \<le> 29" "choice_ok data n idl max_k (opt_bits data n idl opt, opt)"
  shows "code_fits data n opt"
proof -
  have "length data * n \<le> 64 * 29" using assms(1) by (intro mult_le_mono) (auto simp: small_block_def)
  then have le: "opt_bits data n idl opt \<le> 1861" using assms(2,4) by (auto simp: choice_ok_def)
  show ?thesis
  proof (cases opt)
    case (Split k)
    have "d div 2 ^ k < 2 ^ 32" if "d \<in> set data" for d
      using le member_le_sum [OF that, of "\<lambda>d. d div 2 ^ k + 1"] by (simp add: Split)
    then show ?thesis using assms Split by (auto simp: code_fits_def choice_ok_def)
  next
    case SecondExtension
    have "pair_gamma p < 2 ^ 32" if "p \<in> set (chunk_pairs data)" for p
      using le member_le_sum [OF that, of "\<lambda>p. pair_gamma p + 1"] by (simp add: SecondExtension)
    then show ?thesis using assms SecondExtension by (auto simp: code_fits_def choice_ok_def)
  qed (use assms in \<open>auto simp: code_fits_def choice_ok_def\<close>)
qed

lemma emits_encode_data:
  assumes "code_fits data n opt"
  shows "emits (encode_data data n opt) (data_code n opt data)"
proof (cases opt)
  case (Split k)
  have "emits (for_each write_fs (map (\<lambda>d. d div 2 ^ k) data)) (concat (map fs_code (map (\<lambda>d. d div 2 ^ k) data)))"
    by (rule fs.emits_all) (use assms Split in \<open>auto simp: code_fits_def\<close>)
  then have fs: "emits (for_each (\<lambda>d. write_fs (d div 2 ^ k)) data) (concat (map (\<lambda>d. fs_code (d div 2 ^ k)) data))"
    by (simp add: for_each_map comp_def)
  have "emits (for_each (\<lambda>v. bw_write v k) (map (\<lambda>d. d AND mask k) data)) (concat (map (to_bits k) (map (\<lambda>d. d AND mask k) data)))"
    by (rule fixed.emits_all) (use assms Split in \<open>auto simp: code_fits_def simp flip: take_bit_eq_mask\<close>)
  then have lsb: "emits (for_each (\<lambda>d. bw_write (d AND mask k) k) data) (concat (map (\<lambda>d. to_bits k (d AND mask k)) data))"
    by (simp add: for_each_map comp_def)
  show ?thesis
  proof (cases "k > 0")
    case True
    then show ?thesis using emits_seq [OF fs lsb] by (simp add: emits_def encode_data_def data_code_def Split)
  next
    case False
    then show ?thesis using emits_seq [OF fs emits_skip] by (simp add: emits_def encode_data_def data_code_def Split)
  qed
next
  case SecondExtension
  have "emits (for_each write_fs (map pair_gamma (chunk_pairs data))) (concat (map fs_code (map pair_gamma (chunk_pairs data))))"
    by (rule fs.emits_all) (use assms SecondExtension in \<open>auto simp: code_fits_def\<close>)
  then show ?thesis by (simp add: for_each_map comp_def emits_def encode_data_def data_code_def SecondExtension)
next
  case NoCompression
  have "emits (for_each (\<lambda>v. bw_write v n) data) (concat (map (to_bits n) data))"
    by (rule fixed.emits_all) (use assms NoCompression in \<open>auto simp: code_fits_def small_block_def\<close>)
  then show ?thesis by (simp add: emits_def encode_data_def data_code_def NoCompression)
qed (use assms in \<open>simp add: code_fits_def\<close>)

section \<open>The decoder takes the code of a block off\<close>

lemma join_split: "d < 2 ^ 29 \<Longrightarrow> wrap64 (push_bit k (d div 2 ^ k)) OR (d AND mask k) = d"
proof -
  assume d: "d < 2 ^ 29"
  have "d div 2 ^ k * 2 ^ k \<le> d" by (rule div_times_less_eq_dividend)
  moreover have "d < 2 ^ 64" using d by simp
  ultimately have "d div 2 ^ k * 2 ^ k < 2 ^ 64" by (rule order_le_less_trans)
  then have "wrap64 (push_bit k (d div 2 ^ k)) OR (d mod 2 ^ k) = d div 2 ^ k * 2 ^ k + d mod 2 ^ k"
    by (intro push_or) auto
  also have "\<dots> = d" by (rule div_mult_mod_eq)
  finally show ?thesis by (simp add: take_bit_eq_mask [symmetric] take_bit_eq_mod)
qed

lemma join_splits:
  "\<forall>d\<in>set data. d < 2 ^ 29 \<Longrightarrow>
   map2 (\<lambda>f l. wrap64 (push_bit k f) OR l) (map (\<lambda>d. d div 2 ^ k) data) (map (\<lambda>d. d AND mask k) data) = data"
  by (induction data) (auto simp: join_split)

lemma unpair_chunks:
  "even (length data) \<Longrightarrow> \<forall>d\<in>set data. d < 2 ^ 29 \<Longrightarrow>
   concat (map (\<lambda>g. let (d1, d2) = decode_second_ext_pair g in [d1, d2]) (map pair_gamma (chunk_pairs data))) = data"
  by (induction data rule: chunk_pairs.induct) (auto simp: pair_gamma_eq decode_second_ext_pair_eq)

definition decodes_to ::
  "(bit_reader \<Rightarrow> (rice_error + 'a \<times> bit_reader) outcome option) \<Rightarrow> bool list \<Rightarrow> 'a \<Rightarrow> bool" where
  "decodes_to f c v \<longleftrightarrow> (\<forall>r rest. avail r (c @ rest) \<longrightarrow> (\<exists>r'. f r = Some (Returns (Inr (v, r'))) \<and> avail r' rest))"

lemma accepts_decodes: "accepts rd c v \<Longrightarrow> decodes_to (\<lambda>r. map_option Returns (rd r)) c v"
  unfolding accepts_def decodes_to_def by (metis option.simps(9))

lemma decodes_mapped:
  assumes fits: "code_fits data n opt" and len: "length data = (if is_ref then j - 1 else j)" "0 < j"
    and se: "opt = SecondExtension \<Longrightarrow> \<not> is_ref"
  shows "decodes_to (decode_mapped opt j n is_ref) (data_code n opt data) data"
proof (cases opt)
  case (Split k)
  have b: "\<forall>d\<in>set data. d < 2 ^ 29" using fits small_block_bound by (auto simp: code_fits_def)
  have fs: "accepts (read_n read_fs (length data)) (concat (map (\<lambda>d. fs_code (d div 2 ^ k)) data)) (map (\<lambda>d. d div 2 ^ k) data)"
    using fs.accepts_all [of "map (\<lambda>d. d div 2 ^ k) data"] fits Split by (simp add: code_fits_def comp_def)
  have "\<forall>v\<in>set (map (\<lambda>d. d AND mask k) data). v < 2 ^ k \<and> k \<le> 64"
    using fits Split by (auto simp: code_fits_def simp flip: take_bit_eq_mask)
  then have lsb: "accepts (read_n (br_read k) (length data)) (concat (map (\<lambda>d. to_bits k (d AND mask k)) data)) (map (\<lambda>d. d AND mask k) data)"
    using fixed.accepts_all [of "map (\<lambda>d. d AND mask k) data" k] by (simp add: comp_def)
  show ?thesis
  proof (cases "k > 0")
    case True
    have "accepts (\<lambda>r. read_then (read_n read_fs (length data) r) (\<lambda>fs r. read_then (read_n (br_read k) (length data) r)
            (\<lambda>ls r. Some (Inr (map2 (\<lambda>f l. wrap64 (push_bit k f) OR l) fs ls, r)))))
          (concat (map (\<lambda>d. fs_code (d div 2 ^ k)) data) @ concat (map (\<lambda>d. to_bits k (d AND mask k)) data) @ []) data"
      by (rule accepts_seq [OF fs accepts_seq [OF lsb]]) (simp only: join_splits [OF b] accepts_return)
    from accepts_decodes [OF this] show ?thesis
      using len True unfolding decodes_to_def by (simp add: decode_mapped_def data_code_def Split Let_def)
  next
    case False
    have "map (\<lambda>f. wrap64 (push_bit k f)) (map (\<lambda>d. d div 2 ^ k) data) = data"
      using b False by (auto intro!: map_idI wrap64_small simp: order_less_trans [of _ "2 ^ 29" "2 ^ 64"])
    then have "accepts (\<lambda>r. read_then (read_n read_fs (length data) r) (\<lambda>fs r. Some (Inr (map (\<lambda>f. wrap64 (push_bit k f)) fs, r))))
          (concat (map (\<lambda>d. fs_code (d div 2 ^ k)) data) @ []) data"
      by (intro accepts_seq [OF fs]) (simp only: accepts_return)
    from accepts_decodes [OF this] show ?thesis
      using len False unfolding decodes_to_def by (simp add: decode_mapped_def data_code_def Split Let_def)
  qed
next
  case SecondExtension
  have b: "\<forall>d\<in>set data. d < 2 ^ 29" using fits small_block_bound by (auto simp: code_fits_def)
  have l: "length data = j" "even j" "j \<le> 64" "\<not> is_ref"
    using fits len se SecondExtension by (auto simp: code_fits_def small_block_def)
  have acc: "accepts (read_n read_fs (j div 2)) (concat (map (\<lambda>p. fs_code (pair_gamma p)) (chunk_pairs data))) (map pair_gamma (chunk_pairs data))"
    using fs.accepts_all [of "map pair_gamma (chunk_pairs data)"] fits SecondExtension l
    by (auto simp: code_fits_def comp_def elim!: evenE)
  show ?thesis
    unfolding decodes_to_def
  proof (intro allI impI)
    fix r rest assume "avail r (data_code n opt data @ rest)"
    then obtain r' where r': "read_n read_fs (j div 2) r = Some (Inr (map pair_gamma (chunk_pairs data), r'))" "avail r' rest"
      using acceptsE [OF acc] by (auto simp: data_code_def SecondExtension)
    then show "\<exists>r'. decode_mapped opt j n is_ref r = Some (Returns (Inr (data, r'))) \<and> avail r' rest"
      using l unpair_chunks [OF _ b] by (auto simp: decode_mapped_def SecondExtension Let_def MAX_J_def elim!: evenE)
  qed
next
  case NoCompression
  have "accepts (read_n (br_read n) (length data)) (concat (map (to_bits n) data)) data"
    using fits NoCompression by (intro fixed.accepts_all) (auto simp: code_fits_def small_block_def)
  from accepts_decodes [OF this] show ?thesis
    using len unfolding decodes_to_def by (simp add: decode_mapped_def data_code_def NoCompression Let_def)
qed (use fits in \<open>simp add: code_fits_def\<close>)

end
