(* ===== verification/Rice_Roundtrip.thy ===== *)
theory Rice_Roundtrip
  imports Rice_Lossless
begin

text \<open>
  Composition of the Rice encoder and decoder over a whole input. \<open>dec_ok b\<close> is the state of a
  decoder that has restored the first \<open>b\<close> blocks, \<open>takes p c q\<close> says that a decoder at block
  \<open>p\<close> takes the code \<open>c\<close> off and arrives at block \<open>q\<close>, and \<open>enc_ok b\<close> is the invariant of the
  encoder's loop: what it has written so far takes a decoder from the start to the block
  before the pending run of zero blocks.
\<close>

section \<open>The blocks of an input\<close>

definition rice_input :: "Config \<Rightarrow> nat list \<Rightarrow> bool" where
  "rice_input cfg samples \<longleftrightarrow> config_validate cfg \<and> 3 \<le> bits_per_sample cfg \<and> bits_per_sample cfg \<le> 29
     \<and> length samples mod block_size cfg = 0 \<and> length samples div block_size cfg \<le> 2 ^ 32
     \<and> (\<forall>x\<in>set samples. x < 2 ^ bits_per_sample cfg)"

definition num_blocks :: "Config \<Rightarrow> nat list \<Rightarrow> nat" where
  "num_blocks cfg samples = length samples div block_size cfg"

definition blk_at :: "Config \<Rightarrow> nat list \<Rightarrow> nat \<Rightarrow> nat list" where
  "blk_at cfg samples b = bslice samples (b * block_size cfg) (block_size cfg)"

definition prev_at :: "Config \<Rightarrow> nat list \<Rightarrow> nat \<Rightarrow> nat" where
  "prev_at cfg samples b = (if b = 0 then 0 else samples ! (b * block_size cfg - 1))"

definition data_at :: "Config \<Rightarrow> nat list \<Rightarrow> nat \<Rightarrow> nat list" where
  "data_at cfg samples b = block_data cfg (blk_at cfg samples b) (is_ref_block cfg b) (prev_at cfg samples b)"

primrec seg_at :: "Config \<Rightarrow> nat \<Rightarrow> nat" where
  "seg_at cfg 0 = seg_size cfg 0"
| "seg_at cfg (Suc b) = (if seg_at cfg b - 1 = 0 then seg_size cfg (Suc b) else seg_at cfg b - 1)"

lemma seg_size_bounds: "1 \<le> seg_size cfg b" "seg_size cfg b \<le> 64"
  by (auto simp: seg_size_def Suc_leI)

lemma seg_at_bounds: "1 \<le> seg_at cfg b" "seg_at cfg b \<le> 64"
  by (induction b) (use seg_size_bounds in \<open>auto simp: Suc_leI\<close>)

text \<open>A segment ends at the next reference block at the latest.\<close>

lemma seg_at_interval:
  "0 < ref_interval cfg \<Longrightarrow> b < 2 ^ 32 \<Longrightarrow> b mod ref_interval cfg + seg_at cfg b \<le> ref_interval cfg"
proof (induction b)
  case 0
  then show ?case by (simp add: seg_size_def)
next
  case (Suc b)
  show ?case
  proof (cases "seg_at cfg b - 1 = 0")
    case True
    have "Suc b mod ref_interval cfg < ref_interval cfg" using Suc.prems by simp
    moreover have "m < r \<Longrightarrow> m + min (r - m) 64 \<le> r" for m r :: nat by simp
    moreover have "Suc b mod 2 ^ 32 = Suc b" using Suc.prems by (intro mod_less)
    ultimately show ?thesis using True Suc.prems(1) by (simp only: seg_at.simps seg_size_def) simp
  next
    case False
    then have "b mod ref_interval cfg + 1 < ref_interval cfg" using Suc by auto
    then have "Suc b mod ref_interval cfg = b mod ref_interval cfg + 1" by (simp add: mod_Suc)
    then show ?thesis using False Suc by auto
  qed
qed

lemma no_ref_in_segment:
  assumes "0 < i" "i < seg_at cfg b" "b < 2 ^ 32"
  shows "\<not> is_ref_block cfg (b + i)"
proof
  assume r: "is_ref_block cfg (b + i)"
  then have m: "0 < ref_interval cfg" "(b + i) mod ref_interval cfg = 0" by (auto simp: is_ref_block_def)
  have "b mod ref_interval cfg + i < ref_interval cfg" using seg_at_interval [OF m(1) assms(3)] assms(2) by linarith
  then have "(b + i) mod ref_interval cfg = b mod ref_interval cfg + i"
    by (metis mod_add_left_eq mod_less)
  then show False using m(2) assms(1) by simp
qed

text \<open>Facts about a valid input: its configuration, its blocks and their data.\<close>

lemma rice_config:
  assumes "rice_input cfg samples"
  shows "block_size cfg \<in> {8, 16, 32, 64}" "8 \<le> block_size cfg" "block_size cfg \<le> 64"
    "2 \<le> id_len cfg" "id_len cfg \<le> 5" "max_split cfg \<le> 29" "max_split cfg + 2 < 2 ^ id_len cfg"
    "x_max cfg < 2 ^ 32" "length samples = num_blocks cfg samples * block_size cfg"
    "num_blocks cfg samples \<le> 2 ^ 32" "bits_per_sample cfg \<le> 29" "3 \<le> bits_per_sample cfg"
proof -
  note a = assms [unfolded rice_input_def config_validate_def]
  show "block_size cfg \<in> {8, 16, 32, 64}" "bits_per_sample cfg \<le> 29" "3 \<le> bits_per_sample cfg" using a by simp_all
  then show "8 \<le> block_size cfg" "block_size cfg \<le> 64" by auto
  show id: "2 \<le> id_len cfg" "id_len cfg \<le> 5" using a by (auto simp: id_len_def Let_def)
  then have "id_len cfg \<in> {2, 3, 4, 5}" by auto
  then show "max_split cfg \<le> 29" "max_split cfg + 2 < 2 ^ id_len cfg" by (auto simp: max_split_def)
  have "2 ^ bits_per_sample cfg \<le> (2 :: nat) ^ 29" using a by (intro power_increasing) auto
  then show "x_max cfg < 2 ^ 32" by (simp add: x_max_def)
  show "length samples = num_blocks cfg samples * block_size cfg" using a by (auto simp: num_blocks_def)
  show "num_blocks cfg samples \<le> 2 ^ 32" using a by (simp add: num_blocks_def)
qed

lemma sample_le: "rice_input cfg samples \<Longrightarrow> x \<in> set samples \<Longrightarrow> x \<le> x_max cfg"
  by (auto simp: rice_input_def x_max_def)

lemma block_range:
  assumes "rice_input cfg samples" "b < num_blocks cfg samples"
  shows "b * block_size cfg + block_size cfg \<le> length samples"
proof -
  have "Suc b * block_size cfg \<le> num_blocks cfg samples * block_size cfg" using assms(2) by (intro mult_le_mono1) simp
  then show ?thesis using rice_config(9) [OF assms(1)] by simp
qed

lemma length_blk_at:
  "rice_input cfg samples \<Longrightarrow> b < num_blocks cfg samples \<Longrightarrow> length (blk_at cfg samples b) = block_size cfg"
  using block_range [of cfg samples b] by (simp add: blk_at_def)

lemma blk_at_le: "rice_input cfg samples \<Longrightarrow> x \<in> set (blk_at cfg samples b) \<Longrightarrow> x \<le> x_max cfg"
  using sample_le in_set_dropD in_set_takeD by (fastforce simp: blk_at_def bslice_def)

lemma prev_at_le:
  assumes "rice_input cfg samples" "b < num_blocks cfg samples"
  shows "prev_at cfg samples b \<le> x_max cfg"
proof (cases "b = 0")
  case False
  then have "b * block_size cfg - 1 < length samples"
    using block_range [OF assms] rice_config(2) [OF assms(1)] by linarith
  then show ?thesis using False sample_le [OF assms(1)] by (simp add: prev_at_def)
qed (simp add: prev_at_def)

lemma blk_hd_le: "rice_input cfg samples \<Longrightarrow> b < num_blocks cfg samples \<Longrightarrow> blk_at cfg samples b ! 0 \<le> x_max cfg"
  using length_blk_at [of cfg samples b] rice_config(2) [of cfg samples] by (intro blk_at_le [of _ _ _ b]) auto

lemma data_at_facts:
  assumes "rice_input cfg samples" "b < num_blocks cfg samples"
  shows "length (data_at cfg samples b) = (if is_ref_block cfg b then block_size cfg - 1 else block_size cfg)"
    and "small_block (data_at cfg samples b) (bits_per_sample cfg)"
proof -
  let ?B = "blk_at cfg samples b"
  show len: "length (data_at cfg samples b) = (if is_ref_block cfg b then block_size cfg - 1 else block_size cfg)"
    using length_blk_at [OF assms] by (simp add: data_at_def block_data_def preprocess_block_def is_ref_block_def)
  have B: "\<forall>x\<in>set ?B. x \<le> x_max cfg" "\<forall>x\<in>set (drop 1 ?B). x \<le> x_max cfg"
    using blk_at_le [OF assms(1)] in_set_dropD by fast+
  have "\<forall>d\<in>set (data_at cfg samples b). d \<le> x_max cfg"
    unfolding data_at_def block_data_def preprocess_block_def
    using B map_samples_le [OF B(2) blk_hd_le [OF assms] rice_config(8) [OF assms(1)]]
      map_samples_le [OF B(1) prev_at_le [OF assms] rice_config(8) [OF assms(1)]] by auto
  moreover have "x_max cfg < 2 ^ bits_per_sample cfg" by (simp add: x_max_def)
  ultimately have "\<forall>d\<in>set (data_at cfg samples b). d < 2 ^ bits_per_sample cfg" by (meson order_le_less_trans)
  then show "small_block (data_at cfg samples b) (bits_per_sample cfg)"
    using len rice_config(3,11) [OF assms(1)] by (auto simp: small_block_def)
qed

text \<open>The decoder's reconstruction of a block from its data.\<close>

definition rebuild :: "Config \<Rightarrow> bool \<Rightarrow> nat \<Rightarrow> nat \<Rightarrow> nat list \<Rightarrow> nat list" where
  "rebuild cfg is_ref ref_val prev mapped =
     (if is_ref then [ref_val] else []) @
     (if preprocessor cfg then unmap_samples (x_max cfg) (if is_ref then ref_val else prev) mapped
      else map (\<lambda>d. d mod 2 ^ 32) mapped)"

lemma rebuild_block:
  assumes "rice_input cfg samples" "b < num_blocks cfg samples"
  shows "rebuild cfg (is_ref_block cfg b) (blk_at cfg samples b ! 0) (prev_at cfg samples b) (data_at cfg samples b)
         = blk_at cfg samples b"
proof -
  let ?B = "blk_at cfg samples b"
  note xm = rice_config(8) [OF assms(1)]
  have B: "\<forall>x\<in>set ?B. x \<le> x_max cfg" "\<forall>x\<in>set (drop 1 ?B). x \<le> x_max cfg"
    using blk_at_le [OF assms(1)] in_set_dropD by fast+
  have "?B \<noteq> []" using length_blk_at [OF assms] rice_config(2) [OF assms(1)] by auto
  then have hd: "?B ! 0 # drop 1 ?B = ?B" by (cases ?B) auto
  have "map (\<lambda>d. d mod 2 ^ 32) ?B = ?B" using B(1) xm by (intro map_idI) (auto dest!: bspec)
  then show ?thesis
    using hd unmap_map_samples [OF B(2) blk_hd_le [OF assms] xm] unmap_map_samples [OF B(1) prev_at_le [OF assms] xm]
    by (auto simp: rebuild_def data_at_def block_data_def preprocess_block_def is_ref_block_def)
qed

section \<open>The decoder\<close>

definition dec_ok :: "Config \<Rightarrow> nat list \<Rightarrow> nat \<Rightarrow> dec_state \<Rightarrow> bool list \<Rightarrow> bool" where
  "dec_ok cfg samples b s bs \<longleftrightarrow>
     out_pos s = b * block_size cfg \<and> blk_idx s = b \<and> length (ds_out s) = length samples
     \<and> take (b * block_size cfg) (ds_out s) = take (b * block_size cfg) samples
     \<and> ds_prev s = prev_at cfg samples b \<and> ds_seg s = seg_at cfg b \<and> avail (ds_r s) bs"

definition takes :: "Config \<Rightarrow> nat list \<Rightarrow> nat \<Rightarrow> bool list \<Rightarrow> nat \<Rightarrow> bool" where
  "takes cfg samples p c q \<longleftrightarrow> (\<forall>s rest. dec_ok cfg samples p s (c @ rest) \<longrightarrow>
     (\<exists>s'. decompress_loop cfg s = decompress_loop cfg s' \<and> dec_ok cfg samples q s' rest))"

lemma takes_refl: "takes cfg samples p [] p"
  unfolding takes_def by auto

lemma takes_trans: "takes cfg samples p c q \<Longrightarrow> takes cfg samples q d u \<Longrightarrow> takes cfg samples p (c @ d) u"
  unfolding takes_def by (metis append_assoc)

lemma blit_take:
  assumes "take off buf = take off xs" "length buf = length xs" "off + n \<le> length xs"
  shows "take (off + n) (blit buf off (bslice xs off n)) = take (off + n) xs"
    "length (blit buf off (bslice xs off n)) = length xs"
proof -
  have l: "length (bslice xs off n) = n" using assms(3) by simp
  show "take (off + n) (blit buf off (bslice xs off n)) = take (off + n) xs"
    using assms l by (simp add: blit_def bslice_def take_add)
  show "length (blit buf off (bslice xs off n)) = length xs" using assms l by simp
qed

text \<open>A decoder that stores the right block moves on to the next one.\<close>

definition store_block :: "Config \<Rightarrow> nat list \<Rightarrow> dec_state \<Rightarrow> dec_state" where
  "store_block cfg block s =
     (let output = blit (ds_out s) (out_pos s) block in
      next_block cfg (s\<lparr>ds_out := output, ds_prev := output ! (out_pos s + block_size cfg - 1),
                        out_pos := out_pos s + block_size cfg\<rparr>))"

lemma store_block_ok:
  assumes input: "rice_input cfg samples" and b: "b < num_blocks cfg samples" and s: "dec_ok cfg samples b s bs"
  shows "dec_ok cfg samples (Suc b) (store_block cfg (blk_at cfg samples b) s) bs"
proof -
  let ?j = "block_size cfg" let ?off = "b * block_size cfg"
  let ?out = "blit (ds_out s) ?off (bslice samples ?off ?j)"
  have t: "take ?off (ds_out s) = take ?off samples" "length (ds_out s) = length samples"
    using s by (auto simp: dec_ok_def)
  note B = blit_take [OF t block_range [OF input b]]
  have "?off + ?j - 1 < ?off + ?j" using rice_config(2) [OF input] by simp
  then have "?out ! (?off + ?j - 1) = samples ! (?off + ?j - 1)"
    using B(1) by (metis nth_take)
  then show ?thesis
    using s B by (auto simp: dec_ok_def store_block_def next_block_def blk_at_def prev_at_def Let_def add.commute)
qed

lemma loop_step:
  assumes "rice_input cfg samples" "b < num_blocks cfg samples" "dec_ok cfg samples b s bs"
    "decompress_step cfg s = Some (Returns (Inr s'))"
  shows "decompress_loop cfg s = decompress_loop cfg s'"
  using assms block_range [of cfg samples b] by (subst decompress_loop.simps) (simp add: dec_ok_def)

text \<open>The reference sample in front of a block or a run.\<close>

definition ref_code :: "Config \<Rightarrow> nat list \<Rightarrow> nat \<Rightarrow> bool list" where
  "ref_code cfg samples b = (if is_ref_block cfg b then to_bits (bits_per_sample cfg) (blk_at cfg samples b ! 0) else [])"

lemma read_ref:
  assumes "rice_input cfg samples" "b < num_blocks cfg samples" "avail r (ref_code cfg samples b @ rest)"
  obtains v r' where "(if is_ref_block cfg b then br_read (bits_per_sample cfg) r else Some (Inr (0, r))) = Some (Inr (v, r'))"
    "avail r' rest" "is_ref_block cfg b \<Longrightarrow> v mod 2 ^ 32 = blk_at cfg samples b ! 0"
proof (cases "is_ref_block cfg b")
  case True
  let ?v = "blk_at cfg samples b ! 0"
  have v: "?v \<le> x_max cfg" by (rule blk_hd_le [OF assms(1,2)])
  have "x_max cfg < 2 ^ bits_per_sample cfg" by (simp add: x_max_def)
  then have b: "?v < 2 ^ bits_per_sample cfg" "?v < 2 ^ 32"
    using v rice_config(8) [OF assms(1)] by (simp_all only: order_le_less_trans [OF v])
  have "bits_per_sample cfg \<le> 64" using rice_config(11) [OF assms(1)] by simp
  from acceptsE [OF accepts_read [OF b(1) this], of r rest] obtain r' where
    "br_read (bits_per_sample cfg) r = Some (Inr (?v, r'))" "avail r' rest"
    using assms(3) True by (auto simp: ref_code_def)
  then show thesis using True b(2) by (intro that [of ?v r']) auto
next
  case False
  then show thesis using assms(3) by (intro that [of 0 r]) (auto simp: ref_code_def)
qed

lemma decode_single:
  assumes "rice_input cfg samples" "b < num_blocks cfg samples"
    and "dec_ok cfg samples b s (ref_code cfg samples b @ data_code (bits_per_sample cfg) opt (data_at cfg samples b) @ rest)"
    and "code_fits (data_at cfg samples b) (bits_per_sample cfg) opt"
  shows "\<exists>s'. single_and_next cfg (is_ref_block cfg b) opt s = Some (Returns (Inr s')) \<and> dec_ok cfg samples (Suc b) s' rest"
proof -
  let ?n = "bits_per_sample cfg" let ?D = "data_at cfg samples b" let ?R = "is_ref_block cfg b"
  have len: "length ?D = (if ?R then block_size cfg - 1 else block_size cfg)" by (rule data_at_facts [OF assms(1,2)])
  have se: "\<not> ?R" if "opt = SecondExtension"
    using assms(4) that len rice_config(1) [OF assms(1)] by (auto simp: code_fits_def)
  obtain v r where v: "(if ?R then br_read ?n (ds_r s) else Some (Inr (0, ds_r s))) = Some (Inr (v, r))"
    "avail r (data_code ?n opt ?D @ rest)" "?R \<Longrightarrow> v mod 2 ^ 32 = blk_at cfg samples b ! 0"
    using read_ref [OF assms(1,2), of "ds_r s"] assms(3) unfolding dec_ok_def by metis
  have "0 < block_size cfg" using rice_config(2) [OF assms(1)] by simp
  from decodes_mapped [OF assms(4) len this se] v(2)
  obtain r' where r': "decode_mapped opt (block_size cfg) ?n ?R r = Some (Returns (Inr (?D, r')))" "avail r' rest"
    unfolding decodes_to_def by blast
  have prev: "ds_prev s = prev_at cfg samples b" using assms(3) by (simp add: dec_ok_def)
  have "rebuild cfg ?R (v mod 2 ^ 32) (ds_prev s) ?D = rebuild cfg ?R (blk_at cfg samples b ! 0) (prev_at cfg samples b) ?D"
    using v(3) prev by (auto simp: rebuild_def)
  then have blk: "rebuild cfg ?R (v mod 2 ^ 32) (ds_prev s) ?D = blk_at cfg samples b"
    using rebuild_block [OF assms(1,2)] by simp
  have "single_and_next cfg ?R opt s = Some (Returns (Inr (store_block cfg (blk_at cfg samples b) (s\<lparr>ds_r := r'\<rparr>))))"
    unfolding single_and_next_def decode_single_block_def Let_def v(1)
    by (simp add: and_then_def r' blk [unfolded rebuild_def, simplified] store_block_def Let_def)
  moreover have "dec_ok cfg samples b (s\<lparr>ds_r := r'\<rparr>) rest" using assms(3) r'(2) by (simp add: dec_ok_def)
  ultimately show ?thesis using store_block_ok [OF assms(1,2)] by blast
qed

text \<open>The identifier in front of a block selects the branch of the decoder.\<close>

lemma read_id:
  assumes "avail r (to_bits n v @ rest)" "v < 2 ^ n" "n \<le> 64"
  obtains r' where "br_read n r = Some (Inr (v, r'))" "avail r' rest"
  using acceptsE [OF accepts_read [OF assms(2,3)] assms(1)] by blast

lemma to_bits_zero_one:
  "to_bits (n + 1) 0 = to_bits n 0 @ to_bits 1 0" "to_bits (n + 1) 1 = to_bits n 0 @ to_bits 1 1"
  using to_bits_split [of n "n + 1" 0] to_bits_split [of n "n + 1" 1] by simp_all

lemma takes_block:
  assumes input: "rice_input cfg samples" and b: "b < num_blocks cfg samples"
    and opt: "code_fits (data_at cfg samples b) (bits_per_sample cfg) opt" "\<And>k. opt = Split k \<Longrightarrow> k \<le> max_split cfg"
  shows "takes cfg samples b (id_code (id_len cfg) opt @ ref_code cfg samples b @
            data_code (bits_per_sample cfg) opt (data_at cfg samples b)) (Suc b)"
  unfolding takes_def
proof (intro allI impI)
  fix s rest
  let ?idl = "id_len cfg" let ?R = "is_ref_block cfg b"
  let ?tail = "ref_code cfg samples b @ data_code (bits_per_sample cfg) opt (data_at cfg samples b) @ rest"
  assume "dec_ok cfg samples b s ((id_code ?idl opt @ ref_code cfg samples b @
            data_code (bits_per_sample cfg) opt (data_at cfg samples b)) @ rest)"
  then have s: "dec_ok cfg samples b s (id_code ?idl opt @ ?tail)" by simp
  then have av: "avail (ds_r s) (id_code ?idl opt @ ?tail)" and blk: "blk_idx s = b" by (simp_all add: dec_ok_def)
  note id = rice_config(4-7) [OF input]
  have pw: "4 \<le> (2 :: nat) ^ ?idl" using power_increasing [of 2 ?idl "2 :: nat"] id(1) by simp
  have step: "\<exists>r. decompress_step cfg s = single_and_next cfg ?R opt (s\<lparr>ds_r := r\<rparr>) \<and> avail r ?tail"
  proof (cases opt)
    case (Split k)
    have k: "k + 1 < 2 ^ ?idl - 1" using opt(2) [OF Split] id(4) by simp
    obtain r where "br_read ?idl (ds_r s) = Some (Inr (k + 1, r))" "avail r ?tail"
      by (rule read_id [of "ds_r s" ?idl "k + 1" ?tail]) (use av Split k id in \<open>auto simp: id_code_def\<close>)
    then show ?thesis using k by (intro exI [of _ r]) (simp add: decompress_step_def blk Split)
  next
    case SecondExtension
    then have "id_code ?idl opt = to_bits ?idl 0 @ to_bits 1 1"
      by (simp only: id_code_def CodingOption.case to_bits_zero_one)
    then have "avail (ds_r s) (to_bits ?idl 0 @ to_bits 1 1 @ ?tail)" using av by (simp only: append_assoc)
    then obtain r1 where r1: "br_read ?idl (ds_r s) = Some (Inr (0, r1))" "avail r1 (to_bits 1 1 @ ?tail)"
      by (rule read_id) (use id in auto)
    obtain r where "br_read 1 r1 = Some (Inr (1, r))" "avail r ?tail"
      by (rule read_id [OF r1(2)]) auto
    then show ?thesis using r1(1) by (intro exI [of _ r]) (simp add: decompress_step_def blk SecondExtension)
  next
    case NoCompression
    obtain r where "br_read ?idl (ds_r s) = Some (Inr (2 ^ ?idl - 1, r))" "avail r ?tail"
      by (rule read_id [of "ds_r s" ?idl "2 ^ ?idl - 1" ?tail]) (use av NoCompression id in \<open>auto simp: id_code_def\<close>)
    then show ?thesis using pw by (intro exI [of _ r]) (simp add: decompress_step_def blk NoCompression)
  qed (use opt in \<open>simp add: code_fits_def\<close>)
  then obtain r where r: "decompress_step cfg s = single_and_next cfg ?R opt (s\<lparr>ds_r := r\<rparr>)"
    "dec_ok cfg samples b (s\<lparr>ds_r := r\<rparr>) ?tail" using s by (auto simp: dec_ok_def)
  from decode_single [OF input b r(2) opt(1)] r(1)
  show "\<exists>s'. decompress_loop cfg s = decompress_loop cfg s' \<and> dec_ok cfg samples (Suc b) s' rest"
    using loop_step [OF input b s] by metis
qed

section \<open>Runs of zero blocks\<close>

lemma unmap_zeros:
  assumes "v \<le> xm" "xm < 2 ^ 32"
  shows "unmap_samples xm v (replicate m 0) = replicate m v"
proof -
  have "unmap_error 0 v xm = 0" using unmap_error_eq [of 0 xm v] assms by simp
  then show ?thesis using assms by (induction m) (auto simp: Let_def)
qed

lemma zero_data:
  assumes "rice_input cfg samples" "b < num_blocks cfg samples" "\<forall>d\<in>set (data_at cfg samples b). d = 0"
  defines "first \<equiv> (if is_ref_block cfg b then blk_at cfg samples b ! 0
                    else if preprocessor cfg then prev_at cfg samples b else 0)"
  shows "first # replicate (block_size cfg - 1) (if preprocessor cfg then first else 0) = blk_at cfg samples b"
proof -
  have "Suc (block_size cfg - 1) = block_size cfg" using rice_config(2) [OF assms(1)] by simp
  then have j: "x # replicate (block_size cfg - 1) x = replicate (block_size cfg) x" for x :: nat
    by (metis replicate_Suc)
  have "data_at cfg samples b = replicate (length (data_at cfg samples b)) 0"
    using assms(3) by (simp add: replicate_eqI)
  then have D: "data_at cfg samples b = replicate (if is_ref_block cfg b then block_size cfg - 1 else block_size cfg) 0"
    using data_at_facts(1) [OF assms(1,2)] by simp
  note xm = rice_config(8) [OF assms(1)]
  show ?thesis
    unfolding first_def
    using rebuild_block [OF assms(1,2)] unmap_zeros [OF blk_hd_le [OF assms(1,2)] xm] unmap_zeros [OF prev_at_le [OF assms(1,2)] xm]
    by (auto simp: rebuild_def D is_ref_block_def j [simplified] split: if_splits)
qed

lemma fill_zero_ok:
  assumes input: "rice_input cfg samples" and b: "b < num_blocks cfg samples" and s: "dec_ok cfg samples b s bs"
    and zero: "\<forall>d\<in>set (data_at cfg samples b). d = 0"
    and ref: "is_ref \<and> i = 0 \<longleftrightarrow> is_ref_block cfg b" "is_ref_block cfg b \<Longrightarrow> v = blk_at cfg samples b ! 0"
  shows "fill_zero_block cfg is_ref v i s = Some (Returns (store_block cfg (blk_at cfg samples b) s))"
proof -
  have "out_pos s + block_size cfg \<le> length (ds_out s)" "ds_prev s = prev_at cfg samples b"
    using s block_range [OF input b] by (auto simp: dec_ok_def)
  moreover from this have f: "(if is_ref \<and> i = 0 then v else if preprocessor cfg then ds_prev s else 0)
     = (if is_ref_block cfg b then blk_at cfg samples b ! 0 else if preprocessor cfg then prev_at cfg samples b else 0)"
    using ref by auto
  ultimately show ?thesis
    unfolding fill_zero_block_def Let_def f zero_data [OF input b zero] by (simp add: store_block_def Let_def)
qed

definition zero_run_at :: "Config \<Rightarrow> nat list \<Rightarrow> nat \<Rightarrow> nat \<Rightarrow> bool" where
  "zero_run_at cfg samples p z \<longleftrightarrow> p + z \<le> num_blocks cfg samples \<and> z \<le> seg_at cfg p
     \<and> (\<forall>i<z. \<forall>d\<in>set (data_at cfg samples (p + i)). d = 0)"

lemma fill_run:
  assumes input: "rice_input cfg samples" and run: "zero_run_at cfg samples p z"
    and v: "is_ref_block cfg p \<Longrightarrow> v = blk_at cfg samples p ! 0"
    and s: "dec_ok cfg samples (p + i) s bs" "i \<le> z"
  shows "\<exists>s'. for_each (fill_zero_block cfg (is_ref_block cfg p) v) [i..<z] s = Some (Returns s')
              \<and> dec_ok cfg samples (p + z) s' bs"
  using s
proof (induction "z - i" arbitrary: i s)
  case 0
  then show ?case by simp
next
  case (Suc k)
  let ?b = "p + i"
  have i: "i < z" using Suc.hyps(2) by simp
  then have b: "?b < num_blocks cfg samples" and zero: "\<forall>d\<in>set (data_at cfg samples ?b). d = 0"
    using run by (auto simp: zero_run_at_def)
  have "p < 2 ^ 32" using b rice_config(10) [OF input] by linarith
  then have nr: "\<not> is_ref_block cfg ?b" if "0 < i"
    using no_ref_in_segment [OF that, of cfg p] run i by (auto simp: zero_run_at_def)
  have "fill_zero_block cfg (is_ref_block cfg p) v i s = Some (Returns (store_block cfg (blk_at cfg samples ?b) s))"
    by (rule fill_zero_ok [OF input b Suc.prems(1) zero]) (use nr v in \<open>cases "i = 0"; auto\<close>)+
  moreover have "dec_ok cfg samples (p + Suc i) (store_block cfg (blk_at cfg samples ?b) s) bs"
    using store_block_ok [OF input b Suc.prems(1)] by simp
  moreover have "[i..<z] = i # [Suc i..<z]" using Suc by (simp add: upt_conv_Cons)
  ultimately show ?case using Suc.hyps(1) [of "Suc i"] Suc.hyps(2) by (simp add: and_then_def)
qed

definition zero_fs :: "nat \<Rightarrow> bool \<Rightarrow> nat" where
  "zero_fs z ros = (if ros \<and> z \<ge> 5 then 4 else if z \<le> 4 then z - 1 else z)"

lemma decode_zero_fs:
  "0 < z \<Longrightarrow> z \<le> 64 \<Longrightarrow> (ros \<and> z \<ge> 5 \<Longrightarrow> seg = z) \<Longrightarrow> decode_zero_count (zero_fs z ros) seg = z"
  by (auto simp: decode_zero_count_def zero_fs_def)

lemma takes_zero_run:
  assumes input: "rice_input cfg samples" and run: "zero_run_at cfg samples p z" "0 < z"
    and ros: "ros \<and> z \<ge> 5 \<Longrightarrow> seg_at cfg p = z"
  shows "takes cfg samples p (to_bits (id_len cfg + 1) 0 @ ref_code cfg samples p @ fs_code (zero_fs z ros)) (p + z)"
  unfolding takes_def
proof (intro allI impI)
  fix s rest
  let ?idl = "id_len cfg" let ?R = "is_ref_block cfg p" let ?tail = "fs_code (zero_fs z ros) @ rest"
  assume "dec_ok cfg samples p s ((to_bits (?idl + 1) 0 @ ref_code cfg samples p @ fs_code (zero_fs z ros)) @ rest)"
  then have s: "dec_ok cfg samples p s (to_bits ?idl 0 @ to_bits 1 0 @ ref_code cfg samples p @ ?tail)"
    unfolding to_bits_zero_one by simp
  then have av: "avail (ds_r s) (to_bits ?idl 0 @ to_bits 1 0 @ ref_code cfg samples p @ ?tail)"
    and blk: "blk_idx s = p" "ds_seg s = seg_at cfg p" by (simp_all add: dec_ok_def)
  have p: "p < num_blocks cfg samples" using run by (auto simp: zero_run_at_def)
  obtain r1 where r1: "br_read ?idl (ds_r s) = Some (Inr (0, r1))" "avail r1 (to_bits 1 0 @ ref_code cfg samples p @ ?tail)"
    by (rule read_id [OF av]) (use rice_config(5) [OF input] in auto)
  obtain r2 where r2: "br_read 1 r1 = Some (Inr (0, r2))" "avail r2 (ref_code cfg samples p @ ?tail)"
    by (rule read_id [OF r1(2)]) auto
  obtain v r3 where r3: "(if ?R then br_read (bits_per_sample cfg) r2 else Some (Inr (0, r2))) = Some (Inr (v, r3))"
    "avail r3 ?tail" "?R \<Longrightarrow> v mod 2 ^ 32 = blk_at cfg samples p ! 0"
    using read_ref [OF input p r2(2)] by blast
  obtain r4 where r4: "read_fs r3 = Some (Inr (zero_fs z ros, r4))" "avail r4 rest"
    by (rule acceptsE [OF accepts_read_fs r3(2)])
  have "z \<le> 64" using run(1) seg_at_bounds(2) [of cfg p] by (auto simp: zero_run_at_def)
  then have count: "decode_zero_count (zero_fs z ros) (seg_at cfg p) = z" by (intro decode_zero_fs run(2) ros)
  have "dec_ok cfg samples (p + 0) (s\<lparr>ds_r := r4\<rparr>) rest" using s r4(2) by (simp add: dec_ok_def)
  then obtain s' where s': "for_each (fill_zero_block cfg ?R (v mod 2 ^ 32)) [0..<z] (s\<lparr>ds_r := r4\<rparr>) = Some (Returns s')"
    "dec_ok cfg samples (p + z) s' rest" using fill_run [OF input run(1) r3(3)] by blast
  have "decode_zero_blocks cfg ?R (s\<lparr>ds_r := r2\<rparr>) = Some (Returns (Inr s'))"
    using r3(1) r4(1) s'(1) count blk(2) by (cases ?R) (simp_all add: decode_zero_blocks_def read_then_def and_then_def)
  then have "decompress_step cfg s = Some (Returns (Inr s'))"
    using r1(1) r2(1) blk(1) by (simp add: decompress_step_def)
  from loop_step [OF input p s this] s'(2)
  show "\<exists>s'. decompress_loop cfg s = decompress_loop cfg s' \<and> dec_ok cfg samples (p + z) s' rest" by blast
qed

section \<open>The encoder\<close>

definition block_bits :: "Config \<Rightarrow> nat" where
  "block_bits cfg = id_len cfg + block_size cfg * bits_per_sample cfg"

definition written :: "Config \<Rightarrow> nat list \<Rightarrow> nat \<Rightarrow> bit_writer \<Rightarrow> nat \<Rightarrow> bool" where
  "written cfg samples cap w p \<longleftrightarrow> length (bw_buf w) = cap \<and>
     (\<exists>bs. wrote w bs \<and> takes cfg samples 0 bs p \<and> length bs \<le> p * block_bits cfg)"

lemma written_emits:
  assumes "written cfg samples cap w p" "emits f c" "takes cfg samples p c q"
    "length c \<le> (q - p) * block_bits cfg" "p \<le> q" "q * block_bits cfg \<le> 8 * cap"
  shows "\<exists>w'. f w = Some (Returns w') \<and> written cfg samples cap w' q"
proof -
  obtain bs where bs: "wrote w bs" "takes cfg samples 0 bs p" "length bs \<le> p * block_bits cfg" "length (bw_buf w) = cap"
    using assms(1) by (auto simp: written_def)
  have "p * block_bits cfg + (q - p) * block_bits cfg = q * block_bits cfg"
    using assms(5) by (simp flip: add_mult_distrib)
  then have len: "length (bs @ c) \<le> q * block_bits cfg" using bs(3) assms(4) by simp
  then obtain w' where "f w = Some (Returns w')" "wrote w' (bs @ c)" "length (bw_buf w') = cap"
    using emits_fits [OF assms(2) bs(1)] bs(4) assms(6) by (metis length_append order_trans)
  then show ?thesis using len takes_trans [OF bs(2) assms(3)] by (auto simp: written_def)
qed

lemma length_ref_code: "length (ref_code cfg samples b) = (if is_ref_block cfg b then bits_per_sample cfg else 0)"
  by (simp add: ref_code_def)

lemma flush_written:
  assumes input: "rice_input cfg samples" and run: "zero_run_at cfg samples p z" "0 < z"
    and ros: "ros \<and> z \<ge> 5 \<Longrightarrow> seg_at cfg p = z"
    and w: "written cfg samples cap w p" "num_blocks cfg samples * block_bits cfg \<le> 8 * cap"
    and zref: "zref = (if is_ref_block cfg p then Some (blk_at cfg samples p ! 0) else None)"
  shows "\<exists>w'. flush_zero_blocks (id_len cfg) (bits_per_sample cfg) zref z ros w = Some (Returns w')
              \<and> written cfg samples cap w' (p + z)"
proof (rule written_emits [OF w(1)])
  have z: "z \<le> 64" using run(1) seg_at_bounds(2) [of cfg p] by (auto simp: zero_run_at_def)
  have "emits (\<lambda>w. case zref of Some r \<Rightarrow> bw_write r (bits_per_sample cfg) w | None \<Rightarrow> Some (Returns w)) (ref_code cfg samples p)"
    using emits_write emits_skip by (simp add: zref ref_code_def)
  moreover have "(\<lambda>w. if ros \<and> z \<ge> 5 then write_fs 4 w else if z \<le> 4 then write_fs (z - 1) w else write_fs z w) = write_fs (zero_fs z ros)"
    by (auto simp: zero_fs_def)
  moreover have "zero_fs z ros < 2 ^ 32" using z by (auto simp: zero_fs_def)
  ultimately show "emits (flush_zero_blocks (id_len cfg) (bits_per_sample cfg) zref z ros)
      (to_bits (id_len cfg + 1) 0 @ ref_code cfg samples p @ fs_code (zero_fs z ros))"
    using emits_seq [OF emits_write emits_seq [OF _ emits_write_fs]] by (simp add: flush_zero_blocks_def [abs_def])
  show "takes cfg samples p (to_bits (id_len cfg + 1) 0 @ ref_code cfg samples p @ fs_code (zero_fs z ros)) (p + z)"
    by (rule takes_zero_run [OF input run ros])
  have "(p + z) * block_bits cfg \<le> num_blocks cfg samples * block_bits cfg"
    using run(1) by (intro mult_le_mono1) (auto simp: zero_run_at_def)
  then show "(p + z) * block_bits cfg \<le> 8 * cap" using w(2) by (rule order_trans)
  have n: "3 \<le> bits_per_sample cfg" using rice_config(12) [OF input] .
  have "8 * bits_per_sample cfg \<le> block_size cfg * bits_per_sample cfg"
    by (rule mult_le_mono1) (rule rice_config(2) [OF input])
  then have B: "bits_per_sample cfg + 3 \<le> block_size cfg * bits_per_sample cfg" using n by linarith
  obtain m where m: "z = Suc m" using run(2) by (cases z) auto
  have B': "id_len cfg + bits_per_sample cfg + 3 \<le> block_bits cfg" using B by (simp add: block_bits_def)
  then have "m \<le> m * block_bits cfg" by simp
  from add_mono [OF B' this] have "id_len cfg + bits_per_sample cfg + 3 + (z - 1) \<le> z * block_bits cfg"
    by (simp only: m mult_Suc diff_Suc_1)
  moreover have "zero_fs z ros \<le> z" by (auto simp: zero_fs_def)
  ultimately show "length (to_bits (id_len cfg + 1) 0 @ ref_code cfg samples p @ fs_code (zero_fs z ros)) \<le> (p + z - p) * block_bits cfg"
    using run(2) by (auto simp: length_ref_code)
qed simp

definition chosen :: "Config \<Rightarrow> nat list \<Rightarrow> nat \<Rightarrow> CodingOption" where
  "chosen cfg samples b =
     select_option (data_at cfg samples b) (bits_per_sample cfg) (id_len cfg) (max_split cfg)"

lemma chosen_zero:
  assumes "rice_input cfg samples" "b < num_blocks cfg samples"
  shows "chosen cfg samples b = ZeroBlock \<longleftrightarrow> (\<forall>d\<in>set (data_at cfg samples b). d = 0)"
  unfolding chosen_def by (rule select_zero [OF data_at_facts(2) [OF assms] rice_config(5,6) [OF assms(1)]])

lemma cds_written:
  assumes input: "rice_input cfg samples" and b: "b < num_blocks cfg samples"
    and opt: "chosen cfg samples b \<noteq> ZeroBlock"
    and w: "written cfg samples cap w b" "num_blocks cfg samples * block_bits cfg \<le> 8 * cap"
  shows "\<exists>w'. write_cds cfg (chosen cfg samples b) (is_ref_block cfg b) (blk_at cfg samples b) (data_at cfg samples b) w
              = Some (Returns w') \<and> written cfg samples cap w' (Suc b)"
proof (rule written_emits [OF w(1)])
  let ?o = "chosen cfg samples b" let ?D = "data_at cfg samples b" let ?n = "bits_per_sample cfg" let ?idl = "id_len cfg"
  let ?c = "id_code ?idl ?o @ ref_code cfg samples b @ data_code ?n ?o ?D"
  note small = data_at_facts(2) [OF input b] and id = rice_config(5,6) [OF input]
  have ok: "choice_ok ?D ?n ?idl (max_split cfg) (opt_bits ?D ?n ?idl ?o, ?o)"
    using select_option_ok [OF small id] opt chosen_zero [OF input b] by (simp add: chosen_def)
  have fits: "code_fits ?D ?n ?o" by (rule choice_fits [OF small id ok])
  show "takes cfg samples b ?c (Suc b)"
    by (rule takes_block [OF input b fits]) (use ok in \<open>simp add: choice_ok_def\<close>)
  have "(\<lambda>w. case ?o of SecondExtension \<Rightarrow> bw_write 1 (?idl + 1) w | Split k \<Rightarrow> bw_write (k + 1) ?idl w
      | NoCompression \<Rightarrow> bw_write (2 ^ ?idl - 1) ?idl w | ZeroBlock \<Rightarrow> Some Panics)
    = (case ?o of SecondExtension \<Rightarrow> bw_write 1 (?idl + 1) | Split k \<Rightarrow> bw_write (k + 1) ?idl
      | NoCompression \<Rightarrow> bw_write (2 ^ ?idl - 1) ?idl | ZeroBlock \<Rightarrow> (\<lambda>w. Some Panics))"
    by (cases ?o) auto
  then have "emits (\<lambda>w. case ?o of SecondExtension \<Rightarrow> bw_write 1 (?idl + 1) w | Split k \<Rightarrow> bw_write (k + 1) ?idl w
      | NoCompression \<Rightarrow> bw_write (2 ^ ?idl - 1) ?idl w | ZeroBlock \<Rightarrow> Some Panics) (id_code ?idl ?o)"
    using opt by (cases ?o) (simp_all add: id_code_def emits_write)
  moreover have "emits (\<lambda>w. if is_ref_block cfg b then bw_write (blk_at cfg samples b ! 0) ?n w else Some (Returns w)) (ref_code cfg samples b)"
    using emits_write emits_skip by (simp add: ref_code_def)
  ultimately show "emits (write_cds cfg ?o (is_ref_block cfg b) (blk_at cfg samples b) ?D) ?c"
    using emits_seq [OF _ emits_seq [OF _ emits_encode_data [OF fits]]] by (simp add: write_cds_def [abs_def])
  have "Suc b * block_bits cfg \<le> num_blocks cfg samples * block_bits cfg" using b by (intro mult_le_mono1) simp
  then show "Suc b * block_bits cfg \<le> 8 * cap" using w(2) by (rule order_trans)
  have "length ?D * ?n + length (ref_code cfg samples b) = block_size cfg * ?n"
    using data_at_facts(1) [OF input b] rice_config(2) [OF input]
    by (simp add: length_ref_code) (metis One_nat_def Suc_pred add.commute mult_Suc order_less_le_trans zero_less_numeral)
  moreover have "length (id_code ?idl ?o @ data_code ?n ?o ?D) \<le> ?idl + length ?D * ?n"
    using length_block_code [OF opt] ok by (simp add: choice_ok_def)
  ultimately show "length ?c \<le> (Suc b - b) * block_bits cfg" by (simp add: block_bits_def)
qed simp

definition enc_ok :: "Config \<Rightarrow> nat list \<Rightarrow> nat \<Rightarrow> nat \<Rightarrow> comp_state \<Rightarrow> bool" where
  "enc_ok cfg samples cap b s \<longleftrightarrow> (\<exists>p. p + zero_run s = b \<and> written cfg samples cap (cs_w s) p
     \<and> prev_sample s = prev_at cfg samples b \<and> seg_remaining s = seg_at cfg b
     \<and> (b = num_blocks cfg samples \<longrightarrow> zero_run s = 0)
     \<and> (0 < zero_run s \<longrightarrow> zero_run_at cfg samples p (zero_run s) \<and> seg_at cfg p = seg_at cfg b + zero_run s
          \<and> zero_ref s = (if is_ref_block cfg p then Some (blk_at cfg samples p ! 0) else None)))"

lemma blk_last:
  assumes "rice_input cfg samples" "b < num_blocks cfg samples"
  shows "blk_at cfg samples b ! (block_size cfg - 1) = prev_at cfg samples (Suc b)"
  using block_range [OF assms] rice_config(2) [OF assms(1)]
  by (simp add: blk_at_def bslice_def prev_at_def add.commute)

lemma zero_block_ok:
  assumes input: "rice_input cfg samples" and b: "b < num_blocks cfg samples"
    and cap: "num_blocks cfg samples * block_bits cfg \<le> 8 * cap"
    and zero: "\<forall>d\<in>set (data_at cfg samples b). d = 0"
    and s: "enc_ok cfg samples cap b s"
  shows "\<exists>s'. zero_block cfg (num_blocks cfg samples) b (is_ref_block cfg b) (blk_at cfg samples b)
            (s\<lparr>prev_sample := prev_at cfg samples (Suc b)\<rparr>) = Some (Returns s') \<and> enc_ok cfg samples cap (Suc b) s'"
proof -
  let ?N = "num_blocks cfg samples"
  obtain p where p: "p + zero_run s = b" "written cfg samples cap (cs_w s) p" "seg_remaining s = seg_at cfg b"
    "0 < zero_run s \<Longrightarrow> zero_run_at cfg samples p (zero_run s) \<and> seg_at cfg p = seg_at cfg b + zero_run s
          \<and> zero_ref s = (if is_ref_block cfg p then Some (blk_at cfg samples p ! 0) else None)"
    using s by (auto simp: enc_ok_def)
  let ?z = "zero_run s + 1"
  let ?zref = "if zero_run s = 0 then (if is_ref_block cfg b then Some (blk_at cfg samples b ! 0) else None) else zero_ref s"
  have zref: "?zref = (if is_ref_block cfg p then Some (blk_at cfg samples p ! 0) else None)"
    using p(1,4) by (cases "zero_run s = 0") auto
  have seg: "seg_at cfg p + 1 = seg_at cfg b + ?z" using p(1,4) by (cases "zero_run s = 0") auto
  have seg1: "1 \<le> seg_at cfg b" by (rule seg_at_bounds)
  have "\<forall>d\<in>set (data_at cfg samples (p + i)). d = 0" if "i < ?z" for i
  proof (cases "i < zero_run s")
    case False
    then have "p + i = b" using that p(1) by simp
    then show ?thesis using zero by simp
  qed (use p(4) in \<open>auto simp: zero_run_at_def\<close>)
  then have run: "zero_run_at cfg samples p ?z" using p(1) b seg seg1 by (auto simp: zero_run_at_def)
  let ?ros = "seg_at cfg b - 1 = 0 \<and> ?z \<ge> 5" let ?s = "s\<lparr>prev_sample := prev_at cfg samples (Suc b)\<rparr>"
  have zb: "zero_block cfg ?N b (is_ref_block cfg b) (blk_at cfg samples b) ?s =
     (if seg_at cfg b - 1 = 0 \<or> b = ?N - 1
      then and_then (flush_zero_blocks (id_len cfg) (bits_per_sample cfg) ?zref ?z ?ros (cs_w s))
             (\<lambda>w. Some (Returns (?s\<lparr>cs_w := w, zero_run := 0, zero_ref := None, seg_remaining := seg_at cfg (Suc b)\<rparr>)))
      else Some (Returns (?s\<lparr>zero_run := ?z, zero_ref := ?zref, seg_remaining := seg_at cfg (Suc b)\<rparr>)))"
    unfolding zero_block_def Let_def using p(3) by (cases "zero_run s = 0") auto
  show ?thesis
  proof (cases "seg_at cfg b - 1 = 0 \<or> b = ?N - 1")
    case True
    have ros: "seg_at cfg p = ?z" if "?ros \<and> ?z \<ge> 5" using that seg seg1 by simp
    have "\<exists>w'. flush_zero_blocks (id_len cfg) (bits_per_sample cfg) ?zref ?z ?ros (cs_w s) = Some (Returns w')
              \<and> written cfg samples cap w' (p + ?z)"
      by (rule flush_written [OF input run _ ros p(2) cap zref]) auto
    then obtain w' where w': "flush_zero_blocks (id_len cfg) (bits_per_sample cfg) ?zref ?z ?ros (cs_w s) = Some (Returns w')"
      "written cfg samples cap w' (Suc b)" using p(1) by auto
    let ?s' = "?s\<lparr>cs_w := w', zero_run := 0, zero_ref := None, seg_remaining := seg_at cfg (Suc b)\<rparr>"
    have "zero_block cfg ?N b (is_ref_block cfg b) (blk_at cfg samples b) ?s = Some (Returns ?s')"
      unfolding zb w'(1) using True by (simp add: and_then_def)
    moreover have "enc_ok cfg samples cap (Suc b) ?s'" using w'(2) by (simp add: enc_ok_def)
    ultimately show ?thesis by blast
  next
    case False
    let ?s' = "?s\<lparr>zero_run := ?z, zero_ref := ?zref, seg_remaining := seg_at cfg (Suc b)\<rparr>"
    have "zero_block cfg ?N b (is_ref_block cfg b) (blk_at cfg samples b) ?s = Some (Returns ?s')"
      unfolding zb using False by (simp only: if_False)
    moreover have "enc_ok cfg samples cap (Suc b) ?s'"
      unfolding enc_ok_def zref using p(1,2) run seg seg1 False b by (intro exI [of _ p]) auto
    ultimately show ?thesis by blast
  qed
qed

lemma compress_block_ok:
  assumes input: "rice_input cfg samples" and b: "b < num_blocks cfg samples"
    and cap: "num_blocks cfg samples * block_bits cfg \<le> 8 * cap"
    and s: "enc_ok cfg samples cap b s"
  shows "\<exists>s'. compress_block cfg samples (num_blocks cfg samples) b s = Some (Returns s') \<and> enc_ok cfg samples cap (Suc b) s'"
proof -
  let ?N = "num_blocks cfg samples" let ?s = "s\<lparr>prev_sample := prev_at cfg samples (Suc b)\<rparr>"
  let ?R = "is_ref_block cfg b" let ?B = "blk_at cfg samples b" let ?D = "data_at cfg samples b" let ?o = "chosen cfg samples b"
  obtain p where p: "p + zero_run s = b" "written cfg samples cap (cs_w s) p" "seg_remaining s = seg_at cfg b"
    "prev_sample s = prev_at cfg samples b"
    "0 < zero_run s \<Longrightarrow> zero_run_at cfg samples p (zero_run s) \<and> seg_at cfg p = seg_at cfg b + zero_run s
          \<and> zero_ref s = (if is_ref_block cfg p then Some (blk_at cfg samples p ! 0) else None)"
    using s by (auto simp: enc_ok_def)
  have eq: "compress_block cfg samples ?N b s =
     (if ?o = ZeroBlock then zero_block cfg ?N b ?R ?B ?s
      else and_then (if zero_run s > 0
                     then and_then (flush_zero_blocks (id_len cfg) (bits_per_sample cfg) (zero_ref s) (zero_run s) False (cs_w s))
                            (\<lambda>w. Some (Returns (?s\<lparr>cs_w := w, zero_run := 0, zero_ref := None\<rparr>)))
                     else Some (Returns ?s))
             (\<lambda>s. let seg = seg_remaining s - 1;
                      s = s\<lparr>seg_remaining := if seg = 0 then seg_size cfg (b + 1) else seg\<rparr>
                  in and_then (write_cds cfg ?o ?R ?B ?D (cs_w s)) (\<lambda>w. Some (Returns (s\<lparr>cs_w := w\<rparr>)))))"
    unfolding compress_block_def Let_def chosen_def data_at_def blk_at_def [symmetric] blk_last [OF input b] p(4)
    by simp
  show ?thesis
  proof (cases "?o = ZeroBlock")
    case True
    then show ?thesis unfolding eq using zero_block_ok [OF input b cap _ s] chosen_zero [OF input b] by simp
  next
    case False
    have "\<exists>w. (if zero_run s > 0
           then and_then (flush_zero_blocks (id_len cfg) (bits_per_sample cfg) (zero_ref s) (zero_run s) False (cs_w s))
                  (\<lambda>w. Some (Returns (?s\<lparr>cs_w := w, zero_run := 0, zero_ref := None\<rparr>)))
           else Some (Returns ?s))
         = Some (Returns (?s\<lparr>cs_w := w, zero_run := 0, zero_ref := if zero_run s > 0 then None else zero_ref s\<rparr>))
         \<and> written cfg samples cap w b"
    proof (cases "zero_run s > 0")
      case True
      have "\<exists>w'. flush_zero_blocks (id_len cfg) (bits_per_sample cfg) (zero_ref s) (zero_run s) False (cs_w s)
              = Some (Returns w') \<and> written cfg samples cap w' (p + zero_run s)"
        by (rule flush_written [OF input _ True _ p(2) cap]) (use p(5) [OF True] in simp_all)
      then show ?thesis using True p(1) by (auto simp: and_then_def)
    next
      case False
      then show ?thesis using p(1,2) by (intro exI [of _ "cs_w s"]) simp
    qed
    then obtain w where w: "(if zero_run s > 0
           then and_then (flush_zero_blocks (id_len cfg) (bits_per_sample cfg) (zero_ref s) (zero_run s) False (cs_w s))
                  (\<lambda>w. Some (Returns (?s\<lparr>cs_w := w, zero_run := 0, zero_ref := None\<rparr>)))
           else Some (Returns ?s))
         = Some (Returns (?s\<lparr>cs_w := w, zero_run := 0, zero_ref := if zero_run s > 0 then None else zero_ref s\<rparr>))"
      "written cfg samples cap w b" by blast
    obtain w' where w': "write_cds cfg ?o ?R ?B ?D w = Some (Returns w')" "written cfg samples cap w' (Suc b)"
      using cds_written [OF input b False w(2) cap] by blast
    let ?s' = "?s\<lparr>cs_w := w', zero_run := 0, zero_ref := if zero_run s > 0 then None else zero_ref s,
                  seg_remaining := seg_at cfg (Suc b)\<rparr>"
    have "compress_block cfg samples ?N b s = Some (Returns ?s')"
      unfolding eq w(1) using False w'(1) p(3) by (simp add: and_then_def Let_def)
    moreover have "enc_ok cfg samples cap (Suc b) ?s'" using w'(2) by (simp add: enc_ok_def)
    ultimately show ?thesis by blast
  qed
qed

lemma compress_blocks_ok:
  assumes "rice_input cfg samples" "num_blocks cfg samples * block_bits cfg \<le> 8 * cap"
    "enc_ok cfg samples cap b s" "b \<le> num_blocks cfg samples"
  shows "\<exists>s'. for_each (compress_block cfg samples (num_blocks cfg samples)) [b..<num_blocks cfg samples] s
              = Some (Returns s') \<and> enc_ok cfg samples cap (num_blocks cfg samples) s'"
  using assms(3,4)
proof (induction "num_blocks cfg samples - b" arbitrary: b s)
  case 0
  then show ?case by simp
next
  case (Suc k)
  then have b: "b < num_blocks cfg samples" by simp
  obtain s1 where s1: "compress_block cfg samples (num_blocks cfg samples) b s = Some (Returns s1)" "enc_ok cfg samples cap (Suc b) s1"
    using compress_block_ok [OF assms(1) b assms(2) Suc.prems(1)] by blast
  moreover have "[b..<num_blocks cfg samples] = b # [Suc b..<num_blocks cfg samples]" using b by (rule upt_conv_Cons)
  ultimately show ?case using Suc.hyps(1) [of "Suc b" s1] Suc.hyps(2) b by (simp add: and_then_def)
qed

text \<open>
  C19: Rice compression is lossless and never overruns its output. For every valid
  configuration of 3 to 29 bits per sample, every input of whole blocks of such samples, and
  every output buffer with room for the uncompressed blocks and their identifiers, \<open>compress\<close>
  ends and returns some length within that room, and \<open>decompress\<close> of that many bytes, into any
  buffer of the input's length, returns exactly the samples.
\<close>

theorem rice_lossless:
  assumes "rice_input cfg samples"
    and "length samples div block_size cfg * (id_len cfg + block_size cfg * bits_per_sample cfg) \<le> 8 * length output"
    and "length buf = length samples"
  shows "\<exists>len out. compress cfg samples output = Some (Returns (Inr (len, out)))
     \<and> len \<le> length output
     \<and> 8 * len < length samples div block_size cfg * (id_len cfg + block_size cfg * bits_per_sample cfg) + 8
     \<and> decompress cfg (take len out) buf = Some (Returns (Inr (length samples, samples)))"
proof -
  let ?N = "num_blocks cfg samples" let ?cap = "length output" let ?j = "block_size cfg"
  have valid: "config_validate cfg" using assms(1) by (simp add: rice_input_def)
  have cap: "?N * block_bits cfg \<le> 8 * ?cap" using assms(2) by (simp add: num_blocks_def block_bits_def)
  have j: "0 < ?j" using rice_config(2) [OF assms(1)] by simp
  have mod: "length samples mod ?j = 0" using assms(1) by (simp add: rice_input_def)
  have ends: "decompress_loop cfg s = Some (Returns (Inr (length samples, samples)))"
    if "dec_ok cfg samples ?N s rest" for s rest
    using that j rice_config(9) [OF assms(1)] by (subst decompress_loop.simps) (auto simp: dec_ok_def)
  show ?thesis
  proof (cases "samples = []")
    case True
    then have "decompress cfg (take 0 output) buf = Some (Returns (Inr (length samples, samples)))"
      using assms(3) valid j by (simp add: decompress_def) (subst decompress_loop.simps, simp)
    then show ?thesis using True valid by (simp add: compress_def)
  next
    case False
    let ?s = "\<lparr>cs_w = BitWriter_new output, prev_sample = 0, zero_run = 0, zero_ref = None, seg_remaining = seg_size cfg 0\<rparr>"
    have "written cfg samples ?cap (BitWriter_new output) 0"
      unfolding written_def using takes_refl [of cfg samples 0] by (auto intro!: exI [of _ "[]"])
    then have "enc_ok cfg samples ?cap 0 ?s" by (simp add: enc_ok_def prev_at_def)
    then obtain s where s: "for_each (compress_block cfg samples ?N) [0..<?N] ?s = Some (Returns s)" "enc_ok cfg samples ?cap ?N s"
      using compress_blocks_ok [OF assms(1) cap] by blast
    then obtain bs where bs: "wrote (cs_w s) bs" "takes cfg samples 0 bs ?N" "length bs \<le> ?N * block_bits cfg"
      "length (bw_buf (cs_w s)) = ?cap" by (auto simp: enc_ok_def written_def)
    let ?len = "bytes_written (cs_w s)" let ?out = "bw_buf (cs_w s)"
    have c: "compress cfg samples output = Some (Returns (Inr (?len, ?out)))"
      using False valid mod s(1) by (simp add: compress_def num_blocks_def and_then_def Let_def)
    let ?d = "\<lparr>ds_r = BitReader_new (take ?len ?out), ds_out = buf, out_pos = 0, blk_idx = 0, ds_prev = 0, ds_seg = seg_size cfg 0\<rparr>"
    have "dec_ok cfg samples 0 ?d (bs @ [])"
      using wrote_avail [OF bs(1)] assms(3) by (simp add: dec_ok_def prev_at_def)
    then obtain s' where "decompress_loop cfg ?d = decompress_loop cfg s'" "dec_ok cfg samples ?N s' []"
      using bs(2) unfolding takes_def by blast
    then have "decompress cfg (take ?len ?out) buf = Some (Returns (Inr (length samples, samples)))"
      using ends valid by (simp add: decompress_def)
    moreover have "?len \<le> length output" "8 * ?len < ?N * block_bits cfg + 8"
      using bytes_written_le [OF bs(1)] bs(3,4) by simp_all
    ultimately show ?thesis using c by (auto simp: num_blocks_def block_bits_def)
  qed
qed

theorem rice_lossless_witness:
  "let cfg = \<lparr>bits_per_sample = 8, block_size = 8, ref_interval = 2, preprocessor = True\<rparr>;
       samples = [10, 11, 13, 12, 10, 9, 9, 200, 200, 200, 200, 200, 200, 200, 200, 200] in
   \<exists>len out. compress cfg samples (replicate 17 0) = Some (Returns (Inr (len, out))) \<and> len \<le> 17
     \<and> decompress cfg (take len out) (replicate 16 0) = Some (Returns (Inr (16, samples)))"
proof -
  let ?cfg = "\<lparr>bits_per_sample = 8, block_size = 8, ref_interval = 2, preprocessor = True\<rparr>"
  let ?samples = "[10, 11, 13, 12, 10, 9, 9, 200, 200, 200, 200, 200, 200, 200, 200, 200] :: nat list"
  have "rice_input ?cfg ?samples" by (simp add: rice_input_def config_validate_def)
  then obtain len out where "compress ?cfg ?samples (replicate 17 0) = Some (Returns (Inr (len, out)))"
    "len \<le> length (replicate 17 (0 :: u8))"
    "decompress ?cfg (take len out) (replicate 16 0) = Some (Returns (Inr (length ?samples, ?samples)))"
    using rice_lossless [of ?cfg ?samples "replicate 17 0" "replicate 16 0"] by (auto simp: id_len_def)
  moreover have "length ?samples = 16" by simp
  ultimately show ?thesis unfolding Let_def by (metis length_replicate)
qed

end
