(* ===== verification/Rice_Limits.thy ===== *)
theory Rice_Limits
  imports Rice_Roundtrip
begin

text \<open>
  What the Rice coder does at its limits. The decoder ends on every input, well formed or not
  (every round of its loop consumes bits). The encoder fails at both ends of its
  documented range: with 2 bits per sample it writes blocks the decoder misreads, and with 32
  bits it can choose a code of more than \<open>2 ^ 62\<close> bits and then never ends.
\<close>

section \<open>The decoder ends\<close>

definition moves_on :: "nat \<Rightarrow> bit_reader \<Rightarrow> bit_reader \<Rightarrow> bool" where
  "moves_on n r r' \<longleftrightarrow> in_buffer r' \<and> br_buf r' = br_buf r \<and> rd_off r + n \<le> rd_off r'"

lemma moves_on_refl: "in_buffer r \<Longrightarrow> moves_on 0 r r"
  by (simp add: moves_on_def)

lemma moves_on_trans: "moves_on m r r' \<Longrightarrow> moves_on n r' r'' \<Longrightarrow> moves_on m r r''"
  by (auto simp: moves_on_def)

lemma reading_endsE:
  assumes "reading_ends rd n" "in_buffer r"
  obtains e where "rd r = Some (Inl e)" | v r' where "rd r = Some (Inr (v, r'))" "moves_on n r r'"
  using assms unfolding reading_ends_def moves_on_def by (metis old.sum.exhaust surj_pair)

lemma fill_zero_ends: "\<exists>x. fill_zero_block cfg is_ref v i s = Some x \<and> (\<forall>s'. x = Returns s' \<longrightarrow> ds_r s' = ds_r s)"
  by (simp add: fill_zero_block_def Let_def next_block_def)

lemma fill_run_ends:
  "\<exists>x. for_each (fill_zero_block cfg is_ref v) is s = Some x \<and> (\<forall>s'. x = Returns s' \<longrightarrow> ds_r s' = ds_r s)"
proof (induction "is" arbitrary: s)
  case (Cons i "is")
  obtain x where x: "fill_zero_block cfg is_ref v i s = Some x" "\<forall>s'. x = Returns s' \<longrightarrow> ds_r s' = ds_r s"
    using fill_zero_ends by blast
  show ?case
  proof (cases x)
    case (Returns s1)
    obtain y where y: "for_each (fill_zero_block cfg is_ref v) is s1 = Some y" "\<forall>s'. y = Returns s' \<longrightarrow> ds_r s' = ds_r s1"
      using Cons.IH by blast
    have "for_each (fill_zero_block cfg is_ref v) (i # is) s = Some y" using x(1) y(1) Returns by (simp add: and_then_def)
    moreover have "ds_r s1 = ds_r s" using x(2) Returns by blast
    ultimately show ?thesis using y(2) by metis
  next
    case Panics
    then show ?thesis using x(1) by (simp add: and_then_def)
  qed
qed simp

definition round_ends :: "Config \<Rightarrow> dec_state \<Rightarrow> (rice_error + dec_state) outcome option \<Rightarrow> bool" where
  "round_ends cfg s y \<longleftrightarrow> (\<exists>x. y = Some x \<and> (\<forall>s'. x = Returns (Inr s') \<longrightarrow> moves_on 0 (ds_r s) (ds_r s')))"

lemma zero_blocks_end:
  assumes "in_buffer (ds_r s)"
  shows "round_ends cfg s (decode_zero_blocks cfg is_ref s)"
proof -
  let ?rd = "\<lambda>r. read_then (if is_ref then br_read (bits_per_sample cfg) r else Some (Inr (0, r)))
                    (\<lambda>v r. read_then (read_fs r) (\<lambda>fs r. Some (Inr ((v mod 2 ^ 32, fs), r))))"
  have "reading_ends (\<lambda>r. if is_ref then br_read (bits_per_sample cfg) r else Some (Inr (0, r))) 0"
    using read_ends reading_ends_mono reading_ends_return by (cases is_ref) fastforce+
  then have "reading_ends ?rd (0 + (1 + 0))"
    by (intro reading_ends_seq read_fs_ends reading_ends_return)
  then show ?thesis
  proof (rule reading_endsE [OF _ assms])
    fix p r' assume p: "?rd (ds_r s) = Some (Inr (p, r'))" "moves_on (0 + (1 + 0)) (ds_r s) r'"
    obtain v f where [simp]: "p = (v, f)" by (cases p)
    obtain x where "for_each (fill_zero_block cfg is_ref v) [0..<decode_zero_count f (ds_seg s)] (s\<lparr>ds_r := r'\<rparr>) = Some x"
      "\<forall>s'. x = Returns s' \<longrightarrow> ds_r s' = r'" using fill_run_ends [of cfg is_ref v _ "s\<lparr>ds_r := r'\<rparr>"] by auto
    then show ?thesis using p by (cases x) (auto simp: decode_zero_blocks_def round_ends_def and_then_def moves_on_def)
  qed (auto simp: decode_zero_blocks_def round_ends_def)
qed

lemma decode_mapped_ends:
  assumes "in_buffer r"
  shows "\<exists>x. decode_mapped opt j n is_ref r = Some x \<and> (\<forall>v r'. x = Returns (Inr (v, r')) \<longrightarrow> moves_on 0 r r')"
proof -
  have lift: "\<exists>x. map_option Returns (rd r) = Some x \<and> (\<forall>v r'. x = Returns (Inr (v, r')) \<longrightarrow> moves_on 0 r r')"
    if "reading_ends rd m" for rd :: "bit_reader \<Rightarrow> nat list reading" and m
    by (rule reading_endsE [OF that assms]) (auto simp: moves_on_def)
  let ?l = "if is_ref then j - 1 else j"
  show ?thesis
  proof (cases opt)
    case (Split k)
    have "reading_ends (\<lambda>r. read_then (read_n read_fs ?l r) (\<lambda>fs r.
             if k > 0 then read_then (read_n (br_read k) ?l r) (\<lambda>ls r.
                             Some (Inr (map2 (\<lambda>f l. wrap64 (push_bit k f) OR l) fs ls, r)))
             else Some (Inr (map (\<lambda>f. wrap64 (push_bit k f)) fs, r)))) (0 + 0)"
    proof (rule reading_ends_seq [OF read_n_ends [OF read_fs_ends]])
      fix fs
      have "reading_ends (\<lambda>r. read_then (read_n (br_read k) ?l r) (\<lambda>ls r.
              Some (Inr (map2 (\<lambda>f l. wrap64 (push_bit k f) OR l) fs ls, r)))) (0 + 0)"
        by (intro reading_ends_seq read_n_ends [OF read_ends] reading_ends_return)
      then show "reading_ends (\<lambda>r. if k > 0 then read_then (read_n (br_read k) ?l r) (\<lambda>ls r.
              Some (Inr (map2 (\<lambda>f l. wrap64 (push_bit k f) OR l) fs ls, r)))
             else Some (Inr (map (\<lambda>f. wrap64 (push_bit k f)) fs, r))) 0"
        using reading_ends_return by (cases "k > 0") simp_all
    qed
    from lift [OF this] show ?thesis by (simp only: decode_mapped_def Split CodingOption.case Let_def)
  next
    case SecondExtension
    show ?thesis
      by (rule reading_endsE [OF read_n_ends [OF read_fs_ends, of "(if is_ref then j else ?l) div 2"] assms])
         (auto simp: decode_mapped_def SecondExtension Let_def)
  next
    case NoCompression
    from lift [OF read_n_ends [OF read_ends]] show ?thesis by (simp only: decode_mapped_def NoCompression CodingOption.case Let_def)
  qed (simp add: decode_mapped_def)
qed

lemma single_ends:
  assumes "in_buffer (ds_r s)"
  shows "round_ends cfg s (single_and_next cfg is_ref opt s)"
proof -
  let ?rd = "\<lambda>r. if is_ref then br_read (bits_per_sample cfg) r else Some (Inr (0, r))"
  have "reading_ends ?rd 0"
    using read_ends reading_ends_mono reading_ends_return by (cases is_ref) fastforce+
  then show ?thesis
  proof (rule reading_endsE [OF _ assms])
    fix v r1 assume r1: "?rd (ds_r s) = Some (Inr (v, r1))" "moves_on 0 (ds_r s) r1"
    obtain x where x: "decode_mapped opt (block_size cfg) (bits_per_sample cfg) is_ref r1 = Some x"
      "\<And>u r'. x = Returns (Inr (u, r')) \<Longrightarrow> moves_on 0 r1 r'"
      using decode_mapped_ends [of r1] r1(2) unfolding moves_on_def by blast
    consider "x = Panics" | e where "x = Returns (Inl e)" | u r2 where "x = Returns (Inr (u, r2))"
      by (metis old.sum.exhaust outcome.exhaust surj_pair)
    then show ?thesis
    proof cases
      case 3
      then show ?thesis using r1 x
        by (auto simp: single_and_next_def decode_single_block_def round_ends_def and_then_def Let_def next_block_def moves_on_def)
    qed (use r1 x in \<open>auto simp: single_and_next_def decode_single_block_def round_ends_def and_then_def Let_def\<close>)
  qed (auto simp: single_and_next_def decode_single_block_def round_ends_def and_then_def)
qed

lemma step_ends:
  assumes "in_buffer (ds_r s)"
  shows "\<exists>x. decompress_step cfg s = Some x \<and> (\<forall>s'. x = Returns (Inr s') \<longrightarrow> moves_on (id_len cfg) (ds_r s) (ds_r s'))"
proof (rule reading_endsE [OF read_ends [of "id_len cfg"] assms])
  fix v r1 assume r1: "br_read (id_len cfg) (ds_r s) = Some (Inr (v, r1))" "moves_on (id_len cfg) (ds_r s) r1"
  have after: "\<exists>x. y = Some x \<and> (\<forall>s'. x = Returns (Inr s') \<longrightarrow> moves_on (id_len cfg) (ds_r s) (ds_r s'))"
    if "round_ends cfg (s\<lparr>ds_r := r\<rparr>) y" "moves_on (id_len cfg) (ds_r s) r" for y r
    using that moves_on_trans unfolding round_ends_def by fastforce
  have ok: "in_buffer r1" using r1(2) by (simp add: moves_on_def)
  show ?thesis
  proof (cases "v = 0")
    case True
    show ?thesis
    proof (rule reading_endsE [OF read_ends [of 1] ok])
      fix x r2 assume r2: "br_read 1 r1 = Some (Inr (x, r2))" "moves_on 1 r1 r2"
      have m: "moves_on (id_len cfg) (ds_r s) r2" by (rule moves_on_trans [OF r1(2) r2(2)])
      have "in_buffer (ds_r (s\<lparr>ds_r := r2\<rparr>))" using m by (simp add: moves_on_def)
      then show ?thesis
        using r1(1) r2(1) True after [OF zero_blocks_end m] after [OF single_ends m]
        by (cases "x = 0") (simp_all add: decompress_step_def Let_def)
    qed (use r1 True in \<open>simp add: decompress_step_def\<close>)
  next
    case False
    have "in_buffer (ds_r (s\<lparr>ds_r := r1\<rparr>))" using ok by simp
    then show ?thesis using r1(1) False after [OF single_ends r1(2)]
      by (cases "v = 2 ^ id_len cfg - 1") (simp_all add: decompress_step_def Let_def)
  qed
qed (simp add: decompress_step_def)

lemma decompress_loop_ends:
  assumes "in_buffer (ds_r s)" "0 < id_len cfg"
  shows "\<exists>y. decompress_loop cfg s = Some y"
  using assms(1)
proof (induction "8 * length (br_buf (ds_r s)) - rd_off (ds_r s)" arbitrary: s rule: less_induct)
  case less
  obtain x where x: "decompress_step cfg s = Some x" "\<And>s'. x = Returns (Inr s') \<Longrightarrow> moves_on (id_len cfg) (ds_r s) (ds_r s')"
    using step_ends [OF less.prems, of cfg] by blast
  consider "x = Panics" | e where "x = Returns (Inl e)" | s' where "x = Returns (Inr s')"
    by (metis old.sum.exhaust outcome.exhaust)
  then show ?case
  proof cases
    case 3
    note m = x(2) [OF 3]
    have "8 * length (br_buf (ds_r s')) - rd_off (ds_r s') < 8 * length (br_buf (ds_r s)) - rd_off (ds_r s)"
      using m assms(2) by (auto simp: moves_on_def in_buffer_def)
    moreover have "in_buffer (ds_r s')" using m by (simp add: moves_on_def)
    ultimately have "\<exists>y. decompress_loop cfg s' = Some y" by (rule less.hyps)
    then show ?thesis using 3 x(1) by (subst decompress_loop.simps) auto
  qed (subst decompress_loop.simps, simp add: x)+
qed

text \<open>
  C39: Decompression always ends: for every configuration, every input (truncated, corrupted or
  hostile) and every output buffer \<open>decompress\<close> returns a result, an error or a panic; it never
  loops forever.
\<close>

theorem rice_decompress_ends: "\<exists>y. decompress cfg input out_buf = Some y"
proof (cases "config_validate cfg")
  case True
  then have "0 < id_len cfg" by (auto simp: id_len_def config_validate_def Let_def)
  moreover have "in_buffer (BitReader_new input)" by (simp add: in_buffer_def reader_ok_def rd_off_def BitReader_new_def)
  ultimately show ?thesis using True by (simp add: decompress_def decompress_loop_ends)
qed (simp add: decompress_def)

section \<open>Two bits per sample\<close>

text \<open>Evaluation of the bit streams on concrete buffers.\<close>

lemma write_eval:
  "write_loop v 0 w = Some (Returns w)"
  "0 < n \<Longrightarrow> bw_pos w < length (bw_buf w) \<Longrightarrow> write_loop v n w =
     write_loop v (n - min n (bw_bit w)) (next_byte (w\<lparr>bw_buf := (bw_buf w)[bw_pos w := bw_buf w ! bw_pos w OR
         push_bit (bw_bit w - min n (bw_bit w)) (of_nat (v div 2 ^ (n - min n (bw_bit w)) mod 2 ^ min n (bw_bit w)))],
       bw_bit := bw_bit w - min n (bw_bit w)\<rparr>))"
  "write_zeros 0 w = Some w"
  "0 < m \<Longrightarrow> write_zeros m w =
     write_zeros (m - min (m mod 2 ^ 32) (bw_bit w)) (next_byte (w\<lparr>bw_bit := bw_bit w - min (m mod 2 ^ 32) (bw_bit w)\<rparr>))"
  by (subst write_loop.simps write_zeros.simps, simp add: Let_def)+

lemma read_eval:
  "read_loop a 0 r = Some (Inr (a, r))"
  "0 < n \<Longrightarrow> length (br_buf r) \<le> br_pos r \<Longrightarrow> read_loop a n r = Some (Inl Truncated)"
  by (subst read_loop.simps, simp)+

lemma read_n_step:
  "0 < n \<Longrightarrow> read_n rd n r = read_then (rd r) (\<lambda>a r. read_then (read_n rd (n - 1) r) (\<lambda>as r. Some (Inr (a # as, r))))"
  by (cases n) auto

lemmas bits_eval = bw_write_def write_fs_def write_eval next_byte_def zero_at_def
  br_read_def read_loop_step read_eval skip_bits_def read_n_step read_then_def wrap64_def

definition two_bits :: Config where
  "two_bits = \<lparr>bits_per_sample = 2, block_size = 8, ref_interval = 0, preprocessor = False\<rparr>"

definition two_bit_samples :: "nat list" where
  "two_bit_samples = [0, 1, 0, 1, 0, 1, 0, 1]"

lemma two_bits_eval:
  "config_validate two_bits" "id_len two_bits = 1" "max_split two_bits = 0" "bits_per_sample two_bits = 2"
  "block_size two_bits = 8" "preprocessor two_bits = False" "\<not> is_ref_block two_bits b" "seg_size two_bits b = 64"
  by (simp_all add: two_bits_def config_validate_def id_len_def max_split_def is_ref_block_def seg_size_def)

lemma two_bit_samples_eval:
  "length two_bit_samples = 8" "two_bit_samples \<noteq> []" "take 8 two_bit_samples = two_bit_samples" "two_bit_samples ! 7 = 1"
  by (simp_all add: two_bit_samples_def)

lemma two_bit_option: "select_option two_bit_samples 2 1 0 = Split 0"
proof -
  have pg: "pair_gamma (0, Suc 0) = 2" by (simp add: pair_gamma_def wrap64_def)
  have no: "try_no_comp two_bit_samples 2 1 (2 ^ 64 - 1, NoCompression) = (17, NoCompression)"
    by (simp add: try_no_comp_def cost_no_comp_def wrap64_def two_bit_samples_def)
  have se: "try_second two_bit_samples 1 (17, NoCompression) = (14, SecondExtension)"
    by (simp add: try_second_def cost_second_ext_def pg two_bit_samples_def)
  have sp: "try_split two_bit_samples 1 (14, SecondExtension) 0 = (13, Split 0)"
    by (simp add: try_split_def cost_split_def wrap64_def two_bit_samples_def)
  show ?thesis unfolding select_option_def no se by (simp add: sp [simplified]) (simp add: two_bit_samples_def)
qed

lemma two_bit_compress:
  "compress two_bits two_bit_samples [0, 0, 0, 0, 0] = Some (Returns (Inr (2, [219, 104, 0, 0, 0])))"
  by (simp add: compress_def compress_block_def two_bits_eval two_bit_samples_eval Let_def bslice_def block_data_def
        two_bit_option [simplified] write_cds_def encode_data_def)
     (simp add: and_then_def BitWriter_new_def bits_eval bytes_written_def two_bit_samples_def)

text \<open>
  C16: With 2 bits per sample compression is not lossless: for a valid input of one block the
  encoder succeeds, and the decoder rejects its output. The 1-bit identifier 1 stands for both
  the split option with \<open>k = 0\<close>, which the encoder chose, and the uncompressed option, which the
  decoder assumes.
\<close>

theorem rice_two_bits_lossy:
  "config_validate two_bits \<and> length two_bit_samples = block_size two_bits
   \<and> (\<exists>len out. compress two_bits two_bit_samples [0, 0, 0, 0, 0] = Some (Returns (Inr (len, out)))
        \<and> decompress two_bits (take len out) (replicate 8 0) = Some (Returns (Inl Truncated)))"
proof -
  have id: "br_read 1 \<lparr>br_buf = [219, 104], br_pos = 0, br_bit = 8\<rparr>
      = Some (Inr (1, \<lparr>br_buf = [219, 104], br_pos = 0, br_bit = 7\<rparr>))"
    by (simp add: bits_eval)
  have vals: "read_n (br_read 2) 8 \<lparr>br_buf = [219, 104], br_pos = 0, br_bit = 7\<rparr> = Some (Inl Truncated)"
    by (simp add: bits_eval)
  have "decompress two_bits [219, 104] (replicate 8 0) = Some (Returns (Inl Truncated))"
    unfolding decompress_def
    by (subst decompress_loop.simps)
       (simp add: two_bits_eval BitReader_new_def decompress_step_def id [simplified] single_and_next_def
          decode_single_block_def decode_mapped_def Let_def and_then_def vals)
  then show ?thesis using two_bit_compress by (simp add: two_bits_eval two_bit_samples_eval)
qed

section \<open>Thirty-two bits per sample\<close>

definition full_bits :: Config where
  "full_bits = \<lparr>bits_per_sample = 32, block_size = 8, ref_interval = 0, preprocessor = False\<rparr>"

definition full_samples :: "nat list" where
  "full_samples = [2147483648, 2147483647, 2147483648, 2147483647, 0, 0, 0, 0]"

lemma full_bits_eval:
  "config_validate full_bits" "id_len full_bits = 5" "max_split full_bits = 29" "bits_per_sample full_bits = 32"
  "block_size full_bits = 8" "preprocessor full_bits = False" "\<not> is_ref_block full_bits b" "seg_size full_bits b = 64"
  by (simp_all add: full_bits_def config_validate_def id_len_def max_split_def is_ref_block_def seg_size_def)

lemma full_samples_eval:
  "length full_samples = 8" "full_samples \<noteq> []" "take 8 full_samples = full_samples"
  "chunk_pairs full_samples = [(2147483648, 2147483647), (2147483648, 2147483647), (0, 0), (0, 0)]"
  by (simp_all add: full_samples_def)

lemma full_gammas: "pair_gamma (2147483648, 2147483647) = 9223372036854775807" "pair_gamma (0, 0) = 0"
  by (simp_all add: pair_gamma_def wrap64_def)

text \<open>Two codes of \<open>2 ^ 63\<close> bits wrap to a cost of 0.\<close>

lemma full_second_cost: "cost_second_ext full_samples = Some 2"
  unfolding cost_second_ext_def foldl_wrap [of 0, simplified]
  by (simp add: full_gammas full_samples_eval wrap64_def)

lemma full_split_cost: "k \<le> 29 \<Longrightarrow> \<not> wrap64 (cost_split full_samples k + 5) < 8"
proof -
  assume k: "k \<le> 29"
  define a where "a = (2147483648 div 2 ^ k :: nat)"
  define b where "b = (2147483647 div 2 ^ k :: nat)"
  have ab: "a \<le> 2147483648" "b \<le> 2147483647" unfolding a_def b_def by (rule div_le_dividend)+
  have s: "sum_list (map (\<lambda>d. d div 2 ^ k + 1) full_samples) = 2 * a + 2 * b + 8"
    by (simp add: full_samples_def a_def b_def)
  have w: "wrap64 (2 * a + 2 * b + 8) = 2 * a + 2 * b + 8" "wrap64 (k * 8) = k * 8"
    "wrap64 (2 * a + 2 * b + 8 + k * 8) = 2 * a + 2 * b + 8 + k * 8"
    "wrap64 (2 * a + 2 * b + 8 + k * 8 + 5) = 2 * a + 2 * b + 8 + k * 8 + 5"
    using ab k by (auto intro!: wrap64_small)
  show ?thesis unfolding cost_split_def foldl_wrap [of 0, simplified] s full_samples_eval(1) w by simp
qed

lemma foldl_try_split_keeps:
  "\<forall>k\<in>set ks. \<not> wrap64 (cost_split data k + idl) < fst best \<Longrightarrow> foldl (try_split data idl) best ks = best"
  by (induction ks) (auto simp: try_split_def Let_def)

lemma full_option: "select_option full_samples 32 5 29 = SecondExtension"
proof -
  have no: "try_no_comp full_samples 32 5 (2 ^ 64 - 1, NoCompression) = (261, NoCompression)"
    by (simp add: try_no_comp_def cost_no_comp_def wrap64_def full_samples_def)
  have se: "try_second full_samples 5 (261, NoCompression) = (8, SecondExtension)"
    by (simp add: try_second_def full_second_cost)
  have "foldl (try_split full_samples 5) (8, SecondExtension) [0..<Suc 29] = (8, SecondExtension)"
    by (rule foldl_try_split_keeps) (use full_split_cost in \<open>auto simp only: set_upt atLeastLessThan_iff less_Suc_eq_le fst_conv\<close>)
  then show ?thesis unfolding select_option_def no se by (simp add: full_samples_def del: upt_Suc)
qed

text \<open>
  C23: With 32 bits per sample compression can loop forever: on a valid input of one block, and
  any output buffer that is not empty, \<open>compress\<close> does not return. The 64-bit cost of the second
  extension wraps to 2, so that this option is chosen, and its first code has \<open>2 ^ 63 - 1\<close> zeros,
  on which the loop of \<open>write_fs\<close> makes no progress.
\<close>

theorem rice_full_width_loops:
  assumes "0 < length out_buf"
  shows "config_validate full_bits \<and> length full_samples = block_size full_bits
         \<and> compress full_bits full_samples out_buf = None"
proof -
  obtain w where w: "bw_write 1 6 (BitWriter_new out_buf) = Some (Returns w)"
    using emits_write [of 1 6, unfolded emits_def, rule_format, OF wrote_new [of out_buf]] assms
    by (auto split: if_splits)
  have "write_fs 9223372036854775807 v = None" for v by (rule write_fs_loops) simp
  then show ?thesis using w
    by (simp add: compress_def compress_block_def full_bits_eval full_samples_eval Let_def bslice_def block_data_def
          full_option write_cds_def encode_data_def full_gammas and_then_def)
qed

theorem rice_full_width_loops_witness:
  "compress full_bits full_samples [0, 0, 0, 0] = None"
  using rice_full_width_loops [of "[0, 0, 0, 0]"] by simp

end
