(* ===== verification/Cfdp_Types.thy ===== *)
theory Cfdp_Types
  imports Bitfield
begin

text \<open>
  The shared vocabulary of the CFDP file transfer (\<open>crates/leodos-protocols/src/transport/cfdp/\<close>):
  its codes, errors, transaction identifiers and configurations, the packed set of fault
  handlers, the bounded map of transactions, and the way a handler works on the machine's state
  and its action buffer.

  A handler returns \<open>Result<(), CfdpError>\<close> after changing the machine and pushing actions; it is
  a function on the pair of both, with the error, if any, as a second component. The \<open>?\<close>
  operator is \<open>and_do\<close>: the changes made before an error stay.
\<close>

section \<open>Codes\<close>

datatype CfdpError =
    BufferTooSmall nat nat
  | DataTooLarge string nat
  | IdLengthInvalid string nat
  | IdLengthMismatch
  | Custom string
  | TransactionNotFound
  | TooManyConcurrentTransactions
  | ActionBufferFull

datatype ConditionCode =
    NoError | AckLimitReached | KeepAliveLimitReached | InvalidTransmissionMode | FilestoreRejection
  | FileChecksumFailure | FileSizeError | NakLimitReached | InactivityDetected | InvalidFileStructure
  | CheckLimitReached | UnsupportedChecksumType | SuspendReceived | CancelReceived

definition condition_value :: "ConditionCode \<Rightarrow> nat" where
  "condition_value c = (case c of
      NoError \<Rightarrow> 0 | AckLimitReached \<Rightarrow> 1 | KeepAliveLimitReached \<Rightarrow> 2 | InvalidTransmissionMode \<Rightarrow> 3
    | FilestoreRejection \<Rightarrow> 4 | FileChecksumFailure \<Rightarrow> 5 | FileSizeError \<Rightarrow> 6 | NakLimitReached \<Rightarrow> 7
    | InactivityDetected \<Rightarrow> 8 | InvalidFileStructure \<Rightarrow> 9 | CheckLimitReached \<Rightarrow> 10
    | UnsupportedChecksumType \<Rightarrow> 11 | SuspendReceived \<Rightarrow> 14 | CancelReceived \<Rightarrow> 15)"

datatype DirectiveCode =
    DirEof | DirFinished | DirAck | DirMetadata | DirNak | DirPrompt | DirKeepAlive

datatype TransactionStatus = StatusUndefined | StatusActive | StatusTerminated | StatusUnrecognized

datatype AckedDirectiveCode = AckedEof | AckedFinished

datatype ChecksumType = Modular | Proximity1Crc32 | Crc32c | IeeeCrc32 | NullChecksum

datatype TimerType = TimerAck | TimerNak | TimerInactivity | TimerKeepAlive

datatype PromptType = PromptNak | PromptKeepAlive

section \<open>Fault handlers\<close>

datatype HandlerCode = Cancel | Suspend | Ignore | Abandon

definition handler_to_bits :: "HandlerCode \<Rightarrow> u32" where
  "handler_to_bits h = (case h of Cancel \<Rightarrow> 0 | Suspend \<Rightarrow> 1 | Ignore \<Rightarrow> 2 | Abandon \<Rightarrow> 3)"

definition bits_to_handler :: "u32 \<Rightarrow> HandlerCode" where
  "bits_to_handler b = (if b = 0 then Cancel else if b = 1 then Suspend else if b = 2 then Ignore
     else if b = 3 then Abandon else Cancel)"

type_synonym FaultHandlerSet = u32

definition handlers_new :: "HandlerCode \<Rightarrow> FaultHandlerSet" where
  "handlers_new default_handler = foldl (\<lambda>v i. v OR push_bit (i * 2) (handler_to_bits default_handler)) 0 [0..<16]"

definition handlers_default :: FaultHandlerSet where
  "handlers_default = foldl (\<lambda>v i. v OR push_bit (i * 2) (handler_to_bits Cancel)) 0 [0..<16]"

definition set_handler :: "FaultHandlerSet \<Rightarrow> ConditionCode \<Rightarrow> HandlerCode \<Rightarrow> FaultHandlerSet" where
  "set_handler s condition handler =
     (let shift = condition_value condition * 2 in
      (s AND NOT (push_bit shift 3)) OR push_bit shift (handler_to_bits handler))"

definition get_handler :: "FaultHandlerSet \<Rightarrow> ConditionCode \<Rightarrow> HandlerCode" where
  "get_handler s condition = bits_to_handler (drop_bit (condition_value condition * 2) s AND 3)"

section \<open>Transactions\<close>

type_synonym EntityId = nat
type_synonym FileId = u8

record TransactionId =
  source_id :: EntityId
  seq_num :: nat

record TransactionConfig =
  transaction_id :: TransactionId
  destination_id :: EntityId
  cfg_file_size :: nat
  fault_handlers :: FaultHandlerSet
  inactivity_timeout_secs :: nat
  checksum_type :: ChecksumType
  source_file_id :: FileId
  destination_file_id :: FileId

definition MAX_ACTIONS_PER_EVENT :: nat where "MAX_ACTIONS_PER_EVENT = 8"
definition MAX_CONCURRENT_TRANSACTIONS :: nat where "MAX_CONCURRENT_TRANSACTIONS = 8"
definition FILE_DATA_CHUNK_SIZE :: nat where "FILE_DATA_CHUNK_SIZE = 2048"

text \<open>
  \<open>heapless::LinearMap\<close>: at most \<open>cap\<close> keys; \<open>insert\<close> replaces the value of a key it holds and
  fails on a new key when the map is full.
\<close>

type_synonym ('k, 'v) linear_map = "('k \<times> 'v) list"

definition lm_get :: "('k, 'v) linear_map \<Rightarrow> 'k \<Rightarrow> 'v option" where
  "lm_get m k = map_of m k"

fun lm_update :: "'k \<Rightarrow> ('v \<Rightarrow> 'v) \<Rightarrow> ('k, 'v) linear_map \<Rightarrow> ('k, 'v) linear_map" where
  "lm_update k f [] = []"
| "lm_update k f ((k', v) # m) = (if k = k' then (k', f v) # m else (k', v) # lm_update k f m)"

definition lm_insert :: "nat \<Rightarrow> ('k, 'v) linear_map \<Rightarrow> 'k \<Rightarrow> 'v \<Rightarrow> ('k, 'v) linear_map option" where
  "lm_insert cap m k v =
     (if lm_get m k \<noteq> None then Some (lm_update k (\<lambda>_. v) m)
      else if length m < cap then Some (m @ [(k, v)]) else None)"

definition lm_remove :: "('k, 'v) linear_map \<Rightarrow> 'k \<Rightarrow> ('k, 'v) linear_map" where
  "lm_remove m k = filter (\<lambda>p. fst p \<noteq> k) m"

section \<open>Handlers\<close>

type_synonym ('m, 'a) handling = "'m \<times> 'a list \<Rightarrow> ('m \<times> 'a list) \<times> CfdpError option"

definition ok :: "('m, 'a) handling" where
  "ok s = (s, None)"

definition fail :: "CfdpError \<Rightarrow> ('m, 'a) handling" where
  "fail e s = (s, Some e)"

definition and_do :: "('m, 'a) handling \<Rightarrow> ('m, 'a) handling \<Rightarrow> ('m, 'a) handling" where
  "and_do f g s = (case f s of (s', None) \<Rightarrow> g s' | (s', Some e) \<Rightarrow> (s', Some e))"

text \<open>A sequence of statements, each ended by \<open>?\<close>.\<close>

fun do_all :: "('m, 'a) handling list \<Rightarrow> ('m, 'a) handling" where
  "do_all [] = ok"
| "do_all (f # fs) = and_do f (do_all fs)"

declare do_all.simps [simp del]

definition push_action :: "'a \<Rightarrow> ('m, 'a) handling" where
  "push_action a s =
     (if length (snd s) < MAX_ACTIONS_PER_EVENT then ((fst s, snd s @ [a]), None) else (s, Some ActionBufferFull))"

text \<open>A parse result of a received PDU, whose error ends the handler.\<close>

definition try_value :: "CfdpError + 'v \<Rightarrow> ('v \<Rightarrow> ('m, 'a) handling) \<Rightarrow> ('m, 'a) handling" where
  "try_value x f s = (case x of Inl e \<Rightarrow> (s, Some e) | Inr v \<Rightarrow> f v s)"

section \<open>Laws\<close>

lemma lm_get_update [simp]:
  "lm_get (lm_update k f m) k' = (if k' = k then map_option f (lm_get m k) else lm_get m k')"
  by (induction m) (auto simp: lm_get_def)

lemma keys_lm_update [simp]: "map fst (lm_update k f m) = map fst m"
  by (induction m) auto

lemma lm_get_remove [simp]: "lm_get (lm_remove m k) k' = (if k' = k then None else lm_get m k')"
  by (induction m) (auto simp: lm_get_def lm_remove_def)

lemma lm_get_append_new: "lm_get m k = None \<Longrightarrow> lm_get (m @ [(k, v)]) k' = (if k' = k then Some v else lm_get m k')"
  by (induction m) (auto simp: lm_get_def)

lemma lm_get_insert:
  "lm_insert cap m k v = Some m' \<Longrightarrow> lm_get m' k' = (if k' = k then Some v else lm_get m k')"
  by (auto simp: lm_insert_def lm_get_append_new split: if_splits)

lemma lm_insert_full: "lm_insert cap m k v = None \<longleftrightarrow> lm_get m k = None \<and> cap \<le> length m"
  by (auto simp: lm_insert_def)

lemma set_lm_update: "\<forall>p\<in>set m. P (snd p) \<Longrightarrow> (\<And>v. P v \<Longrightarrow> P (f v)) \<Longrightarrow> \<forall>p\<in>set (lm_update k f m). P (snd p)"
  by (induction m) (fastforce split: if_splits)+

lemma bit_handlers: "bit (handler_to_bits h) n \<Longrightarrow> n < 2"
proof -
  have "unat (handler_to_bits h) < 2 ^ 2" by (cases h) (simp_all add: handler_to_bits_def)
  then have "take_bit 2 (handler_to_bits h) = handler_to_bits h" by (rule take_bit_word_fits)
  then show "bit (handler_to_bits h) n \<Longrightarrow> n < 2" by (metis bit_take_bit_iff)
qed

lemma bits_to_handler_to_bits [simp]: "bits_to_handler (handler_to_bits h) = h"
  by (cases h) (simp_all add: bits_to_handler_def handler_to_bits_def)

lemma three_mask: "(3 :: u32) = mask 2"
  by (simp add: mask_eq_exp_minus_1)

lemma condition_value_less: "condition_value c < 16"
  by (cases c) (simp_all add: condition_value_def)

lemma condition_value_inj: "condition_value c = condition_value d \<longleftrightarrow> c = d"
  by (cases c; cases d) (simp_all add: condition_value_def)

lemma get_set_handler: "get_handler (set_handler s c h) d = (if d = c then h else get_handler s d)"
proof -
  let ?c = "condition_value c" let ?d = "condition_value d"
  have "drop_bit (?d * 2) (set_handler s c h) AND mask 2 = (if d = c then handler_to_bits h else drop_bit (?d * 2) s AND mask 2)"
  proof (rule bit_word_eqI)
    fix n assume n: "n < LENGTH(32)"
    show "bit (drop_bit (?d * 2) (set_handler s c h) AND mask 2) n
        = bit (if d = c then handler_to_bits h else drop_bit (?d * 2) s AND mask 2) n"
    proof (cases "n < 2")
      case False
      then show ?thesis using bit_handlers [of h n] by (auto simp: bit_simps)
    next
      case True
      then have lt: "?d * 2 + n < 32" using condition_value_less [of d] by simp
      show ?thesis
      proof (cases "d = c")
        case same: True
        then show ?thesis using True lt
          by (auto simp: set_handler_def three_mask Let_def bit_simps)
      next
        case False
        then have ne: "?c \<noteq> ?d" by (simp add: condition_value_inj eq_commute)
        then have "\<not> (?c * 2 \<le> ?d * 2 + n \<and> ?d * 2 + n - ?c * 2 < 2)" using True by linarith
        then show ?thesis using True lt False bit_handlers [of h "?d * 2 + n - ?c * 2"]
          by (auto simp: set_handler_def three_mask Let_def bit_simps)
      qed
    qed
  qed
  then show ?thesis by (simp add: get_handler_def three_mask)
qed

lemma get_handler_default: "get_handler handlers_default c = Cancel"
proof -
  have "handlers_default = 0"
    unfolding handlers_default_def by (simp add: handler_to_bits_def upt_rec)
  then show ?thesis by (simp add: get_handler_def bits_to_handler_def)
qed

lemmas handling_simps = do_all.simps ok_def fail_def and_do_def push_action_def try_value_def MAX_ACTIONS_PER_EVENT_def

end
