(* ===== verification/Cfdp_Pdu.thy ===== *)
theory Cfdp_Pdu
  imports Cfdp_Types Wire
begin

text \<open>
  CFDP protocol data units as bytes (\<open>crates/leodos-protocols/src/transport/cfdp/pdu/\<close>): the
  packed header with its variable part (\<open>header.rs\<close>, \<open>mod.rs\<close>), the TLV records (\<open>tlv/\<close>) and
  the views that \<open>Pdu::variant\<close> gives of the data field (\<open>file_directive/\<close>, \<open>file_data/\<close>), each
  with its accessors. A parsed PDU is the record of its header fields and the bytes behind them.
  \<open>u64\<close> values (identifiers, offsets, sizes) are natural numbers; \<open>be_nat\<close> and \<open>nat_be\<close> are
  their big-endian bytes, of any length up to eight.
\<close>

section \<open>Results and slices\<close>

definition rbind :: "'e + 'a \<Rightarrow> ('a \<Rightarrow> 'e + 'b) \<Rightarrow> 'e + 'b" where
  "rbind x f = (case x of Inl e \<Rightarrow> Inl e | Inr v \<Rightarrow> f v)"

definition ok_or :: "'a option \<Rightarrow> 'e \<Rightarrow> 'e + 'a" where
  "ok_or x e = (case x of None \<Rightarrow> Inl e | Some v \<Rightarrow> Inr v)"

definition ensure :: "bool \<Rightarrow> 'e \<Rightarrow> 'e + unit" where
  "ensure b e = (if b then Inr () else Inl e)"

text \<open>\<open>xs.get(a..b)\<close> and \<open>xs.get(a..)\<close>.\<close>

definition get_range :: "'a list \<Rightarrow> nat \<Rightarrow> nat \<Rightarrow> 'a list option" where
  "get_range xs a b = (if a \<le> b \<and> b \<le> length xs then Some (bslice xs a (b - a)) else None)"

definition get_from :: "'a list \<Rightarrow> nat \<Rightarrow> 'a list option" where
  "get_from xs a = (if a \<le> length xs then Some (drop a xs) else None)"

definition first_of :: "'a list \<Rightarrow> 'a option" where
  "first_of xs = (case xs of [] \<Rightarrow> None | x # _ \<Rightarrow> Some x)"

section \<open>Numbers at the start of a slice\<close>

text \<open>A 32- or 64-bit network-endian number at the start of a slice.\<close>

definition prefix_u32 :: "bytes \<Rightarrow> nat option" where
  "prefix_u32 bs = (if 4 \<le> length bs then Some (be_nat (take 4 bs)) else None)"

definition prefix_u64 :: "bytes \<Rightarrow> nat option" where
  "prefix_u64 bs = (if 8 \<le> length bs then Some (be_nat (take 8 bs)) else None)"

text \<open>The shift by 64 places in the last round wraps to a shift by none.\<close>

fun min_len_loop :: "nat \<Rightarrow> nat list \<Rightarrow> nat" where
  "min_len_loop v [] = 8"
| "min_len_loop v (len # lens) = (if v < 2 ^ ((len * 8) mod 64) then len else min_len_loop v lens)"

definition min_len :: "nat \<Rightarrow> nat" where
  "min_len v = min_len_loop v [1..<9]"

text \<open>Entity identifiers and transaction sequence numbers.\<close>

definition EntityId_from_bytes :: "bytes \<Rightarrow> CfdpError + EntityId" where
  "EntityId_from_bytes sl =
     (if sl = [] \<or> length sl > 8 then Inl (Custom ''Invalid Entity ID length'')
      else Inr (be_nat (blit (replicate 8 0) (8 - length sl) sl)))"

definition SeqNum_from_bytes :: "bytes \<Rightarrow> CfdpError + nat" where
  "SeqNum_from_bytes sl =
     (if sl = [] \<or> length sl > 8 then Inl (Custom ''Invalid Transaction Sequence Number length'')
      else Inr (be_nat (blit (replicate 8 0) (8 - length sl) sl)))"

definition SeqNum_increment :: "nat \<Rightarrow> nat" where
  "SeqNum_increment n = wrap64 (n + 1)"

definition write_to_slice :: "nat \<Rightarrow> bytes \<Rightarrow> CfdpError + bytes" where
  "write_to_slice val sl =
     (let len = length sl in
      if len = 0 \<or> len > 8 then Inl (Custom ''Invalid slice length for Entity ID'')
      else if len < min_len val then Inl (Custom ''Slice too small to represent Entity ID value'')
      else Inr (drop (8 - len) (nat_be 8 val)))"

section \<open>The fixed header\<close>

datatype PduType = FileDataType | FileDirectiveType
datatype PduDirection = TowardReceiver | TowardSender
datatype TransmissionMode = Acknowledged | Unacknowledged

record PduHeaderFixedPart =
  version_and_flags :: u8
  hdr_data_field_len :: u16
  lengths_and_metadata_flag :: u8

definition CFDP_VERSION_MASK :: u8 where "CFDP_VERSION_MASK = 0b11100000"
definition PDU_TYPE_MASK :: u8 where "PDU_TYPE_MASK = 0b00010000"
definition DIRECTION_MASK :: u8 where "DIRECTION_MASK = 0b00001000"
definition TX_MODE_MASK :: u8 where "TX_MODE_MASK = 0b00000100"
definition CRC_FLAG_MASK :: u8 where "CRC_FLAG_MASK = 0b00000010"
definition LARGE_FILE_FLAG_MASK :: u8 where "LARGE_FILE_FLAG_MASK = 0b00000001"
definition SEG_CTRL_MASK :: u8 where "SEG_CTRL_MASK = 0b10000000"
definition ENTITY_ID_LEN_MINUS_ONE_MASK :: u8 where "ENTITY_ID_LEN_MINUS_ONE_MASK = 0b01110000"
definition SEG_META_FLAG_MASK :: u8 where "SEG_META_FLAG_MASK = 0b00001000"
definition TXN_SEQ_NUM_LEN_MINUS_ONE_MASK :: u8 where "TXN_SEQ_NUM_LEN_MINUS_ONE_MASK = 0b00000111"

definition flag_is :: "u8 \<Rightarrow> u8 \<Rightarrow> bool" where
  "flag_is byte m \<longleftrightarrow> get_bits byte m = 1"

definition hdr_version :: "PduHeaderFixedPart \<Rightarrow> u8" where
  "hdr_version h = get_bits (version_and_flags h) CFDP_VERSION_MASK"

definition hdr_set_version :: "u8 \<Rightarrow> PduHeaderFixedPart \<Rightarrow> PduHeaderFixedPart" where
  "hdr_set_version v h = h\<lparr>version_and_flags := set_bits (version_and_flags h) CFDP_VERSION_MASK v\<rparr>"

definition pdu_type :: "PduHeaderFixedPart \<Rightarrow> PduType" where
  "pdu_type h = (if \<not> flag_is (version_and_flags h) PDU_TYPE_MASK then FileDataType else FileDirectiveType)"

definition set_pdu_type :: "PduType \<Rightarrow> PduHeaderFixedPart \<Rightarrow> PduHeaderFixedPart" where
  "set_pdu_type t h = h\<lparr>version_and_flags := set_bits (version_and_flags h) PDU_TYPE_MASK
     (case t of FileDataType \<Rightarrow> 0 | FileDirectiveType \<Rightarrow> 1)\<rparr>"

definition hdr_direction :: "PduHeaderFixedPart \<Rightarrow> PduDirection" where
  "hdr_direction h = (if \<not> flag_is (version_and_flags h) DIRECTION_MASK then TowardReceiver else TowardSender)"

definition set_direction :: "PduDirection \<Rightarrow> PduHeaderFixedPart \<Rightarrow> PduHeaderFixedPart" where
  "set_direction d h = h\<lparr>version_and_flags := set_bits (version_and_flags h) DIRECTION_MASK
     (case d of TowardReceiver \<Rightarrow> 0 | TowardSender \<Rightarrow> 1)\<rparr>"

definition tx_mode :: "PduHeaderFixedPart \<Rightarrow> TransmissionMode" where
  "tx_mode h = (if \<not> flag_is (version_and_flags h) TX_MODE_MASK then Acknowledged else Unacknowledged)"

definition set_tx_mode :: "TransmissionMode \<Rightarrow> PduHeaderFixedPart \<Rightarrow> PduHeaderFixedPart" where
  "set_tx_mode t h = h\<lparr>version_and_flags := set_bits (version_and_flags h) TX_MODE_MASK
     (case t of Acknowledged \<Rightarrow> 0 | Unacknowledged \<Rightarrow> 1)\<rparr>"

definition crc_flag :: "PduHeaderFixedPart \<Rightarrow> bool" where
  "crc_flag h \<longleftrightarrow> flag_is (version_and_flags h) CRC_FLAG_MASK"

definition set_crc_flag :: "bool \<Rightarrow> PduHeaderFixedPart \<Rightarrow> PduHeaderFixedPart" where
  "set_crc_flag b h = h\<lparr>version_and_flags := set_bits (version_and_flags h) CRC_FLAG_MASK (if b then 1 else 0)\<rparr>"

definition large_file_flag :: "PduHeaderFixedPart \<Rightarrow> bool" where
  "large_file_flag h \<longleftrightarrow> flag_is (version_and_flags h) LARGE_FILE_FLAG_MASK"

definition set_large_file_flag :: "bool \<Rightarrow> PduHeaderFixedPart \<Rightarrow> PduHeaderFixedPart" where
  "set_large_file_flag b h = h\<lparr>version_and_flags := set_bits (version_and_flags h) LARGE_FILE_FLAG_MASK (if b then 1 else 0)\<rparr>"

definition pdu_data_field_len :: "PduHeaderFixedPart \<Rightarrow> nat" where
  "pdu_data_field_len h = unat (hdr_data_field_len h)"

definition set_pdu_data_field_len :: "u16 \<Rightarrow> PduHeaderFixedPart \<Rightarrow> PduHeaderFixedPart" where
  "set_pdu_data_field_len len h = h\<lparr>hdr_data_field_len := len\<rparr>"

definition segmentation_control :: "PduHeaderFixedPart \<Rightarrow> bool" where
  "segmentation_control h \<longleftrightarrow> flag_is (lengths_and_metadata_flag h) SEG_CTRL_MASK"

definition set_segmentation_control :: "bool \<Rightarrow> PduHeaderFixedPart \<Rightarrow> PduHeaderFixedPart" where
  "set_segmentation_control b h =
     h\<lparr>lengths_and_metadata_flag := set_bits (lengths_and_metadata_flag h) SEG_CTRL_MASK (if b then 1 else 0)\<rparr>"

definition entity_id_len :: "PduHeaderFixedPart \<Rightarrow> nat" where
  "entity_id_len h = unat (get_bits (lengths_and_metadata_flag h) ENTITY_ID_LEN_MINUS_ONE_MASK) + 1"

definition set_entity_id_len :: "nat \<Rightarrow> PduHeaderFixedPart \<Rightarrow> CfdpError + PduHeaderFixedPart" where
  "set_entity_id_len len h =
     (if len = 0 \<or> len > 8 then Inl (Custom ''Entity ID length must be between 1 and 8'')
      else Inr (h\<lparr>lengths_and_metadata_flag :=
             set_bits (lengths_and_metadata_flag h) ENTITY_ID_LEN_MINUS_ONE_MASK (of_nat len - 1)\<rparr>))"

definition segment_metadata_flag :: "PduHeaderFixedPart \<Rightarrow> bool" where
  "segment_metadata_flag h \<longleftrightarrow> flag_is (lengths_and_metadata_flag h) SEG_META_FLAG_MASK"

definition set_segment_metadata_flag :: "bool \<Rightarrow> PduHeaderFixedPart \<Rightarrow> PduHeaderFixedPart" where
  "set_segment_metadata_flag b h =
     h\<lparr>lengths_and_metadata_flag := set_bits (lengths_and_metadata_flag h) SEG_META_FLAG_MASK (if b then 1 else 0)\<rparr>"

definition txn_seq_num_len :: "PduHeaderFixedPart \<Rightarrow> nat" where
  "txn_seq_num_len h = unat (get_bits (lengths_and_metadata_flag h) TXN_SEQ_NUM_LEN_MINUS_ONE_MASK) + 1"

definition set_txn_seq_num_len :: "nat \<Rightarrow> PduHeaderFixedPart \<Rightarrow> CfdpError + PduHeaderFixedPart" where
  "set_txn_seq_num_len len h =
     (if len = 0 \<or> len > 8 then Inl (Custom ''Transaction Sequence Number length must be between 1 and 8'')
      else Inr (h\<lparr>lengths_and_metadata_flag :=
             set_bits (lengths_and_metadata_flag h) TXN_SEQ_NUM_LEN_MINUS_ONE_MASK (of_nat len - 1)\<rparr>))"

definition fixed_header_len :: nat where "fixed_header_len = 4"

definition variable_header_len :: "PduHeaderFixedPart \<Rightarrow> nat" where
  "variable_header_len h = entity_id_len h * 2 + txn_seq_num_len h"

definition total_header_len :: "PduHeaderFixedPart \<Rightarrow> nat" where
  "total_header_len h = fixed_header_len + variable_header_len h"

definition total_pdu_len :: "PduHeaderFixedPart \<Rightarrow> nat" where
  "total_pdu_len h = total_header_len h + pdu_data_field_len h"

definition header_new ::
  "u8 \<Rightarrow> PduType \<Rightarrow> PduDirection \<Rightarrow> TransmissionMode \<Rightarrow> bool \<Rightarrow> bool \<Rightarrow> u16 \<Rightarrow> bool \<Rightarrow> bool \<Rightarrow> CfdpError + PduHeaderFixedPart" where
  "header_new ver ptype dir mode crc large len seg_ctrl seg_meta =
     (let h0 = \<lparr>version_and_flags = 0, hdr_data_field_len = 0, lengths_and_metadata_flag = 0\<rparr>;
          h = set_segment_metadata_flag seg_meta (set_segmentation_control seg_ctrl (set_pdu_data_field_len len
                (set_large_file_flag large (set_crc_flag crc (set_tx_mode mode (set_direction dir
                  (set_pdu_type ptype (hdr_set_version ver h0))))))))
      in rbind (set_entity_id_len 1 h) (\<lambda>h. set_txn_seq_num_len 1 h))"

section \<open>PDUs\<close>

record Pdu =
  header_fixed :: PduHeaderFixedPart
  pdu_rest :: bytes

text \<open>The bytes of the fixed header and back.\<close>

definition header_bytes :: "PduHeaderFixedPart \<Rightarrow> bytes" where
  "header_bytes h = version_and_flags h # be16_of (hdr_data_field_len h) @ [lengths_and_metadata_flag h]"

fun header_of :: "bytes \<Rightarrow> PduHeaderFixedPart option" where
  "header_of (a # b # c # d # _) =
     Some \<lparr>version_and_flags = a, hdr_data_field_len = be16_to b c, lengths_and_metadata_flag = d\<rparr>"
| "header_of _ = None"

definition pdu_bytes :: "Pdu \<Rightarrow> bytes" where
  "pdu_bytes p = header_bytes (header_fixed p) @ pdu_rest p"

definition pdu_from_bytes :: "bytes \<Rightarrow> CfdpError + Pdu" where
  "pdu_from_bytes buffer =
     rbind (ok_or (header_of buffer) (Custom ''Failed to parse PDU header fixed part'')) (\<lambda>h.
     if length buffer < total_pdu_len h then Inl (Custom ''Buffer too small for complete PDU'')
     else Inr \<lparr>header_fixed = h, pdu_rest = drop 4 (take (total_pdu_len h) buffer)\<rparr>)"

definition pdu_from_bytes_mut :: "bytes \<Rightarrow> CfdpError + Pdu" where
  "pdu_from_bytes_mut buffer =
     rbind (ok_or (header_of buffer) (BufferTooSmall 4 (length buffer))) (\<lambda>h.
     if length buffer < total_pdu_len h then Inl (BufferTooSmall (total_pdu_len h) (length buffer))
     else Inr \<lparr>header_fixed = h, pdu_rest = drop 4 (take (total_pdu_len h) buffer)\<rparr>)"

definition variable_header :: "Pdu \<Rightarrow> CfdpError + bytes" where
  "variable_header p = ok_or (get_range (pdu_rest p) 0 (variable_header_len (header_fixed p)))
     (Custom ''Invalid variable header slice'')"

definition source_entity_id :: "Pdu \<Rightarrow> CfdpError + EntityId" where
  "source_entity_id p =
     rbind (ok_or (get_range (pdu_rest p) 0 (entity_id_len (header_fixed p)))
              (Custom ''Invalid source entity ID slice'')) EntityId_from_bytes"

definition transaction_seq_num :: "Pdu \<Rightarrow> CfdpError + nat" where
  "transaction_seq_num p =
     (let off = entity_id_len (header_fixed p) in
      rbind (variable_header p) (\<lambda>v.
      rbind (ok_or (get_range v off (off + txn_seq_num_len (header_fixed p)))
               (Custom ''Invalid transaction sequence number slice'')) SeqNum_from_bytes))"

text \<open>The setters write into the variable header in place.\<close>

definition set_in_header :: "nat \<Rightarrow> nat \<Rightarrow> string \<Rightarrow> nat \<Rightarrow> Pdu \<Rightarrow> CfdpError + Pdu" where
  "set_in_header off len err val p =
     rbind (variable_header p) (\<lambda>v.
     rbind (ok_or (get_range v off (off + len)) (Custom err)) (\<lambda>sl.
     rbind (write_to_slice val sl) (\<lambda>new. Inr (p\<lparr>pdu_rest := blit (pdu_rest p) off new\<rparr>))))"

definition set_source_entity_id :: "EntityId \<Rightarrow> Pdu \<Rightarrow> CfdpError + Pdu" where
  "set_source_entity_id val p =
     set_in_header 0 (entity_id_len (header_fixed p)) ''Invalid slice for source ID'' val p"

definition set_transaction_seq_num :: "nat \<Rightarrow> Pdu \<Rightarrow> CfdpError + Pdu" where
  "set_transaction_seq_num val p =
     set_in_header (entity_id_len (header_fixed p)) (txn_seq_num_len (header_fixed p)) ''Invalid slice for seq num'' val p"

definition set_destination_entity_id :: "EntityId \<Rightarrow> Pdu \<Rightarrow> CfdpError + Pdu" where
  "set_destination_entity_id val p =
     set_in_header (entity_id_len (header_fixed p) + txn_seq_num_len (header_fixed p))
       (entity_id_len (header_fixed p)) ''Invalid slice for dest ID'' val p"

definition data_field :: "Pdu \<Rightarrow> CfdpError + bytes" where
  "data_field p = ok_or (get_from (pdu_rest p) (variable_header_len (header_fixed p))) (Custom ''Invalid data field slice'')"

definition pdu_new :: "bytes \<Rightarrow> PduHeaderFixedPart \<Rightarrow> EntityId \<Rightarrow> EntityId \<Rightarrow> nat \<Rightarrow> CfdpError + Pdu" where
  "pdu_new buffer hdr src dst sn =
     rbind (pdu_from_bytes_mut buffer) (\<lambda>p.
     rbind (set_entity_id_len (max (min_len src) (min_len dst)) hdr) (\<lambda>h.
     rbind (set_txn_seq_num_len (min_len sn) h) (\<lambda>h.
     rbind (set_source_entity_id src (p\<lparr>header_fixed := h\<rparr>)) (\<lambda>p.
     rbind (set_transaction_seq_num sn p) (\<lambda>p.
     set_destination_entity_id dst p)))))"

section \<open>Laws of numbers\<close>

lemma rbind_simps [simp]:
  "rbind (Inl e) f = Inl e" "rbind (Inr v) f = f v"
  by (simp_all add: rbind_def)

lemma rbind_Inr_iff: "rbind x f = Inr b \<longleftrightarrow> (\<exists>a. x = Inr a \<and> f a = Inr b)"
  by (cases x) simp_all

lemma ok_or_simps [simp]: "ok_or (Some v) e = Inr v" "ok_or None e = Inl e" "ok_or x e = Inr v \<longleftrightarrow> x = Some v"
  by (simp_all add: ok_or_def split: option.splits)

lemma min_len_bounds: "1 \<le> min_len v" "min_len v \<le> 8"
  by (simp_all add: min_len_def upt_rec)

lemma min_len_fits: "v < 2 ^ 64 \<Longrightarrow> v < 256 ^ min_len v"
  by (simp add: min_len_def upt_rec)

lemma min_len_fits_le:
  assumes "v < 2 ^ 64" "min_len v \<le> k"
  shows "v < 256 ^ k"
  by (rule less_le_trans [OF min_len_fits [OF assms(1)] power_increasing [OF assms(2)]]) simp

section \<open>Laws of the header\<close>

lemmas cfdp_masks = CFDP_VERSION_MASK_def PDU_TYPE_MASK_def DIRECTION_MASK_def TX_MODE_MASK_def CRC_FLAG_MASK_def
  LARGE_FILE_FLAG_MASK_def SEG_CTRL_MASK_def ENTITY_ID_LEN_MINUS_ONE_MASK_def SEG_META_FLAG_MASK_def
  TXN_SEQ_NUM_LEN_MINUS_ONE_MASK_def

interpretation h_type: bit_field PDU_TYPE_MASK 4 1
  by unfold_locales (simp_all add: cfdp_masks mask_eq_exp_minus_1 push_bit_eq_mult)
interpretation h_dir: bit_field DIRECTION_MASK 3 1
  by unfold_locales (simp_all add: cfdp_masks mask_eq_exp_minus_1 push_bit_eq_mult)
interpretation h_mode: bit_field TX_MODE_MASK 2 1
  by unfold_locales (simp_all add: cfdp_masks mask_eq_exp_minus_1 push_bit_eq_mult)
interpretation h_crc: bit_field CRC_FLAG_MASK 1 1
  by unfold_locales (simp_all add: cfdp_masks mask_eq_exp_minus_1 push_bit_eq_mult)
interpretation h_large: bit_field LARGE_FILE_FLAG_MASK 0 1
  by unfold_locales (simp_all add: cfdp_masks mask_eq_exp_minus_1 push_bit_eq_mult)
interpretation h_eid: bit_field ENTITY_ID_LEN_MINUS_ONE_MASK 4 3
  by unfold_locales (simp_all add: cfdp_masks mask_eq_exp_minus_1 push_bit_eq_mult)
interpretation h_segm: bit_field SEG_META_FLAG_MASK 3 1
  by unfold_locales (simp_all add: cfdp_masks mask_eq_exp_minus_1 push_bit_eq_mult)
interpretation h_seq: bit_field TXN_SEQ_NUM_LEN_MINUS_ONE_MASK 0 3
  by unfold_locales (simp_all add: cfdp_masks mask_eq_exp_minus_1 push_bit_eq_mult)

lemma len_field:
  assumes "1 \<le> len" "len \<le> 8"
  shows "take_bit 3 (of_nat len - 1 :: u8) = of_nat len - 1" "unat (of_nat len - 1 :: u8) + 1 = len"
proof -
  have "(of_nat len - 1 :: u8) = of_nat (len - 1)" using assms by simp
  moreover have "unat (of_nat (len - 1) :: u8) = len - 1"
    unfolding unat_of_nat using assms by (intro mod_less) simp
  ultimately have u: "unat (of_nat len - 1 :: u8) = len - 1" by metis
  then show "unat (of_nat len - 1 :: u8) + 1 = len" using assms by simp
  show "take_bit 3 (of_nat len - 1 :: u8) = of_nat len - 1" by (rule take_bit_word_fits) (use u assms in simp)
qed

text \<open>The two lengths written by \<open>Pdu::new\<close>.\<close>

lemma set_lens:
  assumes "set_entity_id_len e h = Inr h1" "set_txn_seq_num_len s h1 = Inr h2"
  shows "entity_id_len h2 = e" "txn_seq_num_len h2 = s" "version_and_flags h2 = version_and_flags h"
    "hdr_data_field_len h2 = hdr_data_field_len h" "segment_metadata_flag h2 = segment_metadata_flag h"
    "1 \<le> e" "e \<le> 8" "1 \<le> s" "s \<le> 8"
proof -
  show e: "1 \<le> e" "e \<le> 8" and s: "1 \<le> s" "s \<le> 8"
    using assms by (auto simp: set_entity_id_len_def set_txn_seq_num_len_def split: if_splits)
  have h1: "h1 = h\<lparr>lengths_and_metadata_flag := set_bits (lengths_and_metadata_flag h) ENTITY_ID_LEN_MINUS_ONE_MASK (of_nat e - 1)\<rparr>"
    using assms(1) by (auto simp: set_entity_id_len_def split: if_splits)
  have h2: "h2 = h1\<lparr>lengths_and_metadata_flag := set_bits (lengths_and_metadata_flag h1) TXN_SEQ_NUM_LEN_MINUS_ONE_MASK (of_nat s - 1)\<rparr>"
    using assms(2) by (auto simp: set_txn_seq_num_len_def split: if_splits)
  show "version_and_flags h2 = version_and_flags h" "hdr_data_field_len h2 = hdr_data_field_len h"
    by (simp_all add: h1 h2)
  show "txn_seq_num_len h2 = s" using len_field [OF s]
    by (simp add: txn_seq_num_len_def h2 h_seq.get_set_fits)
  show "entity_id_len h2 = e" using len_field [OF e] len_field [OF s]
    by (simp add: entity_id_len_def h2 h1 h_seq.get_above [OF h_eid.bit_field_axioms] h_eid.get_set_fits)
  show "segment_metadata_flag h2 = segment_metadata_flag h" using len_field [OF s]
    by (simp add: segment_metadata_flag_def flag_is_def h2 h1 h_seq.get_above [OF h_segm.bit_field_axioms]
        h_eid.get_below [OF h_segm.bit_field_axioms])
qed

lemma set_lens_ok:
  assumes "1 \<le> e" "e \<le> 8" "1 \<le> s" "s \<le> 8"
  shows "\<exists>h1 h2. set_entity_id_len e h = Inr h1 \<and> set_txn_seq_num_len s h1 = Inr h2"
  using assms by (simp add: set_entity_id_len_def set_txn_seq_num_len_def)

section \<open>Laws of PDUs\<close>

lemma variable_header_Inr: "variable_header p = Inr v \<longleftrightarrow>
  variable_header_len (header_fixed p) \<le> length (pdu_rest p) \<and> v = take (variable_header_len (header_fixed p)) (pdu_rest p)"
  by (auto simp: variable_header_def get_range_def bslice_def)

lemma set_in_header_shape:
  assumes "set_in_header off len err val p = Inr p'"
  shows "header_fixed p' = header_fixed p" "length (pdu_rest p') = length (pdu_rest p)"
    "variable_header_len (header_fixed p) \<le> length (pdu_rest p)"
proof -
  obtain v sl new where v: "variable_header p = Inr v" "get_range v off (off + len) = Some sl"
    "write_to_slice val sl = Inr new" "p' = p\<lparr>pdu_rest := blit (pdu_rest p) off new\<rparr>"
    using assms by (auto simp: set_in_header_def rbind_Inr_iff)
  have sl: "off + len \<le> length v" "length sl = len" using v(2) by (auto simp: get_range_def split: if_splits)
  have "length new = len" using v(3) sl(2) by (auto simp: write_to_slice_def Let_def split: if_splits)
  moreover show vl: "variable_header_len (header_fixed p) \<le> length (pdu_rest p)" using v(1) by (simp add: variable_header_Inr)
  then have "length v \<le> length (pdu_rest p)" using v(1) by (simp add: variable_header_Inr)
  ultimately show "length (pdu_rest p') = length (pdu_rest p)" using sl(1) v(4) by simp
  show "header_fixed p' = header_fixed p" using v(4) by simp
qed

lemma set_in_header_ok:
  assumes "variable_header_len (header_fixed p) \<le> length (pdu_rest p)" "off + len \<le> variable_header_len (header_fixed p)"
    "1 \<le> len" "len \<le> 8" "min_len val \<le> len"
  shows "set_in_header off len err val p = Inr (p\<lparr>pdu_rest := blit (pdu_rest p) off (nat_be len val)\<rparr>)"
proof -
  let ?v = "take (variable_header_len (header_fixed p)) (pdu_rest p)"
  have v: "variable_header p = Inr ?v" using assms(1) by (simp add: variable_header_Inr)
  have g: "get_range ?v off (off + len) = Some (bslice ?v off len)" using assms(1,2) by (simp add: get_range_def)
  have "write_to_slice val (bslice ?v off len) = Inr (nat_be len val)"
    using assms by (simp add: write_to_slice_def Let_def drop_nat_be)
  then show ?thesis using v g by (simp add: set_in_header_def)
qed

text \<open>What a built PDU has of the buffer: the length announced by the header found in it.\<close>

lemma pdu_new_shape:
  assumes "pdu_new buffer hdr src dst sn = Inr p"
  obtains old where "header_of buffer = Some old" "total_pdu_len old \<le> length buffer"
    "length (pdu_rest p) = total_pdu_len old - 4" "variable_header_len (header_fixed p) \<le> length (pdu_rest p)"
    "variable_header_len (header_fixed p) = 2 * max (min_len src) (min_len dst) + min_len sn"
    "version_and_flags (header_fixed p) = version_and_flags hdr"
    "hdr_data_field_len (header_fixed p) = hdr_data_field_len hdr"
proof -
  let ?e = "max (min_len src) (min_len dst)"
  obtain p0 h1 h2 p1 p2 where s: "pdu_from_bytes_mut buffer = Inr p0" "set_entity_id_len ?e hdr = Inr h1"
    "set_txn_seq_num_len (min_len sn) h1 = Inr h2" "set_source_entity_id src (p0\<lparr>header_fixed := h2\<rparr>) = Inr p1"
    "set_transaction_seq_num sn p1 = Inr p2" "set_destination_entity_id dst p2 = Inr p"
    using assms by (auto simp: pdu_new_def rbind_Inr_iff)
  obtain old where old: "header_of buffer = Some old" "total_pdu_len old \<le> length buffer"
    "p0 = \<lparr>header_fixed = old, pdu_rest = drop 4 (take (total_pdu_len old) buffer)\<rparr>"
    using s(1) by (auto simp: pdu_from_bytes_mut_def rbind_Inr_iff not_less split: if_splits)
  note shape = set_in_header_shape [OF s(4) [unfolded set_source_entity_id_def]]
    set_in_header_shape [OF s(5) [unfolded set_transaction_seq_num_def]]
    set_in_header_shape [OF s(6) [unfolded set_destination_entity_id_def]]
  note lens = set_lens [OF s(2,3)]
  have h: "header_fixed p = h2" using shape by simp
  show thesis
  proof (rule that [OF old(1,2)])
    show "length (pdu_rest p) = total_pdu_len old - 4" using shape old by simp
    show "variable_header_len (header_fixed p) \<le> length (pdu_rest p)" using shape by simp
    show "variable_header_len (header_fixed p) = 2 * ?e + min_len sn"
      unfolding h variable_header_len_def lens(1,2) by simp
  qed (use h lens in simp_all)
qed

lemma blit_three:
  assumes "2 * length a + length b \<le> length rest" "length c = length a"
  shows "blit (blit (blit rest 0 a) (length a) b) (length a + length b) c = a @ b @ c @ drop (2 * length a + length b) rest"
proof -
  have 1: "blit rest 0 a = a @ drop (length a) rest" by (simp add: blit_def)
  have 2: "blit (blit rest 0 a) (length a) b = (a @ b) @ drop (length a + length b) rest"
    unfolding 1 by (simp add: blit_def add.commute)
  show ?thesis unfolding 2 blit_def using assms by (simp add: mult_2 add.commute add.left_commute)
qed

text \<open>On a buffer with room for the variable header, the identifiers are written one after the other.\<close>

lemma pdu_new_ok:
  fixes src dst sn :: nat
  defines "e \<equiv> max (min_len src) (min_len dst)"
  assumes "header_of buffer = Some old" "total_pdu_len old \<le> length buffer" "4 + (2 * e + min_len sn) \<le> total_pdu_len old"
  obtains p where "pdu_new buffer hdr src dst sn = Inr p"
    "pdu_rest p = nat_be e src @ nat_be (min_len sn) sn @ nat_be e dst
       @ drop (4 + (2 * e + min_len sn)) (take (total_pdu_len old) buffer)"
    "version_and_flags (header_fixed p) = version_and_flags hdr" "hdr_data_field_len (header_fixed p) = hdr_data_field_len hdr"
    "segment_metadata_flag (header_fixed p) = segment_metadata_flag hdr"
    "entity_id_len (header_fixed p) = e" "txn_seq_num_len (header_fixed p) = min_len sn"
proof -
  let ?s = "min_len sn" let ?rest = "drop 4 (take (total_pdu_len old) buffer)"
  have e: "1 \<le> e" "e \<le> 8" "1 \<le> ?s" "?s \<le> 8" "min_len src \<le> e" "min_len dst \<le> e"
    using min_len_bounds [of src] min_len_bounds [of dst] min_len_bounds [of sn] by (auto simp: e_def)
  obtain h1 h2 where s: "set_entity_id_len e hdr = Inr h1" "set_txn_seq_num_len ?s h1 = Inr h2"
    using set_lens_ok [OF e(1-4), of hdr] by auto
  note lens = set_lens [OF s]
  let ?r1 = "blit ?rest 0 (nat_be e src)" let ?r2 = "blit ?r1 e (nat_be ?s sn)" let ?r3 = "blit ?r2 (e + ?s) (nat_be e dst)"
  have len: "2 * e + ?s \<le> length ?rest" using assms(3,4) by simp
  have vl: "variable_header_len h2 = 2 * e + ?s" by (simp add: variable_header_len_def lens)
  have l1: "length ?r1 = length ?rest" "length ?r2 = length ?rest" using len by simp_all
  let ?p = "\<lparr>header_fixed = h2, pdu_rest = ?r3\<rparr>"
  show thesis
  proof (rule that [of ?p])
    show "pdu_new buffer hdr src dst sn = Inr ?p"
      using s assms(2,3) e len l1 vl lens(1,2)
      by (simp add: pdu_new_def pdu_from_bytes_mut_def set_source_entity_id_def set_transaction_seq_num_def
          set_destination_entity_id_def set_in_header_ok flip: e_def)
    show "pdu_rest ?p = nat_be e src @ nat_be ?s sn @ nat_be e dst @ drop (4 + (2 * e + ?s)) (take (total_pdu_len old) buffer)"
      using blit_three [of "nat_be e src" "nat_be ?s sn" ?rest "nat_be e dst"] len by (simp add: add.commute)
  qed (simp_all add: lens)
qed

lemma header_of_bytes [simp]: "header_of (header_bytes h @ rest) = Some h"
  by (simp add: header_bytes_def be16_of_def)

lemma length_header_bytes [simp]: "length (header_bytes h) = 4"
  by (simp add: header_bytes_def)

text \<open>A PDU whose rest has the announced length is read back from its bytes, followed by anything.\<close>

lemma pdu_from_bytes_bytes:
  assumes "length (pdu_rest p) = variable_header_len (header_fixed p) + pdu_data_field_len (header_fixed p)"
  shows "pdu_from_bytes (pdu_bytes p @ tail) = Inr p"
proof -
  have "total_pdu_len (header_fixed p) = length (pdu_bytes p)"
    using assms by (simp add: pdu_bytes_def total_pdu_len_def total_header_len_def fixed_header_len_def)
  moreover have "header_of (pdu_bytes p @ tail) = Some (header_fixed p)"
    unfolding pdu_bytes_def append_assoc by (rule header_of_bytes)
  ultimately show ?thesis by (simp add: pdu_from_bytes_def) (simp add: pdu_bytes_def)
qed

lemma source_entity_id_read:
  assumes "pdu_rest p = nat_be (entity_id_len (header_fixed p)) src @ tail" "entity_id_len (header_fixed p) \<le> 8"
    "src < 256 ^ entity_id_len (header_fixed p)"
  shows "source_entity_id p = Inr src"
proof -
  let ?e = "entity_id_len (header_fixed p)"
  have "get_range (pdu_rest p) 0 ?e = Some (nat_be ?e src)" by (simp add: assms(1) get_range_def bslice_def)
  moreover have "nat_be ?e src \<noteq> []" using length_nat_be [of ?e src] by (auto simp: entity_id_len_def)
  ultimately show ?thesis
    using right_aligned [of "nat_be ?e src"] assms(2,3)
    by (simp add: source_entity_id_def EntityId_from_bytes_def be_nat_nat_be)
qed

lemma transaction_seq_num_read:
  assumes "pdu_rest p = a @ nat_be (txn_seq_num_len (header_fixed p)) sn @ tail" "length a = entity_id_len (header_fixed p)"
    "txn_seq_num_len (header_fixed p) \<le> 8" "sn < 256 ^ txn_seq_num_len (header_fixed p)"
    "variable_header_len (header_fixed p) \<le> length (pdu_rest p)"
  shows "transaction_seq_num p = Inr sn"
proof -
  let ?e = "entity_id_len (header_fixed p)" let ?s = "txn_seq_num_len (header_fixed p)"
  let ?v = "take (variable_header_len (header_fixed p)) (pdu_rest p)"
  have "variable_header p = Inr ?v" using assms(5) by (simp add: variable_header_Inr)
  moreover have "get_range ?v ?e (?e + ?s) = Some (nat_be ?s sn)"
    using assms(1,2,5) by (simp add: get_range_def bslice_def variable_header_len_def take_Cons' flip: assms(2))
  moreover have "nat_be ?s sn \<noteq> []" using length_nat_be [of ?s sn] by (auto simp: txn_seq_num_len_def)
  ultimately show ?thesis
    using right_aligned [of "nat_be ?s sn"] assms(3,4)
    by (simp add: transaction_seq_num_def SeqNum_from_bytes_def be_nat_nat_be)
qed

lemma data_field_Inr: "data_field p = Inr d \<longleftrightarrow>
  variable_header_len (header_fixed p) \<le> length (pdu_rest p) \<and> d = drop (variable_header_len (header_fixed p)) (pdu_rest p)"
  by (auto simp: data_field_def get_from_def)

text \<open>The fields that a fresh header holds.\<close>

lemma header_new_fields:
  obtains h where "header_new 1 ty dir mode crc large dlen seg_ctrl seg_meta = Inr h"
    "pdu_type h = ty" "large_file_flag h = large" "hdr_data_field_len h = dlen" "segment_metadata_flag h = seg_meta"
proof -
  define h where "h = set_segment_metadata_flag seg_meta (set_segmentation_control seg_ctrl (set_pdu_data_field_len dlen
                (set_large_file_flag large (set_crc_flag crc (set_tx_mode mode (set_direction dir
                  (set_pdu_type ty (hdr_set_version 1 \<lparr>version_and_flags = 0, hdr_data_field_len = 0, lengths_and_metadata_flag = 0\<rparr>))))))))"
  obtain h1 h2 where s: "set_entity_id_len 1 h = Inr h1" "set_txn_seq_num_len 1 h1 = Inr h2"
    using set_lens_ok [of 1 1 h] by auto
  note lens = set_lens [OF s]
  have bit: "take_bit 1 (if b then 1 else 0 :: u8) = (if b then 1 else 0)" for b by simp
  show thesis
  proof (rule that [of h2])
    show "header_new 1 ty dir mode crc large dlen seg_ctrl seg_meta = Inr h2"
      using s by (simp add: header_new_def Let_def flip: h_def)
    show "hdr_data_field_len h2 = dlen" unfolding lens(4)
      by (simp add: h_def set_segment_metadata_flag_def set_segmentation_control_def set_pdu_data_field_len_def)
    show "segment_metadata_flag h2 = seg_meta" unfolding lens(5)
      by (simp add: h_def segment_metadata_flag_def flag_is_def set_segment_metadata_flag_def h_segm.get_set_fits)
    show "large_file_flag h2 = large"
      by (simp add: large_file_flag_def flag_is_def lens(3) h_def set_segment_metadata_flag_def set_segmentation_control_def
          set_pdu_data_field_len_def set_large_file_flag_def h_large.get_set_fits)
    have "get_bits (version_and_flags h2) PDU_TYPE_MASK = (case ty of FileDataType \<Rightarrow> 0 | FileDirectiveType \<Rightarrow> 1)"
      by (cases ty; cases dir; cases mode)
        (simp_all add: lens(3) h_def set_segment_metadata_flag_def set_segmentation_control_def set_pdu_data_field_len_def
          set_large_file_flag_def set_crc_flag_def set_tx_mode_def set_direction_def set_pdu_type_def
          h_large.get_above [OF h_type.bit_field_axioms] h_crc.get_above [OF h_type.bit_field_axioms]
          h_mode.get_above [OF h_type.bit_field_axioms] h_dir.get_above [OF h_type.bit_field_axioms] h_type.get_set_fits)
    then show "pdu_type h2 = ty" by (simp add: pdu_type_def flag_is_def split: PduType.splits)
  qed
qed

end
