(* ===== verification/Cfdp_Directives.thy ===== *)
theory Cfdp_Directives
  imports Cfdp_Pdu
begin

text \<open>
  The data fields of CFDP PDUs: TLV records and their iterator (\<open>pdu/tlv/\<close>), the seven file
  directives and the file data PDU (\<open>pdu/file_directive/\<close>, \<open>pdu/file_data/\<close>) as the views the
  sources cast the bytes to, their accessors, and \<open>Pdu::variant\<close>, which picks the view.
\<close>

section \<open>TLV records\<close>

record Tlv =
  tlv_type_byte :: u8
  tlv_length :: u8
  tlv_value :: bytes

datatype TlvType = FilestoreRequestTlv | FilestoreResponseTlv | MessageToUserTlv | FaultHandlerOverrideTlv
  | FlowLabelTlv | EntityIdTlv

definition TlvType_try_from :: "u8 \<Rightarrow> CfdpError + TlvType" where
  "TlvType_try_from b =
     (if b = 0 then Inr FilestoreRequestTlv else if b = 1 then Inr FilestoreResponseTlv
      else if b = 2 then Inr MessageToUserTlv else if b = 4 then Inr FaultHandlerOverrideTlv
      else if b = 5 then Inr FlowLabelTlv else if b = 6 then Inr EntityIdTlv
      else Inl (Custom ''Unknown TLV type''))"

definition TlvType_value :: "TlvType \<Rightarrow> u8" where
  "TlvType_value t = (case t of FilestoreRequestTlv \<Rightarrow> 0 | FilestoreResponseTlv \<Rightarrow> 1 | MessageToUserTlv \<Rightarrow> 2
     | FaultHandlerOverrideTlv \<Rightarrow> 4 | FlowLabelTlv \<Rightarrow> 5 | EntityIdTlv \<Rightarrow> 6)"

definition tlv_type :: "Tlv \<Rightarrow> CfdpError + TlvType" where
  "tlv_type t = TlvType_try_from (tlv_type_byte t)"

text \<open>The records the iterator yields: it stops at the first one that is cut off.\<close>

function tlv_records :: "bytes \<Rightarrow> Tlv list" where
  "tlv_records (t # l # rest) =
     (if length rest < unat l then []
      else \<lparr>tlv_type_byte = t, tlv_length = l, tlv_value = take (unat l) rest\<rparr> # tlv_records (drop (unat l) rest))"
| "tlv_records [t] = []"
| "tlv_records [] = []"
  by pat_completeness auto
termination by (relation "measure length") auto

datatype FilestoreAction = CreateFile | DeleteFile | RenameFile | AppendFile | ReplaceFile | CreateDirectory
  | RemoveDirectory | DenyFile | DenyDirectory

definition FilestoreAction_try_from :: "u8 \<Rightarrow> CfdpError + FilestoreAction" where
  "FilestoreAction_try_from v =
     (if v = 0 then Inr CreateFile else if v = 1 then Inr DeleteFile else if v = 2 then Inr RenameFile
      else if v = 3 then Inr AppendFile else if v = 4 then Inr ReplaceFile else if v = 5 then Inr CreateDirectory
      else if v = 6 then Inr RemoveDirectory else if v = 7 then Inr DenyFile else if v = 8 then Inr DenyDirectory
      else Inl (Custom ''Invalid FilestoreAction code''))"

text \<open>Filestore requests: an action in the high bits of the first octet and LV-coded names.\<close>

record FilestoreRequest =
  fsr_action :: FilestoreAction
  first_file_name :: FileId
  second_file_name :: "FileId option"

record FilestoreResponse =
  fsp_action :: FilestoreAction
  fsp_first :: FileId
  fsp_second :: FileId

record TlvFilestoreRequest =
  action_code_and_spare :: u8
  fs_rest :: bytes

definition ACTION_CODE_MASK :: u8 where "ACTION_CODE_MASK = 0b11110000"

definition request_from_tlv :: "Tlv \<Rightarrow> CfdpError + TlvFilestoreRequest" where
  "request_from_tlv t =
     (if unat (tlv_length t) < 1 then Inl (Custom ''Filestore Request TLV too short'')
      else case tlv_value t of [] \<Rightarrow> Inl (Custom ''Failed to parse Filestore Request TLV'')
           | b # rest \<Rightarrow> Inr \<lparr>action_code_and_spare = b, fs_rest = rest\<rparr>)"

definition request_action :: "TlvFilestoreRequest \<Rightarrow> CfdpError + FilestoreAction" where
  "request_action r = FilestoreAction_try_from (get_bits (action_code_and_spare r) ACTION_CODE_MASK)"

definition request_first_name :: "TlvFilestoreRequest \<Rightarrow> CfdpError + bytes" where
  "request_first_name r =
     rbind (ok_or (first_of (fs_rest r)) (Custom ''Missing first file name length'')) (\<lambda>len.
     ok_or (get_range (fs_rest r) 1 (1 + unat len)) (Custom ''Invalid first file name slice''))"

definition request_second_name :: "TlvFilestoreRequest \<Rightarrow> CfdpError + bytes option" where
  "request_second_name r =
     rbind (request_action r) (\<lambda>a.
     if a \<notin> {RenameFile, AppendFile, ReplaceFile} then Inr None
     else rbind (request_first_name r) (\<lambda>name.
          rbind (ok_or (get_from (fs_rest r) (1 + length name)) (Custom ''Invalid slice after first file name'')) (\<lambda>rem.
          rbind (ok_or (first_of rem) (Custom ''Missing second file name length'')) (\<lambda>len.
          rbind (ok_or (get_range rem 1 (1 + unat len)) (Custom ''Invalid second file name slice'')) (\<lambda>name.
          Inr (Some name))))))"

text \<open>
  Filestore responses: action and status code in one octet, the names and a message. The second
  name is cut off with \<open>split_at\<close>, which panics when its length runs past the end.
\<close>

record TlvFilestoreResponse =
  action_and_status_code :: u8
  resp_rest :: bytes

definition STATUS_CODE_MASK :: u8 where "STATUS_CODE_MASK = 0b00001111"

definition response_action :: "TlvFilestoreResponse \<Rightarrow> CfdpError + FilestoreAction" where
  "response_action r = FilestoreAction_try_from (get_bits (action_and_status_code r) ACTION_CODE_MASK)"

definition response_status_code :: "TlvFilestoreResponse \<Rightarrow> u8" where
  "response_status_code r = get_bits (action_and_status_code r) STATUS_CODE_MASK"

definition response_first_name :: "TlvFilestoreResponse \<Rightarrow> CfdpError + bytes" where
  "response_first_name r =
     rbind (ok_or (first_of (resp_rest r)) (Custom ''Missing first file name length'')) (\<lambda>len.
     ok_or (get_range (resp_rest r) 1 (1 + unat len)) (Custom ''Invalid first file name slice''))"

definition response_message_of :: "bytes option \<Rightarrow> bytes \<Rightarrow> CfdpError + bytes option \<times> bytes" where
  "response_message_of second rem =
     rbind (ok_or (first_of rem) (Custom ''Missing message len'')) (\<lambda>len.
     rbind (ok_or (get_range rem 1 (1 + unat len)) (Custom ''Invalid message slice'')) (\<lambda>msg. Inr (second, msg)))"

definition parse_after_first_name :: "TlvFilestoreResponse \<Rightarrow> (CfdpError + bytes option \<times> bytes) outcome" where
  "parse_after_first_name r =
     (case rbind (response_first_name r) (\<lambda>name.
           rbind (ok_or (get_from (resp_rest r) (1 + length name)) (Custom ''Invalid slice after first file name'')) (\<lambda>rem.
           rbind (response_action r) (\<lambda>a. Inr (rem, a)))) of
        Inl e \<Rightarrow> Returns (Inl e)
      | Inr (rem, a) \<Rightarrow>
          if a \<notin> {RenameFile, AppendFile, ReplaceFile} then Returns (response_message_of None rem)
          else case rem of [] \<Rightarrow> Returns (Inl (Custom ''Missing second name len''))
               | len # rem \<Rightarrow> if length rem < unat len then Panics
                              else Returns (response_message_of (Some (take (unat len) rem)) (drop (unat len) rem)))"

text \<open>Fault handler overrides: condition and handler in one octet.\<close>

definition CONDITION_CODE_MASK :: u8 where "CONDITION_CODE_MASK = 0b11110000"
definition HANDLER_CODE_MASK :: u8 where "HANDLER_CODE_MASK = 0b00001111"

definition ConditionCode_try_from :: "u8 \<Rightarrow> CfdpError + ConditionCode" where
  "ConditionCode_try_from v =
     (if v = 0 then Inr NoError else if v = 1 then Inr AckLimitReached else if v = 2 then Inr KeepAliveLimitReached
      else if v = 3 then Inr InvalidTransmissionMode else if v = 4 then Inr FilestoreRejection
      else if v = 5 then Inr FileChecksumFailure else if v = 6 then Inr FileSizeError
      else if v = 7 then Inr NakLimitReached else if v = 8 then Inr InactivityDetected
      else if v = 9 then Inr InvalidFileStructure else if v = 10 then Inr CheckLimitReached
      else if v = 11 then Inr UnsupportedChecksumType else if v = 14 then Inr SuspendReceived
      else if v = 15 then Inr CancelReceived else Inl (Custom ''Invalid ConditionCode value''))"

definition HandlerCode_try_from :: "u8 \<Rightarrow> CfdpError + HandlerCode" where
  "HandlerCode_try_from v =
     (if v = 1 then Inr Cancel else if v = 2 then Inr Suspend else if v = 3 then Inr Ignore
      else if v = 4 then Inr Abandon else Inl (Custom ''Invalid HandlerCode''))"

section \<open>Directive codes\<close>

definition DirectiveCode_try_from :: "u8 \<Rightarrow> CfdpError + DirectiveCode" where
  "DirectiveCode_try_from v =
     (if v = 4 then Inr DirEof else if v = 5 then Inr DirFinished else if v = 6 then Inr DirAck
      else if v = 7 then Inr DirMetadata else if v = 8 then Inr DirNak else if v = 9 then Inr DirPrompt
      else if v = 12 then Inr DirKeepAlive else Inl (Custom ''Invalid DirectiveCode value''))"

definition DirectiveCode_value :: "DirectiveCode \<Rightarrow> u8" where
  "DirectiveCode_value d = (case d of DirEof \<Rightarrow> 4 | DirFinished \<Rightarrow> 5 | DirAck \<Rightarrow> 6 | DirMetadata \<Rightarrow> 7
     | DirNak \<Rightarrow> 8 | DirPrompt \<Rightarrow> 9 | DirKeepAlive \<Rightarrow> 12)"

section \<open>EOF\<close>

record EofPdu =
  condition_code_and_spare :: u8
  eof_file_checksum :: u32
  eof_rest :: bytes

definition eof_condition_code :: "EofPdu \<Rightarrow> CfdpError + ConditionCode" where
  "eof_condition_code e = ConditionCode_try_from (get_bits (condition_code_and_spare e) CONDITION_CODE_MASK)"

definition eof_file_size :: "EofPdu \<Rightarrow> bool \<Rightarrow> CfdpError + nat" where
  "eof_file_size e large =
     (if large then ok_or (prefix_u64 (eof_rest e)) (Custom ''Invalid Eof File Size'')
      else ok_or (prefix_u32 (eof_rest e)) (Custom ''Invalid Eof File Size''))"

definition eof_tlvs :: "EofPdu \<Rightarrow> bool \<Rightarrow> CfdpError + Tlv list" where
  "eof_tlvs e large =
     rbind (ok_or (get_from (eof_rest e) (if large then 8 else 4)) (Custom ''Invalid Eof PDU: insufficient data for TLVs''))
       (\<lambda>b. Inr (tlv_records b))"

definition eof_fault_location :: "EofPdu \<Rightarrow> bool \<Rightarrow> CfdpError + Tlv option" where
  "eof_fault_location e large =
     rbind (eof_tlvs e large) (\<lambda>ts. Inr (find (\<lambda>t. tlv_type t = Inr EntityIdTlv) ts))"

section \<open>Finished\<close>

record FinishedPdu =
  fin_flags :: u8
  fin_rest :: bytes

datatype FileStatus = DiscardedDeliberately | DiscardedFileStoreRejection | Retained | Unreported

definition FINISHED_DELIVERY_CODE_MASK :: u8 where "FINISHED_DELIVERY_CODE_MASK = 0b00000100"
definition FINISHED_FILE_STATUS_MASK :: u8 where "FINISHED_FILE_STATUS_MASK = 0b00000011"

definition fin_condition_code :: "FinishedPdu \<Rightarrow> CfdpError + ConditionCode" where
  "fin_condition_code f = ConditionCode_try_from (get_bits (fin_flags f) CONDITION_CODE_MASK)"

definition fin_delivery_code :: "FinishedPdu \<Rightarrow> bool" where
  "fin_delivery_code f \<longleftrightarrow> get_bits (fin_flags f) FINISHED_DELIVERY_CODE_MASK = 0"

definition fin_file_status :: "FinishedPdu \<Rightarrow> FileStatus option" where
  "fin_file_status f =
     (let v = get_bits (fin_flags f) FINISHED_FILE_STATUS_MASK in
      if v = 0 then Some DiscardedDeliberately else if v = 1 then Some DiscardedFileStoreRejection
      else if v = 2 then Some Retained else if v = 3 then Some Unreported else None)"

definition fin_filestore_responses :: "FinishedPdu \<Rightarrow> bytes list" where
  "fin_filestore_responses f = map tlv_value (filter (\<lambda>t. tlv_type t = Inr FilestoreResponseTlv) (tlv_records (fin_rest f)))"

definition fin_fault_location :: "FinishedPdu \<Rightarrow> bytes option" where
  "fin_fault_location f = map_option tlv_value (find (\<lambda>t. tlv_type t = Inr EntityIdTlv) (tlv_records (fin_rest f)))"

section \<open>ACK\<close>

record AckPdu =
  packed_codes :: u8
  packed_status :: u8

definition ACK_DIR_CODE_MASK :: u8 where "ACK_DIR_CODE_MASK = 0b11110000"
definition ACK_DIR_SUBTYPE_CODE_MASK :: u8 where "ACK_DIR_SUBTYPE_CODE_MASK = 0b00001111"
definition ACK_CC_MASK :: u8 where "ACK_CC_MASK = 0b11110000"
definition ACK_TRANSACTION_STATUS_MASK :: u8 where "ACK_TRANSACTION_STATUS_MASK = 0b00000011"

definition TransactionStatus_value :: "TransactionStatus \<Rightarrow> u8" where
  "TransactionStatus_value s = (case s of StatusUndefined \<Rightarrow> 0 | StatusActive \<Rightarrow> 1 | StatusTerminated \<Rightarrow> 2 | StatusUnrecognized \<Rightarrow> 3)"

definition TransactionStatus_try_from :: "u8 \<Rightarrow> CfdpError + TransactionStatus" where
  "TransactionStatus_try_from v =
     (if v = 0 then Inr StatusUndefined else if v = 1 then Inr StatusActive else if v = 2 then Inr StatusTerminated
      else if v = 3 then Inr StatusUnrecognized else Inl (Custom ''Invalid TransactionStatus value''))"

text \<open>The enum has no explicit discriminants: \<open>code as u8\<close> numbers its variants from 0.\<close>

definition AckedDirectiveCode_value :: "AckedDirectiveCode \<Rightarrow> u8" where
  "AckedDirectiveCode_value c = (case c of AckedEof \<Rightarrow> 0 | AckedFinished \<Rightarrow> 1)"

definition AckedDirectiveCode_try_from :: "u8 \<Rightarrow> CfdpError + AckedDirectiveCode" where
  "AckedDirectiveCode_try_from v =
     (if v = 4 then Inr AckedEof else if v = 5 then Inr AckedFinished
      else Inl (Custom ''Invalid AckedPduDirectiveCode value''))"

definition directive_code_of_acked_pdu :: "AckPdu \<Rightarrow> CfdpError + AckedDirectiveCode" where
  "directive_code_of_acked_pdu a = AckedDirectiveCode_try_from (get_bits (packed_codes a) ACK_DIR_CODE_MASK)"

definition directive_subtype_code :: "AckPdu \<Rightarrow> u8" where
  "directive_subtype_code a = get_bits (packed_codes a) ACK_DIR_SUBTYPE_CODE_MASK"

definition acked_directive_code :: "AckPdu \<Rightarrow> CfdpError + AckedDirectiveCode" where
  "acked_directive_code a =
     rbind (directive_code_of_acked_pdu a) (\<lambda>code.
     case (code, directive_subtype_code a = 0, directive_subtype_code a = 1) of
       (AckedEof, True, _) \<Rightarrow> Inr AckedEof
     | (AckedFinished, _, True) \<Rightarrow> Inr AckedFinished
     | _ \<Rightarrow> Inl (Custom ''Unknown acknowledged PDU type''))"

definition ack_condition_code :: "AckPdu \<Rightarrow> CfdpError + ConditionCode" where
  "ack_condition_code a = ConditionCode_try_from (get_bits (packed_status a) ACK_CC_MASK)"

definition ack_transaction_status :: "AckPdu \<Rightarrow> CfdpError + TransactionStatus" where
  "ack_transaction_status a = TransactionStatus_try_from (get_bits (packed_status a) ACK_TRANSACTION_STATUS_MASK)"

section \<open>Metadata\<close>

record MetadataPdu =
  meta_flags :: u8
  meta_rest :: bytes

definition META_CLOSURE_REQ_MASK :: u8 where "META_CLOSURE_REQ_MASK = 0b01000000"
definition META_CHECKSUM_TYPE_MASK :: u8 where "META_CHECKSUM_TYPE_MASK = 0b00001111"

definition ChecksumType_try_from :: "u8 \<Rightarrow> CfdpError + ChecksumType" where
  "ChecksumType_try_from v =
     (if v = 0 then Inr Modular else if v = 1 then Inr Proximity1Crc32 else if v = 2 then Inr Crc32c
      else if v = 3 then Inr IeeeCrc32 else if v = 15 then Inr NullChecksum
      else Inl (Custom ''Unsupported checksum type''))"

definition ChecksumType_value :: "ChecksumType \<Rightarrow> u8" where
  "ChecksumType_value c = (case c of Modular \<Rightarrow> 0 | Proximity1Crc32 \<Rightarrow> 1 | Crc32c \<Rightarrow> 2 | IeeeCrc32 \<Rightarrow> 3 | NullChecksum \<Rightarrow> 15)"

definition closure_requested :: "MetadataPdu \<Rightarrow> bool" where
  "closure_requested m \<longleftrightarrow> get_bits (meta_flags m) META_CLOSURE_REQ_MASK = 1"

definition meta_checksum_type :: "MetadataPdu \<Rightarrow> CfdpError + ChecksumType" where
  "meta_checksum_type m = ChecksumType_try_from (get_bits (meta_flags m) META_CHECKSUM_TYPE_MASK)"

definition meta_file_size :: "MetadataPdu \<Rightarrow> bool \<Rightarrow> CfdpError + nat" where
  "meta_file_size m large =
     (if large then ok_or (prefix_u64 (meta_rest m)) (Custom ''Failed to parse 64-bit file size'')
      else ok_or (prefix_u32 (meta_rest m)) (Custom ''Failed to parse 32-bit file size''))"

text \<open>One LV-coded name: its bytes and what follows.\<close>

definition parse_lv :: "string \<Rightarrow> string \<Rightarrow> bytes \<Rightarrow> CfdpError + bytes \<times> bytes" where
  "parse_lv missing short bs =
     rbind (ok_or (first_of bs) (Custom missing)) (\<lambda>len.
     rbind (ok_or (get_from bs 1) (Custom ''Invalid metadata slice'')) (\<lambda>rem.
     if length rem < unat len then Inl (Custom short)
     else Inr (take (unat len) rem, drop (unat len) rem)))"

definition variable_fields :: "MetadataPdu \<Rightarrow> bool \<Rightarrow> CfdpError + bytes \<times> bytes \<times> bytes" where
  "variable_fields m large =
     rbind (ok_or (get_from (meta_rest m) (if large then 8 else 4))
              (Custom ''Invalid metadata: insufficient data for file size'')) (\<lambda>rem.
     rbind (parse_lv ''Invalid metadata: missing source name length''
              ''Invalid metadata: insufficient data for source name'' rem) (\<lambda>(source, rem).
     rbind (parse_lv ''Invalid metadata: missing destination name length''
              ''Invalid metadata: insufficient data for destination name'' rem) (\<lambda>(dest, opts).
     Inr (source, dest, opts))))"

definition meta_options :: "MetadataPdu \<Rightarrow> bool \<Rightarrow> CfdpError + Tlv list" where
  "meta_options m large = rbind (variable_fields m large) (\<lambda>(_, _, opts). Inr (tlv_records opts))"

definition override_step :: "FaultHandlerSet \<Rightarrow> Tlv \<Rightarrow> CfdpError + FaultHandlerSet" where
  "override_step handlers t =
     rbind (tlv_type t) (\<lambda>ty.
     if ty = FaultHandlerOverrideTlv then
       (case tlv_value t of
          [b] \<Rightarrow> rbind (ConditionCode_try_from (get_bits b CONDITION_CODE_MASK)) (\<lambda>c.
                 rbind (HandlerCode_try_from (get_bits b HANDLER_CODE_MASK)) (\<lambda>h.
                 Inr (set_handler handlers c h)))
        | _ \<Rightarrow> Inr handlers)
     else Inr handlers)"

fun override_loop :: "FaultHandlerSet \<Rightarrow> Tlv list \<Rightarrow> CfdpError + FaultHandlerSet" where
  "override_loop handlers [] = Inr handlers"
| "override_loop handlers (t # ts) = rbind (override_step handlers t) (\<lambda>h. override_loop h ts)"

definition fault_handler_overrides :: "MetadataPdu \<Rightarrow> bool \<Rightarrow> CfdpError + FaultHandlerSet" where
  "fault_handler_overrides m large = rbind (meta_options m large) (override_loop handlers_default)"

definition meta_filestore_requests :: "MetadataPdu \<Rightarrow> bool \<Rightarrow> CfdpError + Tlv list" where
  "meta_filestore_requests m large =
     rbind (meta_options m large) (\<lambda>ts. Inr (filter (\<lambda>t. tlv_type t = Inr FilestoreRequestTlv) ts))"

section \<open>NAK, Prompt, Keep Alive\<close>

datatype NakPdu = NakSmall u32 u32 bytes | NakLarge nat nat bytes

fun nak_start_of_scope :: "NakPdu \<Rightarrow> nat" where
  "nak_start_of_scope (NakSmall s e r) = unat s"
| "nak_start_of_scope (NakLarge s e r) = s"

fun nak_end_of_scope :: "NakPdu \<Rightarrow> nat" where
  "nak_end_of_scope (NakSmall s e r) = unat e"
| "nak_end_of_scope (NakLarge s e r) = e"

text \<open>The bytes cut into segments of two numbers of \<open>w\<close> bytes each.\<close>

function nak_segments :: "nat \<Rightarrow> bytes \<Rightarrow> (nat \<times> nat) list" where
  "nak_segments w bs =
     (if w = 0 \<or> length bs < 2 * w then []
      else (be_nat (take w bs), be_nat (take w (drop w bs))) # nak_segments w (drop (2 * w) bs))"
  by pat_completeness auto
termination by (relation "measure (\<lambda>(w, bs). length bs)") auto

declare nak_segments.simps [simp del]

definition segment_requests :: "NakPdu \<Rightarrow> CfdpError + (nat \<times> nat) list" where
  "segment_requests n = (case n of
      NakSmall _ _ rest \<Rightarrow> (if length rest mod 8 \<noteq> 0 then Inl (Custom ''Invalid NAK segment requests'') else Inr (nak_segments 4 rest))
    | NakLarge _ _ rest \<Rightarrow> (if length rest mod 16 \<noteq> 0 then Inl (Custom ''Invalid NAK segment requests'') else Inr (nak_segments 8 rest)))"

definition PROMPT_RESPONSE_REQUIRED_MASK :: u8 where "PROMPT_RESPONSE_REQUIRED_MASK = 0b10000000"

type_synonym PromptPdu = u8

definition prompt_response :: "PromptPdu \<Rightarrow> PromptType" where
  "prompt_response p = (if get_bits p PROMPT_RESPONSE_REQUIRED_MASK = 1 then PromptKeepAlive else PromptNak)"

datatype KeepAlivePdu = KeepAliveSmall u32 | KeepAliveLarge nat

fun keep_alive_progress :: "KeepAlivePdu \<Rightarrow> nat" where
  "keep_alive_progress (KeepAliveSmall p) = unat p"
| "keep_alive_progress (KeepAliveLarge p) = p"

section \<open>File data\<close>

datatype FileDataPdu = WithMeta u8 bytes | WithoutMeta bytes

definition FILE_DATA_REC_CONT_STATE_MASK :: u8 where "FILE_DATA_REC_CONT_STATE_MASK = 0b11000000"
definition FILE_DATA_SEG_META_LEN_MASK :: u8 where "FILE_DATA_SEG_META_LEN_MASK = 0b00111111"

definition metadata_len :: "u8 \<Rightarrow> nat" where
  "metadata_len admin_octet = unat (get_bits admin_octet FILE_DATA_SEG_META_LEN_MASK)"

definition read_offset :: "bool \<Rightarrow> bytes \<Rightarrow> CfdpError + nat" where
  "read_offset large bs =
     (if large then ok_or (prefix_u64 bs) (Custom ''Invalid FSS Offset'')
      else ok_or (prefix_u32 bs) (Custom ''Invalid FSS Offset''))"

fun fd_offset :: "FileDataPdu \<Rightarrow> bool \<Rightarrow> CfdpError + nat" where
  "fd_offset (WithMeta a rest) large =
     rbind (ok_or (get_from rest (metadata_len a)) (Custom ''Invalid FSS Offset slice'')) (read_offset large)"
| "fd_offset (WithoutMeta rest) large = read_offset large rest"

fun fd_file_data :: "FileDataPdu \<Rightarrow> bool \<Rightarrow> CfdpError + bytes" where
  "fd_file_data (WithMeta a rest) large =
     ok_or (get_from rest (metadata_len a + (if large then 8 else 4))) (Custom ''Invalid file data slice'')"
| "fd_file_data (WithoutMeta rest) large =
     ok_or (get_from rest (if large then 8 else 4)) (Custom ''Invalid file data slice'')"

section \<open>The view of a PDU\<close>

datatype PduVariant = EofV EofPdu | FinishedV FinishedPdu | AckV AckPdu | MetadataV MetadataPdu
  | FileDataV FileDataPdu | NakV NakPdu | PromptV PromptPdu | KeepAliveV KeepAlivePdu

definition file_data_variant :: "PduHeaderFixedPart \<Rightarrow> bytes \<Rightarrow> CfdpError + PduVariant" where
  "file_data_variant h data =
     (let offset_len = (if large_file_flag h then 8 else 4) in
      if segment_metadata_flag h then
        (case data of [] \<Rightarrow> Inl (Custom ''Failed to parse FileDataPduWithMeta'')
         | a # rest \<Rightarrow> if length rest < metadata_len a + offset_len
                       then Inl (Custom ''Insufficient data for metadata and offset'')
                       else Inr (FileDataV (WithMeta a rest)))
      else if length data < offset_len then Inl (Custom ''Insufficient data for offset'')
      else Inr (FileDataV (WithoutMeta data)))"

definition eof_view :: "PduHeaderFixedPart \<Rightarrow> bytes \<Rightarrow> CfdpError + PduVariant" where
  "eof_view h rest = (case rest of
      a # b # c # d # e # rest \<Rightarrow>
        if length rest < (if large_file_flag h then 8 else 4) then Inl (Custom ''Insufficient data for EOF file size'')
        else Inr (EofV \<lparr>condition_code_and_spare = a, eof_file_checksum = be32_to b c d e, eof_rest = rest\<rparr>)
    | _ \<Rightarrow> Inl (Custom ''Failed to parse EofPdu''))"

definition metadata_view :: "PduHeaderFixedPart \<Rightarrow> bytes \<Rightarrow> CfdpError + PduVariant" where
  "metadata_view h rest = (case rest of [] \<Rightarrow> Inl (Custom ''Failed to parse MetadataPdu'')
     | a # rest \<Rightarrow> if length rest < (if large_file_flag h then 8 else 4) + 1 + 1
                   then Inl (Custom ''Insufficient data for Metadata PDU'')
                   else Inr (MetadataV \<lparr>meta_flags = a, meta_rest = rest\<rparr>))"

definition nak_view :: "PduHeaderFixedPart \<Rightarrow> bytes \<Rightarrow> CfdpError + PduVariant" where
  "nak_view h rest =
     (if large_file_flag h then
        if length rest < 16 then Inl (Custom ''Failed to parse NakPduLarge'')
        else if length (drop 16 rest) mod 16 \<noteq> 0 then Inl (Custom ''Invalid NAK segment requests length'')
        else Inr (NakV (NakLarge (be_nat (take 8 rest)) (be_nat (take 8 (drop 8 rest))) (drop 16 rest)))
      else case rest of
        a # b # c # d # e # f # g # k # rest \<Rightarrow>
          if length rest mod 8 \<noteq> 0 then Inl (Custom ''Invalid NAK segment requests length'')
          else Inr (NakV (NakSmall (be32_to a b c d) (be32_to e f g k) rest))
      | _ \<Rightarrow> Inl (Custom ''Failed to parse NakPduSmall''))"

definition keep_alive_view :: "PduHeaderFixedPart \<Rightarrow> bytes \<Rightarrow> CfdpError + PduVariant" where
  "keep_alive_view h rest =
     (if large_file_flag h then
        if length rest \<noteq> 8 then Inl (Custom ''Failed to parse KeepAlivePduLarge'')
        else Inr (KeepAliveV (KeepAliveLarge (be_nat rest)))
      else case rest of [a, b, c, d] \<Rightarrow> Inr (KeepAliveV (KeepAliveSmall (be32_to a b c d)))
           | _ \<Rightarrow> Inl (Custom ''Failed to parse KeepAlivePduSmall''))"

definition directive_view :: "PduHeaderFixedPart \<Rightarrow> DirectiveCode \<Rightarrow> bytes \<Rightarrow> CfdpError + PduVariant" where
  "directive_view h code rest = (case code of
      DirEof \<Rightarrow> eof_view h rest
    | DirFinished \<Rightarrow> (case rest of [] \<Rightarrow> Inl (Custom ''Failed to parse FinishedPdu'')
        | a # rest \<Rightarrow> Inr (FinishedV \<lparr>fin_flags = a, fin_rest = rest\<rparr>))
    | DirAck \<Rightarrow> (case rest of [a, b] \<Rightarrow> Inr (AckV \<lparr>packed_codes = a, packed_status = b\<rparr>)
        | _ \<Rightarrow> Inl (Custom ''Failed to parse AckPdu''))
    | DirMetadata \<Rightarrow> metadata_view h rest
    | DirNak \<Rightarrow> nak_view h rest
    | DirPrompt \<Rightarrow> (case rest of [a] \<Rightarrow> Inr (PromptV a) | _ \<Rightarrow> Inl (Custom ''Failed to parse PromptPdu''))
    | DirKeepAlive \<Rightarrow> keep_alive_view h rest)"

definition pdu_variant :: "Pdu \<Rightarrow> CfdpError + PduVariant" where
  "pdu_variant p =
     rbind (data_field p) (\<lambda>data.
     case pdu_type (header_fixed p) of
       FileDataType \<Rightarrow> file_data_variant (header_fixed p) data
     | FileDirectiveType \<Rightarrow> (case data of [] \<Rightarrow> Inl (Custom ''Failed to parse FileDirectivePdu'')
         | code # rest \<Rightarrow> rbind (DirectiveCode_try_from code) (\<lambda>c. directive_view (header_fixed p) c rest)))"

section \<open>A panic\<close>

text \<open>A rename response whose second name is announced longer than the record is.\<close>

lemma response_second_name_panics:
  "parse_after_first_name \<lparr>action_and_status_code = 0x20, resp_rest = [1, 65, 9, 66]\<rparr> = Panics"
  by (simp add: parse_after_first_name_def response_first_name_def response_action_def FilestoreAction_try_from_def
      first_of_def get_range_def get_from_def bslice_def get_bits_def ACTION_CODE_MASK_def trailing_zeros_def upt_rec)

end
