(* ===== verification/Cfdp_Handlers.thy ===== *)
theory Cfdp_Handlers
  imports Cfdp_Types
begin

text \<open>
  How the CFDP machines are reasoned about. Both keep a bounded map of transactions, and every
  handler starts by looking its transaction up. \<open>keeps\<close> says that a handler preserves a property
  of the machine and pushes allowed actions only; \<open>costs\<close> bounds the actions it pushes, and with
  them says that the action buffer does not overflow. Both have one rule per combinator, so that
  a handler is proved by its shape. The locale \<open>transaction_store\<close> is the interface of the map
  in a machine's record; both machines interpret it.
\<close>

section \<open>Looking up and changing a transaction\<close>

text \<open>\<open>let Some(transaction) = self.transactions.get(&id) else { return Ok(()) }\<close>\<close>

definition lookup ::
  "('m \<Rightarrow> ('k, 't) linear_map) \<Rightarrow> 'k \<Rightarrow> ('t \<Rightarrow> ('m, 'a) handling) \<Rightarrow> ('m, 'a) handling" where
  "lookup get k f s = (case lm_get (get (fst s)) k of None \<Rightarrow> ok s | Some t \<Rightarrow> f t s)"

definition modify ::
  "('m \<Rightarrow> ('k, 't) linear_map) \<Rightarrow> (('k, 't) linear_map \<Rightarrow> 'm \<Rightarrow> 'm) \<Rightarrow> 'k \<Rightarrow> ('t \<Rightarrow> 't) \<Rightarrow> ('m, 'a) handling" where
  "modify get put k g s = ok (put (lm_update k g (get (fst s))) (fst s), snd s)"

text \<open>\<open>let Some(transaction) = self.transactions.remove(&id) else { return Ok(()) }\<close>\<close>

definition remove ::
  "('m \<Rightarrow> ('k, 't) linear_map) \<Rightarrow> (('k, 't) linear_map \<Rightarrow> 'm \<Rightarrow> 'm) \<Rightarrow> 'k \<Rightarrow> ('t \<Rightarrow> ('m, 'a) handling) \<Rightarrow> ('m, 'a) handling" where
  "remove get put k f s = (case lm_get (get (fst s)) k of None \<Rightarrow> ok s
     | Some t \<Rightarrow> f t (put (lm_remove (get (fst s)) k) (fst s), snd s))"

definition insert_new ::
  "('m \<Rightarrow> ('k, 't) linear_map) \<Rightarrow> (('k, 't) linear_map \<Rightarrow> 'm \<Rightarrow> 'm) \<Rightarrow> CfdpError \<Rightarrow> 'k \<Rightarrow> 't \<Rightarrow> ('m, 'a) handling" where
  "insert_new get put err k t s = (case lm_insert MAX_CONCURRENT_TRANSACTIONS (get (fst s)) k t of
      None \<Rightarrow> fail err s | Some m \<Rightarrow> ok (put m (fst s), snd s))"

definition run_if :: "bool \<Rightarrow> ('m, 'a) handling \<Rightarrow> ('m, 'a) handling" where
  "run_if b f = (if b then f else ok)"

text \<open>A handler that branches on the machine's state.\<close>

definition with_machine :: "('m \<Rightarrow> ('m, 'a) handling) \<Rightarrow> ('m, 'a) handling" where
  "with_machine f s = f (fst s) s"

section \<open>Invariants\<close>

definition keeps :: "('m \<Rightarrow> bool) \<Rightarrow> ('a \<Rightarrow> bool) \<Rightarrow> ('m, 'a) handling \<Rightarrow> bool" where
  "keeps P Q f \<longleftrightarrow> (\<forall>m as. P m \<longrightarrow> list_all Q as \<longrightarrow> P (fst (fst (f (m, as)))) \<and> list_all Q (snd (fst (f (m, as)))))"

lemma keepsI:
  "(\<And>m as. P m \<Longrightarrow> list_all Q as \<Longrightarrow> P (fst (fst (f (m, as)))) \<and> list_all Q (snd (fst (f (m, as))))) \<Longrightarrow> keeps P Q f"
  by (simp add: keeps_def)

lemma keepsD:
  "keeps P Q f \<Longrightarrow> P m \<Longrightarrow> list_all Q as \<Longrightarrow> f (m, as) = ((m', as'), r) \<Longrightarrow> P m' \<and> list_all Q as'"
  unfolding keeps_def by (metis fst_conv snd_conv)

lemma keeps_ok: "keeps P Q ok"
  by (simp add: keeps_def ok_def)

lemma keeps_fail: "keeps P Q (fail e)"
  by (simp add: keeps_def fail_def)

lemma keeps_and_do: "keeps P Q f \<Longrightarrow> keeps P Q g \<Longrightarrow> keeps P Q (and_do f g)"
  by (fastforce simp: keeps_def and_do_def split: prod.splits option.splits)

lemma keeps_push: "Q a \<Longrightarrow> keeps P Q (push_action a)"
  by (simp add: keeps_def push_action_def)

lemma keeps_try: "(\<And>v. x = Inr v \<Longrightarrow> keeps P Q (f v)) \<Longrightarrow> keeps P Q (try_value x f)"
  by (cases x) (simp_all add: keeps_def try_value_def)

lemma keeps_run_if: "(b \<Longrightarrow> keeps P Q f) \<Longrightarrow> keeps P Q (run_if b f)"
  by (simp add: run_if_def keeps_ok)

lemma keeps_do_Cons: "keeps P Q f \<Longrightarrow> keeps P Q (do_all fs) \<Longrightarrow> keeps P Q (do_all (f # fs))"
  by (simp add: do_all.simps keeps_and_do)

lemma keeps_do_Nil: "keeps P Q (do_all [])"
  by (simp add: do_all.simps keeps_ok)

lemma keeps_with_machine: "(\<And>m. P m \<Longrightarrow> keeps P Q (f m)) \<Longrightarrow> keeps P Q (with_machine f)"
  by (simp add: keeps_def with_machine_def)

section \<open>Costs\<close>

definition costs :: "nat \<Rightarrow> ('m, 'a) handling \<Rightarrow> bool" where
  "costs n f \<longleftrightarrow> (\<forall>m as. length as + n \<le> MAX_ACTIONS_PER_EVENT \<longrightarrow>
     length (snd (fst (f (m, as)))) \<le> length as + n \<and> snd (f (m, as)) \<noteq> Some ActionBufferFull)"

lemma costsD:
  "costs n f \<Longrightarrow> length as + n \<le> MAX_ACTIONS_PER_EVENT \<Longrightarrow> f (m, as) = ((m', as'), r) \<Longrightarrow>
   length as' \<le> length as + n \<and> r \<noteq> Some ActionBufferFull"
  unfolding costs_def by (metis fst_conv snd_conv)

lemma costs_ok: "costs n ok"
  by (simp add: costs_def ok_def)

lemma costs_fail: "e \<noteq> ActionBufferFull \<Longrightarrow> costs n (fail e)"
  by (simp add: costs_def fail_def)

lemma costs_mono: "costs k f \<Longrightarrow> k \<le> n \<Longrightarrow> costs n f"
  unfolding costs_def by (meson add_le_mono le_trans order_refl)

lemma costs_and_do:
  assumes "costs k f" "costs n g"
  shows "costs (k + n) (and_do f g)"
  unfolding costs_def
proof (intro allI impI)
  fix m and as :: "'b list"
  assume len: "length as + (k + n) \<le> MAX_ACTIONS_PER_EVENT"
  obtain m' as' r where f: "f (m, as) = ((m', as'), r)" by (metis prod.collapse)
  have 1: "length as' \<le> length as + k" "r \<noteq> Some ActionBufferFull"
    using costsD [OF assms(1) _ f] len by auto
  show "length (snd (fst (and_do f g (m, as)))) \<le> length as + (k + n) \<and> snd (and_do f g (m, as)) \<noteq> Some ActionBufferFull"
  proof (cases r)
    case None
    obtain m'' as'' r' where g: "g (m', as') = ((m'', as''), r')" by (metis prod.collapse)
    have "length as'' \<le> length as' + n \<and> r' \<noteq> Some ActionBufferFull"
      by (rule costsD [OF assms(2) _ g]) (use 1(1) len in simp)
    then show ?thesis using f g None 1(1) by (simp add: and_do_def)
  qed (use f 1 in \<open>simp add: and_do_def\<close>)
qed

lemma costs_push: "1 \<le> n \<Longrightarrow> costs n (push_action a)"
  by (simp add: costs_def push_action_def)

lemma costs_do_Cons: "costs k f \<Longrightarrow> costs n (do_all fs) \<Longrightarrow> costs (k + n) (do_all (f # fs))"
  by (simp add: do_all.simps costs_and_do)

lemma costs_do_Nil: "costs n (do_all [])"
  by (simp add: do_all.simps costs_ok)

lemma costs_do_step: "costs k f \<Longrightarrow> k \<le> n \<Longrightarrow> costs (n - k) (do_all fs) \<Longrightarrow> costs n (do_all (f # fs))"
  using costs_do_Cons [of k f "n - k" fs] by simp

text \<open>A parse result whose error is not that of the action buffer.\<close>

definition parse_error :: "CfdpError + 'v \<Rightarrow> bool" where
  "parse_error x \<longleftrightarrow> (case x of Inl e \<Rightarrow> e \<noteq> ActionBufferFull | Inr _ \<Rightarrow> True)"

lemma costs_try: "parse_error x \<Longrightarrow> (\<And>v. x = Inr v \<Longrightarrow> costs n (f v)) \<Longrightarrow> costs n (try_value x f)"
  by (cases x) (simp_all add: costs_def try_value_def parse_error_def)

lemma costs_run_if: "(b \<Longrightarrow> costs n f) \<Longrightarrow> costs n (run_if b f)"
  by (simp add: run_if_def costs_ok)

lemma costs_if: "(b \<Longrightarrow> costs n f) \<Longrightarrow> (\<not> b \<Longrightarrow> costs n g) \<Longrightarrow> costs n (if b then f else g)"
  by simp

lemma costs_lookup: "(\<And>t. costs n (f t)) \<Longrightarrow> costs n (lookup get k f)"
  by (simp add: costs_def lookup_def ok_def split: option.splits)

lemma costs_modify: "costs n (modify get put k g)"
  by (simp add: costs_def modify_def ok_def)

lemma costs_remove: "(\<And>t. costs n (f t)) \<Longrightarrow> costs n (remove get put k f)"
  by (simp add: costs_def remove_def ok_def split: option.splits)

lemma costs_insert: "e \<noteq> ActionBufferFull \<Longrightarrow> costs n (insert_new get put e k t)"
  by (simp add: costs_def insert_new_def ok_def fail_def split: option.splits)

lemma costs_with_machine: "(\<And>m. costs n (f m)) \<Longrightarrow> costs n (with_machine f)"
  by (simp add: costs_def with_machine_def)

lemmas costs_seq = costs_do_Nil costs_do_step [OF costs_modify le0, simplified]
  costs_do_step [OF costs_push [OF order_refl]] costs_do_step [OF costs_run_if [OF costs_push [OF order_refl]]]

lemmas costs_rules = costs_if costs_seq costs_with_machine costs_ok costs_fail costs_push costs_try costs_run_if costs_lookup costs_modify costs_remove costs_insert

section \<open>The map of transactions in a machine\<close>

definition each_transaction :: "('m \<Rightarrow> ('k, 't) linear_map) \<Rightarrow> ('k \<Rightarrow> 't \<Rightarrow> bool) \<Rightarrow> 'm \<Rightarrow> bool" where
  "each_transaction get T m \<longleftrightarrow> (\<forall>k t. lm_get (get m) k = Some t \<longrightarrow> T k t)"

locale transaction_store =
  fixes get :: "'m \<Rightarrow> ('k, 't) linear_map" and put :: "('k, 't) linear_map \<Rightarrow> 'm \<Rightarrow> 'm"
  assumes get_put: "get (put ts m) = ts"
begin

lemma keeps_lookup:
  assumes "\<And>t. T k t \<Longrightarrow> keeps (each_transaction get T) Q (f t)"
  shows "keeps (each_transaction get T) Q (lookup get k f)"
proof (rule keepsI)
  fix m as assume P: "each_transaction get T m" and as: "list_all Q as"
  show "each_transaction get T (fst (fst (lookup get k f (m, as)))) \<and> list_all Q (snd (fst (lookup get k f (m, as))))"
  proof (cases "lm_get (get m) k")
    case None
    then show ?thesis using P as by (simp add: lookup_def ok_def)
  next
    case (Some t)
    then have "keeps (each_transaction get T) Q (f t)" using P assms by (simp add: each_transaction_def)
    then show ?thesis using P as Some by (simp add: lookup_def keeps_def)
  qed
qed

lemma keeps_modify:
  assumes "\<And>t. T k t \<Longrightarrow> T k (g t)"
  shows "keeps (each_transaction get T) Q (modify get put k g)"
  using assms by (auto simp: keeps_def modify_def ok_def each_transaction_def get_put)

lemma keeps_remove:
  assumes "\<And>t. T k t \<Longrightarrow> keeps (each_transaction get T) Q (f t)"
  shows "keeps (each_transaction get T) Q (remove get put k f)"
proof (rule keepsI)
  fix m as assume P: "each_transaction get T m" and as: "list_all Q as"
  show "each_transaction get T (fst (fst (remove get put k f (m, as)))) \<and> list_all Q (snd (fst (remove get put k f (m, as))))"
  proof (cases "lm_get (get m) k")
    case None
    then show ?thesis using P as by (simp add: remove_def ok_def)
  next
    case (Some t)
    then have "keeps (each_transaction get T) Q (f t)" using P assms by (simp add: each_transaction_def)
    moreover have "each_transaction get T (put (lm_remove (get m) k) m)"
      using P by (simp add: each_transaction_def get_put)
    ultimately show ?thesis using as Some by (simp add: remove_def keeps_def)
  qed
qed

lemma keeps_insert: "T k t \<Longrightarrow> keeps (each_transaction get T) Q (insert_new get put e k t)"
  by (auto simp: keeps_def insert_new_def ok_def fail_def each_transaction_def get_put lm_get_insert split: option.splits if_splits)

lemmas keeps_rules = keeps_with_machine keeps_do_Cons keeps_do_Nil keeps_and_do keeps_ok keeps_fail keeps_push keeps_try keeps_run_if keeps_lookup keeps_modify keeps_remove keeps_insert

end

end
