(* ===== verification/Cfdp_Parsing.thy ===== *)
theory Cfdp_Parsing
  imports Cfdp_Directives Cfdp_Handlers
begin

text \<open>
  The errors of the CFDP parsers: none of them is the error of the action buffer. The machines
  pass parse errors on, so a full action buffer is told apart from a malformed PDU.
\<close>

named_theorems parse_errors \<open>results whose error is never that of the action buffer\<close>

lemma parse_error_simps [parse_errors]:
  "parse_error (Inr v)" "e \<noteq> ActionBufferFull \<Longrightarrow> parse_error (Inl e)" "e \<noteq> ActionBufferFull \<Longrightarrow> parse_error (ok_or x e)"
  by (simp_all add: parse_error_def ok_or_def split: option.split)

lemma parse_error_rbind [parse_errors]: "parse_error x \<Longrightarrow> (\<And>v. parse_error (f v)) \<Longrightarrow> parse_error (rbind x f)"
  by (cases x) (simp_all add: parse_error_def)

lemma parse_error_codes [parse_errors]:
  "parse_error (TlvType_try_from b)" "parse_error (FilestoreAction_try_from b)" "parse_error (ConditionCode_try_from b)"
  "parse_error (HandlerCode_try_from b)" "parse_error (DirectiveCode_try_from b)" "parse_error (ChecksumType_try_from b)"
  "parse_error (AckedDirectiveCode_try_from b)" "parse_error (EntityId_from_bytes bs)"
  by (simp_all add: parse_error_def TlvType_try_from_def FilestoreAction_try_from_def ConditionCode_try_from_def
      HandlerCode_try_from_def DirectiveCode_try_from_def ChecksumType_try_from_def AckedDirectiveCode_try_from_def
      EntityId_from_bytes_def)

lemma parse_error_eof [parse_errors]: "parse_error (eof_condition_code e)" "parse_error (fin_condition_code f)"
  by (simp_all add: eof_condition_code_def fin_condition_code_def parse_errors)

lemma parse_error_ack [parse_errors]: "parse_error (acked_directive_code a)"
  by (auto simp: acked_directive_code_def directive_code_of_acked_pdu_def intro!: parse_errors split: AckedDirectiveCode.split bool.split)

lemma parse_error_nak [parse_errors]: "parse_error (segment_requests n)"
  by (auto simp: segment_requests_def intro!: parse_errors split: NakPdu.split)

lemma parse_error_source [parse_errors]: "parse_error (source_entity_id p)"
  by (auto simp: source_entity_id_def intro!: parse_errors)

lemma parse_error_data [parse_errors]: "parse_error (fd_file_data d large)" "parse_error (fd_offset d large)"
  by (cases d; auto simp: read_offset_def intro!: parse_errors)+

lemma parse_error_fields [parse_errors]: "parse_error (variable_fields m large)"
  by (auto simp: variable_fields_def parse_lv_def intro!: parse_errors)

lemma parse_error_meta [parse_errors]: "parse_error (meta_file_size m large)" "parse_error (meta_checksum_type m)"
  by (auto simp: meta_file_size_def meta_checksum_type_def intro!: parse_errors)

lemma parse_error_options [parse_errors]: "parse_error (meta_options m large)" "parse_error (meta_filestore_requests m large)"
  by (auto simp: meta_options_def meta_filestore_requests_def intro!: parse_errors)

lemma parse_error_overrides [parse_errors]: "parse_error (fault_handler_overrides m large)"
proof -
  have "parse_error (override_step h t)" for h t
    by (auto simp: override_step_def tlv_type_def intro!: parse_errors split: list.split)
  then have "parse_error (override_loop h ts)" for h ts
    by (induction ts arbitrary: h) (auto intro!: parse_errors)
  then show ?thesis by (auto simp: fault_handler_overrides_def intro!: parse_errors)
qed

lemma parse_error_names [parse_errors]:
  "parse_error (request_from_tlv t)" "parse_error (request_first_name r)" "parse_error (request_action r)"
  "parse_error (request_second_name r)"
  by (auto simp: request_from_tlv_def request_first_name_def request_action_def request_second_name_def
      intro!: parse_errors split: list.split)

lemma parse_error_variant [parse_errors]: "parse_error (pdu_variant p)"
proof -
  have view: "parse_error (directive_view h c rest)" for h c rest
    by (auto simp: directive_view_def eof_view_def metadata_view_def nak_view_def keep_alive_view_def
        intro!: parse_errors split: DirectiveCode.split list.split)
  have "parse_error (file_data_variant h d)" for h d
    by (auto simp: file_data_variant_def Let_def intro!: parse_errors split: list.split)
  then show ?thesis using view
    by (auto simp: pdu_variant_def data_field_def intro!: parse_errors split: list.split PduType.split)
qed

end
