(* ===== verification/Cfdp_Sender.thy ===== *)
theory Cfdp_Sender
  imports Cfdp_Parsing
begin

text \<open>
  The sending machine of a CFDP transfer
  (\<open>crates/leodos-protocols/src/transport/cfdp/class2/machine/sender/\<close>): its transactions, events and
  actions, and one definition per handler. The segments of a NAK are passed on to the runner as
  the list the iterator yields.
\<close>

section \<open>Transactions, events, actions\<close>

datatype TxState = SendingFileData | WaitingForChecksum | WaitingForEofAck | WaitingForFinishedPdu

record TxTransaction =
  tt_config :: TransactionConfig
  tt_progress :: nat
  tt_last_receiver_progress :: nat
  tt_keep_alive_limit :: nat
  tt_file_checksum :: "u32 option"
  tt_ack_limit :: nat
  tt_state :: TxState
  tt_suspended :: bool
  tt_ack_retries :: nat

record SenderMachine =
  tx_transactions :: "(TransactionId, TxTransaction) linear_map"
  tx_next_seq_num :: nat
  tx_id :: EntityId
  tx_keep_alive_limit :: nat
  tx_ack_timeout_secs :: nat

datatype TxEvent =
    TxPutRequest FileId FileId EntityId nat ChecksumType
  | TxPromptRequest TransactionId PromptType
  | TxSuspendRequest TransactionId
  | TxResumeRequest TransactionId
  | TxPduReceived TransactionId Pdu
  | TxTimerExpired TransactionId TimerType
  | TxDataSegmentReady TransactionId bytes nat
  | TxChecksumReady TransactionId u32

datatype TxAction =
    TxSendMetadata TransactionId EntityId nat FileId FileId ChecksumType
  | TxSendFileData TransactionId EntityId nat bytes
  | TxSendEof TransactionId EntityId ConditionCode nat u32
  | TxSendFinished TransactionId EntityId ConditionCode
  | TxSendAck TransactionId EntityId AckedDirectiveCode ConditionCode TransactionStatus
  | TxSendPrompt TransactionId EntityId PromptType
  | TxReadDataSegment TransactionId nat nat
  | TxReadDataSegmentBatch TransactionId "(nat \<times> nat) list"
  | TxStartTimer TransactionId TimerType nat
  | TxStopTimer TransactionId "TimerType option"
  | TxTerminateTransaction TransactionId ConditionCode
  | TxCalculateChecksum TransactionId ChecksumType
  | TxNotifyFault TransactionId ConditionCode
  | TxNotifySuspended TransactionId
  | TxNotifyResumed TransactionId nat

type_synonym tx_handling = "(SenderMachine, TxAction) handling"

definition put_tx :: "(TransactionId, TxTransaction) linear_map \<Rightarrow> SenderMachine \<Rightarrow> SenderMachine" where
  "put_tx ts m = m\<lparr>tx_transactions := ts\<rparr>"

definition tx_new :: "EntityId \<Rightarrow> nat \<Rightarrow> nat \<Rightarrow> SenderMachine" where
  "tx_new entity ack_timeout keep_alive = \<lparr>tx_transactions = [], tx_next_seq_num = 0, tx_id = entity,
     tx_keep_alive_limit = keep_alive, tx_ack_timeout_secs = ack_timeout\<rparr>"

section \<open>Handlers\<close>

definition tx_handle_terminate :: "TransactionId \<Rightarrow> ConditionCode \<Rightarrow> tx_handling" where
  "tx_handle_terminate k cond = remove tx_transactions put_tx k (\<lambda>t.
     push_action (TxTerminateTransaction (transaction_id (tt_config t)) cond))"

definition tx_handle_suspend :: "TransactionId \<Rightarrow> tx_handling" where
  "tx_handle_suspend k = lookup tx_transactions k (\<lambda>t.
     if tt_suspended t then ok
     else do_all [modify tx_transactions put_tx k (tt_suspended_update (\<lambda>_. True)),
            push_action (TxStopTimer k None), push_action (TxNotifySuspended k)])"

definition tx_handle_fault :: "TransactionId \<Rightarrow> ConditionCode \<Rightarrow> tx_handling" where
  "tx_handle_fault k cond = lookup tx_transactions k (\<lambda>t.
     case get_handler (fault_handlers (tt_config t)) cond of
       Cancel \<Rightarrow> tx_handle_terminate k cond
     | Ignore \<Rightarrow> push_action (TxNotifyFault k cond)
     | Suspend \<Rightarrow> tx_handle_suspend k
     | Abandon \<Rightarrow> tx_handle_terminate k cond)"

text \<open>The sequence number is used up also when the map of transactions is full.\<close>

definition tx_new_transaction :: "SenderMachine \<Rightarrow> EntityId \<Rightarrow> FileId \<Rightarrow> FileId \<Rightarrow> nat \<Rightarrow> ChecksumType \<Rightarrow> TxTransaction" where
  "tx_new_transaction m dest source_file dest_file fsize ctype =
     \<lparr>tt_config = \<lparr>transaction_id = \<lparr>source_id = tx_id m, seq_num = tx_next_seq_num m\<rparr>, destination_id = dest,
        cfg_file_size = fsize, fault_handlers = handlers_default, inactivity_timeout_secs = 30, checksum_type = ctype,
        source_file_id = source_file, destination_file_id = dest_file\<rparr>,
      tt_progress = 0, tt_last_receiver_progress = 0, tt_keep_alive_limit = tx_keep_alive_limit m,
      tt_file_checksum = None, tt_ack_limit = 5, tt_state = SendingFileData, tt_suspended = False, tt_ack_retries = 0\<rparr>"

definition tx_create_transaction :: "EntityId \<Rightarrow> FileId \<Rightarrow> FileId \<Rightarrow> nat \<Rightarrow> ChecksumType \<Rightarrow> tx_handling" where
  "tx_create_transaction dest source_file dest_file fsize ctype = with_machine (\<lambda>m s.
     insert_new tx_transactions put_tx TooManyConcurrentTransactions
       \<lparr>source_id = tx_id m, seq_num = tx_next_seq_num m\<rparr> (tx_new_transaction m dest source_file dest_file fsize ctype)
       ((fst s)\<lparr>tx_next_seq_num := SeqNum_increment (tx_next_seq_num m)\<rparr>, snd s))"

definition tx_handle_put_request :: "EntityId \<Rightarrow> FileId \<Rightarrow> FileId \<Rightarrow> nat \<Rightarrow> ChecksumType \<Rightarrow> tx_handling" where
  "tx_handle_put_request dest source_file dest_file fsize ctype = with_machine (\<lambda>m.
     let k = \<lparr>source_id = tx_id m, seq_num = tx_next_seq_num m\<rparr> in do_all [
       tx_create_transaction dest source_file dest_file fsize ctype,
       push_action (TxSendMetadata k dest 0 source_file dest_file ctype),
       push_action (TxReadDataSegment k 0 FILE_DATA_CHUNK_SIZE)])"

definition tx_handle_prompt_keep_alive :: "TransactionId \<Rightarrow> tx_handling" where
  "tx_handle_prompt_keep_alive k = lookup tx_transactions k (\<lambda>t.
     run_if (tt_state t = SendingFileData \<and> \<not> tt_suspended t)
       (push_action (TxSendPrompt k (destination_id (tt_config t)) PromptKeepAlive)))"

definition tx_handle_prompt_nak :: "TransactionId \<Rightarrow> tx_handling" where
  "tx_handle_prompt_nak k = lookup tx_transactions k (\<lambda>t.
     if tt_state t \<noteq> SendingFileData then ok
     else push_action (TxSendPrompt k (destination_id (tt_config t)) PromptNak))"

definition tx_handle_prompt :: "TransactionId \<Rightarrow> PromptType \<Rightarrow> tx_handling" where
  "tx_handle_prompt k prompt = (case prompt of
      PromptNak \<Rightarrow> tx_handle_prompt_nak k | PromptKeepAlive \<Rightarrow> tx_handle_prompt_keep_alive k)"

definition tx_handle_data_segment_ready :: "TransactionId \<Rightarrow> nat \<Rightarrow> bytes \<Rightarrow> tx_handling" where
  "tx_handle_data_segment_ready k off data = lookup tx_transactions k (\<lambda>t.
     if tt_suspended t then ok
     else let progress = wrap64 (off + length data) in do_all [
       push_action (TxSendFileData k (destination_id (tt_config t)) off data),
       modify tx_transactions put_tx k (tt_progress_update (\<lambda>_. progress)),
       (if progress \<ge> cfg_file_size (tt_config t)
        then push_action (TxCalculateChecksum k (checksum_type (tt_config t)))
        else push_action (TxReadDataSegment k progress (wrap64 (progress + FILE_DATA_CHUNK_SIZE))))])"

definition tx_send_eof :: "TransactionId \<Rightarrow> u32 \<Rightarrow> tx_handling" where
  "tx_send_eof k checksum = with_machine (\<lambda>m. lookup tx_transactions k (\<lambda>t. do_all [
     push_action (TxSendEof k (destination_id (tt_config t)) NoError (cfg_file_size (tt_config t)) checksum),
     modify tx_transactions put_tx k (tt_state_update (\<lambda>_. WaitingForEofAck)),
     push_action (TxStartTimer k TimerAck (tx_ack_timeout_secs m))]))"

definition tx_handle_checksum :: "TransactionId \<Rightarrow> u32 \<Rightarrow> tx_handling" where
  "tx_handle_checksum k checksum = lookup tx_transactions k (\<lambda>t. do_all [
     modify tx_transactions put_tx k (tt_file_checksum_update (\<lambda>_. Some checksum)),
     tx_send_eof k checksum])"

definition tx_handle_timer_expired :: "TransactionId \<Rightarrow> TimerType \<Rightarrow> tx_handling" where
  "tx_handle_timer_expired k timer = (case timer of
      TimerAck \<Rightarrow> lookup tx_transactions k (\<lambda>t.
        if tt_ack_retries t \<ge> tt_ack_limit t then tx_handle_terminate k AckLimitReached
        else and_do (modify tx_transactions put_tx k (tt_ack_retries_update Suc))
          (if tt_state t \<noteq> WaitingForEofAck then ok
           else try_value (ok_or (tt_file_checksum t) (Custom ''Checksum not calculated'')) (tx_send_eof k)))
    | TimerInactivity \<Rightarrow> lookup tx_transactions k (\<lambda>t.
        if tt_state t \<noteq> WaitingForFinishedPdu then ok else tx_handle_fault k InactivityDetected)
    | TimerNak \<Rightarrow> ok
    | TimerKeepAlive \<Rightarrow> ok)"

definition tx_handle_resume :: "TransactionId \<Rightarrow> tx_handling" where
  "tx_handle_resume k = lookup tx_transactions k (\<lambda>t.
     if \<not> tt_suspended t then ok
     else do_all [
       modify tx_transactions put_tx k (tt_suspended_update (\<lambda>_. False)),
       (case tt_state t of
          SendingFileData \<Rightarrow> push_action (TxReadDataSegment k (tt_progress t) (wrap64 (tt_progress t + FILE_DATA_CHUNK_SIZE)))
        | WaitingForEofAck \<Rightarrow> try_value (ok_or (tt_file_checksum t) (Custom ''Checksum missing on resume'')) (tx_send_eof k)
        | WaitingForFinishedPdu \<Rightarrow> push_action (TxStartTimer k TimerInactivity (inactivity_timeout_secs (tt_config t)))
        | WaitingForChecksum \<Rightarrow> push_action (TxCalculateChecksum k (checksum_type (tt_config t)))),
       push_action (TxNotifyResumed k (tt_progress t))])"

definition tx_handle_finished :: "TransactionId \<Rightarrow> FinishedPdu \<Rightarrow> tx_handling" where
  "tx_handle_finished k fin = lookup tx_transactions k (\<lambda>t.
     if tt_state t \<noteq> WaitingForFinishedPdu then fail (Custom ''Received Finished PDU in unexpected transaction state'')
     else do_all [
       push_action (TxStopTimer k None),
       try_value (fin_condition_code fin) (\<lambda>cond.
         push_action (TxSendAck k (destination_id (tt_config t)) AckedFinished cond StatusTerminated)),
       try_value (fin_condition_code fin) (\<lambda>cond. tx_handle_terminate k cond)])"

definition tx_handle_ack :: "TransactionId \<Rightarrow> AckPdu \<Rightarrow> tx_handling" where
  "tx_handle_ack k ack = lookup tx_transactions k (\<lambda>t.
     try_value (acked_directive_code ack) (\<lambda>code.
     if tt_state t = WaitingForEofAck \<and> code = AckedEof then do_all [
       push_action (TxStopTimer k (Some TimerAck)),
       modify tx_transactions put_tx k (tt_state_update (\<lambda>_. WaitingForFinishedPdu)),
       push_action (TxStartTimer k TimerInactivity (inactivity_timeout_secs (tt_config t)))]
     else ok))"

definition tx_handle_nak :: "TransactionId \<Rightarrow> NakPdu \<Rightarrow> tx_handling" where
  "tx_handle_nak k nak = lookup tx_transactions k (\<lambda>t. do_all [
     push_action (TxStopTimer k (Some TimerAck)),
     try_value (segment_requests nak) (\<lambda>segs. push_action (TxReadDataSegmentBatch k segs))])"

definition tx_handle_keep_alive :: "TransactionId \<Rightarrow> KeepAlivePdu \<Rightarrow> tx_handling" where
  "tx_handle_keep_alive k keepalive = lookup tx_transactions k (\<lambda>t.
     let receiver_progress = keep_alive_progress keepalive;
         last_progress = max (tt_last_receiver_progress t) receiver_progress in do_all [
       run_if (receiver_progress > tt_last_receiver_progress t)
         (modify tx_transactions put_tx k (tt_last_receiver_progress_update (\<lambda>_. receiver_progress))),
       run_if (tt_progress t - last_progress > tt_keep_alive_limit t) (tx_handle_fault k KeepAliveLimitReached)])"

definition tx_handle_pdu_received :: "Pdu \<Rightarrow> TransactionId \<Rightarrow> tx_handling" where
  "tx_handle_pdu_received pdu k = lookup tx_transactions k (\<lambda>t.
     try_value (pdu_variant pdu) (\<lambda>v. case v of
       FinishedV fin \<Rightarrow> tx_handle_finished k fin
     | AckV ack \<Rightarrow> tx_handle_ack k ack
     | NakV nak \<Rightarrow> run_if (\<not> tt_suspended t) (tx_handle_nak k nak)
     | KeepAliveV ka \<Rightarrow> run_if (\<not> tt_suspended t) (tx_handle_keep_alive k ka)
     | _ \<Rightarrow> ok))"

definition tx_dispatch :: "TxEvent \<Rightarrow> tx_handling" where
  "tx_dispatch e = (case e of
      TxPutRequest source_file dest_file dest fsize ctype \<Rightarrow> tx_handle_put_request dest source_file dest_file fsize ctype
    | TxDataSegmentReady k data off \<Rightarrow> tx_handle_data_segment_ready k off data
    | TxChecksumReady k checksum \<Rightarrow> tx_handle_checksum k checksum
    | TxPduReceived k pdu \<Rightarrow> tx_handle_pdu_received pdu k
    | TxTimerExpired k timer \<Rightarrow> tx_handle_timer_expired k timer
    | TxPromptRequest k prompt \<Rightarrow> tx_handle_prompt k prompt
    | TxSuspendRequest k \<Rightarrow> tx_handle_suspend k
    | TxResumeRequest k \<Rightarrow> tx_handle_resume k)"

definition tx_handle :: "SenderMachine \<Rightarrow> TxEvent \<Rightarrow> (SenderMachine \<times> TxAction list) \<times> CfdpError option" where
  "tx_handle m e = tx_dispatch e (m, [])"

interpretation tx: transaction_store tx_transactions put_tx
  by unfold_locales (simp add: put_tx_def)

section \<open>Streaming the file\<close>

text \<open>
  The runner reads the bytes the machine asks for and hands them back; the file store returns
  fewer at the end of the file. The run goes on as long as the last action is a request to read.
\<close>

fun tx_transfer :: "nat \<Rightarrow> bytes \<Rightarrow> SenderMachine \<Rightarrow> TransactionId \<Rightarrow> nat \<Rightarrow> nat \<Rightarrow> TxAction list" where
  "tx_transfer 0 src m k s e = []"
| "tx_transfer (Suc fuel) src m k s e =
     (let ((m', as), _) = tx_handle m (TxDataSegmentReady k (bslice src s (e - s)) s) in
      as @ (case last as of TxReadDataSegment k' s' e' \<Rightarrow> tx_transfer fuel src m' k' s' e' | _ \<Rightarrow> []))"

text \<open>The file data sent, as segments of offset and bytes.\<close>

fun sent :: "TxAction list \<Rightarrow> (nat \<times> bytes) list" where
  "sent [] = []"
| "sent (TxSendFileData k dest off data # as) = (off, data) # sent as"
| "sent (_ # as) = sent as"

fun consecutive :: "nat \<Rightarrow> (nat \<times> bytes) list \<Rightarrow> bool" where
  "consecutive off [] \<longleftrightarrow> True"
| "consecutive off ((o', data) # segs) \<longleftrightarrow> o' = off \<and> length data \<le> FILE_DATA_CHUNK_SIZE \<and> consecutive (off + length data) segs"

lemma tx_data_segment:
  assumes "lm_get (tx_transactions m) k = Some t" "\<not> tt_suspended t" "off + length data < 2 ^ 64 - FILE_DATA_CHUNK_SIZE"
  shows "tx_handle m (TxDataSegmentReady k data off) =
    ((put_tx (lm_update k (tt_progress_update (\<lambda>_. off + length data)) (tx_transactions m)) m,
      [TxSendFileData k (destination_id (tt_config t)) off data,
       if off + length data \<ge> cfg_file_size (tt_config t) then TxCalculateChecksum k (checksum_type (tt_config t))
       else TxReadDataSegment k (off + length data) (off + length data + FILE_DATA_CHUNK_SIZE)]), None)"
  using assms by (simp add: tx_handle_def tx_dispatch_def tx_handle_data_segment_ready_def lookup_def modify_def
      Let_def handling_simps FILE_DATA_CHUNK_SIZE_def)

text \<open>
  C21: The sender streams the whole file. For a transaction that is not suspended and whose
  file size is that of the source file, starting to read at offset 0 sends file data PDUs with
  consecutive offsets and at most 2048 bytes each, whose data concatenates to the file, and then
  asks for the checksum; \<open>length src div 2048 + 1\<close> reads are enough.
\<close>

theorem cfdp_sender_streams_file:
  assumes "lm_get (tx_transactions m) k = Some t" "\<not> tt_suspended t" "cfg_file_size (tt_config t) = length src"
    and small: "length src < 2 ^ 63" and fuel: "length src div FILE_DATA_CHUNK_SIZE < fuel"
  defines "as \<equiv> tx_transfer fuel src m k 0 FILE_DATA_CHUNK_SIZE"
  shows "concat (map snd (sent as)) = src \<and> consecutive 0 (sent as)
    \<and> last as = TxCalculateChecksum k (checksum_type (tt_config t))"
proof -
  let ?c = FILE_DATA_CHUNK_SIZE
  have cpos: "0 < ?c" by (simp add: FILE_DATA_CHUNK_SIZE_def)
  have "concat (map snd (sent (tx_transfer fuel src m k off (off + ?c)))) = drop off src
      \<and> consecutive off (sent (tx_transfer fuel src m k off (off + ?c)))
      \<and> last (tx_transfer fuel src m k off (off + ?c)) = TxCalculateChecksum k (checksum_type (tt_config t))
      \<and> tx_transfer fuel src m k off (off + ?c) \<noteq> []"
    if "lm_get (tx_transactions m) k = Some t" "\<not> tt_suspended t" "cfg_file_size (tt_config t) = length src"
      "off \<le> length src" "(length src - off) div ?c < fuel" for off m t
    using that
  proof (induction fuel arbitrary: off m t)
    case (Suc fuel)
    let ?d = "bslice src off ?c"
    let ?m = "put_tx (lm_update k (tt_progress_update (\<lambda>_. off + length ?d)) (tx_transactions m)) m"
    have len: "length ?d = min ?c (length src - off)" by (simp add: bslice_def)
    then have "off + length ?d < 2 ^ 64 - ?c" using Suc.prems(4) small by (simp add: FILE_DATA_CHUNK_SIZE_def)
    note h = tx_data_segment [OF Suc.prems(1,2) this]
    show ?case
    proof (cases "off + length ?d \<ge> length src")
      case True
      then have "?d = drop off src" using len by (simp add: bslice_def)
      then show ?thesis using h True Suc.prems(3) len by (simp add: Let_def)
    next
      case False
      then have full: "length ?d = ?c" using len by simp
      have split: "?d @ drop (off + ?c) src = drop off src"
        by (metis add.commute append_take_drop_id bslice_def drop_drop)
      let ?t = "t\<lparr>tt_progress := off + ?c\<rparr>"
      have "lm_get (tx_transactions ?m) k = Some ?t" using Suc.prems(1) full by (simp add: put_tx_def)
      moreover have "(length src - (off + ?c)) div ?c < fuel"
        using Suc.prems(5) False full cpos by (simp add: le_div_geq flip: diff_diff_left)
      ultimately have ih: "concat (map snd (sent (tx_transfer fuel src ?m k (off + ?c) (off + ?c + ?c)))) = drop (off + ?c) src
          \<and> consecutive (off + ?c) (sent (tx_transfer fuel src ?m k (off + ?c) (off + ?c + ?c)))
          \<and> last (tx_transfer fuel src ?m k (off + ?c) (off + ?c + ?c)) = TxCalculateChecksum k (checksum_type (tt_config ?t))
          \<and> tx_transfer fuel src ?m k (off + ?c) (off + ?c + ?c) \<noteq> []"
        using Suc.IH [of ?m ?t "off + ?c"] Suc.prems(2,3) False full by simp
      have step: "tx_transfer (Suc fuel) src m k off (off + ?c) =
          [TxSendFileData k (destination_id (tt_config t)) off ?d, TxReadDataSegment k (off + ?c) (off + ?c + ?c)]
          @ tx_transfer fuel src ?m k (off + ?c) (off + ?c + ?c)"
        using h False Suc.prems(3) full by (simp add: Let_def)
      show ?thesis unfolding step using ih split full by simp
    qed
  qed simp
  from this [of m t 0] assms show ?thesis by simp
qed

theorem cfdp_sender_streams_file_witness:
  "let m = \<lparr>tx_transactions = [(\<lparr>source_id = 1, seq_num = 0\<rparr>,
         tx_new_transaction (tx_new 1 10 1000) 2 0 1 5000 Modular)], tx_next_seq_num = 1, tx_id = 1,
         tx_keep_alive_limit = 1000, tx_ack_timeout_secs = 10\<rparr>;
       as = tx_transfer 3 (replicate 5000 7) m \<lparr>source_id = 1, seq_num = 0\<rparr> 0 2048
   in concat (map snd (sent as)) = replicate 5000 7 \<and> consecutive 0 (sent as)
      \<and> last as = TxCalculateChecksum \<lparr>source_id = 1, seq_num = 0\<rparr> Modular"
proof -
  let ?t = "tx_new_transaction (tx_new 1 10 1000) 2 0 1 5000 Modular"
  let ?k = "\<lparr>source_id = 1, seq_num = 0\<rparr> :: TransactionId"
  let ?m = "\<lparr>tx_transactions = [(?k, ?t)], tx_next_seq_num = 1, tx_id = 1, tx_keep_alive_limit = 1000, tx_ack_timeout_secs = 10\<rparr>"
  have get: "lm_get (tx_transactions ?m) ?k = Some ?t" by (simp add: lm_get_def)
  have "length (replicate 5000 (7 :: u8)) div FILE_DATA_CHUNK_SIZE < 3" by (simp add: FILE_DATA_CHUNK_SIZE_def)
  from cfdp_sender_streams_file [OF get _ _ _ this] show ?thesis
    by (simp add: tx_new_transaction_def FILE_DATA_CHUNK_SIZE_def Let_def del: tx_transfer.simps)
qed

end
