(* ===== verification/Cfdp_Build.thy ===== *)
theory Cfdp_Build
  imports Cfdp_Directives
begin

text \<open>
  The builders of CFDP PDUs (\<open>pdu/mod.rs\<close>, \<open>pdu/file_directive/\<close>, \<open>pdu/file_data/\<close>). A builder
  writes into a buffer of the caller and returns the PDU, an error, or panics (\<open>unwrap\<close>). The PDU
  is cut from the buffer by the header that is in the buffer before the new one is written, and
  packed fields keep the bits around them that the buffer held.

  The first properties say what that means: on a buffer of zeros no directive can be built. On a
  buffer that already announces the right length, EOF PDUs round trip. ACK PDUs are built with a
  directive code that their own parser rejects.
\<close>

section \<open>Definitions\<close>

type_synonym building = "(CfdpError + Pdu) outcome"

text \<open>The common start: header, PDU, data field, directive code.\<close>

definition u16_of :: "nat \<Rightarrow> u16" where
  "u16_of n = of_nat n"

definition with_data :: "Pdu \<Rightarrow> bytes \<Rightarrow> Pdu" where
  "with_data p d = p\<lparr>pdu_rest := take (variable_header_len (header_fixed p)) (pdu_rest p) @ d\<rparr>"

definition new_pdu ::
  "bytes \<Rightarrow> PduType \<Rightarrow> PduDirection \<Rightarrow> TransmissionMode \<Rightarrow> bool \<Rightarrow> bool \<Rightarrow> u16 \<Rightarrow> bool \<Rightarrow> bool \<Rightarrow>
   EntityId \<Rightarrow> EntityId \<Rightarrow> nat \<Rightarrow> CfdpError + Pdu" where
  "new_pdu buffer ty dir mode crc large dlen seg_ctrl seg_meta src dst sn =
     rbind (header_new 1 ty dir mode crc large dlen seg_ctrl seg_meta) (\<lambda>h. pdu_new buffer h src dst sn)"

definition start_directive ::
  "bytes \<Rightarrow> PduDirection \<Rightarrow> TransmissionMode \<Rightarrow> bool \<Rightarrow> bool \<Rightarrow> u16 \<Rightarrow> EntityId \<Rightarrow> EntityId \<Rightarrow> nat \<Rightarrow>
   (nat \<Rightarrow> CfdpError) \<Rightarrow> CfdpError + Pdu \<times> bytes" where
  "start_directive buffer dir mode crc large dlen src dst sn short =
     rbind (new_pdu buffer FileDirectiveType dir mode crc large dlen False False src dst sn) (\<lambda>p.
     rbind (data_field p) (\<lambda>d. case d of [] \<Rightarrow> Inl (short 0) | _ # rest \<Rightarrow> Inr (p, rest)))"

definition finish_directive :: "DirectiveCode \<Rightarrow> Pdu \<Rightarrow> bytes \<Rightarrow> CfdpError + Pdu" where
  "finish_directive code p rest = Inr (with_data p (DirectiveCode_value code # rest))"

text \<open>ACK: the two octets must be the whole of the data field.\<close>

definition ack_octets :: "AckedDirectiveCode \<Rightarrow> ConditionCode \<Rightarrow> TransactionStatus \<Rightarrow> u8 \<Rightarrow> u8 \<Rightarrow> bytes" where
  "ack_octets code cond st a b =
     [set_bits (set_bits a ACK_DIR_CODE_MASK (AckedDirectiveCode_value code)) ACK_DIR_SUBTYPE_CODE_MASK
        (case code of AckedEof \<Rightarrow> 0 | AckedFinished \<Rightarrow> 1),
      set_bits (set_bits b ACK_CC_MASK (of_nat (condition_value cond))) ACK_TRANSACTION_STATUS_MASK (TransactionStatus_value st)]"

definition ack_new ::
  "bytes \<Rightarrow> EntityId \<Rightarrow> EntityId \<Rightarrow> nat \<Rightarrow> TransmissionMode \<Rightarrow> bool \<Rightarrow> AckedDirectiveCode \<Rightarrow> ConditionCode \<Rightarrow>
   TransactionStatus \<Rightarrow> building" where
  "ack_new buffer src dst sn mode crc code cond st = Returns
     (rbind (start_directive buffer TowardSender mode crc False (u16_of 3) src dst sn
               (\<lambda>_. Custom ''Failed to create FileDirectivePdu'')) (\<lambda>(p, rest).
      case rest of [a, b] \<Rightarrow> finish_directive DirAck p (ack_octets code cond st a b)
      | _ \<Rightarrow> Inl (Custom ''Failed to create AckPdu'')))"

text \<open>A size or offset field of 32 or 64 bits at the start of a slice.\<close>

definition fss_len :: "bool \<Rightarrow> nat" where
  "fss_len large = (if large then 8 else 4)"

definition set_file_size :: "bool \<Rightarrow> nat \<Rightarrow> bytes \<Rightarrow> bytes option" where
  "set_file_size large fsize rest =
     (if \<not> large \<and> fsize > 2 ^ 32 - 1 then None
      else if length rest < fss_len large then None
      else Some (blit rest 0 (nat_be (fss_len large) fsize)))"

text \<open>The fault location is written as a TLV into as many bytes as its value alone has.\<close>

definition write_fault_location :: "nat \<Rightarrow> bytes \<Rightarrow> bytes \<Rightarrow> CfdpError + bytes" where
  "write_fault_location off location rest =
     (let sl = drop off rest in
      if length sl < 2 then Inl (BufferTooSmall (length location) (length sl))
      else if length location > 255 then Inl (Custom ''Failed to set TLV length'')
      else if length location > length sl - 2 then Inl (Custom ''Failed to set TLV value'')
      else Inr (blit rest off (TlvType_value EntityIdTlv # of_nat (length location) # location)))"

definition eof_new ::
  "bytes \<Rightarrow> EntityId \<Rightarrow> EntityId \<Rightarrow> nat \<Rightarrow> TransmissionMode \<Rightarrow> bool \<Rightarrow> bool \<Rightarrow> ConditionCode \<Rightarrow> u32 \<Rightarrow> nat \<Rightarrow>
   bytes option \<Rightarrow> building" where
  "eof_new buffer src dst sn mode large crc cond checksum fsize location = Returns
     (let rest_len = fss_len large + (case location of None \<Rightarrow> 0 | Some l \<Rightarrow> length l);
          dlen = u16_of (1 + (5 + rest_len)) in
      rbind (start_directive buffer TowardReceiver mode crc large dlen src dst sn (BufferTooSmall (unat dlen))) (\<lambda>(p, rest).
      if length rest \<noteq> 5 + rest_len then Inl (BufferTooSmall (5 + rest_len) (length rest))
      else rbind (ok_or (set_file_size large fsize (drop 5 rest)) (Custom ''Failed to set file size'')) (\<lambda>tail.
      rbind (case location of None \<Rightarrow> Inr tail | Some l \<Rightarrow> write_fault_location (fss_len large) l tail) (\<lambda>tail.
      finish_directive DirEof p
        (set_bits (hd rest) CONDITION_CODE_MASK (of_nat (condition_value cond)) # be32_of checksum @ tail)))))"

definition FileStatus_value :: "FileStatus \<Rightarrow> u8" where
  "FileStatus_value s = (case s of DiscardedDeliberately \<Rightarrow> 0 | DiscardedFileStoreRejection \<Rightarrow> 1 | Retained \<Rightarrow> 2 | Unreported \<Rightarrow> 3)"

definition fin_octet :: "ConditionCode \<Rightarrow> bool \<Rightarrow> FileStatus \<Rightarrow> u8 \<Rightarrow> u8" where
  "fin_octet cond complete fstatus a =
     set_bits (set_bits (set_bits a CONDITION_CODE_MASK (of_nat (condition_value cond)))
       FINISHED_DELIVERY_CODE_MASK (of_bool (\<not> complete))) FINISHED_FILE_STATUS_MASK (FileStatus_value fstatus)"

text \<open>The Finished PDU is cast from a prefix, so a longer data field keeps its tail.\<close>

definition finished_new ::
  "bytes \<Rightarrow> EntityId \<Rightarrow> EntityId \<Rightarrow> nat \<Rightarrow> TransmissionMode \<Rightarrow> bool \<Rightarrow> bool \<Rightarrow> ConditionCode \<Rightarrow> bool \<Rightarrow> FileStatus \<Rightarrow>
   bytes option \<Rightarrow> bytes option \<Rightarrow> building" where
  "finished_new buffer src dst sn mode large crc cond complete fstatus responses location = Returns
     (let tlvs = (case responses of None \<Rightarrow> [] | Some r \<Rightarrow> r) @ (case location of None \<Rightarrow> [] | Some l \<Rightarrow> l);
          dlen = u16_of (1 + (1 + length tlvs)) in
      rbind (start_directive buffer TowardSender mode crc large dlen src dst sn
               (\<lambda>_. Custom ''Failed to parse File Directive PDU from data field'')) (\<lambda>(p, rest).
      if length rest < 1 + length tlvs then Inl (BufferTooSmall (1 + length tlvs) (length rest))
      else finish_directive DirFinished p (fin_octet cond complete fstatus (hd rest) # blit (tl rest) 0 tlvs)))"

text \<open>Metadata: the options' bytes are checked for room and not written.\<close>

definition meta_names :: "nat \<Rightarrow> bytes \<Rightarrow> bytes \<Rightarrow> nat \<Rightarrow> bytes \<Rightarrow> bytes option" where
  "meta_names off source dest opts_len rest =
     (if length source > 255 \<or> length dest > 255 then None
      else if length rest < off + 1 + length source + 1 + length dest + opts_len then None
      else Some (blit rest off (of_nat (length source) # source @ of_nat (length dest) # dest)))"

definition metadata_new ::
  "bytes \<Rightarrow> EntityId \<Rightarrow> EntityId \<Rightarrow> nat \<Rightarrow> TransmissionMode \<Rightarrow> bool \<Rightarrow> bool \<Rightarrow> bool \<Rightarrow> ChecksumType \<Rightarrow> nat \<Rightarrow>
   bytes \<Rightarrow> bytes \<Rightarrow> bytes option \<Rightarrow> building" where
  "metadata_new buffer src dst sn mode large crc closure ctype fsize source dest opts = Returns
     (let opts_len = (case opts of None \<Rightarrow> 0 | Some b \<Rightarrow> length b);
          rest_len = fss_len large + (1 + length source) + (1 + length dest) + opts_len;
          dlen = u16_of (1 + (1 + rest_len)) in
      rbind (start_directive buffer TowardReceiver mode crc large dlen src dst sn (BufferTooSmall (unat dlen))) (\<lambda>(p, rest).
      if length rest \<noteq> 1 + rest_len then Inl (BufferTooSmall (1 + rest_len) (length rest))
      else rbind (ok_or (set_file_size large fsize (tl rest)) (Custom ''Failed to set file size in Metadata PDU'')) (\<lambda>tail.
      rbind (ok_or (meta_names (fss_len large) source dest opts_len tail)
               (Custom ''Failed to set variable fields in Metadata PDU'')) (\<lambda>tail.
      finish_directive DirMetadata p
        (set_bits (set_bits (hd rest) META_CLOSURE_REQ_MASK (if closure then 1 else 0)) META_CHECKSUM_TYPE_MASK (ChecksumType_value ctype)
         # tail)))))"

text \<open>NAK: scope and segments. The small form checks each segment as it writes it.\<close>

definition segment_bytes :: "nat \<Rightarrow> (nat \<times> nat) list \<Rightarrow> bytes" where
  "segment_bytes w segs = concat (map (\<lambda>(s, e). nat_be w s @ nat_be w e) segs)"

definition nak_small_new ::
  "bytes \<Rightarrow> EntityId \<Rightarrow> EntityId \<Rightarrow> nat \<Rightarrow> TransmissionMode \<Rightarrow> bool \<Rightarrow> u32 \<Rightarrow> u32 \<Rightarrow> (nat \<times> nat) list \<Rightarrow> building" where
  "nak_small_new buffer src dst sn mode crc scope_start scope_end segs = Returns
     (let dlen = u16_of (1 + (8 + length segs * 8)) in
      rbind (start_directive buffer TowardSender mode crc False dlen src dst sn
               (\<lambda>_. Custom ''Failed to get mutable directive PDU for NAK PDU'')) (\<lambda>(p, rest).
      if length rest \<noteq> 8 + length segs * 8 then Inl (Custom ''Failed to build NAK PDU'')
      else if (\<exists>s\<in>set segs. fst s > 2 ^ 32 - 1 \<or> snd s > 2 ^ 32 - 1) then Inl (DataTooLarge ''segment offset'' (2 ^ 32 - 1))
      else finish_directive DirNak p (be32_of scope_start @ be32_of scope_end @ segment_bytes 4 segs)))"

definition nak_large_new ::
  "bytes \<Rightarrow> EntityId \<Rightarrow> EntityId \<Rightarrow> nat \<Rightarrow> TransmissionMode \<Rightarrow> bool \<Rightarrow> nat \<Rightarrow> nat \<Rightarrow> (nat \<times> nat) list \<Rightarrow> building" where
  "nak_large_new buffer src dst sn mode crc scope_start scope_end segs = Returns
     (let dlen = u16_of (1 + (16 + length segs * 16)) in
      rbind (start_directive buffer TowardSender mode crc True dlen src dst sn
               (\<lambda>_. Custom ''Failed to get mutable directive PDU for NAK PDU'')) (\<lambda>(p, rest).
      if length rest \<noteq> 16 + length segs * 16 then Inl (Custom ''Failed to build NAK PDU'')
      else finish_directive DirNak p (nat_be 8 scope_start @ nat_be 8 scope_end @ segment_bytes 8 segs)))"

text \<open>Prompt and Keep Alive \<open>unwrap\<close> the casts of the data field.\<close>

definition unwrap_directive ::
  "CfdpError + Pdu \<Rightarrow> nat \<Rightarrow> (Pdu \<Rightarrow> bytes \<Rightarrow> CfdpError + Pdu) \<Rightarrow> building" where
  "unwrap_directive x n f = (case x of Inl e \<Rightarrow> Returns (Inl e)
     | Inr p \<Rightarrow> (case data_field p of Inr (_ # rest) \<Rightarrow> if length rest = n then Returns (f p rest) else Panics | _ \<Rightarrow> Panics))"

definition prompt_new ::
  "bytes \<Rightarrow> EntityId \<Rightarrow> EntityId \<Rightarrow> nat \<Rightarrow> TransmissionMode \<Rightarrow> bool \<Rightarrow> PromptType \<Rightarrow> building" where
  "prompt_new buffer src dst sn mode crc response =
     unwrap_directive (new_pdu buffer FileDirectiveType TowardReceiver mode crc False (u16_of 2) False False src dst sn) 1
       (\<lambda>p rest. finish_directive DirPrompt p
          [set_bits (hd rest) PROMPT_RESPONSE_REQUIRED_MASK (case response of PromptNak \<Rightarrow> 0 | PromptKeepAlive \<Rightarrow> 1)])"

definition keep_alive_small_new ::
  "bytes \<Rightarrow> EntityId \<Rightarrow> EntityId \<Rightarrow> nat \<Rightarrow> TransmissionMode \<Rightarrow> bool \<Rightarrow> u32 \<Rightarrow> building" where
  "keep_alive_small_new buffer src dst sn mode crc progress =
     unwrap_directive (new_pdu buffer FileDirectiveType TowardSender mode crc False (u16_of 5) False False src dst sn) 4
       (\<lambda>p rest. finish_directive DirKeepAlive p (be32_of progress))"

definition keep_alive_large_new ::
  "bytes \<Rightarrow> EntityId \<Rightarrow> EntityId \<Rightarrow> nat \<Rightarrow> TransmissionMode \<Rightarrow> bool \<Rightarrow> nat \<Rightarrow> building" where
  "keep_alive_large_new buffer src dst sn mode crc progress =
     unwrap_directive (new_pdu buffer FileDirectiveType TowardSender mode crc True (u16_of 9) False False src dst sn) 8
       (\<lambda>p rest. finish_directive DirKeepAlive p (nat_be 8 progress))"

text \<open>File data: the offset is written, the data is left to the caller.\<close>

definition set_offset :: "bool \<Rightarrow> nat \<Rightarrow> bytes \<Rightarrow> CfdpError + bytes" where
  "set_offset large off rest =
     (if \<not> large \<and> off > 2 ^ 32 - 1 then Inl (DataTooLarge ''offset'' (2 ^ 32 - 1))
      else if length rest < fss_len large then Inl (Custom ''Invalid FSS Offset'')
      else Inr (blit rest 0 (nat_be (fss_len large) off)))"

definition file_data_new ::
  "bytes \<Rightarrow> EntityId \<Rightarrow> EntityId \<Rightarrow> nat \<Rightarrow> TransmissionMode \<Rightarrow> bool \<Rightarrow> bool \<Rightarrow> bool \<Rightarrow> nat \<Rightarrow> nat \<Rightarrow> building" where
  "file_data_new buffer src dst sn mode large crc seg_ctrl off file_data_len = Returns
     (rbind (new_pdu buffer FileDataType TowardReceiver mode crc large (u16_of (fss_len large + file_data_len)) seg_ctrl False src dst sn) (\<lambda>p.
      rbind (data_field p) (\<lambda>d.
      rbind (set_offset large off d) (\<lambda>d. Inr (with_data p d)))))"

definition file_data_meta_new ::
  "bytes \<Rightarrow> EntityId \<Rightarrow> EntityId \<Rightarrow> nat \<Rightarrow> TransmissionMode \<Rightarrow> bool \<Rightarrow> bool \<Rightarrow> bool \<Rightarrow> u8 \<Rightarrow> bytes \<Rightarrow> nat \<Rightarrow> nat \<Rightarrow> building" where
  "file_data_meta_new buffer src dst sn mode large crc seg_ctrl rcs seg_meta off file_data_len =
     (if unat rcs > 3 then Returns (Inl (DataTooLarge ''record_continuation_state'' 3))
      else if length seg_meta > 63 then Returns (Inl (DataTooLarge ''segment_metadata'' 63))
      else case new_pdu buffer FileDataType TowardReceiver mode crc large
                  (u16_of (1 + length seg_meta + fss_len large + file_data_len)) seg_ctrl True src dst sn of
        Inl e \<Rightarrow> Returns (Inl e)
      | Inr p \<Rightarrow> (case data_field p of
          Inr (a # rest) \<Rightarrow> Returns
            (let a' = set_bits (set_bits a FILE_DATA_REC_CONT_STATE_MASK rcs) FILE_DATA_SEG_META_LEN_MASK (of_nat (length seg_meta)) in
             if length rest < length seg_meta then Inl (Custom ''Invalid segment metadata slice'')
             else rbind (set_offset large off (drop (length seg_meta) rest)) (\<lambda>tail.
                  Inr (with_data p (a' # seg_meta @ tail))))
        | _ \<Rightarrow> Panics))"

section \<open>Laws\<close>

definition built :: "building \<Rightarrow> bool" where
  "built x = (case x of Returns (Inr p) \<Rightarrow> True | _ \<Rightarrow> False)"

lemma built_simps [simp]: "built (Returns (Inr p))" "\<not> built (Returns (Inl e))" "\<not> built Panics"
  by (simp_all add: built_def)

lemma with_data_header [simp]: "header_fixed (with_data p d) = header_fixed p"
  by (simp add: with_data_def)

lemma data_field_with_data [simp]:
  "variable_header_len (header_fixed p) \<le> length (pdu_rest p) \<Longrightarrow> data_field (with_data p d) = Inr d"
  by (simp add: data_field_Inr with_data_def)

lemma new_pdu_shape:
  assumes "new_pdu buffer ty dir mode crc large dlen seg_ctrl seg_meta src dst sn = Inr p"
  obtains old where "header_of buffer = Some old" "length (pdu_rest p) = total_pdu_len old - 4"
    "variable_header_len (header_fixed p) \<le> length (pdu_rest p)"
    "variable_header_len (header_fixed p) = 2 * max (min_len src) (min_len dst) + min_len sn"
    "pdu_type (header_fixed p) = ty" "large_file_flag (header_fixed p) = large"
proof -
  obtain h where h: "header_new 1 ty dir mode crc large dlen seg_ctrl seg_meta = Inr h" "pdu_type h = ty" "large_file_flag h = large"
    by (rule header_new_fields [of ty dir mode crc large dlen seg_ctrl seg_meta])
  then have "pdu_new buffer h src dst sn = Inr p" using assms by (simp add: new_pdu_def)
  then show thesis
  proof (rule pdu_new_shape)
    fix old assume "header_of buffer = Some old" "length (pdu_rest p) = total_pdu_len old - 4"
      "variable_header_len (header_fixed p) \<le> length (pdu_rest p)"
      "variable_header_len (header_fixed p) = 2 * max (min_len src) (min_len dst) + min_len sn"
      "version_and_flags (header_fixed p) = version_and_flags h"
    then show thesis using that h by (simp add: pdu_type_def large_file_flag_def)
  qed
qed

section \<open>A buffer of zeros\<close>

lemma zero_header_len:
  assumes "header_of (replicate n 0) = Some old"
  shows "total_pdu_len old = 7"
proof -
  have "\<not> n < 4"
  proof
    assume "n < 4"
    then consider "n = 0" | "n = 1" | "n = 2" | "n = 3" by linarith
    then show False using assms by cases (simp_all add: numeral_eq_Suc)
  qed
  then obtain m where "n = Suc (Suc (Suc (Suc m)))" using le_Suc_ex [of 4 n] by (auto simp: not_less eval_nat_numeral)
  then have "old = \<lparr>version_and_flags = 0, hdr_data_field_len = 0, lengths_and_metadata_flag = 0\<rparr>"
    using assms by (simp add: be16_to_def)
  then show ?thesis
    by (simp add: total_pdu_len_def total_header_len_def fixed_header_len_def variable_header_len_def
        pdu_data_field_len_def entity_id_len_def txn_seq_num_len_def get_bits_def)
qed

lemma new_pdu_zeros:
  assumes "new_pdu (replicate n 0) ty dir mode crc large dlen seg_ctrl seg_meta src dst sn = Inr p"
  shows "data_field p = Inr []"
proof -
  obtain old where "header_of (replicate n 0) = Some old" "length (pdu_rest p) = total_pdu_len old - 4"
    "variable_header_len (header_fixed p) \<le> length (pdu_rest p)"
    "variable_header_len (header_fixed p) = 2 * max (min_len src) (min_len dst) + min_len sn"
    using new_pdu_shape [OF assms] by metis
  moreover from this(1) have "total_pdu_len old = 7" by (rule zero_header_len)
  moreover have "3 \<le> 2 * max (min_len src) (min_len dst) + min_len sn"
    using min_len_bounds(1) [of src] min_len_bounds(1) [of sn] by simp
  ultimately show ?thesis by (simp add: data_field_Inr)
qed

lemma start_directive_zeros: "\<exists>e. start_directive (replicate n 0) dir mode crc large dlen src dst sn short = Inl e"
  using new_pdu_zeros
  by (cases "new_pdu (replicate n 0) FileDirectiveType dir mode crc large dlen False False src dst sn")
    (simp_all add: start_directive_def)

lemma unwrap_zeros:
  "\<not> built (unwrap_directive (new_pdu (replicate n 0) ty dir mode crc large dlen seg_ctrl seg_meta src dst sn) k f)"
  using new_pdu_zeros
  by (cases "new_pdu (replicate n 0) ty dir mode crc large dlen seg_ctrl seg_meta src dst sn")
    (simp_all add: unwrap_directive_def)

text \<open>
  C23: No file directive can be built in a fresh buffer. Every builder cuts the PDU from the
  buffer by the header the buffer held before; zeros announce a PDU of seven bytes with an empty
  data field, so that on a zeroed buffer of any size the builders of all directives fail: with an
  error, or, for Prompt and Keep Alive, by a panic.
\<close>

theorem directives_fail_on_zeros:
  defines "zeros n \<equiv> replicate n 0"
  shows "\<not> built (ack_new (zeros n) src dst sn mode crc code cond st)
    \<and> \<not> built (eof_new (zeros n) src dst sn mode large crc cond checksum fsize location)
    \<and> \<not> built (finished_new (zeros n) src dst sn mode large crc cond complete fstatus responses location)
    \<and> \<not> built (metadata_new (zeros n) src dst sn mode large crc closure ctype fsize source dest opts)
    \<and> \<not> built (nak_small_new (zeros n) src dst sn mode crc s32 e32 segs)
    \<and> \<not> built (nak_large_new (zeros n) src dst sn mode crc s64 e64 segs)
    \<and> \<not> built (prompt_new (zeros n) src dst sn mode crc response)
    \<and> \<not> built (keep_alive_small_new (zeros n) src dst sn mode crc p32)
    \<and> \<not> built (keep_alive_large_new (zeros n) src dst sn mode crc p64)"
proof -
  have fails: "\<not> built (Returns (rbind (start_directive (replicate n 0) dir mode crc large dlen src dst sn short) f))"
    for dir large dlen short and f :: "Pdu \<times> bytes \<Rightarrow> CfdpError + Pdu"
    using start_directive_zeros [of n dir mode crc large dlen src dst sn short] by auto
  show ?thesis
    unfolding zeros_def ack_new_def eof_new_def finished_new_def metadata_new_def nak_small_new_def nak_large_new_def
      prompt_new_def keep_alive_small_new_def keep_alive_large_new_def Let_def
    by (intro conjI fails unwrap_zeros)
qed

section \<open>ACK\<close>

interpretation a_code: bit_field ACK_DIR_CODE_MASK 4 4
  by unfold_locales (simp_all add: ACK_DIR_CODE_MASK_def mask_eq_exp_minus_1 push_bit_eq_mult)
interpretation a_sub: bit_field ACK_DIR_SUBTYPE_CODE_MASK 0 4
  by unfold_locales (simp_all add: ACK_DIR_SUBTYPE_CODE_MASK_def mask_eq_exp_minus_1 push_bit_eq_mult)
interpretation a_cc: bit_field ACK_CC_MASK 4 4
  by unfold_locales (simp_all add: ACK_CC_MASK_def mask_eq_exp_minus_1 push_bit_eq_mult)
interpretation a_status: bit_field ACK_TRANSACTION_STATUS_MASK 0 2
  by unfold_locales (simp_all add: ACK_TRANSACTION_STATUS_MASK_def mask_eq_exp_minus_1 push_bit_eq_mult)
interpretation e_cc: bit_field CONDITION_CODE_MASK 4 4
  by unfold_locales (simp_all add: CONDITION_CODE_MASK_def mask_eq_exp_minus_1 push_bit_eq_mult)

lemma condition_fits: "take_bit 4 (of_nat (condition_value c) :: u8) = of_nat (condition_value c)"
  by (cases c) (simp_all add: condition_value_def)

lemma condition_roundtrip: "ConditionCode_try_from (of_nat (condition_value c)) = Inr c"
  by (cases c) (simp_all add: condition_value_def ConditionCode_try_from_def)

lemma ack_octets_read:
  assumes "[a', b'] = ack_octets code cond st a b"
  defines "ack \<equiv> \<lparr>packed_codes = a', packed_status = b'\<rparr>"
  shows "acked_directive_code ack = Inl (Custom ''Invalid AckedPduDirectiveCode value'')"
    "ack_condition_code ack = Inr cond" "ack_transaction_status ack = Inr st"
proof -
  have "get_bits a' ACK_DIR_CODE_MASK = AckedDirectiveCode_value code"
    using assms(1) by (cases code) (simp_all add: ack_octets_def AckedDirectiveCode_value_def
        a_sub.get_above [OF a_code.bit_field_axioms] a_code.get_set_fits)
  then show "acked_directive_code ack = Inl (Custom ''Invalid AckedPduDirectiveCode value'')"
    by (cases code) (simp_all add: ack_def acked_directive_code_def directive_code_of_acked_pdu_def
        AckedDirectiveCode_try_from_def AckedDirectiveCode_value_def)
  have fits: "take_bit 2 (TransactionStatus_value st) = TransactionStatus_value st"
    by (cases st) (simp_all add: TransactionStatus_value_def)
  then have "get_bits b' ACK_CC_MASK = of_nat (condition_value cond)"
    using assms(1) condition_fits [of cond]
    by (simp add: ack_octets_def a_status.get_above [OF a_cc.bit_field_axioms] a_cc.get_set_fits)
  then show "ack_condition_code ack = Inr cond" by (simp add: ack_def ack_condition_code_def condition_roundtrip)
  have "get_bits b' ACK_TRANSACTION_STATUS_MASK = TransactionStatus_value st"
    using assms(1) fits by (simp add: ack_octets_def a_status.get_set_fits)
  then show "ack_transaction_status ack = Inr st"
    by (cases st) (simp_all add: ack_def ack_transaction_status_def TransactionStatus_try_from_def TransactionStatus_value_def)
qed

lemma start_directiveE:
  assumes "start_directive buffer dir mode crc large dlen src dst sn short = Inr (p, rest)"
  obtains c where "new_pdu buffer FileDirectiveType dir mode crc large dlen False False src dst sn = Inr p"
    "data_field p = Inr (c # rest)"
proof -
  obtain p' d where "new_pdu buffer FileDirectiveType dir mode crc large dlen False False src dst sn = Inr p'"
    "data_field p' = Inr d" "(case d of [] \<Rightarrow> Inl (short 0) | _ # rest \<Rightarrow> Inr (p', rest)) = Inr (p, rest)"
    using assms by (auto simp: start_directive_def rbind_Inr_iff)
  then show thesis using that by (cases d) auto
qed

lemma two_octets:
  assumes "(case rest of [a, b] \<Rightarrow> f a b | _ \<Rightarrow> Inl e) = Inr p"
  obtains a b where "rest = [a, b]" "f a b = Inr p"
  using assms by (auto split: list.split_asm)

lemma start_directive_shape:
  assumes "start_directive buffer dir mode crc large dlen src dst sn short = Inr (p, rest)"
  shows "pdu_type (header_fixed p) = FileDirectiveType" "large_file_flag (header_fixed p) = large"
    "variable_header_len (header_fixed p) \<le> length (pdu_rest p)"
proof -
  have n: "new_pdu buffer FileDirectiveType dir mode crc large dlen False False src dst sn = Inr p"
    by (rule start_directiveE [OF assms])
  show "pdu_type (header_fixed p) = FileDirectiveType" "large_file_flag (header_fixed p) = large"
    "variable_header_len (header_fixed p) \<le> length (pdu_rest p)"
    using new_pdu_shape [OF n] by metis+
qed

lemma ack_new_reads:
  assumes "ack_new buffer src dst sn mode crc code cond st = Returns (Inr p)"
  obtains a where "pdu_variant p = Inr (AckV a)"
    "acked_directive_code a = Inl (Custom ''Invalid AckedPduDirectiveCode value'')"
    "ack_condition_code a = Inr cond" "ack_transaction_status a = Inr st"
proof -
  obtain p0 rest where s0: "start_directive buffer TowardSender mode crc False (u16_of 3) src dst sn
      (\<lambda>_. Custom ''Failed to create FileDirectivePdu'') = Inr (p0, rest)"
    and r: "(case rest of [a, b] \<Rightarrow> finish_directive DirAck p0 (ack_octets code cond st a b)
      | _ \<Rightarrow> Inl (Custom ''Failed to create AckPdu'')) = Inr p"
    using assms by (auto simp: ack_new_def rbind_Inr_iff)
  obtain x y where xy: "rest = [x, y]" "finish_directive DirAck p0 (ack_octets code cond st x y) = Inr p"
    by (rule two_octets [OF r])
  note s = s0 [unfolded xy(1)]
  have p: "p = with_data p0 (DirectiveCode_value DirAck # ack_octets code cond st x y)"
    using xy(2) by (simp add: finish_directive_def)
  obtain a' b' where o: "ack_octets code cond st x y = [a', b']" by (simp add: ack_octets_def)
  note shape = start_directive_shape [OF s]
  have "pdu_variant p = Inr (AckV \<lparr>packed_codes = a', packed_status = b'\<rparr>)"
    using shape by (simp add: p o pdu_variant_def DirectiveCode_value_def DirectiveCode_try_from_def directive_view_def)
  then show thesis using that ack_octets_read [OF o [symmetric]] by blast
qed

section \<open>EOF\<close>

lemma start_directive_ok:
  fixes src dst sn :: nat
  defines "e \<equiv> max (min_len src) (min_len dst)"
  assumes old: "header_of buffer = Some old" "total_pdu_len old \<le> length buffer"
    and room: "total_pdu_len old = 4 + (2 * e + min_len sn) + Suc n"
  obtains p rest where "start_directive buffer dir mode crc large dlen src dst sn short = Inr (p, rest)" "length rest = n"
    "take (variable_header_len (header_fixed p)) (pdu_rest p) = nat_be e src @ nat_be (min_len sn) sn @ nat_be e dst"
    "hdr_data_field_len (header_fixed p) = dlen" "entity_id_len (header_fixed p) = e" "txn_seq_num_len (header_fixed p) = min_len sn"
proof -
  obtain h where h: "header_new 1 FileDirectiveType dir mode crc large dlen False False = Inr h" "hdr_data_field_len h = dlen"
    by (rule header_new_fields [of FileDirectiveType dir mode crc large dlen False False])
  have "4 + (2 * e + min_len sn) \<le> total_pdu_len old" using room by simp
  then show thesis
  proof (rule pdu_new_ok [OF old, of src dst sn, folded e_def])
    fix p assume p: "pdu_new buffer h src dst sn = Inr p"
      and r: "pdu_rest p = nat_be e src @ nat_be (min_len sn) sn @ nat_be e dst @ drop (4 + (2 * e + min_len sn)) (take (total_pdu_len old) buffer)"
      and f: "hdr_data_field_len (header_fixed p) = hdr_data_field_len h" "entity_id_len (header_fixed p) = e"
        "txn_seq_num_len (header_fixed p) = min_len sn"
    let ?d = "drop (4 + (2 * e + min_len sn)) (take (total_pdu_len old) buffer)"
    have vl: "variable_header_len (header_fixed p) = e + (min_len sn + e)" by (simp add: variable_header_len_def f)
    have "length ?d = Suc n" using old(2) room by simp
    then obtain c rest where d: "?d = c # rest" "length rest = n" by (cases ?d) auto
    then have "data_field p = Inr (c # rest)" by (simp add: data_field_Inr vl r)
    then have "start_directive buffer dir mode crc large dlen src dst sn short = Inr (p, rest)"
      using h p by (simp add: start_directive_def new_pdu_def)
    then show thesis using that d(2) f h(2) by (simp add: vl r)
  qed
qed

lemma file_size_roundtrip:
  assumes "fsize < (if large then 2 ^ 64 else 2 ^ 32)" "length rest = fss_len large"
  shows "set_file_size large fsize rest = Some (nat_be (fss_len large) fsize)"
    "eof_file_size \<lparr>condition_code_and_spare = c, eof_file_checksum = k, eof_rest = nat_be (fss_len large) fsize\<rparr> large = Inr fsize"
  using assms by (auto simp: set_file_size_def fss_len_def blit_def eof_file_size_def prefix_u64_def prefix_u32_def be_nat_nat_be)

text \<open>
  C24: EOF PDUs round trip where they can be built. If the header found in the buffer announces
  exactly the length of the new PDU, the builder succeeds; the bytes of the PDU, followed by
  anything, parse to it again, with the source entity and the sequence number, as an EOF with the
  condition code, the checksum and the file size it was built from.
\<close>

theorem eof_build_parse:
  assumes old: "header_of buffer = Some old" "total_pdu_len old \<le> length buffer"
    and room: "total_pdu_len old = 4 + (2 * max (min_len src) (min_len dst) + min_len sn) + (6 + fss_len large)"
    and range: "src < 2 ^ 64" "sn < 2 ^ 64" "fsize < (if large then 2 ^ 64 else 2 ^ 32)"
  shows "\<exists>p e. eof_new buffer src dst sn mode large crc cond checksum fsize None = Returns (Inr p)
    \<and> pdu_from_bytes (pdu_bytes p @ tail) = Inr p
    \<and> source_entity_id p = Inr src \<and> transaction_seq_num p = Inr sn
    \<and> pdu_variant p = Inr (EofV e) \<and> eof_condition_code e = Inr cond
    \<and> eof_file_checksum e = checksum \<and> eof_file_size e large = Inr fsize"
proof -
  let ?e = "max (min_len src) (min_len dst)" let ?dlen = "u16_of (1 + (5 + fss_len large))"
  have "total_pdu_len old = 4 + (2 * ?e + min_len sn) + Suc (5 + fss_len large)" using room by simp
  then obtain p rest where s: "start_directive buffer TowardReceiver mode crc large ?dlen src dst sn (BufferTooSmall (unat ?dlen)) = Inr (p, rest)"
    and len: "length rest = 5 + fss_len large"
    and head: "take (variable_header_len (header_fixed p)) (pdu_rest p) = nat_be ?e src @ nat_be (min_len sn) sn @ nat_be ?e dst"
    and f: "hdr_data_field_len (header_fixed p) = ?dlen" "entity_id_len (header_fixed p) = ?e" "txn_seq_num_len (header_fixed p) = min_len sn"
    by (rule start_directive_ok [OF old])
  let ?c = "set_bits (hd rest) CONDITION_CODE_MASK (of_nat (condition_value cond))"
  let ?d = "DirectiveCode_value DirEof # ?c # be32_of checksum @ nat_be (fss_len large) fsize"
  let ?q = "with_data p ?d"
  let ?eof = "\<lparr>condition_code_and_spare = ?c, eof_file_checksum = checksum, eof_rest = nat_be (fss_len large) fsize\<rparr>"
  note shape = start_directive_shape [OF s]
  note size = file_size_roundtrip [OF range(3), of "drop 5 rest"]
  have new: "eof_new buffer src dst sn mode large crc cond checksum fsize None = Returns (Inr ?q)"
    using s len size(1) by (simp add: eof_new_def finish_directive_def Let_def)
  have q: "pdu_rest ?q = nat_be ?e src @ nat_be (min_len sn) sn @ nat_be ?e dst @ ?d" by (simp add: with_data_def head)
  have dl: "pdu_data_field_len (header_fixed ?q) = 6 + fss_len large"
    using f(1) by (simp add: pdu_data_field_len_def u16_of_def fss_len_def)
  have parse: "pdu_from_bytes (pdu_bytes ?q @ tail) = Inr ?q"
  proof (rule pdu_from_bytes_bytes)
    show "length (pdu_rest ?q) = variable_header_len (header_fixed ?q) + pdu_data_field_len (header_fixed ?q)"
      unfolding dl q variable_header_len_def with_data_header f(2,3) using dl by (simp add: be32_of_def)
  qed
  have e8: "?e \<le> 8" using min_len_bounds(2) by simp
  have srcid: "source_entity_id ?q = Inr src"
    by (rule source_entity_id_read) (use f(2) e8 q min_len_fits_le [OF range(1), of ?e] in simp_all)
  have seq: "transaction_seq_num ?q = Inr sn"
    by (rule transaction_seq_num_read [of _ "nat_be ?e src" _ "nat_be ?e dst @ ?d"])
      (use f q min_len_bounds(2) [of sn] min_len_fits [OF range(2)] in \<open>simp_all add: variable_header_len_def\<close>)
  have "pdu_variant ?q = Inr (EofV ?eof)"
    using shape by (simp add: pdu_variant_def DirectiveCode_value_def DirectiveCode_try_from_def directive_view_def
        eof_view_def be32_of_def fss_len_def)
  moreover have "eof_condition_code ?eof = Inr cond"
    by (simp add: eof_condition_code_def e_cc.get_set_fits condition_fits condition_roundtrip)
  moreover have "eof_file_size ?eof large = Inr fsize" by (rule size(2)) (simp add: len)
  ultimately show ?thesis using new parse srcid seq by (intro exI [of _ ?q] exI [of _ ?eof]) simp
qed

theorem eof_build_parse_witness:
  "\<exists>p e. eof_new ([0, 0, 10, 0] @ replicate 30 0) 1 2 3 Acknowledged False False NoError 0xDEADBEEF 4096 None = Returns (Inr p)
    \<and> pdu_from_bytes (pdu_bytes p @ [1, 2]) = Inr p \<and> source_entity_id p = Inr 1 \<and> transaction_seq_num p = Inr 3
    \<and> pdu_variant p = Inr (EofV e) \<and> eof_condition_code e = Inr NoError
    \<and> eof_file_checksum e = 0xDEADBEEF \<and> eof_file_size e False = Inr 4096"
proof -
  let ?old = "\<lparr>version_and_flags = 0, hdr_data_field_len = 10, lengths_and_metadata_flag = 0\<rparr>"
  have len: "total_pdu_len ?old = 17"
    by (simp add: total_pdu_len_def total_header_len_def fixed_header_len_def variable_header_len_def
        pdu_data_field_len_def entity_id_len_def txn_seq_num_len_def get_bits_def)
  have h: "header_of ([0, 0, 10, 0] @ replicate 30 0) = Some ?old" by (simp add: be16_to_def)
  have m: "min_len (Suc 0) = 1" "min_len 2 = 1" "min_len 3 = 1" by (simp_all add: min_len_def upt_rec)
  show ?thesis
    by (rule eof_build_parse [OF h]) (simp_all add: len m fss_len_def)
qed

end
