(* ===== verification/Cfdp_Tracker.thy ===== *)
theory Cfdp_Tracker
  imports Cfdp_Types
begin

text \<open>
  The receiver's record of the parts of a file it has
  (\<open>crates/leodos-protocols/src/transport/cfdp/class2/machine/tracker.rs\<close>): up to four ranges, in
  an array whose unused places hold a sentinel. The abstraction \<open>covered\<close> is the set of bytes in
  the ranges. \<open>add_segment\<close> adds exactly the bytes of the new segment, or leaves the record as it
  is when four ranges are in use and the segment touches none of them.
\<close>

section \<open>Definitions\<close>

definition MAX_GAPS :: nat where "MAX_GAPS = 4"

definition EMPTY_SLOT :: "nat \<times> nat" where
  "EMPTY_SLOT = (2 ^ 64 - 1, 2 ^ 64 - 1)"

record SegmentTracker =
  received_ranges :: "(nat \<times> nat) list"
  tr_file_size :: nat

definition tracker_new :: "nat \<Rightarrow> SegmentTracker" where
  "tracker_new n = \<lparr>received_ranges = replicate MAX_GAPS EMPTY_SLOT, tr_file_size = n\<rparr>"

definition valid_ranges :: "SegmentTracker \<Rightarrow> (nat \<times> nat) list" where
  "valid_ranges t = takeWhile (\<lambda>r. r \<noteq> EMPTY_SLOT) (received_ranges t)"

text \<open>The loop over the ranges: what is kept, and the new range as it grows.\<close>

fun merge_ranges :: "(nat \<times> nat) list \<Rightarrow> nat \<times> nat \<Rightarrow> (nat \<times> nat) list \<times> (nat \<times> nat)" where
  "merge_ranges [] new = ([], new)"
| "merge_ranges ((s, e) # rs) (new_start, new_end) =
     (if e < new_start \<or> s > new_end
      then (let (kept, new) = merge_ranges rs (new_start, new_end) in ((s, e) # kept, new))
      else merge_ranges rs (min new_start s, max new_end e))"

definition add_segment :: "SegmentTracker \<Rightarrow> nat \<Rightarrow> nat \<Rightarrow> SegmentTracker" where
  "add_segment t offset len =
     (if len = 0 then t
      else let (kept, new) = merge_ranges (valid_ranges t) (offset, wrap64 (offset + len))
           in if length kept = MAX_GAPS then t
              else let next_ranges = sort_key fst (kept @ [new])
                   in t\<lparr>received_ranges := next_ranges @ replicate (MAX_GAPS - length next_ranges) EMPTY_SLOT\<rparr>)"

text \<open>
  The iterator walks over all four places, the unused ones included; the range after the last
  one is computed before the walk starts, from the initial \<open>last_offset\<close> of 0.
\<close>

fun missing_walk :: "nat \<Rightarrow> (nat \<times> nat) list \<Rightarrow> (nat \<times> nat) list" where
  "missing_walk last_offset [] = []"
| "missing_walk last_offset ((s, e) # rs) =
     (if s > last_offset then [(last_offset, s)] else []) @ missing_walk e rs"

definition get_missing_ranges :: "SegmentTracker \<Rightarrow> (nat \<times> nat) list" where
  "get_missing_ranges t =
     missing_walk 0 (received_ranges t) @ (if 0 < tr_file_size t then [(0, tr_file_size t)] else [])"

definition is_complete :: "SegmentTracker \<Rightarrow> bool" where
  "is_complete t \<longleftrightarrow> length (received_ranges t) = 1 \<and>
     (case received_ranges t of [] \<Rightarrow> False | (s, e) # _ \<Rightarrow> s = 0 \<and> e \<ge> tr_file_size t)"

section \<open>The invariant\<close>

text \<open>Ranges in ascending order, none empty, none touching the next.\<close>

fun ranges_apart :: "(nat \<times> nat) list \<Rightarrow> bool" where
  "ranges_apart [] \<longleftrightarrow> True"
| "ranges_apart ((s, e) # rs) \<longleftrightarrow> s < e \<and> (\<forall>r \<in> set rs. e < fst r) \<and> ranges_apart rs"

definition tracker_ok :: "SegmentTracker \<Rightarrow> bool" where
  "tracker_ok t \<longleftrightarrow> length (received_ranges t) = MAX_GAPS \<and> ranges_apart (valid_ranges t)
     \<and> received_ranges t = valid_ranges t @ replicate (MAX_GAPS - length (valid_ranges t)) EMPTY_SLOT"

definition bytes_of :: "(nat \<times> nat) list \<Rightarrow> nat set" where
  "bytes_of rs = (\<Union>(s, e) \<in> set rs. {s..<e})"

definition covered :: "SegmentTracker \<Rightarrow> nat set" where
  "covered t = bytes_of (valid_ranges t)"

lemma bytes_of_simps [simp]:
  "bytes_of [] = {}" "bytes_of ((s, e) # rs) = {s..<e} \<union> bytes_of rs" "bytes_of (rs @ qs) = bytes_of rs \<union> bytes_of qs"
  by (auto simp: bytes_of_def)

lemma valid_ranges_new [simp]: "valid_ranges (tracker_new n) = []"
  by (simp add: valid_ranges_def tracker_new_def)

lemma tracker_new_ok: "tracker_ok (tracker_new n)" "covered (tracker_new n) = {}"
  by (simp_all add: tracker_ok_def covered_def) (simp add: tracker_new_def)

section \<open>Merging\<close>

text \<open>
  The new range keeps every byte of the ranges it swallows, gains no byte that was in
  neither, and ends up apart from the ranges kept.
\<close>

definition clear_of :: "nat \<times> nat \<Rightarrow> nat \<times> nat \<Rightarrow> bool" where
  "clear_of r q \<longleftrightarrow> snd r < fst q \<or> snd q < fst r"

lemma merge_ranges_spec:
  assumes "ranges_apart rs" "fst new < snd new" "merge_ranges rs new = (kept, new')"
  shows "bytes_of kept \<union> {fst new'..<snd new'} = bytes_of rs \<union> {fst new..<snd new}
    \<and> fst new' < snd new' \<and> fst new' \<le> fst new \<and> snd new \<le> snd new'
    \<and> (\<forall>r\<in>set kept. clear_of r new') \<and> ranges_apart kept \<and> set kept \<subseteq> set rs \<and> length kept \<le> length rs
    \<and> (\<forall>a. (\<forall>r\<in>set rs. a < fst r) \<and> a < fst new \<longrightarrow> a < fst new')
    \<and> (\<forall>b. snd new < b \<and> (\<forall>r\<in>set rs. snd r < b) \<longrightarrow> snd new' < b)"
  using assms
proof (induction rs new arbitrary: kept new' rule: merge_ranges.induct)
  case (1 new)
  then show ?case by auto
next
  case (2 s e rs ns ne)
  have rs: "s < e" "\<forall>r\<in>set rs. e < fst r" "ranges_apart rs" using 2(3) by auto
  show ?case
  proof (cases "e < ns \<or> s > ne")
    case True
    obtain k n where kn: "merge_ranges rs (ns, ne) = (k, n)" by (cases "merge_ranges rs (ns, ne)")
    then have eq: "kept = (s, e) # k" "new' = n" using 2(5) True by (auto simp: Let_def)
    note ih = 2(1) [OF True rs(3) 2(4) kn]
    have clear: "clear_of (s, e) n"
    proof (cases "e < ns")
      case True
      then have "e < fst n" using ih rs(2) by simp
      then show ?thesis by (simp add: clear_of_def)
    next
      case False
      then have far: "ne < s" using True by simp
      then have "\<forall>r\<in>set rs. ne < fst r" using rs(1,2) by fastforce
      then have "merge_ranges rs (ns, ne) = (rs, (ns, ne))" using \<open>ranges_apart rs\<close>
      proof (induction rs)
        case (Cons r rs)
        then show ?case by (cases r) auto
      qed simp
      then show ?thesis using kn far by (simp add: clear_of_def)
    qed
    have "\<forall>r\<in>set k. e < fst r" using ih rs(2) by blast
    then show ?thesis unfolding eq using ih clear rs(1) by auto
  next
    case False
    let ?n = "(min ns s, max ne e)"
    have m: "merge_ranges rs ?n = (kept, new')" using 2(5) False by simp
    have lt: "fst ?n < snd ?n" using 2(4) by auto
    note ih = 2(2) [OF False rs(3) lt m]
    have "{min ns s..<max ne e} = {s..<e} \<union> {ns..<ne}" using False rs(1) 2(4) by (auto simp: min_def max_def)
    then show ?thesis using ih rs(1) by (auto simp: less_imp_le)
  qed
qed

lemma merge_keeps_all:
  assumes "merge_ranges rs new = (kept, new')"
  shows "length kept \<le> length rs" "length kept = length rs \<Longrightarrow> kept = rs \<and> new' = new"
proof -
  have "length kept \<le> length rs \<and> (length kept = length rs \<longrightarrow> kept = rs \<and> new' = new)"
    using assms
  proof (induction rs new arbitrary: kept new' rule: merge_ranges.induct)
    case (2 s e rs ns ne)
    obtain k n where kn: "merge_ranges rs (ns, ne) = (k, n)" by (cases "merge_ranges rs (ns, ne)")
    show ?case
    proof (cases "e < ns \<or> s > ne")
      case True
      then show ?thesis using 2(1) [OF True kn] 2(3) kn by auto
    next
      case False
      then have "length kept \<le> length rs" using 2(2) [OF False] 2(3) by simp
      then show ?thesis by simp
    qed
  qed simp
  then show "length kept \<le> length rs" "length kept = length rs \<Longrightarrow> kept = rs \<and> new' = new" by auto
qed

lemma merge_clear: "\<forall>r\<in>set rs. clear_of r new \<Longrightarrow> merge_ranges rs new = (rs, new)"
  by (induction rs new rule: merge_ranges.induct) (auto simp: clear_of_def)

lemma apart_nonempty: "ranges_apart rs \<Longrightarrow> r \<in> set rs \<Longrightarrow> fst r < snd r"
  by (induction rs rule: ranges_apart.induct) auto

lemma apart_clear: "ranges_apart rs \<Longrightarrow> r \<in> set rs \<Longrightarrow> q \<in> set rs \<Longrightarrow> r \<noteq> q \<Longrightarrow> clear_of r q"
  by (induction rs rule: ranges_apart.induct) (auto simp: clear_of_def)

lemma apart_distinct: "ranges_apart rs \<Longrightarrow> distinct rs"
  by (induction rs rule: ranges_apart.induct) auto

lemma apart_sorted:
  "sorted (map fst rs) \<Longrightarrow> distinct rs \<Longrightarrow> \<forall>r\<in>set rs. fst r < snd r \<Longrightarrow>
   \<forall>r\<in>set rs. \<forall>q\<in>set rs. r \<noteq> q \<longrightarrow> clear_of r q \<Longrightarrow> ranges_apart rs"
proof (induction rs)
  case (Cons r rs)
  obtain s e where r: "r = (s, e)" by (cases r)
  have "e < fst q" if "q \<in> set rs" for q
  proof -
    have "clear_of r q" "s \<le> fst q" "fst q < snd q" using Cons.prems that r by auto
    then show ?thesis by (auto simp: clear_of_def r)
  qed
  then show ?case using Cons r by auto
qed simp

lemma sort_apart:
  assumes "ranges_apart kept" "fst new < snd new" "\<forall>r\<in>set kept. clear_of r new"
  shows "ranges_apart (sort_key fst (kept @ [new]))"
proof (rule apart_sorted)
  have "new \<notin> set kept" using assms(2,3) by (auto simp: clear_of_def)
  then show "distinct (sort_key fst (kept @ [new]))" using apart_distinct [OF assms(1)] by simp
  show "\<forall>r\<in>set (sort_key fst (kept @ [new])). fst r < snd r" using apart_nonempty [OF assms(1)] assms(2) by auto
  show "\<forall>r\<in>set (sort_key fst (kept @ [new])). \<forall>q\<in>set (sort_key fst (kept @ [new])). r \<noteq> q \<longrightarrow> clear_of r q"
    using apart_clear [OF assms(1)] assms(3) by (auto simp: clear_of_def)
qed simp

lemma bytes_of_sort [simp]: "bytes_of (sort_key f rs) = bytes_of rs"
  by (simp add: bytes_of_def)

lemma takeWhile_used:
  "ranges_apart rs \<Longrightarrow> takeWhile (\<lambda>r. r \<noteq> EMPTY_SLOT) (rs @ replicate n EMPTY_SLOT) = rs"
proof -
  assume "ranges_apart rs"
  then have "\<forall>r\<in>set rs. r \<noteq> EMPTY_SLOT" using apart_nonempty by (fastforce simp: EMPTY_SLOT_def)
  then show ?thesis by (simp add: takeWhile_append2)
qed

text \<open>
  C25: The segment tracker counts bytes correctly. From a new tracker on, its ranges stay
  ascending, disjoint and not touching. Adding a segment makes the covered bytes exactly the
  old ones and the new ones, except when four ranges are in use and none touches the segment:
  then the segment is not recorded and nothing changes.
\<close>

theorem add_segment_covers:
  assumes t: "tracker_ok t" and fits: "offset + len < 2 ^ 64"
  defines "full \<equiv> 0 < len \<and> length (valid_ranges t) = MAX_GAPS \<and> (\<forall>r\<in>set (valid_ranges t). clear_of r (offset, offset + len))"
  shows "tracker_ok (add_segment t offset len)
    \<and> covered (add_segment t offset len) = (if full then covered t else covered t \<union> {offset..<offset + len})"
proof (cases "len = 0")
  case False
  let ?v = "valid_ranges t"
  obtain kept new where m: "merge_ranges ?v (offset, offset + len) = (kept, new)"
    by (cases "merge_ranges ?v (offset, offset + len)")
  have ap: "ranges_apart ?v" using t by (simp add: tracker_ok_def)
  have lt: "fst (offset, offset + len) < snd (offset, offset + len)" using False by simp
  note spec = merge_ranges_spec [OF ap lt m]
  have v4: "length ?v \<le> MAX_GAPS" using t length_takeWhile_le unfolding tracker_ok_def valid_ranges_def by metis
  have w: "wrap64 (offset + len) = offset + len" using fits by (rule wrap64_small)
  show ?thesis
  proof (cases "length kept = MAX_GAPS")
    case True
    then have "kept = ?v" "new = (offset, offset + len)" "length ?v = MAX_GAPS"
      using merge_keeps_all [OF m] v4 by auto
    then have "full" using spec False unfolding full_def by auto
    then show ?thesis using True t False m by (simp add: add_segment_def w)
  next
    case room: False
    have "\<not> full" using merge_clear [of ?v "(offset, offset + len)"] m room unfolding full_def by auto
    let ?n = "sort_key fst (kept @ [new])"
    have len: "length ?n \<le> MAX_GAPS" using room merge_keeps_all(1) [OF m] v4 by simp
    have apn: "ranges_apart ?n" by (rule sort_apart) (use spec in auto)
    let ?t = "add_segment t offset len"
    have r: "received_ranges ?t = ?n @ replicate (MAX_GAPS - length ?n) EMPTY_SLOT"
      using False room m by (simp add: add_segment_def w Let_def)
    then have v: "valid_ranges ?t = ?n" unfolding valid_ranges_def by (simp only: takeWhile_used [OF apn])
    have "covered ?t = covered t \<union> {offset..<offset + len}"
      using spec by (cases new) (auto simp: covered_def v)
    moreover have "tracker_ok ?t" unfolding tracker_ok_def v using apn r len by simp
    ultimately show ?thesis using \<open>\<not> full\<close> by simp
  qed
qed (use t in \<open>simp add: add_segment_def\<close>)

theorem add_segment_covers_witness:
  "covered (add_segment (add_segment (tracker_new 100) 10 5) 0 10) = {0..<15}"
proof -
  let ?t = "add_segment (tracker_new 100) 10 5"
  have 1: "tracker_ok ?t" "covered ?t = {10..<15}"
    using add_segment_covers [OF tracker_new_ok(1), of 10 5 100] tracker_new_ok(2) by (simp_all add: MAX_GAPS_def)
  have "received_ranges ?t = [(10, 15)] @ replicate 3 EMPTY_SLOT" by (simp add: add_segment_def MAX_GAPS_def)
  then have "valid_ranges ?t = [(10, 15)]"
    unfolding valid_ranges_def using takeWhile_used [of "[(10, 15)]" 3] by (simp del: takeWhile.simps)
  then show ?thesis using add_segment_covers [OF 1(1), of 0 10] 1(2) by (auto simp: MAX_GAPS_def)
qed

section \<open>Completeness is never reported\<close>

text \<open>
  The test for a single range looks at the length of the array, which is always four.
\<close>

lemma length_add_segment:
  assumes "length (received_ranges t) = MAX_GAPS"
  shows "length (received_ranges (add_segment t offset len)) = MAX_GAPS"
proof -
  obtain kept new where m: "merge_ranges (valid_ranges t) (offset, wrap64 (offset + len)) = (kept, new)"
    by (cases "merge_ranges (valid_ranges t) (offset, wrap64 (offset + len))")
  have "length kept \<le> MAX_GAPS"
    using merge_keeps_all(1) [OF m] length_takeWhile_le [of _ "received_ranges t"] assms
    unfolding valid_ranges_def by (metis order_trans)
  then show ?thesis using assms m by (auto simp: add_segment_def Let_def)
qed

lemma is_complete_never: "length (received_ranges t) = MAX_GAPS \<Longrightarrow> \<not> is_complete t"
  by (simp add: is_complete_def MAX_GAPS_def)

end
