(* ===== verification/Cfdp_Receiver.thy ===== *)
theory Cfdp_Receiver
  imports Cfdp_Parsing Cfdp_Tracker
begin

text \<open>
  The receiving machine of a CFDP transfer
  (\<open>crates/leodos-protocols/src/transport/cfdp/class2/machine/receiver/\<close>): its transactions, events
  and actions, and one definition per handler. \<open>FileStore::intern\<close>, the only part of the file
  store the machine calls, is the parameter \<open>intern\<close>.

  Three facts are proved of every run from a new machine: the tracker never reports a complete
  file, so the machine never verifies a checksum, never reports a file and never sends Finished;
  the action buffer of eight always suffices; and the machine answers every EOF it can read.
\<close>

section \<open>Transactions, events, actions\<close>

datatype RxState = ReceivingFileData | WaitingForNakData | VerifyingChecksum | WaitingForFilestoreResponses

record RxTransaction =
  rt_tracker :: SegmentTracker
  rt_config :: TransactionConfig
  rt_filestore_requests :: "FilestoreRequest list"
  rt_progress :: nat
  rt_nak_timeout_secs :: nat
  rt_keep_alive_interval_secs :: nat
  rt_state :: RxState
  rt_nak_retries :: nat
  rt_nak_limit :: nat
  rt_suspended :: bool

record ReceiverMachine =
  rx_transactions :: "(TransactionId, RxTransaction) linear_map"
  rx_id :: EntityId

datatype RxEvent =
    RxPduReceived TransactionId Pdu
  | RxTimerExpired TransactionId TimerType
  | RxFileDataWritten TransactionId nat nat
  | RxChecksumVerified TransactionId bool
  | RxSuspendRequest TransactionId
  | RxResumeRequest TransactionId
  | RxFilestoreResponsesReceived TransactionId "FilestoreResponse list"

datatype RxAction =
    RxSendAck TransactionId EntityId DirectiveCode ConditionCode TransactionStatus
  | RxSendFinished "FilestoreResponse list" TransactionId EntityId ConditionCode
  | RxSendNak TransactionId EntityId nat nat
  | RxSendKeepAlive TransactionId EntityId nat
  | RxWriteFileData TransactionId bytes nat
  | RxStartTimer TransactionId nat TimerType
  | RxStopTimer TransactionId "TimerType option"
  | RxTerminateTransaction TransactionId ConditionCode
  | RxNotifyFileReceived TransactionId nat FileId
  | RxVerifyChecksum TransactionId u32 ChecksumType
  | RxNotifyFault TransactionId ConditionCode
  | RxNotifySuspended TransactionId
  | RxNotifyResumed TransactionId nat
  | RxExecuteFilestoreRequests "FilestoreRequest list" TransactionId

type_synonym rx_handling = "(ReceiverMachine, RxAction) handling"

definition put_rx :: "(TransactionId, RxTransaction) linear_map \<Rightarrow> ReceiverMachine \<Rightarrow> ReceiverMachine" where
  "put_rx ts m = m\<lparr>rx_transactions := ts\<rparr>"

definition rx_new :: "EntityId \<Rightarrow> ReceiverMachine" where
  "rx_new entity = \<lparr>rx_transactions = [], rx_id = entity\<rparr>"

section \<open>Handlers\<close>

definition rx_terminate_transaction :: "TransactionId \<Rightarrow> ConditionCode \<Rightarrow> rx_handling" where
  "rx_terminate_transaction k cond = remove rx_transactions put_rx k (\<lambda>t.
     push_action (RxTerminateTransaction (transaction_id (rt_config t)) cond))"

definition rx_handle_suspend_request :: "TransactionId \<Rightarrow> rx_handling" where
  "rx_handle_suspend_request k = lookup rx_transactions k (\<lambda>t.
     if rt_suspended t then ok
     else do_all [modify rx_transactions put_rx k (rt_suspended_update (\<lambda>_. True)),
            push_action (RxStopTimer k None), push_action (RxNotifySuspended k)])"

definition rx_handle_fault :: "TransactionId \<Rightarrow> ConditionCode \<Rightarrow> rx_handling" where
  "rx_handle_fault k cond = lookup rx_transactions k (\<lambda>t.
     case get_handler (fault_handlers (rt_config t)) cond of
       Cancel \<Rightarrow> rx_terminate_transaction k cond
     | Ignore \<Rightarrow> push_action (RxNotifyFault k cond)
     | Suspend \<Rightarrow> rx_handle_suspend_request k
     | Abandon \<Rightarrow> rx_terminate_transaction k cond)"

definition rx_handle_filestore_responses :: "TransactionId \<Rightarrow> FilestoreResponse list \<Rightarrow> rx_handling" where
  "rx_handle_filestore_responses k responses = lookup rx_transactions k (\<lambda>t.
     if rt_state t \<noteq> WaitingForFilestoreResponses then ok
     else do_all [
       push_action (RxNotifyFileReceived k (cfg_file_size (rt_config t)) (destination_file_id (rt_config t))),
       push_action (RxSendAck k (source_id (transaction_id (rt_config t))) DirEof NoError StatusActive),
       push_action (RxSendFinished responses k (source_id (transaction_id (rt_config t))) NoError),
       rx_terminate_transaction k NoError])"

definition rx_handle_resume_request :: "TransactionId \<Rightarrow> rx_handling" where
  "rx_handle_resume_request k = lookup rx_transactions k (\<lambda>t. do_all [
     modify rx_transactions put_rx k (rt_suspended_update (\<lambda>_. False)),
     (case rt_state t of
        WaitingForNakData \<Rightarrow> do_all [push_action (RxStartTimer k (rt_nak_timeout_secs t) TimerNak),
          push_action (RxStartTimer k (inactivity_timeout_secs (rt_config t)) TimerInactivity)]
      | ReceivingFileData \<Rightarrow> do_all [
          run_if (rt_keep_alive_interval_secs t \<noteq> 0) (push_action (RxStartTimer k (rt_keep_alive_interval_secs t) TimerKeepAlive)),
          push_action (RxStartTimer k (inactivity_timeout_secs (rt_config t)) TimerInactivity)]
      | _ \<Rightarrow> ok),
     push_action (RxNotifyResumed k (rt_progress t))])"

definition rx_send_nak :: "TransactionId \<Rightarrow> rx_handling" where
  "rx_send_nak k = lookup rx_transactions k (\<lambda>t. do_all [
     push_action (RxSendNak k (source_id (transaction_id (rt_config t))) 0 (cfg_file_size (rt_config t))),
     modify rx_transactions put_rx k (rt_state_update (\<lambda>_. WaitingForNakData)),
     push_action (RxStartTimer (transaction_id (rt_config t)) (rt_nak_timeout_secs t) TimerNak)])"

definition rx_handle_nak_timeout :: "TransactionId \<Rightarrow> rx_handling" where
  "rx_handle_nak_timeout k = lookup rx_transactions k (\<lambda>t.
     if rt_nak_retries t \<ge> rt_nak_limit t then rx_handle_fault k NakLimitReached
     else and_do (modify rx_transactions put_rx k (rt_nak_retries_update Suc)) (rx_send_nak k))"

definition rx_handle_inactivity :: "TransactionId \<Rightarrow> rx_handling" where
  "rx_handle_inactivity k = rx_handle_fault k KeepAliveLimitReached"

definition rx_handle_timer_expired :: "TimerType \<Rightarrow> TransactionId \<Rightarrow> rx_handling" where
  "rx_handle_timer_expired timer k = (case timer of
      TimerNak \<Rightarrow> rx_handle_nak_timeout k
    | TimerInactivity \<Rightarrow> rx_handle_inactivity k
    | TimerAck \<Rightarrow> ok
    | TimerKeepAlive \<Rightarrow> lookup rx_transactions k (\<lambda>t. do_all [
        push_action (RxSendKeepAlive k (source_id (transaction_id (rt_config t))) (rt_progress t)),
        run_if (rt_keep_alive_interval_secs t \<noteq> 0) (push_action (RxStartTimer k (rt_keep_alive_interval_secs t) TimerKeepAlive))]))"

definition rx_handle_file_data_written :: "TransactionId \<Rightarrow> nat \<Rightarrow> nat \<Rightarrow> rx_handling" where
  "rx_handle_file_data_written k off len = lookup rx_transactions k (\<lambda>t.
     modify rx_transactions put_rx k (\<lambda>t. t\<lparr>rt_progress := wrap64 (off + len), rt_tracker := add_segment (rt_tracker t) off len\<rparr>))"

definition rx_create_transaction ::
  "(bytes \<Rightarrow> CfdpError + FileId) \<Rightarrow> TransactionId \<Rightarrow> bytes \<Rightarrow> bytes \<Rightarrow> nat \<Rightarrow> ChecksumType \<Rightarrow> FaultHandlerSet \<Rightarrow> rx_handling" where
  "rx_create_transaction intern k source dest fsize ctype handlers = with_machine (\<lambda>m.
     try_value (intern source) (\<lambda>src. try_value (intern dest) (\<lambda>dst.
       insert_new rx_transactions put_rx (Custom ''Too many concurrent transactions'') k
         \<lparr>rt_tracker = tracker_new fsize,
          rt_config = \<lparr>transaction_id = k, destination_id = rx_id m, cfg_file_size = fsize, fault_handlers = handlers,
             inactivity_timeout_secs = 30, checksum_type = ctype, source_file_id = src, destination_file_id = dst\<rparr>,
          rt_filestore_requests = [], rt_progress = 0, rt_nak_timeout_secs = 10, rt_keep_alive_interval_secs = 60,
          rt_state = ReceivingFileData, rt_nak_retries = 0, rt_nak_limit = 0, rt_suspended = False\<rparr>)))"

text \<open>One filestore request of the metadata; the second name's interning is checked last.\<close>

definition read_request :: "(bytes \<Rightarrow> CfdpError + FileId) \<Rightarrow> Tlv \<Rightarrow> CfdpError + FilestoreRequest" where
  "read_request intern tlv =
     rbind (request_from_tlv tlv) (\<lambda>req.
     rbind (rbind (request_first_name req) intern) (\<lambda>id1.
     rbind (request_second_name req) (\<lambda>name2.
     rbind (request_action req) (\<lambda>action.
     rbind (case name2 of None \<Rightarrow> Inr None | Some name \<Rightarrow> rbind (intern name) (\<lambda>i. Inr (Some i))) (\<lambda>id2.
     Inr \<lparr>fsr_action = action, first_file_name = id1, second_file_name = id2\<rparr>)))))"

fun read_requests :: "(bytes \<Rightarrow> CfdpError + FileId) \<Rightarrow> FilestoreRequest list \<Rightarrow> Tlv list \<Rightarrow> CfdpError + FilestoreRequest list" where
  "read_requests intern acc [] = Inr acc"
| "read_requests intern acc (t # ts) =
     rbind (read_request intern t) (\<lambda>r.
     if length acc < 4 then read_requests intern (acc @ [r]) ts
     else Inl (Custom ''Too many filestore requests in Metadata PDU''))"

definition rx_handle_metadata ::
  "(bytes \<Rightarrow> CfdpError + FileId) \<Rightarrow> TransactionId \<Rightarrow> MetadataPdu \<Rightarrow> bool \<Rightarrow> rx_handling" where
  "rx_handle_metadata intern k meta large = with_machine (\<lambda>m.
      if lm_get (rx_transactions m) k \<noteq> None then ok
      else try_value (variable_fields meta large) (\<lambda>(source, dest, _).
           try_value (meta_file_size meta large) (\<lambda>fsize.
           try_value (meta_checksum_type meta) (\<lambda>ctype.
           try_value (fault_handler_overrides meta large) (\<lambda>handlers.
           and_do (rx_create_transaction intern k source dest fsize ctype handlers)
             (lookup rx_transactions k (\<lambda>t.
              try_value (meta_filestore_requests meta large) (\<lambda>tlvs.
              try_value (read_requests intern [] tlvs) (\<lambda>requests. do_all [
                modify rx_transactions put_rx k (rt_filestore_requests_update (\<lambda>_. requests)),
                run_if (rt_keep_alive_interval_secs t \<noteq> 0)
                  (push_action (RxStartTimer k (rt_keep_alive_interval_secs t) TimerKeepAlive)),
                push_action (RxStartTimer k 30 TimerInactivity)])))))))))"

definition rx_handle_file_data :: "TransactionId \<Rightarrow> bool \<Rightarrow> FileDataPdu \<Rightarrow> rx_handling" where
  "rx_handle_file_data k large file_data = lookup rx_transactions k (\<lambda>t. do_all [
     push_action (RxStopTimer k (Some TimerInactivity)),
     try_value (fd_file_data file_data large) (\<lambda>data. try_value (fd_offset file_data large) (\<lambda>off.
       push_action (RxWriteFileData k data off))),
     run_if (\<not> rt_suspended t) (push_action (RxStartTimer k (inactivity_timeout_secs (rt_config t)) TimerInactivity))])"

definition rx_handle_eof :: "TransactionId \<Rightarrow> Pdu \<Rightarrow> EofPdu \<Rightarrow> rx_handling" where
  "rx_handle_eof k pdu eof =
     try_value (eof_condition_code eof) (\<lambda>cond. with_machine (\<lambda>m.
       case lm_get (rx_transactions m) k of
         None \<Rightarrow> try_value (source_entity_id pdu) (\<lambda>src. push_action (RxSendAck k src DirEof cond StatusActive))
       | Some t \<Rightarrow> do_all [
           push_action (RxStopTimer k (Some TimerInactivity)),
           push_action (RxSendAck k (source_id (transaction_id (rt_config t))) DirEof cond StatusActive),
           (case cond of
              NoError \<Rightarrow>
                if is_complete (rt_tracker t)
                then do_all [push_action (RxVerifyChecksum k (eof_file_checksum eof) (checksum_type (rt_config t))),
                       modify rx_transactions put_rx k (rt_state_update (\<lambda>_. VerifyingChecksum))]
                else rx_send_nak k
            | _ \<Rightarrow> rx_handle_fault k cond)]))"

definition rx_handle_checksum_verified :: "TransactionId \<Rightarrow> bool \<Rightarrow> rx_handling" where
  "rx_handle_checksum_verified k is_valid = lookup rx_transactions k (\<lambda>t.
     if rt_state t \<noteq> VerifyingChecksum then ok
     else if \<not> is_valid then rx_handle_fault k FileChecksumFailure
     else if rt_filestore_requests t \<noteq> []
     then do_all [push_action (RxExecuteFilestoreRequests (rt_filestore_requests t) k),
            modify rx_transactions put_rx k (rt_state_update (\<lambda>_. WaitingForFilestoreResponses))]
     else do_all [
       push_action (RxNotifyFileReceived k (cfg_file_size (rt_config t)) (destination_file_id (rt_config t))),
       push_action (RxSendAck k (source_id (transaction_id (rt_config t))) DirEof NoError StatusActive),
       push_action (RxSendFinished [] k (source_id (transaction_id (rt_config t))) NoError),
       rx_terminate_transaction k NoError])"

definition rx_handle_pdu_received :: "(bytes \<Rightarrow> CfdpError + FileId) \<Rightarrow> TransactionId \<Rightarrow> Pdu \<Rightarrow> rx_handling" where
  "rx_handle_pdu_received intern k pdu = with_machine (\<lambda>m.
      let large = large_file_flag (header_fixed pdu) in
      case lm_get (rx_transactions m) k of
        Some t \<Rightarrow> try_value (pdu_variant pdu) (\<lambda>v. case v of
            FileDataV data \<Rightarrow> rx_handle_file_data k large data
          | EofV eof \<Rightarrow> rx_handle_eof k pdu eof
          | PromptV prompt \<Rightarrow> run_if (\<not> rt_suspended t \<and> prompt_response prompt = PromptKeepAlive)
              (push_action (RxSendKeepAlive k (source_id (transaction_id (rt_config t))) (rt_progress t)))
          | _ \<Rightarrow> ok)
      | None \<Rightarrow> try_value (pdu_variant pdu) (\<lambda>v. case v of
            MetadataV meta \<Rightarrow> rx_handle_metadata intern k meta large
          | EofV eof \<Rightarrow> try_value (source_entity_id pdu) (\<lambda>src. try_value (eof_condition_code eof) (\<lambda>cond.
              push_action (RxSendAck k src DirEof cond StatusUnrecognized)))
          | _ \<Rightarrow> ok))"

text \<open>\<open>ReceiverMachine::handle\<close> starts with an empty action buffer.\<close>

definition rx_dispatch :: "(bytes \<Rightarrow> CfdpError + FileId) \<Rightarrow> RxEvent \<Rightarrow> rx_handling" where
  "rx_dispatch intern e = (case e of
      RxPduReceived k pdu \<Rightarrow> rx_handle_pdu_received intern k pdu
    | RxFileDataWritten k off len \<Rightarrow> rx_handle_file_data_written k off len
    | RxTimerExpired k timer \<Rightarrow> rx_handle_timer_expired timer k
    | RxChecksumVerified k is_valid \<Rightarrow> rx_handle_checksum_verified k is_valid
    | RxSuspendRequest k \<Rightarrow> rx_handle_suspend_request k
    | RxResumeRequest k \<Rightarrow> rx_handle_resume_request k
    | RxFilestoreResponsesReceived k responses \<Rightarrow> rx_handle_filestore_responses k responses)"

definition rx_handle ::
  "(bytes \<Rightarrow> CfdpError + FileId) \<Rightarrow> ReceiverMachine \<Rightarrow> RxEvent \<Rightarrow> (ReceiverMachine \<times> RxAction list) \<times> CfdpError option" where
  "rx_handle intern m e = rx_dispatch intern e (m, [])"

text \<open>A run: the machine after a sequence of events, and all actions handed out on the way.\<close>

fun rx_run ::
  "(bytes \<Rightarrow> CfdpError + FileId) \<Rightarrow> ReceiverMachine \<Rightarrow> RxEvent list \<Rightarrow> ReceiverMachine \<times> RxAction list" where
  "rx_run intern m [] = (m, [])"
| "rx_run intern m (e # es) =
     (let ((m', as), _) = rx_handle intern m e; (m'', bs) = rx_run intern m' es in (m'', as @ bs))"

interpretation rx: transaction_store rx_transactions put_rx
  by unfold_locales (simp add: put_rx_def)

section \<open>No transfer is ever completed\<close>

text \<open>
  The actions of a completed transfer, and what every transaction satisfies: its tracker has
  an array of four ranges, and it is receiving data or waiting for retransmissions.
\<close>

fun completing :: "RxAction \<Rightarrow> bool" where
  "completing (RxSendFinished _ _ _ _) = True"
| "completing (RxNotifyFileReceived _ _ _) = True"
| "completing (RxVerifyChecksum _ _ _) = True"
| "completing (RxExecuteFilestoreRequests _ _) = True"
| "completing _ = False"

definition rx_waiting :: "TransactionId \<Rightarrow> RxTransaction \<Rightarrow> bool" where
  "rx_waiting k t \<longleftrightarrow> length (received_ranges (rt_tracker t)) = MAX_GAPS \<and> rt_state t \<in> {ReceivingFileData, WaitingForNakData}
     \<and> transaction_id (rt_config t) = k"

definition rx_ok :: "ReceiverMachine \<Rightarrow> bool" where
  "rx_ok = each_transaction rx_transactions rx_waiting"

abbreviation rx_keeps :: "rx_handling \<Rightarrow> bool" where
  "rx_keeps \<equiv> keeps (each_transaction rx_transactions rx_waiting) (\<lambda>a. \<not> completing a)"

named_theorems rx_kept \<open>handlers that keep the receiver's invariant\<close>

lemma keeps_terminate [rx_kept]: "rx_keeps (rx_terminate_transaction k cond)"
  unfolding rx_terminate_transaction_def by (intro rx.keeps_rules) simp

lemma keeps_suspend [rx_kept]: "rx_keeps (rx_handle_suspend_request k)"
  unfolding rx_handle_suspend_request_def by (auto intro!: rx.keeps_rules simp: rx_waiting_def)

lemma keeps_fault [rx_kept]: "rx_keeps (rx_handle_fault k cond)"
  unfolding rx_handle_fault_def
  by (auto intro!: rx.keeps_rules rx_kept split: HandlerCode.split)

lemma keeps_filestore_responses [rx_kept]: "rx_keeps (rx_handle_filestore_responses k responses)"
  unfolding rx_handle_filestore_responses_def by (rule rx.keeps_lookup) (auto simp: rx_waiting_def intro: keeps_ok)

lemma keeps_resume [rx_kept]: "rx_keeps (rx_handle_resume_request k)"
  unfolding rx_handle_resume_request_def
  by (auto intro!: rx.keeps_rules simp: rx_waiting_def split: RxState.split)

lemma keeps_send_nak [rx_kept]: "rx_keeps (rx_send_nak k)"
  unfolding rx_send_nak_def by (auto intro!: rx.keeps_rules simp: rx_waiting_def)

lemma keeps_nak_timeout [rx_kept]: "rx_keeps (rx_handle_nak_timeout k)"
  unfolding rx_handle_nak_timeout_def by (auto intro!: rx.keeps_rules rx_kept simp: rx_waiting_def)

lemma keeps_timer [rx_kept]: "rx_keeps (rx_handle_timer_expired timer k)"
  unfolding rx_handle_timer_expired_def rx_handle_inactivity_def
  by (auto intro!: rx.keeps_rules rx_kept split: TimerType.split)

lemma keeps_file_data_written [rx_kept]: "rx_keeps (rx_handle_file_data_written k off len)"
  unfolding rx_handle_file_data_written_def
  by (auto intro!: rx.keeps_rules simp: rx_waiting_def length_add_segment)

lemma keeps_create [rx_kept]: "rx_keeps (rx_create_transaction intern k source dest fsize ctype handlers)"
  unfolding rx_create_transaction_def
  by (auto intro!: rx.keeps_rules simp: rx_waiting_def tracker_new_def)

lemma keeps_metadata [rx_kept]: "rx_keeps (rx_handle_metadata intern k meta large)"
  unfolding rx_handle_metadata_def
  by (auto intro!: rx.keeps_rules rx_kept simp: rx_waiting_def)

lemma keeps_file_data [rx_kept]: "rx_keeps (rx_handle_file_data k large data)"
  unfolding rx_handle_file_data_def by (auto intro!: rx.keeps_rules)

lemma rx_incomplete:
  "lm_get (rx_transactions m) k = Some t \<Longrightarrow> each_transaction rx_transactions rx_waiting m \<Longrightarrow> \<not> is_complete (rt_tracker t)"
  by (simp add: each_transaction_def rx_waiting_def is_complete_never)

lemma keeps_eof [rx_kept]: "rx_keeps (rx_handle_eof k pdu eof)"
  unfolding rx_handle_eof_def
  by (auto intro!: rx.keeps_rules rx_kept dest: rx_incomplete split: option.split ConditionCode.split)

lemma keeps_checksum [rx_kept]: "rx_keeps (rx_handle_checksum_verified k is_valid)"
  unfolding rx_handle_checksum_verified_def by (rule rx.keeps_lookup) (auto simp: rx_waiting_def intro: keeps_ok)

lemma keeps_pdu [rx_kept]: "rx_keeps (rx_handle_pdu_received intern k pdu)"
  unfolding rx_handle_pdu_received_def Let_def
  by (auto intro!: rx.keeps_rules rx_kept split: option.split PduVariant.split)

lemma keeps_dispatch: "rx_keeps (rx_dispatch intern e)"
  by (cases e) (simp_all add: rx_dispatch_def rx_kept)

lemma rx_handle_keeps:
  assumes "rx_ok m" "rx_handle intern m e = ((m', as), r)"
  shows "rx_ok m'" "list_all (\<lambda>a. \<not> completing a) as"
  using keepsD [OF keeps_dispatch _ _ assms(2) [unfolded rx_handle_def]] assms(1) by (simp_all add: rx_ok_def)

lemma rx_run_keeps: "rx_ok m \<Longrightarrow> rx_run intern m es = (m', as) \<Longrightarrow> rx_ok m' \<and> list_all (\<lambda>a. \<not> completing a) as"
proof (induction es arbitrary: m as m')
  case (Cons e es)
  obtain m1 as1 r where h: "rx_handle intern m e = ((m1, as1), r)" by (metis prod.collapse)
  obtain m2 bs where r: "rx_run intern m1 es = (m2, bs)" by (cases "rx_run intern m1 es")
  have "m' = m2" "as = as1 @ bs" using Cons.prems(2) h r by auto
  then show ?case using rx_handle_keeps [OF Cons.prems(1) h] Cons.IH [OF _ r] by simp
qed simp

text \<open>
  C20: The receiving machine never completes a transfer. Whatever events a new machine handles,
  in whatever order, it never asks for a checksum to be verified, never executes filestore
  requests, never reports a received file and never sends Finished: the tracker's test for a
  complete file fails always, and every transaction stays in the states before it.
\<close>

theorem cfdp_receiver_never_completes:
  "filter completing (snd (rx_run intern (rx_new entity) es)) = []"
proof -
  have "rx_ok (rx_new entity)" by (simp add: rx_ok_def each_transaction_def rx_new_def lm_get_def)
  then have "list_all (\<lambda>a. \<not> completing a) (snd (rx_run intern (rx_new entity) es))"
    using rx_run_keeps [of "rx_new entity" intern es] by (metis prod.collapse)
  then show ?thesis by (simp add: filter_empty_conv list_all_iff)
qed

text \<open>
  What happens instead: an EOF without error is acknowledged and answered with a NAK for the
  whole file, also when every byte of it has been written.
\<close>

lemma rx_eof_naks:
  assumes "rx_ok m" "lm_get (rx_transactions m) k = Some t"
    "pdu_variant pdu = Inr (EofV eof)" "eof_condition_code eof = Inr NoError"
  shows "rx_handle intern m (RxPduReceived k pdu) =
    ((put_rx (lm_update k (rt_state_update (\<lambda>_. WaitingForNakData)) (rx_transactions m)) m,
      [RxStopTimer k (Some TimerInactivity), RxSendAck k (source_id k) DirEof NoError StatusActive,
       RxSendNak k (source_id k) 0 (cfg_file_size (rt_config t)), RxStartTimer k (rt_nak_timeout_secs t) TimerNak]), None)"
proof -
  have "\<not> is_complete (rt_tracker t)" using rx_incomplete [OF assms(2)] assms(1) by (simp add: rx_ok_def)
  moreover have "transaction_id (rt_config t) = k"
    using assms(1,2) by (simp add: rx_ok_def each_transaction_def rx_waiting_def)
  ultimately show ?thesis
    using assms(2-4) by (simp add: rx_handle_def rx_dispatch_def rx_handle_pdu_received_def rx_handle_eof_def
        rx_send_nak_def lookup_def modify_def with_machine_def handling_simps put_rx_def)
qed

section \<open>The action buffer suffices\<close>

lemma parse_error_requests:
  assumes "\<And>path. parse_error (intern path)"
  shows "parse_error (read_requests intern acc ts)"
proof -
  have "parse_error (read_request intern t)" for t
    using assms by (auto simp: read_request_def intro!: parse_errors split: option.split)
  then show ?thesis by (induction ts arbitrary: acc) (auto intro!: parse_errors)
qed

named_theorems rx_cost \<open>bounds on the actions of the receiver's handlers\<close>

lemma costs_terminate [rx_cost]: "1 \<le> n \<Longrightarrow> costs n (rx_terminate_transaction k cond)"
  unfolding rx_terminate_transaction_def by (auto intro!: costs_rules)

lemma costs_suspend [rx_cost]: "2 \<le> n \<Longrightarrow> costs n (rx_handle_suspend_request k)"
  unfolding rx_handle_suspend_request_def by (auto intro!: costs_rules)

lemma costs_fault [rx_cost]: "2 \<le> n \<Longrightarrow> costs n (rx_handle_fault k cond)"
  unfolding rx_handle_fault_def by (auto intro!: costs_rules rx_cost split: HandlerCode.split)

lemma costs_filestore_responses [rx_cost]: "costs 4 (rx_handle_filestore_responses k responses)"
  unfolding rx_handle_filestore_responses_def
  by (auto intro!: costs_rules costs_do_step [OF costs_terminate [OF order_refl]])

lemma costs_resume [rx_cost]: "3 \<le> n \<Longrightarrow> costs n (rx_handle_resume_request k)"
proof -
  have "costs 2 (case st of
        WaitingForNakData \<Rightarrow> do_all [push_action a, push_action b]
      | ReceivingFileData \<Rightarrow> do_all [run_if c (push_action d), push_action e]
      | _ \<Rightarrow> ok)" for st c and a b d e :: RxAction
    by (cases st) (auto intro!: costs_rules)
  note step = costs_do_step [OF this]
  show "3 \<le> n \<Longrightarrow> ?thesis"
    unfolding rx_handle_resume_request_def by (auto intro!: costs_rules step)
qed

lemma costs_send_nak [rx_cost]: "2 \<le> n \<Longrightarrow> costs n (rx_send_nak k)"
  unfolding rx_send_nak_def by (auto intro!: costs_rules)

lemma costs_nak_timeout [rx_cost]: "2 \<le> n \<Longrightarrow> costs n (rx_handle_nak_timeout k)"
  unfolding rx_handle_nak_timeout_def
  using costs_and_do [OF costs_modify [of 0] costs_send_nak, of n] by (auto intro!: costs_lookup costs_if rx_cost)

lemma costs_timer [rx_cost]: "2 \<le> n \<Longrightarrow> costs n (rx_handle_timer_expired timer k)"
  unfolding rx_handle_timer_expired_def rx_handle_inactivity_def
  by (cases timer) (auto intro!: costs_rules rx_cost)

lemma costs_file_data [rx_cost]: "3 \<le> n \<Longrightarrow> costs n (rx_handle_file_data k large data)"
proof -
  have "costs 1 (try_value (fd_file_data data large) (\<lambda>d. try_value (fd_offset data large) (\<lambda>off. push_action (RxWriteFileData k d off))))"
    by (auto intro!: costs_rules parse_errors)
  note step = costs_do_step [OF this]
  show "3 \<le> n \<Longrightarrow> ?thesis"
    unfolding rx_handle_file_data_def by (auto intro!: costs_rules step)
qed

lemma costs_eof [rx_cost]: "costs 4 (rx_handle_eof k pdu eof)"
proof -
  have "costs 2 (case cond of NoError \<Rightarrow> if c then do_all [push_action a, modify rx_transactions put_rx k g] else rx_send_nak k
      | _ \<Rightarrow> rx_handle_fault k cond)" for cond c a g
    by (auto intro!: costs_rules rx_cost split: ConditionCode.split)
  note step = costs_do_step [OF this]
  show ?thesis unfolding rx_handle_eof_def by (auto intro!: costs_rules parse_errors step split: option.split split del: if_split)
qed

lemma costs_metadata [rx_cost]:
  assumes "\<And>path. parse_error (intern path)" "2 \<le> n"
  shows "costs n (rx_handle_metadata intern k meta large)"
proof -
  have c: "costs 0 (rx_create_transaction intern k source dest fsize ctype handlers)" for source dest fsize ctype handlers
    unfolding rx_create_transaction_def using assms(1) by (auto intro!: costs_rules)
  have "costs n (lookup rx_transactions k (\<lambda>t. try_value (meta_filestore_requests meta large) (\<lambda>tlvs.
              try_value (read_requests intern [] tlvs) (\<lambda>requests. do_all [
                modify rx_transactions put_rx k (rt_filestore_requests_update (\<lambda>_. requests)),
                run_if (rt_keep_alive_interval_secs t \<noteq> 0)
                  (push_action (RxStartTimer k (rt_keep_alive_interval_secs t) TimerKeepAlive)),
                push_action (RxStartTimer k 30 TimerInactivity)]))))"
    using assms by (auto intro!: costs_rules parse_errors parse_error_requests)
  note both = costs_and_do [OF c this, simplified]
  show ?thesis
    unfolding rx_handle_metadata_def by (auto intro!: costs_with_machine costs_try costs_ok costs_if parse_errors both)
qed

lemma costs_checksum [rx_cost]: "costs 4 (rx_handle_checksum_verified k is_valid)"
  unfolding rx_handle_checksum_verified_def
  by (auto intro!: costs_rules rx_cost costs_do_step [OF costs_terminate [OF order_refl]])

lemma costs_pdu:
  assumes "\<And>path. parse_error (intern path)"
  shows "costs 4 (rx_handle_pdu_received intern k pdu)"
  using assms unfolding rx_handle_pdu_received_def Let_def
  by (auto intro!: costs_rules parse_errors rx_cost split: option.split PduVariant.split)

text \<open>
  The receiver's action buffer suffices. Whatever the machine's state and the event, handling
  it pushes at most four of the eight actions the buffer has room for, so no event is cut short by
  a full buffer; the file store's own errors aside, which must not be that error.
\<close>

theorem cfdp_receiver_actions_bounded:
  assumes "\<And>path. intern path \<noteq> Inl ActionBufferFull"
    and "rx_handle intern m e = ((m', as), r)"
  shows "length as \<le> 4 \<and> r \<noteq> Some ActionBufferFull"
proof -
  have "parse_error (intern path)" for path using assms(1) [of path] by (auto simp: parse_error_def split: sum.split)
  then have "costs 4 (rx_handle_pdu_received intern k pdu)" for k pdu by (rule costs_pdu)
  moreover have "costs 4 (rx_handle_file_data_written k off len)" for k off len
    unfolding rx_handle_file_data_written_def by (intro costs_lookup costs_modify)
  ultimately have "costs 4 (rx_dispatch intern e)" using rx_cost by (cases e) (simp_all add: rx_dispatch_def)
  from costsD [OF this _ assms(2) [unfolded rx_handle_def]] show ?thesis by (simp add: MAX_ACTIONS_PER_EVENT_def)
qed

theorem cfdp_receiver_actions_bounded_witness:
  "\<exists>m' as r. rx_handle (\<lambda>_. Inr 0)
     \<lparr>rx_transactions = [(\<lparr>source_id = 1, seq_num = 2\<rparr>,
        \<lparr>rt_tracker = tracker_new 10,
         rt_config = \<lparr>transaction_id = \<lparr>source_id = 1, seq_num = 2\<rparr>, destination_id = 3, cfg_file_size = 10,
            fault_handlers = 0, inactivity_timeout_secs = 30, checksum_type = Modular, source_file_id = 0, destination_file_id = 1\<rparr>,
         rt_filestore_requests = [], rt_progress = 0, rt_nak_timeout_secs = 10, rt_keep_alive_interval_secs = 60,
         rt_state = ReceivingFileData, rt_nak_retries = 0, rt_nak_limit = 0, rt_suspended = True\<rparr>)], rx_id = 3\<rparr>
     (RxResumeRequest \<lparr>source_id = 1, seq_num = 2\<rparr>) = ((m', as), r)
   \<and> as = [RxStartTimer \<lparr>source_id = 1, seq_num = 2\<rparr> 60 TimerKeepAlive, RxStartTimer \<lparr>source_id = 1, seq_num = 2\<rparr> 30 TimerInactivity,
           RxNotifyResumed \<lparr>source_id = 1, seq_num = 2\<rparr> 0]
   \<and> length as \<le> 4 \<and> r \<noteq> Some ActionBufferFull"
  (is "\<exists>m' as r. rx_handle ?i ?m ?e = _ \<and> _")
proof -
  obtain m' as r where h: "rx_handle ?i ?m ?e = ((m', as), r)" by (metis prod.collapse)
  have "length as \<le> 4 \<and> r \<noteq> Some ActionBufferFull"
    by (rule cfdp_receiver_actions_bounded [OF _ h]) simp
  moreover have "as = [RxStartTimer \<lparr>source_id = 1, seq_num = 2\<rparr> 60 TimerKeepAlive, RxStartTimer \<lparr>source_id = 1, seq_num = 2\<rparr> 30 TimerInactivity,
           RxNotifyResumed \<lparr>source_id = 1, seq_num = 2\<rparr> 0]"
    using h by (auto simp: rx_handle_def rx_dispatch_def rx_handle_resume_request_def lookup_def modify_def lm_get_def
        run_if_def handling_simps)
  ultimately show ?thesis using h by blast
qed

end
