(* ===== verification/Cfdp_Checksum.thy ===== *)
theory Cfdp_Checksum
  imports Cfdp_Types Wire
begin

text \<open>
  The modular checksum of CFDP files (\<open>crates/leodos-protocols/src/transport/cfdp/checksum.rs\<close>) and
  the loop that feeds a file to a checksum (\<open>filestore.rs\<close>, \<open>calculate_checksum\<close>). The calculator
  takes the file in pieces of any length and keeps up to three bytes of an unfinished word;
  the reference \<open>modular_sum\<close> adds the big-endian words of the whole file, padded with zeros.
  The file store itself is a trait: its \<open>read_chunk\<close> is a parameter.
\<close>

section \<open>Definitions\<close>

record ModularChecksum =
  mc_sum :: u32
  pending :: bytes

definition checksum_new :: ModularChecksum where
  "checksum_new = \<lparr>mc_sum = 0, pending = []\<rparr>"

fun be_word :: "bytes \<Rightarrow> u32" where
  "be_word [a, b, c, d] = be32_to a b c d"
| "be_word _ = 0"

text \<open>Step 1: bytes go to the pending word until it is full or the data ends.\<close>

fun fill_pending :: "bytes \<Rightarrow> bytes \<Rightarrow> bytes \<times> bytes" where
  "fill_pending p [] = (p, [])"
| "fill_pending p (b # bs) = (if length p < 4 then fill_pending (p @ [b]) bs else (p, b # bs))"

text \<open>Step 3: the whole words of the rest, and what remains.\<close>

fun sum_chunks :: "u32 \<Rightarrow> bytes \<Rightarrow> u32 \<times> bytes" where
  "sum_chunks acc (a # b # c # d # rest) = sum_chunks (acc + be_word [a, b, c, d]) rest"
| "sum_chunks acc rest = (acc, rest)"

definition checksum_update :: "ModularChecksum \<Rightarrow> bytes \<Rightarrow> ModularChecksum" where
  "checksum_update h data =
     (let (p, remaining) = fill_pending (pending h) data;
          (acc, p) = (if length p = 4 then (mc_sum h + be_word p, []) else (mc_sum h, p));
          (acc, remainder) = sum_chunks acc remaining
      in \<lparr>mc_sum = acc, pending = foldl (vec_push 4) p remainder\<rparr>)"

definition checksum_finalize :: "ModularChecksum \<Rightarrow> u32" where
  "checksum_finalize h =
     (if pending h \<noteq> [] then mc_sum h + be_word (blit [0, 0, 0, 0] 0 (pending h)) else mc_sum h)"

text \<open>
  The loop over the file. \<open>read_chunk offset n\<close> is the bytes the store puts into the buffer.
\<close>

function checksum_loop ::
  "('h \<Rightarrow> bytes \<Rightarrow> 'h) \<Rightarrow> (nat \<Rightarrow> nat \<Rightarrow> CfdpError + bytes) \<Rightarrow> nat \<Rightarrow> nat \<Rightarrow> 'h \<Rightarrow> CfdpError + 'h" where
  "checksum_loop update read_chunk file_size offset hasher =
     (if offset < file_size
      then case read_chunk offset (min 4096 (file_size - offset)) of
             Inl e \<Rightarrow> Inl e
           | Inr data \<Rightarrow>
               if length data = 0 then Inr hasher
               else checksum_loop update read_chunk file_size (offset + length data) (update hasher data)
      else Inr hasher)"
  by pat_completeness auto

termination checksum_loop
  by (relation "measure (\<lambda>(u, r, n, off, h). n - off)") (auto intro!: diff_less_mono2)

declare checksum_loop.simps [simp del]

definition calculate_checksum ::
  "('h \<Rightarrow> bytes \<Rightarrow> 'h) \<Rightarrow> ('h \<Rightarrow> u32) \<Rightarrow> (nat \<Rightarrow> nat \<Rightarrow> CfdpError + bytes) \<Rightarrow> CfdpError + nat \<Rightarrow> 'h \<Rightarrow> CfdpError + u32" where
  "calculate_checksum update finalize read_chunk file_size hasher =
     (case file_size of Inl e \<Rightarrow> Inl e
      | Inr n \<Rightarrow> map_sum id finalize (checksum_loop update read_chunk n 0 hasher))"

section \<open>The reference\<close>

fun modular_sum :: "bytes \<Rightarrow> u32" where
  "modular_sum [] = 0"
| "modular_sum [a] = be_word [a, 0, 0, 0]"
| "modular_sum [a, b] = be_word [a, b, 0, 0]"
| "modular_sum [a, b, c] = be_word [a, b, c, 0]"
| "modular_sum (a # b # c # d # rest) = be_word [a, b, c, d] + modular_sum rest"

lemma modular_sum_append:
  "length xs mod 4 = 0 \<Longrightarrow> modular_sum (xs @ ys) = modular_sum xs + modular_sum ys"
  by (induction xs rule: modular_sum.induct) (auto simp: add.assoc)

lemma sum_chunks_eq:
  "sum_chunks acc data = (acc + modular_sum (take (length data - length data mod 4) data), drop (length data - length data mod 4) data)"
  by (induction acc data rule: sum_chunks.induct) (auto simp: add.assoc Suc_diff_le)

lemma fill_pending_eq:
  "length p \<le> 4 \<Longrightarrow> fill_pending p data = (p @ take (4 - length p) data, drop (4 - length p) data)"
  by (induction p data rule: fill_pending.induct) (auto simp: Suc_diff_Suc take_Cons' drop_Cons')

lemma foldl_push: "length p + length xs \<le> 4 \<Longrightarrow> foldl (vec_push 4) p xs = p @ xs"
  by (induction xs arbitrary: p) auto

text \<open>The calculator has summed whole words and holds the start of the next one.\<close>

definition summed :: "ModularChecksum \<Rightarrow> bytes \<Rightarrow> bool" where
  "summed h bs \<longleftrightarrow> length (pending h) < 4 \<and>
     (\<exists>whole. bs = whole @ pending h \<and> length whole mod 4 = 0 \<and> mc_sum h = modular_sum whole)"

lemma summedI:
  "bs = whole @ p \<Longrightarrow> length whole mod 4 = 0 \<Longrightarrow> modular_sum whole = acc \<Longrightarrow> length p < 4 \<Longrightarrow>
   summed \<lparr>mc_sum = acc, pending = p\<rparr> bs"
  by (auto simp: summed_def)

lemma summed_new: "summed checksum_new []"
  by (simp add: summed_def checksum_new_def)

lemma be_word_sum: "length p = 4 \<Longrightarrow> be_word p = modular_sum p"
  by (cases p rule: modular_sum.cases) auto

lemma summed_update:
  assumes "summed h bs"
  shows "summed (checksum_update h data) (bs @ data)"
proof -
  obtain whole where w: "bs = whole @ pending h" "length whole mod 4 = 0" "mc_sum h = modular_sum whole" "length (pending h) < 4"
    using assms by (auto simp: summed_def)
  let ?k = "4 - length (pending h)" let ?p = "pending h @ take ?k data" let ?r = "drop ?k data"
  have fill: "fill_pending (pending h) data = (?p, ?r)" using w(4) by (simp add: fill_pending_eq)
  show ?thesis
  proof (cases "length ?p = 4")
    case True
    let ?m = "length ?r - length ?r mod 4"
    have u: "checksum_update h data = \<lparr>mc_sum = modular_sum whole + modular_sum ?p + modular_sum (take ?m ?r), pending = drop ?m ?r\<rparr>"
      using fill True w(3) by (simp add: checksum_update_def Let_def sum_chunks_eq be_word_sum foldl_push del: length_append length_take)
    have "length (whole @ ?p) = length whole + 4" unfolding length_append [of whole] True ..
    then have l: "length (whole @ ?p) mod 4 = 0" using w(2) by simp
    have "length (take ?m ?r) = 4 * (length ?r div 4)"
      using minus_mod_eq_mult_div [of "length ?r" 4] by (simp only: length_take min.absorb2 diff_le_self)
    then have "length (take ?m ?r) mod 4 = 0" by simp
    then have "length ((whole @ ?p) @ take ?m ?r) mod 4 = 0" using l by (simp del: length_take) presburger
    moreover have "modular_sum ((whole @ ?p) @ take ?m ?r) = modular_sum whole + modular_sum ?p + modular_sum (take ?m ?r)"
      using modular_sum_append [OF l] modular_sum_append [OF w(2)] by simp
    moreover have "bs @ data = ((whole @ ?p) @ take ?m ?r) @ drop ?m ?r"
      unfolding w(1) append_assoc append_take_drop_id ..
    moreover have "length (drop ?m ?r) < 4" using mod_less_divisor [of 4 "length ?r"] unfolding length_drop by linarith
    ultimately show ?thesis unfolding u by (intro summedI)
  next
    case False
    then have r: "?r = []" "?p = pending h @ data" using w(4) by auto
    then have "checksum_update h data = \<lparr>mc_sum = mc_sum h, pending = pending h @ data\<rparr>"
      using fill False by (simp add: checksum_update_def)
    moreover have "length (pending h @ data) < 4" using False r w(4) by auto
    ultimately show ?thesis using w unfolding summed_def by (intro conjI exI [of _ whole]) auto
  qed
qed

lemma summed_finalize:
  assumes "summed h bs"
  shows "checksum_finalize h = modular_sum bs"
proof -
  obtain whole where w: "bs = whole @ pending h" "length whole mod 4 = 0" "mc_sum h = modular_sum whole" "length (pending h) < 4"
    using assms by (auto simp: summed_def)
  have "be_word (blit [0, 0, 0, 0] 0 (pending h)) = modular_sum (pending h)" if "pending h \<noteq> []"
    using w(4) that by (cases "pending h" rule: modular_sum.cases) (auto simp: blit_def)
  then show ?thesis using w modular_sum_append [OF w(2)] by (auto simp: checksum_finalize_def)
qed

lemma summed_updates: "summed h bs \<Longrightarrow> summed (foldl checksum_update h chunks) (bs @ concat chunks)"
proof (induction chunks arbitrary: h bs)
  case (Cons c chunks)
  then show ?case using Cons.IH [OF summed_update [OF Cons.prems, of c]] by simp
qed simp

lemma checksum_chunks: "checksum_finalize (foldl checksum_update checksum_new chunks) = modular_sum (concat chunks)"
  using summed_finalize [OF summed_updates [OF summed_new]] by simp

text \<open>
  C26: The checksum of a file does not depend on how it is read. For a store that returns, at
  every offset of the file, at least one and at most as many bytes as asked for, all of them
  the file's own, \<open>calculate_checksum\<close> with the modular calculator is the sum of the big-endian
  words of the whole file, padded with zeros.
\<close>

theorem calculate_checksum_reference:
  assumes "\<And>off n. off < length src \<Longrightarrow> 0 < n \<Longrightarrow>
             \<exists>k. 0 < k \<and> k \<le> n \<and> read_chunk off n = Inr (take k (drop off src))"
  shows "calculate_checksum checksum_update checksum_finalize read_chunk (Inr (length src)) checksum_new
         = Inr (modular_sum src)"
proof -
  have "\<exists>h'. checksum_loop checksum_update read_chunk (length src) off h = Inr h' \<and> summed h' src"
    if "summed h (take off src)" "off \<le> length src" for off h
    using that
  proof (induction "length src - off" arbitrary: off h rule: less_induct)
    case less
    show ?case
    proof (cases "off < length src")
      case False
      then show ?thesis using less.prems by (subst checksum_loop.simps) simp
    next
      case True
      then obtain k where k: "0 < k" "k \<le> min 4096 (length src - off)"
        "read_chunk off (min 4096 (length src - off)) = Inr (take k (drop off src))"
        using assms [of off "min 4096 (length src - off)"] by auto
      let ?d = "take k (drop off src)"
      have len: "length ?d = k" using k(2) by simp
      have "take off src @ ?d = take (off + k) src" by (simp add: take_add)
      then have "summed (checksum_update h ?d) (take (off + k) src)" using summed_update [OF less.prems(1), of ?d] by simp
      moreover have "length src - (off + k) < length src - off" "off + k \<le> length src" using k(1,2) True by auto
      ultimately have "\<exists>h'. checksum_loop checksum_update read_chunk (length src) (off + k) (checksum_update h ?d) = Inr h' \<and> summed h' src"
        using less.hyps by blast
      then show ?thesis using True k(1,3) len by (subst checksum_loop.simps) simp
    qed
  qed
  from this [of checksum_new 0] summed_new show ?thesis
    by (auto simp: calculate_checksum_def summed_finalize)
qed

theorem calculate_checksum_reference_witness:
  "calculate_checksum checksum_update checksum_finalize
     (\<lambda>off n. Inr (take (min n 3) (drop off [1, 2, 3, 4, 5 :: u8]))) (Inr 5) checksum_new = Inr 0x06020304"
proof -
  have "\<exists>k. 0 < k \<and> k \<le> n \<and> Inr (take (min n 3) (drop off src)) = (Inr (take k (drop off src)) :: CfdpError + bytes)"
    if "off < length src" "0 < n" for off n and src :: bytes
    using that by (intro exI [of _ "min n 3"]) auto
  note eq = calculate_checksum_reference [OF this, of "[1, 2, 3, 4, 5]"]
  have "modular_sum [1, 2, 3, 4, 5] = 0x06020304" by (simp add: be32_to_def)
  moreover have "length [1, 2, 3, 4, 5 :: u8] = 5" by simp
  ultimately show ?thesis using eq by (simp only:)
qed

end
