(* ===== verification/Cfdp_Transfer.thy ===== *)
theory Cfdp_Transfer
  imports Cfdp_Sender Cfdp_Build Cfdp_Receiver Cfdp_Checksum
begin

text \<open>
  The CFDP parts together: the sending machine driven by its acknowledgement timer and by the ACK
  PDUs that the builder makes. The builder's ACKs are not recognised, so after the EOF the sender
  retransmits until its limit and gives up, whatever acknowledgements arrive.
\<close>

section \<open>Runs of the sender\<close>

fun tx_run :: "SenderMachine \<Rightarrow> TxEvent list \<Rightarrow> SenderMachine \<times> TxAction list" where
  "tx_run m [] = (m, [])"
| "tx_run m (e # es) = (let ((m', as), _) = tx_handle m e; (m'', bs) = tx_run m' es in (m'', as @ bs))"

lemma tx_run_Cons:
  "tx_handle m e = ((m', as), r) \<Longrightarrow> tx_run m (e # es) = (fst (tx_run m' es), as @ snd (tx_run m' es))"
  by (simp add: case_prod_beta Let_def)

fun is_eof :: "TxAction \<Rightarrow> bool" where
  "is_eof (TxSendEof _ _ _ _ _) = True"
| "is_eof _ = False"

text \<open>An ACK PDU made by the builder, for any directive and status, in any buffer.\<close>

definition built_ack :: "Pdu \<Rightarrow> bool" where
  "built_ack p \<longleftrightarrow> (\<exists>buffer src dst sn mode crc code cond st.
     ack_new buffer src dst sn mode crc code cond st = Returns (Inr p))"

definition ack_or_timeout :: "TransactionId \<Rightarrow> TxEvent \<Rightarrow> bool" where
  "ack_or_timeout k e \<longleftrightarrow> e = TxTimerExpired k TimerAck \<or> (\<exists>p. built_ack p \<and> e = TxPduReceived k p)"

section \<open>One event\<close>

lemma built_ack_ignored:
  assumes "built_ack p"
  shows "\<exists>r. tx_handle m (TxPduReceived k p) = ((m, []), r)"
proof -
  obtain a where "pdu_variant p = Inr (AckV a)" "acked_directive_code a = Inl (Custom ''Invalid AckedPduDirectiveCode value'')"
    using assms ack_new_reads unfolding built_ack_def by metis
  then show ?thesis
    by (auto simp: tx_handle_def tx_dispatch_def tx_handle_pdu_received_def tx_handle_ack_def lookup_def
        handling_simps split: option.split)
qed

lemma ack_timeout_resends:
  assumes "lm_get (tx_transactions m) k = Some t" "tt_state t = WaitingForEofAck" "tt_file_checksum t = Some c"
    "tt_ack_retries t < tt_ack_limit t"
  shows "\<exists>m' r. tx_handle m (TxTimerExpired k TimerAck) =
      ((m', [TxSendEof k (destination_id (tt_config t)) NoError (cfg_file_size (tt_config t)) c,
             TxStartTimer k TimerAck (tx_ack_timeout_secs m)]), r)
    \<and> lm_get (tx_transactions m') k = Some (t\<lparr>tt_ack_retries := Suc (tt_ack_retries t)\<rparr>)"
  using assms by (simp add: tx_handle_def tx_dispatch_def tx_handle_timer_expired_def tx_send_eof_def lookup_def
      modify_def with_machine_def put_tx_def handling_simps)

lemma ack_timeout_gives_up:
  assumes "lm_get (tx_transactions m) k = Some t" "tt_ack_limit t \<le> tt_ack_retries t"
  shows "\<exists>m' r. tx_handle m (TxTimerExpired k TimerAck) =
      ((m', [TxTerminateTransaction (transaction_id (tt_config t)) AckLimitReached]), r)
    \<and> lm_get (tx_transactions m') k = None"
  using assms by (simp add: tx_handle_def tx_dispatch_def tx_handle_timer_expired_def tx_handle_terminate_def lookup_def
      remove_def put_tx_def handling_simps)

lemma gone_stays_gone:
  assumes "lm_get (tx_transactions m) k = None" "ack_or_timeout k e"
  shows "tx_handle m e = ((m, []), None)"
  using assms by (auto simp: ack_or_timeout_def tx_handle_def tx_dispatch_def tx_handle_timer_expired_def
      tx_handle_pdu_received_def lookup_def handling_simps)

lemma gone_run:
  "lm_get (tx_transactions m) k = None \<Longrightarrow> list_all (ack_or_timeout k) es \<Longrightarrow> tx_run m es = (m, [])"
  by (induction es) (simp_all add: gone_stays_gone)

section \<open>The sender gives up\<close>

text \<open>
  C22: No acknowledgement that the code can build reaches the sender. A transaction that waits for
  the acknowledgement of its EOF, and then sees only expirations of its acknowledgement timer and
  ACK PDUs from the builder, in any order, sends the EOF once more for each expiration up to its
  limit, then ends with \<open>AckLimitReached\<close> at the next one and is forgotten.
\<close>

theorem cfdp_sender_gives_up:
  assumes "lm_get (tx_transactions m) k = Some t" "tt_state t = WaitingForEofAck" "tt_file_checksum t = Some c"
    and "tt_ack_retries t \<le> tt_ack_limit t" "list_all (ack_or_timeout k) es"
    and "tt_ack_limit t - tt_ack_retries t < length (filter (\<lambda>e. e = TxTimerExpired k TimerAck) es)"
  shows "lm_get (tx_transactions (fst (tx_run m es))) k = None
    \<and> TxTerminateTransaction (transaction_id (tt_config t)) AckLimitReached \<in> set (snd (tx_run m es))
    \<and> length (filter is_eof (snd (tx_run m es))) = tt_ack_limit t - tt_ack_retries t"
  using assms
proof (induction es arbitrary: m t)
  case (Cons e es)
  show ?case
  proof (cases "e = TxTimerExpired k TimerAck")
    case False
    then obtain p where p: "built_ack p" "e = TxPduReceived k p" using Cons.prems(5) by (auto simp: ack_or_timeout_def)
    obtain r where h: "tx_handle m e = ((m, []), r)" using built_ack_ignored [OF p(1)] p(2) by blast
    show ?thesis unfolding tx_run_Cons [OF h] using Cons.IH [OF Cons.prems(1-4)] Cons.prems(5,6) False by simp
  next
    case timer: True
    show ?thesis
    proof (cases "tt_ack_retries t < tt_ack_limit t")
      case True
      let ?t = "t\<lparr>tt_ack_retries := Suc (tt_ack_retries t)\<rparr>"
      obtain m' r where h: "tx_handle m e = ((m', [TxSendEof k (destination_id (tt_config t)) NoError (cfg_file_size (tt_config t)) c,
             TxStartTimer k TimerAck (tx_ack_timeout_secs m)]), r)" "lm_get (tx_transactions m') k = Some ?t"
        using ack_timeout_resends [OF Cons.prems(1-3) True] timer by blast
      show ?thesis unfolding tx_run_Cons [OF h(1)] using Cons.IH [OF h(2)] Cons.prems True timer by simp
    next
      case False
      obtain m' r where h: "tx_handle m e = ((m', [TxTerminateTransaction (transaction_id (tt_config t)) AckLimitReached]), r)"
        "lm_get (tx_transactions m') k = None"
        using ack_timeout_gives_up [OF Cons.prems(1)] False timer by fastforce
      show ?thesis unfolding tx_run_Cons [OF h(1)] using gone_run [OF h(2)] h(2) Cons.prems(4,5) False by simp
    qed
  qed
qed simp

text \<open>An EOF sent for a file of ten bytes, an ACK built in a fitting buffer, and six expirations.\<close>

theorem cfdp_sender_gives_up_witness:
  "let k = \<lparr>source_id = 1, seq_num = 0\<rparr>;
       m = \<lparr>tx_transactions = [(k, (tx_new_transaction (tx_new 1 10 1000) 2 0 1 10 Modular)
             \<lparr>tt_state := WaitingForEofAck, tt_file_checksum := Some 99\<rparr>)], tx_next_seq_num = 1, tx_id = 1,
             tx_keep_alive_limit = 1000, tx_ack_timeout_secs = 10\<rparr>
   in \<exists>p. ack_new ([0, 0, 3, 0] @ replicate 6 0) 1 2 0 Acknowledged False AckedEof NoError StatusActive = Returns (Inr p)
      \<and> length (filter is_eof (snd (tx_run m (TxPduReceived k p # replicate 6 (TxTimerExpired k TimerAck))))) = 5"
proof -
  let ?k = "\<lparr>source_id = 1, seq_num = 0\<rparr> :: TransactionId"
  let ?t = "(tx_new_transaction (tx_new 1 10 1000) 2 0 1 10 Modular)\<lparr>tt_state := WaitingForEofAck, tt_file_checksum := Some 99\<rparr>"
  let ?m = "\<lparr>tx_transactions = [(?k, ?t)], tx_next_seq_num = 1, tx_id = 1, tx_keep_alive_limit = 1000, tx_ack_timeout_secs = 10\<rparr>"
  let ?old = "\<lparr>version_and_flags = 0, hdr_data_field_len = 3, lengths_and_metadata_flag = 0\<rparr>"
  let ?b = "[0, 0, 3, 0] @ replicate 6 0"
  have len: "total_pdu_len ?old = 10"
    by (simp add: total_pdu_len_def total_header_len_def fixed_header_len_def variable_header_len_def
        pdu_data_field_len_def entity_id_len_def txn_seq_num_len_def get_bits_def)
  have mins: "min_len (Suc 0) = 1" "min_len 2 = 1" "min_len 0 = 1" by (simp_all add: min_len_def upt_rec)
  have old: "header_of ?b = Some ?old" "total_pdu_len ?old \<le> length ?b"
    "total_pdu_len ?old = 4 + (2 * max (min_len 1) (min_len 2) + min_len 0) + Suc 2"
    by (simp_all add: len mins be16_to_def)
  obtain q rest where s: "start_directive ?b TowardSender Acknowledged False False (u16_of 3) 1 2 0
      (\<lambda>_. Custom ''Failed to create FileDirectivePdu'') = Inr (q, rest)" "length rest = 2"
    by (rule start_directive_ok [OF old])
  then obtain x y where "rest = [x, y]" by (auto simp: numeral_2_eq_2 length_Suc_conv)
  then obtain p where p: "ack_new ?b 1 2 0 Acknowledged False AckedEof NoError StatusActive = Returns (Inr p)"
    using s by (simp add: ack_new_def finish_directive_def)
  then have acked: "built_ack p" unfolding built_ack_def by blast
  let ?es = "TxPduReceived ?k p # replicate 6 (TxTimerExpired ?k TimerAck)"
  have "list_all (ack_or_timeout ?k) ?es" using acked by (auto simp: ack_or_timeout_def list_all_iff)
  moreover have "lm_get (tx_transactions ?m) ?k = Some ?t" by (simp add: lm_get_def)
  ultimately have "length (filter is_eof (snd (tx_run ?m ?es))) = tt_ack_limit ?t - tt_ack_retries ?t"
    using cfdp_sender_gives_up [of ?m ?k ?t 99 ?es] by (simp add: tx_new_transaction_def del: tx_run.simps)
  then show ?thesis using p by (simp add: Let_def tx_new_transaction_def del: tx_run.simps)
qed

end
