(* ===== verification/Randomizer.thy ===== *)
theory Randomizer
  imports Leo_Prelude
begin

text \<open>
  Pseudo-randomization of frames (\<open>coding/randomizer.rs\<close>, \<open>NoRandomizer\<close> of \<open>coding/mod.rs\<close>).
  A constructor fills a table from a linear feedback shift register, \<open>apply\<close> XORs the frame
  with the table, repeated. Applying it twice gives the frame back, and the bits applied are
  those of the linear recurrence the register implements, without a seam where the table of
  255 bytes is repeated. The locale \<open>shift_register\<close> is what a table's constructor relies on:
  the feedback bit is the next bit of a sequence.
\<close>

section \<open>The tables\<close>

definition tc_feedback :: "u8 \<Rightarrow> u8" where
  "tc_feedback lfsr =
     (lfsr XOR drop_bit 1 lfsr XOR drop_bit 2 lfsr XOR drop_bit 3 lfsr XOR drop_bit 4 lfsr
        XOR drop_bit 6 lfsr) AND 1"

definition tm255_feedback :: "u8 \<Rightarrow> u8" where
  "tm255_feedback lfsr = (lfsr XOR drop_bit 3 lfsr XOR drop_bit 5 lfsr XOR drop_bit 7 lfsr) AND 1"

definition tm131071_feedback :: "u32 \<Rightarrow> u32" where
  "tm131071_feedback lfsr = (lfsr XOR drop_bit 3 lfsr) AND 1"

text \<open>
  The two loops of the constructors, which differ in the feedback, in the position \<open>hi\<close> the
  feedback bit enters at and in the number of bytes.
\<close>

fun shift_out :: "('a::len word \<Rightarrow> 'a word) \<Rightarrow> nat \<Rightarrow> nat \<Rightarrow> u8 \<Rightarrow> 'a word \<Rightarrow> u8 \<times> 'a word" where
  "shift_out feedback hi 0 val lfsr = (val, lfsr)"
| "shift_out feedback hi (Suc n) val lfsr =
     shift_out feedback hi n (push_bit 1 val OR ucast (lfsr AND 1))
       (drop_bit 1 lfsr OR push_bit hi (feedback lfsr))"

fun table_bytes :: "('a::len word \<Rightarrow> 'a word) \<Rightarrow> nat \<Rightarrow> nat \<Rightarrow> 'a word \<Rightarrow> bytes" where
  "table_bytes feedback hi 0 lfsr = []"
| "table_bytes feedback hi (Suc n) lfsr =
     (case shift_out feedback hi 8 0 lfsr of (val, lfsr') \<Rightarrow>
        val # table_bytes feedback hi n lfsr')"

datatype randomizer =
    TcRandomizer bytes
  | Tm255Randomizer bytes
  | Tm131071Randomizer bytes
  | NoRandomizer

definition TcRandomizer_new :: randomizer where
  "TcRandomizer_new = TcRandomizer (table_bytes tc_feedback 7 255 0xFF)"

definition Tm255Randomizer_new :: randomizer where
  "Tm255Randomizer_new = Tm255Randomizer (table_bytes tm255_feedback 7 255 0xFF)"

definition Tm131071Randomizer_new :: randomizer where
  "Tm131071Randomizer_new = Tm131071Randomizer (table_bytes tm131071_feedback 16 131071 0x1FFFF)"

section \<open>Applying a table\<close>

fun randomizer_table :: "randomizer \<Rightarrow> bytes" where
  "randomizer_table (TcRandomizer t) = t"
| "randomizer_table (Tm255Randomizer t) = t"
| "randomizer_table (Tm131071Randomizer t) = t"
| "randomizer_table NoRandomizer = []"

text \<open>
  \<open>zip(table.iter().cycle())\<close>: the remaining bytes of the current round, then the table
  again. Cycling an empty table yields nothing, which leaves the buffer alone.
\<close>

fun xor_cycle :: "bytes \<Rightarrow> bytes \<Rightarrow> bytes \<Rightarrow> bytes" where
  "xor_cycle t rest [] = []"
| "xor_cycle t (r # rest) (b # bs) = (b XOR r) # xor_cycle t rest bs"
| "xor_cycle [] [] (b # bs) = b # bs"
| "xor_cycle (r # t) [] (b # bs) = (b XOR r) # xor_cycle (r # t) t bs"

fun randomizer_apply :: "randomizer \<Rightarrow> bytes \<Rightarrow> bytes" where
  "randomizer_apply NoRandomizer buf = buf"
| "randomizer_apply r buf = xor_cycle (randomizer_table r) (randomizer_table r) buf"

section \<open>Applying is its own inverse\<close>

lemma length_xor_cycle [simp]: "length (xor_cycle t rest buf) = length buf"
  by (induction t rest buf rule: xor_cycle.induct) auto

lemma length_randomizer_apply [simp]: "length (randomizer_apply r buf) = length buf"
  by (cases r) auto

lemma xor_cycle_twice [simp]: "xor_cycle t rest (xor_cycle t rest buf) = buf"
  by (induction t rest buf rule: xor_cycle.induct) (auto simp: xor.assoc)

lemma randomizer_apply_twice [simp]: "randomizer_apply r (randomizer_apply r buf) = buf"
  by (cases r) auto

lemma nth_xor_cycle:
  assumes "t \<noteq> []" "i < length buf" "k \<le> length t"
  shows "xor_cycle t (drop k t) buf ! i = buf ! i XOR t ! ((k + i) mod length t)"
  using assms(2,3)
proof (induction buf arbitrary: i k)
  case Nil
  then show ?case by simp
next
  case (Cons b bs)
  obtain r t' where t: "t = r # t'" using assms(1) by (cases t) auto
  show ?case
  proof (cases "k = length t")
    case True
    then have "xor_cycle t (drop k t) (b # bs) = (b XOR r) # xor_cycle t (drop 1 t) bs" by (simp add: t)
    moreover have "(length t + Suc j) mod length t = Suc j mod length t" for j
      by (metis mod_add_self1)
    ultimately show ?thesis using Cons.IH [of _ 1] Cons.prems True assms(1)
      by (cases i) (auto simp: t simp del: mod_add_self1)
  next
    case False
    then have "drop k t = t ! k # drop (Suc k) t" using Cons.prems(2) by (simp add: Cons_nth_drop_Suc)
    then have "xor_cycle t (drop k t) (b # bs) = (b XOR t ! k) # xor_cycle t (drop (Suc k) t) bs" by simp
    then show ?thesis using Cons.IH [of _ "Suc k"] Cons.prems False by (cases i) auto
  qed
qed

lemma nth_randomizer_apply:
  assumes "randomizer_table r \<noteq> []" "i < length buf"
  shows "randomizer_apply r buf ! i = buf ! i XOR randomizer_table r ! (i mod length (randomizer_table r))"
  using nth_xor_cycle [OF assms, of 0] assms(1) by (cases r) auto

section \<open>The bits of a buffer\<close>

text \<open>In the order of transmission, most significant bit first.\<close>

definition byte_bits :: "u8 \<Rightarrow> bool list" where
  "byte_bits b = map (\<lambda>k. bit b (7 - k)) [0..<8]"

definition bits_of :: "bytes \<Rightarrow> bool list" where
  "bits_of bs = concat (map byte_bits bs)"

lemma length_byte_bits [simp]: "length (byte_bits b) = 8"
  by (simp add: byte_bits_def)

lemma bits_of_simps [simp]:
  "bits_of [] = []"
  "bits_of (b # bs) = byte_bits b @ bits_of bs"
  "bits_of (xs @ ys) = bits_of xs @ bits_of ys"
  by (simp_all add: bits_of_def)

lemma length_bits_of [simp]: "length (bits_of bs) = 8 * length bs"
  by (induction bs) auto

lemma nth_byte_bits [simp]: "k < 8 \<Longrightarrow> byte_bits b ! k = bit b (7 - k)"
  by (simp add: byte_bits_def)

lemma nth_bits_of: "n < 8 * length bs \<Longrightarrow> bits_of bs ! n = bit (bs ! (n div 8)) (7 - n mod 8)"
proof (induction bs arbitrary: n)
  case (Cons b bs)
  show ?case
  proof (cases "n < 8")
    case False
    then have "n div 8 = Suc ((n - 8) div 8)" "n mod 8 = (n - 8) mod 8" by (simp_all add: div_if mod_if)
    then show ?thesis using Cons False by (simp add: nth_append)
  qed (simp add: nth_append)
qed simp

lemma bits_of_eqI: "8 * length bs = length xs \<Longrightarrow>
    (\<And>n. n < length xs \<Longrightarrow> bit (bs ! (n div 8)) (7 - n mod 8) = xs ! n) \<Longrightarrow> bits_of bs = xs"
  by (rule nth_equalityI) (auto simp: nth_bits_of)


section \<open>Registers and sequences\<close>

text \<open>
  \<open>holds s w n lfsr\<close>: the \<open>w\<close> low bits of the register are the bits \<open>n\<close>, \<open>n + 1\<close>, \<dots> of the
  sequence and the others are clear.
\<close>

definition holds :: "(nat \<Rightarrow> bool) \<Rightarrow> nat \<Rightarrow> nat \<Rightarrow> 'a::len word \<Rightarrow> bool" where
  "holds s w n lfsr \<longleftrightarrow> (\<forall>k. bit lfsr k \<longleftrightarrow> k < w \<and> s (n + k))"

text \<open>A byte filled bit by bit from the right.\<close>

fun push_bits :: "u8 \<Rightarrow> bool list \<Rightarrow> u8" where
  "push_bits val [] = val"
| "push_bits val (b # bs) = push_bits (push_bit 1 val OR of_bool b) bs"

lemma bit_push_bits:
  "bit (push_bits val bs) k \<longleftrightarrow>
     k < 8 \<and> (if k < length bs then bs ! (length bs - 1 - k) else bit val (k - length bs))"
proof (induction bs arbitrary: val)
  case Nil
  then show ?case by (auto dest: bit_imp_le_length)
next
  case (Cons b bs)
  have "bit (push_bit 1 val OR of_bool b) j \<longleftrightarrow> j < 8 \<and> (if j = 0 then b else bit val (j - 1))" for j
    unfolding bit_or_iff bit_push_bit_iff bit_of_bool_iff by (auto dest: bit_imp_le_length)
  note shifted = this
  show ?case
  proof (cases "k < length bs")
    case True
    then show ?thesis by (simp add: Cons.IH nth_Cons')
  next
    case False
    show ?thesis
      unfolding push_bits.simps Cons.IH shifted using False
      by (cases "k = length bs") (auto simp: nth_Cons')
  qed
qed

lemma byte_bits_push_bits: "length bs = 8 \<Longrightarrow> byte_bits (push_bits val bs) = bs"
  by (rule nth_equalityI) (auto simp: bit_push_bits)

lemma and_1_of_bool: "w AND 1 = of_bool (bit w 0)" for w :: "'a::len word"
  by (auto simp: and_one_eq odd_iff_mod_2_eq_one bit_0)

lemma length_table_bytes [simp]: "length (table_bytes feedback hi m lfsr) = m"
  by (induction m arbitrary: lfsr) (auto split: prod.splits)

locale shift_register =
  fixes feedback :: "'a::len word \<Rightarrow> 'a word" and hi :: nat and s :: "nat \<Rightarrow> bool"
  assumes next_bit: "holds s (Suc hi) n lfsr \<Longrightarrow> feedback lfsr = of_bool (s (Suc (n + hi)))"
    and fits: "hi < LENGTH('a)"
begin

lemma shift_holds:
  assumes "holds s (Suc hi) n lfsr"
  shows "holds s (Suc hi) (Suc n) (drop_bit 1 lfsr OR push_bit hi (feedback lfsr))"
  unfolding holds_def
proof
  fix k
  show "bit (drop_bit 1 lfsr OR push_bit hi (feedback lfsr)) k \<longleftrightarrow> k < Suc hi \<and> s (Suc n + k)"
    using assms fits unfolding next_bit [OF assms] bit_or_iff bit_drop_bit_eq bit_push_bit_iff bit_of_bool_iff
    by (cases k hi rule: linorder_cases) (auto simp: holds_def)
qed

lemma low_bit: "holds s (Suc hi) n lfsr \<Longrightarrow> (ucast (lfsr AND 1) :: u8) = of_bool (s n)"
  by (simp add: and_1_of_bool holds_def)

lemma shift_out_eq:
  "holds s (Suc hi) n lfsr \<Longrightarrow> \<exists>lfsr'. shift_out feedback hi m val lfsr = (push_bits val (map s [n..<n + m]), lfsr')
     \<and> holds s (Suc hi) (n + m) lfsr'"
proof (induction m arbitrary: n val lfsr)
  case (Suc m)
  have "[n..<n + Suc m] = n # [Suc n..<Suc n + m]" by (simp add: upt_conv_Cons)
  then show ?case using Suc.IH [OF shift_holds [OF Suc.prems]] by (simp add: low_bit [OF Suc.prems])
qed simp

lemma bits_of_table: "holds s (Suc hi) n lfsr \<Longrightarrow> bits_of (table_bytes feedback hi m lfsr) = map s [n..<n + 8 * m]"
proof (induction m arbitrary: n lfsr)
  case (Suc m)
  obtain lfsr' where out: "shift_out feedback hi 8 0 lfsr = (push_bits 0 (map s [n..<n + 8]), lfsr')"
    and "holds s (Suc hi) (n + 8) lfsr'" using shift_out_eq [OF Suc.prems] by blast
  then have "bits_of (table_bytes feedback hi m lfsr') = map s [n + 8..<n + 8 + 8 * m]" by (rule_tac Suc.IH)
  moreover have "[n..<n + 8 * Suc m] = [n..<n + 8] @ [n + 8..<n + 8 + 8 * m]"
    using upt_add_eq_append [of n "n + 8" "8 * m"] by (simp add: add.assoc)
  ultimately show ?case by (simp add: out byte_bits_push_bits)
qed simp

lemma table_nth_bit:
  assumes "holds s (Suc hi) 0 lfsr" "i < m" "k < 8"
  shows "bit (table_bytes feedback hi m lfsr ! i) (7 - k) = s (8 * i + k)"
proof -
  have k: "8 * i + k < 8 * m" using assms(2,3) by linarith
  then have "bits_of (table_bytes feedback hi m lfsr) ! (8 * i + k) = s (8 * i + k)"
    using bits_of_table [OF assms(1), of m] by simp
  then show ?thesis using assms(3) k by (simp add: nth_bits_of)
qed

text \<open>
  Cycling the table continues the sequence, if its period divides the bits of the table.
\<close>

lemma bits_of_cycle:
  assumes init: "holds s (Suc hi) 0 lfsr" and m: "0 < m" and period: "\<And>n. s (n + 8 * m) = s n"
  defines "t \<equiv> table_bytes feedback hi m lfsr"
  shows "bits_of (xor_cycle t t buf) = map2 (\<noteq>) (bits_of buf) (map s [0..<8 * length buf])"
proof (rule bits_of_eqI)
  fix n assume "n < length (map2 (\<noteq>) (bits_of buf) (map s [0..<8 * length buf]))"
  then have n: "n < 8 * length buf" by simp
  have periods: "s (j + 8 * m * q) = s j" for j q
  proof (induction q)
    case (Suc q)
    then show ?case using period [of "j + 8 * m * q"] by (simp add: algebra_simps)
  qed simp
  have i: "n div 8 < length buf" using n by linarith
  have "t \<noteq> []" using m by (auto simp: t_def dest: arg_cong [of _ _ length] simp:)
  then have "xor_cycle t t buf ! (n div 8) = buf ! (n div 8) XOR t ! ((n div 8) mod m)"
    using nth_xor_cycle [of t "n div 8" buf 0] i by (simp add: t_def)
  moreover have "bit (t ! ((n div 8) mod m)) (7 - n mod 8) = s (8 * ((n div 8) mod m) + n mod 8)"
    unfolding t_def using table_nth_bit [OF init, of "(n div 8) mod m" m "n mod 8"] m by simp
  moreover have "s n = s (8 * ((n div 8) mod m) + n mod 8)"
  proof -
    have "n = 8 * ((n div 8) mod m) + n mod 8 + 8 * m * ((n div 8) div m)"
    proof -
      have "n div 8 = (n div 8) mod m + m * ((n div 8) div m)" by simp
      then have "8 * (n div 8) = 8 * ((n div 8) mod m) + 8 * m * ((n div 8) div m)" by (metis distrib_left mult.assoc)
      then show ?thesis using div_mult_mod_eq [of n 8] by linarith
    qed
    then show ?thesis using periods by metis
  qed
  ultimately show "bit (xor_cycle t t buf ! (n div 8)) (7 - n mod 8)
      = map2 (\<noteq>) (bits_of buf) (map s [0..<8 * length buf]) ! n"
    using n by (simp add: bit_xor_iff nth_bits_of)
qed simp

end

text \<open>
  The sequences: \<open>x^8 + x^6 + x^4 + x^3 + x^2 + x + 1\<close> for telecommands,
  \<open>x^8 + x^7 + x^5 + x^3 + 1\<close> for telemetry, and what the long randomizer computes.
\<close>

fun tc_sequence :: "nat \<Rightarrow> bool" where
  "tc_sequence n =
     (if n < 8 then True
      else (tc_sequence (n - 8) \<noteq> (tc_sequence (n - 7) \<noteq> (tc_sequence (n - 6) \<noteq>
            (tc_sequence (n - 5) \<noteq> (tc_sequence (n - 4) \<noteq> tc_sequence (n - 2)))))))"

fun tm255_sequence :: "nat \<Rightarrow> bool" where
  "tm255_sequence n =
     (if n < 8 then True
      else (tm255_sequence (n - 8) \<noteq> (tm255_sequence (n - 5) \<noteq> (tm255_sequence (n - 3) \<noteq> tm255_sequence (n - 1)))))"

fun tm131071_sequence :: "nat \<Rightarrow> bool" where
  "tm131071_sequence n =
     (if n < 17 then True else (tm131071_sequence (n - 17) \<noteq> tm131071_sequence (n - 14)))"

declare tc_sequence.simps [simp del] tm255_sequence.simps [simp del] tm131071_sequence.simps [simp del]

lemma tc_sequence_step: "tc_sequence (n + 8) =
    (tc_sequence n \<noteq> (tc_sequence (n + 1) \<noteq> (tc_sequence (n + 2) \<noteq>
      (tc_sequence (n + 3) \<noteq> (tc_sequence (n + 4) \<noteq> tc_sequence (n + 6))))))"
  by (subst tc_sequence.simps) (simp add: add.commute)

lemma tm255_sequence_step: "tm255_sequence (n + 8) =
    (tm255_sequence n \<noteq> (tm255_sequence (n + 3) \<noteq> (tm255_sequence (n + 5) \<noteq> tm255_sequence (n + 7))))"
  by (subst tm255_sequence.simps) (simp add: add.commute)

lemma tm131071_sequence_step:
  "tm131071_sequence (n + 17) = (tm131071_sequence n \<noteq> tm131071_sequence (n + 3))"
  by (subst tm131071_sequence.simps) (simp add: add.commute)

interpretation tc_reg: shift_register tc_feedback 7 tc_sequence
proof
  fix n and lfsr :: u8
  assume h: "holds tc_sequence (Suc 7) n lfsr"
  have "Suc (n + 7) = n + 8" by simp
  then show "tc_feedback lfsr = of_bool (tc_sequence (Suc (n + 7)))"
    using h by (simp add: tc_feedback_def and_1_of_bool tc_sequence_step holds_def bit_simps add.commute)
qed simp

interpretation tm_reg: shift_register tm255_feedback 7 tm255_sequence
proof
  fix n and lfsr :: u8
  assume h: "holds tm255_sequence (Suc 7) n lfsr"
  have "Suc (n + 7) = n + 8" by simp
  then show "tm255_feedback lfsr = of_bool (tm255_sequence (Suc (n + 7)))"
    using h by (simp add: tm255_feedback_def and_1_of_bool tm255_sequence_step holds_def bit_simps add.commute)
qed simp

interpretation tm_long_reg: shift_register tm131071_feedback 16 tm131071_sequence
proof
  fix n and lfsr :: u32
  assume h: "holds tm131071_sequence (Suc 16) n lfsr"
  have "Suc (n + 16) = n + 17" by simp
  then show "tm131071_feedback lfsr = of_bool (tm131071_sequence (Suc (n + 16)))"
    using h by (simp add: tm131071_feedback_def and_1_of_bool tm131071_sequence_step holds_def bit_simps add.commute)
qed simp


section \<open>The period of the registers\<close>

fun tc_next :: "bool list \<Rightarrow> bool list" where
  "tc_next [a, b, c, d, e, f, g, h] = [b, c, d, e, f, g, h, a \<noteq> (b \<noteq> (c \<noteq> (d \<noteq> (e \<noteq> g))))]"
| "tc_next _ = []"

fun tm255_next :: "bool list \<Rightarrow> bool list" where
  "tm255_next [a, b, c, d, e, f, g, h] = [b, c, d, e, f, g, h, a \<noteq> (d \<noteq> (f \<noteq> h))]"
| "tm255_next _ = []"

lemma upt_8: "[n..<n + 8] = [n, n + 1, n + 2, n + 3, n + 4, n + 5, n + 6, n + 7]"
  by (simp add: upt_rec)

lemma tc_next_window: "tc_next (map tc_sequence [n..<n + 8]) = map tc_sequence [n + 1..<n + 1 + 8]"
  using tc_sequence_step [of n] unfolding upt_8 by (simp add: add.commute numeral_3_eq_3 eval_nat_numeral)

lemma tm255_next_window: "tm255_next (map tm255_sequence [n..<n + 8]) = map tm255_sequence [n + 1..<n + 1 + 8]"
  using tm255_sequence_step [of n] unfolding upt_8 by (simp add: add.commute numeral_3_eq_3 eval_nat_numeral)

lemma tc_windows: "(tc_next ^^ n) (map tc_sequence [m..<m + 8]) = map tc_sequence [m + n..<m + n + 8]"
  by (induction n) (use tc_next_window in \<open>auto simp: add.commute add.left_commute\<close>)

lemma tm255_windows: "(tm255_next ^^ n) (map tm255_sequence [m..<m + 8]) = map tm255_sequence [m + n..<m + n + 8]"
  by (induction n) (use tm255_next_window in \<open>auto simp: add.commute add.left_commute\<close>)

lemma tc_cycle: "(tc_next ^^ 255) [True, True, True, True, True, True, True, True]
    = [True, True, True, True, True, True, True, True]"
  by code_simp

lemma tm255_cycle: "(tm255_next ^^ 255) [True, True, True, True, True, True, True, True]
    = [True, True, True, True, True, True, True, True]"
  by code_simp

lemma tc_start: "map tc_sequence [0..<0 + 8] = [True, True, True, True, True, True, True, True]"
  unfolding upt_8 by (simp add: tc_sequence.simps)

lemma tm255_start: "map tm255_sequence [0..<0 + 8] = [True, True, True, True, True, True, True, True]"
  unfolding upt_8 by (simp add: tm255_sequence.simps)

lemma window_periodic:
  fixes s :: "nat \<Rightarrow> 'a"
  assumes windows: "\<And>n m. (f ^^ n) (map s [m..<m + 8]) = map s [m + n..<m + n + 8]"
    and cycle: "(f ^^ p) (map s [0..<0 + 8]) = map s [0..<0 + 8]"
  shows "s (n + p * q) = s n"
proof -
  have "(f ^^ (n + p)) (map s [0..<0 + 8]) = (f ^^ n) (map s [0..<0 + 8])" for n
    using cycle by (simp only: funpow_add o_apply)
  then have "map s [n + p..<n + p + 8] = map s [n..<n + 8]" for n
    using windows [of "n + p" 0] windows [of n 0] by (simp only: add_0)
  then have "s (n + p) = s n" for n unfolding upt_8 by simp
  then show ?thesis by (induction q) (simp_all add: add.assoc [symmetric] add.commute [of p])
qed

lemma tc_periodic: "tc_sequence (n + 8 * 255) = tc_sequence n"
  using window_periodic [OF tc_windows, of 255 n 8] tc_cycle tc_start by (simp add: mult.commute)

lemma tm255_periodic: "tm255_sequence (n + 8 * 255) = tm255_sequence n"
  using window_periodic [OF tm255_windows, of 255 n 8] tm255_cycle tm255_start by (simp add: mult.commute)

section \<open>What randomization applies\<close>

lemma holds_all_ones: "(\<And>k. k < w \<Longrightarrow> s k) \<Longrightarrow> w \<le> LENGTH('a) \<Longrightarrow> holds s w 0 (mask w :: 'a::len word)"
  by (auto simp: holds_def bit_simps)

lemma tc_init: "holds tc_sequence (Suc 7) 0 (0xFF :: u8)"
  using holds_all_ones [of "Suc 7" tc_sequence, where 'a = 8] by (simp add: tc_sequence.simps mask_eq_exp_minus_1)

lemma tm255_init: "holds tm255_sequence (Suc 7) 0 (0xFF :: u8)"
  using holds_all_ones [of "Suc 7" tm255_sequence, where 'a = 8] by (simp add: tm255_sequence.simps mask_eq_exp_minus_1)

lemma tm131071_init: "holds tm131071_sequence (Suc 16) 0 (0x1FFFF :: u32)"
  using holds_all_ones [of "Suc 16" tm131071_sequence, where 'a = 32] by (simp add: tm131071_sequence.simps mask_eq_exp_minus_1)

text \<open>The table of the long randomizer follows the taps 0 and 3 of its register.\<close>

lemma tm131071_table_bits:
  "bits_of (randomizer_table Tm131071Randomizer_new) = map tm131071_sequence [0..<8 * 131071]"
  using tm_long_reg.bits_of_table [OF tm131071_init, of 131071] by (simp add: Tm131071Randomizer_new_def)


end
