(* ===== verification/Cltu.thy ===== *)
theory Cltu
  imports Randomizer
begin

text \<open>
  Communications link transmission units (\<open>coding/framing/cltu.rs\<close>). A telecommand frame is cut
  into blocks of seven bytes, each followed by the parity byte of a BCH(63,56) code, between a
  start and a tail sequence. The table-driven parity is the remainder of a bit-serial
  division, and two code blocks of different data differ in at least four bits: the code
  corrects one error and detects two.

  A physical layer is a parameter: \<open>phys_write\<close> writes bytes, \<open>phys_read\<close> fills a buffer and
  returns how many bytes it holds.
\<close>

type_synonym ('w, 'e) phys_write = "bytes \<Rightarrow> 'w \<Rightarrow> ('e + unit) \<times> 'w"
type_synonym ('r, 'e) phys_read = "bytes \<Rightarrow> 'r \<Rightarrow> ('e + nat) \<times> bytes \<times> 'r"

section \<open>Definitions\<close>

definition START_SEQUENCE :: bytes where "START_SEQUENCE = [0xEB, 0x90]"

definition TAIL_SEQUENCE :: bytes where "TAIL_SEQUENCE = replicate 8 0xC5"

datatype CltuError = OutputBufferTooSmall (required: nat) (provided: nat)

definition encoded_cltu_len :: "nat \<Rightarrow> nat" where
  "encoded_cltu_len tc_frame_len =
     (let num_blocks = (tc_frame_len + 6) div 7
      in length START_SEQUENCE + num_blocks * 8 + length TAIL_SEQUENCE)"

fun bch_shift :: "nat \<Rightarrow> u8 \<Rightarrow> u8" where
  "bch_shift 0 val = val"
| "bch_shift (Suc n) val =
     bch_shift n (if val AND 0x80 \<noteq> 0 then push_bit 1 val XOR 0x8A else push_bit 1 val)"

definition LOOKUP_TABLE :: bytes where
  "LOOKUP_TABLE = map (\<lambda>i. bch_shift 8 (of_nat i)) [0..<256]"

definition compute_bch_parity :: "bytes \<Rightarrow> u8" where
  "compute_bch_parity bs =
     (let remainder = foldl (\<lambda>acc val. LOOKUP_TABLE ! unat (acc XOR val)) 0 bs
      in NOT remainder AND 0xFE)"

text \<open>Rust's \<open>chunks\<close>, for a positive size.\<close>

fun chunks :: "nat \<Rightarrow> 'a list \<Rightarrow> 'a list list" where
  "chunks n xs = (if n = 0 \<or> xs = [] then [] else take n xs # chunks n (drop n xs))"

declare chunks.simps [simp del]

fun encode_blocks :: "bytes list \<Rightarrow> nat \<Rightarrow> bytes \<Rightarrow> nat \<times> bytes" where
  "encode_blocks [] writer_idx out = (writer_idx, out)"
| "encode_blocks (chunk # rest) writer_idx out =
     (let block = blit (replicate 7 0x55) 0 chunk;
          parity = compute_bch_parity block
      in encode_blocks rest (writer_idx + 7 + 1) ((blit out writer_idx block)[writer_idx + 7 := parity]))"

definition encode_cltu :: "bytes \<Rightarrow> bytes \<Rightarrow> CltuError + nat \<times> bytes" where
  "encode_cltu tc_frame_bytes output_buffer =
     (let required_len = encoded_cltu_len (length tc_frame_bytes) in
      if length output_buffer < required_len
      then Inl (OutputBufferTooSmall required_len (length output_buffer))
      else
        let out = blit output_buffer 0 START_SEQUENCE;
            (writer_idx, out) = encode_blocks (chunks 7 tc_frame_bytes) (length START_SEQUENCE) out;
            out = blit out writer_idx TAIL_SEQUENCE
        in Inr (writer_idx + length TAIL_SEQUENCE, out))"

datatype 'e CltuWriterError = Cltu CltuError | Writer_failed 'e

record 'w cltu_writer =
  cw_writer :: 'w
  cw_buffer :: bytes

definition CltuWriter_new :: "nat \<Rightarrow> 'w \<Rightarrow> 'w cltu_writer" where
  "CltuWriter_new BUF w = \<lparr>cw_writer = w, cw_buffer = replicate BUF 0\<rparr>"

definition write_frame ::
  "('w, 'e) phys_write \<Rightarrow> bytes \<Rightarrow> 'w cltu_writer \<Rightarrow> ('e CltuWriterError + unit) \<times> 'w cltu_writer" where
  "write_frame phys tc_frame st =
     (let required_len = encoded_cltu_len (length tc_frame); BUF = length (cw_buffer st) in
      if required_len > BUF then (Inl (Cltu (OutputBufferTooSmall required_len BUF)), st)
      else case encode_cltu tc_frame (cw_buffer st) of
          Inl e \<Rightarrow> (Inl (Cltu e), st)
        | Inr (len, buf) \<Rightarrow>
            (case phys (take len buf) (cw_writer st) of
               (Inl e, w) \<Rightarrow> (Inl (Writer_failed e), st\<lparr>cw_buffer := buf, cw_writer := w\<rparr>)
             | (Inr u, w) \<Rightarrow> (Inr u, st\<lparr>cw_buffer := buf, cw_writer := w\<rparr>)))"

section \<open>The layout of a unit\<close>

definition codeblock :: "bytes \<Rightarrow> bytes" where
  "codeblock block = block @ [compute_bch_parity block]"

definition padded :: "bytes \<Rightarrow> bytes" where
  "padded chunk = chunk @ replicate (7 - length chunk) 0x55"

definition coded :: "bytes \<Rightarrow> bytes" where
  "coded chunk = codeblock (padded chunk)"

definition cltu :: "bytes \<Rightarrow> bytes" where
  "cltu data = START_SEQUENCE @ concat (map coded (chunks 7 data)) @ TAIL_SEQUENCE"

lemma chunks_Nil [simp]: "chunks n [] = []"
  by (simp add: chunks.simps [of n "[]"])

lemma chunks_Cons: "0 < n \<Longrightarrow> xs \<noteq> [] \<Longrightarrow> chunks n xs = take n xs # chunks n (drop n xs)"
  by (simp add: chunks.simps [of n xs])

lemma chunks_props:
  assumes "0 < n"
  shows "concat (chunks n xs) = xs" and "\<forall>c\<in>set (chunks n xs). length c \<le> n"
    and "length (chunks n xs) = (length xs + (n - 1)) div n"
  using assms
proof (induction n xs rule: chunks.induct)
  case (1 n xs)
  {
    case 1
    then show ?case using "1.IH"(1) by (cases "xs = []") (auto simp: chunks_Cons [of n xs])
  next
    case 2
    then show ?case using "1.IH"(2) by (cases "xs = []") (auto simp: chunks_Cons [of n xs])
  next
    case 3
    show ?case
    proof (cases "xs = []")
      case False
      define k where "k = length xs - 1"
      have k: "length xs = Suc k" using False by (cases xs) (simp_all add: k_def)
      obtain m where n: "n = Suc m" using 3 by (cases n) auto
      have "(Suc k + m) div Suc m = Suc ((Suc k - Suc m + m) div Suc m)"
      proof (cases "m \<le> k")
        case True
        then obtain d where "k = m + d" using le_Suc_ex by blast
        then show ?thesis using div_add_self2 [of "Suc m" "d + m"] by (simp add: add.commute add.left_commute)
      next
        case False
        then have "Suc k + m = k + Suc m" "k < Suc m" by simp_all
        then show ?thesis using False by (simp only: div_add_self2 [of "Suc m" k]) simp
      qed
      then show ?thesis using 3 False "1.IH"(3) by (simp add: chunks_Cons [of "Suc m" xs] k n)
    qed (use 3 in simp)
  }
qed


lemma blit_padding: "length chunk \<le> 7 \<Longrightarrow> blit (replicate 7 0x55) 0 chunk = padded chunk"
  by (simp add: blit_def padded_def)

lemma length_padded [simp]: "length chunk \<le> 7 \<Longrightarrow> length (padded chunk) = 7"
  by (simp add: padded_def)

lemma length_coded [simp]: "length c \<le> 7 \<Longrightarrow> length (coded c) = 8"
  by (simp add: coded_def codeblock_def)

lemma length_codeblocks [simp]:
  "\<forall>c\<in>set cs. length c \<le> 7 \<Longrightarrow> length (concat (map coded cs)) = 8 * length cs"
  by (induction cs) auto

lemma encode_blocks_eq:
  "\<forall>c\<in>set cs. length c \<le> 7 \<Longrightarrow> w + 8 * length cs \<le> length out \<Longrightarrow>
     encode_blocks cs w out = (w + 8 * length cs, blit out w (concat (map coded cs)))"
proof (induction cs arbitrary: w out)
  case (Cons c cs)
  have b: "(blit out w (padded c))[w + 7 := compute_bch_parity (padded c)] = blit out w (coded c)"
    using Cons.prems by (simp add: list_update_blit blit_blit_next coded_def codeblock_def)
  have "encode_blocks cs (w + 8) (blit out w (coded c))
      = (w + 8 + 8 * length cs, blit (blit out w (coded c)) (w + 8) (concat (map coded cs)))"
    using Cons.prems by (intro Cons.IH) auto
  moreover have "blit (blit out w (coded c)) (w + 8) (concat (map coded cs)) = blit out w (coded c @ concat (map coded cs))"
    using Cons.prems by (intro blit_blit_next) auto
  ultimately show ?case using Cons.prems(1) by (simp add: blit_padding b Let_def add.commute add.left_commute)
qed simp

lemma length_sequences [simp]: "length START_SEQUENCE = 2" "length TAIL_SEQUENCE = 8"
  by (simp_all add: START_SEQUENCE_def TAIL_SEQUENCE_def)

lemma length_chunks_7: "length (chunks 7 xs) = (length xs + 6) div 7"
  using chunks_props(3) [of 7 xs] by simp

lemma length_cltu: "length (cltu data) = encoded_cltu_len (length data)"
  using chunks_props(2) [of 7 data] by (simp add: cltu_def encoded_cltu_len_def length_chunks_7)

lemma encode_cltu_eq:
  "encode_cltu data out =
     (if length out < encoded_cltu_len (length data)
      then Inl (OutputBufferTooSmall (encoded_cltu_len (length data)) (length out))
      else Inr (encoded_cltu_len (length data), cltu data @ drop (length (cltu data)) out))"
proof (cases "length out < encoded_cltu_len (length data)")
  case False
  let ?cs = "chunks 7 data" and ?blocks = "concat (map coded (chunks 7 data))"
  note short = chunks_props(2) [of 7 data, simplified]
  have room: "2 + 8 * length ?cs + 8 \<le> length out"
    using False by (simp add: encoded_cltu_len_def length_chunks_7)
  have blocks: "encode_blocks ?cs 2 (blit out 0 START_SEQUENCE)
      = (2 + 8 * length ?cs, blit (blit out 0 START_SEQUENCE) 2 ?blocks)"
    using short room by (intro encode_blocks_eq) auto
  have "blit (blit out 0 START_SEQUENCE) 2 ?blocks = blit out 0 (START_SEQUENCE @ ?blocks)"
    using room short by (intro blit_blit_next) auto
  moreover have "blit (blit out 0 (START_SEQUENCE @ ?blocks)) (2 + 8 * length ?cs) TAIL_SEQUENCE = blit out 0 (cltu data)"
    unfolding cltu_def append_assoc [symmetric] using room short by (intro blit_blit_next) auto
  ultimately show ?thesis
    using False blocks by (simp add: encode_cltu_def Let_def blit_def encoded_cltu_len_def length_chunks_7)
qed (simp add: encode_cltu_def Let_def)

section \<open>Reading a unit back\<close>

text \<open>What a receiver sees between the start and the tail sequence: blocks of eight bytes.\<close>

definition cltu_blocks :: "bytes \<Rightarrow> bytes list" where
  "cltu_blocks unit = chunks 8 (take (length unit - 10) (drop 2 unit))"

lemma chunks_concat: "\<forall>b\<in>set bs. length b = n \<Longrightarrow> 0 < n \<Longrightarrow> chunks n (concat bs) = bs"
proof (induction bs)
  case (Cons b bs)
  then show ?case by (auto simp: chunks_Cons [of _ "b @ concat bs"])
qed simp

lemma cltu_blocks_cltu: "cltu_blocks (cltu data) = map coded (chunks 7 data)"
proof -
  note short = chunks_props(2) [of 7 data, simplified]
  have "take (length (cltu data) - 10) (drop 2 (cltu data)) = concat (map coded (chunks 7 data))"
    using short by (simp add: cltu_def)
  then show ?thesis using short by (simp add: cltu_blocks_def chunks_concat)
qed

lemma take_coded: "length c \<le> 7 \<Longrightarrow> take 7 (coded c) = padded c"
  by (simp add: coded_def codeblock_def)

lemma concat_padded: "\<exists>p. concat (map padded (chunks 7 xs)) = xs @ p"
proof (induction "7 :: nat" xs rule: chunks.induct)
  case (1 xs)
  show ?case
  proof (cases "length xs \<le> 7")
    case True
    then show ?thesis by (cases "xs = []") (auto simp: chunks_Cons [of 7 xs] padded_def)
  next
    case False
    then have "xs \<noteq> []" by auto
    then obtain p where "concat (map padded (chunks 7 (drop 7 xs))) = drop 7 xs @ p" using 1 by auto
    then show ?thesis using False \<open>xs \<noteq> []\<close>
      by (auto simp: chunks_Cons [of 7 xs] padded_def append_assoc [symmetric] simp del: append_assoc)
  qed
qed

text \<open>
  C33: \<open>encode_cltu\<close> succeeds exactly when the buffer holds \<open>encoded_cltu_len\<close> bytes; it then
  writes that many bytes, the start sequence, one code block per seven bytes of the frame and
  the tail sequence, and leaves the rest of the buffer alone. Every block carries its own
  parity byte, and the information bytes of the blocks start with the frame.
\<close>

theorem encode_cltu_layout:
  "encode_cltu data out =
     (if length out < encoded_cltu_len (length data)
      then Inl (OutputBufferTooSmall (encoded_cltu_len (length data)) (length out))
      else Inr (encoded_cltu_len (length data), cltu data @ drop (encoded_cltu_len (length data)) out)) \<and>
   length (cltu data) = encoded_cltu_len (length data) \<and>
   take 2 (cltu data) = START_SEQUENCE \<and> drop (encoded_cltu_len (length data) - 8) (cltu data) = TAIL_SEQUENCE \<and>
   list_all (\<lambda>b. length b = 8 \<and> b ! 7 = compute_bch_parity (take 7 b)) (cltu_blocks (cltu data)) \<and>
   take (length data) (concat (map (take 7) (cltu_blocks (cltu data)))) = data"
proof -
  note short = chunks_props(2) [of 7 data, simplified]
  have "list_all (\<lambda>b. length b = 8 \<and> b ! 7 = compute_bch_parity (take 7 b)) (cltu_blocks (cltu data))"
    using short by (auto simp: list_all_iff cltu_blocks_cltu coded_def codeblock_def nth_append)
  moreover have "map (take 7) (map coded (chunks 7 data)) = map padded (chunks 7 data)"
    using short by (auto simp: take_coded)
  then have "take (length data) (concat (map (take 7) (cltu_blocks (cltu data)))) = data"
    using concat_padded [of data] unfolding cltu_blocks_cltu by (auto simp del: map_map)
  moreover have "drop (encoded_cltu_len (length data) - 8) (cltu data) = TAIL_SEQUENCE"
    using short by (simp add: cltu_def encoded_cltu_len_def length_chunks_7)
  ultimately show ?thesis
    by (simp add: encode_cltu_eq length_cltu) (simp add: cltu_def)
qed

end
