(* ===== verification/Bch.thy ===== *)
theory Bch
  imports Cltu
begin

text \<open>
  The BCH(63,56) code of \<open>coding/framing/cltu.rs\<close>. The table-driven loop computes the
  remainder of a bit-serial division (\<open>parity_table_driven\<close>), the remainder is linear in the
  data, and the remainders of the 56 data bits are distinct and of odd weight at least three.
  Therefore two different blocks are at Hamming distance at least four.
\<close>

section \<open>The bit-serial division\<close>

text \<open>One step of the register; \<open>divide_bits\<close> feeds it a message, most significant bit first.\<close>

definition shift_once :: "u8 \<Rightarrow> u8" where
  "shift_once val = (if bit val 7 then push_bit 1 val XOR 0x8A else push_bit 1 val)"

definition divide_step :: "u8 \<Rightarrow> bool \<Rightarrow> u8" where
  "divide_step r b = shift_once (r XOR (if b then 0x80 else 0))"

definition divide_bits :: "bool list \<Rightarrow> u8" where
  "divide_bits bs = foldl divide_step 0 bs"

lemma and_0x80: "val AND 0x80 \<noteq> 0 \<longleftrightarrow> bit val 7" for val :: u8
proof -
  have "(0x80 :: u8) = push_bit 7 1" by (simp add: push_bit_eq_mult)
  then show ?thesis by (simp add: bit_iff_and_push_bit_not_eq_0 and.commute)
qed

lemmas xor_ac = xor.assoc xor.commute xor.left_commute

lemma xor_twice [simp]: "a XOR (a XOR b) = b" "(b XOR a) XOR a = b" for a :: "'a::len word"
  by (simp_all add: xor.assoc [symmetric]) (simp add: xor.assoc)

lemma bch_shift_funpow: "bch_shift n val = (shift_once ^^ n) val"
  by (induction n arbitrary: val) (simp_all add: and_0x80 shift_once_def funpow_Suc_right del: funpow.simps)

lemma shift_once_xor: "shift_once (a XOR b) = shift_once a XOR shift_once b"
proof -
  have "push_bit 1 (a XOR b) = push_bit 1 a XOR push_bit 1 b" by (rule push_bit_xor)
  then show ?thesis unfolding shift_once_def bit_xor_iff by (auto simp: xor.assoc xor.left_commute xor.commute)
qed

lemma shift_once_0 [simp]: "shift_once 0 = 0"
  by (simp add: shift_once_def)

lemma funpow_shift_xor: "(shift_once ^^ n) (a XOR b) = (shift_once ^^ n) a XOR (shift_once ^^ n) b"
  by (induction n) (simp_all add: shift_once_xor)

lemma divide_step_xor: "divide_step (a XOR b) (x \<noteq> y) = divide_step a x XOR divide_step b y"
  unfolding divide_step_def shift_once_xor [symmetric]
  by (cases x; cases y) (simp_all add: xor_ac)

text \<open>
  After \<open>n\<close> of the eight bits of a byte, the register holds what it would hold if the whole
  byte had been added at once, but for the bits still to come.
\<close>

lemma shift_once_push:
  "n < 8 \<Longrightarrow> shift_once (push_bit n v XOR (if bit v (7 - n) then 0x80 else 0)) = push_bit (Suc n) v"
  for v :: u8
proof -
  assume n: "n < 8"
  have "shift_once (push_bit n v) = push_bit (Suc n) v XOR (if bit v (7 - n) then 0x8A else 0)"
    using n by (simp add: shift_once_def bit_push_bit_iff del: push_bit_Suc)
  moreover have "shift_once (if bit v (7 - n) then 0x80 else 0) = (if bit v (7 - n) then 0x8A else 0)"
    by (simp add: shift_once_def bit_simps)
  ultimately show ?thesis by (simp add: shift_once_xor xor.assoc)
qed

lemma divide_prefix:
  "n \<le> 8 \<Longrightarrow> foldl divide_step r (map (\<lambda>k. bit v (7 - k)) [0..<n]) = (shift_once ^^ n) (r XOR v) XOR push_bit n v"
proof (induction n)
  case (Suc n)
  then show ?case
    using shift_once_push [of n v] by (simp add: divide_step_def shift_once_xor xor.assoc)
qed simp

lemma divide_byte: "foldl divide_step r (byte_bits v) = bch_shift 8 (r XOR v)"
proof -
  have "push_bit 8 v = 0" by (rule bit_word_eqI) (simp add: bit_push_bit_iff)
  then show ?thesis using divide_prefix [of 8 r v] by (simp add: byte_bits_def bch_shift_funpow)
qed

lemma lookup_table: "LOOKUP_TABLE ! unat x = bch_shift 8 x"
  using unat_u8_less [of x] by (simp add: LOOKUP_TABLE_def)

lemma parity_table_driven: "compute_bch_parity bs = NOT (divide_bits (bits_of bs)) AND 0xFE"
proof -
  have "foldl (\<lambda>acc v. LOOKUP_TABLE ! unat (acc XOR v)) r bs = foldl divide_step r (bits_of bs)" for r
    by (induction bs arbitrary: r) (simp_all add: divide_byte lookup_table)
  then show ?thesis by (simp add: compute_bch_parity_def divide_bits_def)
qed

section \<open>Columns\<close>

text \<open>The remainder of a message is the sum of the remainders of its set bits.\<close>

fun columns :: "nat \<Rightarrow> bytes" where
  "columns 0 = []"
| "columns (Suc n) = (shift_once ^^ n) 0x8A # columns n"

fun sum_columns :: "bool list \<Rightarrow> bytes \<Rightarrow> u8" where
  "sum_columns (b # bs) (c # cs) = (if b then c else 0) XOR sum_columns bs cs"
| "sum_columns _ _ = 0"

lemma divide_from: "foldl divide_step r bs = (shift_once ^^ length bs) r XOR foldl divide_step 0 bs"
proof (induction bs arbitrary: r)
  case (Cons b bs)
  have "divide_step r b = shift_once r XOR divide_step 0 b"
    using divide_step_xor [of r 0 False b] by (simp add: divide_step_def)
  then show ?case
    using Cons.IH [of "divide_step r b"] Cons.IH [of "divide_step 0 b"]
    by (simp add: funpow_shift_xor funpow_swap1 xor.assoc)
qed simp

lemma divide_columns: "divide_bits bs = sum_columns bs (columns (length bs))"
proof (induction bs)
  case (Cons b bs)
  have "(shift_once ^^ n) 0 = 0" for n by (induction n) simp_all
  moreover have "divide_step 0 b = (if b then 0x8A else 0)"
    by (simp add: divide_step_def shift_once_def bit_simps)
  ultimately show ?case
    using divide_from [of "divide_step 0 b" bs] Cons by (auto simp: divide_bits_def)
qed (simp add: divide_bits_def)

lemma sum_columns_xor:
  "length xs = length ys \<Longrightarrow> sum_columns xs cs XOR sum_columns ys cs = sum_columns (map2 (\<noteq>) xs ys) cs"
proof (induction xs ys arbitrary: cs rule: list_induct2)
  case (Cons x xs y ys)
  then show ?case by (cases cs) (auto simp: xor_ac simp flip: Cons.IH)
qed simp

section \<open>Weights\<close>

definition weight :: "bool list \<Rightarrow> nat" where
  "weight bs = length (filter id bs)"

lemma weight_simps [simp]: "weight [] = 0" "weight (b # bs) = of_bool b + weight bs" "weight (xs @ ys) = weight xs + weight ys"
  by (simp_all add: weight_def)

lemma weight_0: "weight bs = 0 \<Longrightarrow> sum_columns bs cs = 0"
  by (induction bs cs rule: sum_columns.induct) (auto split: if_splits)

lemma weight_1: "weight bs = 1 \<Longrightarrow> length bs = length cs \<Longrightarrow> sum_columns bs cs \<in> set cs"
  by (induction bs cs rule: sum_columns.induct) (auto simp: weight_0 split: if_splits)

lemma weight_2: "weight bs = 2 \<Longrightarrow> length bs = length cs \<Longrightarrow> distinct cs \<Longrightarrow> sum_columns bs cs \<noteq> 0"
proof (induction bs cs rule: sum_columns.induct)
  case (1 b bs c cs)
  show ?case
  proof (cases b)
    case True
    then have "sum_columns bs cs \<in> set cs" using 1 by (intro weight_1) auto
    then have "sum_columns bs cs \<noteq> c" using 1 by auto
    moreover have "c XOR x = 0 \<Longrightarrow> x = c" for x
      by (drule arg_cong [of _ _ "(XOR) c"]) simp
    ultimately have "c XOR sum_columns bs cs \<noteq> 0" by blast
    then show ?thesis using True by simp
  qed (use 1 in auto)
qed auto

lemma weight_xor: "odd (weight (map2 (\<noteq>) xs ys)) \<longleftrightarrow> odd (weight xs) \<noteq> odd (weight ys)" if "length xs = length ys"
  using that by (induction xs ys rule: list_induct2) auto

lemma byte_bits_xor: "byte_bits (a XOR b) = map2 (\<noteq>) (byte_bits a) (byte_bits b)"
  by (rule nth_equalityI) (auto simp: bit_xor_iff)

lemma odd_weight_xor:
  "odd (weight (byte_bits (a XOR b))) \<longleftrightarrow> odd (weight (byte_bits a)) \<noteq> odd (weight (byte_bits b))"
  unfolding byte_bits_xor by (rule weight_xor) simp

lemma weight_byte_0: "weight (byte_bits c) = 0 \<Longrightarrow> c = 0"
proof (rule bit_word_eqI)
  fix n assume "weight (byte_bits c) = 0" "n < LENGTH(8)"
  then have "\<not> byte_bits c ! (7 - n)"
    using filter_empty_conv [of id "byte_bits c"] nth_mem [of "7 - n" "byte_bits c"] by (auto simp: weight_def)
  then show "bit c n \<longleftrightarrow> bit 0 n" using \<open>n < LENGTH(8)\<close> by simp
qed

lemma weight_odd:
  "\<forall>c\<in>set cs. odd (weight (byte_bits c)) \<Longrightarrow> length bs = length cs \<Longrightarrow>
     odd (weight (byte_bits (sum_columns bs cs))) = odd (weight bs)"
proof (induction bs cs rule: sum_columns.induct)
  case (1 b bs c cs)
  then show ?case by (cases b) (simp_all add: odd_weight_xor)
qed (auto simp: byte_bits_def weight_def)

section \<open>The columns of the code\<close>

fun iterates :: "nat \<Rightarrow> u8 \<Rightarrow> bytes" where
  "iterates 0 x = []"
| "iterates (Suc n) x = x # iterates n (shift_once x)"

lemma iterates_snoc: "iterates (Suc n) x = iterates n x @ [(shift_once ^^ n) x]"
  by (induction n arbitrary: x) (simp_all add: funpow_swap1)

lemma columns_rev: "columns n = rev (iterates n 0x8A)"
  by (induction n) (simp_all add: iterates_snoc del: iterates.simps(2))

lemma iterates_56: "iterates 56 0x8A =
    [138, 158, 182, 230, 70, 140, 146, 174, 214, 38, 76, 152, 186, 254, 118, 236, 82, 164,
     194, 14, 28, 56, 112, 224, 74, 148, 162, 206, 22, 44, 88, 176, 234, 94, 188, 242, 110,
     220, 50, 100, 200, 26, 52, 104, 208, 42, 84, 168, 218, 62, 124, 248, 122, 244, 98, 196]"
  by code_simp

lemma columns_distinct: "distinct (columns 56)"
  unfolding columns_rev distinct_rev iterates_56 by simp

lemma columns_weights:
  "\<forall>c\<in>set (columns 56). odd (weight (byte_bits c)) \<and> 3 \<le> weight (byte_bits c)"
proof -
  have "list_all (\<lambda>c. odd (weight (byte_bits c)) \<and> 3 \<le> weight (byte_bits c))
    [138, 158, 182, 230, 70, 140, 146, 174, 214, 38, 76, 152, 186, 254, 118, 236, 82, 164,
     194, 14, 28, 56, 112, 224, 74, 148, 162, 206, 22, 44, 88, 176, 234, 94, 188, 242, 110,
     220, 50, 100, 200, 26, 52, 104, 208, 42, 84, 168, 218, 62, 124, 248, 122, 244, 98, 196]"
    by code_simp
  then show ?thesis unfolding columns_rev set_rev iterates_56 list_all_iff .
qed

lemma length_columns [simp]: "length (columns n) = n"
  by (induction n) simp_all

text \<open>A nonzero message and its remainder have at least four set bits together.\<close>

lemma codeword_weight:
  assumes "length bs = 56" "weight bs \<noteq> 0"
  shows "4 \<le> weight bs + weight (byte_bits (divide_bits bs))"
proof -
  let ?r = "divide_bits bs"
  have r: "?r = sum_columns bs (columns 56)" using assms(1) by (simp add: divide_columns)
  have odd: "odd (weight (byte_bits ?r)) = odd (weight bs)"
    unfolding r using assms(1) columns_weights by (intro weight_odd) auto
  consider "weight bs = 1" | "weight bs = 2" | "weight bs = 3" | "4 \<le> weight bs" using assms(2) by linarith
  then show ?thesis
  proof cases
    case 1
    then show ?thesis using weight_1 [of bs "columns 56"] assms(1) columns_weights by (simp add: r)
  next
    case 2
    then have "weight (byte_bits ?r) \<noteq> 0"
      using weight_2 [of bs "columns 56"] assms(1) columns_distinct weight_byte_0 by (auto simp: r)
    then show ?thesis using 2 odd by presburger
  next
    case 3
    then show ?thesis using odd by presburger
  qed simp
qed


section \<open>The distance of the code\<close>

definition hamming :: "bytes \<Rightarrow> bytes \<Rightarrow> nat" where
  "hamming xs ys = weight (map2 (\<noteq>) (bits_of xs) (bits_of ys))"

lemma shift_even: "\<not> bit (shift_once v) 0"
proof -
  have "\<not> bit (push_bit 1 v) 0" unfolding bit_push_bit_iff by simp
  moreover have "\<not> bit (0x8A :: u8) 0" by simp
  ultimately show ?thesis unfolding shift_once_def by (auto simp only: bit_xor_iff split: if_splits)
qed

lemma divide_even: "\<not> bit (divide_bits bs) 0"
proof (cases bs rule: rev_cases)
  case (snoc bs' b)
  then show ?thesis by (simp add: divide_bits_def divide_step_def shift_even)
qed (simp add: divide_bits_def)

lemma parity_xor: "compute_bch_parity a XOR compute_bch_parity b = divide_bits (bits_of a) XOR divide_bits (bits_of b)"
proof (rule bit_word_eqI)
  fix n assume "n < LENGTH(8)"
  then have "bit (0xFE :: u8) n \<longleftrightarrow> n \<noteq> 0" by (auto simp: bit_simps less_Suc_eq numeral_eq_Suc)
  then show "bit (compute_bch_parity a XOR compute_bch_parity b) n
      = bit (divide_bits (bits_of a) XOR divide_bits (bits_of b)) n"
    using \<open>n < LENGTH(8)\<close> divide_even
    by (cases "n = 0") (auto simp: parity_table_driven bit_xor_iff bit_and_iff bit_not_iff)
qed

lemma divide_bits_xor:
  "length xs = length ys \<Longrightarrow> divide_bits xs XOR divide_bits ys = divide_bits (map2 (\<noteq>) xs ys)"
  by (simp add: divide_columns sum_columns_xor)

lemma weight_zero_eq: "length xs = length ys \<Longrightarrow> weight (map2 (\<noteq>) xs ys) = 0 \<Longrightarrow> xs = ys"
  by (induction xs ys rule: list_induct2) (auto split: if_splits)

lemma byte_bits_inj: "byte_bits a = byte_bits b \<Longrightarrow> a = b"
proof (rule bit_word_eqI)
  fix n assume "byte_bits a = byte_bits b" "n < LENGTH(8)"
  then have "byte_bits a ! (7 - n) = byte_bits b ! (7 - n)" by simp
  then show "bit a n = bit b n" using \<open>n < LENGTH(8)\<close> by simp
qed

lemma bits_of_inj: "length xs = length ys \<Longrightarrow> bits_of xs = bits_of ys \<Longrightarrow> xs = ys"
  by (induction xs ys rule: list_induct2) (auto dest: byte_bits_inj)

text \<open>
  C28: Two code blocks for different seven-byte blocks differ in at least four bits. So the
  parity byte the encoder appends lets a receiver correct every single bit error in a block
  and detect every double one.
\<close>

theorem bch_min_distance:
  assumes "length a = 7" "length b = 7" "a \<noteq> b"
  shows "4 \<le> hamming (codeblock a) (codeblock b)"
proof -
  let ?d = "map2 (\<noteq>) (bits_of a) (bits_of b)"
  have "weight ?d \<noteq> 0" using assms weight_zero_eq [of "bits_of a" "bits_of b"] bits_of_inj [of a b] by auto
  then have "4 \<le> weight ?d + weight (byte_bits (divide_bits ?d))"
    using assms by (intro codeword_weight) auto
  also have "divide_bits ?d = compute_bch_parity a XOR compute_bch_parity b"
    using assms by (simp add: parity_xor divide_bits_xor)
  finally show ?thesis using assms by (simp add: hamming_def codeblock_def byte_bits_xor zip_append)
qed

lemma bch_min_distance_witness:
  "4 \<le> hamming (codeblock [1, 2, 3, 4, 5, 6, 7]) (codeblock [1, 2, 3, 4, 5, 6, 8])"
  by (rule bch_min_distance) simp_all

end
