(* ===== verification/Cadu.thy ===== *)
theory Cadu
  imports Cltu
begin

text \<open>
  Channel access data units (\<open>coding/framing/cadu.rs\<close>): a transfer frame behind an attached
  sync marker, the search for the marker in received bytes, the iterator over all frames, and
  the framer, deframer, writer and reader built on them. The locale \<open>sync_marker\<close> states what
  makes a marker good for synchronization, that it does not overlap itself, and proves that
  the search acquires the first frame behind any noise and then every frame of a stream.
\<close>

section \<open>Encoding and decoding\<close>

definition ASM_TM :: bytes where "ASM_TM = [0x1A, 0xCF, 0xFC, 0x1D]"

definition ASM_TM_INVERTED :: bytes where "ASM_TM_INVERTED = [0xE5, 0x30, 0x03, 0xE2]"

definition ASM_PROXIMITY1 :: bytes where "ASM_PROXIMITY1 = [0xFA, 0xF3, 0x20]"

datatype CaduError = BufferTooSmall nat nat | InputTooShort | AsmMismatch

definition encode_cadu :: "bytes \<Rightarrow> bytes \<Rightarrow> bytes \<Rightarrow> CaduError + nat \<times> bytes" where
  "encode_cadu asm frame out =
     (let total = length asm + length frame in
      if length out < total then Inl (BufferTooSmall total (length out))
      else Inr (total, blit (blit out 0 asm) (length asm) frame))"

definition decode_cadu :: "bytes \<Rightarrow> bytes \<Rightarrow> CaduError + bytes" where
  "decode_cadu asm cadu =
     (if length cadu < length asm then Inl InputTooShort
      else if take (length asm) cadu \<noteq> asm then Inl AsmMismatch
      else Inr (drop (length asm) cadu))"

section \<open>Frame synchronization\<close>

record frame_sync =
  fs_asm :: bytes
  fs_frame_len :: nat

definition FrameSync_new :: "bytes \<Rightarrow> nat \<Rightarrow> frame_sync" where
  "FrameSync_new asm frame_len = \<lparr>fs_asm = asm, fs_frame_len = frame_len\<rparr>"

definition cadu_len :: "frame_sync \<Rightarrow> nat" where
  "cadu_len sync = length (fs_asm sync) + fs_frame_len sync"

fun find_at :: "frame_sync \<Rightarrow> bytes \<Rightarrow> nat list \<Rightarrow> (nat \<times> bytes) option" where
  "find_at sync data [] = None"
| "find_at sync data (offset # offsets) =
     (if bslice data offset (length (fs_asm sync)) = fs_asm sync
      then Some (offset, bslice data (offset + length (fs_asm sync)) (fs_frame_len sync))
      else find_at sync data offsets)"

definition find_frame :: "frame_sync \<Rightarrow> bytes \<Rightarrow> (nat \<times> bytes) option" where
  "find_frame sync data =
     (if length data < cadu_len sync then None
      else let search_end = length data - cadu_len sync + 1 in find_at sync data [0..<search_end])"

record frame_iter =
  fi_sync :: frame_sync
  fi_data :: bytes
  fi_pos :: nat

definition find_all_frames :: "frame_sync \<Rightarrow> bytes \<Rightarrow> frame_iter" where
  "find_all_frames sync data = \<lparr>fi_sync = sync, fi_data = data, fi_pos = 0\<rparr>"

definition next_frame :: "frame_iter \<Rightarrow> (nat \<times> bytes) option \<times> frame_iter" where
  "next_frame it =
     (let remaining = drop (fi_pos it) (fi_data it) in
      case find_frame (fi_sync it) remaining of
        Some (rel_offset, frame) \<Rightarrow>
          (let abs_offset = fi_pos it + rel_offset
           in (Some (abs_offset, frame), it\<lparr>fi_pos := abs_offset + length (fs_asm (fi_sync it))\<rparr>))
      | None \<Rightarrow> (None, it))"

text \<open>The iterator collected, for at most \<open>n\<close> calls of \<open>next\<close>.\<close>

fun collect_frames :: "nat \<Rightarrow> frame_iter \<Rightarrow> (nat \<times> bytes) list" where
  "collect_frames 0 it = []"
| "collect_frames (Suc n) it =
     (case next_frame it of (None, _) \<Rightarrow> [] | (Some f, it') \<Rightarrow> f # collect_frames n it')"

section \<open>Framer, deframer, writer, reader\<close>

definition AsmFramer_tm :: bytes where "AsmFramer_tm = ASM_TM"

definition AsmFramer_proximity1 :: bytes where "AsmFramer_proximity1 = ASM_PROXIMITY1"

definition AsmFramer_frame :: "bytes \<Rightarrow> bytes \<Rightarrow> bytes \<Rightarrow> CaduError + nat \<times> bytes" where
  "AsmFramer_frame asm data out = encode_cadu asm data out"

definition AsmDeframer_tm :: "nat \<Rightarrow> frame_sync" where
  "AsmDeframer_tm frame_len = \<lparr>fs_asm = ASM_TM, fs_frame_len = frame_len\<rparr>"

definition AsmDeframer_proximity1 :: "nat \<Rightarrow> frame_sync" where
  "AsmDeframer_proximity1 frame_len = \<lparr>fs_asm = ASM_PROXIMITY1, fs_frame_len = frame_len\<rparr>"

definition AsmDeframer_deframe :: "frame_sync \<Rightarrow> bytes \<Rightarrow> bytes \<Rightarrow> CaduError + nat \<times> bytes" where
  "AsmDeframer_deframe d data out =
     (let sync = FrameSync_new (fs_asm d) (fs_frame_len d) in
      case find_frame sync data of
        None \<Rightarrow> Inl AsmMismatch
      | Some (offset, frame) \<Rightarrow>
          (let len = min (length frame) (length out) in Inr (len, blit out 0 (take len frame))))"

record 'w asm_writer =
  aw_writer :: 'w
  aw_asm :: bytes
  aw_buffer :: bytes

datatype 'e AsmWriterError = Asm_Cadu CaduError | Asm_Writer 'e

definition AsmWriter_tm :: "nat \<Rightarrow> 'w \<Rightarrow> 'w asm_writer" where
  "AsmWriter_tm BUF w = \<lparr>aw_writer = w, aw_asm = ASM_TM, aw_buffer = replicate BUF 0\<rparr>"

definition AsmWriter_proximity1 :: "nat \<Rightarrow> 'w \<Rightarrow> 'w asm_writer" where
  "AsmWriter_proximity1 BUF w = \<lparr>aw_writer = w, aw_asm = ASM_PROXIMITY1, aw_buffer = replicate BUF 0\<rparr>"

definition AsmWriter_write ::
  "('w, 'e) phys_write \<Rightarrow> bytes \<Rightarrow> 'w asm_writer \<Rightarrow> ('e AsmWriterError + unit) \<times> 'w asm_writer" where
  "AsmWriter_write phys data st =
     (case encode_cadu (aw_asm st) data (aw_buffer st) of
        Inl e \<Rightarrow> (Inl (Asm_Cadu e), st)
      | Inr (len, buf) \<Rightarrow>
          (case phys (take len buf) (aw_writer st) of
             (Inl e, w) \<Rightarrow> (Inl (Asm_Writer e), st\<lparr>aw_buffer := buf, aw_writer := w\<rparr>)
           | (Inr u, w) \<Rightarrow> (Inr u, st\<lparr>aw_buffer := buf, aw_writer := w\<rparr>)))"

record 'r frame_sync_reader =
  fr_reader :: 'r
  fr_asm :: bytes
  fr_frame_len :: nat
  fr_buffer :: bytes

datatype 'e FrameSyncReaderError = NoFrame | Reader_failed 'e

definition FrameSyncReader_tm :: "nat \<Rightarrow> 'r \<Rightarrow> nat \<Rightarrow> 'r frame_sync_reader" where
  "FrameSyncReader_tm BUF r frame_len =
     \<lparr>fr_reader = r, fr_asm = ASM_TM, fr_frame_len = frame_len, fr_buffer = replicate BUF 0\<rparr>"

definition FrameSyncReader_proximity1 :: "nat \<Rightarrow> 'r \<Rightarrow> nat \<Rightarrow> 'r frame_sync_reader" where
  "FrameSyncReader_proximity1 BUF r frame_len =
     \<lparr>fr_reader = r, fr_asm = ASM_PROXIMITY1, fr_frame_len = frame_len, fr_buffer = replicate BUF 0\<rparr>"

text \<open>
  One call reads once from below. The slice \<open>buffer[..len]\<close> panics if the reader claims more
  bytes than the buffer holds.
\<close>

definition FrameSyncReader_read ::
  "('r, 'e) phys_read \<Rightarrow> bytes \<Rightarrow> 'r frame_sync_reader \<Rightarrow>
     (('e FrameSyncReaderError + nat) \<times> bytes \<times> 'r frame_sync_reader) outcome" where
  "FrameSyncReader_read phys out st =
     (case phys (fr_buffer st) (fr_reader st) of
        (Inl e, buf, r) \<Rightarrow> Returns (Inl (Reader_failed e), out, st\<lparr>fr_buffer := buf, fr_reader := r\<rparr>)
      | (Inr len, buf, r) \<Rightarrow>
          (let st = st\<lparr>fr_buffer := buf, fr_reader := r\<rparr>; sync = FrameSync_new (fr_asm st) (fr_frame_len st) in
           if length buf < len then Panics
           else case find_frame sync (take len buf) of
               None \<Rightarrow> Returns (Inl NoFrame, out, st)
             | Some (offset, frame) \<Rightarrow>
                 (let copy_len = min (length frame) (length out)
                  in Returns (Inr copy_len, blit out 0 (take copy_len frame), st))))"

section \<open>Laws of encoding\<close>

lemma encode_cadu_eq:
  "encode_cadu asm frame out =
     (if length out < length asm + length frame then Inl (BufferTooSmall (length asm + length frame) (length out))
      else Inr (length asm + length frame, asm @ frame @ drop (length asm + length frame) out))"
  by (simp add: encode_cadu_def Let_def blit_def add.commute)

lemma decode_encode_cadu:
  "encode_cadu asm frame out = Inr (len, out') \<Longrightarrow> decode_cadu asm (take len out') = Inr frame"
  by (auto simp: encode_cadu_eq decode_cadu_def split: if_splits)

section \<open>The search\<close>

lemma find_at_first:
  assumes "off \<in> set offs" "sorted_wrt (<) offs"
    and "bslice data off (length (fs_asm sync)) = fs_asm sync"
    and "\<And>o'. o' \<in> set offs \<Longrightarrow> o' < off \<Longrightarrow> bslice data o' (length (fs_asm sync)) \<noteq> fs_asm sync"
  shows "find_at sync data offs = Some (off, bslice data (off + length (fs_asm sync)) (fs_frame_len sync))"
  using assms
proof (induction offs)
  case (Cons o' offs)
  then show ?case by (cases "o' = off") auto
qed simp

lemma find_at_none:
  "(\<And>o'. o' \<in> set offs \<Longrightarrow> bslice data o' (length (fs_asm sync)) \<noteq> fs_asm sync) \<Longrightarrow> find_at sync data offs = None"
  by (induction offs) auto

lemma sublist_bslice: "sublist (bslice data off n) data"
  unfolding bslice_def by (meson sublist_drop sublist_order.order.trans sublist_take)

text \<open>What \<open>find_frame\<close> returns lies in the data, behind a marker, and no marker comes before it.\<close>

lemma find_at_Some:
  "find_at sync data offs = Some (off, frame) \<Longrightarrow>
     off \<in> set offs \<and> bslice data off (length (fs_asm sync)) = fs_asm sync \<and>
     frame = bslice data (off + length (fs_asm sync)) (fs_frame_len sync)"
  by (induction offs) (auto split: if_splits)

lemma find_frame_Some:
  assumes "find_frame sync data = Some (off, frame)"
  shows "bslice data off (length (fs_asm sync)) = fs_asm sync"
    and "frame = bslice data (off + length (fs_asm sync)) (fs_frame_len sync)"
    and "off + cadu_len sync \<le> length data"
  using assms find_at_Some [of sync data "[0..<length data - cadu_len sync + 1]" off frame]
  by (auto simp: find_frame_def Let_def split: if_splits)

text \<open>The iterator stays within its data.\<close>

lemma next_frame_pos:
  "fi_pos it \<le> length (fi_data it) \<Longrightarrow> next_frame it = (r, it') \<Longrightarrow>
     fi_data it' = fi_data it \<and> fi_pos it' \<le> length (fi_data it')"
  by (auto simp: next_frame_def Let_def cadu_len_def split: option.splits dest!: find_frame_Some(3))

locale sync_marker =
  fixes asm :: bytes
  assumes nonempty: "asm \<noteq> []"
    and unbordered: "prefix xs asm \<Longrightarrow> suffix xs asm \<Longrightarrow> xs = [] \<or> xs = asm"
begin

lemma no_early_marker:
  assumes "\<not> sublist asm noise" "off < length noise" "bslice (noise @ asm @ rest) off (length asm) = asm"
  shows False
proof (cases "off + length asm \<le> length noise")
  case True
  then have "bslice (noise @ asm @ rest) off (length asm) = bslice noise off (length asm)" by (simp add: bslice_def)
  then show False using assms sublist_bslice [of noise off "length asm"] by simp
next
  case False
  define q where "q = take (length asm - (length noise - off)) asm"
  have "asm = drop off noise @ take (length asm - (length noise - off)) (asm @ rest)"
    using assms(2,3) False by (simp add: bslice_def)
  then have split: "asm = drop off noise @ q" using False by (simp add: q_def)
  then have "suffix q asm" by (metis suffixI)
  moreover have "prefix q asm" by (simp add: q_def take_is_prefix)
  ultimately have "q = [] \<or> q = asm" using unbordered by blast
  moreover have "0 < length q" and "length q < length asm"
    using False assms(2) nonempty by (auto simp: q_def)
  ultimately show False by auto
qed

lemma find_frame_behind_noise:
  assumes "\<not> sublist asm noise"
  shows "find_frame \<lparr>fs_asm = asm, fs_frame_len = length frame\<rparr> (noise @ asm @ frame @ rest) = Some (length noise, frame)"
proof -
  let ?sync = "\<lparr>fs_asm = asm, fs_frame_len = length frame\<rparr>" and ?data = "noise @ asm @ frame @ rest"
  have "find_at ?sync ?data [0..<length ?data - cadu_len ?sync + 1]
      = Some (length noise, bslice ?data (length noise + length (fs_asm ?sync)) (fs_frame_len ?sync))"
  proof (rule find_at_first)
    show "sorted_wrt (<) [0..<length ?data - cadu_len ?sync + 1]" by (rule sorted_wrt_upt)
  qed (use no_early_marker [OF assms, of _ "frame @ rest"] in \<open>auto simp: cadu_len_def bslice_def\<close>)
  then show ?thesis by (simp add: find_frame_def cadu_len_def Let_def bslice_def)
qed

lemma find_frame_no_marker:
  assumes "\<not> sublist asm noise"
  shows "find_frame \<lparr>fs_asm = asm, fs_frame_len = n\<rparr> noise = None"
proof -
  have "bslice noise off (length asm) \<noteq> asm" for off
    using assms sublist_bslice [of noise off "length asm"] by auto
  then show ?thesis by (simp add: find_frame_def Let_def find_at_none)
qed

lemma collect_stream:
  assumes "\<not> sublist asm noise" "\<forall>f\<in>set fs. length f = n \<and> \<not> sublist asm f"
  shows "collect_frames (Suc (length fs))
      \<lparr>fi_sync = \<lparr>fs_asm = asm, fs_frame_len = n\<rparr>, fi_data = pre @ noise @ concat (map ((@) asm) fs), fi_pos = length pre\<rparr>
    = map (\<lambda>k. (length pre + length noise + k * (length asm + n), fs ! k)) [0..<length fs]"
  using assms
proof (induction fs arbitrary: pre noise)
  case Nil
  then show ?case by (simp add: next_frame_def Let_def find_frame_no_marker)
next
  case (Cons f fs)
  let ?sync = "\<lparr>fs_asm = asm, fs_frame_len = n\<rparr>"
  have "find_frame ?sync (noise @ asm @ f @ concat (map ((@) asm) fs)) = Some (length noise, f)"
    using find_frame_behind_noise [OF Cons.prems(1), of f] Cons.prems(2) by simp
  then have "next_frame \<lparr>fi_sync = ?sync, fi_data = pre @ noise @ concat (map ((@) asm) (f # fs)), fi_pos = length pre\<rparr>
      = (Some (length pre + length noise, f), \<lparr>fi_sync = ?sync, fi_data = (pre @ noise @ asm) @ f @ concat (map ((@) asm) fs),
          fi_pos = length (pre @ noise @ asm)\<rparr>)"
    by (simp add: next_frame_def Let_def)
  then have "collect_frames (Suc (length (f # fs)))
      \<lparr>fi_sync = ?sync, fi_data = pre @ noise @ concat (map ((@) asm) (f # fs)), fi_pos = length pre\<rparr>
    = (length pre + length noise, f) # map (\<lambda>k. (length (pre @ noise @ asm) + length f + k * (length asm + n), fs ! k)) [0..<length fs]"
    using Cons.IH [of f "pre @ noise @ asm"] Cons.prems(2) by simp
  also have "\<dots> = map (\<lambda>k. (length pre + length noise + k * (length asm + n), (f # fs) ! k)) [0..<length (f # fs)]"
    using Cons.prems(2) by (simp add: map_upt_Suc add.assoc del: upt_Suc)
  finally show ?case .
qed

end


interpretation asm_tm: sync_marker ASM_TM
proof
  fix xs assume "prefix xs ASM_TM" "suffix xs ASM_TM"
  then show "xs = [] \<or> xs = ASM_TM"
    by (auto simp: ASM_TM_def prefix_Cons suffix_Cons)
qed (simp add: ASM_TM_def)

interpretation asm_tm_inverted: sync_marker ASM_TM_INVERTED
proof
  fix xs assume "prefix xs ASM_TM_INVERTED" "suffix xs ASM_TM_INVERTED"
  then show "xs = [] \<or> xs = ASM_TM_INVERTED"
    by (auto simp: ASM_TM_INVERTED_def prefix_Cons suffix_Cons)
qed (simp add: ASM_TM_INVERTED_def)

interpretation asm_proximity1: sync_marker ASM_PROXIMITY1
proof
  fix xs assume "prefix xs ASM_PROXIMITY1" "suffix xs ASM_PROXIMITY1"
  then show "xs = [] \<or> xs = ASM_PROXIMITY1"
    by (auto simp: ASM_PROXIMITY1_def prefix_Cons suffix_Cons)
qed (simp add: ASM_PROXIMITY1_def)

section \<open>Acquisition\<close>

text \<open>
  On a received stream of noise followed by CADUs of one length, the iterator yields
  exactly the frames, each at the position of its marker, and then ends, provided that the
  marker occurs neither in the noise nor within a frame. The marker's own bytes cannot
  mislead the search, whatever surrounds them.
\<close>

theorem asm_stream_frames:
  assumes "asm \<in> {ASM_TM, ASM_TM_INVERTED, ASM_PROXIMITY1}"
    and "\<not> sublist asm noise" and "\<forall>f\<in>set fs. length f = n \<and> \<not> sublist asm f"
  shows "collect_frames (Suc (length fs))
      (find_all_frames (FrameSync_new asm n) (noise @ concat (map ((@) asm) fs)))
    = map (\<lambda>k. (length noise + k * (length asm + n), fs ! k)) [0..<length fs]"
  using assms(1) asm_tm.collect_stream [of noise fs n "[]"] asm_tm_inverted.collect_stream [of noise fs n "[]"]
    asm_proximity1.collect_stream [of noise fs n "[]"] assms(2,3)
  by (auto simp: find_all_frames_def FrameSync_new_def simp del: collect_frames.simps)

lemma asm_stream_frames_witness:
  "collect_frames 3 (find_all_frames (FrameSync_new ASM_TM 2) ([0, 0x1A] @ concat (map ((@) ASM_TM) [[1, 2], [0x1A, 0xCF]])))
     = map (\<lambda>k. (2 + k * (length ASM_TM + 2), [[1, 2], [0x1A, 0xCF]] ! k)) [0..<2]"
  using asm_stream_frames [of ASM_TM "[0, 0x1A]" "[[1, 2], [0x1A, 0xCF]]" 2]
  by (simp add: ASM_TM_def sublist_Cons_right numeral_3_eq_3 numeral_2_eq_2 del: collect_frames.simps upt_Suc)

end
