(* ===== verification/Coding_Pipeline.thy ===== *)
theory Coding_Pipeline
  imports Bch Cadu
begin

text \<open>
  The coding pipeline (\<open>coding/pipeline.rs\<close>, the traits and no-op types of \<open>coding/mod.rs\<close>,
  \<open>coding/fec/mod.rs\<close>, \<open>coding/framing/mod.rs\<close>): randomizer, error-correcting code and framer
  composed into one writer, deframer, decoder and derandomizer into one reader. The locales
  \<open>coding_encoder\<close> and \<open>coding_chain\<close> are the traits' contracts; the pipeline's behaviour is
  proved in them and holds for every implementation that is interpreted below.
\<close>

section \<open>The traits and their no-op implementations\<close>

text \<open>
  \<open>encode\<close> and \<open>frame\<close> take the data and the output buffer, \<open>decode\<close> works in place. The buffer
  comes back with the number of bytes used; an error leaves it unread.
\<close>

type_synonym 'e encoder = "bytes \<Rightarrow> bytes \<Rightarrow> ('e + nat \<times> bytes) outcome"
type_synonym 'e decoder = "bytes \<Rightarrow> ('e + nat \<times> bytes) outcome"

definition copy_through :: "'e encoder" where
  "copy_through data out =
     (let len = length data in if length out < len then Panics else Returns (Inr (len, blit out 0 data)))"

definition NoFec_encode :: "'e encoder" where "NoFec_encode data out = copy_through data out"

definition NoFec_decode :: "'e decoder" where "NoFec_decode data = Returns (Inr (length data, data))"

definition NoFramer_frame :: "'e encoder" where "NoFramer_frame data out = copy_through data out"

definition NoFramer_deframe :: "'e encoder" where "NoFramer_deframe data out = copy_through data out"

section \<open>Writing\<close>

datatype ('f, 'm, 'w) CodingWriteError = WFec 'f | WFramer 'm | WWriter 'w | WBufferTooSmall

record 'w coding_writer =
  pw_writer :: 'w
  pw_buf_a :: bytes
  pw_buf_b :: bytes

definition CodingWriter_new :: "nat \<Rightarrow> 'w \<Rightarrow> 'w coding_writer" where
  "CodingWriter_new BUF w = \<lparr>pw_writer = w, pw_buf_a = replicate BUF 0, pw_buf_b = replicate BUF 0\<rparr>"

definition coding_write ::
  "(bytes \<Rightarrow> bytes) \<Rightarrow> 'f encoder \<Rightarrow> 'm encoder \<Rightarrow> ('w, 'e) phys_write \<Rightarrow> bytes \<Rightarrow> 'w coding_writer \<Rightarrow>
     ((('f, 'm, 'e) CodingWriteError + unit) \<times> 'w coding_writer) outcome" where
  "coding_write randomize encode frame phys tf st =
     (let BUF = length (pw_buf_a st); n = length tf in
      if n > BUF then Returns (Inl WBufferTooSmall, st)
      else
        let a = blit (pw_buf_a st) 0 tf;
            a = blit a 0 (randomize (take n a));
            st = st\<lparr>pw_buf_a := a\<rparr>
        in case encode (take n a) (pw_buf_b st) of
             Panics \<Rightarrow> Panics
           | Returns (Inl e) \<Rightarrow> Returns (Inl (WFec e), st)
           | Returns (Inr (fec_len, b)) \<Rightarrow>
               (let st = st\<lparr>pw_buf_b := b\<rparr> in
                if length b < fec_len then Panics
                else case frame (take fec_len b) a of
                    Panics \<Rightarrow> Panics
                  | Returns (Inl e) \<Rightarrow> Returns (Inl (WFramer e), st)
                  | Returns (Inr (framed_len, a)) \<Rightarrow>
                      (let st = st\<lparr>pw_buf_a := a\<rparr> in
                       if length a < framed_len then Panics
                       else case phys (take framed_len a) (pw_writer st) of
                           (res, w) \<Rightarrow> Returns (map_sum WWriter id res, st\<lparr>pw_writer := w\<rparr>))))"

section \<open>Reading\<close>

datatype ('d, 'f, 'r) CodingReadError = RDeframer 'd | RFec 'f | RReader 'r | RBufferTooSmall

record 'r coding_reader =
  pr_reader :: 'r
  pr_buf_a :: bytes
  pr_buf_b :: bytes

definition CodingReader_new :: "nat \<Rightarrow> 'r \<Rightarrow> 'r coding_reader" where
  "CodingReader_new BUF r = \<lparr>pr_reader = r, pr_buf_a = replicate BUF 0, pr_buf_b = replicate BUF 0\<rparr>"

definition coding_read ::
  "(bytes \<Rightarrow> bytes) \<Rightarrow> 'd encoder \<Rightarrow> 'f decoder \<Rightarrow> ('r, 'e) phys_read \<Rightarrow> bytes \<Rightarrow> 'r coding_reader \<Rightarrow>
     ((('d, 'f, 'e) CodingReadError + nat) \<times> bytes \<times> 'r coding_reader) outcome" where
  "coding_read randomize deframe decode phys buffer st =
     (case phys (pr_buf_a st) (pr_reader st) of
        (Inl e, a, r) \<Rightarrow> Returns (Inl (RReader e), buffer, st\<lparr>pr_buf_a := a, pr_reader := r\<rparr>)
      | (Inr raw_len, a, r) \<Rightarrow>
          (let st = st\<lparr>pr_buf_a := a, pr_reader := r\<rparr> in
           if raw_len = 0 then Returns (Inr 0, buffer, st)
           else if length a < raw_len then Panics
           else case deframe (take raw_len a) (pr_buf_b st) of
               Panics \<Rightarrow> Panics
             | Returns (Inl e) \<Rightarrow> Returns (Inl (RDeframer e), buffer, st)
             | Returns (Inr (deframed_len, b)) \<Rightarrow>
                 (let st = st\<lparr>pr_buf_b := b\<rparr> in
                  if length b < deframed_len \<or> length a < deframed_len then Panics
                  else
                    let a = blit a 0 (take deframed_len b) in
                    case decode (take deframed_len a) of
                        Panics \<Rightarrow> Panics
                      | Returns (Inl e) \<Rightarrow> Returns (Inl (RFec e), buffer, st\<lparr>pr_buf_a := a\<rparr>)
                      | Returns (Inr (data_len, d)) \<Rightarrow>
                          (let a = blit a 0 d in
                           if length a < data_len then Panics
                           else
                             let a = blit a 0 (randomize (take data_len a)); st = st\<lparr>pr_buf_a := a\<rparr> in
                             if length buffer < data_len then Returns (Inl RBufferTooSmall, buffer, st)
                             else Returns (Inr data_len, blit buffer 0 (take data_len a), st)))))"

section \<open>The contract of the writing side\<close>

text \<open>
  \<open>coded\<close> and \<open>framed\<close> are the bytes the encoder and the framer produce, when the buffer holds
  them.
\<close>

locale coding_encoder =
  fixes randomize :: "bytes \<Rightarrow> bytes" and encode :: "'f encoder" and frame :: "'m encoder"
    and coded framed :: "bytes \<Rightarrow> bytes"
  assumes length_randomize [simp]: "length (randomize xs) = length xs"
    and encodes: "length (coded xs) \<le> length out \<Longrightarrow>
        encode xs out = Returns (Inr (length (coded xs), blit out 0 (coded xs)))"
    and frames: "length (framed xs) \<le> length out \<Longrightarrow>
        frame xs out = Returns (Inr (length (framed xs), blit out 0 (framed xs)))"
begin

lemma write_eq:
  assumes "length (pw_buf_a st) = BUF" "length (pw_buf_b st) = BUF" "length tf \<le> BUF"
    and "length (coded (randomize tf)) \<le> BUF" "length (framed (coded (randomize tf))) \<le> BUF"
    and "phys (framed (coded (randomize tf))) (pw_writer st) = (res, w)"
  shows "\<exists>st'. coding_write randomize encode frame phys tf st = Returns (map_sum WWriter id res, st')
     \<and> pw_writer st' = w \<and> length (pw_buf_a st') = BUF \<and> length (pw_buf_b st') = BUF"
  using assms by (simp add: coding_write_def Let_def encodes frames)

end

text \<open>
  \<open>carries raw xs\<close>: received bytes from which the deframer extracts \<open>xs\<close>.
\<close>

locale coding_chain = coding_encoder randomize encode frame coded framed
  for randomize :: "bytes \<Rightarrow> bytes" and encode :: "'f encoder" and frame :: "'m encoder"
    and coded framed :: "bytes \<Rightarrow> bytes" +
  fixes decode :: "'g decoder" and deframe :: "'d encoder" and carries :: "bytes \<Rightarrow> bytes \<Rightarrow> bool"
  assumes randomize_twice [simp]: "randomize (randomize xs) = xs"
    and decodes: "\<exists>d. decode (coded xs) = Returns (Inr (length xs, d)) \<and> length d = length (coded xs)
        \<and> length xs \<le> length d \<and> take (length xs) d = xs"
    and deframes: "carries raw xs \<Longrightarrow> length xs \<le> length out \<Longrightarrow> deframe raw out = Returns (Inr (length xs, blit out 0 xs))"
    and carries_length: "carries raw xs \<Longrightarrow> length xs \<le> length raw"
begin

lemma read_eq:
  assumes "carries raw (coded (randomize tf))" "raw \<noteq> []"
    and "length raw \<le> length (pr_buf_a st)" "length (coded (randomize tf)) \<le> length (pr_buf_b st)"
    and "phys (pr_buf_a st) (pr_reader st) = (Inr (length raw), blit (pr_buf_a st) 0 raw, r)"
    and "length tf \<le> length buffer"
  shows "\<exists>st'. coding_read randomize deframe decode phys buffer st = Returns (Inr (length tf), blit buffer 0 tf, st')
     \<and> pr_reader st' = r"
proof -
  obtain d where d: "decode (coded (randomize tf)) = Returns (Inr (length tf, d))"
    "length d = length (coded (randomize tf))" "length tf \<le> length d" "take (length tf) d = randomize tf"
    using decodes [of "randomize tf"] by auto
  have le: "length (coded (randomize tf)) \<le> length (pr_buf_a st)"
    using carries_length [OF assms(1)] assms(3) by simp
  show ?thesis
    using assms d le by (simp add: coding_read_def Let_def deframes)
qed

end

section \<open>The implementations\<close>

interpretation cltu_encoder: coding_encoder "randomizer_apply r" NoFec_encode "\<lambda>d out. Returns (encode_cltu d out)" id cltu
  for r
  by unfold_locales
    (simp_all add: NoFec_encode_def copy_through_def encode_cltu_eq length_cltu blit_def Let_def)

interpretation plain_chain: coding_chain "randomizer_apply r" NoFec_encode NoFramer_frame id id NoFec_decode NoFramer_deframe "(=)"
  for r
  by unfold_locales
    (auto simp: NoFec_encode_def NoFec_decode_def NoFramer_frame_def NoFramer_deframe_def copy_through_def Let_def)

definition asm_carries :: "bytes \<Rightarrow> nat \<Rightarrow> bytes \<Rightarrow> bytes \<Rightarrow> bool" where
  "asm_carries asm n raw xs \<longleftrightarrow>
     length xs = n \<and> (\<exists>noise rest. raw = noise @ asm @ xs @ rest \<and> \<not> sublist asm noise)"

interpretation asm_chain: coding_chain "randomizer_apply r" NoFec_encode "\<lambda>d out. Returns (AsmFramer_frame ASM_TM d out)"
    id "\<lambda>xs. ASM_TM @ xs" NoFec_decode "\<lambda>d out. Returns (AsmDeframer_deframe (AsmDeframer_tm n) d out)"
    "asm_carries ASM_TM n"
  for r n
proof
  fix raw xs out :: bytes
  assume "asm_carries ASM_TM n raw xs" "length xs \<le> length out"
  then show "Returns (AsmDeframer_deframe (AsmDeframer_tm n) raw out) = Returns (Inr (length xs, blit out 0 xs))"
    using asm_tm.find_frame_behind_noise [of _ xs]
    by (auto simp: asm_carries_def AsmDeframer_deframe_def AsmDeframer_tm_def FrameSync_new_def Let_def)
qed (auto simp: NoFec_encode_def NoFec_decode_def copy_through_def AsmFramer_frame_def encode_cadu_eq blit_def asm_carries_def Let_def)

text \<open>What a telecommand pipeline hands to the radio.\<close>

lemma cltu_pipeline_writes:
  assumes "length (pw_buf_a st) = BUF" "length (pw_buf_b st) = BUF" "encoded_cltu_len (length tf) \<le> BUF"
    and "phys (cltu (randomizer_apply r tf)) (pw_writer st) = (res, w)"
  shows "\<exists>st'. coding_write (randomizer_apply r) NoFec_encode (\<lambda>d out. Returns (encode_cltu d out)) phys tf st
      = Returns (map_sum WWriter id res, st') \<and> pw_writer st' = w \<and> length (pw_buf_a st') = BUF \<and> length (pw_buf_b st') = BUF"
proof -
  have "length tf \<le> BUF" using assms(3) by (simp add: encoded_cltu_len_def)
  then show ?thesis using cltu_encoder.write_eq [OF assms(1,2), of tf r phys res w] assms(3,4) by (simp add: length_cltu)
qed

section \<open>The round trip of a pipeline\<close>

text \<open>
  C17: A telemetry pipeline (any randomizer, no error-correcting code, the sync marker as
  framer) with buffers of at least four bytes more than the frame hands exactly the marker and
  the randomized frame to the physical layer; a reading pipeline that receives these bytes,
  also within noise that does not contain the marker, returns the frame.
\<close>

theorem coding_pipeline_roundtrip:
  assumes "length (pw_buf_a st) = BUF" "length (pw_buf_b st) = BUF" "length tf + 4 \<le> BUF"
    and "phys_w (ASM_TM @ randomizer_apply r tf) (pw_writer st) = (res, w)"
    and "\<not> sublist ASM_TM noise" "raw = noise @ ASM_TM @ randomizer_apply r tf @ rest"
    and "length raw \<le> length (pr_buf_a rd)" "length tf \<le> length (pr_buf_b rd)" "length tf \<le> length buffer"
    and "phys_r (pr_buf_a rd) (pr_reader rd) = (Inr (length raw), blit (pr_buf_a rd) 0 raw, src)"
  shows "(\<exists>st'. coding_write (randomizer_apply r) NoFec_encode (\<lambda>d out. Returns (AsmFramer_frame ASM_TM d out)) phys_w tf st
      = Returns (map_sum WWriter id res, st') \<and> pw_writer st' = w) \<and>
    (\<exists>rd'. coding_read (randomizer_apply r) (\<lambda>d out. Returns (AsmDeframer_deframe (AsmDeframer_tm (length tf)) d out))
        NoFec_decode phys_r buffer rd = Returns (Inr (length tf), blit buffer 0 tf, rd') \<and> pr_reader rd' = src)"
proof
  have "length ASM_TM = 4" by (simp add: ASM_TM_def)
  then show "\<exists>st'. coding_write (randomizer_apply r) NoFec_encode (\<lambda>d out. Returns (AsmFramer_frame ASM_TM d out)) phys_w tf st
      = Returns (map_sum WWriter id res, st') \<and> pw_writer st' = w"
    using asm_chain.write_eq [OF assms(1,2), of tf r phys_w res w] assms(3,4) by auto
  have "asm_carries ASM_TM (length tf) raw (randomizer_apply r tf)" using assms(5,6) by (auto simp: asm_carries_def)
  moreover have "raw \<noteq> []" using assms(6) by (simp add: ASM_TM_def)
  ultimately show "\<exists>rd'. coding_read (randomizer_apply r) (\<lambda>d out. Returns (AsmDeframer_deframe (AsmDeframer_tm (length tf)) d out))
      NoFec_decode phys_r buffer rd = Returns (Inr (length tf), blit buffer 0 tf, rd') \<and> pr_reader rd' = src"
    using asm_chain.read_eq [of "length tf" raw r tf rd phys_r src buffer] assms(7-10) by simp
qed

lemma coding_pipeline_roundtrip_witness:
  defines "sink \<equiv> (\<lambda>d s. (Inr () :: nat + unit, s @ [d]))"
    and "source \<equiv> (\<lambda>buf (s :: bytes). (Inr (length s) :: nat + nat, blit buf 0 s, []))"
    and "tf \<equiv> [1, 2, 3 :: u8]"
  defines "sent \<equiv> ASM_TM @ randomizer_apply Tm255Randomizer_new tf"
  shows "(\<exists>st'. coding_write (randomizer_apply Tm255Randomizer_new) NoFec_encode
        (\<lambda>d out. Returns (AsmFramer_frame ASM_TM d out)) sink tf (CodingWriter_new 8 [])
      = Returns (map_sum WWriter id (Inr ()), st') \<and> pw_writer st' = [sent]) \<and>
    (\<exists>rd'. coding_read (randomizer_apply Tm255Randomizer_new)
        (\<lambda>d out. Returns (AsmDeframer_deframe (AsmDeframer_tm (length tf)) d out))
        NoFec_decode source [0, 0, 0, 0] (CodingReader_new 8 ([9] @ sent @ []))
      = Returns (Inr (length tf), blit [0, 0, 0, 0] 0 tf, rd') \<and> pr_reader rd' = [])"
proof -
  have len: "length ([9] @ sent @ []) = 8" by (simp add: sent_def tf_def ASM_TM_def)
  show ?thesis
    by (rule coding_pipeline_roundtrip [where BUF = 8 and noise = "[9]" and rest = "[]"])
      (simp_all only: len, simp_all add: sent_def sink_def source_def tf_def ASM_TM_def
        CodingWriter_new_def CodingReader_new_def sublist_Cons_right)
qed

end
