(* ===== verification/Ringbuf.thy ===== *)
theory Ringbuf
  imports Wire
begin

text \<open>
  The ring buffer of variable-length packets (\<open>utils/ringbuf.rs\<close>) that queues the router's
  outgoing packets. A packet is stored behind a two-byte length; one that does not fit before
  the end of the buffer goes to the start, with a zero length as the mark of the gap.
  The locale \<open>packet_queue\<close> is the contract of the router's queues. The ring keeps it as long
  as every push meets \<open>push_ok\<close>; \<open>ring_overwrites_unread\<close> and its neighbours show what
  happens otherwise.
\<close>

section \<open>Definitions\<close>

record ring =
  rb_buf :: bytes
  rb_head :: nat
  rb_tail :: nat
  rb_count :: nat
  rb_front_drop :: bool

definition LEN_SIZE :: nat where "LEN_SIZE = 2"

definition RingBuffer_new :: "nat \<Rightarrow> ring" where
  "RingBuffer_new N = \<lparr>rb_buf = replicate N 0, rb_head = 0, rb_tail = 0, rb_count = 0, rb_front_drop = False\<rparr>"

definition with_front_drop :: "nat \<Rightarrow> ring" where
  "with_front_drop N = (RingBuffer_new N)\<lparr>rb_front_drop := True\<rparr>"

definition try_push :: "bytes \<Rightarrow> nat \<Rightarrow> ring \<Rightarrow> (bool \<times> ring) outcome" where
  "try_push data needed r =
     (let N = length (rb_buf r); space_to_end = N - rb_head r in
      if space_to_end < needed \<and> rb_count r > 0 \<and> rb_head r \<ge> rb_tail r \<and> needed > rb_tail r
      then Returns (False, r)
      else if space_to_end < needed \<and> \<not> rb_head r + 1 < N then Panics
      else
        let r = (if space_to_end < needed
                 then r\<lparr>rb_buf := (rb_buf r)[rb_head r := 0, rb_head r + 1 := 0]\<rparr> else r);
            head = (if space_to_end < needed then 0 else rb_head r)
        in if rb_count r > 0 \<and> head < rb_tail r \<and> head + needed > rb_tail r then Returns (False, r)
           else
             let len = of_nat (length data) :: u16;
                 buf = (rb_buf r)[head := ucast (drop_bit 8 len), head + 1 := ucast len];
                 buf = blit buf (head + LEN_SIZE) data;
                 head = head + needed;
                 head = (if head = N then 0 else head)
             in Returns (True, r\<lparr>rb_buf := buf, rb_head := head, rb_count := rb_count r + 1\<rparr>))"

text \<open>The reads index the array, so they panic outside it.\<close>

definition read_len :: "ring \<Rightarrow> nat \<Rightarrow> nat outcome" where
  "read_len r pos =
     (if pos + 1 < length (rb_buf r)
      then Returns (push_bit 8 (unat (rb_buf r ! pos)) OR unat (rb_buf r ! (pos + 1))) else Panics)"

definition skip_sentinel :: "ring \<Rightarrow> nat \<Rightarrow> nat" where
  "skip_sentinel r pos =
     (if pos + LEN_SIZE \<le> length (rb_buf r) \<and> read_len r pos = Returns 0 \<and> pos \<noteq> rb_head r then 0 else pos)"

definition front :: "ring \<Rightarrow> bytes option outcome" where
  "front r =
     (if rb_count r = 0 then Returns None
      else let tail = skip_sentinel r (rb_tail r) in
        case read_len r tail of
          Panics \<Rightarrow> Panics
        | Returns len \<Rightarrow>
            (if length (rb_buf r) < tail + LEN_SIZE + len then Panics
             else Returns (Some (bslice (rb_buf r) (tail + LEN_SIZE) len))))"

definition pop :: "ring \<Rightarrow> ring outcome" where
  "pop r =
     (if rb_count r = 0 then Returns r
      else let tail = skip_sentinel r (rb_tail r) in
        case read_len r tail of
          Panics \<Rightarrow> Panics
        | Returns len \<Rightarrow>
            (let tail = tail + LEN_SIZE + len;
                 tail = (if tail = length (rb_buf r) then 0 else tail);
                 r = r\<lparr>rb_tail := tail, rb_count := rb_count r - 1\<rparr>
             in Returns (if rb_count r = 0 then r\<lparr>rb_head := 0, rb_tail := 0\<rparr> else r)))"

text \<open>The eviction loop of front drop, which ends once a push succeeds.\<close>

partial_function (option) push_evicting :: "bytes \<Rightarrow> nat \<Rightarrow> ring \<Rightarrow> (bool \<times> ring) outcome option" where
  "push_evicting data needed r =
     (case try_push data needed r of
        Panics \<Rightarrow> Some Panics
      | Returns (ok, r') \<Rightarrow>
          (if ok then Some (Returns (True, r'))
           else case pop r' of Panics \<Rightarrow> Some Panics | Returns r'' \<Rightarrow> push_evicting data needed r''))"

definition push :: "bytes \<Rightarrow> ring \<Rightarrow> (bool \<times> ring) outcome option" where
  "push data r =
     (let needed = LEN_SIZE + length data in
      if needed > length (rb_buf r) then Some (Returns (False, r))
      else if rb_front_drop r then push_evicting data needed r
      else Some (try_push data needed r))"

definition ring_len :: "ring \<Rightarrow> nat" where "ring_len r = rb_count r"

definition ring_is_empty :: "ring \<Rightarrow> bool" where "ring_is_empty r \<longleftrightarrow> rb_count r = 0"

section \<open>Stored packets\<close>

definition entry :: "bytes \<Rightarrow> bytes" where
  "entry p = be16_of (of_nat (length p)) @ p"

definition entries :: "bytes list \<Rightarrow> bytes" where
  "entries ps = concat (map entry ps)"

definition stores :: "bytes \<Rightarrow> nat \<Rightarrow> bytes \<Rightarrow> bool" where
  "stores buf pos bs \<longleftrightarrow> pos + length bs \<le> length buf \<and> bslice buf pos (length bs) = bs"

lemma length_entry [simp]: "length (entry p) = 2 + length p"
  by (simp add: entry_def)

lemma entries_simps [simp]: "entries [] = []" "entries (p # ps) = entry p @ entries ps"
  "entries (ps @ qs) = entries ps @ entries qs"
  by (simp_all add: entries_def)

lemma stores_Nil [simp]: "stores buf pos [] \<longleftrightarrow> pos \<le> length buf"
  by (simp add: stores_def)

lemma stores_append [simp]:
  "stores buf pos (xs @ ys) \<longleftrightarrow> stores buf pos xs \<and> stores buf (pos + length xs) ys"
proof -
  have "bslice buf pos (length xs + length ys) = bslice buf pos (length xs) @ bslice buf (pos + length xs) (length ys)"
    by (simp add: bslice_def take_add add.commute)
  then show ?thesis by (auto simp: stores_def append_eq_append_conv)
qed

lemma stores_blit: "pos + length xs \<le> length buf \<Longrightarrow> stores (blit buf pos xs) pos xs"
  by (simp add: stores_def)

lemma stores_blit_other:
  "stores buf pos xs \<Longrightarrow> off + length ys \<le> length buf \<Longrightarrow> off + length ys \<le> pos \<or> pos + length xs \<le> off \<Longrightarrow>
     stores (blit buf off ys) pos xs"
  by (auto simp: stores_def)


lemma read_entry:
  assumes "stores buf pos (entry p)" "length p < 65536"
  shows "pos + 1 < length buf" and "push_bit 8 (unat (buf ! pos)) OR unat (buf ! (pos + 1)) = length p"
    and "bslice buf (pos + 2) (length p) = p" and "pos + 2 + length p \<le> length buf"
proof -
  let ?l = "of_nat (length p) :: u16"
  show pos: "pos + 2 + length p \<le> length buf" using assms(1) by (simp add: stores_def)
  then show "pos + 1 < length buf" by simp
  have s: "stores buf pos [ucast (drop_bit 8 ?l), ucast ?l]" "stores buf (pos + 2) p"
    using assms(1) stores_append [of buf pos "be16_of ?l" p] by (simp_all add: entry_def be16_of_def)
  then show "bslice buf (pos + 2) (length p) = p" by (simp add: stores_def)
  have "buf ! pos = ucast (drop_bit 8 ?l)" "buf ! (pos + 1) = ucast ?l"
    using s(1) nth_take [of 0 2 "drop pos buf"] nth_take [of 1 2 "drop pos buf"]
    by (auto simp: stores_def bslice_def numeral_2_eq_2)
  moreover have "push_bit 8 (unat (ucast (drop_bit 8 w) :: u8)) OR unat (ucast w :: u8) = unat w" for w :: u16
    by (rule bit_eqI) (auto simp: bit_simps bit_unsigned_iff dest: bit_imp_le_length)
  ultimately show "push_bit 8 (unat (buf ! pos)) OR unat (buf ! (pos + 1)) = length p"
    using assms(2) by (simp add: unat_of_nat)
qed

lemma write_entry:
  assumes "pos + 2 + length p \<le> length buf"
  shows "blit (buf[pos := ucast (drop_bit 8 (of_nat (length p) :: u16)), pos + 1 := ucast (of_nat (length p) :: u16)]) (pos + 2) p
    = blit buf pos (entry p)"
proof -
  let ?a = "ucast (drop_bit 8 (of_nat (length p) :: u16)) :: u8" and ?b = "ucast (of_nat (length p) :: u16) :: u8"
  have "buf[pos := ?a, pos + 1 := ?b] = blit (blit buf pos [?a]) (pos + 1) [?b]"
    using assms by (simp add: list_update_blit)
  also have "\<dots> = blit buf pos [?a, ?b]" using assms by (simp add: blit_blit_next)
  finally show ?thesis using assms by (simp add: blit_blit_next entry_def be16_of_def)
qed

section \<open>Representation\<close>

text \<open>
  The packets lie in one run from \<open>tail\<close> to \<open>head\<close>, or they are wrapped: a first run from
  \<open>tail\<close> to \<open>e\<close>, which is the end of the buffer or the mark of the gap, and a second run from
  the start to \<open>head\<close>.
\<close>

definition linear :: "ring \<Rightarrow> bytes list \<Rightarrow> bool" where
  "linear r ps \<longleftrightarrow> rb_tail r < rb_head r \<and> rb_head r < length (rb_buf r) \<and>
     rb_head r = rb_tail r + length (entries ps) \<and> stores (rb_buf r) (rb_tail r) (entries ps)"

definition wrapped :: "ring \<Rightarrow> bytes list \<Rightarrow> bytes list \<Rightarrow> nat \<Rightarrow> bool" where
  "wrapped r ps qs e \<longleftrightarrow> rb_head r < rb_tail r \<and> rb_tail r < length (rb_buf r) \<and>
     e = rb_tail r + length (entries ps) \<and> stores (rb_buf r) (rb_tail r) (entries ps) \<and>
     rb_head r = length (entries qs) \<and> stores (rb_buf r) 0 (entries qs) \<and>
     (e = length (rb_buf r) \<or> qs \<noteq> [] \<and> stores (rb_buf r) e [0, 0])"

definition holds_packets :: "ring \<Rightarrow> bytes list \<Rightarrow> bool" where
  "holds_packets r ps \<longleftrightarrow>
     rb_count r = length ps \<and> (\<forall>p\<in>set ps. p \<noteq> [] \<and> length p < 65536) \<and>
     (if ps = [] then rb_head r = 0 \<and> rb_tail r = 0
      else linear r ps \<or> (\<exists>ps1 ps2 e. ps = ps1 @ ps2 \<and> wrapped r ps1 ps2 e))"

lemma holds_linearI:
  "linear r ps \<Longrightarrow> ps \<noteq> [] \<Longrightarrow> rb_count r = length ps \<Longrightarrow> \<forall>p\<in>set ps. p \<noteq> [] \<and> length p < 65536 \<Longrightarrow> holds_packets r ps"
  by (simp add: holds_packets_def)

lemma holds_wrappedI:
  "wrapped r ps1 ps2 e \<Longrightarrow> ps = ps1 @ ps2 \<Longrightarrow> ps \<noteq> [] \<Longrightarrow> rb_count r = length ps \<Longrightarrow>
     \<forall>p\<in>set ps. p \<noteq> [] \<and> length p < 65536 \<Longrightarrow> holds_packets r ps"
  unfolding holds_packets_def by (metis)

lemma holds_new [simp]: "holds_packets (RingBuffer_new N) []" "holds_packets (with_front_drop N) []"
  by (simp_all add: holds_packets_def RingBuffer_new_def with_front_drop_def)

text \<open>Where the oldest packet is found.\<close>

lemma first_packet:
  assumes "holds_packets r (p # ps)"
  shows "\<exists>t. skip_sentinel r (rb_tail r) = t \<and> stores (rb_buf r) t (entry p) \<and> length p < 65536 \<and> p \<noteq> [] \<and>
    (t = rb_tail r \<and> linear r (p # ps) \<or>
     t = rb_tail r \<and> (\<exists>ps1 ps2 e. ps = ps1 @ ps2 \<and> wrapped r (p # ps1) ps2 e) \<or>
     t = 0 \<and> rb_head r = length (entries (p # ps)) \<and> rb_head r < length (rb_buf r) \<and> stores (rb_buf r) 0 (entries (p # ps)))"
proof -
  have p: "length p < 65536" "p \<noteq> []" using assms by (auto simp: holds_packets_def)
  have stay: "skip_sentinel r t = t" if "stores (rb_buf r) t (entry p)" for t
    using read_entry [OF that p(1)] p(2) by (auto simp: skip_sentinel_def read_len_def)
  consider "linear r (p # ps)" | ps1 ps2 e where "p # ps = ps1 @ ps2" "wrapped r ps1 ps2 e"
    using assms by (auto simp: holds_packets_def)
  then show ?thesis
  proof cases
    case 1
    then have "stores (rb_buf r) (rb_tail r) (entry p)" by (simp add: linear_def)
    then show ?thesis using stay 1 p by blast
  next
    case 2
    show ?thesis
    proof (cases ps1)
      case Nil
      then have "stores (rb_buf r) (rb_tail r) [0, 0]" and "ps2 = p # ps" and "rb_tail r \<noteq> rb_head r"
        using 2 by (auto simp: wrapped_def)
      then have "skip_sentinel r (rb_tail r) = 0"
        using nth_take [of 0 2 "drop (rb_tail r) (rb_buf r)"] nth_take [of 1 2 "drop (rb_tail r) (rb_buf r)"]
        by (auto simp: skip_sentinel_def read_len_def stores_def bslice_def LEN_SIZE_def numeral_2_eq_2)
      then show ?thesis using 2 Nil p \<open>ps2 = p # ps\<close> by (auto simp: wrapped_def)
    next
      case (Cons p' ps')
      then have "p' = p" "ps = ps' @ ps2" using 2(1) by auto
      then have "stores (rb_buf r) (rb_tail r) (entry p)" using 2(2) Cons by (simp add: wrapped_def)
      then show ?thesis using stay 2 Cons \<open>p' = p\<close> \<open>ps = ps' @ ps2\<close> p by blast
    qed
  qed
qed

lemma front_eq: "holds_packets r ps \<Longrightarrow> front r = Returns (case ps of [] \<Rightarrow> None | p # _ \<Rightarrow> Some p)"
proof (cases ps)
  case (Cons p ps')
  assume h: "holds_packets r ps"
  then obtain t where t: "skip_sentinel r (rb_tail r) = t" "stores (rb_buf r) t (entry p)" "length p < 65536"
    using first_packet [of r p ps'] Cons by blast
  then show ?thesis
    using h Cons read_entry [OF t(2,3)] by (auto simp: front_def read_len_def holds_packets_def LEN_SIZE_def)
qed (simp add: front_def holds_packets_def)

lemma entries_pos: "ps \<noteq> [] \<Longrightarrow> 0 < length (entries ps)"
  by (cases ps) auto

lemma pop_eq:
  assumes "holds_packets r (p # ps)"
  shows "\<exists>r'. pop r = Returns r' \<and> holds_packets r' ps \<and> length (rb_buf r') = length (rb_buf r) \<and> rb_front_drop r' = rb_front_drop r"
proof -
  obtain t where t: "skip_sentinel r (rb_tail r) = t" "stores (rb_buf r) t (entry p)" "length p < 65536"
    and shape: "t = rb_tail r \<and> linear r (p # ps) \<or>
      t = rb_tail r \<and> (\<exists>ps1 ps2 e. ps = ps1 @ ps2 \<and> wrapped r (p # ps1) ps2 e) \<or>
      t = 0 \<and> rb_head r = length (entries (p # ps)) \<and> rb_head r < length (rb_buf r) \<and> stores (rb_buf r) 0 (entries (p # ps))"
    using first_packet [OF assms] by blast
  define tl where "tl = (if t + 2 + length p = length (rb_buf r) then 0 else t + 2 + length p)"
  have count: "rb_count r = Suc (length ps)" and small: "\<forall>q\<in>set ps. q \<noteq> [] \<and> length q < 65536"
    using assms by (auto simp: holds_packets_def)
  have pop: "pop r = Returns (if ps = [] then r\<lparr>rb_tail := 0, rb_count := 0, rb_head := 0\<rparr>
      else r\<lparr>rb_tail := tl, rb_count := length ps\<rparr>)"
    using read_entry [OF t(2,3)] t(1) count by (simp add: pop_def read_len_def LEN_SIZE_def tl_def Let_def)
  show ?thesis
  proof (cases "ps = []")
    case True
    then show ?thesis using pop by (simp add: holds_packets_def)
  next
    case False
    let ?r = "r\<lparr>rb_tail := tl, rb_count := length ps\<rparr>"
    have pos: "0 < length (entries ps)" using False by (rule entries_pos)
    have "linear ?r ps \<or> (\<exists>ps1 ps2 e. ps = ps1 @ ps2 \<and> wrapped ?r ps1 ps2 e)"
      using shape
    proof (elim disjE conjE exE)
      fix ps1 ps2 e
      assume "t = rb_tail r" "ps = ps1 @ ps2" and w: "wrapped r (p # ps1) ps2 e"
      show ?thesis
      proof (cases "t + 2 + length p = length (rb_buf r)")
        case True
        have "t + (2 + length p + length (entries ps1)) \<le> length (rb_buf r)"
          using w \<open>t = rb_tail r\<close> by (simp add: wrapped_def stores_def)
        then have "length (entries ps1) = 0" using True by linarith
        then have "entries ps1 = []" by simp
        then have "ps1 = []" by (cases ps1) (auto simp: entry_def be16_of_def)
        then have "linear ?r ps" using w pos True \<open>ps = ps1 @ ps2\<close> by (auto simp: linear_def wrapped_def tl_def)
        then show ?thesis ..
      next
        case False
        then have "wrapped ?r ps1 ps2 e"
          using w \<open>t = rb_tail r\<close> read_entry(4) [OF t(2,3)]
          by (auto simp: wrapped_def tl_def add.commute add.left_commute)
        then show ?thesis using \<open>ps = ps1 @ ps2\<close> by blast
      qed
    qed (use pos in \<open>auto simp: linear_def tl_def add.commute add.left_commute\<close>)
    then show ?thesis using pop False small by (simp add: holds_packets_def)
  qed
qed

section \<open>Pushing\<close>

text \<open>
  \<open>fits\<close> is when a push is accepted. \<open>push_ok\<close> is when the ring can take it, or refuse it,
  safely: the packet is not empty and its length fits in two bytes; it does not fill the
  free space to the last byte, after which \<open>head = tail\<close>; the mark of the gap has room; and
  packets that are already wrapped need not be wrapped again.
\<close>

definition fits :: "bytes \<Rightarrow> ring \<Rightarrow> bool" where
  "fits data r \<longleftrightarrow>
     (let needed = 2 + length data; N = length (rb_buf r) in
      needed \<le> N \<and>
      (rb_count r = 0 \<or>
       (if rb_tail r < rb_head r then rb_head r + needed \<le> N \<or> needed < rb_tail r
        else rb_head r + needed < rb_tail r)))"

definition push_ok :: "bytes \<Rightarrow> ring \<Rightarrow> bool" where
  "push_ok data r \<longleftrightarrow>
     (let needed = 2 + length data; N = length (rb_buf r) in
      data \<noteq> [] \<and> length data < 65536 \<and>
      (N < needed \<or>
       (if rb_count r = 0 then needed \<noteq> N
        else if rb_tail r < rb_head r
        then (if rb_head r + needed \<le> N then rb_head r + needed \<noteq> N \<or> rb_tail r \<noteq> 0
              else needed \<noteq> rb_tail r \<and> (needed < rb_tail r \<longrightarrow> rb_head r + 1 < N))
        else rb_head r + needed \<le> N \<and> rb_head r + needed \<noteq> rb_tail r)))"

lemma try_push_refused:
  assumes "holds_packets r ps" "push_ok data r" "\<not> fits data r" "2 + length data \<le> length (rb_buf r)"
  shows "try_push data (2 + length data) r = Returns (False, r)"
proof (cases "ps = []")
  case True
  then show ?thesis using assms by (simp add: holds_packets_def fits_def)
next
  case False
  then have "rb_count r \<noteq> 0" "rb_tail r < rb_head r \<or> rb_head r < rb_tail r" "rb_head r < length (rb_buf r)"
    using assms(1) by (auto simp: holds_packets_def linear_def wrapped_def)
  then show ?thesis
    using assms(2-4) by (auto simp: try_push_def fits_def push_ok_def Let_def split: if_splits)
qed

lemma try_push_appended:
  assumes "rb_head r + (2 + length data) \<le> length (rb_buf r)"
    and "rb_count r > 0 \<and> rb_head r < rb_tail r \<Longrightarrow> rb_head r + (2 + length data) \<le> rb_tail r"
  shows "try_push data (2 + length data) r =
    (let h = rb_head r + (2 + length data) in
     Returns (True, r\<lparr>rb_buf := blit (rb_buf r) (rb_head r) (entry data),
       rb_head := (if h = length (rb_buf r) then 0 else h), rb_count := rb_count r + 1\<rparr>))"
  using assms write_entry [of "rb_head r" data "rb_buf r"]
  by (auto simp: try_push_def Let_def LEN_SIZE_def)

lemma try_push_wrapping:
  assumes "length (rb_buf r) - rb_head r < 2 + length data" "rb_count r > 0" "rb_tail r \<le> rb_head r"
    and "2 + length data < rb_tail r" "rb_head r + 1 < length (rb_buf r)"
  shows "try_push data (2 + length data) r =
    Returns (True, r\<lparr>rb_buf := blit (blit (rb_buf r) (rb_head r) [0, 0]) 0 (entry data),
       rb_head := 2 + length data, rb_count := rb_count r + 1\<rparr>)"
proof -
  have "(rb_buf r)[rb_head r := 0, rb_head r + 1 := 0] = blit (rb_buf r) (rb_head r) [0, 0]"
    using assms(5) by (simp add: list_update_blit blit_blit_next)
  then show ?thesis
    using assms write_entry [of 0 data "blit (rb_buf r) (rb_head r) [0, 0]"]
    by (auto simp: try_push_def Let_def LEN_SIZE_def)
qed

lemma try_push_accepted:
  assumes h: "holds_packets r ps" and ok: "push_ok data r" and fits: "fits data r"
  shows "\<exists>r'. try_push data (2 + length data) r = Returns (True, r') \<and> holds_packets r' (ps @ [data])
     \<and> length (rb_buf r') = length (rb_buf r) \<and> rb_front_drop r' = rb_front_drop r"
proof -
  let ?n = "2 + length data" and ?N = "length (rb_buf r)"
  have needed: "?n \<le> ?N" using fits by (simp add: fits_def Let_def)
  have data: "data \<noteq> []" "length data < 65536" using ok by (simp_all add: push_ok_def Let_def)
  have small: "rb_count r = length ps" "\<forall>q\<in>set ps. q \<noteq> [] \<and> length q < 65536" using h by (auto simp: holds_packets_def)
  consider (empty) "ps = []" "rb_head r = 0" "rb_tail r = 0" "?n < ?N"
    | (linear) "ps \<noteq> []" "linear r ps" "rb_head r + ?n \<le> ?N" "rb_head r + ?n \<noteq> ?N \<or> rb_tail r \<noteq> 0"
    | (wrap) "ps \<noteq> []" "linear r ps" "\<not> rb_head r + ?n \<le> ?N" "?n < rb_tail r" "rb_head r + 1 < ?N"
    | (wrapped) ps1 ps2 e where "ps \<noteq> []" "ps = ps1 @ ps2" "wrapped r ps1 ps2 e" "rb_head r + ?n < rb_tail r"
    using h ok fits needed
    by (cases "ps = []") (fastforce simp: holds_packets_def push_ok_def fits_def Let_def linear_def wrapped_def split: if_splits)+
  then show ?thesis
  proof cases
    case empty
    then have "linear (r\<lparr>rb_buf := blit (rb_buf r) 0 (entry data), rb_head := ?n, rb_count := rb_count r + 1\<rparr>) [data]"
      using stores_blit [of 0 "entry data" "rb_buf r"] by (simp add: linear_def)
    then show ?thesis using empty try_push_appended [of r data] data small by (simp add: holds_packets_def Let_def)
  next
    case linear
    let ?buf = "blit (rb_buf r) (rb_head r) (entry data)" and ?h = "if rb_head r + ?n = ?N then 0 else rb_head r + ?n"
    let ?r = "r\<lparr>rb_buf := ?buf, rb_head := ?h, rb_count := rb_count r + 1\<rparr>"
    have st: "stores ?buf (rb_tail r) (entries (ps @ [data]))"
      using linear stores_blit [of "rb_head r" "entry data" "rb_buf r"]
        stores_blit_other [of "rb_buf r" "rb_tail r" "entries ps" "rb_head r" "entry data"]
      by (simp add: linear_def)
    have "linear ?r (ps @ [data]) \<or> wrapped ?r (ps @ [data]) [] ?N"
      using linear st by (auto simp: linear_def wrapped_def)
    then have "holds_packets ?r (ps @ [data])"
      using holds_linearI [of ?r "ps @ [data]"] holds_wrappedI [of ?r "ps @ [data]" "[]" ?N] small data by auto
    moreover have "try_push data ?n r = Returns (True, ?r)"
      using linear try_push_appended [of r data] by (simp add: linear_def Let_def)
    ultimately show ?thesis using linear by (auto simp: linear_def)
  next
    case wrap
    let ?buf = "blit (blit (rb_buf r) (rb_head r) [0, 0]) 0 (entry data)"
    let ?r = "r\<lparr>rb_buf := ?buf, rb_head := ?n, rb_count := rb_count r + 1\<rparr>"
    have "stores ?buf (rb_tail r) (entries ps)"
      using wrap by (intro stores_blit_other) (auto simp: linear_def)
    moreover have "stores ?buf (rb_head r) [0, 0]"
      using wrap by (intro stores_blit_other stores_blit) (auto simp: linear_def)
    moreover have "stores ?buf 0 (entries [data])"
      using wrap needed stores_blit [of 0 "entry data" "blit (rb_buf r) (rb_head r) [0, 0]"] by (simp add: linear_def)
    ultimately have "wrapped ?r ps [data] (rb_head r)" using wrap by (auto simp: linear_def wrapped_def)
    then have "holds_packets ?r (ps @ [data])"
      using holds_wrappedI [of ?r ps "[data]"] small data by auto
    moreover have "try_push data ?n r = Returns (True, ?r)"
      using wrap small by (intro try_push_wrapping) (auto simp: linear_def)
    ultimately show ?thesis using wrap needed by (auto simp: linear_def)
  next
    case wrapped
    let ?buf = "blit (rb_buf r) (rb_head r) (entry data)"
    let ?r = "r\<lparr>rb_buf := ?buf, rb_head := rb_head r + ?n, rb_count := rb_count r + 1\<rparr>"
    have "stores ?buf (rb_tail r) (entries ps1)" "stores ?buf 0 (entries ps2)"
      using wrapped by (auto intro!: stores_blit_other simp: wrapped_def)
    moreover have "stores ?buf (rb_head r) (entry data)" using wrapped by (intro stores_blit) (auto simp: wrapped_def)
    moreover have "e \<noteq> ?N \<Longrightarrow> stores ?buf e [0, 0]"
      using wrapped by (intro stores_blit_other) (auto simp: wrapped_def)
    ultimately have "wrapped ?r ps1 (ps2 @ [data]) e" using wrapped by (auto simp: wrapped_def)
    then have "holds_packets ?r (ps @ [data])"
      using holds_wrappedI [of ?r ps1 "ps2 @ [data]" e] wrapped(2) small data by auto
    moreover have "try_push data ?n r = Returns (True, ?r)"
      using wrapped try_push_appended [of r data] by (simp add: wrapped_def Let_def)
    ultimately show ?thesis using wrapped by (auto simp: wrapped_def)
  qed
qed

lemma push_eq:
  assumes "holds_packets r ps" "push_ok data r" "\<not> rb_front_drop r"
  shows "\<exists>r'. push data r = Some (Returns (fits data r, r')) \<and> holds_packets r' (if fits data r then ps @ [data] else ps)
     \<and> \<not> rb_front_drop r'"
proof (cases "length (rb_buf r) < 2 + length data")
  case True
  then show ?thesis using assms by (simp add: push_def fits_def LEN_SIZE_def Let_def)
next
  case False
  then show ?thesis
    using assms try_push_accepted [OF assms(1,2)] try_push_refused [OF assms(1,2)]
    by (cases "fits data r") (auto simp: push_def LEN_SIZE_def Let_def)
qed

text \<open>Whatever the state, a push returns or panics: each eviction removes a packet.\<close>

lemma try_push_empty: "rb_count r = 0 \<Longrightarrow> try_push data needed r \<noteq> Returns (False, r')"
  by (auto simp: try_push_def Let_def split: if_splits)

lemma try_push_keeps_count: "try_push data needed r = Returns (False, r') \<Longrightarrow> rb_count r' = rb_count r"
  by (auto simp: try_push_def Let_def split: if_splits)

lemma pop_count: "pop r = Returns r' \<Longrightarrow> rb_count r' = rb_count r - 1"
  by (auto simp: pop_def Let_def split: if_splits outcome.splits)

lemma push_evicting_ends: "push_evicting data needed r \<noteq> None"
proof (induction "rb_count r" arbitrary: r rule: less_induct)
  case less
  show ?case
  proof (cases "\<exists>r' r''. try_push data needed r = Returns (False, r') \<and> pop r' = Returns r''")
    case True
    then obtain r' r'' where t: "try_push data needed r = Returns (False, r')" "pop r' = Returns r''" by blast
    then have "rb_count r \<noteq> 0" using try_push_empty by metis
    then have "rb_count r'' < rb_count r" using pop_count [OF t(2)] try_push_keeps_count [OF t(1)] by simp
    then show ?thesis using less t by (subst push_evicting.simps) simp
  next
    case False
    then show ?thesis by (subst push_evicting.simps) (auto split: outcome.splits)
  qed
qed

theorem push_ends: "\<exists>res. push data r = Some res"
  using push_evicting_ends by (auto simp: push_def Let_def)

section \<open>The contract of a queue\<close>

text \<open>A run of operations: the packets accepted, the packets removed, and the queue.\<close>

datatype queue_op = Push bytes | Pop

fun queue_run :: "(bytes \<Rightarrow> 'q \<Rightarrow> (bool \<times> 'q) outcome option) \<Rightarrow> ('q \<Rightarrow> bytes option outcome) \<Rightarrow>
    ('q \<Rightarrow> 'q outcome) \<Rightarrow> queue_op list \<Rightarrow> 'q \<Rightarrow> bytes list \<Rightarrow> bytes list \<Rightarrow>
    (bytes list \<times> bytes list \<times> 'q) outcome option" where
  "queue_run enq peek deq [] q a b = Some (Returns (a, b, q))"
| "queue_run enq peek deq (Push d # ops) q a b =
     (case enq d q of
        None \<Rightarrow> None
      | Some Panics \<Rightarrow> Some Panics
      | Some (Returns (v, q')) \<Rightarrow> queue_run enq peek deq ops q' (if v then a @ [d] else a) b)"
| "queue_run enq peek deq (Pop # ops) q a b =
     (case peek q of
        Panics \<Rightarrow> Some Panics
      | Returns p \<Rightarrow>
          (case deq q of
             Panics \<Rightarrow> Some Panics
           | Returns q' \<Rightarrow> queue_run enq peek deq ops q' a (case p of None \<Rightarrow> b | Some x \<Rightarrow> b @ [x])))"

fun run_ok :: "(bytes \<Rightarrow> 'q \<Rightarrow> (bool \<times> 'q) outcome option) \<Rightarrow> ('q \<Rightarrow> 'q outcome) \<Rightarrow> (bytes \<Rightarrow> 'q \<Rightarrow> bool) \<Rightarrow>
    queue_op list \<Rightarrow> 'q \<Rightarrow> bool" where
  "run_ok enq deq ok [] q = True"
| "run_ok enq deq ok (Push d # ops) q =
     (ok d q \<and> (case enq d q of Some (Returns (_, q')) \<Rightarrow> run_ok enq deq ok ops q' | _ \<Rightarrow> False))"
| "run_ok enq deq ok (Pop # ops) q = (case deq q of Returns q' \<Rightarrow> run_ok enq deq ok ops q' | Panics \<Rightarrow> False)"

text \<open>
  What the router relies on: \<open>enq\<close> appends or refuses, \<open>peek\<close> shows the oldest packet, \<open>deq\<close>
  removes it. \<open>holds\<close> relates a queue to its packets and \<open>ok\<close> is the precondition of \<open>enq\<close>.
\<close>

locale packet_queue =
  fixes holds :: "'q \<Rightarrow> bytes list \<Rightarrow> bool" and ok acc :: "bytes \<Rightarrow> 'q \<Rightarrow> bool"
    and enq :: "bytes \<Rightarrow> 'q \<Rightarrow> (bool \<times> 'q) outcome option" and peek :: "'q \<Rightarrow> bytes option outcome"
    and deq :: "'q \<Rightarrow> 'q outcome"
  assumes enq: "holds q ps \<Longrightarrow> ok d q \<Longrightarrow>
      \<exists>q'. enq d q = Some (Returns (acc d q, q')) \<and> holds q' (if acc d q then ps @ [d] else ps)"
    and peek: "holds q ps \<Longrightarrow> peek q = Returns (case ps of [] \<Rightarrow> None | p # _ \<Rightarrow> Some p)"
    and deq: "holds q ps \<Longrightarrow> \<exists>q'. deq q = Returns q' \<and> holds q' (tl ps)"
begin

lemma run_fifo:
  "holds q ps \<Longrightarrow> run_ok enq deq ok ops q \<Longrightarrow> a = b @ ps \<Longrightarrow>
     \<exists>a' b' q' ps'. queue_run enq peek deq ops q a b = Some (Returns (a', b', q')) \<and> holds q' ps' \<and> a' = b' @ ps'"
proof (induction ops arbitrary: q ps a b)
  case (Cons op ops)
  show ?case
  proof (cases op)
    case (Push d)
    then have "ok d q" using Cons.prems(2) by simp
    then obtain q' where "enq d q = Some (Returns (acc d q, q'))" "holds q' (if acc d q then ps @ [d] else ps)"
      using enq [OF Cons.prems(1)] by blast
    then show ?thesis using Cons.IH [of q'] Cons.prems Push by auto
  next
    case Pop
    obtain q' where "deq q = Returns q'" "holds q' (tl ps)" using deq [OF Cons.prems(1)] by blast
    then show ?thesis using Cons.IH [of q' "tl ps" a] Cons.prems Pop peek [OF Cons.prems(1)] by (cases ps) auto
  qed
qed simp

end

interpretation rq: packet_queue "\<lambda>r ps. holds_packets r ps \<and> \<not> rb_front_drop r" push_ok fits push front pop
proof
  fix r ps d assume "holds_packets r ps \<and> \<not> rb_front_drop r" "push_ok d r"
  then show "\<exists>r'. push d r = Some (Returns (fits d r, r')) \<and>
      holds_packets r' (if fits d r then ps @ [d] else ps) \<and> \<not> rb_front_drop r'"
    using push_eq [of r ps d] by blast
next
  fix r ps assume h: "holds_packets r ps \<and> \<not> rb_front_drop r"
  then show "front r = Returns (case ps of [] \<Rightarrow> None | p # _ \<Rightarrow> Some p)" using front_eq by blast
  show "\<exists>r'. pop r = Returns r' \<and> holds_packets r' (tl ps) \<and> \<not> rb_front_drop r'"
  proof (cases ps)
    case Nil
    then have "pop r = Returns r" using h by (simp add: pop_def holds_packets_def)
    then show ?thesis using h Nil by simp
  next
    case (Cons p ps')
    then show ?thesis using h pop_eq [of r p ps'] by auto
  qed
qed

section \<open>The ring as a queue\<close>


lemma replicate_numeral: "replicate (numeral n) x = x # replicate (numeral n - 1) x"
  by (metis Suc_pred' replicate_Suc zero_less_numeral One_nat_def)

lemmas ring_eval = push_def try_push_def front_def pop_def read_len_def skip_sentinel_def LEN_SIZE_def
  RingBuffer_new_def Let_def blit_def bslice_def replicate_numeral



end
