(* ===== verification/Sdls.thy ===== *)
theory Sdls
  imports Wire
begin

text \<open>
  Space data link security (\<open>datalink/security/mod.rs\<close>, \<open>datalink/security/sdls/mod.rs\<close>,
  \<open>security_header.rs\<close>): security associations, the security header and trailer, protection of
  a frame by the sender and its verification by the receiver, with the check of the
  anti-replay sequence number. The cryptographic backend is a parameter, as it is a trait in
  the code; \<open>ClearModeCrypto\<close> is the code's own instance. Lengths of one byte are natural
  numbers, and so are the 64-bit sequence numbers, with their wrap-around.
\<close>

section \<open>Security associations\<close>

definition MAX_MAC_SIZE :: nat where "MAX_MAC_SIZE = 64"

definition MAX_IV_SIZE :: nat where "MAX_IV_SIZE = 32"

definition MAX_SN_SIZE :: nat where "MAX_SN_SIZE = 8"

datatype ServiceType = Authentication | Encryption | AuthenticatedEncryption

record SecurityAssociation =
  sa_spi :: u16
  service_type :: ServiceType
  iv_len :: nat
  sn_len :: nat
  pl_len :: nat
  mac_len :: nat
  sequence_number :: nat
  sequence_window :: nat
  auth_mask :: bytes

definition header_size :: "SecurityAssociation \<Rightarrow> nat" where
  "header_size sa = 2 + iv_len sa + sn_len sa + pl_len sa"

definition trailer_size :: "SecurityAssociation \<Rightarrow> nat" where
  "trailer_size sa = mac_len sa"

definition sdls_overhead :: "SecurityAssociation \<Rightarrow> nat" where
  "sdls_overhead sa = header_size sa + trailer_size sa"

datatype SdlsError =
    ReservedSpi u16 | UnknownSpi u16 | SdlsBufferTooSmall nat nat | FrameTooShort
  | MacVerificationFailed | SequenceNumberRejected nat nat | PaddingError | CryptoError
  | InvalidProcedure | UnknownKeyId u16 | DuplicateKeyId | KeyRingFull | InvalidKeyLength
  | InvalidKeyState | InvalidSaState | DuplicateSpi u16 | SaTableFull

section \<open>The cryptographic backend\<close>

text \<open>
  The operations work in place on slices, so each returns its slices as well: \<open>encrypt\<close> the
  data and the tag, \<open>decrypt\<close> the data, \<open>compute_mac\<close> the code.
\<close>

record CryptoProvider =
  encrypt :: "SecurityAssociation \<Rightarrow> bytes \<Rightarrow> bytes \<Rightarrow> bytes \<Rightarrow> bytes \<Rightarrow> (SdlsError + nat) \<times> bytes \<times> bytes"
  decrypt :: "SecurityAssociation \<Rightarrow> bytes \<Rightarrow> bytes \<Rightarrow> bytes \<Rightarrow> bytes \<Rightarrow> (SdlsError + nat) \<times> bytes"
  compute_mac :: "SecurityAssociation \<Rightarrow> bytes \<Rightarrow> bytes \<Rightarrow> bytes \<Rightarrow> (SdlsError + unit) \<times> bytes"

definition ClearModeCrypto :: CryptoProvider where
  "ClearModeCrypto =
     \<lparr>encrypt = (\<lambda>sa iv aad data tag_out. (Inr 0, data, tag_out)),
      decrypt = (\<lambda>sa iv aad data tag. (Inr 0, data)),
      compute_mac = (\<lambda>sa iv payload mac_out. (Inr (), blit mac_out 0 (replicate (mac_len sa) 0)))\<rparr>"

section \<open>The security header\<close>

definition reserved_spi :: "u16 \<Rightarrow> bool" where
  "reserved_spi spi \<longleftrightarrow> spi = 0 \<or> spi = 0xFFFF"

text \<open>Slices of \<open>iv\<close>, \<open>sn\<close> and of the two bytes of the pad length panic when they are too short.\<close>

definition write_security_header ::
  "SecurityAssociation \<Rightarrow> bytes \<Rightarrow> bytes \<Rightarrow> u16 \<Rightarrow> bytes \<Rightarrow> (SdlsError + nat \<times> bytes) outcome" where
  "write_security_header sa iv sn pad_len out =
     (let hdr_size = header_size sa in
      if length out < hdr_size then Returns (Inl (SdlsBufferTooSmall hdr_size (length out)))
      else if reserved_spi (sa_spi sa) then Returns (Inl (ReservedSpi (sa_spi sa)))
      else if length iv < iv_len sa \<or> length sn < sn_len sa \<or> 2 < pl_len sa then Panics
      else
        let out = blit out 0 (be16_of (sa_spi sa));
            out = blit out 2 (take (iv_len sa) iv);
            out = blit out (2 + iv_len sa) (take (sn_len sa) sn);
            out = blit out (2 + iv_len sa + sn_len sa) (drop (2 - pl_len sa) (be16_of pad_len))
        in Returns (Inr (2 + iv_len sa + sn_len sa + pl_len sa, out)))"

definition read_spi :: "bytes \<Rightarrow> SdlsError + u16" where
  "read_spi header_bytes =
     (if length header_bytes < 2 then Inl FrameTooShort
      else Inr (be16_to (header_bytes ! 0) (header_bytes ! 1)))"

record SecurityHeader =
  hdr_spi :: u16
  hdr_iv :: bytes
  hdr_sn :: bytes
  hdr_pl :: bytes

definition SecurityHeader_parse :: "SecurityAssociation \<Rightarrow> bytes \<Rightarrow> SdlsError + SecurityHeader" where
  "SecurityHeader_parse sa bs =
     (if length bs < header_size sa then Inl FrameTooShort
      else Inr \<lparr>hdr_spi = be16_to (bs ! 0) (bs ! 1),
                hdr_iv = bslice bs 2 (iv_len sa),
                hdr_sn = bslice bs (2 + iv_len sa) (sn_len sa),
                hdr_pl = bslice bs (2 + iv_len sa + sn_len sa) (pl_len sa)\<rparr>)"

definition parse_security_header :: "SecurityAssociation \<Rightarrow> bytes \<Rightarrow> SdlsError + SecurityHeader" where
  "parse_security_header sa header_bytes =
     (if length header_bytes < header_size sa then Inl FrameTooShort
      else SecurityHeader_parse sa header_bytes)"

text \<open>\<open>8 - len\<close> and \<open>2 - len\<close> wrap around for longer fields, and the slice then panics.\<close>

definition sequence_number_value :: "SecurityHeader \<Rightarrow> nat outcome" where
  "sequence_number_value h =
     (if 8 < length (hdr_sn h) then Panics
      else Returns (be_nat (blit (replicate 8 0) (8 - length (hdr_sn h)) (hdr_sn h))))"

definition pad_length :: "SecurityHeader \<Rightarrow> nat outcome" where
  "pad_length h =
     (let len = length (hdr_pl h) in
      if len = 0 then Returns 0
      else if 2 < len then Panics
      else Returns (be_nat (blit (replicate 2 0) (2 - len) (hdr_pl h))))"

definition SecurityTrailer_parse :: "SecurityAssociation \<Rightarrow> bytes \<Rightarrow> SdlsError + bytes" where
  "SecurityTrailer_parse sa bs =
     (if length bs < mac_len sa then Inl FrameTooShort else Inr (take (mac_len sa) bs))"

section \<open>Protecting a frame\<close>

text \<open>
  The initialization vector is the sequence number, right-aligned in \<open>iv_len\<close> bytes; the
  sequence number field its last \<open>sn_len\<close> bytes. Both panic when the field is wider than its
  buffer.
\<close>

definition make_iv :: "SecurityAssociation \<Rightarrow> bytes" where
  "make_iv sa =
     (let sn_bytes = nat_be 8 (sequence_number sa); start = 8 - iv_len sa;
          copy_len = min (iv_len sa) 8; iv_start = iv_len sa - 8
      in take (iv_len sa) (blit (replicate MAX_IV_SIZE 0) iv_start (bslice sn_bytes start copy_len)))"

definition make_sn :: "SecurityAssociation \<Rightarrow> bytes" where
  "make_sn sa =
     take (sn_len sa) (blit (replicate MAX_SN_SIZE 0) 0 (drop (8 - sn_len sa) (nat_be 8 (sequence_number sa))))"

definition masked_with :: "bytes \<Rightarrow> bytes \<Rightarrow> bytes" where
  "masked_with m bs = map2 (AND) bs (take (length bs) m)"

text \<open>What is authenticated: the bytes, under the mask if it is long enough.\<close>

definition auth_input :: "SecurityAssociation \<Rightarrow> bytes \<Rightarrow> bytes" where
  "auth_input sa bs = (if length bs \<le> length (auth_mask sa) then masked_with (auth_mask sa) bs else bs)"

text \<open>
  The masked header of authenticated encryption is built in an array of 256 bytes.
\<close>

definition aad_panics :: "SecurityAssociation \<Rightarrow> nat \<Rightarrow> bool" where
  "aad_panics sa data_start \<longleftrightarrow> data_start \<le> length (auth_mask sa) \<and> 256 < data_start"

text \<open>Codes are computed in an array of 64 bytes.\<close>

definition mac_panics :: "SecurityAssociation \<Rightarrow> bool" where
  "mac_panics sa \<longleftrightarrow> service_type sa \<noteq> Encryption \<and> MAX_MAC_SIZE < mac_len sa"

type_synonym secured = "((SdlsError + unit) \<times> SecurityAssociation \<times> bytes) outcome"

definition next_sn :: "SecurityAssociation \<Rightarrow> SecurityAssociation" where
  "next_sn sa = sa\<lparr>sequence_number := wrap64 (sequence_number sa + 1)\<rparr>"

definition protect_frame ::
  "SecurityAssociation \<Rightarrow> CryptoProvider \<Rightarrow> bytes \<Rightarrow> nat \<Rightarrow> nat \<Rightarrow> secured" where
  "protect_frame sa crypto frame data_start data_end =
     (let iv = make_iv sa; mac_buf = replicate (mac_len sa) 0 in
      case service_type sa of
        Authentication \<Rightarrow>
          (case compute_mac crypto sa iv (auth_input sa (take data_end frame)) mac_buf of
             (Inl e, mac) \<Rightarrow> Returns (Inl e, sa, frame)
           | (Inr u, mac) \<Rightarrow> Returns (Inr (), next_sn sa, blit frame data_end mac))
      | Encryption \<Rightarrow>
          (if data_end < data_start then Panics
           else case encrypt crypto sa iv [] (bslice frame data_start (data_end - data_start)) [] of
             (Inl e, d, t) \<Rightarrow> Returns (Inl e, sa, blit frame data_start d)
           | (Inr n, d, t) \<Rightarrow> Returns (Inr (), next_sn sa, blit frame data_start d))
      | AuthenticatedEncryption \<Rightarrow>
          (if data_end < data_start \<or> aad_panics sa data_start then Panics
           else case encrypt crypto sa iv (auth_input sa (take data_start frame))
                   (bslice frame data_start (data_end - data_start)) mac_buf of
             (Inl e, d, t) \<Rightarrow> Returns (Inl e, sa, blit frame data_start d)
           | (Inr n, d, t) \<Rightarrow> Returns (Inr (), next_sn sa, blit (blit frame data_start d) data_end t)))"

text \<open>
  \<open>data_end + mac_len\<close> wraps around in \<open>usize\<close> (64 bits), which the callers below can reach.
\<close>

definition apply_security ::
  "SecurityAssociation \<Rightarrow> CryptoProvider \<Rightarrow> bytes \<Rightarrow> nat \<Rightarrow> nat \<Rightarrow> nat \<Rightarrow> secured" where
  "apply_security sa crypto frame header_end data_start data_end =
     (if reserved_spi (sa_spi sa) then Returns (Inl (ReservedSpi (sa_spi sa)), sa, frame)
      else
        let trailer_end = wrap64 (data_end + mac_len sa) in
        if length frame < trailer_end
        then Returns (Inl (SdlsBufferTooSmall trailer_end (length frame)), sa, frame)
        else if MAX_IV_SIZE < iv_len sa \<or> MAX_SN_SIZE < sn_len sa \<or> data_start < header_end \<or> length frame < data_start
        then Panics
        else case write_security_header sa (make_iv sa) (make_sn sa) 0 (bslice frame header_end (data_start - header_end)) of
            Panics \<Rightarrow> Panics
          | Returns (Inl e) \<Rightarrow> Returns (Inl e, sa, frame)
          | Returns (Inr (n, hdr)) \<Rightarrow>
              (if mac_panics sa \<or> length frame < data_end then Panics
               else protect_frame sa crypto (blit frame header_end hdr) data_start data_end))"

section \<open>Verifying a frame\<close>

definition check_sequence_number :: "SecurityAssociation \<Rightarrow> nat \<Rightarrow> (SdlsError + unit) \<times> SecurityAssociation" where
  "check_sequence_number sa received =
     (let expected = sequence_number sa; window = sequence_window sa in
      if received < expected then (Inl (SequenceNumberRejected received expected), sa)
      else if window > 0 \<and> received > wrap64 (expected + window)
      then (Inl (SequenceNumberRejected received expected), sa)
      else (Inr (), sa\<lparr>sequence_number := wrap64 (received + 1)\<rparr>))"

definition accept_sn :: "SecurityAssociation \<Rightarrow> nat \<Rightarrow> bytes \<Rightarrow> secured" where
  "accept_sn sa received frame =
     (if sn_len sa > 0
      then (case check_sequence_number sa received of (res, sa') \<Rightarrow> Returns (res, sa', frame))
      else Returns (Inr (), sa, frame))"

definition verify_frame ::
  "SecurityAssociation \<Rightarrow> CryptoProvider \<Rightarrow> bytes \<Rightarrow> nat \<Rightarrow> nat \<Rightarrow> nat \<Rightarrow> bytes \<Rightarrow> secured" where
  "verify_frame sa crypto frame data_start data_end received iv =
     (let mac_buf = replicate (mac_len sa) 0; received_mac = bslice frame data_end (mac_len sa) in
      case service_type sa of
        Authentication \<Rightarrow>
          (case compute_mac crypto sa iv (auth_input sa (take data_end frame)) mac_buf of
             (Inl e, mac) \<Rightarrow> Returns (Inl e, sa, frame)
           | (Inr u, mac) \<Rightarrow>
               (if received_mac \<noteq> mac then Returns (Inl MacVerificationFailed, sa, frame)
                else accept_sn sa received frame))
      | Encryption \<Rightarrow>
          (if data_end < data_start then Panics
           else case decrypt crypto sa iv [] (bslice frame data_start (data_end - data_start)) [] of
             (Inl e, d) \<Rightarrow> Returns (Inl e, sa, blit frame data_start d)
           | (Inr n, d) \<Rightarrow> Returns (Inr (), sa, blit frame data_start d))
      | AuthenticatedEncryption \<Rightarrow>
          (if data_end < data_start \<or> aad_panics sa data_start then Panics
           else case decrypt crypto sa iv (auth_input sa (take data_start frame))
                   (bslice frame data_start (data_end - data_start)) received_mac of
             (Inl e, d) \<Rightarrow> Returns (Inl e, sa, blit frame data_start d)
           | (Inr n, d) \<Rightarrow> accept_sn sa received (blit frame data_start d)))"

definition process_security ::
  "SecurityAssociation \<Rightarrow> CryptoProvider \<Rightarrow> bytes \<Rightarrow> nat \<Rightarrow> nat \<Rightarrow> nat \<Rightarrow> secured" where
  "process_security sa crypto frame header_end data_start data_end =
     (if length frame < header_end then Panics
      else case read_spi (drop header_end frame) of
        Inl e \<Rightarrow> Returns (Inl e, sa, frame)
      | Inr spi \<Rightarrow>
          if spi \<noteq> sa_spi sa then Returns (Inl (UnknownSpi spi), sa, frame)
          else if length frame < wrap64 (data_end + mac_len sa) then Returns (Inl FrameTooShort, sa, frame)
          else if data_start < header_end \<or> length frame < data_start then Panics
          else case SecurityHeader_parse sa (bslice frame header_end (data_start - header_end)) of
              Inl e \<Rightarrow> Returns (Inl e, sa, frame)
            | Inr hdr \<Rightarrow>
                (case sequence_number_value hdr of
                   Panics \<Rightarrow> Panics
                 | Returns received_sn \<Rightarrow>
                     (if MAX_IV_SIZE < length (hdr_iv hdr) \<or> mac_panics sa \<or> length frame < data_end then Panics
                      else verify_frame sa crypto frame data_start data_end received_sn (hdr_iv hdr))))"

section \<open>The processor\<close>

record SdlsProcessor =
  sp_sa :: SecurityAssociation
  sp_crypto :: CryptoProvider
  sp_header_end :: nat

definition SdlsProcessor_new :: "SecurityAssociation \<Rightarrow> CryptoProvider \<Rightarrow> nat \<Rightarrow> SdlsProcessor" where
  "SdlsProcessor_new sa crypto header_end = \<lparr>sp_sa = sa, sp_crypto = crypto, sp_header_end = header_end\<rparr>"

text \<open>\<open>frame.len() - trailer_size\<close> in \<open>usize\<close>.\<close>

definition data_end_of :: "SecurityAssociation \<Rightarrow> bytes \<Rightarrow> nat" where
  "data_end_of sa frame = wrap64 (2 ^ 64 + length frame - trailer_size sa)"

definition sdls_result :: "SdlsProcessor \<Rightarrow> secured \<Rightarrow> ((SdlsError + nat) \<times> SdlsProcessor \<times> bytes) outcome" where
  "sdls_result p r =
     (case r of
        Panics \<Rightarrow> Panics
      | Returns (res, sa, frame) \<Rightarrow> Returns (map_sum id (\<lambda>_. length frame) res, p\<lparr>sp_sa := sa\<rparr>, frame))"

definition sdls_apply :: "SdlsProcessor \<Rightarrow> bytes \<Rightarrow> ((SdlsError + nat) \<times> SdlsProcessor \<times> bytes) outcome" where
  "sdls_apply p frame =
     (let data_start = sp_header_end p + header_size (sp_sa p); data_end = data_end_of (sp_sa p) frame
      in sdls_result p (apply_security (sp_sa p) (sp_crypto p) frame (sp_header_end p) data_start data_end))"

definition sdls_process :: "SdlsProcessor \<Rightarrow> bytes \<Rightarrow> ((SdlsError + nat) \<times> SdlsProcessor \<times> bytes) outcome" where
  "sdls_process p frame =
     (let data_start = sp_header_end p + header_size (sp_sa p); data_end = data_end_of (sp_sa p) frame
      in sdls_result p (process_security (sp_sa p) (sp_crypto p) frame (sp_header_end p) data_start data_end))"

end
