(* ===== verification/Sdls_Safety.thy ===== *)
theory Sdls_Safety
  imports Sdls
begin

text \<open>
  What link security guarantees. The locale \<open>crypto_backend\<close> states the laws of a backend:
  decryption inverts encryption, slices keep their length. Under it a protected frame passes
  the receiver and comes out unchanged. The anti-replay check accepts strictly increasing
  sequence numbers only, but only for associations that carry one; and frames too short for
  the security header make the receiver panic.
\<close>

section \<open>The state the receiver keeps\<close>

text \<open>The sequence number in the header of a frame.\<close>

definition frame_sn :: "SecurityAssociation \<Rightarrow> nat \<Rightarrow> bytes \<Rightarrow> nat" where
  "frame_sn sa header_end frame = be_nat (bslice frame (header_end + 2 + iv_len sa) (sn_len sa))"

lemma be_nat_less: "be_nat bs < 256 ^ length bs"
proof (induction bs rule: rev_induct)
  case (snoc b bs)
  then have "be_nat bs * 256 + unat b < (be_nat bs + 1) * 256" using unat_u8_less [of b] by simp
  also have "\<dots> \<le> 256 ^ length bs * 256" using snoc by simp
  finally show ?case by simp
qed (simp add: be_nat_def)

lemma verify_frame_accepts:
  assumes "verify_frame sa crypto frame ds de received iv = Returns (Inr u, sa', frame')"
    and "service_type sa \<noteq> Encryption" "0 < sn_len sa"
  shows "sequence_number sa \<le> received \<and> sa' = sa\<lparr>sequence_number := wrap64 (received + 1)\<rparr>"
  using assms
  by (auto simp: verify_frame_def accept_sn_def check_sequence_number_def Let_def
      split: ServiceType.splits prod.splits sum.splits if_splits)

lemma verify_frame_config:
  "verify_frame sa crypto frame ds de received iv = Returns (res, sa', frame') \<Longrightarrow>
     \<exists>n. sa' = sa\<lparr>sequence_number := n\<rparr>"
  by (cases sa) (auto simp: verify_frame_def accept_sn_def check_sequence_number_def Let_def
      split: ServiceType.splits prod.splits sum.splits if_splits)

lemma process_cases:
  assumes "process_security sa crypto frame he ds de = Returns (res, sa', frame')"
  shows "sa' = sa \<and> (\<exists>e. res = Inl e) \<or>
    (\<exists>iv. verify_frame sa crypto frame ds de (be_nat (bslice (bslice frame he (ds - he)) (2 + iv_len sa) (sn_len sa))) iv
        = Returns (res, sa', frame') \<and> he + header_size sa \<le> ds \<and> ds \<le> length frame)"
  using assms right_aligned
  by (auto simp: process_security_def SecurityHeader_parse_def sequence_number_value_def Let_def
      split: sum.splits if_splits outcome.splits)

lemma process_config:
  "process_security sa crypto frame he ds de = Returns (res, sa', frame') \<Longrightarrow> \<exists>n. sa' = sa\<lparr>sequence_number := n\<rparr>"
proof (drule process_cases, elim disjE exE conjE)
  assume "sa' = sa"
  then show ?thesis by (intro exI [of _ "sequence_number sa"]) simp
qed (rule verify_frame_config)

lemma verify_frame_rejects:
  "verify_frame sa crypto frame ds de received iv = Returns (Inl e, sa', frame') \<Longrightarrow> sa' = sa"
  by (auto simp: verify_frame_def accept_sn_def check_sequence_number_def Let_def
      split: ServiceType.splits prod.splits sum.splits if_splits)

lemma process_rejects: "process_security sa crypto frame he ds de = Returns (Inl e, sa', frame') \<Longrightarrow> sa' = sa"
  using process_cases [of sa crypto frame he ds de "Inl e" sa' frame'] verify_frame_rejects by blast

lemma process_accepts:
  assumes "process_security sa crypto frame he ds de = Returns (Inr u, sa', frame')"
    and "service_type sa \<noteq> Encryption" "0 < sn_len sa"
  shows "sequence_number sa \<le> frame_sn sa he frame \<and> sa' = sa\<lparr>sequence_number := wrap64 (frame_sn sa he frame + 1)\<rparr>"
proof -
  obtain iv where v: "verify_frame sa crypto frame ds de (be_nat (bslice (bslice frame he (ds - he)) (2 + iv_len sa) (sn_len sa))) iv
      = Returns (Inr u, sa', frame')" and b: "he + header_size sa \<le> ds" "ds \<le> length frame"
    using process_cases [OF assms(1)] by auto
  have "bslice (bslice frame he (ds - he)) (2 + iv_len sa) (sn_len sa) = bslice frame (he + 2 + iv_len sa) (sn_len sa)"
    using b by (auto simp: bslice_def header_size_def drop_take add.commute add.left_commute min_def)
  then show ?thesis using verify_frame_accepts [OF v assms(2,3)] by (simp add: frame_sn_def)
qed

text \<open>The frames a receiver accepts, in order, until a call panics.\<close>

fun sdls_accepts :: "SdlsProcessor \<Rightarrow> bytes list \<Rightarrow> bytes list" where
  "sdls_accepts p [] = []"
| "sdls_accepts p (frame # frames) =
     (case sdls_process p frame of
        Panics \<Rightarrow> []
      | Returns (Inl e, p', f) \<Rightarrow> sdls_accepts p' frames
      | Returns (Inr n, p', f) \<Rightarrow> frame # sdls_accepts p' frames)"

lemma sdls_process_cases:
  assumes "sdls_process p frame = Returns (res, p', f)"
  shows "\<exists>n. p' = p\<lparr>sp_sa := (sp_sa p)\<lparr>sequence_number := n\<rparr>\<rparr>"
proof -
  obtain r sa' where "process_security (sp_sa p) (sp_crypto p) frame (sp_header_end p)
      (sp_header_end p + header_size (sp_sa p)) (data_end_of (sp_sa p) frame) = Returns (r, sa', f)"
    and p': "p' = p\<lparr>sp_sa := sa'\<rparr>"
    using assms by (auto simp: sdls_process_def sdls_result_def Let_def split: outcome.splits prod.splits)
  then obtain n where "sa' = (sp_sa p)\<lparr>sequence_number := n\<rparr>" using process_config by blast
  then show ?thesis using p' by auto
qed

lemma sdls_process_rejects:
  assumes "sdls_process p frame = Returns (Inl e, p', f)"
  shows "p' = p"
proof -
  obtain sa' where "process_security (sp_sa p) (sp_crypto p) frame (sp_header_end p)
      (sp_header_end p + header_size (sp_sa p)) (data_end_of (sp_sa p) frame) = Returns (Inl e, sa', f)"
    and p': "p' = p\<lparr>sp_sa := sa'\<rparr>"
    using assms by (auto simp: sdls_process_def sdls_result_def Let_def map_sum_def
        split: outcome.splits prod.splits sum.splits)
  then show ?thesis using process_rejects by auto
qed

lemma sdls_process_accepts:
  assumes "sdls_process p frame = Returns (Inr n, p', f)"
    and "service_type (sp_sa p) \<noteq> Encryption" "0 < sn_len (sp_sa p)"
  shows "sequence_number (sp_sa p) \<le> frame_sn (sp_sa p) (sp_header_end p) frame"
    and "sequence_number (sp_sa p') = wrap64 (frame_sn (sp_sa p) (sp_header_end p) frame + 1)"
proof -
  obtain sa' u where pr: "process_security (sp_sa p) (sp_crypto p) frame (sp_header_end p)
      (sp_header_end p + header_size (sp_sa p)) (data_end_of (sp_sa p) frame) = Returns (Inr u, sa', f)"
    and p': "p' = p\<lparr>sp_sa := sa'\<rparr>"
    using assms(1) by (auto simp: sdls_process_def sdls_result_def Let_def map_sum_def
        split: outcome.splits prod.splits sum.splits)
  show "sequence_number (sp_sa p) \<le> frame_sn (sp_sa p) (sp_header_end p) frame"
    and "sequence_number (sp_sa p') = wrap64 (frame_sn (sp_sa p) (sp_header_end p) frame + 1)"
    using process_accepts [OF pr assms(2,3)] p' by simp_all
qed

lemma frame_sn_bound:
  assumes "sn_len sa \<le> k"
  shows "frame_sn sa he frame < 256 ^ k"
proof -
  let ?bs = "bslice frame (he + 2 + iv_len sa) (sn_len sa)"
  have "be_nat ?bs < 256 ^ length ?bs" by (rule be_nat_less)
  also have "\<dots> \<le> 256 ^ k" using assms by (intro power_increasing) (simp_all add: bslice_def)
  finally show ?thesis by (simp add: frame_sn_def)
qed

text \<open>
  C12: In an association with authentication and a sequence number of one to seven bytes, the
  frames a receiver accepts have strictly increasing sequence numbers, all of them at least the
  one it started from, whatever is received and whatever the backend does: no frame is
  accepted twice.
\<close>

theorem sdls_no_replay:
  assumes "service_type (sp_sa p) \<noteq> Encryption" "0 < sn_len (sp_sa p)" "sn_len (sp_sa p) \<le> 7"
  shows "sorted_wrt (<) (map (frame_sn (sp_sa p) (sp_header_end p)) (sdls_accepts p frames)) \<and>
    list_all (\<lambda>f. sequence_number (sp_sa p) \<le> frame_sn (sp_sa p) (sp_header_end p) f) (sdls_accepts p frames)"
  using assms
proof (induction frames arbitrary: p)
  case (Cons frame frames)
  let ?sn = "frame_sn (sp_sa p) (sp_header_end p)"
  show ?case
  proof (cases "sdls_process p frame")
    case (Returns r)
    then obtain res p' f where r: "sdls_process p frame = Returns (res, p', f)" by (cases r) auto
    then obtain n where p': "p' = p\<lparr>sp_sa := (sp_sa p)\<lparr>sequence_number := n\<rparr>\<rparr>" using sdls_process_cases by blast
    have sn': "frame_sn (sp_sa p') (sp_header_end p') = ?sn" by (rule ext) (simp add: p' frame_sn_def)
    have ih: "sorted_wrt (<) (map ?sn (sdls_accepts p' frames)) \<and> list_all (\<lambda>f. n \<le> ?sn f) (sdls_accepts p' frames)"
      using Cons.IH [of p'] Cons.prems unfolding sn' by (simp add: p')
    show ?thesis
    proof (cases res)
      case (Inl e)
      then have "p' = p" using r sdls_process_rejects by simp
      then show ?thesis using Cons.IH [of p] Cons.prems r Inl by simp
    next
      case (Inr m)
      have "?sn frame < 256 ^ 7" using Cons.prems(3) by (rule frame_sn_bound)
      then have "n = ?sn frame + 1" "sequence_number (sp_sa p) \<le> ?sn frame"
        using sdls_process_accepts [of p frame m p' f] r Inr Cons.prems(1,2) p' by simp_all
      then show ?thesis using ih r Inr by (auto simp: list_all_iff)
    qed
  qed simp
qed simp

lemma sdls_no_replay_witness:
  defines "p \<equiv> SdlsProcessor_new
    \<lparr>sa_spi = 1, service_type = Authentication, iv_len = 4, sn_len = 4, pl_len = 0, mac_len = 16,
     sequence_number = 0, sequence_window = 100, auth_mask = []\<rparr> ClearModeCrypto 5"
    and "frames \<equiv> [replicate 40 0, replicate 5 0 @ [0, 1, 0, 0, 0, 0, 0, 0, 0, 0] @ replicate 26 0]"
  shows "sorted_wrt (<) (map (frame_sn (sp_sa p) (sp_header_end p)) (sdls_accepts p frames)) \<and>
    list_all (\<lambda>f. sequence_number (sp_sa p) \<le> frame_sn (sp_sa p) (sp_header_end p) f) (sdls_accepts p frames)"
  by (rule sdls_no_replay) (simp_all add: p_def SdlsProcessor_new_def)

section \<open>The contract of a backend\<close>

text \<open>
  What the frame layer relies on. The receiver's association may differ in the sequence
  number it expects, which a backend must not depend on.
\<close>

locale crypto_backend =
  fixes crypto :: CryptoProvider
  assumes decrypt_encrypt: "encrypt crypto sa iv aad data tag0 = (Inr n, c, t) \<Longrightarrow>
      length c = length data \<and> length t = length tag0 \<and>
      (\<exists>m. decrypt crypto (sa\<lparr>sequence_number := k\<rparr>) iv aad c t = (Inr m, data))"
    and mac_again: "length mac0 = mac_len sa \<Longrightarrow> compute_mac crypto sa iv payload mac0 = (Inr u, mac) \<Longrightarrow>
      length mac = length mac0 \<and> compute_mac crypto (sa\<lparr>sequence_number := k\<rparr>) iv payload mac0 = (Inr u, mac)"
begin

lemma protect_verify:
  assumes "protect_frame sa crypto frame ds de = Returns (Inr u, sa', f)"
    and "ds \<le> de" "de + mac_len sa = length frame"
  shows "sa' = next_sn sa \<and> length f = length frame \<and> take ds f = take ds frame \<and>
    (\<exists>g. length g = length frame \<and> take ds g = take ds frame \<and> bslice g ds (de - ds) = bslice frame ds (de - ds) \<and>
      (\<forall>k received. verify_frame (sa\<lparr>sequence_number := k\<rparr>) crypto f ds de received (make_iv sa) =
        (if service_type sa = Encryption then Returns (Inr (), sa\<lparr>sequence_number := k\<rparr>, g)
         else accept_sn (sa\<lparr>sequence_number := k\<rparr>) received g)))"
proof (cases "service_type sa")
  case Authentication
  then obtain mac where mac: "compute_mac crypto sa (make_iv sa) (auth_input sa (take de frame)) (replicate (mac_len sa) 0) = (Inr (), mac)"
    and f: "f = blit frame de mac" and sa': "sa' = next_sn sa"
    using assms(1) by (auto simp: protect_frame_def Let_def split: prod.splits sum.splits)
  note again = mac_again [OF length_replicate mac]
  have len: "length mac = mac_len sa" using again by simp
  have "take de f = take de frame" "bslice f de (mac_len sa) = mac" "length f = length frame"
    using assms(3) len unfolding f by (simp_all add: blit_def bslice_def)
  moreover from this have "take ds f = take ds frame" using assms(2) by (metis min.absorb1 take_take)
  moreover have "bslice f ds (de - ds) = bslice frame ds (de - ds)"
    using \<open>take de f = take de frame\<close> assms(2) unfolding bslice_def by (simp add: take_drop)
  ultimately show ?thesis using Authentication again sa'
    by (intro conjI exI [of _ f]) (auto simp: verify_frame_def auth_input_def Let_def)
next
  case Encryption
  then obtain n d t where enc: "encrypt crypto sa (make_iv sa) [] (bslice frame ds (de - ds)) [] = (Inr n, d, t)"
    and f: "f = blit frame ds d" and sa': "sa' = next_sn sa"
    using assms(1) by (auto simp: protect_frame_def Let_def split: prod.splits sum.splits if_splits)
  note dec = decrypt_encrypt [OF enc]
  have len: "length d = de - ds" "t = []" using dec assms(2,3) by simp_all
  have f': "length f = length frame" "take ds f = take ds frame" "bslice f ds (de - ds) = d"
    using assms(2,3) len unfolding f by (simp_all add: blit_def bslice_def)
  let ?g = "blit f ds (bslice frame ds (de - ds))"
  have "length ?g = length frame" "take ds ?g = take ds frame" "bslice ?g ds (de - ds) = bslice frame ds (de - ds)"
    using f' assms(2,3) len by (simp_all add: blit_def bslice_def)
  moreover have "verify_frame (sa\<lparr>sequence_number := k\<rparr>) crypto f ds de received (make_iv sa)
      = Returns (Inr (), sa\<lparr>sequence_number := k\<rparr>, ?g)" for k received
  proof -
    obtain m where "decrypt crypto (sa\<lparr>sequence_number := k\<rparr>) (make_iv sa) [] d t = (Inr m, bslice frame ds (de - ds))"
      using dec by blast
    then show ?thesis using Encryption len f' assms(2) by (simp add: verify_frame_def Let_def)
  qed
  ultimately show ?thesis using Encryption f' sa' by (intro conjI exI [of _ ?g]) auto
next
  case AuthenticatedEncryption
  let ?aad = "auth_input sa (take ds frame)"
  obtain n d t where enc: "encrypt crypto sa (make_iv sa) ?aad (bslice frame ds (de - ds)) (replicate (mac_len sa) 0) = (Inr n, d, t)"
    and f: "f = blit (blit frame ds d) de t" and sa': "sa' = next_sn sa" and np: "\<not> aad_panics sa ds"
    using assms(1) AuthenticatedEncryption by (auto simp: protect_frame_def Let_def split: prod.splits sum.splits if_splits)
  note dec = decrypt_encrypt [OF enc]
  have len: "length d = de - ds" "length t = mac_len sa" using dec assms(2,3) by simp_all
  have f': "length f = length frame" "take ds f = take ds frame" "bslice f ds (de - ds) = d" "bslice f de (mac_len sa) = t"
    using assms(2,3) len unfolding f by (simp_all add: blit_def bslice_def)
  let ?g = "blit f ds (bslice frame ds (de - ds))"
  have "length ?g = length frame" "take ds ?g = take ds frame" "bslice ?g ds (de - ds) = bslice frame ds (de - ds)"
    using f' assms(2,3) len by (simp_all add: blit_def bslice_def)
  moreover have "verify_frame (sa\<lparr>sequence_number := k\<rparr>) crypto f ds de received (make_iv sa)
      = accept_sn (sa\<lparr>sequence_number := k\<rparr>) received ?g" for k received
  proof -
    obtain m where "decrypt crypto (sa\<lparr>sequence_number := k\<rparr>) (make_iv sa) ?aad d t = (Inr m, bslice frame ds (de - ds))"
      using dec by blast
    moreover have "auth_input (sa\<lparr>sequence_number := k\<rparr>) (take ds f) = ?aad" "\<not> aad_panics (sa\<lparr>sequence_number := k\<rparr>) ds"
      using f'(2) np by (simp_all add: auth_input_def aad_panics_def)
    ultimately show ?thesis using AuthenticatedEncryption f'(3,4) assms(2) by (simp add: verify_frame_def Let_def)
  qed
  ultimately show ?thesis using AuthenticatedEncryption f' sa' by (intro conjI exI [of _ ?g]) auto
qed

end

interpretation clear_mode: crypto_backend ClearModeCrypto
  by unfold_locales (auto simp: ClearModeCrypto_def blit_def)

section \<open>The header\<close>

lemma length_make_iv: "iv_len sa \<le> MAX_IV_SIZE \<Longrightarrow> length (make_iv sa) = iv_len sa"
  by (simp add: make_iv_def Let_def bslice_def blit_def MAX_IV_SIZE_def)

lemma make_sn_eq: "sn_len sa \<le> 8 \<Longrightarrow> make_sn sa = nat_be (sn_len sa) (sequence_number sa)"
  using drop_nat_be [of "sn_len sa" 8 "sequence_number sa"]
  by (simp add: make_sn_def MAX_SN_SIZE_def blit_def)

text \<open>A header reads back as it was written.\<close>

lemma header_roundtrip:
  assumes "write_security_header sa iv sn pad out = Returns (Inr (n, hdr))" "length out = header_size sa"
    and "length iv = iv_len sa" "length sn = sn_len sa"
  shows "length hdr = header_size sa \<and> take 2 hdr = be16_of (sa_spi sa) \<and>
    SecurityHeader_parse sa hdr = Inr \<lparr>hdr_spi = sa_spi sa, hdr_iv = iv, hdr_sn = sn, hdr_pl = drop (2 - pl_len sa) (be16_of pad)\<rparr>"
proof -
  have pl: "pl_len sa \<le> 2" and hdr: "hdr = be16_of (sa_spi sa) @ iv @ sn @ drop (2 - pl_len sa) (be16_of pad)"
    using assms by (auto simp: write_security_header_def header_size_def Let_def blit_def split: if_splits)
  then show ?thesis using assms(3,4)
    by (simp add: SecurityHeader_parse_def header_size_def bslice_def be16_of_def)
qed

section \<open>A protected frame passes\<close>

lemma data_end_of_eq: "mac_len sa \<le> length frame \<Longrightarrow> length frame < 2 ^ 64 \<Longrightarrow> data_end_of sa frame = length frame - mac_len sa"
proof -
  assume a: "mac_len sa \<le> length frame" "length frame < 2 ^ 64"
  have "2 ^ 64 + length frame - mac_len sa = (length frame - mac_len sa) + 2 ^ 64" using a(1) by simp
  then have "data_end_of sa frame = ((length frame - mac_len sa) + 2 ^ 64) mod 2 ^ 64"
    by (simp only: data_end_of_def trailer_size_def wrap64_def)
  also have "\<dots> = length frame - mac_len sa" using a(2) unfolding mod_add_self2 by (intro mod_less) simp
  finally show ?thesis .
qed

lemma accept_sn_eq:
  assumes "sequence_number sa \<le> received" "sequence_window sa = 0 \<or> received \<le> sequence_number sa + sequence_window sa"
    and "sequence_number sa + sequence_window sa < 2 ^ 64" "received + 1 < 2 ^ 64"
  shows "accept_sn sa received f =
    Returns (Inr (), if sn_len sa > 0 then sa\<lparr>sequence_number := received + 1\<rparr> else sa, f)"
  using assms by (auto simp: accept_sn_def check_sequence_number_def Let_def)

lemma apply_security_success:
  assumes "apply_security sa crypto frame he ds de = Returns (Inr u, sa', f)"
    and "ds = he + header_size sa" "de + mac_len sa = length frame" "length frame < 2 ^ 64"
  shows "\<exists>hdr. protect_frame sa crypto (blit frame he hdr) ds de = Returns (Inr u, sa', f) \<and>
    length hdr = header_size sa \<and> take 2 hdr = be16_of (sa_spi sa) \<and> ds \<le> length frame \<and>
    iv_len sa \<le> MAX_IV_SIZE \<and> sn_len sa \<le> 8 \<and> \<not> mac_panics sa \<and>
    (\<exists>pl. SecurityHeader_parse sa hdr = Inr \<lparr>hdr_spi = sa_spi sa, hdr_iv = make_iv sa, hdr_sn = make_sn sa, hdr_pl = pl\<rparr>)"
proof -
  obtain n hdr where w: "write_security_header sa (make_iv sa) (make_sn sa) 0 (bslice frame he (ds - he)) = Returns (Inr (n, hdr))"
    and p: "protect_frame sa crypto (blit frame he hdr) ds de = Returns (Inr u, sa', f)"
    and b: "ds \<le> length frame" "iv_len sa \<le> MAX_IV_SIZE" "sn_len sa \<le> 8" "\<not> mac_panics sa"
    using assms(1) by (auto simp: apply_security_def MAX_SN_SIZE_def Let_def split: if_splits outcome.splits sum.splits)
  have "length (bslice frame he (ds - he)) = header_size sa" using assms(2) b(1) by simp
  moreover have "length (make_sn sa) = sn_len sa" using b(3) by (simp add: make_sn_eq)
  ultimately show ?thesis using header_roundtrip [OF w] p b length_make_iv [of sa] by blast
qed

lemma process_of_protected:
  assumes "service_type sa = Encryption \<or> ds \<le> de"
    and "take ds f = take ds (blit frame he hdr)" "length f = length frame" "ds = he + header_size sa" "ds \<le> length frame"
    and "length hdr = header_size sa" "take 2 hdr = be16_of (sa_spi sa)" "de + mac_len sa = length frame" "length frame < 2 ^ 64"
    and "SecurityHeader_parse sa hdr = Inr \<lparr>hdr_spi = sa_spi sa, hdr_iv = make_iv sa, hdr_sn = make_sn sa, hdr_pl = pl\<rparr>"
    and "iv_len sa \<le> MAX_IV_SIZE" "sn_len sa \<le> 8" "\<not> mac_panics sa" "sequence_number sa < 256 ^ sn_len sa \<or> sn_len sa = 0"
  shows "process_security (sa\<lparr>sequence_number := k\<rparr>) crypto f he ds de =
    verify_frame (sa\<lparr>sequence_number := k\<rparr>) crypto f ds de (if sn_len sa = 0 then 0 else sequence_number sa) (make_iv sa)"
proof -
  have hdr: "bslice f he (ds - he) = hdr"
  proof -
    have "bslice f he (ds - he) = drop he (take ds f)" using assms(4) by (simp add: bslice_def drop_take)
    also have "\<dots> = hdr" using assms(2,4,5,6) by (simp add: blit_def)
    finally show ?thesis .
  qed
  have "2 \<le> header_size sa" by (simp add: header_size_def)
  have "read_spi (drop he f) = Inr (sa_spi sa)"
  proof -
    have "take 2 (drop he f) = take 2 (bslice f he (ds - he))"
      using assms(4) \<open>2 \<le> header_size sa\<close> by (simp add: bslice_def min_def)
    then have "take 2 (drop he f) = be16_of (sa_spi sa)" using hdr assms(7) by simp
    then have "drop he f ! 0 = ucast (drop_bit 8 (sa_spi sa))" "drop he f ! 1 = ucast (sa_spi sa)"
      using nth_take [of 0 2 "drop he f"] nth_take [of 1 2 "drop he f"] by (simp_all add: be16_of_def)
    then show ?thesis
      using assms(3-5) \<open>2 \<le> header_size sa\<close> by (simp add: read_spi_def)
  qed
  moreover have "SecurityHeader_parse (sa\<lparr>sequence_number := k\<rparr>) hdr = SecurityHeader_parse sa hdr"
    by (simp add: SecurityHeader_parse_def header_size_def)
  moreover have "be_nat (make_sn sa) = (if sn_len sa = 0 then 0 else sequence_number sa)" "length (make_sn sa) = sn_len sa"
    using assms(12,14) by (auto simp: make_sn_eq be_nat_nat_be)
  moreover from this have "sequence_number_value \<lparr>hdr_spi = sa_spi sa, hdr_iv = make_iv sa, hdr_sn = make_sn sa, hdr_pl = pl\<rparr>
      = Returns (if sn_len sa = 0 then 0 else sequence_number sa)"
    using assms(12) right_aligned [of "make_sn sa"] by (simp add: sequence_number_value_def)
  moreover have "\<not> mac_panics (sa\<lparr>sequence_number := k\<rparr>)" using assms(13) by (simp add: mac_panics_def)
  ultimately show ?thesis
    using assms(3-5,8-12) hdr length_make_iv [of sa] by (simp add: process_security_def)
qed

text \<open>
  C15: A frame protected by the sender passes the receiver, for every service and every
  backend that keeps the laws, when the receiver's association expects a number within its
  window: header and data come out as they went in, and both sides step past the number.
\<close>

theorem sdls_roundtrip:
  assumes "crypto_backend crypto" "sp_crypto p = crypto" "sp_crypto q = crypto" "sp_header_end q = sp_header_end p"
    and "sp_sa q = (sp_sa p)\<lparr>sequence_number := k\<rparr>"
    and "sp_header_end p + sdls_overhead (sp_sa p) \<le> length frame" "length frame < 2 ^ 64"
    and "sequence_number (sp_sa p) + 1 < 2 ^ 64" "sn_len (sp_sa p) = 0 \<or> sequence_number (sp_sa p) < 256 ^ sn_len (sp_sa p)"
    and "k \<le> sequence_number (sp_sa p)" "k + sequence_window (sp_sa p) < 2 ^ 64"
    and "sequence_window (sp_sa p) = 0 \<or> sequence_number (sp_sa p) \<le> k + sequence_window (sp_sa p)"
    and "sdls_apply p frame = Returns (Inr n, p', f)"
  shows "\<exists>q' g. sdls_process q f = Returns (Inr n, q', g) \<and> length g = length frame \<and>
    take (sp_header_end p) g = take (sp_header_end p) frame \<and>
    bslice g (sp_header_end p + header_size (sp_sa p)) (length frame - (sp_header_end p + sdls_overhead (sp_sa p)))
      = bslice frame (sp_header_end p + header_size (sp_sa p)) (length frame - (sp_header_end p + sdls_overhead (sp_sa p))) \<and>
    sequence_number (sp_sa p') = sequence_number (sp_sa p) + 1 \<and>
    sequence_number (sp_sa q') =
      (if sn_len (sp_sa p) > 0 \<and> service_type (sp_sa p) \<noteq> Encryption then sequence_number (sp_sa p) + 1 else k)"
proof -
  let ?sa = "sp_sa p" and ?he = "sp_header_end p"
  define ds where "ds = ?he + header_size ?sa"
  define de where "de = length frame - mac_len ?sa"
  have len: "ds \<le> de" "de + mac_len ?sa = length frame" "de - ds = length frame - (?he + sdls_overhead ?sa)"
    using assms(6) by (simp_all add: ds_def de_def sdls_overhead_def trailer_size_def)
  have de: "data_end_of ?sa frame = de"
    using data_end_of_eq [of ?sa frame] len assms(7) by (simp add: de_def)
  obtain sa' u where ap: "apply_security ?sa crypto frame ?he ds de = Returns (Inr u, sa', f)"
    and p': "p' = p\<lparr>sp_sa := sa'\<rparr>" "n = length f"
    using assms(2,13) de by (auto simp: sdls_apply_def sdls_result_def Let_def map_sum_def ds_def
        split: outcome.splits prod.splits sum.splits)
  obtain hdr pl where pr: "protect_frame ?sa crypto (blit frame ?he hdr) ds de = Returns (Inr u, sa', f)"
    and hdr: "length hdr = header_size ?sa" "take 2 hdr = be16_of (sa_spi ?sa)" "ds \<le> length frame"
    and ok: "iv_len ?sa \<le> MAX_IV_SIZE" "sn_len ?sa \<le> 8" "\<not> mac_panics ?sa"
    and parse: "SecurityHeader_parse ?sa hdr = Inr \<lparr>hdr_spi = sa_spi ?sa, hdr_iv = make_iv ?sa, hdr_sn = make_sn ?sa, hdr_pl = pl\<rparr>"
    using apply_security_success [OF ap ds_def len(2) assms(7)] by blast
  have frame1: "length (blit frame ?he hdr) = length frame" "take ?he (blit frame ?he hdr) = take ?he frame"
      "bslice (blit frame ?he hdr) ds (de - ds) = bslice frame ds (de - ds)"
    using hdr len by (simp_all add: ds_def blit_def bslice_def)
  obtain g where sa': "sa' = next_sn ?sa" and f: "length f = length frame" "take ds f = take ds (blit frame ?he hdr)"
    and g: "length g = length frame" "take ds g = take ds (blit frame ?he hdr)" "bslice g ds (de - ds) = bslice frame ds (de - ds)"
    and verify: "\<And>k received. verify_frame (?sa\<lparr>sequence_number := k\<rparr>) crypto f ds de received (make_iv ?sa) =
        (if service_type ?sa = Encryption then Returns (Inr (), ?sa\<lparr>sequence_number := k\<rparr>, g)
         else accept_sn (?sa\<lparr>sequence_number := k\<rparr>) received g)"
    using crypto_backend.protect_verify [OF assms(1) pr len(1)] len(2) frame1 by auto
  define sn where "sn = (if sn_len ?sa = 0 then 0 else sequence_number ?sa)"
  define sq where "sq = (if sn_len ?sa > 0 \<and> service_type ?sa \<noteq> Encryption then sequence_number ?sa + 1 else k)"
  have "process_security (?sa\<lparr>sequence_number := k\<rparr>) crypto f ?he ds de
      = verify_frame (?sa\<lparr>sequence_number := k\<rparr>) crypto f ds de sn (make_iv ?sa)"
    unfolding sn_def by (rule process_of_protected [OF _ f(2,1) ds_def hdr(3,1,2) len(2) assms(7) parse ok]) (use len assms(9) in auto)
  also have "\<dots> = Returns (Inr (), ?sa\<lparr>sequence_number := sq\<rparr>, g)"
    using accept_sn_eq [of "?sa\<lparr>sequence_number := k\<rparr>" "sequence_number ?sa" g] assms(8,10-12)
    by (auto simp: verify sn_def sq_def accept_sn_def)
  finally have "sdls_process q f = Returns (Inr n, q\<lparr>sp_sa := ?sa\<lparr>sequence_number := sq\<rparr>\<rparr>, g)"
    using assms(3-5) f(1) g(1) de p'(2) by (simp add: sdls_process_def sdls_result_def header_size_def data_end_of_def
        trailer_size_def ds_def [unfolded header_size_def])
  moreover have "take ?he g = take ?he frame"
  proof -
    have "take ?he (take ds g) = take ?he frame" unfolding g(2) using frame1(2) by (simp add: ds_def min_def)
    then show ?thesis by (simp add: ds_def min_def)
  qed
  ultimately show ?thesis
    using g p' sa' assms(8) len(3) by (simp add: sq_def next_sn_def ds_def)
qed

text \<open>In clear mode, every frame with room for the overhead can be protected.\<close>

lemma clear_mode_applies:
  assumes "sp_crypto p = ClearModeCrypto" "\<not> reserved_spi (sa_spi (sp_sa p))" "iv_len (sp_sa p) \<le> 32" "sn_len (sp_sa p) \<le> 8"
    and "pl_len (sp_sa p) \<le> 2" "mac_len (sp_sa p) \<le> 64" "sp_header_end p + header_size (sp_sa p) \<le> 256"
    and "sp_header_end p + sdls_overhead (sp_sa p) \<le> length frame" "length frame < 2 ^ 64"
  shows "\<exists>p' f. sdls_apply p frame = Returns (Inr (length frame), p', f)"
proof -
  let ?sa = "sp_sa p"
  define de where "de = length frame - mac_len ?sa"
  have de: "data_end_of ?sa frame = de" using data_end_of_eq [of ?sa frame] assms(8,9)
    by (simp add: de_def sdls_overhead_def trailer_size_def)
  have b: "sp_header_end p + header_size ?sa \<le> de" "de + mac_len ?sa = length frame"
    using assms(8) by (simp_all add: de_def sdls_overhead_def trailer_size_def)
  let ?ds = "sp_header_end p + header_size ?sa"
  have lens: "length (make_iv ?sa) = iv_len ?sa" "length (make_sn ?sa) = sn_len ?sa"
    using assms(3,4) length_make_iv [of ?sa] by (simp_all add: make_sn_eq MAX_IV_SIZE_def)
  obtain n hdr where w: "write_security_header ?sa (make_iv ?sa) (make_sn ?sa) 0 (bslice frame (sp_header_end p) (header_size ?sa))
      = Returns (Inr (n, hdr))"
    using assms(2,5) lens b by (auto simp: write_security_header_def Let_def)
  have "length (bslice frame (sp_header_end p) (header_size ?sa)) = header_size ?sa" using b by simp
  then have "length hdr = header_size ?sa" using header_roundtrip [OF w _ lens] by blast
  then have "\<exists>u sa' f. protect_frame ?sa ClearModeCrypto (blit frame (sp_header_end p) hdr) ?ds de = Returns (Inr u, sa', f)
      \<and> length f = length frame"
    using b assms(7) by (cases "service_type ?sa") (auto simp: protect_frame_def ClearModeCrypto_def aad_panics_def Let_def)
  then show ?thesis using w assms(1,2,3,4,6,9) b de
    by (auto simp: sdls_apply_def sdls_result_def apply_security_def mac_panics_def MAX_IV_SIZE_def MAX_SN_SIZE_def
        MAX_MAC_SIZE_def Let_def)
qed

text \<open>The witness: the two parties of a clear-mode link; the frame of 50 bytes has 16 for data.\<close>

lemma sdls_roundtrip_witness:
  defines "sa \<equiv> \<lparr>sa_spi = 1, service_type = AuthenticatedEncryption, iv_len = 4, sn_len = 4, pl_len = 0, mac_len = 16,
     sequence_number = 7, sequence_window = 100, auth_mask = []\<rparr>"
    and "frame \<equiv> replicate 5 0xC0 @ replicate 10 0 @ replicate 19 0xAA @ replicate 16 (0 :: u8)"
  defines "f \<equiv> (case sdls_apply (SdlsProcessor_new sa ClearModeCrypto 5) frame of Returns (r, p', f) \<Rightarrow> f)"
  shows "\<exists>q' g. sdls_process (SdlsProcessor_new (sa\<lparr>sequence_number := 3\<rparr>) ClearModeCrypto 5) f = Returns (Inr 50, q', g) \<and>
    length g = 50 \<and> take 5 g = take 5 frame \<and> bslice g 15 19 = bslice frame 15 19 \<and> sequence_number (sp_sa q') = 8"
proof -
  let ?p = "SdlsProcessor_new sa ClearModeCrypto 5"
  have len: "length frame = 50" by (simp add: frame_def)
  obtain p' f' where ap': "sdls_apply ?p frame = Returns (Inr 50, p', f')"
    using clear_mode_applies [of ?p frame] len
    by (auto simp: SdlsProcessor_new_def sa_def reserved_spi_def header_size_def sdls_overhead_def trailer_size_def)
  then have ap: "sdls_apply ?p frame = Returns (Inr 50, p', f)" by (simp add: f_def)
  show ?thesis
    using sdls_roundtrip [OF clear_mode.crypto_backend_axioms, of ?p "SdlsProcessor_new (sa\<lparr>sequence_number := 3\<rparr>) ClearModeCrypto 5" 3 frame 50 p' f]
      ap len by (auto simp: SdlsProcessor_new_def sa_def sdls_overhead_def header_size_def trailer_size_def)
qed

section \<open>What is not protected\<close>

text \<open>
  C37: An association without a sequence number, such as the code's AES-GCM configurations, or
  with encryption only, accepts every replay: a frame that was accepted is accepted again, any
  number of times.
\<close>

theorem sdls_replays_accepted:
  assumes "sn_len (sp_sa p) = 0 \<or> service_type (sp_sa p) = Encryption"
    and "sdls_process p frame = Returns (Inr n, p', f)"
  shows "sdls_accepts p (replicate k frame) = replicate k frame"
proof -
  obtain sa' u where pr: "process_security (sp_sa p) (sp_crypto p) frame (sp_header_end p)
      (sp_header_end p + header_size (sp_sa p)) (data_end_of (sp_sa p) frame) = Returns (Inr u, sa', f)"
    and p': "p' = p\<lparr>sp_sa := sa'\<rparr>"
    using assms(2) by (auto simp: sdls_process_def sdls_result_def Let_def map_sum_def
        split: outcome.splits prod.splits sum.splits)
  obtain ds de received iv where "verify_frame (sp_sa p) (sp_crypto p) frame ds de received iv = Returns (Inr u, sa', f)"
    using process_cases [OF pr] by auto
  then have "sa' = sp_sa p"
    using assms(1) by (auto simp: verify_frame_def accept_sn_def Let_def
        split: ServiceType.splits prod.splits sum.splits if_splits)
  then have "sdls_process p frame = Returns (Inr n, p, f)" using assms(2) p' by simp
  then show ?thesis by (induction k) simp_all
qed

lemma sdls_replays_accepted_witness:
  defines "p \<equiv> SdlsProcessor_new
    \<lparr>sa_spi = 1, service_type = AuthenticatedEncryption, iv_len = 0, sn_len = 0, pl_len = 0, mac_len = 1,
     sequence_number = 0, sequence_window = 100, auth_mask = []\<rparr> ClearModeCrypto 0"
  shows "sdls_accepts p [[0, 1, 9, 7], [0, 1, 9, 7], [0, 1, 9, 7]] = [[0, 1, 9, 7], [0, 1, 9, 7], [0, 1, 9, 7]]"
proof -
  have "data_end_of (sp_sa p) [0, 1, 9, 7] = 3"
    by (subst data_end_of_eq) (simp_all add: p_def SdlsProcessor_new_def)
  then have "sdls_process p [0, 1, 9, 7] = Returns (Inr 4, p, [0, 1, 9, 7])"
    by (simp add: p_def SdlsProcessor_new_def sdls_process_def sdls_result_def process_security_def header_size_def
        read_spi_def be16_to_def SecurityHeader_parse_def sequence_number_value_def verify_frame_def
        ClearModeCrypto_def accept_sn_def aad_panics_def mac_panics_def MAX_MAC_SIZE_def blit_def bslice_def Let_def)
  moreover have "sn_len (sp_sa p) = 0 \<or> service_type (sp_sa p) = Encryption" by (simp add: p_def SdlsProcessor_new_def)
  ultimately show ?thesis using sdls_replays_accepted [of p "[0, 1, 9, 7]" 4 p "[0, 1, 9, 7]" 3]
    by (simp add: numeral_3_eq_3)
qed

text \<open>
  A frame too short for its security header makes the receiver panic as soon as it names
  the association: the length check compares the frame with its own length. Only a frame that
  ends within the two bytes of the index, or names another association, is refused with an
  error.
\<close>

theorem sdls_short_frames_panic:
  assumes "length frame < sp_header_end p + header_size (sp_sa p)"
    and "mac_len (sp_sa p) < 256" "sp_header_end p + header_size (sp_sa p) < 65536"
  shows "sdls_process p frame =
    (if length frame < sp_header_end p then Panics
     else case read_spi (drop (sp_header_end p) frame) of
         Inl e \<Rightarrow> Returns (Inl e, p, frame)
       | Inr spi \<Rightarrow> if spi \<noteq> sa_spi (sp_sa p) then Returns (Inl (UnknownSpi spi), p, frame) else Panics)"
proof -
  let ?sa = "sp_sa p"
  have "wrap64 (data_end_of ?sa frame + mac_len ?sa) = length frame"
  proof -
    have "(2 ^ 64 + length frame - mac_len ?sa) + mac_len ?sa = length frame + 2 ^ 64" using assms(2) by simp
    then have "wrap64 (data_end_of ?sa frame + mac_len ?sa) = (length frame + 2 ^ 64) mod 2 ^ 64"
      by (simp only: data_end_of_def trailer_size_def wrap64_def mod_add_left_eq)
    also have "\<dots> = length frame" using assms(1,3) unfolding mod_add_self2 by (intro mod_less) simp
    finally show ?thesis .
  qed
  then show ?thesis using assms(1)
    by (auto simp: sdls_process_def sdls_result_def process_security_def Let_def split: sum.splits)
qed

lemma sdls_short_frames_panic_witness:
  defines "p \<equiv> SdlsProcessor_new
    \<lparr>sa_spi = 1, service_type = Authentication, iv_len = 4, sn_len = 4, pl_len = 0, mac_len = 16,
     sequence_number = 0, sequence_window = 100, auth_mask = []\<rparr> ClearModeCrypto 5"
  shows "sdls_process p [0, 0, 0, 0, 0, 0, 1] = Panics"
  by (subst sdls_short_frames_panic)
    (simp_all add: p_def SdlsProcessor_new_def header_size_def read_spi_def be16_to_def numeral_2_eq_2)

end
