(* ===== verification/Sdls_Keys.thy ===== *)
theory Sdls_Keys
  imports Sdls
begin

text \<open>
  Management of keys and security associations (\<open>datalink/security/sdls/key.rs\<close>,
  \<open>sa_mgmt.rs\<close>): the life cycle of a key, the key ring with over-the-air rekeying and
  verification, the life cycle of an association and the table of associations. Keys only
  move forward through their states and a destroyed key stays destroyed; an association has a
  key exactly when it is not unkeyed. A change of the first entry that matches is shared as
  \<open>modify_first\<close>.
\<close>

section \<open>The first matching entry\<close>

fun modify_first :: "('a \<Rightarrow> bool) \<Rightarrow> ('a \<Rightarrow> 'e + 'a) \<Rightarrow> 'e \<Rightarrow> 'a list \<Rightarrow> 'e + 'a list" where
  "modify_first P f missing [] = Inl missing"
| "modify_first P f missing (x # xs) =
     (if P x then map_sum id (\<lambda>y. y # xs) (f x) else map_sum id ((#) x) (modify_first P f missing xs))"

lemma modify_first_Inr:
  "modify_first P f missing xs = Inr ys \<Longrightarrow>
     \<exists>us x vs y. xs = us @ x # vs \<and> ys = us @ y # vs \<and> P x \<and> f x = Inr y"
proof (induction xs arbitrary: ys)
  case (Cons x xs)
  show ?case
  proof (cases "P x")
    case True
    then obtain y where "f x = Inr y" "ys = y # xs" using Cons.prems by (cases "f x") auto
    then show ?thesis using True by (intro exI [of _ "[]"]) auto
  next
    case False
    then obtain ys' where "modify_first P f missing xs = Inr ys'" "ys = x # ys'"
      using Cons.prems by (cases "modify_first P f missing xs") auto
    then show ?thesis using Cons.IH by (metis append_Cons)
  qed
qed simp

section \<open>Keys\<close>

definition MAX_KEY_LEN :: nat where "MAX_KEY_LEN = 32"

definition MAX_KEYS :: nat where "MAX_KEYS = 128"

datatype KeyState = Preactive | Active | Deactivated | Destroyed

record ManagedKey =
  key_id :: u16
  key_state :: KeyState
  key_bytes :: bytes
  key_len :: nat

definition ManagedKey_new :: "u16 \<Rightarrow> bytes \<Rightarrow> SdlsError + ManagedKey" where
  "ManagedKey_new kid mat =
     (if mat = [] \<or> length mat > MAX_KEY_LEN then Inl InvalidKeyLength
      else Inr \<lparr>key_id = kid, key_state = Preactive, key_bytes = blit (replicate MAX_KEY_LEN 0) 0 mat,
                key_len = length mat\<rparr>)"

definition key_activate :: "ManagedKey \<Rightarrow> SdlsError + ManagedKey" where
  "key_activate k = (if key_state k = Preactive then Inr (k\<lparr>key_state := Active\<rparr>) else Inl InvalidKeyState)"

definition key_deactivate :: "ManagedKey \<Rightarrow> SdlsError + ManagedKey" where
  "key_deactivate k = (if key_state k = Active then Inr (k\<lparr>key_state := Deactivated\<rparr>) else Inl InvalidKeyState)"

definition key_destroy :: "ManagedKey \<Rightarrow> ManagedKey" where
  "key_destroy k = k\<lparr>key_bytes := replicate MAX_KEY_LEN 0, key_len := 0, key_state := Destroyed\<rparr>"

definition key_material :: "ManagedKey \<Rightarrow> bytes" where
  "key_material k = take (key_len k) (key_bytes k)"

section \<open>The key ring\<close>

type_synonym KeyRing = "ManagedKey list"

definition KeyRing_new :: KeyRing where "KeyRing_new = []"

definition key_find :: "KeyRing \<Rightarrow> u16 \<Rightarrow> ManagedKey option" where
  "key_find ring kid = find (\<lambda>k. key_id k = kid) ring"

definition key_load :: "KeyRing \<Rightarrow> u16 \<Rightarrow> bytes \<Rightarrow> SdlsError + KeyRing" where
  "key_load ring kid mat =
     (if key_find ring kid \<noteq> None then Inl DuplicateKeyId
      else case ManagedKey_new kid mat of
          Inl e \<Rightarrow> Inl e
        | Inr k \<Rightarrow> if length ring < MAX_KEYS then Inr (vec_push MAX_KEYS ring k) else Inl KeyRingFull)"

definition ring_activate :: "KeyRing \<Rightarrow> u16 \<Rightarrow> SdlsError + KeyRing" where
  "ring_activate ring kid = modify_first (\<lambda>k. key_id k = kid) key_activate (UnknownKeyId kid) ring"

definition ring_deactivate :: "KeyRing \<Rightarrow> u16 \<Rightarrow> SdlsError + KeyRing" where
  "ring_deactivate ring kid = modify_first (\<lambda>k. key_id k = kid) key_deactivate (UnknownKeyId kid) ring"

definition ring_destroy :: "KeyRing \<Rightarrow> u16 \<Rightarrow> SdlsError + KeyRing" where
  "ring_destroy ring kid = modify_first (\<lambda>k. key_id k = kid) (\<lambda>k. Inr (key_destroy k)) (UnknownKeyId kid) ring"

text \<open>
  The loop over a decrypted block. Keys loaded before an error stay loaded; a truncated last
  entry ends the loop.
\<close>

function otar_loop :: "bytes \<Rightarrow> nat \<Rightarrow> KeyRing \<Rightarrow> (SdlsError + nat) \<times> KeyRing" where
  "otar_loop block count ring =
     (case block of
        a # b # c # d # rest \<Rightarrow>
          (let kid = be16_to a b; klen = unat (be16_to c d) in
           if length rest < klen then (Inr count, ring)
           else case key_load ring kid (take klen rest) of
               Inl e \<Rightarrow> (Inl e, ring)
             | Inr ring' \<Rightarrow> otar_loop (drop klen rest) (count + 1) ring')
      | _ \<Rightarrow> (Inr count, ring))"
  by auto
termination by (relation "measure (\<lambda>(block, _, _). length block)") auto

declare otar_loop.simps [simp del]

definition otar ::
  "KeyRing \<Rightarrow> u16 \<Rightarrow> bytes \<Rightarrow> bytes \<Rightarrow> bytes \<Rightarrow> CryptoProvider \<Rightarrow> SecurityAssociation \<Rightarrow>
     (SdlsError + nat) \<times> KeyRing \<times> bytes" where
  "otar ring master_key_id iv encrypted_block tag crypto sa =
     (case key_find ring master_key_id of
        None \<Rightarrow> (Inl (UnknownKeyId master_key_id), ring, encrypted_block)
      | Some master \<Rightarrow>
          (if key_state master \<noteq> Active then (Inl InvalidKeyState, ring, encrypted_block)
           else case decrypt crypto sa iv [] encrypted_block tag of
               (Inl e, block) \<Rightarrow> (Inl e, ring, block)
             | (Inr n, block) \<Rightarrow> (case otar_loop block 0 ring of (res, ring') \<Rightarrow> (res, ring', block))))"

definition inventory :: "KeyRing \<Rightarrow> (u16 \<times> KeyState) list" where
  "inventory ring = map (\<lambda>k. (key_id k, key_state k)) ring"

definition key_verify ::
  "KeyRing \<Rightarrow> u16 \<Rightarrow> bytes \<Rightarrow> bytes \<Rightarrow> bytes \<Rightarrow> bytes \<Rightarrow> CryptoProvider \<Rightarrow> SecurityAssociation \<Rightarrow>
     (SdlsError + unit) \<times> bytes \<times> bytes" where
  "key_verify ring kid iv challenge response_out tag_out crypto sa =
     (case key_find ring kid of
        None \<Rightarrow> (Inl (UnknownKeyId kid), response_out, tag_out)
      | Some k \<Rightarrow>
          (if key_state k \<noteq> Active then (Inl InvalidKeyState, response_out, tag_out)
           else
             let len = min (length challenge) (length response_out);
                 response = blit response_out 0 (take len challenge)
             in case encrypt crypto sa iv [] (take len response) tag_out of
                 (res, d, t) \<Rightarrow> (map_sum id (\<lambda>_. ()) res, blit response 0 d, t)))"

section \<open>Associations\<close>

datatype SaState = Unkeyed | Keyed | Operational

record ManagedSa =
  managed_sa :: SecurityAssociation
  sa_state :: SaState
  sa_key :: "u16 option"

definition MAX_SAS :: nat where "MAX_SAS = 64"

definition ManagedSa_new :: "u16 \<Rightarrow> ServiceType \<Rightarrow> SdlsError + ManagedSa" where
  "ManagedSa_new spi service =
     (if reserved_spi spi then Inl (ReservedSpi spi)
      else Inr \<lparr>managed_sa = \<lparr>sa_spi = spi, service_type = service, iv_len = 0, sn_len = 0, pl_len = 0, mac_len = 0,
                  sequence_number = 0, sequence_window = 0, auth_mask = []\<rparr>,
                sa_state = Unkeyed, sa_key = None\<rparr>)"

definition sa_rekey :: "u16 \<Rightarrow> ManagedSa \<Rightarrow> SdlsError + ManagedSa" where
  "sa_rekey kid s = (if sa_state s = Unkeyed then Inr (s\<lparr>sa_key := Some kid, sa_state := Keyed\<rparr>) else Inl InvalidSaState)"

definition sa_start :: "ManagedSa \<Rightarrow> SdlsError + ManagedSa" where
  "sa_start s = (if sa_state s = Keyed then Inr (s\<lparr>sa_state := Operational\<rparr>) else Inl InvalidSaState)"

definition sa_stop :: "ManagedSa \<Rightarrow> SdlsError + ManagedSa" where
  "sa_stop s = (if sa_state s = Operational then Inr (s\<lparr>sa_state := Keyed\<rparr>) else Inl InvalidSaState)"

definition sa_expire :: "ManagedSa \<Rightarrow> SdlsError + ManagedSa" where
  "sa_expire s = (if sa_state s = Keyed then Inr (s\<lparr>sa_key := None, sa_state := Unkeyed\<rparr>) else Inl InvalidSaState)"

definition sa_set_arsn :: "nat \<Rightarrow> ManagedSa \<Rightarrow> ManagedSa" where
  "sa_set_arsn arsn s = s\<lparr>managed_sa := (managed_sa s)\<lparr>sequence_number := arsn\<rparr>\<rparr>"

definition sa_read_arsn :: "ManagedSa \<Rightarrow> nat" where
  "sa_read_arsn s = sequence_number (managed_sa s)"

section \<open>The table\<close>

type_synonym SaTable = "ManagedSa list"

definition SaTable_new :: SaTable where "SaTable_new = []"

definition has_spi :: "u16 \<Rightarrow> ManagedSa \<Rightarrow> bool" where
  "has_spi spi s \<longleftrightarrow> sa_spi (managed_sa s) = spi"

definition table_find :: "SaTable \<Rightarrow> u16 \<Rightarrow> ManagedSa option" where
  "table_find t spi = find (has_spi spi) t"

definition table_create :: "SaTable \<Rightarrow> u16 \<Rightarrow> ServiceType \<Rightarrow> SdlsError + SaTable" where
  "table_create t spi service =
     (if table_find t spi \<noteq> None then Inl (DuplicateSpi spi)
      else case ManagedSa_new spi service of
          Inl e \<Rightarrow> Inl e
        | Inr s \<Rightarrow> if length t < MAX_SAS then Inr (vec_push MAX_SAS t s) else Inl SaTableFull)"

text \<open>\<open>heapless::Vec::swap_remove\<close>: the last entry takes the removed one's place.\<close>

definition swap_remove :: "'a list \<Rightarrow> nat \<Rightarrow> 'a list" where
  "swap_remove xs i = butlast (xs[i := last xs])"

definition table_delete :: "SaTable \<Rightarrow> u16 \<Rightarrow> SdlsError + SaTable" where
  "table_delete t spi =
     (case position (has_spi spi) t of
        None \<Rightarrow> Inl (UnknownSpi spi)
      | Some pos \<Rightarrow> if sa_state (t ! pos) \<noteq> Unkeyed then Inl InvalidSaState else Inr (swap_remove t pos))"

definition table_rekey :: "SaTable \<Rightarrow> u16 \<Rightarrow> u16 \<Rightarrow> SdlsError + SaTable" where
  "table_rekey t spi kid = modify_first (has_spi spi) (sa_rekey kid) (UnknownSpi spi) t"

definition table_start :: "SaTable \<Rightarrow> u16 \<Rightarrow> SdlsError + SaTable" where
  "table_start t spi = modify_first (has_spi spi) sa_start (UnknownSpi spi) t"

definition table_stop :: "SaTable \<Rightarrow> u16 \<Rightarrow> SdlsError + SaTable" where
  "table_stop t spi = modify_first (has_spi spi) sa_stop (UnknownSpi spi) t"

definition table_expire :: "SaTable \<Rightarrow> u16 \<Rightarrow> SdlsError + SaTable" where
  "table_expire t spi = modify_first (has_spi spi) sa_expire (UnknownSpi spi) t"

definition table_set_arsn :: "SaTable \<Rightarrow> u16 \<Rightarrow> nat \<Rightarrow> SdlsError + SaTable" where
  "table_set_arsn t spi arsn = modify_first (has_spi spi) (\<lambda>s. Inr (sa_set_arsn arsn s)) (UnknownSpi spi) t"

definition table_read_arsn :: "SaTable \<Rightarrow> u16 \<Rightarrow> SdlsError + nat" where
  "table_read_arsn t spi =
     (case table_find t spi of None \<Rightarrow> Inl (UnknownSpi spi) | Some s \<Rightarrow> Inr (sa_read_arsn s))"

section \<open>Keys only move forward\<close>

fun state_rank :: "KeyState \<Rightarrow> nat" where
  "state_rank Preactive = 0"
| "state_rank Active = 1"
| "state_rank Deactivated = 2"
| "state_rank Destroyed = 3"

definition key_le :: "ManagedKey \<Rightarrow> ManagedKey \<Rightarrow> bool" where
  "key_le k k' \<longleftrightarrow> key_id k' = key_id k \<and> state_rank (key_state k) \<le> state_rank (key_state k') \<and>
     (if key_state k' = Destroyed then key_bytes k' = replicate 32 0 \<and> key_material k' = []
      else key_bytes k' = key_bytes k \<and> key_len k' = key_len k)"

definition key_ok :: "ManagedKey \<Rightarrow> bool" where
  "key_ok k \<longleftrightarrow> length (key_bytes k) = 32 \<and> key_len k \<le> 32 \<and>
     (if key_state k = Destroyed then key_len k = 0 \<and> key_bytes k = replicate 32 0 else 0 < key_len k)"

definition ring_ok :: "KeyRing \<Rightarrow> bool" where
  "ring_ok ring \<longleftrightarrow> length ring \<le> MAX_KEYS \<and> distinct (map key_id ring) \<and> list_all key_ok ring"

definition ring_le :: "KeyRing \<Rightarrow> KeyRing \<Rightarrow> bool" where
  "ring_le ring ring' \<longleftrightarrow> length ring \<le> length ring' \<and> list_all2 key_le ring (take (length ring) ring')"

lemma ring_ok_new [simp]: "ring_ok KeyRing_new"
  by (simp add: ring_ok_def KeyRing_new_def)

lemma key_le_refl [simp]: "key_ok k \<Longrightarrow> key_le k k"
  by (simp add: key_le_def key_ok_def key_material_def)

lemma key_le_trans: "key_le a b \<Longrightarrow> key_le b c \<Longrightarrow> key_le a c"
  by (cases "key_state a"; cases "key_state b"; cases "key_state c") (auto simp: key_le_def)

lemma ring_le_refl [simp]: "ring_ok ring \<Longrightarrow> ring_le ring ring"
  by (auto simp: ring_le_def ring_ok_def list_all_iff list.rel_refl_strong list_all2_same)

lemma ring_le_trans:
  assumes "ring_le a b" "ring_le b c"
  shows "ring_le a c"
proof -
  have "list_all2 key_le (take (length a) b) (take (length a) (take (length b) c))"
    using assms(2) unfolding ring_le_def by (blast intro: list_all2_takeI)
  then have "list_all2 key_le (take (length a) b) (take (length a) c)"
    using assms(1) by (simp add: ring_le_def min_def)
  moreover have "list_all2 key_le a (take (length a) b)" using assms(1) by (simp add: ring_le_def)
  ultimately have "list_all2 key_le a (take (length a) c)"
    using list_all2_trans [of key_le key_le key_le] key_le_trans by blast
  then show ?thesis using assms by (simp add: ring_le_def)
qed

lemma modify_first_forward:
  assumes ok: "ring_ok ring" and m: "modify_first P f missing ring = Inr ring'"
    and f: "\<And>k k'. key_ok k \<Longrightarrow> f k = Inr k' \<Longrightarrow> key_ok k' \<and> key_le k k'"
  shows "ring_ok ring' \<and> ring_le ring ring'"
proof -
  obtain us k vs k' where r: "ring = us @ k # vs" "ring' = us @ k' # vs" and k: "f k = Inr k'"
    using modify_first_Inr [OF m] by blast
  have k': "key_ok k'" "key_le k k'" using f [OF _ k] ok r(1) by (auto simp: ring_ok_def)
  have "list_all2 key_le us us" "list_all2 key_le vs vs"
    using ok r(1) by (auto simp: ring_ok_def list_all_iff list_all2_same)
  then have "ring_le ring ring'" using r k'(2) by (simp add: ring_le_def list_all2_appendI)
  moreover have "ring_ok ring'" using ok r k' by (auto simp: ring_ok_def key_le_def)
  ultimately show ?thesis by blast
qed

lemma key_load_forward:
  assumes "ring_ok ring" "key_load ring kid mat = Inr ring'"
  shows "ring_ok ring' \<and> ring_le ring ring'"
proof -
  obtain k where k: "ManagedKey_new kid mat = Inr k" "ring' = ring @ [k]" "length ring < MAX_KEYS" "key_find ring kid = None"
    using assms(2) by (auto simp: key_load_def vec_push_def split: if_splits sum.splits)
  then have "key_ok k" "key_id k = kid"
    by (auto simp: ManagedKey_new_def key_ok_def MAX_KEY_LEN_def split: if_splits)
  moreover have "kid \<notin> key_id ` set ring" using k(4) by (auto simp: key_find_def find_None_iff)
  ultimately have "ring_ok ring'" using assms(1) k by (simp add: ring_ok_def)
  moreover have "ring_le ring ring'"
    using assms(1) k(2) by (auto simp: ring_le_def ring_ok_def list_all_iff list_all2_same)
  ultimately show ?thesis by blast
qed

lemma otar_loop_forward:
  "ring_ok ring \<Longrightarrow> otar_loop block count ring = (res, ring') \<Longrightarrow> ring_ok ring' \<and> ring_le ring ring'"
proof (induction block count ring rule: otar_loop.induct)
  case (1 block count ring)
  show ?case
  proof (cases "\<exists>a b c d rest ring1. block = a # b # c # d # rest \<and> unat (be16_to c d) \<le> length rest \<and>
      key_load ring (be16_to a b) (take (unat (be16_to c d)) rest) = Inr ring1")
    case True
    then obtain a b c d rest ring1 where b: "block = a # b # c # d # rest" "\<not> length rest < unat (be16_to c d)"
      and l: "key_load ring (be16_to a b) (take (unat (be16_to c d)) rest) = Inr ring1" by (auto simp: not_less)
    have "otar_loop (drop (unat (be16_to c d)) rest) (count + 1) ring1 = (res, ring')"
      using 1(3) b l by (subst (asm) otar_loop.simps) simp
    then have "ring_ok ring' \<and> ring_le ring1 ring'"
      using "1.IH" [OF b(1) refl refl refl refl refl b(2) l] key_load_forward [OF "1.prems"(1) l] by blast
    then show ?thesis using key_load_forward [OF "1.prems"(1) l] ring_le_trans by blast
  next
    case False
    then have "ring' = ring"
      using 1(3) by (subst (asm) otar_loop.simps) (auto simp: Let_def split: list.splits sum.splits if_splits)
    then show ?thesis using 1(2) by simp
  qed
qed

text \<open>One operation on the ring; an error leaves it as the code leaves it.\<close>

datatype key_op =
    LoadKey u16 bytes | ActivateKey u16 | DeactivateKey u16 | DestroyKey u16
  | Otar u16 bytes bytes bytes CryptoProvider SecurityAssociation

definition or_same :: "'a \<Rightarrow> 'e + 'a \<Rightarrow> 'a" where
  "or_same x r = (case r of Inl e \<Rightarrow> x | Inr y \<Rightarrow> y)"

fun key_step :: "key_op \<Rightarrow> KeyRing \<Rightarrow> KeyRing" where
  "key_step (LoadKey kid mat) ring = or_same ring (key_load ring kid mat)"
| "key_step (ActivateKey kid) ring = or_same ring (ring_activate ring kid)"
| "key_step (DeactivateKey kid) ring = or_same ring (ring_deactivate ring kid)"
| "key_step (DestroyKey kid) ring = or_same ring (ring_destroy ring kid)"
| "key_step (Otar mk iv block tag crypto sa) ring = fst (snd (otar ring mk iv block tag crypto sa))"

definition key_run :: "key_op list \<Rightarrow> KeyRing \<Rightarrow> KeyRing" where
  "key_run ops ring = fold key_step ops ring"

lemma or_same_forward:
  "ring_ok ring \<Longrightarrow> (\<And>ring'. r = Inr ring' \<Longrightarrow> ring_ok ring' \<and> ring_le ring ring') \<Longrightarrow>
     ring_ok (or_same ring r) \<and> ring_le ring (or_same ring r)"
  by (cases r) (simp_all add: or_same_def)

lemma modify_or_same_forward:
  assumes "ring_ok ring" and "\<And>k k'. key_ok k \<Longrightarrow> f k = Inr k' \<Longrightarrow> key_ok k' \<and> key_le k k'"
  shows "ring_ok (or_same ring (modify_first P f missing ring)) \<and> ring_le ring (or_same ring (modify_first P f missing ring))"
  using assms(1) by (rule or_same_forward) (rule modify_first_forward [OF assms(1) _ assms(2)])

lemma key_step_forward:
  assumes "ring_ok ring"
  shows "ring_ok (key_step op ring) \<and> ring_le ring (key_step op ring)"
proof (cases op)
  case (LoadKey kid mat)
  then show ?thesis using assms key_load_forward by (simp add: or_same_forward)
next
  case (ActivateKey kid)
  have "key_ok k \<Longrightarrow> key_activate k = Inr k' \<Longrightarrow> key_ok k' \<and> key_le k k'" for k k'
    by (auto simp: key_activate_def key_ok_def key_le_def split: if_splits)
  then show ?thesis using ActivateKey assms by (simp add: ring_activate_def modify_or_same_forward)
next
  case (DeactivateKey kid)
  have "key_ok k \<Longrightarrow> key_deactivate k = Inr k' \<Longrightarrow> key_ok k' \<and> key_le k k'" for k k'
    by (auto simp: key_deactivate_def key_ok_def key_le_def split: if_splits)
  then show ?thesis using DeactivateKey assms by (simp add: ring_deactivate_def modify_or_same_forward)
next
  case (DestroyKey kid)
  have "key_ok k \<Longrightarrow> key_ok (key_destroy k) \<and> key_le k (key_destroy k)" for k
    by (cases "key_state k") (auto simp: key_destroy_def key_ok_def key_le_def key_material_def MAX_KEY_LEN_def)
  then show ?thesis using DestroyKey assms by (auto simp: ring_destroy_def intro!: modify_or_same_forward [THEN conjunct1] modify_or_same_forward [THEN conjunct2])
next
  case (Otar mk iv block tag crypto sa)
  then show ?thesis using assms otar_loop_forward [OF assms]
    by (auto simp: otar_def split: option.splits prod.splits sum.splits)
qed

lemma key_run_forward: "ring_ok ring \<Longrightarrow> ring_ok (key_run ops ring) \<and> ring_le ring (key_run ops ring)"
proof (induction ops arbitrary: ring)
  case (Cons op ops)
  then show ?case using key_step_forward [OF Cons.prems, of op] Cons.IH ring_le_trans
    by (auto simp: key_run_def)
qed (simp add: key_run_def)

text \<open>
  C34: Whatever operations are applied to a key ring, over-the-air rekeying with any backend
  and any block included: identifiers stay unique, every key stays in its place, its state
  only moves forward, its material does not change until it is destroyed, and then it is zero
  for ever; no later delivery can reuse its identifier.
\<close>

theorem key_lifecycle:
  "ring_ok (key_run (ops @ ops') KeyRing_new) \<and>
   ring_le (key_run ops KeyRing_new) (key_run (ops @ ops') KeyRing_new)"
  using key_run_forward [OF ring_ok_new, of ops] key_run_forward [of "key_run ops KeyRing_new" ops'] ring_le_trans
  by (simp add: key_run_def)

text \<open>
  Verification of a key does not depend on the key: with any other material in the ring,
  the response to a challenge is the same.
\<close>

theorem verify_ignores_key:
  "key_verify (map (\<lambda>k. k\<lparr>key_bytes := other (key_id k), key_len := n (key_id k)\<rparr>) ring) kid iv challenge out tag crypto sa =
   key_verify ring kid iv challenge out tag crypto sa"
proof -
  have "key_find (map (\<lambda>k. k\<lparr>key_bytes := other (key_id k), key_len := n (key_id k)\<rparr>) ring) kid
      = map_option (\<lambda>k. k\<lparr>key_bytes := other (key_id k), key_len := n (key_id k)\<rparr>) (key_find ring kid)"
    by (induction ring) (auto simp: key_find_def)
  then show ?thesis by (cases "key_find ring kid") (simp_all add: key_verify_def)
qed

section \<open>The table as a map\<close>

text \<open>
  The abstract table: a partial map from indices to managed associations, of at most 64
  entries.
\<close>

datatype sa_op =
    CreateSa u16 ServiceType | DeleteSa u16 | RekeySa u16 u16 | StartSa u16 | StopSa u16 | ExpireSa u16 | SetArsn u16 nat

fun table_step :: "sa_op \<Rightarrow> SaTable \<Rightarrow> SaTable" where
  "table_step (CreateSa spi service) t = or_same t (table_create t spi service)"
| "table_step (DeleteSa spi) t = or_same t (table_delete t spi)"
| "table_step (RekeySa spi kid) t = or_same t (table_rekey t spi kid)"
| "table_step (StartSa spi) t = or_same t (table_start t spi)"
| "table_step (StopSa spi) t = or_same t (table_stop t spi)"
| "table_step (ExpireSa spi) t = or_same t (table_expire t spi)"
| "table_step (SetArsn spi n) t = or_same t (table_set_arsn t spi n)"

definition spec_modify :: "u16 \<Rightarrow> (ManagedSa \<Rightarrow> 'e + ManagedSa) \<Rightarrow> (u16 \<rightharpoonup> ManagedSa) \<Rightarrow> (u16 \<rightharpoonup> ManagedSa)" where
  "spec_modify spi f m =
     (case m spi of None \<Rightarrow> m | Some s \<Rightarrow> (case f s of Inl e \<Rightarrow> m | Inr s' \<Rightarrow> m(spi \<mapsto> s')))"

fun spec_step :: "sa_op \<Rightarrow> (u16 \<rightharpoonup> ManagedSa) \<Rightarrow> (u16 \<rightharpoonup> ManagedSa)" where
  "spec_step (CreateSa spi service) m =
     (case ManagedSa_new spi service of
        Inl e \<Rightarrow> m
      | Inr s \<Rightarrow> if m spi = None \<and> card (dom m) < MAX_SAS then m(spi \<mapsto> s) else m)"
| "spec_step (DeleteSa spi) m =
     (case m spi of None \<Rightarrow> m | Some s \<Rightarrow> if sa_state s = Unkeyed then m(spi := None) else m)"
| "spec_step (RekeySa spi kid) m = spec_modify spi (sa_rekey kid) m"
| "spec_step (StartSa spi) m = spec_modify spi sa_start m"
| "spec_step (StopSa spi) m = spec_modify spi sa_stop m"
| "spec_step (ExpireSa spi) m = spec_modify spi sa_expire m"
| "spec_step (SetArsn spi n) m = spec_modify spi (\<lambda>s. Inr (sa_set_arsn n s) :: SdlsError + ManagedSa) m"

abbreviation spi_of :: "ManagedSa \<Rightarrow> u16" where "spi_of s \<equiv> sa_spi (managed_sa s)"

definition table_ok :: "SaTable \<Rightarrow> bool" where
  "table_ok t \<longleftrightarrow> distinct (map spi_of t) \<and>
     list_all (\<lambda>s. \<not> reserved_spi (spi_of s) \<and> (sa_state s = Unkeyed \<longleftrightarrow> sa_key s = None)) t"

lemma table_find_Some_iff: "table_ok t \<Longrightarrow> table_find t spi = Some s \<longleftrightarrow> s \<in> set t \<and> spi_of s = spi"
  by (induction t) (auto simp: table_find_def table_ok_def has_spi_def)

lemma table_find_eqI:
  assumes "table_ok t" "\<And>spi s. m spi = Some s \<longleftrightarrow> s \<in> set t \<and> spi_of s = spi"
  shows "table_find t = m"
proof
  fix spi
  have "table_find t spi = Some s \<longleftrightarrow> m spi = Some s" for s
    using assms by (simp add: table_find_Some_iff)
  then show "table_find t spi = m spi" by (cases "m spi"; cases "table_find t spi") auto
qed

lemma card_dom_table: "table_ok t \<Longrightarrow> card (dom (table_find t)) = length t"
proof -
  assume "table_ok t"
  then have "dom (table_find t) = set (map spi_of t)" by (auto simp: dom_def table_find_Some_iff)
  then show ?thesis using \<open>table_ok t\<close> by (metis table_ok_def distinct_card length_map)
qed

lemma modify_first_Inl: "modify_first P f missing xs = Inl e \<Longrightarrow> find P xs = None \<or> (\<exists>x. find P xs = Some x \<and> f x = Inl e)"
proof (induction xs)
  case (Cons x xs)
  then show ?case by (cases "f x"; cases "modify_first P f missing xs") (auto split: if_splits)
qed simp

lemma table_modify:
  assumes ok: "table_ok t"
    and f: "\<And>s s'. f s = Inr s' \<Longrightarrow> spi_of s' = spi_of s \<and>
      ((sa_state s = Unkeyed \<longleftrightarrow> sa_key s = None) \<longrightarrow> (sa_state s' = Unkeyed \<longleftrightarrow> sa_key s' = None))"
  shows "table_ok (or_same t (modify_first (has_spi spi) f missing t)) \<and>
    table_find (or_same t (modify_first (has_spi spi) f missing t)) = spec_modify spi f (table_find t)"
proof (cases "modify_first (has_spi spi) f missing t")
  case (Inl e)
  then show ?thesis using modify_first_Inl [OF Inl] ok
    by (auto simp: or_same_def spec_modify_def table_find_def)
next
  case (Inr t')
  obtain us s vs s' where t: "t = us @ s # vs" "t' = us @ s' # vs" and s: "has_spi spi s" "f s = Inr s'"
    using modify_first_Inr [OF Inr] by blast
  have s': "spi_of s' = spi" "sa_state s' = Unkeyed \<longleftrightarrow> sa_key s' = None"
    using f [OF s(2)] s(1) ok t by (auto simp: has_spi_def table_ok_def)
  have ok': "table_ok t'" using ok t s s' by (auto simp: table_ok_def has_spi_def)
  have found: "table_find t spi = Some s" using ok t s by (simp add: table_find_Some_iff has_spi_def)
  have others: "x \<in> set us \<union> set vs \<Longrightarrow> spi_of x \<noteq> spi" for x
    using ok t(1) s(1) by (force simp: table_ok_def has_spi_def)
  have "table_find t' = (table_find t)(spi \<mapsto> s')"
  proof (rule table_find_eqI [OF ok'])
    fix spi' s''
    show "((table_find t)(spi \<mapsto> s')) spi' = Some s'' \<longleftrightarrow> s'' \<in> set t' \<and> spi_of s'' = spi'"
      using t s s' others [of s''] table_find_Some_iff [OF ok, of spi' s'']
      by (auto simp: has_spi_def)
  qed
  then show ?thesis using Inr ok' found s by (simp add: or_same_def spec_modify_def)
qed

lemma mset_swap_remove: "i < length xs \<Longrightarrow> \<exists>ys zs. xs = ys @ xs ! i # zs \<and> set (swap_remove xs i) = set (ys @ zs) \<and>
    (distinct (map f xs) \<longrightarrow> distinct (map f (swap_remove xs i)))"
proof (cases "i = length xs - 1")
  case True
  assume "i < length xs"
  then have "xs = butlast xs @ [xs ! i]" using True by (metis append_butlast_last_id last_conv_nth length_0_conv less_nat_zero_code)
  moreover have "xs[i := last xs] = xs" using \<open>i < length xs\<close> True by (metis last_conv_nth length_0_conv less_nat_zero_code list_update_id)
  moreover have "distinct (map f xs) \<longrightarrow> distinct (map f (butlast xs))" by (simp add: distinct_butlast map_butlast)
  ultimately show ?thesis by (intro exI [of _ "butlast xs"] exI [of _ "[]"]) (simp add: swap_remove_def)
next
  case False
  assume i: "i < length xs"
  then have i': "i < length (butlast xs)" using False by simp
  have xs: "xs = butlast xs @ [last xs]" using i by (metis append_butlast_last_id length_0_conv less_nat_zero_code)
  have "xs[i := last xs] = (butlast xs)[i := last xs] @ [last xs]"
    using xs i' by (metis list_update_append1)
  then have "swap_remove xs i = (butlast xs)[i := last xs]" by (simp add: swap_remove_def)
  also have "\<dots> = take i (butlast xs) @ last xs # drop (Suc i) (butlast xs)"
    using i' by (rule upd_conv_take_nth_drop)
  finally have sr: "swap_remove xs i = take i (butlast xs) @ last xs # drop (Suc i) (butlast xs)" .
  have "butlast xs = take i (butlast xs) @ xs ! i # drop (Suc i) (butlast xs)"
    using id_take_nth_drop [OF i'] nth_butlast [OF i'] by simp
  then have split: "xs = take i (butlast xs) @ xs ! i # (drop (Suc i) (butlast xs) @ [last xs])"
    using xs by (metis append_Cons append_assoc)
  then have "distinct (map f xs) \<longrightarrow> distinct (map f (take i (butlast xs) @ xs ! i # (drop (Suc i) (butlast xs) @ [last xs])))"
    by simp
  then have "distinct (map f xs) \<longrightarrow> distinct (map f (swap_remove xs i))" unfolding sr by auto
  then show ?thesis using split sr by (intro exI [of _ "take i (butlast xs)"] exI [of _ "drop (Suc i) (butlast xs) @ [last xs]"]) auto
qed

lemma table_delete_refines:
  assumes ok: "table_ok t"
  shows "table_ok (table_step (DeleteSa spi) t) \<and> table_find (table_step (DeleteSa spi) t) = spec_step (DeleteSa spi) (table_find t)"
proof (cases "position (has_spi spi) t")
  case None
  then have "table_find t spi = None" by (auto simp: table_find_def find_None_iff)
  then show ?thesis using ok by (simp only: table_step.simps spec_step.simps table_delete_def None or_same_def) simp
next
  case (Some pos)
  then have pos: "pos < length t" "has_spi spi (t ! pos)" by (rule position_SomeD)+
  then have found: "table_find t spi = Some (t ! pos)" using ok by (simp add: table_find_Some_iff has_spi_def)
  show ?thesis
  proof (cases "sa_state (t ! pos) = Unkeyed")
    case True
    obtain ys zs where t: "t = ys @ t ! pos # zs" "set (swap_remove t pos) = set (ys @ zs)"
      and d: "distinct (map spi_of (swap_remove t pos))"
      using mset_swap_remove [OF pos(1), of spi_of] ok by (auto simp: table_ok_def)
    have mem: "s \<in> set t \<longleftrightarrow> s = t ! pos \<or> s \<in> set (ys @ zs)" for s
      using arg_cong [OF t(1), of "\<lambda>l. s \<in> set l"] by auto
    then have "set (swap_remove t pos) \<subseteq> set t" unfolding t(2) by blast
    then have ok': "table_ok (swap_remove t pos)" using ok d by (auto simp: table_ok_def list_all_iff)
    have dist: "distinct (map spi_of (ys @ t ! pos # zs))" using ok t(1) by (simp add: table_ok_def)
    have others: "x \<in> set (ys @ zs) \<Longrightarrow> spi_of x \<noteq> spi" for x
      using dist pos(2) by (force simp: has_spi_def)
    have "table_find (swap_remove t pos) = (table_find t)(spi := None)"
    proof (rule table_find_eqI [OF ok'])
      fix spi' s
      show "((table_find t)(spi := None)) spi' = Some s \<longleftrightarrow> s \<in> set (swap_remove t pos) \<and> spi_of s = spi'"
        using pos(2) mem [of s] others [of s] table_find_Some_iff [OF ok, of spi' s]
        by (auto simp: has_spi_def t(2))
    qed
    then show ?thesis using Some True ok' found by (simp add: table_delete_def or_same_def)
  next
    case False
    then show ?thesis using Some ok found by (simp add: table_delete_def or_same_def)
  qed
qed

lemma table_create_refines:
  assumes ok: "table_ok t"
  shows "table_ok (table_step (CreateSa spi service) t) \<and>
    table_find (table_step (CreateSa spi service) t) = spec_step (CreateSa spi service) (table_find t)"
proof (cases "ManagedSa_new spi service")
  case (Inl e)
  then show ?thesis using ok by (simp add: table_create_def or_same_def)
next
  case (Inr s)
  then have s: "spi_of s = spi" "\<not> reserved_spi spi" "sa_state s = Unkeyed \<longleftrightarrow> sa_key s = None"
    by (auto simp: ManagedSa_new_def split: if_splits)
  show ?thesis
  proof (cases "table_find t spi = None \<and> length t < MAX_SAS")
    case True
    then have new: "x \<in> set t \<Longrightarrow> spi_of x \<noteq> spi" for x by (auto simp: table_find_def find_None_iff has_spi_def)
    then have "spi \<notin> spi_of ` set t" by blast
    then have ok': "table_ok (t @ [s])" using ok s by (auto simp: table_ok_def)
    moreover have "table_find (t @ [s]) = (table_find t)(spi \<mapsto> s)"
    proof (rule table_find_eqI [OF ok'])
      fix spi' sa
      show "((table_find t)(spi \<mapsto> s)) spi' = Some sa \<longleftrightarrow> sa \<in> set (t @ [s]) \<and> spi_of sa = spi'"
        using s new [of sa] table_find_Some_iff [OF ok, of spi' sa] by auto
    qed
    ultimately show ?thesis using True Inr ok by (simp add: table_create_def or_same_def card_dom_table)
  next
    case False
    then show ?thesis using Inr ok by (auto simp: table_create_def or_same_def card_dom_table)
  qed
qed

lemma table_step_refines:
  assumes "table_ok t"
  shows "table_ok (table_step op t) \<and> table_find (table_step op t) = spec_step op (table_find t)"
proof (cases op)
  case (CreateSa spi service)
  then show ?thesis using table_create_refines [OF assms] by simp
next
  case (DeleteSa spi)
  then show ?thesis using table_delete_refines [OF assms] by simp
next
  case (RekeySa spi kid)
  show ?thesis unfolding RekeySa table_step.simps spec_step.simps table_rekey_def
    by (rule table_modify [OF assms]) (auto simp: sa_rekey_def split: if_splits)
next
  case (StartSa spi)
  show ?thesis unfolding StartSa table_step.simps spec_step.simps table_start_def
    by (rule table_modify [OF assms]) (auto simp: sa_start_def split: if_splits)
next
  case (StopSa spi)
  show ?thesis unfolding StopSa table_step.simps spec_step.simps table_stop_def
    by (rule table_modify [OF assms]) (auto simp: sa_stop_def split: if_splits)
next
  case (ExpireSa spi)
  show ?thesis unfolding ExpireSa table_step.simps spec_step.simps table_expire_def
    by (rule table_modify [OF assms]) (auto simp: sa_expire_def split: if_splits)
next
  case (SetArsn spi n)
  show ?thesis unfolding SetArsn table_step.simps spec_step.simps table_set_arsn_def
    by (rule table_modify [OF assms]) (auto simp: sa_set_arsn_def)
qed

text \<open>
  C29: After any operations on a new table, looking an index up gives what an abstract map
  gives, each operation acting on the entry of its index alone; indices are unique and never
  reserved, and an association has a key exactly when it is keyed or operational.
\<close>

theorem sa_table_refines_map:
  "table_find (fold table_step ops SaTable_new) = fold spec_step ops (\<lambda>_. None) \<and>
   table_ok (fold table_step ops SaTable_new)"
proof -
  have "table_ok t \<Longrightarrow> table_find (fold table_step ops t) = fold spec_step ops (table_find t) \<and> table_ok (fold table_step ops t)" for t
    using table_step_refines by (induction ops arbitrary: t) simp_all
  moreover have "table_ok SaTable_new" "table_find SaTable_new = (\<lambda>_. None)"
    by (auto simp: table_ok_def SaTable_new_def table_find_def)
  ultimately show ?thesis by metis
qed

end
