(* ===== verification/Isl_Router.thy ===== *)
theory Isl_Router
  imports Isl_Packet Ringbuf
begin

text \<open>
  The packet router of a satellite (\<open>network/isl/routing/mod.rs\<close>): five ports (four
  inter-satellite links and the ground link), each with an input buffer, an output queue (the
  ring buffer of \<open>Ringbuf\<close>) and a staging buffer. One step is one iteration of the loop of
  \<open>read\<close>. The links are not state of the router: what \<open>select_biased!\<close> reports of them is an
  event, a completed read with its result and the contents it leaves in the port's buffer, or
  a completed write. The routing algorithm and the clock are parameters.
\<close>

section \<open>Ports and the router\<close>

record port =
  port_buf :: bytes
  port_out :: ring
  port_stage :: bytes

text \<open>The two buffers come from the pool.\<close>

definition Port_new :: "nat \<Rightarrow> bytes \<Rightarrow> bytes \<Rightarrow> port" where
  "Port_new OUT buf stage = \<lparr>port_buf = buf, port_out = RingBuffer_new OUT, port_stage = stage\<rparr>"

record RouterDiag =
  iterations :: "64 word"
  isl_reads :: "64 word list"
  isl_writes :: "64 word list"
  ground_read :: "64 word"
  ground_write :: "64 word"
  last_route :: "u8 \<times> u16 \<times> u8"

definition RouterDiag_default :: RouterDiag where
  "RouterDiag_default =
     \<lparr>iterations = 0, isl_reads = replicate 4 0, isl_writes = replicate 4 0, ground_read = 0, ground_write = 0,
      last_route = (0, 0, 0)\<rparr>"

record router =
  north :: port
  south :: port
  east :: port
  west :: port
  ground :: port
  ro_address :: Address
  ro_diag :: RouterDiag

definition Router_new :: "nat \<Rightarrow> (nat \<Rightarrow> bytes) \<Rightarrow> Address \<Rightarrow> router" where
  "Router_new OUT pool address =
     \<lparr>north = Port_new OUT (pool 0) (pool 1), south = Port_new OUT (pool 2) (pool 3),
      east = Port_new OUT (pool 4) (pool 5), west = Port_new OUT (pool 6) (pool 7),
      ground = Port_new OUT (pool 8) (pool 9), ro_address = address, ro_diag = RouterDiag_default\<rparr>"

definition take_diag :: "router \<Rightarrow> RouterDiag \<times> router" where
  "take_diag r = (ro_diag r, r\<lparr>ro_diag := RouterDiag_default\<rparr>)"

datatype ('e, 'g) RouterError =
    North_link 'e | South_link 'e | East_link 'e | West_link 'e | Ground_link 'g
  | RouterBufferTooSmall (needed: nat) (provided: nat)
  | RouterMessageError IslMessageError

fun link_error :: "Direction \<Rightarrow> 'e \<Rightarrow> ('e, 'g) RouterError" where
  "link_error North e = North_link e"
| "link_error South e = South_link e"
| "link_error East e = East_link e"
| "link_error West e = West_link e"

section \<open>Sending\<close>

text \<open>
  \<open>NetworkWrite::write\<close> hands the parsed packet straight to the link of its next hop; \<open>link\<close>
  and \<open>ground_link\<close> are the write halves.
\<close>

definition router_write ::
  "(Point \<Rightarrow> Address \<Rightarrow> u32 \<Rightarrow> Hop) \<Rightarrow> u32 \<Rightarrow> (Direction \<Rightarrow> bytes \<Rightarrow> 'e + unit) \<Rightarrow> (bytes \<Rightarrow> 'g + unit) \<Rightarrow>
     router \<Rightarrow> bytes \<Rightarrow> ('e, 'g) RouterError + unit" where
  "router_write route now link ground_link r data =
     (case isl_parse data of
        Inl e \<Rightarrow> Inl (RouterMessageError e)
      | Inr pkt \<Rightarrow>
          (case route (Point_from (ro_address r)) (isl_target pkt) now of
             Isl d \<Rightarrow> map_sum (link_error d) id (link d pkt)
           | Ground_hop \<Rightarrow> map_sum Ground_link id (ground_link pkt)
           | Local \<Rightarrow> Inr ()))"

section \<open>The read loop\<close>

datatype ('e, 'g) router_event =
    IslRead "'e + nat" Direction bytes
  | GroundRead "'g + nat" bytes
  | IslWrite Direction
  | GroundWrite

text \<open>
  \<open>stage!\<close>: the front of the queue, if any, is copied to the staging buffer, from which a
  write future is started.
\<close>

definition stage :: "port \<Rightarrow> port outcome" where
  "stage p =
     (case front (port_out p) of
        Panics \<Rightarrow> Panics
      | Returns None \<Rightarrow> Returns p
      | Returns (Some data) \<Rightarrow>
          (if length (port_stage p) < length data then Panics
           else Returns (p\<lparr>port_stage := blit (port_stage p) 0 data\<rparr>)))"

definition stage_all :: "router \<Rightarrow> router outcome" where
  "stage_all r =
     (case stage (north r) of Panics \<Rightarrow> Panics | Returns n \<Rightarrow>
      case stage (south r) of Panics \<Rightarrow> Panics | Returns s \<Rightarrow>
      case stage (east r) of Panics \<Rightarrow> Panics | Returns e \<Rightarrow>
      case stage (west r) of Panics \<Rightarrow> Panics | Returns w \<Rightarrow>
      case stage (ground r) of Panics \<Rightarrow> Panics | Returns g \<Rightarrow>
        Returns (r\<lparr>north := n, south := s, east := e, west := w, ground := g\<rparr>))"

text \<open>The index of a direction in the counters.\<close>

fun dir_index :: "Direction \<Rightarrow> nat" where
  "dir_index North = 0" | "dir_index South = 1" | "dir_index East = 2" | "dir_index West = 3"

fun hop_code :: "Hop \<Rightarrow> u8" where
  "hop_code Local = 0"
| "hop_code (Isl North) = 1"
| "hop_code (Isl South) = 2"
| "hop_code (Isl East) = 3"
| "hop_code (Isl West) = 4"
| "hop_code Ground_hop = 5"

fun target_raw :: "Address \<Rightarrow> u16" where
  "target_raw (Ground station) = ucast station OR 0x8000"
| "target_raw (Satellite p) = push_bit 8 (ucast (orb p)) OR ucast (sat p)"

fun count_event :: "('e, 'g) router_event \<Rightarrow> RouterDiag \<Rightarrow> RouterDiag" where
  "count_event (IslWrite d) g = g\<lparr>isl_writes := (isl_writes g)[dir_index d := isl_writes g ! dir_index d + 1]\<rparr>"
| "count_event GroundWrite g = g\<lparr>ground_write := ground_write g + 1\<rparr>"
| "count_event (IslRead _ d _) g = g\<lparr>isl_reads := (isl_reads g)[dir_index d := isl_reads g ! dir_index d + 1]\<rparr>"
| "count_event (GroundRead _ _) g = g\<lparr>ground_read := ground_read g + 1\<rparr>"

definition enqueue :: "bytes \<Rightarrow> port \<Rightarrow> port outcome option" where
  "enqueue data p =
     (case push data (port_out p) of
        None \<Rightarrow> None
      | Some Panics \<Rightarrow> Some Panics
      | Some (Returns (_, q)) \<Rightarrow> Some (Returns (p\<lparr>port_out := q\<rparr>)))"

definition dequeue :: "port \<Rightarrow> port outcome option" where
  "dequeue p = (case pop (port_out p) of Panics \<Rightarrow> Some Panics | Returns q \<Rightarrow> Some (Returns (p\<lparr>port_out := q\<rparr>)))"

text \<open>An operation on the port of a hop; there is none for \<open>Local\<close>.\<close>

definition lift_port :: "(port \<Rightarrow> router) \<Rightarrow> port outcome option \<Rightarrow> router outcome option" where
  "lift_port upd x =
     (case x of None \<Rightarrow> None | Some Panics \<Rightarrow> Some Panics | Some (Returns p) \<Rightarrow> Some (Returns (upd p)))"

fun on_port :: "(port \<Rightarrow> port outcome option) \<Rightarrow> Hop \<Rightarrow> router \<Rightarrow> router outcome option" where
  "on_port f (Isl North) r = lift_port (\<lambda>p. r\<lparr>north := p\<rparr>) (f (north r))"
| "on_port f (Isl South) r = lift_port (\<lambda>p. r\<lparr>south := p\<rparr>) (f (south r))"
| "on_port f (Isl East) r = lift_port (\<lambda>p. r\<lparr>east := p\<rparr>) (f (east r))"
| "on_port f (Isl West) r = lift_port (\<lambda>p. r\<lparr>west := p\<rparr>) (f (west r))"
| "on_port f Ground_hop r = lift_port (\<lambda>p. r\<lparr>ground := p\<rparr>) (f (ground r))"
| "on_port f Local r = Some (Returns r)"

text \<open>What one iteration does: the loop goes on, or \<open>read\<close> returns. The caller's buffer comes back too.\<close>

datatype ('e, 'g) step_result = Continue | Done "('e, 'g) RouterError + nat"

type_synonym ('e, 'g) router_stepped = "(('e, 'g) step_result \<times> bytes \<times> router) outcome option"

definition continue_with :: "bytes \<Rightarrow> router outcome option \<Rightarrow> ('e, 'g) router_stepped" where
  "continue_with buffer x =
     (case x of None \<Rightarrow> None | Some Panics \<Rightarrow> Some Panics | Some (Returns r) \<Rightarrow> Some (Returns (Continue, buffer, r)))"

definition route_packet ::
  "(Point \<Rightarrow> Address \<Rightarrow> u32 \<Rightarrow> Hop) \<Rightarrow> u32 \<Rightarrow> bytes \<Rightarrow> nat \<Rightarrow> u8 \<Rightarrow> bytes \<Rightarrow> router \<Rightarrow> ('e, 'g) router_stepped" where
  "route_packet route now in_buf len from_port buffer r =
     (if length in_buf < len then Some Panics
      else
        let buf = take len in_buf in
        case isl_parse buf of
          Inl _ \<Rightarrow> Some (Returns (Continue, buffer, r))
        | Inr pkt \<Rightarrow>
            (let target = isl_target pkt;
                 next = route (Point_from (ro_address r)) target now;
                 r = r\<lparr>ro_diag := (ro_diag r)\<lparr>last_route := (from_port, target_raw target, hop_code next)\<rparr>\<rparr>
             in if next = Local
                then (if length buffer < len
                      then Some (Returns (Done (Inl (RouterBufferTooSmall len (length buffer))), buffer, r))
                      else Some (Returns (Done (Inr len), blit buffer 0 buf, r)))
                else continue_with buffer (on_port (enqueue buf) next r)))"

text \<open>The contents a completed read leaves in the input buffer of its port.\<close>

fun fill_input :: "('e, 'g) router_event \<Rightarrow> router \<Rightarrow> router" where
  "fill_input (IslRead _ North b) r = r\<lparr>north := (north r)\<lparr>port_buf := b\<rparr>\<rparr>"
| "fill_input (IslRead _ South b) r = r\<lparr>south := (south r)\<lparr>port_buf := b\<rparr>\<rparr>"
| "fill_input (IslRead _ East b) r = r\<lparr>east := (east r)\<lparr>port_buf := b\<rparr>\<rparr>"
| "fill_input (IslRead _ West b) r = r\<lparr>west := (west r)\<lparr>port_buf := b\<rparr>\<rparr>"
| "fill_input (GroundRead _ b) r = r\<lparr>ground := (ground r)\<lparr>port_buf := b\<rparr>\<rparr>"
| "fill_input _ r = r"

fun handle_event ::
  "(Point \<Rightarrow> Address \<Rightarrow> u32 \<Rightarrow> Hop) \<Rightarrow> u32 \<Rightarrow> ('e, 'g) router_event \<Rightarrow> bytes \<Rightarrow> router \<Rightarrow> ('e, 'g) router_stepped" where
  "handle_event route now (IslWrite d) buffer r = continue_with buffer (on_port dequeue (Isl d) r)"
| "handle_event route now GroundWrite buffer r = continue_with buffer (on_port dequeue Ground_hop r)"
| "handle_event route now (GroundRead result b) buffer r =
     (case result of
        Inl e \<Rightarrow> Some (Returns (Done (Inl (Ground_link e)), buffer, r))
      | Inr len \<Rightarrow> route_packet route now b len 0 buffer r)"
| "handle_event route now (IslRead result d b) buffer r =
     (case result of
        Inl e \<Rightarrow> Some (Returns (Done (Inl (link_error d e)), buffer, r))
      | Inr len \<Rightarrow> route_packet route now b len (of_nat (dir_index d) + 1) buffer r)"

definition router_step ::
  "(Point \<Rightarrow> Address \<Rightarrow> u32 \<Rightarrow> Hop) \<Rightarrow> u32 \<Rightarrow> ('e, 'g) router_event \<Rightarrow> bytes \<Rightarrow> router \<Rightarrow> ('e, 'g) router_stepped" where
  "router_step route now ev buffer r =
     (let r = r\<lparr>ro_diag := (ro_diag r)\<lparr>iterations := iterations (ro_diag r) + 1\<rparr>\<rparr> in
      case stage_all r of
        Panics \<Rightarrow> Some Panics
      | Returns r \<Rightarrow>
          (let r = fill_input ev r; r = r\<lparr>ro_diag := count_event ev (ro_diag r)\<rparr>
           in handle_event route now ev buffer r))"

text \<open>\<open>read\<close> on the events to come, each with the time of its iteration; \<open>None\<close> while it waits.\<close>

fun router_read ::
  "(Point \<Rightarrow> Address \<Rightarrow> u32 \<Rightarrow> Hop) \<Rightarrow> (('e, 'g) router_event \<times> u32) list \<Rightarrow> bytes \<Rightarrow> router \<Rightarrow>
     ((('e, 'g) RouterError + nat) option \<times> bytes \<times> router \<times> (('e, 'g) router_event \<times> u32) list) outcome option" where
  "router_read route [] buffer r = Some (Returns (None, buffer, r, []))"
| "router_read route ((ev, now) # evs) buffer r =
     (case router_step route now ev buffer r of
        None \<Rightarrow> None
      | Some Panics \<Rightarrow> Some Panics
      | Some (Returns (Continue, buffer, r)) \<Rightarrow> router_read route evs buffer r
      | Some (Returns (Done res, buffer, r)) \<Rightarrow> Some (Returns (Some res, buffer, r, evs)))"

end
