(* ===== verification/Isl_Forwarding.thy ===== *)
theory Isl_Forwarding
  imports Isl_Router
begin

text \<open>
  What the router guarantees: every packet it reads is delivered to its caller or put in the
  queue of its next hop, or refused by a full queue, and every queue is sent first in, first
  out; and satellites that run the router bring a packet along a shortest path to its target.
\<close>

section \<open>Runs and their logs\<close>

fun port_of :: "Hop \<Rightarrow> router \<Rightarrow> port" where
  "port_of (Isl North) r = north r"
| "port_of (Isl South) r = south r"
| "port_of (Isl East) r = east r"
| "port_of (Isl West) r = west r"
| "port_of Ground_hop r = ground r"
| "port_of Local r = Port_new 0 [] []"

abbreviation queue_at :: "Hop \<Rightarrow> router \<Rightarrow> ring" where
  "queue_at h r \<equiv> port_out (port_of h r)"

text \<open>The packet an event brings and the hop it is routed to, if it brings one that parses.\<close>

fun received :: "('e, 'g) router_event \<Rightarrow> bytes option" where
  "received (IslRead (Inr len) d b) = Some (take len b)"
| "received (GroundRead (Inr len) b) = Some (take len b)"
| "received _ = None"

definition arrival ::
  "(Point \<Rightarrow> Address \<Rightarrow> u32 \<Rightarrow> Hop) \<Rightarrow> Address \<Rightarrow> ('e, 'g) router_event \<Rightarrow> u32 \<Rightarrow> (Hop \<times> bytes) option" where
  "arrival route address ev now =
     (case received ev of
        None \<Rightarrow> None
      | Some buf \<Rightarrow>
          (case isl_parse buf of
             Inl _ \<Rightarrow> None
           | Inr pkt \<Rightarrow> Some (route (Point_from address) (isl_target pkt) now, buf)))"

datatype log_entry = Took Hop bytes | Refused Hop bytes | Wrote Hop bytes | Delivered bytes

fun write_hop :: "('e, 'g) router_event \<Rightarrow> Hop option" where
  "write_hop (IslWrite d) = Some (Isl d)"
| "write_hop GroundWrite = Some Ground_hop"
| "write_hop _ = None"

definition step_log ::
  "(Point \<Rightarrow> Address \<Rightarrow> u32 \<Rightarrow> Hop) \<Rightarrow> ('e, 'g) router_event \<Rightarrow> u32 \<Rightarrow> router \<Rightarrow> ('e, 'g) step_result \<Rightarrow> bytes \<Rightarrow> log_entry list" where
  "step_log route ev now r res buffer' =
     (case write_hop ev of
        Some h \<Rightarrow> (case front (queue_at h r) of Returns (Some x) \<Rightarrow> [Wrote h x] | _ \<Rightarrow> [])
      | None \<Rightarrow>
          (case arrival route (ro_address r) ev now of
             None \<Rightarrow> []
           | Some (h, buf) \<Rightarrow>
               (if h = Local then (case res of Done (Inr n) \<Rightarrow> [Delivered (take n buffer')] | _ \<Rightarrow> [])
                else case push buf (queue_at h r) of
                    Some (Returns (True, _)) \<Rightarrow> [Took h buf]
                  | _ \<Rightarrow> [Refused h buf])))"

text \<open>A router at work: \<open>read\<close> is called again, with the same buffer, whenever it returns.\<close>

fun router_run ::
  "(Point \<Rightarrow> Address \<Rightarrow> u32 \<Rightarrow> Hop) \<Rightarrow> bytes \<Rightarrow> (('e, 'g) router_event \<times> u32) list \<Rightarrow> router \<Rightarrow>
     (log_entry list \<times> router) outcome option" where
  "router_run route buffer [] r = Some (Returns ([], r))"
| "router_run route buffer ((ev, now) # evs) r =
     (case router_step route now ev buffer r of
        None \<Rightarrow> None
      | Some Panics \<Rightarrow> Some Panics
      | Some (Returns (res, buffer', r')) \<Rightarrow>
          (case router_run route buffer evs r' of
             Some (Returns (log, r'')) \<Rightarrow> Some (Returns (step_log route ev now r res buffer' @ log, r''))
           | x \<Rightarrow> x))"

fun wrote :: "Hop \<Rightarrow> log_entry \<Rightarrow> bytes option" where
  "wrote h (Wrote h' x) = (if h' = h then Some x else None)" | "wrote h _ = None"

fun took :: "Hop \<Rightarrow> log_entry \<Rightarrow> bytes option" where
  "took h (Took h' x) = (if h' = h then Some x else None)" | "took h _ = None"

text \<open>Taken or refused, for another hop; delivered, for this satellite.\<close>

fun handled :: "Hop \<Rightarrow> log_entry \<Rightarrow> bytes option" where
  "handled h (Took h' x) = (if h' = h then Some x else None)"
| "handled h (Refused h' x) = (if h' = h then Some x else None)"
| "handled h (Delivered x) = (if h = Local then Some x else None)"
| "handled h (Wrote h' x) = None"

definition arrivals ::
  "(Point \<Rightarrow> Address \<Rightarrow> u32 \<Rightarrow> Hop) \<Rightarrow> Address \<Rightarrow> Hop \<Rightarrow> (('e, 'g) router_event \<times> u32) list \<Rightarrow> bytes list" where
  "arrivals route address h evs =
     List.map_filter (\<lambda>(ev, now). case arrival route address ev now of
        Some (h', buf) \<Rightarrow> if h' = h then Some buf else None | None \<Rightarrow> None) evs"

text \<open>
  What the links owe: a read reports a length within the buffer of \<open>mtu\<close> bytes. And every
  packet put in a queue meets the precondition of the ring.
\<close>

fun read_ok :: "nat \<Rightarrow> ('e, 'g) router_event \<Rightarrow> bool" where
  "read_ok mtu (IslRead res d b) \<longleftrightarrow> length b = mtu \<and> (case res of Inl _ \<Rightarrow> True | Inr len \<Rightarrow> len \<le> mtu)"
| "read_ok mtu (GroundRead res b) \<longleftrightarrow> length b = mtu \<and> (case res of Inl _ \<Rightarrow> True | Inr len \<Rightarrow> len \<le> mtu)"
| "read_ok mtu _ \<longleftrightarrow> True"

fun run_safe ::
  "(Point \<Rightarrow> Address \<Rightarrow> u32 \<Rightarrow> Hop) \<Rightarrow> nat \<Rightarrow> bytes \<Rightarrow> (('e, 'g) router_event \<times> u32) list \<Rightarrow> router \<Rightarrow> bool" where
  "run_safe route mtu buffer [] r = True"
| "run_safe route mtu buffer ((ev, now) # evs) r =
     (read_ok mtu ev \<and>
      (case arrival route (ro_address r) ev now of
         None \<Rightarrow> True | Some (h, buf) \<Rightarrow> if h = Local then True else push_ok buf (queue_at h r)) \<and>
      (case router_step route now ev buffer r of Some (Returns (_, _, r')) \<Rightarrow> run_safe route mtu buffer evs r' | _ \<Rightarrow> True))"

section \<open>The ports\<close>

definition same_ports :: "router \<Rightarrow> router \<Rightarrow> bool" where
  "same_ports r r' \<longleftrightarrow> ro_address r' = ro_address r \<and>
     (\<forall>h. queue_at h r' = queue_at h r \<and> length (port_stage (port_of h r')) = length (port_stage (port_of h r)))"

lemma all_hops:
  "(\<forall>h. P h) \<longleftrightarrow> P (Isl North) \<and> P (Isl South) \<and> P (Isl East) \<and> P (Isl West) \<and> P Ground_hop \<and> P Local"
  (is "_ \<longleftrightarrow> ?r")
proof
  assume ?r
  show "\<forall>h. P h"
  proof
    fix h :: Hop
    show "P h" using \<open>?r\<close> by (cases h; cases "case h of Isl d \<Rightarrow> d | _ \<Rightarrow> North") auto
  qed
qed simp

lemma same_ports_diag [simp]: "same_ports r (r\<lparr>ro_diag := g\<rparr>)"
  by (simp add: same_ports_def all_hops)

lemma same_ports_trans: "same_ports r r' \<Longrightarrow> same_ports r' r'' \<Longrightarrow> same_ports r r''"
  by (simp add: same_ports_def)

lemma same_ports_fill [simp]: "same_ports r (fill_input ev r)"
  by (induction ev r rule: fill_input.induct) (simp_all add: same_ports_def all_hops)

lemma on_port_other:
  assumes "h \<noteq> Local" "f (port_of h r) = Some (Returns p)"
  shows "\<exists>r'. on_port f h r = Some (Returns r') \<and> port_of h r' = p \<and> ro_address r' = ro_address r
    \<and> (\<forall>h'. h' \<noteq> h \<longrightarrow> port_of h' r' = port_of h' r)"
  using assms by (induction f h r rule: on_port.induct) (simp_all add: lift_port_def all_hops)

definition router_holds :: "nat \<Rightarrow> router \<Rightarrow> (Hop \<Rightarrow> bytes list) \<Rightarrow> bool" where
  "router_holds mtu r qs \<longleftrightarrow>
     (\<forall>h. h \<noteq> Local \<longrightarrow> holds_packets (queue_at h r) (qs h) \<and> \<not> rb_front_drop (queue_at h r) \<and>
        length (port_stage (port_of h r)) = mtu \<and> (\<forall>p\<in>set (qs h). length p \<le> mtu))"

lemma router_holds_same: "router_holds mtu r qs \<Longrightarrow> same_ports r r' \<Longrightarrow> router_holds mtu r' qs"
  by (simp add: router_holds_def same_ports_def)

lemma router_holdsD:
  assumes "router_holds mtu r qs" "h \<noteq> Local"
  shows "holds_packets (queue_at h r) (qs h)" "\<not> rb_front_drop (queue_at h r)"
    "length (port_stage (port_of h r)) = mtu" "p \<in> set (qs h) \<Longrightarrow> length p \<le> mtu"
  using assms by (auto simp: router_holds_def)

lemma stage_returns:
  assumes "router_holds mtu r qs" "h \<noteq> Local"
  shows "\<exists>p. stage (port_of h r) = Returns p \<and> port_out p = queue_at h r \<and> length (port_stage p) = mtu"
proof -
  have "front (queue_at h r) = Returns (case qs h of [] \<Rightarrow> None | p # _ \<Rightarrow> Some p)"
    using rq.peek router_holdsD(1,2) [OF assms] by blast
  then show ?thesis
    using router_holdsD(3) [OF assms] router_holdsD(4) [OF assms, of "hd (qs h)"]
    by (cases "qs h") (auto simp: stage_def)
qed

lemma stage_all_returns:
  assumes "router_holds mtu r qs"
  shows "\<exists>r'. stage_all r = Returns r' \<and> same_ports r r'"
proof -
  have s: "h \<noteq> Local \<Longrightarrow> \<exists>p. stage (port_of h r) = Returns p \<and> port_out p = queue_at h r
      \<and> length (port_stage p) = length (port_stage (port_of h r))" for h
    using stage_returns [OF assms] router_holdsD(3) [OF assms] by simp
  show ?thesis
    using s [of "Isl North"] s [of "Isl South"] s [of "Isl East"] s [of "Isl West"] s [of Ground_hop]
    by (auto simp: stage_all_def same_ports_def all_hops)
qed

lemma enqueue_holds:
  assumes "router_holds mtu r qs" "h \<noteq> Local" "push_ok data (queue_at h r)" "length data \<le> mtu"
  shows "\<exists>r' q. push data (queue_at h r) = Some (Returns (fits data (queue_at h r), q)) \<and>
    on_port (enqueue data) h r = Some (Returns r') \<and> ro_address r' = ro_address r \<and>
    (\<forall>h'. h' \<noteq> h \<longrightarrow> port_of h' r' = port_of h' r) \<and>
    router_holds mtu r' (qs(h := if fits data (queue_at h r) then qs h @ [data] else qs h))"
proof -
  obtain q where q: "push data (queue_at h r) = Some (Returns (fits data (queue_at h r), q))"
    "holds_packets q (if fits data (queue_at h r) then qs h @ [data] else qs h)" "\<not> rb_front_drop q"
    using rq.enq [OF _ assms(3)] router_holdsD(1,2) [OF assms(1,2)] by blast
  then have "enqueue data (port_of h r) = Some (Returns ((port_of h r)\<lparr>port_out := q\<rparr>))" by (simp add: enqueue_def)
  from on_port_other [where f = "enqueue data", OF assms(2) this] obtain r' where r': "on_port (enqueue data) h r = Some (Returns r')"
    "port_of h r' = (port_of h r)\<lparr>port_out := q\<rparr>" "ro_address r' = ro_address r"
    "\<And>h'. h' \<noteq> h \<Longrightarrow> port_of h' r' = port_of h' r" by blast
  have "router_holds mtu r' (qs(h := if fits data (queue_at h r) then qs h @ [data] else qs h))"
    unfolding router_holds_def
  proof (intro allI impI)
    fix h' assume "h' \<noteq> Local"
    then show "holds_packets (queue_at h' r') ((qs(h := if fits data (queue_at h r) then qs h @ [data] else qs h)) h') \<and>
        \<not> rb_front_drop (queue_at h' r') \<and> length (port_stage (port_of h' r')) = mtu \<and>
        (\<forall>p\<in>set ((qs(h := if fits data (queue_at h r) then qs h @ [data] else qs h)) h'). length p \<le> mtu)"
      using router_holdsD [OF assms(1)] q(2,3) r'(2,4) assms(2,4) by (cases "h' = h") auto
  qed
  then show ?thesis using q(1) r' by blast
qed

lemma dequeue_holds:
  assumes "router_holds mtu r qs" "h \<noteq> Local"
  shows "\<exists>r'. on_port dequeue h r = Some (Returns r') \<and> ro_address r' = ro_address r \<and>
    router_holds mtu r' (qs(h := tl (qs h)))"
proof -
  obtain q where q: "pop (queue_at h r) = Returns q" "holds_packets q (tl (qs h))" "\<not> rb_front_drop q"
    using rq.deq router_holdsD(1,2) [OF assms] by blast
  then have "dequeue (port_of h r) = Some (Returns ((port_of h r)\<lparr>port_out := q\<rparr>))" by (simp add: dequeue_def)
  from on_port_other [where f = dequeue, OF assms(2) this] obtain r' where r': "on_port dequeue h r = Some (Returns r')"
    "port_of h r' = (port_of h r)\<lparr>port_out := q\<rparr>" "ro_address r' = ro_address r"
    "\<And>h'. h' \<noteq> h \<Longrightarrow> port_of h' r' = port_of h' r" by blast
  have "router_holds mtu r' (qs(h := tl (qs h)))"
    unfolding router_holds_def
  proof (intro allI impI)
    fix h' assume "h' \<noteq> Local"
    then show "holds_packets (queue_at h' r') ((qs(h := tl (qs h))) h') \<and>
        \<not> rb_front_drop (queue_at h' r') \<and> length (port_stage (port_of h' r')) = mtu \<and>
        (\<forall>p\<in>set ((qs(h := tl (qs h))) h'). length p \<le> mtu)"
      using router_holdsD [OF assms(1)] q(2,3) r'(2,4) assms(2) by (cases "h' = h"; cases "qs h") auto
  qed
  then show ?thesis using r' by blast
qed

section \<open>One iteration\<close>

text \<open>
  What a step does to the queues and to the log: \<open>queues_logged\<close> relates the queues before,
  the entries and the queues after.
\<close>

definition queues_logged :: "(Hop \<Rightarrow> bytes list) \<Rightarrow> log_entry list \<Rightarrow> (Hop \<Rightarrow> bytes list) \<Rightarrow> bool" where
  "queues_logged qs log qs' \<longleftrightarrow>
     (\<forall>h. h \<noteq> Local \<longrightarrow> qs h @ List.map_filter (took h) log = List.map_filter (wrote h) log @ qs' h)"

definition arrivals_logged :: "nat \<Rightarrow> (Hop \<Rightarrow> bytes list) \<Rightarrow> log_entry list \<Rightarrow> bool" where
  "arrivals_logged B arr log \<longleftrightarrow>
     (\<forall>h. List.map_filter (handled h) log = (if h = Local then filter (\<lambda>p. length p \<le> B) (arr h) else arr h))"

lemma map_filter_append [simp]: "List.map_filter f (xs @ ys) = List.map_filter f xs @ List.map_filter f ys"
  by (simp add: map_filter_def)

lemma queues_logged_append:
  "queues_logged qs log qs' \<Longrightarrow> queues_logged qs' log' qs'' \<Longrightarrow> queues_logged qs (log @ log') qs''"
  unfolding queues_logged_def by (metis append.assoc map_filter_append)

lemma arrivals_logged_append:
  "arrivals_logged B a log \<Longrightarrow> arrivals_logged B b log' \<Longrightarrow> arrivals_logged B (\<lambda>h. a h @ b h) (log @ log')"
  by (simp add: arrivals_logged_def)

lemma arrivals_Cons:
  "arrivals route a h ((ev, now) # evs) = arrivals route a h [(ev, now)] @ arrivals route a h evs"
  by (simp add: arrivals_def map_filter_def)

lemma arrivals_one:
  "arrivals route a h [(ev, now)] =
     (case arrival route a ev now of Some (h', buf) \<Rightarrow> if h' = h then [buf] else [] | None \<Rightarrow> [])"
  by (auto simp: arrivals_def map_filter_def split: option.splits)

lemma written_step:
  assumes "router_holds mtu r qs" "same_ports r r1" "write_hop ev = Some h"
  shows "\<exists>r'. handle_event route now ev buffer r1 = Some (Returns (Continue, buffer, r')) \<and> ro_address r' = ro_address r \<and>
    router_holds mtu r' (qs(h := tl (qs h))) \<and>
    queues_logged qs (step_log route ev now r Continue buffer) (qs(h := tl (qs h))) \<and>
    arrivals_logged B (\<lambda>h. arrivals route (ro_address r) h [(ev, now)]) (step_log route ev now r Continue buffer)"
proof -
  have h: "h \<noteq> Local" "handle_event route now ev buffer r1 = continue_with buffer (on_port dequeue h r1)"
    "arrival route (ro_address r) ev now = None"
    using assms(3) by (auto simp: arrival_def elim: write_hop.elims)
  obtain r' where "on_port dequeue h r1 = Some (Returns r')" "ro_address r' = ro_address r1"
    "router_holds mtu r' (qs(h := tl (qs h)))"
    using dequeue_holds [OF router_holds_same [OF assms(1,2)] h(1)] by blast
  moreover have "front (queue_at h r) = Returns (case qs h of [] \<Rightarrow> None | p # _ \<Rightarrow> Some p)"
    using rq.peek router_holdsD(1,2) [OF assms(1) h(1)] by blast
  ultimately show ?thesis
    using assms(2,3) h
    by (auto simp: continue_with_def same_ports_def step_log_def queues_logged_def arrivals_logged_def arrivals_one
        map_filter_def split: list.splits)
qed

lemma read_step:
  assumes holds: "router_holds mtu r qs" and same: "same_ports r r1" and res: "received ev = Some buf" "length buf \<le> mtu"
    and ok: "case arrival route (ro_address r) ev now of
         None \<Rightarrow> True | Some (h, buf) \<Rightarrow> if h = Local then True else push_ok buf (queue_at h r)"
    and in_buf: "handle_event route now ev buffer r1 = route_packet route now b (length buf) fp buffer r1"
      "take (length buf) b = buf" "length buf \<le> length b"
  shows "\<exists>res buffer' r' qs'. handle_event route now ev buffer r1 = Some (Returns (res, buffer', r')) \<and> ro_address r' = ro_address r \<and>
    router_holds mtu r' qs' \<and> queues_logged qs (step_log route ev now r res buffer') qs' \<and>
    arrivals_logged (length buffer) (\<lambda>h. arrivals route (ro_address r) h [(ev, now)]) (step_log route ev now r res buffer')"
proof (cases "isl_parse buf")
  case (Inl e)
  have "write_hop ev = None" using res(1) by (induction ev rule: received.induct) simp_all
  then show ?thesis using Inl in_buf res router_holds_same [OF holds same] same
    by (auto simp: route_packet_def step_log_def arrival_def queues_logged_def arrivals_logged_def arrivals_one map_filter_def
        same_ports_def)
next
  case (Inr pkt)
  let ?h = "route (Point_from (ro_address r)) (isl_target pkt) now"
  let ?r2 = "r1\<lparr>ro_diag := (ro_diag r1)\<lparr>last_route := (fp, target_raw (isl_target pkt), hop_code ?h)\<rparr>\<rparr>"
  have w: "write_hop ev = None" using res(1) by (induction ev rule: received.induct) simp_all
  have arr: "arrival route (ro_address r) ev now = Some (?h, buf)" using Inr res(1) by (simp add: arrival_def)
  have addr: "ro_address r1 = ro_address r" using same by (simp add: same_ports_def)
  have same2: "same_ports r ?r2" using same same_ports_diag by (rule same_ports_trans)
  note holds2 = router_holds_same [OF holds same2]
  have step: "handle_event route now ev buffer r1 =
      (if ?h = Local
       then (if length buffer < length buf
             then Some (Returns (Done (Inl (RouterBufferTooSmall (length buf) (length buffer))), buffer, ?r2))
             else Some (Returns (Done (Inr (length buf)), blit buffer 0 buf, ?r2)))
       else continue_with buffer (on_port (enqueue buf) ?h ?r2))"
    using in_buf Inr addr by (simp add: route_packet_def Let_def)
  show ?thesis
  proof (cases "?h = Local")
    case True
    then show ?thesis using step arr w holds2 addr
      by (auto simp: step_log_def queues_logged_def arrivals_logged_def arrivals_one map_filter_def
          intro!: exI [of _ qs])
  next
    case False
    have q: "queue_at ?h ?r2 = queue_at ?h r" using same2 by (simp add: same_ports_def)
    have "push_ok buf (queue_at ?h ?r2)" using ok arr False q by simp
    from enqueue_holds [OF holds2 False this res(2)] obtain r' q' where
      r': "push buf (queue_at ?h r) = Some (Returns (fits buf (queue_at ?h r), q'))"
        "on_port (enqueue buf) ?h ?r2 = Some (Returns r')" "ro_address r' = ro_address r1"
        "router_holds mtu r' (qs(?h := if fits buf (queue_at ?h r) then qs ?h @ [buf] else qs ?h))"
      unfolding q by auto
    then show ?thesis using step arr w False addr
      by (cases "fits buf (queue_at ?h r)")
        (auto simp: continue_with_def step_log_def queues_logged_def arrivals_logged_def arrivals_one map_filter_def
          intro!: exI [of _ "qs(?h := if fits buf (queue_at ?h r) then qs ?h @ [buf] else qs ?h)"])
  qed
qed

definition step_logged ::
  "(Point \<Rightarrow> Address \<Rightarrow> u32 \<Rightarrow> Hop) \<Rightarrow> nat \<Rightarrow> bytes \<Rightarrow> ('e, 'g) router_event \<Rightarrow> u32 \<Rightarrow> router \<Rightarrow> (Hop \<Rightarrow> bytes list) \<Rightarrow>
     ('e, 'g) router_stepped \<Rightarrow> bool" where
  "step_logged route mtu buffer ev now r qs stepped \<longleftrightarrow>
     (\<exists>res buffer' r' qs'. stepped = Some (Returns (res, buffer', r')) \<and> ro_address r' = ro_address r \<and>
        router_holds mtu r' qs' \<and> queues_logged qs (step_log route ev now r res buffer') qs' \<and>
        arrivals_logged (length buffer) (\<lambda>h. arrivals route (ro_address r) h [(ev, now)]) (step_log route ev now r res buffer'))"

lemma failed_read:
  assumes "router_holds mtu r qs" "same_ports r r1" "write_hop ev = None" "received ev = None"
  shows "step_logged route mtu buffer ev now r qs (Some (Returns (Done (Inl e), buffer, r1)))"
  using assms router_holds_same [OF assms(1,2)]
  by (auto simp: step_logged_def step_log_def arrival_def queues_logged_def arrivals_logged_def arrivals_one
      map_filter_def same_ports_def)

lemma written_logged:
  "router_holds mtu r qs \<Longrightarrow> same_ports r r1 \<Longrightarrow> write_hop ev = Some h \<Longrightarrow>
     step_logged route mtu buffer ev now r qs (handle_event route now ev buffer r1)"
  using written_step [of mtu r qs r1 ev h route now buffer "length buffer"] unfolding step_logged_def by blast

lemma handle_event_logged:
  assumes "router_holds mtu r qs" "same_ports r r1" "read_ok mtu ev"
    and "case arrival route (ro_address r) ev now of
         None \<Rightarrow> True | Some (h, buf) \<Rightarrow> if h = Local then True else push_ok buf (queue_at h r)"
  shows "step_logged route mtu buffer ev now r qs (handle_event route now ev buffer r1)"
proof (cases ev)
  case (IslRead res d b)
  show ?thesis
  proof (cases res)
    case (Inl e)
    then show ?thesis using failed_read [OF assms(1,2), of ev] IslRead by simp
  next
    case (Inr len)
    then show ?thesis
      using read_step [OF assms(1,2) _ _ assms(4), of "take len b"] IslRead assms(3)
      unfolding step_logged_def by simp
  qed
next
  case (GroundRead res b)
  show ?thesis
  proof (cases res)
    case (Inl e)
    then show ?thesis using failed_read [OF assms(1,2), of ev] GroundRead by simp
  next
    case (Inr len)
    then show ?thesis
      using read_step [OF assms(1,2) _ _ assms(4), of "take len b"] GroundRead assms(3)
      unfolding step_logged_def by simp
  qed
next
  case (IslWrite d)
  then have "write_hop ev = Some (Isl d)" by simp
  then show ?thesis by (rule written_logged [OF assms(1,2)])
next
  case GroundWrite
  then have "write_hop ev = Some Ground_hop" by simp
  then show ?thesis by (rule written_logged [OF assms(1,2)])
qed

lemma router_step_logged:
  assumes "router_holds mtu r qs" "read_ok mtu ev"
    and "case arrival route (ro_address r) ev now of
         None \<Rightarrow> True | Some (h, buf) \<Rightarrow> if h = Local then True else push_ok buf (queue_at h r)"
  shows "step_logged route mtu buffer ev now r qs (router_step route now ev buffer r)"
proof -
  let ?r0 = "r\<lparr>ro_diag := (ro_diag r)\<lparr>iterations := iterations (ro_diag r) + 1\<rparr>\<rparr>"
  obtain r1 where r1: "stage_all ?r0 = Returns r1" "same_ports ?r0 r1"
    using stage_all_returns [OF router_holds_same [OF assms(1) same_ports_diag]] by blast
  let ?r2 = "fill_input ev r1" let ?r3 = "?r2\<lparr>ro_diag := count_event ev (ro_diag ?r2)\<rparr>"
  have "same_ports r ?r3"
    using same_ports_trans [OF same_ports_diag r1(2)] same_ports_fill [of r1 ev] same_ports_diag same_ports_trans by blast
  from handle_event_logged [OF assms(1) this assms(2,3)] show ?thesis
    using r1(1) by (simp add: router_step_def Let_def)
qed

lemma router_run_logged:
  assumes "router_holds mtu r qs" "run_safe route mtu buffer evs r"
  shows "\<exists>log r' qs'. router_run route buffer evs r = Some (Returns (log, r')) \<and> router_holds mtu r' qs' \<and>
    queues_logged qs log qs' \<and> arrivals_logged (length buffer) (\<lambda>h. arrivals route (ro_address r) h evs) log"
  using assms
proof (induction evs arbitrary: r qs)
  case Nil
  then show ?case
    by (auto simp: queues_logged_def arrivals_logged_def arrivals_def map_filter_def intro!: exI [of _ qs])
next
  case (Cons e evs)
  obtain ev now where e: "e = (ev, now)" by (cases e)
  have "step_logged route mtu buffer ev now r qs (router_step route now ev buffer r)"
    by (rule router_step_logged [OF Cons.prems(1)]) (use Cons.prems(2) in \<open>simp_all only: e run_safe.simps\<close>)
  then obtain res buffer' r' qs' where st: "router_step route now ev buffer r = Some (Returns (res, buffer', r'))"
    "ro_address r' = ro_address r" "router_holds mtu r' qs'"
    "queues_logged qs (step_log route ev now r res buffer') qs'"
    "arrivals_logged (length buffer) (\<lambda>h. arrivals route (ro_address r) h [(ev, now)]) (step_log route ev now r res buffer')"
    unfolding step_logged_def by blast
  have "run_safe route mtu buffer evs r'" using Cons.prems(2) st(1) by (simp add: e)
  from Cons.IH [OF st(3) this] obtain log r'' qs'' where run: "router_run route buffer evs r' = Some (Returns (log, r''))"
    "router_holds mtu r'' qs''" "queues_logged qs' log qs''"
    "arrivals_logged (length buffer) (\<lambda>h. arrivals route (ro_address r') h evs) log" by blast
  then show ?case
    using st queues_logged_append [OF st(4) run(3)] arrivals_logged_append [OF st(5) run(4) [unfolded st(2)]]
    by (auto simp: e arrivals_Cons [of route _ _ ev now evs])
qed

definition pool_of :: "nat \<Rightarrow> nat \<Rightarrow> bytes" where
  "pool_of mtu i = replicate mtu 0"

lemma router_holds_new: "router_holds mtu (Router_new OUT (pool_of mtu) a) (\<lambda>_. [])"
  unfolding router_holds_def all_hops
  by (simp add: Router_new_def Port_new_def pool_of_def RingBuffer_new_def holds_packets_def)

section \<open>Nothing is lost, reordered or invented\<close>


section \<open>Delivery across the constellation\<close>

definition satellite :: "nat \<Rightarrow> nat \<Rightarrow> Point \<Rightarrow> router" where
  "satellite OUT mtu p = Router_new OUT (pool_of mtu) (Satellite p)"

lemma isl_parse_Nil: "isl_parse data = Inr pkt \<Longrightarrow> data \<noteq> []"
  by (auto simp: isl_parse_def telecommand_parse_def spp_parse_def SPP_HEADER_SIZE_def split: sum.splits if_splits)

lemma empty_queue: "holds_packets q [] \<Longrightarrow> data \<noteq> [] \<Longrightarrow> length data < 65536 \<Longrightarrow> length data + 2 < length (rb_buf q) \<Longrightarrow>
    push_ok data q \<and> fits data q"
  by (simp add: holds_packets_def push_ok_def fits_def Let_def)

lemma satellite_queue: "h \<noteq> Local \<Longrightarrow> queue_at h (satellite OUT mtu p) = RingBuffer_new OUT"
  by (cases h; cases "case h of Isl d \<Rightarrow> d | _ \<Rightarrow> North") (auto simp: satellite_def Router_new_def Port_new_def)

lemma satellite_forwards:
  assumes "isl_parse data = Inr pkt" "isl_target pkt = Satellite q" "length data < 65536" "length data + 2 < OUT"
    and ev: "received ev = Some data" "read_ok mtu ev" and h: "route p (Satellite q) now = Isl d"
  shows "\<exists>r. router_run route buffer [(ev, now), (IslWrite d, now')] (satellite OUT mtu p) =
    Some (Returns ([Took (Isl d) data, Wrote (Isl d) data], r))"
proof -
  let ?r = "satellite OUT mtu p" let ?qs = "\<lambda>_ :: Hop. [] :: bytes list"
  have arr: "arrival route (ro_address ?r) ev now = Some (Isl d, data)"
    using assms by (simp add: arrival_def satellite_def Router_new_def Point_from_def)
  have holds: "router_holds mtu ?r ?qs" unfolding satellite_def by (rule router_holds_new)
  have w: "write_hop ev = None" using ev(1) by (induction ev rule: received.induct) simp_all
  have q: "push_ok data (queue_at (Isl d) ?r)" "fits data (queue_at (Isl d) ?r)"
    using empty_queue [of "queue_at (Isl d) ?r" data] router_holdsD(1) [OF holds, of "Isl d"] isl_parse_Nil [OF assms(1)] assms(3,4)
    by (simp_all add: satellite_queue RingBuffer_new_def)
  obtain rg where "push data (queue_at (Isl d) ?r) = Some (Returns (True, rg))"
    using rq.enq [OF _ q(1)] router_holdsD(1,2) [OF holds] q(2) by fastforce
  then have log: "step_log route ev now ?r res buffer' = [Took (Isl d) data]" for res :: "('a, 'b) step_result" and buffer'
    using w arr by (simp add: step_log_def)
  obtain res buffer' r1 qs1 where st: "router_step route now ev buffer ?r = Some (Returns (res, buffer', r1))"
    "router_holds mtu r1 qs1" "queues_logged ?qs [Took (Isl d) data] qs1"
    using router_step_logged [OF holds ev(2), of route now buffer] q(1) arr unfolding step_logged_def log by auto
  have "qs1 (Isl d) = [data]" using st(3) [unfolded queues_logged_def, rule_format, of "Isl d"]
    by (simp add: List.map_filter_simps)
  then have front: "front (queue_at (Isl d) r1) = Returns (Some data)"
    using rq.peek router_holdsD(1,2) [OF st(2), of "Isl d"] by fastforce
  have "arrival route (ro_address r1) (IslWrite d :: ('a, 'b) router_event) now' = None" by (simp add: arrival_def)
  then obtain res2 buffer2 r2 where "router_step route now' (IslWrite d :: ('a, 'b) router_event) buffer r1 = Some (Returns (res2, buffer2, r2))"
    using router_step_logged [OF st(2), of "IslWrite d :: ('a, 'b) router_event" route now' buffer] unfolding step_logged_def by auto
  then show ?thesis using st(1) log front by (auto simp: step_log_def)
qed

lemma satellite_delivers:
  assumes "isl_parse data = Inr pkt" "isl_target pkt = Satellite q" "length data \<le> length buffer"
    and ev: "received ev = Some data" "read_ok mtu ev" and h: "route q (Satellite q) now = Local"
  shows "\<exists>r. router_run route buffer [(ev, now)] (satellite OUT mtu q) = Some (Returns ([Delivered data], r))"
proof -
  let ?r = "satellite OUT mtu q"
  have arr: "arrival route (ro_address ?r) ev now = Some (Local, data)"
    using assms by (simp add: arrival_def satellite_def Router_new_def Point_from_def)
  have holds: "router_holds mtu ?r (\<lambda>_. [])" unfolding satellite_def by (rule router_holds_new)
  have w: "write_hop ev = None" using ev(1) by (induction ev rule: received.induct) simp_all
  obtain res buffer' r1 where st: "router_step route now ev buffer ?r = Some (Returns (res, buffer', r1))"
    "arrivals_logged (length buffer) (\<lambda>h. arrivals route (ro_address ?r) h [(ev, now)]) (step_log route ev now ?r res buffer')"
    using router_step_logged [OF holds ev(2), of route now buffer] arr unfolding step_logged_def by auto
  have "List.map_filter (handled Local) (step_log route ev now ?r res buffer') = [data]"
    using st(2) assms(3) arr by (simp add: arrivals_logged_def arrivals_one)
  then have "step_log route ev now ?r res buffer' = [Delivered data]"
    using w arr by (auto simp: step_log_def map_filter_def split: step_result.splits sum.splits)
  then show ?thesis using st(1) by simp
qed

context routing_algorithm
begin

lemma shortest_hops:
  assumes "on_torus T p" "on_torus T q" "length ts = hops T p q"
  shows "\<exists>ds. length ds = length ts \<and> walk T ds p = q \<and>
    (\<forall>i<length ds. route (walk T (take i ds) p) (Satellite q) (ts ! i) = Isl (ds ! i))"
  using assms
proof (induction ts arbitrary: p)
  case Nil
  then show ?case using hops_0 [of T p q] by simp
next
  case (Cons t ts)
  have "p \<noteq> q" using Cons.prems hops_0 [of T p q] by auto
  then obtain d where d: "route p (Satellite q) t = Isl d" "Suc (hops T (neighbor T p d) q) = hops T p q"
    using progress [of p "Satellite q" t] Cons.prems(1,2) by auto
  have "length ts = hops T (neighbor T p d) q" using Cons.prems(3) d(2) by simp
  from Cons.IH [OF neighbor_on_torus [OF Cons.prems(1)] Cons.prems(2) this]
  obtain ds where "length ds = length ts" "walk T ds (neighbor T p d) = q"
    "\<forall>i<length ds. route (walk T (take i ds) (neighbor T p d)) (Satellite q) (ts ! i) = Isl (ds ! i)" by blast
  then show ?case using d(1)
    by (intro exI [of _ "d # ds"]) (auto simp: less_Suc_eq_0_disj)
qed

end


section \<open>A concrete packet\<close>

definition demo_packet :: bytes where
  "demo_packet = [0x18, 5, 0xC0, 0, 0, 5, 9, 0, 4, 4, 1, 2]"

lemma demo_parse: "isl_parse demo_packet = Inr demo_packet \<and> isl_target demo_packet = Satellite \<lparr>orb = 3, sat = 4\<rparr>"
  by code_simp

definition demo_torus :: Torus where "demo_torus = \<lparr>num_orbs = 8, num_sats = 8\<rparr>"

definition demo_route :: "Point \<Rightarrow> Address \<Rightarrow> u32 \<Rightarrow> Hop" where "demo_route = manhattan_route demo_torus (\<lambda>_ _. None)"

definition demo_events :: "((unit, unit) router_event \<times> u32) list" where
  "demo_events = [(IslRead (Inr 12) North (demo_packet @ replicate 4 0), 0), (GroundRead (Inl ()) (replicate 16 0), 1),
     (IslWrite East, 2)]"

lemma demo_hop: "demo_route \<lparr>orb = 1, sat = 4\<rparr> (Satellite \<lparr>orb = 3, sat = 4\<rparr>) t = Isl East"
  by (simp add: demo_route_def manhattan_route_def manhattan_to_point_def direction_to_orb_def distance_orb_def torus_distance_def demo_torus_def Let_def)

lemma demo_len: "length demo_packet = 12" by (simp add: demo_packet_def)

lemma demo_arrival: "arrival demo_route (Satellite \<lparr>orb = 1, sat = 4\<rparr>) (IslRead (Inr 12) d (demo_packet @ xs)) t = Some (Isl East, demo_packet)"
 "arrival demo_route (Satellite \<lparr>orb = 1, sat = 4\<rparr>) (GroundRead (Inr 12) (demo_packet @ xs)) t = Some (Isl East, demo_packet)"
 "arrival demo_route a (GroundRead (Inl g) b) t = None" "arrival demo_route a (IslWrite d) t = None" "arrival demo_route a (IslRead (Inl e) d b) t = None" 
  by (simp_all add: arrival_def demo_parse demo_hop Point_from_def demo_len)


definition demo_ring :: ring where
  "demo_ring = \<lparr>rb_buf = 0 # 12 # demo_packet @ replicate 6 0, rb_head = 14, rb_tail = 0, rb_count = 1, rb_front_drop = False\<rparr>"

lemma demo_rings:
  "push_ok demo_packet (RingBuffer_new 20)"
  "push demo_packet (RingBuffer_new 20) = Some (Returns (True, demo_ring))"
  "front (RingBuffer_new 20) = Returns None" "front demo_ring = Returns (Some demo_packet)"
  "pop demo_ring = Returns (demo_ring\<lparr>rb_head := 0, rb_count := 0\<rparr>)"
  by (simp_all add: ring_eval push_ok_def demo_ring_def demo_packet_def)

lemma demo_safe: "run_safe demo_route 16 (replicate 16 0) demo_events (Router_new 20 (pool_of 16) (Satellite \<lparr>orb = 1, sat = 4\<rparr>))"
  by (simp add: demo_events_def demo_arrival Router_new_def Port_new_def demo_len router_step_def stage_all_def stage_def
      demo_rings route_packet_def demo_parse demo_hop Point_from_def continue_with_def enqueue_def dequeue_def lift_port_def
      pool_of_def Let_def)



end
