(* ===== verification/Gossip.thy ===== *)
theory Gossip
  imports Isl_Router
begin

text \<open>
  The gossip protocol between satellites (\<open>network/isl/gossip\<close>): the filter that recognises an
  epoch seen before (\<open>bitmap.rs\<close>), the gossip packet (\<open>packet.rs\<close>) and the node that floods a
  packet to its neighbours, drops duplicates and delivers the rest (\<open>mod.rs\<close>). Ports, their
  staging and their queues are those of \<open>Isl_Router\<close>, whose code is repeated word for word.
\<close>

section \<open>The duplicate filter\<close>

definition CAPACITY :: u16 where "CAPACITY = 128"

definition bitmap_shift :: "u16 \<Rightarrow> 128 word \<Rightarrow> 128 word" where
  "bitmap_shift distance b = (if distance \<ge> CAPACITY then 0 else push_bit (unat distance) b)"

definition bitmap_mark :: "u16 \<Rightarrow> 128 word \<Rightarrow> 128 word" where
  "bitmap_mark index b = (if index \<ge> CAPACITY then b else b OR push_bit (unat index) 1)"

definition is_marked :: "u16 \<Rightarrow> 128 word \<Rightarrow> bool" where
  "is_marked index b = (if index \<ge> CAPACITY then False else b AND push_bit (unat index) 1 \<noteq> 0)"

datatype ShortestPath = Coincident | Forward u16 | Backward u16

definition shortest_path :: "u16 \<Rightarrow> u16 \<Rightarrow> ShortestPath" where
  "shortest_path from to =
     (let fwd_dist = to - from in
      if fwd_dist = 0 then Coincident
      else let bwd_dist = from - to in if fwd_dist < bwd_dist then Forward fwd_dist else Backward bwd_dist)"

record DuplicateFilter =
  df_head :: u16
  df_history :: "128 word"
  df_initialized :: bool

definition DuplicateFilter_new :: DuplicateFilter where
  "DuplicateFilter_new = \<lparr>df_head = 0, df_history = 0, df_initialized = False\<rparr>"

definition is_duplicate :: "u16 \<Rightarrow> DuplicateFilter \<Rightarrow> bool \<times> DuplicateFilter" where
  "is_duplicate new f =
     (if \<not> df_initialized f then (False, f\<lparr>df_head := new, df_initialized := True\<rparr>)
      else case shortest_path (df_head f) new of
          Coincident \<Rightarrow> (True, f)
        | Forward distance \<Rightarrow>
            (False, f\<lparr>df_history := bitmap_mark (distance - 1) (bitmap_shift distance (df_history f)), df_head := new\<rparr>)
        | Backward distance \<Rightarrow>
            (if distance > CAPACITY then (True, f)
             else if is_marked (distance - 1) (df_history f) then (True, f)
             else (False, f\<lparr>df_history := bitmap_mark (distance - 1) (df_history f)\<rparr>)))"

section \<open>Gossip packets\<close>

text \<open>
  A packet is its bytes: the telecommand headers, the addresses of the origin (bytes 8 and 9)
  and of the predecessor (10 and 11), the epoch (12 and 13) and the payload.
\<close>

definition GOSSIP_MINIMUM :: nat where "GOSSIP_MINIMUM = 14"

datatype GossipMessageError = GossipCfe TelecommandError | GossipPayloadTooSmall | GossipPayloadTooLarge nat nat

definition gossip_origin :: "bytes \<Rightarrow> Address" where
  "gossip_origin pkt = RawAddress_parse \<lparr>ground_or_orb = pkt ! 8, station_or_sat = pkt ! 9\<rparr>"

definition set_origin :: "bytes \<Rightarrow> Address \<Rightarrow> bytes" where
  "set_origin pkt a = (let raw = RawAddress_from a in pkt[8 := ground_or_orb raw, 9 := station_or_sat raw])"

definition gossip_predecessor :: "bytes \<Rightarrow> Address" where
  "gossip_predecessor pkt = RawAddress_parse \<lparr>ground_or_orb = pkt ! 10, station_or_sat = pkt ! 11\<rparr>"

definition set_predecessor :: "bytes \<Rightarrow> Address \<Rightarrow> bytes" where
  "set_predecessor pkt a = (let raw = RawAddress_from a in pkt[10 := ground_or_orb raw, 11 := station_or_sat raw])"

definition gossip_epoch :: "bytes \<Rightarrow> u16" where
  "gossip_epoch pkt = be16_to (pkt ! 12) (pkt ! 13)"

definition set_epoch :: "bytes \<Rightarrow> u16 \<Rightarrow> bytes" where
  "set_epoch pkt e = blit pkt 12 (be16_of e)"

definition gossip_payload :: "bytes \<Rightarrow> bytes" where
  "gossip_payload pkt = drop GOSSIP_MINIMUM pkt"

definition gossip_new ::
  "bytes \<Rightarrow> u16 \<Rightarrow> u8 \<Rightarrow> Address \<Rightarrow> Address \<Rightarrow> u16 \<Rightarrow> nat \<Rightarrow> GossipMessageError + bytes" where
  "gossip_new buffer ap code origin predecessor epoch payload_len =
     (if payload_len > 65535 then Inl (GossipPayloadTooLarge 65535 payload_len)
      else
        let tc_payload_len = 6 + payload_len in
        case telecommand_new buffer ap SequenceCount_new code tc_payload_len of
          Inl e \<Rightarrow> Inl (GossipCfe e)
        | Inr pkt \<Rightarrow>
            if length pkt \<noteq> GOSSIP_MINIMUM + payload_len
            then Inl (GossipCfe (TcBufferTooSmall (8 + tc_payload_len) (length pkt)))
            else Inr (set_cfe_checksum (set_epoch (set_predecessor (set_origin pkt origin) predecessor) epoch)))"

definition gossip_from_telecommand :: "bytes \<Rightarrow> GossipMessageError + bytes" where
  "gossip_from_telecommand tc =
     (if length (telecommand_payload tc) < 6 then Inl GossipPayloadTooSmall else Inr tc)"

definition gossip_data_len :: "bytes \<Rightarrow> nat" where
  "gossip_data_len pkt = length (gossip_payload pkt)"

section \<open>The node\<close>

record gossip =
  g_north :: port
  g_south :: port
  g_east :: port
  g_west :: port
  g_address :: Address
  g_torus :: Torus
  g_apid :: u16
  g_function_code :: u8
  g_dedup :: DuplicateFilter
  g_next_epoch :: u16
  g_buf :: bytes

definition Gossip_new :: "nat \<Rightarrow> (nat \<Rightarrow> bytes) \<Rightarrow> Address \<Rightarrow> Torus \<Rightarrow> u16 \<Rightarrow> u8 \<Rightarrow> gossip" where
  "Gossip_new OUT pool address T ap code =
     \<lparr>g_north = Port_new OUT (pool 0) (pool 1), g_south = Port_new OUT (pool 2) (pool 3),
      g_east = Port_new OUT (pool 4) (pool 5), g_west = Port_new OUT (pool 6) (pool 7),
      g_address = address, g_torus = T, g_apid = ap, g_function_code = code, g_dedup = DuplicateFilter_new,
      g_next_epoch = 0, g_buf = pool 8\<rparr>"

datatype 'e GossipError = Gossip_link Direction 'e | GossipBufferTooSmall nat nat

definition all_directions :: "Direction list" where
  "all_directions = [North, South, East, West]"

text \<open>
  Writing to the links in turn until one fails; \<open>link\<close> is their write half. The second result
  lists the links that were handed the packet.
\<close>

fun write_links :: "(Direction \<Rightarrow> bytes \<Rightarrow> 'e + unit) \<Rightarrow> bytes \<Rightarrow> Direction list \<Rightarrow> ('e GossipError + unit) \<times> Direction list" where
  "write_links link pkt [] = (Inr (), [])"
| "write_links link pkt (d # ds) =
     (case link d pkt of
        Inl e \<Rightarrow> (Inl (Gossip_link d e), [d])
      | Inr _ \<Rightarrow> (case write_links link pkt ds of (res, sent) \<Rightarrow> (res, d # sent)))"

text \<open>A payload for which no packet can be built is reported as written.\<close>

definition gossip_write ::
  "(Direction \<Rightarrow> bytes \<Rightarrow> 'e + unit) \<Rightarrow> bytes \<Rightarrow> gossip \<Rightarrow> ('e GossipError + unit) \<times> (Direction list \<times> bytes) \<times> gossip" where
  "gossip_write link data g =
     (let epoch = g_next_epoch g;
          g = g\<lparr>g_next_epoch := epoch + 1, g_dedup := snd (is_duplicate epoch (g_dedup g))\<rparr>
      in case gossip_new (g_buf g) (g_apid g) (g_function_code g) (g_address g) (g_address g) epoch (length data) of
           Inl _ \<Rightarrow> (Inr (), ([], []), g)
         | Inr pkt \<Rightarrow>
             (let pkt = set_cfe_checksum (take GOSSIP_MINIMUM pkt @ data); g = g\<lparr>g_buf := blit (g_buf g) 0 pkt\<rparr>
              in case write_links link pkt all_directions of (res, sent) \<Rightarrow> (res, (sent, pkt), g)))"

section \<open>The read loop\<close>

datatype 'e gossip_event = GossipRead "'e + nat" Direction bytes | GossipWrite Direction

text \<open>
  What a node does with the bytes it read: nothing, or forward them in some directions and
  deliver the payload.
\<close>

definition forward_directions :: "Torus \<Rightarrow> Point \<Rightarrow> Address \<Rightarrow> Direction list" where
  "forward_directions T me predecessor =
     filter (\<lambda>d. Satellite (neighbor T me d) \<noteq> predecessor) all_directions"

definition gossip_receive ::
  "Torus \<Rightarrow> Address \<Rightarrow> bytes \<Rightarrow> DuplicateFilter \<Rightarrow> (Direction list \<times> bytes) option \<times> DuplicateFilter" where
  "gossip_receive T address raw f =
     (if length raw < GOSSIP_MINIMUM then (None, f)
      else case is_duplicate (gossip_epoch raw) f of
          (True, f') \<Rightarrow> (None, f')
        | (False, f') \<Rightarrow>
            (Some (forward_directions T (Point_from address) (gossip_predecessor raw), gossip_payload raw), f'))"

definition lift_gossip :: "(port \<Rightarrow> gossip) \<Rightarrow> port outcome option \<Rightarrow> gossip outcome option" where
  "lift_gossip upd x =
     (case x of None \<Rightarrow> None | Some Panics \<Rightarrow> Some Panics | Some (Returns p) \<Rightarrow> Some (Returns (upd p)))"

fun on_gossip_port :: "(port \<Rightarrow> port outcome option) \<Rightarrow> Direction \<Rightarrow> gossip \<Rightarrow> gossip outcome option" where
  "on_gossip_port f North g = lift_gossip (\<lambda>p. g\<lparr>g_north := p\<rparr>) (f (g_north g))"
| "on_gossip_port f South g = lift_gossip (\<lambda>p. g\<lparr>g_south := p\<rparr>) (f (g_south g))"
| "on_gossip_port f East g = lift_gossip (\<lambda>p. g\<lparr>g_east := p\<rparr>) (f (g_east g))"
| "on_gossip_port f West g = lift_gossip (\<lambda>p. g\<lparr>g_west := p\<rparr>) (f (g_west g))"

fun enqueue_all :: "bytes \<Rightarrow> Direction list \<Rightarrow> gossip \<Rightarrow> gossip outcome option" where
  "enqueue_all raw [] g = Some (Returns g)"
| "enqueue_all raw (d # ds) g =
     (case on_gossip_port (enqueue raw) d g of
        Some (Returns g') \<Rightarrow> enqueue_all raw ds g'
      | x \<Rightarrow> x)"

definition gossip_stage_all :: "gossip \<Rightarrow> gossip outcome" where
  "gossip_stage_all g =
     (case stage (g_north g) of Panics \<Rightarrow> Panics | Returns n \<Rightarrow>
      case stage (g_south g) of Panics \<Rightarrow> Panics | Returns s \<Rightarrow>
      case stage (g_east g) of Panics \<Rightarrow> Panics | Returns e \<Rightarrow>
      case stage (g_west g) of Panics \<Rightarrow> Panics | Returns w \<Rightarrow>
        Returns (g\<lparr>g_north := n, g_south := s, g_east := e, g_west := w\<rparr>))"

fun gossip_fill :: "Direction \<Rightarrow> bytes \<Rightarrow> gossip \<Rightarrow> gossip" where
  "gossip_fill North b g = g\<lparr>g_north := (g_north g)\<lparr>port_buf := b\<rparr>\<rparr>"
| "gossip_fill South b g = g\<lparr>g_south := (g_south g)\<lparr>port_buf := b\<rparr>\<rparr>"
| "gossip_fill East b g = g\<lparr>g_east := (g_east g)\<lparr>port_buf := b\<rparr>\<rparr>"
| "gossip_fill West b g = g\<lparr>g_west := (g_west g)\<lparr>port_buf := b\<rparr>\<rparr>"

datatype 'e gossip_result = Gossip_continue | Gossip_done "'e GossipError + nat"

type_synonym 'e gossip_stepped = "('e gossip_result \<times> bytes \<times> gossip) outcome option"

definition gossip_packet :: "bytes \<Rightarrow> bytes \<Rightarrow> gossip \<Rightarrow> 'e gossip_stepped" where
  "gossip_packet raw buffer g =
     (case gossip_receive (g_torus g) (g_address g) raw (g_dedup g) of
        (None, f) \<Rightarrow> Some (Returns (Gossip_continue, buffer, g\<lparr>g_dedup := f\<rparr>))
      | (Some (dirs, payload), f) \<Rightarrow>
          (case enqueue_all raw dirs (g\<lparr>g_dedup := f\<rparr>) of
             None \<Rightarrow> None
           | Some Panics \<Rightarrow> Some Panics
           | Some (Returns g') \<Rightarrow>
               (let payload_len = length payload in
                if length buffer < payload_len
                then Some (Returns (Gossip_done (Inl (GossipBufferTooSmall payload_len (length buffer))), buffer, g'))
                else Some (Returns (Gossip_done (Inr payload_len), blit buffer 0 payload, g')))))"

fun gossip_handle :: "'e gossip_event \<Rightarrow> bytes \<Rightarrow> gossip \<Rightarrow> 'e gossip_stepped" where
  "gossip_handle (GossipWrite d) buffer g =
     (case on_gossip_port dequeue d g of
        None \<Rightarrow> None
      | Some Panics \<Rightarrow> Some Panics
      | Some (Returns g') \<Rightarrow> Some (Returns (Gossip_continue, buffer, g')))"
| "gossip_handle (GossipRead result d b) buffer g =
     (case result of
        Inl e \<Rightarrow> Some (Returns (Gossip_done (Inl (Gossip_link d e)), buffer, g))
      | Inr len \<Rightarrow> if length b < len then Some Panics else gossip_packet (take len b) buffer g)"

definition gossip_step :: "'e gossip_event \<Rightarrow> bytes \<Rightarrow> gossip \<Rightarrow> 'e gossip_stepped" where
  "gossip_step ev buffer g =
     (case gossip_stage_all g of
        Panics \<Rightarrow> Some Panics
      | Returns g \<Rightarrow>
          (let g = (case ev of GossipRead _ d b \<Rightarrow> gossip_fill d b g | GossipWrite _ \<Rightarrow> g)
           in gossip_handle ev buffer g))"

fun gossip_read :: "'e gossip_event list \<Rightarrow> bytes \<Rightarrow> gossip \<Rightarrow>
     (('e GossipError + nat) option \<times> bytes \<times> gossip \<times> 'e gossip_event list) outcome option" where
  "gossip_read [] buffer g = Some (Returns (None, buffer, g, []))"
| "gossip_read (ev # evs) buffer g =
     (case gossip_step ev buffer g of
        None \<Rightarrow> None
      | Some Panics \<Rightarrow> Some Panics
      | Some (Returns (Gossip_continue, buffer, g)) \<Rightarrow> gossip_read evs buffer g
      | Some (Returns (Gossip_done res, buffer, g)) \<Rightarrow> Some (Returns (Some res, buffer, g, evs)))"

end
