(* ===== verification/Gossip_Flood.thy ===== *)
theory Gossip_Flood
  imports Gossip Isl_Forwarding
begin

text \<open>
  What gossip guarantees: the duplicate filter answers exactly whether an epoch came before, as
  long as the epochs stay within its window; a node then delivers and forwards every packet of
  an origin once; and the flood reaches every satellite. Epochs of different origins are not
  told apart.
\<close>

section \<open>The filter is exact within its window\<close>

lemma bit_bitmap_mark: "i < 128 \<Longrightarrow> bit (bitmap_mark j b) i \<longleftrightarrow> bit b i \<or> unat j = i"
  by (auto simp: bitmap_mark_def CAPACITY_def bit_simps word_le_nat_alt)

lemma bit_bitmap_shift: "i < 128 \<Longrightarrow> bit (bitmap_shift d b) i \<longleftrightarrow> unat d \<le> i \<and> bit b (i - unat d)"
  by (auto simp: bitmap_shift_def CAPACITY_def bit_simps word_le_nat_alt)

lemma is_marked_bit: "is_marked j b \<longleftrightarrow> unat j < 128 \<and> bit b (unat j)"
proof -
  have "bit (b AND push_bit n 1) i \<longleftrightarrow> i = n \<and> n < 128 \<and> bit b n" for b :: "128 word" and n i
    by (auto simp: bit_simps dest: bit_imp_le_length)
  moreover have "x \<noteq> 0 \<longleftrightarrow> (\<exists>i. bit x i)" for x :: "128 word"
    using bit_eq_iff [of x 0] bit_imp_possible_bit [of x] unfolding bit_0_eq bot_apply bot_bool_def by blast
  ultimately have "b AND push_bit n 1 \<noteq> 0 \<longleftrightarrow> n < 128 \<and> bit b n" for b :: "128 word" and n
    by metis
  then show ?thesis by (auto simp: is_marked_def CAPACITY_def word_le_nat_alt)
qed

lemma u16_diff:
  "m \<le> n \<Longrightarrow> n < m + 65536 \<Longrightarrow> unat (of_nat n - of_nat m :: u16) = n - m"
  "m < n \<Longrightarrow> n < m + 65536 \<Longrightarrow> unat (of_nat m - of_nat n :: u16) = 65536 - (n - m)"
  using unat_of_nat_diff [where 'a = 16, of m n] unat_of_nat_diff_wrap [where 'a = 16, of m n] by simp_all

lemma shortest_path_eq: "shortest_path (of_nat m) (of_nat m) = Coincident"
  by (simp add: shortest_path_def)

lemma shortest_path_forward:
  assumes "m < n" "n < m + 32768"
  shows "shortest_path (of_nat m) (of_nat n) = Forward (of_nat n - of_nat m)"
proof -
  have d: "unat (of_nat n - of_nat m :: u16) = n - m" "unat (of_nat m - of_nat n :: u16) = 65536 - (n - m)"
    using assms by (simp_all add: u16_diff)
  have "of_nat n - of_nat m \<noteq> (0 :: u16)"
  proof
    assume "of_nat n - of_nat m = (0 :: u16)"
    then have "unat (of_nat n - of_nat m :: u16) = 0" by (simp only: unat_0)
    then show False using d(1) assms(1) by simp
  qed
  then show ?thesis using d assms by (simp add: shortest_path_def Let_def word_less_nat_alt)
qed

lemma shortest_path_backward:
  assumes "n < m" "m \<le> n + 32768"
  shows "shortest_path (of_nat m) (of_nat n) = Backward (of_nat m - of_nat n)"
proof -
  note d = u16_diff [of n m]
  then have "of_nat n - of_nat m \<noteq> (0 :: u16)" using assms by auto
  then show ?thesis using d assms by (simp add: shortest_path_def Let_def word_less_nat_alt)
qed

text \<open>
  The numbers a filter is shown: \<open>M\<close> is the highest so far. Each is less than half the number
  space ahead and at most 128 behind.
\<close>

fun in_window :: "nat \<Rightarrow> nat list \<Rightarrow> bool" where
  "in_window M [] = True"
| "in_window M (n # ns) \<longleftrightarrow> n < M + 32768 \<and> M \<le> n + 128 \<and> in_window (max M n) ns"

definition remembers :: "DuplicateFilter \<Rightarrow> nat \<Rightarrow> nat set \<Rightarrow> bool" where
  "remembers f M seen \<longleftrightarrow> df_initialized f \<and> df_head f = of_nat M \<and> M \<in> seen \<and> (\<forall>x\<in>seen. x \<le> M) \<and>
     (\<forall>i<128. bit (df_history f) i \<longleftrightarrow> i < M \<and> M - 1 - i \<in> seen)"

lemma is_duplicate_first:
  "\<not> df_initialized f \<Longrightarrow> df_history f = 0 \<Longrightarrow> fst (is_duplicate (of_nat n) f) = False \<and>
     remembers (snd (is_duplicate (of_nat n) f)) n {n}"
  by (auto simp: is_duplicate_def remembers_def)

lemma remembers_forward:
  assumes "remembers f M seen" "M < n" "n < M + 32768"
  shows "\<not> fst (is_duplicate (of_nat n) f) \<and> remembers (snd (is_duplicate (of_nat n) f)) n (insert n seen)"
proof -
  let ?d = "of_nat n - of_nat M :: u16"
  have d: "unat ?d = n - M" using assms(2,3) by (simp add: u16_diff)
  then have "?d \<noteq> 0" using assms(2) by auto
  then have d1: "unat (?d - 1) = n - M - 1" using unat_minus_one [of ?d] d by simp
  have step: "is_duplicate (of_nat n) f =
      (False, f\<lparr>df_history := bitmap_mark (?d - 1) (bitmap_shift ?d (df_history f)), df_head := of_nat n\<rparr>)"
    using assms by (simp add: is_duplicate_def remembers_def shortest_path_forward)
  have "bit (bitmap_mark (?d - 1) (bitmap_shift ?d (df_history f))) i \<longleftrightarrow> i < n \<and> n - 1 - i \<in> insert n seen"
    if i: "i < 128" for i
  proof -
    have "bit (df_history f) (i - (n - M)) \<longleftrightarrow> i - (n - M) < M \<and> M - 1 - (i - (n - M)) \<in> seen"
      using assms(1) i by (simp add: remembers_def)
    moreover have "n - 1 - i \<in> seen \<longleftrightarrow> False" if "i < n - M - 1"
      using assms(1) that by (force simp: remembers_def)
    moreover have "n - 1 - i = M" if "i = n - M - 1" using that assms(2) by simp
    moreover have "M - 1 - (i - (n - M)) = n - 1 - i" if "n - M \<le> i" using that assms(2) by simp
    moreover have "M \<in> seen" using assms(1) by (simp add: remembers_def)
    ultimately show ?thesis
      using i assms(2) by (cases "i < n - M - 1"; cases "i = n - M - 1") (auto simp: bit_bitmap_mark bit_bitmap_shift d d1)
  qed
  then show ?thesis using assms(1,2) step by (auto simp: remembers_def)
qed

lemma remembers_backward:
  assumes "remembers f M seen" "n \<le> M" "M \<le> n + 128"
  shows "fst (is_duplicate (of_nat n) f) = (n \<in> seen) \<and> remembers (snd (is_duplicate (of_nat n) f)) M (insert n seen)"
proof (cases "n = M")
  case True
  then show ?thesis using assms(1) by (auto simp: is_duplicate_def remembers_def shortest_path_eq insert_absorb)
next
  case False
  then have n: "n < M" using assms(2) by simp
  let ?d = "of_nat M - of_nat n :: u16"
  have d: "unat ?d = M - n" using assms(3) n by (simp add: u16_diff)
  then have "?d \<noteq> 0" using n by auto
  then have d1: "unat (?d - 1) = M - n - 1" using unat_minus_one [of ?d] d by simp
  have "\<not> ?d > CAPACITY" using d assms(3) by (simp add: CAPACITY_def word_less_nat_alt)
  then have step: "is_duplicate (of_nat n) f =
      (if is_marked (?d - 1) (df_history f) then (True, f)
       else (False, f\<lparr>df_history := bitmap_mark (?d - 1) (df_history f)\<rparr>))"
    using assms n by (simp add: is_duplicate_def remembers_def shortest_path_backward)
  have "M - 1 - (M - n - 1) = n" "M - n - 1 < M" "M - n - 1 < 128" using n assms(3) by simp_all
  then have marked: "is_marked (?d - 1) (df_history f) \<longleftrightarrow> n \<in> seen"
    using assms(1) unfolding is_marked_bit d1 remembers_def by metis
  have "bit (bitmap_mark (?d - 1) (df_history f)) i \<longleftrightarrow> i < M \<and> M - 1 - i \<in> insert n seen" if "i < 128" for i
    using assms(1) n that by (auto simp: bit_bitmap_mark d1 remembers_def)
  then show ?thesis using assms(1) n step marked by (auto simp: remembers_def insert_absorb)
qed

lemma remembers_step:
  assumes "remembers f M seen" "n < M + 32768" "M \<le> n + 128"
  shows "fst (is_duplicate (of_nat n) f) = (n \<in> seen) \<and> remembers (snd (is_duplicate (of_nat n) f)) (max M n) (insert n seen)"
proof (cases "M < n")
  case True
  then have "n \<notin> seen" using assms(1) by (auto simp: remembers_def)
  then show ?thesis using remembers_forward [OF assms(1) True assms(2)] True by simp
next
  case False
  then show ?thesis using remembers_backward [OF assms(1) _ assms(3)] by (simp add: max_def)
qed

fun dup_run :: "u16 list \<Rightarrow> DuplicateFilter \<Rightarrow> bool list" where
  "dup_run [] f = []"
| "dup_run (e # es) f = (case is_duplicate e f of (dup, f') \<Rightarrow> dup # dup_run es f')"

lemma dup_run_remembers:
  "remembers f M seen \<Longrightarrow> in_window M ns \<Longrightarrow> i < length ns \<Longrightarrow>
     dup_run (map of_nat ns) f ! i \<longleftrightarrow> ns ! i \<in> seen \<union> set (take i ns)"
proof (induction ns arbitrary: f M seen i)
  case (Cons n ns)
  obtain dup f' where d: "is_duplicate (of_nat n) f = (dup, f')" by (cases "is_duplicate (of_nat n) f")
  then have f': "dup = (n \<in> seen)" "remembers f' (max M n) (insert n seen)"
    using remembers_step [OF Cons.prems(1), of n] Cons.prems(2) by simp_all
  show ?case using d f' Cons.IH [OF f'(2)] Cons.prems(2,3) by (cases i) auto
qed simp

text \<open>
  C30: The duplicate filter is exact. For every sequence of numbers that runs less than half
  the number space ahead of the highest so far and at most 128 behind it, also across the wrap
  of the 16-bit epochs, the filter calls an epoch a duplicate exactly when it came before.
\<close>

theorem duplicate_filter_exact:
  assumes "in_window n ns" "i \<le> length ns"
  shows "dup_run (map of_nat (n # ns)) DuplicateFilter_new ! i \<longleftrightarrow> (n # ns) ! i \<in> set (take i (n # ns))"
proof -
  obtain dup f where d: "is_duplicate (of_nat n) DuplicateFilter_new = (dup, f)"
    by (cases "is_duplicate (of_nat n) DuplicateFilter_new")
  then have f: "\<not> dup" "remembers f n {n}"
    using is_duplicate_first [of DuplicateFilter_new n] by (simp_all add: DuplicateFilter_new_def)
  show ?thesis using d f dup_run_remembers [OF f(2) assms(1)] assms(2) by (cases i) auto
qed

theorem duplicate_filter_exact_witness:
  "dup_run (map of_nat [65530, 65540, 65535, 65530, 65540, 65541]) DuplicateFilter_new ! 3 \<and>
   \<not> dup_run (map of_nat [65530, 65540, 65535, 65530, 65540, 65541]) DuplicateFilter_new ! 2"
  using duplicate_filter_exact [of 65530 "[65540, 65535, 65530, 65540, 65541]" 3]
    duplicate_filter_exact [of 65530 "[65540, 65535, 65530, 65540, 65541]" 2] by simp

section \<open>The ports of a node are the ports of a router\<close>

text \<open>The ground port is an idle one.\<close>

definition as_router :: "nat \<Rightarrow> gossip \<Rightarrow> router" where
  "as_router mtu g =
     \<lparr>north = g_north g, south = g_south g, east = g_east g, west = g_west g,
      ground = Port_new 0 [] (replicate mtu 0), ro_address = g_address g, ro_diag = RouterDiag_default\<rparr>"

abbreviation gossip_holds :: "nat \<Rightarrow> gossip \<Rightarrow> (Hop \<Rightarrow> bytes list) \<Rightarrow> bool" where
  "gossip_holds mtu g qs \<equiv> router_holds mtu (as_router mtu g) qs"

fun gossip_port :: "Direction \<Rightarrow> gossip \<Rightarrow> port" where
  "gossip_port North g = g_north g"
| "gossip_port South g = g_south g"
| "gossip_port East g = g_east g"
| "gossip_port West g = g_west g"

abbreviation gossip_queue :: "Direction \<Rightarrow> gossip \<Rightarrow> ring" where
  "gossip_queue d g \<equiv> port_out (gossip_port d g)"

definition same_node :: "gossip \<Rightarrow> gossip \<Rightarrow> bool" where
  "same_node g g' \<longleftrightarrow> g_dedup g' = g_dedup g \<and> g_torus g' = g_torus g \<and> g_address g' = g_address g"

lemma port_of_as_router [simp]: "port_of (Isl d) (as_router mtu g) = gossip_port d g"
  by (cases d) (simp_all add: as_router_def)

lemma on_gossip_port_returns:
  assumes "on_port f (Isl d) (as_router mtu g) = Some (Returns r)"
  shows "\<exists>g'. on_gossip_port f d g = Some (Returns g') \<and> r = as_router mtu g' \<and> same_node g g'"
  using assms by (cases d) (auto simp: lift_port_def lift_gossip_def as_router_def same_node_def split: option.splits outcome.splits)

lemma gossip_stage_returns:
  assumes "gossip_holds mtu g qs"
  shows "\<exists>g'. gossip_stage_all g = Returns g' \<and> same_ports (as_router mtu g) (as_router mtu g') \<and> same_node g g'"
proof -
  have s: "\<exists>p. stage (gossip_port d g) = Returns p \<and> port_out p = gossip_queue d g
      \<and> length (port_stage p) = length (port_stage (gossip_port d g))" for d
    using stage_returns [OF assms, of "Isl d"] router_holdsD(3) [OF assms, of "Isl d"] by simp
  show ?thesis
    using s [of North] s [of South] s [of East] s [of West]
    by (auto simp: gossip_stage_all_def same_ports_def all_hops same_node_def as_router_def)
qed

lemma gossip_fill_same [simp]: "same_ports (as_router mtu g) (as_router mtu (gossip_fill d b g))" "same_node g (gossip_fill d b g)"
  by (cases d; simp add: same_ports_def all_hops as_router_def same_node_def)+

lemma same_node_trans: "same_node g g' \<Longrightarrow> same_node g' g'' \<Longrightarrow> same_node g g''"
  by (simp add: same_node_def)

text \<open>Forwarding in several directions.\<close>

definition queued_after :: "bytes \<Rightarrow> Direction list \<Rightarrow> gossip \<Rightarrow> (Hop \<Rightarrow> bytes list) \<Rightarrow> Hop \<Rightarrow> bytes list" where
  "queued_after raw ds g qs h =
     (case h of Isl d \<Rightarrow> if d \<in> set ds \<and> fits raw (gossip_queue d g) then qs h @ [raw] else qs h | _ \<Rightarrow> qs h)"

lemma enqueue_all_holds:
  assumes "gossip_holds mtu g qs" "distinct ds" "\<forall>d\<in>set ds. push_ok raw (gossip_queue d g)" "length raw \<le> mtu"
  shows "\<exists>g'. enqueue_all raw ds g = Some (Returns g') \<and> same_node g g' \<and>
    gossip_holds mtu g' (queued_after raw ds g qs)"
  using assms
proof (induction ds arbitrary: g qs)
  case Nil
  have "queued_after raw [] g qs = qs" by (auto simp: queued_after_def split: Hop.splits intro!: ext)
  then show ?case using Nil by (simp add: same_node_def)
next
  case (Cons d ds)
  let ?qs = "qs(Isl d := if fits raw (gossip_queue d g) then qs (Isl d) @ [raw] else qs (Isl d))"
  have ok: "push_ok raw (queue_at (Isl d) (as_router mtu g))" using Cons.prems(3) by simp
  obtain r where r: "on_port (enqueue raw) (Isl d) (as_router mtu g) = Some (Returns r)"
    "\<And>h. h \<noteq> Isl d \<Longrightarrow> port_of h r = port_of h (as_router mtu g)"
    "router_holds mtu r ?qs"
    using enqueue_holds [OF Cons.prems(1) _ ok Cons.prems(4)] by auto
  obtain g1 where g1: "on_gossip_port (enqueue raw) d g = Some (Returns g1)" "r = as_router mtu g1" "same_node g g1"
    using on_gossip_port_returns [OF r(1)] by blast
  have q: "gossip_queue d' g1 = gossip_queue d' g" if "d' \<noteq> d" for d'
    using r(2) [of "Isl d'"] that by (simp add: g1(2))
  have dist: "distinct ds" using Cons.prems(2) by simp
  have "\<forall>d'\<in>set ds. push_ok raw (gossip_queue d' g1)"
    using Cons.prems(2,3) q by (metis distinct.simps(2) list.set_intros(2))
  from Cons.IH [OF r(3) [unfolded g1(2)] dist this Cons.prems(4)]
  obtain g' where g': "enqueue_all raw ds g1 = Some (Returns g')" "same_node g1 g'"
    "gossip_holds mtu g' (queued_after raw ds g1 ?qs)" by blast
  have "queued_after raw ds g1 ?qs = queued_after raw (d # ds) g qs"
  proof
    fix h
    have "\<forall>d'\<in>set ds. gossip_queue d' g1 = gossip_queue d' g"
      using Cons.prems(2) q by (metis distinct.simps(2))
    then show "queued_after raw ds g1 ?qs h = queued_after raw (d # ds) g qs h"
      using Cons.prems(2) by (cases h) (auto simp: queued_after_def)
  qed
  then show ?case using g' g1 same_node_trans [OF g1(3) g'(2)] by simp
qed

section \<open>Runs of a node\<close>

fun gossip_raw :: "'e gossip_event \<Rightarrow> bytes option" where
  "gossip_raw (GossipRead (Inr len) d b) = Some (take len b)"
| "gossip_raw _ = None"

definition gossip_log :: "'e gossip_event \<Rightarrow> gossip \<Rightarrow> 'e gossip_result \<Rightarrow> bytes \<Rightarrow> log_entry list" where
  "gossip_log ev g res buffer' =
     (case ev of
        GossipWrite d \<Rightarrow> (case front (gossip_queue d g) of Returns (Some x) \<Rightarrow> [Wrote (Isl d) x] | _ \<Rightarrow> [])
      | GossipRead _ _ _ \<Rightarrow>
          (case gossip_raw ev of
             None \<Rightarrow> []
           | Some raw \<Rightarrow>
               (case fst (gossip_receive (g_torus g) (g_address g) raw (g_dedup g)) of
                  None \<Rightarrow> []
                | Some (ds, payload) \<Rightarrow>
                    map (\<lambda>d. case push raw (gossip_queue d g) of
                        Some (Returns (True, _)) \<Rightarrow> Took (Isl d) raw | _ \<Rightarrow> Refused (Isl d) raw) ds @
                    (case res of Gossip_done (Inr n) \<Rightarrow> [Delivered (take n buffer')] | _ \<Rightarrow> []))))"

fun gossip_run :: "bytes \<Rightarrow> 'e gossip_event list \<Rightarrow> gossip \<Rightarrow> (log_entry list \<times> gossip) outcome option" where
  "gossip_run buffer [] g = Some (Returns ([], g))"
| "gossip_run buffer (ev # evs) g =
     (case gossip_step ev buffer g of
        None \<Rightarrow> None
      | Some Panics \<Rightarrow> Some Panics
      | Some (Returns (res, buffer', g')) \<Rightarrow>
          (case gossip_run buffer evs g' of
             Some (Returns (log, g'')) \<Rightarrow> Some (Returns (gossip_log ev g res buffer' @ log, g''))
           | x \<Rightarrow> x))"

text \<open>The packets a node accepts, with the directions it forwards them in.\<close>

fun accepts :: "Torus \<Rightarrow> Address \<Rightarrow> 'e gossip_event list \<Rightarrow> DuplicateFilter \<Rightarrow> (Direction list \<times> bytes) list" where
  "accepts T a [] f = []"
| "accepts T a (ev # evs) f =
     (case gossip_raw ev of
        None \<Rightarrow> accepts T a evs f
      | Some raw \<Rightarrow>
          (case gossip_receive T a raw f of
             (None, f') \<Rightarrow> accepts T a evs f'
           | (Some (ds, _), f') \<Rightarrow> (ds, raw) # accepts T a evs f'))"

fun gossip_read_ok :: "nat \<Rightarrow> 'e gossip_event \<Rightarrow> bool" where
  "gossip_read_ok mtu (GossipRead res d b) \<longleftrightarrow> length b = mtu \<and> (case res of Inl _ \<Rightarrow> True | Inr len \<Rightarrow> len \<le> mtu)"
| "gossip_read_ok mtu (GossipWrite d) \<longleftrightarrow> True"

definition pushes_ok :: "'e gossip_event \<Rightarrow> gossip \<Rightarrow> bool" where
  "pushes_ok ev g =
     (case gossip_raw ev of
        None \<Rightarrow> True
      | Some raw \<Rightarrow>
          (case fst (gossip_receive (g_torus g) (g_address g) raw (g_dedup g)) of
             None \<Rightarrow> True
           | Some (ds, _) \<Rightarrow> list_all (\<lambda>d. push_ok raw (gossip_queue d g)) ds))"

fun gossip_safe :: "nat \<Rightarrow> bytes \<Rightarrow> 'e gossip_event list \<Rightarrow> gossip \<Rightarrow> bool" where
  "gossip_safe mtu buffer [] g = True"
| "gossip_safe mtu buffer (ev # evs) g =
     (gossip_read_ok mtu ev \<and> pushes_ok ev g \<and>
      (case gossip_step ev buffer g of Some (Returns (_, _, g')) \<Rightarrow> gossip_safe mtu buffer evs g' | _ \<Rightarrow> True))"

text \<open>What the log says of the packets accepted.\<close>

definition accepts_logged :: "nat \<Rightarrow> (Direction list \<times> bytes) list \<Rightarrow> log_entry list \<Rightarrow> bool" where
  "accepts_logged B acc log \<longleftrightarrow>
     (\<forall>d. List.map_filter (handled (Isl d)) log = map snd (filter (\<lambda>(ds, raw). d \<in> set ds) acc)) \<and>
     List.map_filter (handled Local) log = filter (\<lambda>p. length p \<le> B) (map (gossip_payload \<circ> snd) acc)"

lemma accepts_logged_append:
  "accepts_logged B a log \<Longrightarrow> accepts_logged B b log' \<Longrightarrow> accepts_logged B (a @ b) (log @ log')"
  by (simp add: accepts_logged_def)

definition gossip_logged ::
  "nat \<Rightarrow> bytes \<Rightarrow> 'e gossip_event \<Rightarrow> gossip \<Rightarrow> (Hop \<Rightarrow> bytes list) \<Rightarrow> 'e gossip_stepped \<Rightarrow> bool" where
  "gossip_logged mtu buffer ev g qs stepped \<longleftrightarrow>
     (\<exists>res buffer' g' qs' acc. stepped = Some (Returns (res, buffer', g')) \<and>
        g_torus g' = g_torus g \<and> g_address g' = g_address g \<and>
        (\<forall>evs. accepts (g_torus g) (g_address g) (ev # evs) (g_dedup g) = acc @ accepts (g_torus g) (g_address g) evs (g_dedup g')) \<and>
        gossip_holds mtu g' qs' \<and> queues_logged qs (gossip_log ev g res buffer') qs' \<and>
        accepts_logged (length buffer) acc (gossip_log ev g res buffer'))"

lemma gossip_write_logged:
  assumes "gossip_holds mtu g qs" "same_ports (as_router mtu g) (as_router mtu g1)" "same_node g g1"
  shows "gossip_logged mtu buffer (GossipWrite d) g qs (gossip_handle (GossipWrite d) buffer g1)"
proof -
  obtain r where r: "on_port dequeue (Isl d) (as_router mtu g1) = Some (Returns r)"
    "router_holds mtu r (qs(Isl d := tl (qs (Isl d))))"
    using dequeue_holds [OF router_holds_same [OF assms(1,2)], of "Isl d"] by auto
  obtain g' where g': "on_gossip_port dequeue d g1 = Some (Returns g')" "r = as_router mtu g'" "same_node g1 g'"
    using on_gossip_port_returns [OF r(1)] by blast
  have "front (gossip_queue d g) = Returns (case qs (Isl d) of [] \<Rightarrow> None | p # _ \<Rightarrow> Some p)"
    using rq.peek router_holdsD(1,2) [OF assms(1), of "Isl d"] by auto
  then have "queues_logged qs (gossip_log (GossipWrite d) g Gossip_continue buffer) (qs(Isl d := tl (qs (Isl d)))) \<and>
      accepts_logged (length buffer) [] (gossip_log (GossipWrite d) g Gossip_continue buffer)"
    by (cases "qs (Isl d)") (auto simp: gossip_log_def queues_logged_def accepts_logged_def map_filter_simps map_filter_def)
  then show ?thesis
    unfolding gossip_logged_def using g' r(2) assms(3)
    by (intro exI [of _ Gossip_continue] exI [of _ buffer] exI [of _ g'] exI [of _ "qs(Isl d := tl (qs (Isl d)))"] exI [of _ "[]"])
      (simp add: same_node_def)
qed

lemma gossip_unread_logged:
  assumes "gossip_holds mtu g qs" "same_ports (as_router mtu g) (as_router mtu g1)" "same_node g g1"
    and "ev = GossipRead res d b" "gossip_raw ev = None"
  shows "gossip_logged mtu buffer ev g qs (Some (Returns (Gossip_done (Inl e), buffer, g1)))"
  unfolding gossip_logged_def
  using assms router_holds_same [OF assms(1,2)]
  by (intro exI [of _ "Gossip_done (Inl e)"] exI [of _ buffer] exI [of _ g1] exI [of _ qs] exI [of _ "[]"])
    (simp add: same_node_def gossip_log_def queues_logged_def accepts_logged_def map_filter_def)

lemma distinct_forward: "distinct (forward_directions T p a)"
  by (simp add: forward_directions_def all_directions_def)

lemma receive_cases:
  "(\<exists>f'. gossip_receive T a raw f = (None, f')) \<or>
   (\<exists>ds f'. gossip_receive T a raw f = (Some (ds, gossip_payload raw), f') \<and> distinct ds)"
  by (auto simp: gossip_receive_def distinct_forward split: prod.splits bool.splits)

text \<open>The entries of the pushes.\<close>

lemma took_pushes:
  assumes "gossip_holds mtu g qs" "distinct ds" "\<forall>d\<in>set ds. push_ok raw (gossip_queue d g)"
  defines "log \<equiv> map (\<lambda>d. case push raw (gossip_queue d g) of
      Some (Returns (True, _)) \<Rightarrow> Took (Isl d) raw | _ \<Rightarrow> Refused (Isl d) raw) ds"
  shows "queues_logged qs log (queued_after raw ds g qs)"
    and "List.map_filter (handled (Isl d)) log = (if d \<in> set ds then [raw] else [])"
    and "List.map_filter (handled Local) log = []"
proof -
  have e: "(case push raw (gossip_queue d g) of Some (Returns (True, _)) \<Rightarrow> Took (Isl d) raw | _ \<Rightarrow> Refused (Isl d) raw) =
      (if fits raw (gossip_queue d g) then Took (Isl d) raw else Refused (Isl d) raw)" if "d \<in> set ds" for d
  proof -
    have "push_ok raw (gossip_queue d g)" using assms(3) that by blast
    then obtain q where "push raw (gossip_queue d g) = Some (Returns (fits raw (gossip_queue d g), q))"
      using rq.enq [of "gossip_queue d g" "qs (Isl d)" raw] router_holdsD(1,2) [OF assms(1), of "Isl d"] by auto
    then show ?thesis by simp
  qed
  have log: "log = map (\<lambda>d. if fits raw (gossip_queue d g) then Took (Isl d) raw else Refused (Isl d) raw) ds"
    unfolding log_def using e by simp
  have t: "List.map_filter (took (Isl d)) (map (\<lambda>d. if P d then Took (Isl d) raw else Refused (Isl d) raw) ds) =
      (if d \<in> set ds \<and> P d then [raw] else [])" for d P
    using assms(2) by (induction ds) (auto simp: List.map_filter_simps)
  have t': "List.map_filter (took Ground_hop) (map (\<lambda>d. if P d then Took (Isl d) raw else Refused (Isl d) raw) ds) = []" for P
    by (induction ds) (auto simp: List.map_filter_simps)
  have w: "List.map_filter (wrote h) (map (\<lambda>d. if P d then Took (Isl d) raw else Refused (Isl d) raw) ds) = []" for h P
    by (induction ds) (auto simp: List.map_filter_simps)
  show "queues_logged qs log (queued_after raw ds g qs)"
    unfolding queues_logged_def log
  proof (intro allI impI)
    fix h assume "h \<noteq> Local"
    then show "qs h @ List.map_filter (took h) (map (\<lambda>d. if fits raw (gossip_queue d g) then Took (Isl d) raw else Refused (Isl d) raw) ds) =
        List.map_filter (wrote h) (map (\<lambda>d. if fits raw (gossip_queue d g) then Took (Isl d) raw else Refused (Isl d) raw) ds) @
        queued_after raw ds g qs h"
      by (cases h) (auto simp: t t' w queued_after_def)
  qed
  show "List.map_filter (handled (Isl d)) log = (if d \<in> set ds then [raw] else [])"
    unfolding log using assms(2) by (induction ds) (auto simp: List.map_filter_simps)
  show "List.map_filter (handled Local) log = []"
    unfolding log by (induction ds) (auto simp: List.map_filter_simps)
qed

lemma gossip_packet_logged:
  assumes "gossip_holds mtu g qs" "same_ports (as_router mtu g) (as_router mtu g1)" "same_node g g1"
    and ev: "ev = GossipRead res d b" "gossip_raw ev = Some raw" "length raw \<le> mtu" "pushes_ok ev g"
  shows "gossip_logged mtu buffer ev g qs (gossip_packet raw buffer g1)"
proof -
  have n: "g_dedup g1 = g_dedup g" "g_torus g1 = g_torus g" "g_address g1 = g_address g"
    using assms(3) by (simp_all add: same_node_def)
  show ?thesis
  proof (cases "\<exists>f'. gossip_receive (g_torus g) (g_address g) raw (g_dedup g) = (None, f')")
    case True
    then obtain f' where f': "gossip_receive (g_torus g) (g_address g) raw (g_dedup g) = (None, f')" by blast
    have "gossip_holds mtu (g1\<lparr>g_dedup := f'\<rparr>) qs"
      using router_holds_same [OF assms(1,2)] by (simp add: as_router_def)
    then show ?thesis
      unfolding gossip_logged_def using f' n ev
      by (intro exI [of _ Gossip_continue] exI [of _ buffer] exI [of _ "g1\<lparr>g_dedup := f'\<rparr>"] exI [of _ qs] exI [of _ "[]"])
        (simp add: gossip_packet_def gossip_log_def queues_logged_def accepts_logged_def map_filter_def)
  next
    case False
    then obtain ds f' where f': "gossip_receive (g_torus g) (g_address g) raw (g_dedup g) = (Some (ds, gossip_payload raw), f')"
      "distinct ds" using receive_cases by blast
    let ?g2 = "g1\<lparr>g_dedup := f'\<rparr>"
    have h2: "gossip_holds mtu ?g2 qs" using router_holds_same [OF assms(1,2)] by (simp add: as_router_def)
    have q: "gossip_queue d ?g2 = gossip_queue d g" for d
      using assms(2) unfolding same_ports_def by (cases d) (auto simp: all_hops as_router_def)
    have ok: "\<forall>d\<in>set ds. push_ok raw (gossip_queue d g)"
      using ev(2,4) f'(1) by (simp add: pushes_ok_def list_all_iff)
    obtain g' where g': "enqueue_all raw ds ?g2 = Some (Returns g')" "same_node ?g2 g'"
      "gossip_holds mtu g' (queued_after raw ds ?g2 qs)"
      using enqueue_all_holds [OF h2 f'(2) _ ev(3)] ok q by auto
    have qa: "queued_after raw ds ?g2 qs = queued_after raw ds g qs"
      using q by (auto simp: queued_after_def split: Hop.splits intro!: ext)
    let ?res = "if length buffer < length (gossip_payload raw)
      then Gossip_done (Inl (GossipBufferTooSmall (length (gossip_payload raw)) (length buffer)))
      else Gossip_done (Inr (length (gossip_payload raw))) :: 'a gossip_result"
    let ?buf = "if length buffer < length (gossip_payload raw) then buffer else blit buffer 0 (gossip_payload raw)"
    let ?del = "if length buffer < length (gossip_payload raw) then [] else [Delivered (gossip_payload raw)]"
    let ?log = "map (\<lambda>d. case push raw (gossip_queue d g) of
        Some (Returns (True, _)) \<Rightarrow> Took (Isl d) raw | _ \<Rightarrow> Refused (Isl d) raw) ds"
    have log: "gossip_log ev g ?res ?buf = ?log @ ?del"
      using ev(1,2) f'(1) by (simp add: gossip_log_def)
    note tp = took_pushes [OF assms(1) f'(2) ok]
    have "queues_logged (queued_after raw ds g qs) ?del (queued_after raw ds g qs)"
      by (simp add: queues_logged_def List.map_filter_simps)
    from queues_logged_append [OF tp(1) this]
    have ql: "queues_logged qs (gossip_log ev g ?res ?buf) (queued_after raw ds g qs)" unfolding log .
    have al: "accepts_logged (length buffer) [(ds, raw)] (gossip_log ev g ?res ?buf)"
      unfolding log accepts_logged_def by (simp add: tp List.map_filter_simps)
    show ?thesis
      unfolding gossip_logged_def
      using f' n ev g' ql al
      by (intro exI [of _ ?res] exI [of _ ?buf] exI [of _ g'] exI [of _ "queued_after raw ds g qs"] exI [of _ "[(ds, raw)]"])
        (simp add: gossip_packet_def same_node_def qa Let_def)
  qed
qed

lemma gossip_handle_logged:
  assumes "gossip_holds mtu g qs" "same_ports (as_router mtu g) (as_router mtu g1)" "same_node g g1"
    and "gossip_read_ok mtu ev" "pushes_ok ev g"
  shows "gossip_logged mtu buffer ev g qs (gossip_handle ev buffer g1)"
proof (cases ev)
  case (GossipRead res d b)
  show ?thesis
  proof (cases res)
    case (Inl e)
    then show ?thesis using gossip_unread_logged [OF assms(1-3) GossipRead] GossipRead by simp
  next
    case (Inr len)
    then show ?thesis
      using gossip_packet_logged [OF assms(1-3) GossipRead, of "take len b"] GossipRead assms(4,5) by simp
  qed
next
  case (GossipWrite d)
  then show ?thesis using gossip_write_logged [OF assms(1-3)] by simp
qed

lemma gossip_step_logged:
  assumes "gossip_holds mtu g qs" "gossip_read_ok mtu ev" "pushes_ok ev g"
  shows "gossip_logged mtu buffer ev g qs (gossip_step ev buffer g)"
proof -
  obtain g1 where g1: "gossip_stage_all g = Returns g1" "same_ports (as_router mtu g) (as_router mtu g1)" "same_node g g1"
    using gossip_stage_returns [OF assms(1)] by blast
  let ?g2 = "case ev of GossipRead _ d b \<Rightarrow> gossip_fill d b g1 | GossipWrite _ \<Rightarrow> g1"
  have "same_ports (as_router mtu g) (as_router mtu ?g2)" "same_node g ?g2"
    using g1(2,3) same_ports_trans [OF g1(2)] same_node_trans [OF g1(3)] by (auto split: gossip_event.splits)
  from gossip_handle_logged [OF assms(1) this assms(2,3)] show ?thesis
    using g1(1) by (simp add: gossip_step_def Let_def)
qed

lemma gossip_run_logged:
  assumes "gossip_holds mtu g qs" "gossip_safe mtu buffer evs g"
  shows "\<exists>log g' qs'. gossip_run buffer evs g = Some (Returns (log, g')) \<and> gossip_holds mtu g' qs' \<and>
    queues_logged qs log qs' \<and> accepts_logged (length buffer) (accepts (g_torus g) (g_address g) evs (g_dedup g)) log"
  using assms
proof (induction evs arbitrary: g qs)
  case Nil
  then show ?case by (auto simp: queues_logged_def accepts_logged_def map_filter_def intro!: exI [of _ qs])
next
  case (Cons ev evs)
  have "gossip_logged mtu buffer ev g qs (gossip_step ev buffer g)"
    by (rule gossip_step_logged [OF Cons.prems(1)]) (use Cons.prems(2) in simp_all)
  then obtain res buffer' g' qs' acc where st: "gossip_step ev buffer g = Some (Returns (res, buffer', g'))"
    "g_torus g' = g_torus g" "g_address g' = g_address g"
    "\<And>evs. accepts (g_torus g) (g_address g) (ev # evs) (g_dedup g) = acc @ accepts (g_torus g) (g_address g) evs (g_dedup g')"
    "gossip_holds mtu g' qs'" "queues_logged qs (gossip_log ev g res buffer') qs'"
    "accepts_logged (length buffer) acc (gossip_log ev g res buffer')"
    unfolding gossip_logged_def by blast
  have "gossip_safe mtu buffer evs g'" using Cons.prems(2) st(1) by simp
  from Cons.IH [OF st(5) this] obtain log g'' qs'' where run: "gossip_run buffer evs g' = Some (Returns (log, g''))"
    "gossip_holds mtu g'' qs''" "queues_logged qs' log qs''"
    "accepts_logged (length buffer) (accepts (g_torus g') (g_address g') evs (g_dedup g')) log" by blast
  have "accepts_logged (length buffer) (accepts (g_torus g) (g_address g) (ev # evs) (g_dedup g)) (gossip_log ev g res buffer' @ log)"
    using accepts_logged_append [OF st(7) run(4)] by (simp only: st(2,3) st(4))
  moreover have "gossip_run buffer (ev # evs) g = Some (Returns (gossip_log ev g res buffer' @ log, g''))"
    using st(1) run(1) by simp
  ultimately show ?case using run(2) queues_logged_append [OF st(6) run(3)] by blast
qed

section \<open>Each packet once\<close>

fun first_time :: "nat list \<Rightarrow> (nat \<times> bytes) list \<Rightarrow> bytes list" where
  "first_time seen [] = []"
| "first_time seen ((n, raw) # xs) =
     (if n \<in> set seen then first_time seen xs else raw # first_time (n # seen) xs)"

lemma accepts_first_time:
  assumes "remembers f M (set seen)" "in_window M ns" "map gossip_epoch (List.map_filter gossip_raw evs) = map of_nat ns"
    and "\<forall>raw\<in>set (List.map_filter gossip_raw evs). GOSSIP_MINIMUM \<le> length raw"
  shows "accepts T a evs f = map (\<lambda>raw. (forward_directions T (Point_from a) (gossip_predecessor raw), raw))
    (first_time seen (zip ns (List.map_filter gossip_raw evs)))"
  using assms
proof (induction evs arbitrary: f M seen ns)
  case (Cons ev evs)
  show ?case
  proof (cases "gossip_raw ev")
    case None
    then show ?thesis using Cons by (simp add: List.map_filter_simps)
  next
    case (Some raw)
    then obtain n ns' where ns: "ns = n # ns'" "gossip_epoch raw = of_nat n"
      using Cons.prems(3) by (cases ns) (auto simp: List.map_filter_simps)
    obtain dup f' where d: "is_duplicate (of_nat n) f = (dup, f')" by (cases "is_duplicate (of_nat n) f")
    then have f': "dup = (n \<in> set seen)" "remembers f' (max M n) (insert n (set seen))"
      using remembers_step [OF Cons.prems(1), of n] Cons.prems(2) ns(1) by simp_all
    have rest: "in_window (max M n) ns'" "map gossip_epoch (List.map_filter gossip_raw evs) = map of_nat ns'"
      "\<forall>raw\<in>set (List.map_filter gossip_raw evs). GOSSIP_MINIMUM \<le> length raw" "GOSSIP_MINIMUM \<le> length raw"
      using Cons.prems(2-4) ns Some by (simp_all add: List.map_filter_simps)
    show ?thesis
    proof (cases "n \<in> set seen")
      case True
      then have "remembers f' (max M n) (set seen)" using f'(2) by (simp add: insert_absorb)
      from Cons.IH [OF this rest(1-3)] show ?thesis
        using True Some ns d f'(1) rest(4) by (simp add: List.map_filter_simps gossip_receive_def)
    next
      case False
      have "remembers f' (max M n) (set (n # seen))" using f'(2) by simp
      from Cons.IH [OF this rest(1-3)] show ?thesis
        using False Some ns d f'(1) rest(4) by (simp add: List.map_filter_simps gossip_receive_def)
    qed
  qed
qed (simp add: List.map_filter_simps)

lemma accepts_new:
  assumes "in_window n ns" "map gossip_epoch (List.map_filter gossip_raw evs) = map of_nat (n # ns)"
    and "\<forall>raw\<in>set (List.map_filter gossip_raw evs). GOSSIP_MINIMUM \<le> length raw"
  shows "accepts T a evs DuplicateFilter_new = map (\<lambda>raw. (forward_directions T (Point_from a) (gossip_predecessor raw), raw))
    (first_time [] (zip (n # ns) (List.map_filter gossip_raw evs)))"
  using assms(2,3)
proof (induction evs)
  case (Cons ev evs)
  show ?case
  proof (cases "gossip_raw ev")
    case None
    then show ?thesis using Cons by (simp add: List.map_filter_simps)
  next
    case (Some raw)
    obtain dup f where d: "is_duplicate (of_nat n) DuplicateFilter_new = (dup, f)"
      by (cases "is_duplicate (of_nat n) DuplicateFilter_new")
    then have f: "\<not> dup" "remembers f n (set [n])"
      using is_duplicate_first [of DuplicateFilter_new n] by (simp_all add: DuplicateFilter_new_def)
    have rest: "map gossip_epoch (List.map_filter gossip_raw evs) = map of_nat ns"
      "\<forall>raw\<in>set (List.map_filter gossip_raw evs). GOSSIP_MINIMUM \<le> length raw" "GOSSIP_MINIMUM \<le> length raw"
      "gossip_epoch raw = of_nat n"
      using Cons.prems Some by (simp_all add: List.map_filter_simps)
    from accepts_first_time [OF f(2) assms(1) rest(1,2)] show ?thesis
      using Some d f(1) rest(3,4) by (simp add: List.map_filter_simps gossip_receive_def)
  qed
qed (simp add: List.map_filter_simps)

lemma gossip_holds_new: "gossip_holds mtu (Gossip_new OUT (pool_of mtu) a T ap code) (\<lambda>_. [])"
  unfolding router_holds_def all_hops
  by (simp add: Gossip_new_def as_router_def Port_new_def pool_of_def RingBuffer_new_def holds_packets_def)


definition demo_gossip :: bytes where
  "demo_gossip = [0x18, 5, 0xC0, 0, 0, 8, 9, 0, 2, 3, 2, 3, 0, 5, 77]"

definition demo_flood :: "unit gossip_event list" where
  "demo_flood = [GossipRead (Inr 15) South (demo_gossip @ [0]), GossipRead (Inl ()) East (replicate 16 0),
     GossipWrite East, GossipRead (Inr 15) West (demo_gossip @ [0])]"

definition demo_gossip_ring :: ring where
  "demo_gossip_ring =
     \<lparr>rb_buf = 0 # 15 # demo_gossip @ replicate 3 0, rb_head = 17, rb_tail = 0, rb_count = 1, rb_front_drop = False\<rparr>"

lemma demo_gossip_rings:
  "push_ok demo_gossip (RingBuffer_new 20)"
  "push demo_gossip (RingBuffer_new 20) = Some (Returns (True, demo_gossip_ring))"
  "front (RingBuffer_new 20) = Returns None" "front demo_gossip_ring = Returns (Some demo_gossip)"
  "pop demo_gossip_ring = Returns (demo_gossip_ring\<lparr>rb_head := 0, rb_count := 0\<rparr>)"
  "front (demo_gossip_ring\<lparr>rb_head := 0, rb_count := 0\<rparr>) = Returns None"
  by (simp_all add: ring_eval push_ok_def demo_gossip_ring_def demo_gossip_def)

lemma demo_gossip_fields:
  "length demo_gossip = 15" "gossip_epoch demo_gossip = 5" "gossip_payload demo_gossip = [77]"
  "gossip_predecessor demo_gossip = Satellite \<lparr>orb = 1, sat = 3\<rparr>" "length (replicate 3 (0 :: u8)) = 3"
  by (simp_all add: demo_gossip_def gossip_epoch_def be16_to_def gossip_payload_def GOSSIP_MINIMUM_def gossip_predecessor_def
      RawAddress_parse_def)

lemma demo_forward: "forward_directions demo_torus \<lparr>orb = 1, sat = 4\<rparr> (Satellite \<lparr>orb = 1, sat = 3\<rparr>) = [South, East, West]"
  by (simp add: forward_directions_def all_directions_def demo_torus_def torus_next_def torus_prev_def)

lemma demo_filter:
  "is_duplicate 5 DuplicateFilter_new = (False, \<lparr>df_head = 5, df_history = 0, df_initialized = True\<rparr>)"
  "is_duplicate 5 \<lparr>df_head = 5, df_history = 0, df_initialized = True\<rparr> = (True, \<lparr>df_head = 5, df_history = 0, df_initialized = True\<rparr>)"
  by (simp_all add: is_duplicate_def DuplicateFilter_new_def shortest_path_def)

lemma demo_gossip_safe:
  "gossip_safe 16 (replicate 16 0) demo_flood (Gossip_new 20 (pool_of 16) (Satellite \<lparr>orb = 1, sat = 4\<rparr>) demo_torus 5 9)"
  by (simp add: demo_flood_def Gossip_new_def Port_new_def pool_of_def pushes_ok_def demo_gossip_fields gossip_receive_def
      GOSSIP_MINIMUM_def demo_filter Point_from_def demo_forward demo_gossip_rings gossip_step_def gossip_stage_all_def
      stage_def gossip_packet_def lift_gossip_def enqueue_def dequeue_def Let_def)


section \<open>The flood reaches every satellite\<close>

lemma forward_neighbor:
  "neighbor T p d \<noteq> o' \<Longrightarrow> d \<in> set (forward_directions T p (Satellite o'))"
  by (cases d) (auto simp: forward_directions_def all_directions_def)

text \<open>
  C31: The flood covers the torus. For every satellite other than the origin there is a
  shortest path of links from the origin such that every satellite on the way, the first time
  it receives the packet, forwards it in the direction of the path and delivers its payload.
\<close>

theorem gossip_reaches_all:
  assumes "on_torus T src" "on_torus T q" "src \<noteq> q"
    and "14 \<le> length raw" "gossip_predecessor raw = Satellite src"
  shows "\<exists>ds. length ds = hops T src q \<and> walk T ds src = q \<and>
    (\<forall>i f. 0 < i \<longrightarrow> i < length ds \<longrightarrow> \<not> fst (is_duplicate (gossip_epoch raw) f) \<longrightarrow>
       (\<exists>dirs. fst (gossip_receive T (Satellite (walk T (take i ds) src)) raw f) = Some (dirs, gossip_payload raw) \<and>
          ds ! i \<in> set dirs))"
proof -
  obtain ds where ds: "length ds = hops T src q" "walk T ds src = q"
    using manhattan.shortest_hops [OF assms(1,2), of "replicate (hops T src q) 0"] by auto
  have walk_append: "walk T (xs @ ys) p = walk T ys (walk T xs p)" for xs ys p
    by (induction xs arbitrary: p) simp_all
  have not_back: "walk T (take (Suc i) ds) src \<noteq> src" if "i < length ds" for i
  proof
    assume again: "walk T (take (Suc i) ds) src = src"
    have "walk T (drop (Suc i) ds) src = q"
      using ds(2) walk_append [of "take (Suc i) ds" "drop (Suc i) ds" src] again by simp
    then have "hops T src q \<le> length (drop (Suc i) ds)" by (rule walk_hops [OF assms(1,2)])
    then show False using ds(1) that by simp
  qed
  have "ds ! i \<in> set (forward_directions T (walk T (take i ds) src) (Satellite src))" if "i < length ds" for i
    using forward_neighbor [of T "walk T (take i ds) src" "ds ! i" src] not_back [OF that] walk_append [of "take i ds" "[ds ! i]" src] that
    by (simp add: take_Suc_conv_app_nth)
  then show ?thesis
    using ds assms(4,5)
    by (intro exI [of _ ds]) (auto simp: gossip_receive_def GOSSIP_MINIMUM_def Point_from_def split: prod.splits bool.splits)
qed

theorem gossip_reaches_all_witness:
  "\<exists>ds. length ds = 3 \<and> walk demo_torus ds \<lparr>orb = 1, sat = 3\<rparr> = \<lparr>orb = 3, sat = 4\<rparr>"
  using gossip_reaches_all [of demo_torus "\<lparr>orb = 1, sat = 3\<rparr>" "\<lparr>orb = 3, sat = 4\<rparr>" demo_gossip]
  by (auto simp: demo_gossip_fields demo_torus_def on_torus_def hops_def ring_dist_def torus_distance_def)

section \<open>Epochs of different origins collide\<close>

lemma duplicate_again: "fst (is_duplicate e (snd (is_duplicate e f)))"
proof (cases "df_initialized f")
  case True
  have m: "is_marked j (bitmap_mark j b)" if "\<not> CAPACITY \<le> j" for j b
    using that by (simp add: is_marked_bit bit_bitmap_mark CAPACITY_def word_le_nat_alt)
  have b: "\<not> CAPACITY \<le> d - 1" if "shortest_path h e = Backward d" "\<not> CAPACITY < d" for h d
  proof -
    have "d \<noteq> 0" using that(1) by (auto simp: shortest_path_def Let_def split: if_splits)
    then have "unat (d - 1) = unat d - 1" "unat d \<noteq> 0" by (simp_all add: unat_minus_one unat_eq_zero)
    then show ?thesis using that(2) by (simp add: CAPACITY_def word_le_nat_alt word_less_nat_alt)
  qed
  show ?thesis
    using True m b by (auto simp: is_duplicate_def shortest_path_eq split: ShortestPath.splits if_splits) (simp_all add: shortest_path_def)
next
  case False
  then show ?thesis by (simp add: is_duplicate_def shortest_path_def)
qed

text \<open>
  Epochs of different origins are not told apart. A node that has handled a packet drops
  every packet of another origin with the same epoch, whatever it carries; and since every node
  starts at epoch 0 and marks its own epochs as seen, a node that has sent a packet drops the
  packet of the same number of every other node.
\<close>

theorem gossip_origins_collide:
  assumes "14 \<le> length raw" "14 \<le> length raw'" "gossip_epoch raw' = gossip_epoch raw" "gossip_epoch raw = g_next_epoch g"
  shows "fst (gossip_receive T a raw' (snd (gossip_receive T a raw f))) = None \<and>
    fst (gossip_receive T a raw (g_dedup (snd (snd (gossip_write link data g))))) = None"
proof -
  have again: "fst (gossip_receive T a raw' (snd (is_duplicate (gossip_epoch raw) f))) = None"
    if "gossip_epoch raw' = gossip_epoch raw" "14 \<le> length raw'" for raw raw' f
    using that duplicate_again [of "gossip_epoch raw" f]
    by (cases "is_duplicate (gossip_epoch raw) (snd (is_duplicate (gossip_epoch raw) f))")
      (simp add: gossip_receive_def GOSSIP_MINIMUM_def)
  have "snd (gossip_receive T a raw f) = snd (is_duplicate (gossip_epoch raw) f)"
    using assms(1) by (cases "is_duplicate (gossip_epoch raw) f") (auto simp: gossip_receive_def GOSSIP_MINIMUM_def split: bool.splits)
  then have one: "fst (gossip_receive T a raw' (snd (gossip_receive T a raw f))) = None"
    using again [OF assms(3,2)] by simp
  have "g_dedup (snd (snd (gossip_write link data g))) = snd (is_duplicate (gossip_epoch raw) (g_dedup g))"
    by (simp add: gossip_write_def Let_def assms(4) split: sum.splits prod.splits)
  then show ?thesis using again [of raw raw] assms(1) one by simp
qed

theorem gossip_origins_collide_witness:
  "gossip_origin (demo_gossip[9 := 8]) \<noteq> gossip_origin demo_gossip \<and>
   fst (gossip_receive demo_torus (Satellite \<lparr>orb = 1, sat = 4\<rparr>) (demo_gossip[9 := 8])
      (snd (gossip_receive demo_torus (Satellite \<lparr>orb = 1, sat = 4\<rparr>) demo_gossip DuplicateFilter_new))) = None"
proof -
  let ?g = "(Gossip_new 20 (pool_of 16) (Satellite \<lparr>orb = 1, sat = 4\<rparr>) demo_torus 5 9)\<lparr>g_next_epoch := 5\<rparr>"
  have "gossip_epoch (demo_gossip[9 := 8]) = gossip_epoch demo_gossip" "gossip_epoch demo_gossip = g_next_epoch ?g"
    "gossip_origin (demo_gossip[9 := 8]) \<noteq> gossip_origin demo_gossip"
    by (simp_all add: demo_gossip_fields) (simp_all add: gossip_epoch_def demo_gossip_def gossip_origin_def RawAddress_parse_def be16_to_def)
  then show ?thesis using gossip_origins_collide [of demo_gossip "demo_gossip[9 := 8]" ?g demo_torus
      "Satellite \<lparr>orb = 1, sat = 4\<rparr>" DuplicateFilter_new "\<lambda>_ _. Inr () :: unit + unit" "[]"]
    by (simp add: demo_gossip_fields)
qed

end
