(* ===== verification/Srspp_Packet.thy ===== *)
theory Srspp_Packet
  imports Isl_Packet
begin

text \<open>
  The packets of SRSPP on the wire (\<open>transport/srspp/packet.rs\<close>): data, acknowledgement and
  end of stream. Each is a routable telecommand whose payload starts with a 3-byte SRSPP
  header. A packet is its bytes: the space packet header (0 to 5), function code and checksum
  (6, 7), target (8, 9), source (10, 11), version and type (12), then the payload or the
  acknowledgement.
\<close>

section \<open>Header\<close>

definition SRSPP_VERSION :: u8 where "SRSPP_VERSION = 0"

datatype SrsppType = SrsppData | SrsppAck | SrsppEos

datatype SrsppPacketError =
    SrsppBufferTooSmall nat nat | InvalidPacketType u8 | SrsppPayloadTooLarge nat nat

definition srspp_type_bits :: "SrsppType \<Rightarrow> u8" where
  "srspp_type_bits t = (case t of SrsppData \<Rightarrow> 0 | SrsppAck \<Rightarrow> 1 | SrsppEos \<Rightarrow> 2)"

definition SrsppType_try_from :: "u8 \<Rightarrow> SrsppPacketError + SrsppType" where
  "SrsppType_try_from v =
     (if v = 0 then Inr SrsppData else if v = 1 then Inr SrsppAck else if v = 2 then Inr SrsppEos
      else Inl (InvalidPacketType v))"

definition SRSPP_VERSION_MASK :: u8 where "SRSPP_VERSION_MASK = 0xC0"

definition SRSPP_TYPE_MASK :: u8 where "SRSPP_TYPE_MASK = 0x30"

definition srspp_type :: "bytes \<Rightarrow> SrsppPacketError + SrsppType" where
  "srspp_type pkt = SrsppType_try_from (get_bits (pkt ! 12) SRSPP_TYPE_MASK)"

definition srspp_version :: "bytes \<Rightarrow> u8" where
  "srspp_version pkt = get_bits (pkt ! 12) SRSPP_VERSION_MASK"

definition source_address :: "bytes \<Rightarrow> Address" where
  "source_address pkt = RawAddress_parse \<lparr>ground_or_orb = pkt ! 10, station_or_sat = pkt ! 11\<rparr>"

definition set_source_address :: "bytes \<Rightarrow> Address \<Rightarrow> bytes" where
  "set_source_address pkt a = (let raw = RawAddress_from a in pkt[10 := ground_or_orb raw, 11 := station_or_sat raw])"

definition set_srspp_type :: "bytes \<Rightarrow> SrsppType \<Rightarrow> bytes" where
  "set_srspp_type pkt t =
     pkt[12 := set_bits (set_bits (pkt ! 12) SRSPP_VERSION_MASK SRSPP_VERSION) SRSPP_TYPE_MASK (srspp_type_bits t)]"

section \<open>Parsing\<close>

definition SRSPP_HEADER_SIZE :: nat where "SRSPP_HEADER_SIZE = 13"

definition ACK_PACKET_SIZE :: nat where "ACK_PACKET_SIZE = 17"

definition SrsppPacket_parse :: "bytes \<Rightarrow> SrsppPacketError + bytes" where
  "SrsppPacket_parse bs =
     (if length bs < SRSPP_HEADER_SIZE then Inl (SrsppBufferTooSmall SRSPP_HEADER_SIZE (length bs)) else Inr bs)"

definition SrsppDataPacket_parse :: "bytes \<Rightarrow> SrsppPacketError + bytes" where
  "SrsppDataPacket_parse bs =
     (if length bs < SRSPP_HEADER_SIZE then Inl (SrsppBufferTooSmall SRSPP_HEADER_SIZE (length bs)) else Inr bs)"

definition SrsppAckPacket_parse :: "bytes \<Rightarrow> SrsppPacketError + bytes" where
  "SrsppAckPacket_parse bs =
     (if length bs < ACK_PACKET_SIZE then Inl (SrsppBufferTooSmall ACK_PACKET_SIZE (length bs))
      else Inr (take ACK_PACKET_SIZE bs))"

definition SrsppEosPacket_parse :: "bytes \<Rightarrow> SrsppPacketError + bytes" where
  "SrsppEosPacket_parse bs =
     (if length bs < SRSPP_HEADER_SIZE then Inl (SrsppBufferTooSmall SRSPP_HEADER_SIZE (length bs))
      else Inr (take SRSPP_HEADER_SIZE bs))"

definition max_payload_size :: "nat \<Rightarrow> nat" where
  "max_payload_size mtu = mtu - SRSPP_HEADER_SIZE"

definition srspp_payload :: "bytes \<Rightarrow> bytes" where
  "srspp_payload pkt = drop SRSPP_HEADER_SIZE pkt"

definition ack_cumulative_field :: "bytes \<Rightarrow> u16" where
  "ack_cumulative_field pkt = SequenceCount_from (be16_to (pkt ! 13) (pkt ! 14))"

definition ack_bitmap_field :: "bytes \<Rightarrow> u16" where
  "ack_bitmap_field pkt = be16_to (pkt ! 15) (pkt ! 16)"

section \<open>Building\<close>

text \<open>
  The three builders write the same headers; the length of the data field is cut to 16 bits.
  Each returns the packet, the prefix of the caller's buffer the view covers.
\<close>

definition srspp_stamp :: "spp_header \<Rightarrow> u16 \<Rightarrow> u16 \<Rightarrow> SequenceFlag \<Rightarrow> nat \<Rightarrow> spp_header" where
  "srspp_stamp h ap count flag n =
     (let h = spp_set_version h 0; h = set_packet_type h Telecommand; h = set_secondary_header_flag h Present;
          h = set_apid h ap; h = set_sequence_count h count; h = set_sequence_flag h flag
      in set_data_field_len h (of_nat n))"

definition srspp_prelude ::
  "bytes \<Rightarrow> Address \<Rightarrow> Address \<Rightarrow> u16 \<Rightarrow> u8 \<Rightarrow> u16 \<Rightarrow> SequenceFlag \<Rightarrow> nat \<Rightarrow> SrsppType \<Rightarrow> bytes" where
  "srspp_prelude pkt src target ap code count flag n ty =
     (let pkt = blit pkt 0 (spp_header_bytes (srspp_stamp (spp_header_of pkt) ap count flag n));
          pkt = set_function_code pkt code;
          pkt = pkt[7 := 0];
          pkt = isl_set_target pkt target;
          pkt = set_source_address pkt src
      in set_srspp_type pkt ty)"

definition srspp_data_new ::
  "bytes \<Rightarrow> Address \<Rightarrow> Address \<Rightarrow> u16 \<Rightarrow> u8 \<Rightarrow> u16 \<Rightarrow> SequenceFlag \<Rightarrow> nat \<Rightarrow> SrsppPacketError + bytes" where
  "srspp_data_new buffer src target ap code count flag payload_len =
     (let required_len = SRSPP_HEADER_SIZE + payload_len in
      if length buffer < required_len then Inl (SrsppBufferTooSmall required_len (length buffer))
      else Inr (set_cfe_checksum
        (srspp_prelude (take required_len buffer) src target ap code count flag (2 + 2 + 3 + payload_len) SrsppData)))"

definition srspp_ack_new ::
  "bytes \<Rightarrow> Address \<Rightarrow> Address \<Rightarrow> u16 \<Rightarrow> u8 \<Rightarrow> u16 \<Rightarrow> u16 \<Rightarrow> u16 \<Rightarrow> SrsppPacketError + bytes" where
  "srspp_ack_new buffer src target ap code count cumulative bitmap =
     (if length buffer < ACK_PACKET_SIZE then Inl (SrsppBufferTooSmall ACK_PACKET_SIZE (length buffer))
      else
        let pkt = srspp_prelude (take ACK_PACKET_SIZE buffer) src target ap code count Unsegmented (2 + 2 + 3 + 4) SrsppAck
        in Inr (set_cfe_checksum (blit pkt 13 (be16_of cumulative @ be16_of bitmap))))"

definition srspp_eos_new ::
  "bytes \<Rightarrow> Address \<Rightarrow> Address \<Rightarrow> u16 \<Rightarrow> u8 \<Rightarrow> u16 \<Rightarrow> SrsppPacketError + bytes" where
  "srspp_eos_new buffer src target ap code count =
     (if length buffer < SRSPP_HEADER_SIZE then Inl (SrsppBufferTooSmall SRSPP_HEADER_SIZE (length buffer))
      else Inr (set_cfe_checksum
        (srspp_prelude (take SRSPP_HEADER_SIZE buffer) src target ap code count Unsegmented (2 + 2 + 3) SrsppEos)))"

text \<open>What a sender does with a data packet: \<open>payload.copy_from_slice\<close> and the checksum again.\<close>

definition srspp_write_payload :: "bytes \<Rightarrow> bytes \<Rightarrow> bytes" where
  "srspp_write_payload pkt payload = set_cfe_checksum (take SRSPP_HEADER_SIZE pkt @ payload)"

section \<open>The shape of a packet\<close>

interpretation srspp_version_f: bit_field SRSPP_VERSION_MASK 6 2
  by unfold_locales (simp_all add: SRSPP_VERSION_MASK_def mask_eq_exp_minus_1 push_bit_eq_mult)
interpretation srspp_type_f: bit_field SRSPP_TYPE_MASK 4 2
  by unfold_locales (simp_all add: SRSPP_TYPE_MASK_def mask_eq_exp_minus_1 push_bit_eq_mult)

definition type_byte :: "u8 \<Rightarrow> SrsppType \<Rightarrow> u8" where
  "type_byte b t = set_bits (set_bits b SRSPP_VERSION_MASK SRSPP_VERSION) SRSPP_TYPE_MASK (srspp_type_bits t)"

lemma type_byte_fields:
  "SrsppType_try_from (get_bits (type_byte b t) SRSPP_TYPE_MASK) = Inr t"
  "get_bits (type_byte b t) SRSPP_VERSION_MASK = SRSPP_VERSION"
proof -
  have fits: "take_bit 2 (srspp_type_bits t) = srspp_type_bits t"
    by (intro take_bit_word_fits) (cases t; simp add: srspp_type_bits_def)
  then show "SrsppType_try_from (get_bits (type_byte b t) SRSPP_TYPE_MASK) = Inr t"
    by (cases t) (simp_all add: type_byte_def srspp_type_f.get_set SrsppType_try_from_def srspp_type_bits_def)
  show "get_bits (type_byte b t) SRSPP_VERSION_MASK = SRSPP_VERSION"
    by (simp add: fits type_byte_def srspp_version_f.get_set SRSPP_VERSION_def
        srspp_version_f.get_below [OF srspp_type_f.bit_field_axioms] srspp_type_f.get_above [OF srspp_version_f.bit_field_axioms])
qed

lemma srspp_stamp_fields:
  assumes "unat ap \<le> 2047" "unat count \<le> 16383" "1 \<le> n" "n \<le> 65535"
  shows "spp_version (srspp_stamp h ap count flag n) = 0" "packet_type (srspp_stamp h ap count flag n) = Telecommand"
    "secondary_header_flag (srspp_stamp h ap count flag n) = Present" "apid (srspp_stamp h ap count flag n) = ap"
    "sequence_flag (srspp_stamp h ap count flag n) = flag" "sequence_count (srspp_stamp h ap count flag n) = count"
    "data_field_len (srspp_stamp h ap count flag n) = n"
proof -
  have ap: "take_bit 11 ap = ap" using assms(1) by (intro take_bit_word_fits) simp
  have ct: "take_bit 14 count = count" using assms(2) by (intro take_bit_word_fits) simp
  note rw = srspp_stamp_def spp_fields spp_same spp_below spp_above ap ct Let_def
  show "spp_version (srspp_stamp h ap count flag n) = 0" by (simp add: rw)
  show "packet_type (srspp_stamp h ap count flag n) = Telecommand" by (simp add: rw)
  show "secondary_header_flag (srspp_stamp h ap count flag n) = Present" by (simp add: rw)
  show "apid (srspp_stamp h ap count flag n) = ap" by (simp add: rw)
  show "sequence_flag (srspp_stamp h ap count flag n) = flag" by (cases flag) (simp_all add: rw)
  show "sequence_count (srspp_stamp h ap count flag n) = count" by (cases flag) (simp_all add: rw)
  have "unat (of_nat n - 1 :: u16) = n - 1" using assms(3,4) by (cases n) (simp_all add: unat_of_nat)
  then show "data_field_len (srspp_stamp h ap count flag n) = n" using assms(3) by (simp add: srspp_stamp_def spp_fields Let_def)
qed

text \<open>The seven bytes after the space packet header.\<close>

definition srspp_words :: "u8 \<Rightarrow> u8 \<Rightarrow> Address \<Rightarrow> Address \<Rightarrow> u8 \<Rightarrow> bytes" where
  "srspp_words code c target src ty =
     [code, c, ground_or_orb (RawAddress_from target), station_or_sat (RawAddress_from target),
      ground_or_orb (RawAddress_from src), station_or_sat (RawAddress_from src), ty]"

lemma length_srspp_words [simp]: "length (srspp_words code c target src ty) = 7"
  by (simp add: srspp_words_def)

lemma split_header:
  assumes "13 \<le> length pkt"
  obtains pre a b c d e f g where "pkt = pre @ [a, b, c, d, e, f, g] @ drop 13 pkt" "length pre = 6"
proof -
  have "pkt = take 6 pkt @ take 7 (drop 6 pkt) @ drop 7 (drop 6 pkt)" by (simp only: append_take_drop_id)
  then have parts: "pkt = take 6 pkt @ bslice pkt 6 7 @ drop 13 pkt" by (simp add: bslice_def)
  have "length (bslice pkt 6 7) = Suc (Suc (Suc (Suc (Suc (Suc (Suc 0))))))" using assms by simp
  then obtain a b c d e f g where "bslice pkt 6 7 = [a, b, c, d, e, f, g]" by (auto simp: length_Suc_conv)
  then show thesis using that [of "take 6 pkt" a b c d e f g] parts assms by simp
qed

lemma srspp_prelude_shape:
  assumes "13 \<le> length pkt"
  shows "\<exists>b. srspp_prelude pkt src target ap code count flag n ty =
    spp_header_bytes (srspp_stamp (spp_header_of pkt) ap count flag n) @ srspp_words code 0 target src (type_byte b ty) @ drop 13 pkt"
proof -
  obtain pre a b c d e f g where pkt: "pkt = pre @ [a, b, c, d, e, f, g] @ drop 13 pkt" "length pre = 6"
    using split_header [OF assms] by blast
  let ?h = "spp_header_bytes (srspp_stamp (spp_header_of pkt) ap count flag n)"
  have "blit pkt 0 ?h = ?h @ [a, b, c, d, e, f, g] @ drop 13 pkt"
    using pkt(2) by (subst pkt(1)) (simp add: blit_def)
  then have "srspp_prelude pkt src target ap code count flag n ty =
      set_srspp_type (set_source_address (isl_set_target ((set_function_code (?h @ [a, b, c, d, e, f, g] @ drop 13 pkt) code)[7 := 0]) target) src) ty"
    by (simp add: srspp_prelude_def Let_def)
  then show ?thesis
    by (intro exI [of _ g])
      (simp add: set_srspp_type_def set_source_address_def isl_set_target_def set_function_code_def update_after_header
        srspp_words_def type_byte_def nth_append Let_def)
qed

lemma checksum_words:
  assumes "length pre = 6"
  shows "\<exists>c'. set_cfe_checksum (pre @ srspp_words code c target src ty @ body) = pre @ srspp_words code c' target src ty @ body"
  using set_cfe_checksum_body [OF assms, of "srspp_words code c target src ty @ body"] by (auto simp: srspp_words_def)

text \<open>Every packet of this shape is a routable telecommand.\<close>

lemma isl_parse_header:
  assumes "spp_version h = 0" "packet_type h = Telecommand" "secondary_header_flag h = Present" "apid h \<noteq> APID_IDLE"
    "data_field_len h = length body" "4 \<le> length body"
  shows "isl_parse (spp_header_bytes h @ body @ rest) = Inr (spp_header_bytes h @ body)"
proof -
  have "spp_parse (spp_header_bytes h @ body @ rest) = Inr \<lparr>spp_hdr = h, spp_data = body\<rparr>"
    using assms by (simp add: spp_parse_def SPP_HEADER_SIZE_def spp_validate_def apid_is_idle_def packet_len_def)
  then show ?thesis
    using assms by (simp add: isl_parse_def telecommand_parse_def telecommand_payload_def TC_MINIMUM_def packet_len_def
        SPP_HEADER_SIZE_def)
qed

definition srspp_well_formed :: "bytes \<Rightarrow> Address \<Rightarrow> Address \<Rightarrow> u16 \<Rightarrow> u8 \<Rightarrow> u16 \<Rightarrow> SequenceFlag \<Rightarrow> SrsppType \<Rightarrow> bool" where
  "srspp_well_formed pkt src target ap code count flag ty \<longleftrightarrow>
     (\<forall>rest. isl_parse (pkt @ rest) = Inr pkt) \<and> isl_target pkt = target \<and> function_code pkt = code \<and>
     validate_cfe_checksum pkt \<and> srspp_type pkt = Inr ty \<and> srspp_version pkt = SRSPP_VERSION \<and> source_address pkt = src \<and>
     apid (spp_header_of pkt) = ap \<and> sequence_count (spp_header_of pkt) = count \<and> sequence_flag (spp_header_of pkt) = flag"

lemma well_formed_shape:
  assumes ok: "unat ap \<le> 2046" "unat count \<le> 16383" "orb (Point_from target) \<noteq> 255" "orb (Point_from src) \<noteq> 255"
    and n: "n = 7 + length body" "n \<le> 65535"
    and pkt: "pkt = set_cfe_checksum (spp_header_bytes (srspp_stamp h ap count flag n) @ srspp_words code c target src (type_byte b ty) @ body)"
  shows "srspp_well_formed pkt src target ap code count flag ty \<and> drop 13 pkt = body \<and> length pkt = 13 + length body"
proof -
  let ?h = "srspp_stamp h ap count flag n"
  obtain c' where p: "pkt = spp_header_bytes ?h @ srspp_words code c' target src (type_byte b ty) @ body"
    using pkt checksum_words [of "spp_header_bytes ?h" code c target src "type_byte b ty" body] by auto
  have idle: "ap \<noteq> APID_IDLE" using ok(1) by (auto simp: APID_IDLE_def APID_MAX_def)
  have "unat ap \<le> 2047" "1 \<le> n" using ok(1) n(1) by simp_all
  note f = srspp_stamp_fields [OF this(1) ok(2) this(2) n(2), of h flag]
  have "isl_parse (spp_header_bytes ?h @ (srspp_words code c' target src (type_byte b ty) @ body) @ rest) =
      Inr (spp_header_bytes ?h @ srspp_words code c' target src (type_byte b ty) @ body)" for rest
    by (rule isl_parse_header) (use f idle n(1) in simp_all)
  then have parse: "isl_parse (pkt @ rest) = Inr pkt" for rest by (simp add: p)
  have addr: "RawAddress_parse \<lparr>ground_or_orb = ground_or_orb (RawAddress_from a), station_or_sat = station_or_sat (RawAddress_from a)\<rparr> = a"
    if "orb (Point_from a) \<noteq> 255" for a
    using RawAddress_roundtrip [OF that] by (cases "RawAddress_from a") simp
  have nth: "pkt ! (6 + i) = srspp_words code c' target src (type_byte b ty) ! i" if "i < 7" for i
    using that by (simp add: p nth_append)
  have "validate_cfe_checksum pkt" unfolding pkt by (rule set_cfe_checksum_valid) simp
  moreover have "spp_header_of pkt = ?h" by (simp add: p)
  ultimately show ?thesis
    using parse f(4-6) addr ok(3,4) nth [of 0] nth [of 2] nth [of 3] nth [of 4] nth [of 5] nth [of 6] type_byte_fields [of b ty]
    by (simp add: srspp_well_formed_def isl_target_def function_code_def srspp_type_def srspp_version_def source_address_def
        srspp_words_def) (simp add: p)
qed

lemma data_new_shape:
  assumes "13 + n \<le> length buffer" "length payload = n"
  shows "\<exists>pkt h b c. srspp_data_new buffer src target ap code count flag n = Inr pkt \<and>
    srspp_write_payload pkt payload =
      set_cfe_checksum (spp_header_bytes (srspp_stamp h ap count flag (7 + n)) @ srspp_words code c target src (type_byte b SrsppData) @ payload)"
proof -
  let ?buf = "take (13 + n) buffer"
  obtain b where "srspp_prelude ?buf src target ap code count flag (7 + n) SrsppData =
      spp_header_bytes (srspp_stamp (spp_header_of ?buf) ap count flag (7 + n)) @ srspp_words code 0 target src (type_byte b SrsppData) @ drop 13 ?buf"
    using srspp_prelude_shape [of ?buf] assms by force
  moreover obtain c where "set_cfe_checksum (spp_header_bytes (srspp_stamp (spp_header_of ?buf) ap count flag (7 + n)) @
        srspp_words code 0 target src (type_byte b SrsppData) @ drop 13 ?buf) =
      spp_header_bytes (srspp_stamp (spp_header_of ?buf) ap count flag (7 + n)) @ srspp_words code c target src (type_byte b SrsppData) @ drop 13 ?buf"
    using checksum_words by force
  ultimately have "srspp_data_new buffer src target ap code count flag n = Inr
      (spp_header_bytes (srspp_stamp (spp_header_of ?buf) ap count flag (7 + n)) @ srspp_words code c target src (type_byte b SrsppData) @ drop 13 ?buf)"
    (is "_ = Inr ?pkt") using assms(1) by (simp add: srspp_data_new_def SRSPP_HEADER_SIZE_def Let_def)
  then show ?thesis
    by (intro exI [of _ ?pkt] exI [of _ "spp_header_of ?buf"] exI [of _ b] exI [of _ c])
      (simp add: srspp_write_payload_def SRSPP_HEADER_SIZE_def)
qed

text \<open>
  C32: SRSPP packets are routable and keep their fields. Whatever the buffer held, a data
  packet filled with a payload, an acknowledgement and an end-of-stream packet each carry a
  valid checksum and are parsed by a router, also with other bytes behind them, as exactly
  these bytes with their target; the receiver reads back type, version, source, function code,
  APID, sequence number and flag, and the payload or the acknowledgement.
\<close>

theorem srspp_build_parse:
  assumes "unat ap \<le> 2046" "unat count \<le> 16383" "orb (Point_from target) \<noteq> 255" "orb (Point_from src) \<noteq> 255"
    and "13 + n \<le> length buffer" "n \<le> 65528" "length payload = n" "17 \<le> length ack_buffer" "13 \<le> length eos_buffer"
    and "unat cumulative \<le> 16383"
  shows "(\<exists>pkt. srspp_data_new buffer src target ap code count flag n = Inr pkt \<and>
      (let pkt' = srspp_write_payload pkt payload in
         srspp_well_formed pkt' src target ap code count flag SrsppData \<and> SrsppDataPacket_parse pkt' = Inr pkt' \<and>
         srspp_payload pkt' = payload)) \<and>
    (\<exists>pkt. srspp_ack_new ack_buffer src target ap code count cumulative bitmap = Inr pkt \<and>
      srspp_well_formed pkt src target ap code count Unsegmented SrsppAck \<and> SrsppAckPacket_parse (pkt @ rest) = Inr pkt \<and>
      ack_cumulative_field pkt = cumulative \<and> ack_bitmap_field pkt = bitmap) \<and>
    (\<exists>pkt. srspp_eos_new eos_buffer src target ap code count = Inr pkt \<and>
      srspp_well_formed pkt src target ap code count Unsegmented SrsppEos \<and> SrsppEosPacket_parse (pkt @ rest) = Inr pkt)"
proof (intro conjI)
  note wf = well_formed_shape [OF assms(1-4)]
  obtain pkt h b c where d: "srspp_data_new buffer src target ap code count flag n = Inr pkt"
    "srspp_write_payload pkt payload =
      set_cfe_checksum (spp_header_bytes (srspp_stamp h ap count flag (7 + n)) @ srspp_words code c target src (type_byte b SrsppData) @ payload)"
    using data_new_shape [OF assms(5,7)] by blast
  from wf [OF _ _ d(2)] assms(6,7) d(1)
  show "\<exists>pkt. srspp_data_new buffer src target ap code count flag n = Inr pkt \<and>
      (let pkt' = srspp_write_payload pkt payload in
         srspp_well_formed pkt' src target ap code count flag SrsppData \<and> SrsppDataPacket_parse pkt' = Inr pkt' \<and>
         srspp_payload pkt' = payload)"
    by (simp add: Let_def SrsppDataPacket_parse_def SRSPP_HEADER_SIZE_def srspp_payload_def)
next
  note wf = well_formed_shape [OF assms(1-4)]
  let ?buf = "take 17 ack_buffer" and ?ack = "be16_of cumulative @ be16_of bitmap"
  obtain b where "srspp_prelude ?buf src target ap code count Unsegmented 11 SrsppAck =
      spp_header_bytes (srspp_stamp (spp_header_of ?buf) ap count Unsegmented 11) @ srspp_words code 0 target src (type_byte b SrsppAck) @ drop 13 ?buf"
    using srspp_prelude_shape [of ?buf] assms(8) by force
  moreover have "blit (pre @ srspp_words code 0 target src ty @ drop 13 ?buf) 13 ?ack = pre @ srspp_words code 0 target src ty @ ?ack"
    if "length pre = 6" for pre ty using that assms(8) by (simp add: blit_def)
  ultimately have a: "srspp_ack_new ack_buffer src target ap code count cumulative bitmap = Inr (set_cfe_checksum
      (spp_header_bytes (srspp_stamp (spp_header_of ?buf) ap count Unsegmented 11) @ srspp_words code 0 target src (type_byte b SrsppAck) @ ?ack))"
    (is "_ = Inr ?pkt") using assms(8) by (simp add: srspp_ack_new_def ACK_PACKET_SIZE_def Let_def)
  from wf [of 11 ?ack ?pkt] have w: "srspp_well_formed ?pkt src target ap code count Unsegmented SrsppAck" "drop 13 ?pkt = ?ack" "length ?pkt = 17"
    by simp_all
  have nth: "?pkt ! (13 + i) = ?ack ! i" for i using w(2,3) nth_drop [of 13 ?pkt i] by simp
  have "SequenceCount_from cumulative = cumulative"
    using assms(10) take_bit_word_fits [of cumulative 14]
    by (simp add: SequenceCount_from_def SEQUENCE_COUNT_MAX_def take_bit_eq_mask mask_eq_exp_minus_1)
  then show "\<exists>pkt. srspp_ack_new ack_buffer src target ap code count cumulative bitmap = Inr pkt \<and>
      srspp_well_formed pkt src target ap code count Unsegmented SrsppAck \<and> SrsppAckPacket_parse (pkt @ rest) = Inr pkt \<and>
      ack_cumulative_field pkt = cumulative \<and> ack_bitmap_field pkt = bitmap"
    using a w(1,3) nth [of 0] nth [of 1] nth [of 2] nth [of 3]
    by (intro exI [of _ ?pkt])
      (simp add: SrsppAckPacket_parse_def ACK_PACKET_SIZE_def ack_cumulative_field_def ack_bitmap_field_def be16_of_def)
next
  note wf = well_formed_shape [OF assms(1-4)]
  let ?buf = "take 13 eos_buffer"
  obtain b where "srspp_prelude ?buf src target ap code count Unsegmented 7 SrsppEos =
      spp_header_bytes (srspp_stamp (spp_header_of ?buf) ap count Unsegmented 7) @ srspp_words code 0 target src (type_byte b SrsppEos) @ []"
    using srspp_prelude_shape [of ?buf] assms(9) by force
  then have e: "srspp_eos_new eos_buffer src target ap code count = Inr (set_cfe_checksum
      (spp_header_bytes (srspp_stamp (spp_header_of ?buf) ap count Unsegmented 7) @ srspp_words code 0 target src (type_byte b SrsppEos) @ []))"
    (is "_ = Inr ?pkt") using assms(9) by (simp add: srspp_eos_new_def SRSPP_HEADER_SIZE_def)
  from wf [of 7 "[]" ?pkt] e
  show "\<exists>pkt. srspp_eos_new eos_buffer src target ap code count = Inr pkt \<and>
      srspp_well_formed pkt src target ap code count Unsegmented SrsppEos \<and> SrsppEosPacket_parse (pkt @ rest) = Inr pkt"
    by (intro exI [of _ ?pkt]) (simp add: SrsppEosPacket_parse_def SRSPP_HEADER_SIZE_def)
qed

theorem srspp_build_parse_witness:
  "\<exists>pkt. srspp_ack_new (replicate 20 9) (Satellite \<lparr>orb = 1, sat = 5\<rparr>) (Ground 3) 66 16 7 15 12 = Inr pkt \<and>
    isl_parse pkt = Inr pkt \<and> isl_target pkt = Ground 3 \<and> ack_bitmap_field pkt = 12"
  using srspp_build_parse [of 66 7 "Ground 3" "Satellite \<lparr>orb = 1, sat = 5\<rparr>" 2 "replicate 20 9" "[1, 2]" "replicate 20 9" "replicate 20 9" 15
      16 First 12 "[]"]
  by (auto simp: Point_from_def srspp_well_formed_def dest: spec [of _ "[]"])

end
