(* ===== verification/Rto.thy ===== *)
theory Rto
  imports Leo_Prelude "HOL-Library.Multiset"
begin

text \<open>
  Retransmission timeouts of SRSPP (\<open>transport/srspp/rto.rs\<close>): a fixed one, and one that waits
  for the next contact with a ground station. Times and ticks are 32-bit words, which wrap.
\<close>

section \<open>Definitions\<close>

definition FixedRto_new :: "u32 \<Rightarrow> u32" where
  "FixedRto_new ticks = ticks"

definition fixed_rto_ticks :: "u32 \<Rightarrow> u32 \<Rightarrow> u32" where
  "fixed_rto_ticks rto now_secs = rto"

record ContactWindow =
  station_id :: u8
  start_secs :: u32
  end_secs :: u32

definition ContactSchedule_new :: "ContactWindow list" where
  "ContactSchedule_new = []"

definition add_window :: "nat \<Rightarrow> ContactWindow \<Rightarrow> ContactWindow list \<Rightarrow> (ContactWindow + unit) \<times> ContactWindow list" where
  "add_window N w windows =
     (let pos = (case position (\<lambda>v. start_secs v > start_secs w) windows of Some i \<Rightarrow> i | None \<Rightarrow> length windows)
      in if length windows < N then (Inr (), take pos windows @ w # drop pos windows) else (Inl w, windows))"

definition in_contact :: "u32 \<Rightarrow> ContactWindow list \<Rightarrow> bool" where
  "in_contact now_secs windows \<longleftrightarrow> list_ex (\<lambda>w. now_secs \<ge> start_secs w \<and> now_secs < end_secs w) windows"

definition next_window :: "u32 \<Rightarrow> ContactWindow list \<Rightarrow> ContactWindow option" where
  "next_window now_secs windows = find (\<lambda>w. start_secs w > now_secs) windows"

record OrbitAwareRto =
  isl_rto_ticks :: u32
  margin_ticks :: u32
  rto_schedule :: "ContactWindow list"

definition OrbitAwareRto_new :: "u32 \<Rightarrow> u32 \<Rightarrow> ContactWindow list \<Rightarrow> OrbitAwareRto" where
  "OrbitAwareRto_new link_rto margin schedule = \<lparr>isl_rto_ticks = link_rto, margin_ticks = margin, rto_schedule = schedule\<rparr>"

definition orbit_rto_ticks :: "OrbitAwareRto \<Rightarrow> u32 \<Rightarrow> u32" where
  "orbit_rto_ticks p now_secs =
     (if in_contact now_secs (rto_schedule p) then isl_rto_ticks p
      else case next_window now_secs (rto_schedule p) of
          Some w \<Rightarrow> (let secs_until = start_secs w - now_secs in secs_until * 1000 + margin_ticks p)
        | None \<Rightarrow> isl_rto_ticks p)"

section \<open>The schedule\<close>

fun add_windows :: "nat \<Rightarrow> ContactWindow list \<Rightarrow> ContactWindow list \<Rightarrow> ContactWindow list" where
  "add_windows N [] windows = windows"
| "add_windows N (w # ws) windows = add_windows N ws (snd (add_window N w windows))"

definition chronological :: "ContactWindow list \<Rightarrow> bool" where
  "chronological ws \<longleftrightarrow> sorted (map start_secs ws)"

lemma insertion_point:
  "\<exists>k \<le> length xs. (case position P xs of Some i \<Rightarrow> i | None \<Rightarrow> length xs) = k \<and>
     (\<forall>i<k. \<not> P (xs ! i)) \<and> (k < length xs \<longrightarrow> P (xs ! k))"
proof (cases "position P xs")
  case None
  then have "\<forall>x\<in>set xs. \<not> P x" by simp
  then show ?thesis by (intro exI [of _ "length xs"]) (auto simp only: None option.case nth_mem)
next
  case (Some i)
  then have "i < length xs" "P (xs ! i)" "\<forall>j<i. \<not> P (xs ! j)" by (simp_all add: position_Some_iff)
  then show ?thesis by (intro exI [of _ i]) (auto simp only: Some option.case intro: less_imp_le)
qed

lemma add_window_sorted:
  assumes "chronological windows"
  shows "chronological (snd (add_window N w windows))"
proof (cases "length windows < N")
  case True
  obtain k where k: "k \<le> length windows"
    "(case position (\<lambda>v. start_secs v > start_secs w) windows of Some i \<Rightarrow> i | None \<Rightarrow> length windows) = k"
    "\<forall>i<k. \<not> start_secs w < start_secs (windows ! i)" "k < length windows \<longrightarrow> start_secs w < start_secs (windows ! k)"
    using insertion_point [of windows "\<lambda>v. start_secs v > start_secs w"] by blast
  have before: "start_secs v \<le> start_secs w" if "v \<in> set (take k windows)" for v
    using that k(1,3) by (auto simp: in_set_conv_nth not_less)
  have after: "start_secs w \<le> start_secs v" if v: "v \<in> set (drop k windows)" for v
  proof -
    obtain j where j: "v = windows ! (k + j)" "k + j < length windows" using v by (auto simp: in_set_conv_nth)
    then have "start_secs (windows ! k) \<le> start_secs v"
      using assms sorted_nth_mono [of "map start_secs windows" k "k + j"] by (simp add: chronological_def)
    then show ?thesis using k(4) j(2) by simp
  qed
  have "sorted (map start_secs (take k windows) @ map start_secs (drop k windows))"
    using assms by (simp add: chronological_def flip: map_append)
  then have "sorted (map start_secs (take k windows) @ start_secs w # map start_secs (drop k windows))"
    unfolding sorted_append using before after by auto
  then show ?thesis using True k(2) by (simp add: add_window_def chronological_def Let_def)
qed (use assms in \<open>simp add: add_window_def Let_def\<close>)

lemma add_window_mset: "length windows < N \<Longrightarrow> mset (snd (add_window N w windows)) = add_mset w (mset windows)"
proof -
  have "mset (take k windows @ w # drop k windows) = add_mset w (mset (take k windows @ drop k windows))" for k
    by (simp only: mset_append mset.simps) simp
  then show "length windows < N \<Longrightarrow> ?thesis" by (simp add: add_window_def Let_def)
qed

lemma add_windows_sorted: "chronological windows \<Longrightarrow> chronological (add_windows N ws windows)"
  by (induction N ws windows rule: add_windows.induct) (simp_all add: add_window_sorted)

lemma add_windows_mset:
  "length windows + length ws \<le> N \<Longrightarrow> mset (add_windows N ws windows) = mset ws + mset windows"
proof (induction ws arbitrary: windows)
  case (Cons w ws)
  then have "mset (snd (add_window N w windows)) = add_mset w (mset windows)" by (intro add_window_mset) simp
  then have "length (snd (add_window N w windows)) = Suc (length windows)" by (metis size_add_mset size_mset)
  then show ?case using Cons \<open>mset (snd (add_window N w windows)) = _\<close> by simp
qed simp

lemma next_window_first:
  assumes "chronological ws" "next_window now ws = Some w"
  shows "w \<in> set ws \<and> now < start_secs w \<and> (\<forall>v\<in>set ws. now < start_secs v \<longrightarrow> start_secs w \<le> start_secs v)"
  using assms
proof (induction ws)
  case (Cons a ws)
  then show ?case by (auto simp: next_window_def chronological_def split: if_splits)
qed (simp add: next_window_def)

lemma next_window_none: "next_window now ws = None \<longleftrightarrow> (\<forall>v\<in>set ws. \<not> now < start_secs v)"
  by (auto simp: next_window_def find_None_iff)

text \<open>
  C33: The orbit-aware timeout expires after the next contact begins. For windows added in any
  order to a schedule that holds them: inside a contact the timeout is the link's; outside,
  when windows start later, it is the time to the earliest of them, in milliseconds, plus the
  margin, as long as this fits 32 bits; with none left it is the link's again.
\<close>

theorem orbit_rto_waits_for_contact:
  assumes "length ws \<le> N"
  shows "let p = OrbitAwareRto_new link_rto margin (add_windows N ws ContactSchedule_new) in
    if \<exists>w\<in>set ws. start_secs w \<le> now \<and> now < end_secs w then orbit_rto_ticks p now = link_rto
    else if \<forall>w\<in>set ws. start_secs w \<le> now then orbit_rto_ticks p now = link_rto
    else \<exists>w\<in>set ws. now < start_secs w \<and> (\<forall>v\<in>set ws. now < start_secs v \<longrightarrow> start_secs w \<le> start_secs v) \<and>
      (unat (start_secs w - now) * 1000 + unat margin < 2 ^ 32 \<longrightarrow>
         unat (orbit_rto_ticks p now) = (unat (start_secs w) - unat now) * 1000 + unat margin)"
proof -
  define p where "p = OrbitAwareRto_new link_rto margin (add_windows N ws ContactSchedule_new)"
  let ?s = "add_windows N ws ContactSchedule_new"
  have s: "set ?s = set ws" "chronological ?s"
    using add_windows_mset [of "[]" ws N] assms(1) add_windows_sorted [of "[]" N ws]
    by (auto simp: ContactSchedule_new_def chronological_def dest: mset_eq_setD)
  have c: "in_contact now ?s \<longleftrightarrow> (\<exists>w\<in>set ws. start_secs w \<le> now \<and> now < end_secs w)"
    using s(1) by (auto simp: in_contact_def list_ex_iff)
  show ?thesis
  proof (cases "next_window now ?s")
    case None
    then have "\<forall>w\<in>set ws. start_secs w \<le> now" using s(1) by (simp add: next_window_none not_less)
    then show ?thesis using None c unfolding p_def [symmetric] Let_def by (auto simp: p_def orbit_rto_ticks_def OrbitAwareRto_new_def)
  next
    case (Some w)
    then have w: "w \<in> set ws" "now < start_secs w" "\<forall>v\<in>set ws. now < start_secs v \<longrightarrow> start_secs w \<le> start_secs v"
      using next_window_first [OF s(2) Some] s(1) by simp_all
    have "unat (orbit_rto_ticks p now) = (unat (start_secs w) - unat now) * 1000 + unat margin"
      if "unat (start_secs w - now) * 1000 + unat margin < 2 ^ 32" "\<not> in_contact now ?s"
    proof -
      have d: "unat (start_secs w - now) = unat (start_secs w) - unat now" using w(2) by (simp add: unat_sub less_imp_le)
      have "orbit_rto_ticks p now = (start_secs w - now) * 1000 + margin"
        using Some that(2) by (simp add: p_def orbit_rto_ticks_def OrbitAwareRto_new_def)
      also have "\<dots> = of_nat (unat (start_secs w - now) * 1000 + unat margin)" by simp
      finally show ?thesis using that(1) unfolding d by (simp only: unat_of_nat len_num1 len_bit0) simp
    qed
    moreover have "orbit_rto_ticks p now = link_rto" if "in_contact now ?s"
      using that by (simp add: p_def orbit_rto_ticks_def OrbitAwareRto_new_def)
    ultimately show ?thesis using w c unfolding p_def [symmetric] Let_def by (smt (verit) not_le)
  qed
qed

theorem orbit_rto_waits_for_contact_witness:
  "unat (orbit_rto_ticks (OrbitAwareRto_new 50 500 (add_windows 4
      [\<lparr>station_id = 2, start_secs = 500, end_secs = 600\<rparr>, \<lparr>station_id = 1, start_secs = 100, end_secs = 200\<rparr>]
      ContactSchedule_new)) 250) = 250500"
proof -
  let ?ws = "[\<lparr>station_id = 2, start_secs = 500, end_secs = 600\<rparr>,
      \<lparr>station_id = 1, start_secs = 100, end_secs = 200\<rparr>]"
  show ?thesis
    using orbit_rto_waits_for_contact [of ?ws 4 50 500 250]
    by (simp add: Let_def del: add_windows.simps)
qed

end
