(* ===== verification/Galois.thy ===== *)
theory Galois
  imports Leo_Prelude Complex_Main
begin

text \<open>
  Arithmetic in GF(256) (\<open>coding/fec/reed_solomon.rs\<close>, module \<open>gf\<close>): multiplication through
  tables of powers and logarithms. The type \<open>gf\<close> of field elements carries the operations of
  the code; that it is a field (an instance of HOL's class) is what the tables must be right
  for. The decoder's proofs calculate in this field.
\<close>

section \<open>Definitions\<close>

definition POLY :: u16 where "POLY = 0x187"

text \<open>The loop that fills the table: \<open>val\<close> is written, then multiplied by \<open>\<alpha>\<close> and reduced.\<close>

definition times_alpha :: "u16 \<Rightarrow> u16" where
  "times_alpha val = (let val = push_bit 1 val in if val AND 0x100 \<noteq> 0 then val XOR POLY else val)"

fun exp_loop :: "nat \<Rightarrow> u16 \<Rightarrow> bytes" where
  "exp_loop 0 val = []"
| "exp_loop (Suc n) val = ucast val # exp_loop n (times_alpha val)"

definition EXP :: bytes where
  "EXP = (let t = exp_loop 255 1 in (t @ t @ [0, 0])[255 := t ! 0])"

definition LOG :: bytes where
  "LOG = fold (\<lambda>i t. t[unat (EXP ! i) := of_nat i]) [0..<255] (replicate 256 0)"

definition gf_exp :: "nat \<Rightarrow> u8" where
  "gf_exp n = EXP ! (n mod 255)"

definition gf_log :: "u8 \<Rightarrow> u8" where
  "gf_log x = LOG ! unat x"

definition gf_mul :: "u8 \<Rightarrow> u8 \<Rightarrow> u8" where
  "gf_mul a b = (if a = 0 \<or> b = 0 then 0 else gf_exp (unat (gf_log a) + unat (gf_log b)))"

definition gf_add :: "u8 \<Rightarrow> u8 \<Rightarrow> u8" where
  "gf_add a b = a XOR b"

definition gf_inv :: "u8 \<Rightarrow> u8" where
  "gf_inv a = (if a = 0 then 0 else EXP ! (255 - unat (LOG ! unat a)))"

definition gf_div :: "u8 \<Rightarrow> u8 \<Rightarrow> u8" where
  "gf_div a b = (if a = 0 then 0 else gf_mul a (gf_inv b))"

fun poly_eval :: "bytes \<Rightarrow> u8 \<Rightarrow> u8" where
  "poly_eval [] x = 0"
| "poly_eval (p # ps) x = foldl (\<lambda>result coef. gf_add (gf_mul result x) coef) p ps"

definition poly_eval_asc :: "bytes \<Rightarrow> u8 \<Rightarrow> u8" where
  "poly_eval_asc poly x =
     (if poly = [] then 0
      else fold (\<lambda>i result. gf_add (gf_mul result x) (poly ! i)) (rev [0..<length poly - 1]) (poly ! (length poly - 1)))"

section \<open>Powers of alpha\<close>

text \<open>Multiplication by \<open>\<alpha>\<close> on bytes.\<close>

definition xtime :: "u8 \<Rightarrow> u8" where
  "xtime b = push_bit 1 b XOR (if bit b 7 then 0x87 else 0)"

lemma xtime_xor: "xtime (a XOR b) = xtime a XOR xtime b"
  by (rule bit_word_eqI) (auto simp: xtime_def bit_simps)

lemma xtime_0 [simp]: "xtime 0 = 0"
  by (simp add: xtime_def)

lemma xtime_pow_0 [simp]: "(xtime ^^ n) 0 = 0"
  by (induction n) simp_all

lemma xtime_pow_xor: "(xtime ^^ n) (a XOR b) = (xtime ^^ n) a XOR (xtime ^^ n) b"
  by (induction n) (simp_all add: xtime_xor)

lemma bit_shl1: "bit (push_bit 1 (b :: 'a::len word)) n \<longleftrightarrow> n \<noteq> 0 \<and> bit b (n - 1) \<and> n < LENGTH('a)"
  by (auto simp only: bit_push_bit_iff) (auto simp: not_le possible_bit_def)

lemma xtime_zero_iff: "xtime b = 0 \<longleftrightarrow> b = 0"
proof
  assume x: "xtime b = 0"
  have b7: "\<not> bit b 7"
  proof
    assume "bit b 7"
    then have "bit (xtime b) 0" by (simp add: xtime_def bit_xor_iff bit_shl1 del: push_bit_of_1) (simp add: bit_0)
    then show False using x by simp
  qed
  then have s: "push_bit 1 b = 0" using x by (simp only: xtime_def if_False xor.right_neutral)
  show "b = 0"
  proof (rule bit_word_eqI)
    fix n assume n: "n < LENGTH(8)"
    show "bit b n \<longleftrightarrow> bit (0 :: u8) n"
    proof (cases "n = 7")
      case False
      then have "bit (push_bit 1 b) (Suc n) \<longleftrightarrow> bit b n" using n by (simp only: bit_shl1) auto
      then show ?thesis by (simp only: s bit_0_eq bot_fun_def bot_bool_def)
    qed (use b7 in simp)
  qed
qed simp

lemma word_xor_eq_0_iff: "a XOR b = 0 \<longleftrightarrow> a = (b :: 'a::len word)"
  by (metis xor.assoc xor.left_neutral xor_self_eq)

lemma xtime_inj: "xtime a = xtime b \<longleftrightarrow> a = b"
  by (metis word_xor_eq_0_iff xtime_xor xtime_zero_iff)

lemma xtime_pow_inj: "(xtime ^^ n) a = (xtime ^^ n) b \<longleftrightarrow> a = b"
  by (induction n) (simp_all add: xtime_inj)

lemma times_alpha_ucast: "times_alpha (ucast b) = ucast (xtime b)"
proof -
  have "bit (push_bit 1 (ucast b :: u16)) 8 = bit b 7" by (simp only: bit_shl1) (simp add: bit_simps)
  moreover have "push_bit 1 (ucast b :: u16) AND 0x100 \<noteq> 0 \<longleftrightarrow> bit (push_bit 1 (ucast b :: u16)) 8"
  proof -
    have "(0x100 :: u16) = 2 ^ 8" by simp
    then show ?thesis using and_exp_eq_0_iff_not_bit [of "push_bit 1 (ucast b :: u16)" 8] by (simp only: not_not)
  qed
  moreover have "push_bit 1 (ucast b :: u16) XOR (if bit b 7 then POLY else 0) = ucast (xtime b)"
  proof (rule bit_word_eqI)
    fix n assume n: "n < LENGTH(16)"
    have p: "bit POLY n \<longleftrightarrow> n \<in> {0, 1, 2, 7, 8}"
    proof -
      have "n \<in> {0, 1, 2, 3, 4, 5, 6, 7, 8, 9, 10, 11, 12, 13, 14, 15}" using n by (auto simp: less_Suc_eq numeral_eq_Suc)
      then show ?thesis by (auto simp: POLY_def)
    qed
    have q: "bit (0x87 :: u8) n \<longleftrightarrow> n \<in> {0, 1, 2, 7}"
    proof (cases "n < 8")
      case True
      then have "n \<in> {0, 1, 2, 3, 4, 5, 6, 7}" by auto
      then show ?thesis by auto
    next
      case False
      then have "\<not> bit (0x87 :: u8) n" using bit_imp_le_length [of "0x87 :: u8" n] by auto
      then show ?thesis using False by auto
    qed
    show "bit (push_bit 1 (ucast b) XOR (if bit b 7 then POLY else 0)) n \<longleftrightarrow> bit (ucast (xtime b) :: u16) n"
    proof -
      have h: "bit (ucast b :: u16) m \<longleftrightarrow> m < 8 \<and> bit b m" for m
        by (auto simp: bit_unsigned_iff possible_bit_def dest: bit_imp_le_length)
      have l: "bit (ucast (xtime b) :: u16) n \<longleftrightarrow> n < 8 \<and> bit (xtime b) n"
        by (auto simp: bit_unsigned_iff possible_bit_def dest: bit_imp_le_length)
      have f1: "bit (if bit b 7 then POLY else 0) n \<longleftrightarrow> bit b 7 \<and> n \<in> {0, 1, 2, 7, 8}" using p by simp
      have f2: "bit (xtime b) n \<longleftrightarrow> (n \<noteq> 0 \<and> bit b (n - 1) \<and> n < 8) \<noteq> (bit b 7 \<and> n \<in> {0, 1, 2, 7})"
        unfolding xtime_def bit_xor_iff bit_shl1 using q by simp
      consider "n = 0" | "n = 8" | "n \<noteq> 0" "n < 8" | "8 < n" by linarith
      then show ?thesis unfolding l bit_xor_iff bit_shl1 h f1 f2 by cases (use n in auto)
    qed
  qed
  ultimately show ?thesis by (auto simp: times_alpha_def Let_def)
qed

definition alpha :: "nat \<Rightarrow> u8" where
  "alpha n = (xtime ^^ n) 1"

lemma ucast_up_down: "ucast (ucast b :: u16) = (b :: u8)"
  by (rule bit_word_eqI) (auto simp: bit_simps)

lemma exp_loop_nth: "i < n \<Longrightarrow> exp_loop n (ucast b) ! i = (xtime ^^ i) b"
proof (induction n arbitrary: i b)
  case (Suc n)
  then show ?case
    by (cases i) (simp_all add: times_alpha_ucast funpow_swap1 ucast_up_down)
qed simp

lemma length_exp_loop [simp]: "length (exp_loop n val) = n"
  by (induction n arbitrary: val) simp_all

lemma alpha_0 [simp]: "alpha 0 = 1"
  by (simp add: alpha_def)

lemma alpha_nonzero: "alpha n \<noteq> 0"
  using xtime_pow_inj [of n 1 0] by (simp add: alpha_def)

lemma alpha_add: "alpha (i + j) = (xtime ^^ i) (alpha j)"
  by (simp add: alpha_def funpow_add)


lemma xtime_numeral:
  "xtime (numeral k) = (if bit (numeral k :: u8) 7 then push_bit 1 (numeral k AND 0x7F) XOR 0x87 else push_bit 1 (numeral k))"
proof -
  have q: "bit (0x7F :: u8) n \<longleftrightarrow> n < 7" for n
    using bit_mask_iff [of 7 n, where 'a = u8] by (simp add: mask_eq_exp_minus_1 possible_bit_def) linarith
  have "push_bit 1 (b AND 0x7F) = push_bit 1 b" for b :: u8
  proof (rule bit_word_eqI)
    fix n assume "n < LENGTH(8)"
    then have n: "n \<noteq> 0 \<Longrightarrow> n - 1 < 7" by simp
    show "bit (push_bit 1 (b AND 0x7F)) n \<longleftrightarrow> bit (push_bit 1 b) n"
      unfolding bit_shl1 bit_and_iff q using n by blast
  qed
  then show ?thesis
    by (cases "bit (numeral k :: u8) 7") (simp_all only: xtime_def if_True if_False xor.right_neutral)
qed

lemma alpha_numeral: "alpha (numeral k) = xtime (alpha (pred_numeral k))"
  by (simp add: alpha_def numeral_eq_Suc)

lemma alpha_1: "alpha (Suc 0) = 2"
  by (simp add: alpha_def xtime_def)

lemma alpha_values:
  "alpha 3 = 8" "alpha 5 = 32" "alpha 15 = 244" "alpha 17 = 222" "alpha 51 = 108" "alpha 85 = 170" "alpha 255 = 1"
  by (simp_all add: alpha_numeral alpha_1 xtime_numeral)

text \<open>The order of \<open>\<alpha>\<close> is 255: it divides 255 and no proper divisor is a period.\<close>

lemma alpha_mult: "alpha d = 1 \<Longrightarrow> alpha (q * d + r) = alpha r"
proof (induction q)
  case (Suc q)
  have "alpha ((q * d + r) + d) = (xtime ^^ (q * d + r)) 1" by (simp only: alpha_add Suc.prems)
  then show ?case using Suc by (simp add: alpha_def ac_simps)
qed simp

lemma alpha_period: "0 < d \<Longrightarrow> d < 255 \<Longrightarrow> alpha d \<noteq> 1"
proof
  assume d: "0 < d" "d < 255" "alpha d = 1"
  define m where "m = (LEAST m. 0 < m \<and> alpha m = 1)"
  have m: "0 < m" "alpha m = 1" using d LeastI [of "\<lambda>m. 0 < m \<and> alpha m = 1" d] by (simp_all add: m_def)
  have "m \<le> d" using d by (simp add: m_def Least_le)
  have "alpha (255 mod m) = 1"
    using alpha_mult [OF m(2), of "255 div m" "255 mod m"] by (simp add: alpha_values(7))
  then have "255 mod m = 0"
    using not_less_Least [of "255 mod m" "\<lambda>m. 0 < m \<and> alpha m = 1"] m(1) by (auto simp: m_def)
  then have "m dvd 255" by (simp add: dvd_eq_mod_eq_0)
  then have "m \<in> {1, 3, 5, 15, 17, 51, 85, 255}"
  proof -
    have "m \<in> set [0..<256]" using \<open>m \<le> d\<close> d(2) by simp
    moreover have all: "\<forall>m \<in> set [0..<256 :: nat]. 255 mod m = 0 \<longrightarrow> m \<in> {1, 3, 5, 15, 17, 51, 85, 255}" by code_simp
    ultimately show ?thesis using \<open>255 mod m = 0\<close> by (auto simp only: dest: bspec)
  qed
  then show False using alpha_values m(2) alpha_1 \<open>m \<le> d\<close> d(2) by auto
qed

lemma alpha_inj: "i < 255 \<Longrightarrow> j < 255 \<Longrightarrow> alpha i = alpha j \<longleftrightarrow> i = j"
proof (induction i j rule: linorder_wlog)
  case (le i j)
  have "i = j" if "alpha i = alpha j"
  proof (rule ccontr)
    assume "i \<noteq> j"
    then have "0 < j - i" "j - i < 255" using le by simp_all
    moreover have "(xtime ^^ i) (alpha (j - i)) = (xtime ^^ i) 1"
      using that le(1) alpha_add [of i "j - i"] by (simp add: alpha_def)
    ultimately show False using alpha_period by (simp add: xtime_pow_inj)
  qed
  then show ?case by blast
qed auto

lemma alpha_mod: "alpha (n mod 255) = alpha n"
  using alpha_mult [OF alpha_values(7), of "n div 255" "n mod 255"] by (simp add: mult.commute)

lemma alpha_surj: "b \<noteq> 0 \<Longrightarrow> \<exists>i<255. alpha i = b"
proof -
  assume b: "b \<noteq> 0"
  have "inj_on alpha {..<255}" by (rule inj_onI) (simp add: alpha_inj)
  then have "card (alpha ` {..<255}) = 255" by (simp only: card_image card_lessThan)
  moreover have "card (UNIV - {0 :: u8}) = 255" by (simp add: card_Diff_singleton card_word)
  ultimately have "card (alpha ` {..<255}) = card (UNIV - {0 :: u8})" by (simp only:)
  moreover have "alpha ` {..<255} \<subseteq> UNIV - {0}"
    by (rule image_subsetI) (simp only: Diff_iff UNIV_I singleton_iff alpha_nonzero simp_thms)
  ultimately have "alpha ` {..<255} = UNIV - {0}" by (intro card_subset_eq [OF finite])
  moreover have "b \<in> UNIV - {0}" using b by (simp only: Diff_iff UNIV_I singleton_iff simp_thms)
  ultimately have "b \<in> alpha ` {..<255}" by (simp only:)
  then show ?thesis by (auto simp only: image_iff lessThan_iff)
qed

section \<open>The tables\<close>

lemma length_EXP: "length EXP = 512"
  by (simp add: EXP_def Let_def)

lemma EXP_nth: "i < 510 \<Longrightarrow> EXP ! i = alpha i"
proof -
  assume i: "i < 510"
  have e: "exp_loop 255 1 ! k = alpha k" if "k < 255" for k
    using exp_loop_nth [OF that, of 1] by (simp add: alpha_def)
  show "EXP ! i = alpha i"
  proof (cases "i < 255")
    case True
    then show ?thesis by (simp add: EXP_def Let_def nth_list_update nth_append e)
  next
    case False
    then have "alpha i = alpha (i - 255)" "i - 255 < 255" using alpha_mult [OF alpha_values(7), of 1 "i - 255"] i by simp_all
    then show ?thesis using False i by (cases "i = 255") (simp_all add: EXP_def Let_def nth_list_update nth_append e)
  qed
qed

lemma gf_exp_alpha: "gf_exp n = alpha n"
  by (simp add: gf_exp_def EXP_nth alpha_mod)

lemma fold_update_nth:
  assumes "distinct (map k is)" "\<forall>i\<in>set is. k i < length t"
  shows "length (fold (\<lambda>i t. t[k i := v i]) is t) = length t \<and>
    (\<forall>i\<in>set is. fold (\<lambda>i t. t[k i := v i]) is t ! k i = v i) \<and>
    (\<forall>j. j \<notin> k ` set is \<longrightarrow> fold (\<lambda>i t. t[k i := v i]) is t ! j = t ! j)"
  using assms
proof (induction "is" arbitrary: t)
  case (Cons i "is")
  then have "distinct (map k is)" "\<forall>j\<in>set is. k j < length (t[k i := v i])" "k i \<notin> k ` set is" by simp_all
  note IH = Cons.IH [OF this(1,2)] this(3)
  show ?case using IH Cons.prems by (auto simp: nth_list_update)
qed simp

lemma LOG_alpha: "i < 255 \<Longrightarrow> unat (LOG ! unat (alpha i)) = i"
proof -
  assume i: "i < 255"
  have u: "unat (EXP ! j) < 256" for j using unsigned_less [of "EXP ! j", where ?'a = nat] by simp
  have "distinct (map (\<lambda>i. unat (EXP ! i)) [0..<255])"
    by (auto simp: distinct_map inj_on_def EXP_nth alpha_inj simp flip: word_unat_eq_iff)
  then have "LOG ! unat (EXP ! i) = of_nat i"
    using fold_update_nth [of "\<lambda>i. unat (EXP ! i)" "[0..<255]" "replicate 256 0" "of_nat"] u i
    unfolding LOG_def by (simp only: length_replicate set_upt atLeastLessThan_iff ball_simps) (use i in force)
  then show ?thesis using i by (simp add: EXP_nth unat_of_nat)
qed

lemma gf_mul_alpha: "gf_mul (alpha i) (alpha j) = alpha (i + j)"
proof -
  have "unat (gf_log (alpha n)) = n mod 255" for n
    using LOG_alpha [of "n mod 255"] by (simp add: gf_log_def alpha_mod)
  then show ?thesis using alpha_nonzero by (simp add: gf_mul_def gf_exp_alpha) (metis alpha_mod mod_add_eq)
qed

lemma gf_mul_0 [simp]: "gf_mul 0 b = 0" "gf_mul a 0 = 0"
  by (simp_all add: gf_mul_def)

lemma gf_mul_xtime: "gf_mul (alpha i) b = (xtime ^^ i) b"
proof (cases "b = 0")
  case False
  then obtain j where "b = alpha j" using alpha_surj by metis
  then show ?thesis by (simp add: gf_mul_alpha alpha_add)
qed simp

lemma gf_cases: obtains "b = 0" | i where "i < 255" "b = alpha i"
  using alpha_surj by metis

lemma gf_mul_commute: "gf_mul a b = gf_mul b a"
  by (simp add: gf_mul_def add.commute)

lemma gf_mul_assoc: "gf_mul (gf_mul a b) c = gf_mul a (gf_mul b c)"
  by (cases a rule: gf_cases; cases b rule: gf_cases; cases c rule: gf_cases) (simp_all add: gf_mul_alpha add.assoc)

lemma gf_mul_xor: "gf_mul a (b XOR c) = gf_mul a b XOR gf_mul a c"
  by (cases a rule: gf_cases) (simp_all add: gf_mul_xtime xtime_pow_xor)

lemma gf_mul_1: "gf_mul 1 b = b"
  using gf_mul_xtime [of 0 b] by simp

lemma gf_inv_mul: "a \<noteq> 0 \<Longrightarrow> gf_mul (gf_inv a) a = 1"
proof -
  assume "a \<noteq> 0"
  then obtain i where i: "i < 255" "a = alpha i" using alpha_surj by metis
  then have "gf_inv a = alpha (255 - i)" using alpha_nonzero by (simp add: gf_inv_def LOG_alpha EXP_nth)
  then show ?thesis using i by (simp add: gf_mul_alpha alpha_values(7))
qed

section \<open>The field\<close>

typedef gf = "UNIV :: u8 set" morphisms byte_of GF
  by simp

setup_lifting type_definition_gf

instantiation gf :: field
begin

lift_definition zero_gf :: gf is 0 .
lift_definition one_gf :: gf is 1 .
lift_definition plus_gf :: "gf \<Rightarrow> gf \<Rightarrow> gf" is gf_add .
lift_definition minus_gf :: "gf \<Rightarrow> gf \<Rightarrow> gf" is gf_add .
lift_definition uminus_gf :: "gf \<Rightarrow> gf" is "\<lambda>a. a" .
lift_definition times_gf :: "gf \<Rightarrow> gf \<Rightarrow> gf" is gf_mul .
lift_definition inverse_gf :: "gf \<Rightarrow> gf" is gf_inv .
lift_definition divide_gf :: "gf \<Rightarrow> gf \<Rightarrow> gf" is gf_div .

instance
proof
  fix a b c :: gf
  show "a + b + c = a + (b + c)" by transfer (simp add: gf_add_def xor.assoc)
  show "a + b = b + a" by transfer (simp add: gf_add_def xor.commute)
  show "0 + a = a" by transfer (simp add: gf_add_def)
  show "- a + a = 0" by transfer (simp add: gf_add_def)
  show "a - b = a + - b" by transfer simp
  show "a * b * c = a * (b * c)" by transfer (rule gf_mul_assoc)
  show "a * b = b * a" by transfer (rule gf_mul_commute)
  show "1 * a = a" by transfer (rule gf_mul_1)
  show "(a + b) * c = a * c + b * c" by transfer (metis gf_add_def gf_mul_commute gf_mul_xor)
  show "(0 :: gf) \<noteq> 1" by transfer simp
  show "a \<noteq> 0 \<Longrightarrow> inverse a * a = 1" by transfer (rule gf_inv_mul)
  show "a div b = a * inverse b" by transfer (simp add: gf_div_def)
  show "inverse (0 :: gf) = 0" by transfer (simp add: gf_inv_def)
qed

end

end
