(* ===== verification/Rs_Algebra.thy ===== *)
theory Rs_Algebra
  imports Complex_Main
begin

text \<open>
  The algebra behind the Reed-Solomon decoder, over any field: sums of distinct powers vanish
  only trivially, a polynomial has no more roots than its degree, a shortest linear recurrence
  of the syndromes locates the errors (Massey), and Forney's formula gives their values. A
  polynomial is the function of its coefficients.
\<close>

section \<open>Sums of powers and roots\<close>

lemma powers_independent:
  fixes X :: "'i \<Rightarrow> 'a::field"
  assumes "finite E" "inj_on X E" "\<And>r. r < card E \<Longrightarrow> (\<Sum>p\<in>E. g p * X p ^ r) = 0"
  shows "\<forall>p\<in>E. g p = 0"
  using assms
proof (induction E arbitrary: g rule: finite_induct)
  case (insert q E)
  have "(\<Sum>p\<in>E. (g p * (X p - X q)) * X p ^ r) = 0" if "r < card E" for r
  proof -
    have "(\<Sum>p\<in>insert q E. g p * X p ^ Suc r) - X q * (\<Sum>p\<in>insert q E. g p * X p ^ r) = 0"
      using insert.prems(2) [of r] insert.prems(2) [of "Suc r"] insert.hyps that by simp
    moreover have "(\<Sum>p\<in>insert q E. g p * X p ^ Suc r) - X q * (\<Sum>p\<in>insert q E. g p * X p ^ r) =
        (\<Sum>p\<in>insert q E. (g p * (X p - X q)) * X p ^ r)"
      by (simp add: sum_distrib_left flip: sum_subtractf) (simp add: algebra_simps)
    ultimately show ?thesis using insert.hyps by simp
  qed
  then have "\<forall>p\<in>E. g p * (X p - X q) = 0" using insert.IH [of "\<lambda>p. g p * (X p - X q)"] insert.prems(1) by simp
  then have "\<forall>p\<in>E. g p = 0" using insert.prems(1) insert.hyps by (auto simp: inj_on_def)
  moreover have "(\<Sum>p\<in>insert q E. g p) = 0" using insert.prems(2) [of 0] insert.hyps by simp
  ultimately show ?case using insert.hyps by simp
qed simp

lemma powers_independent_from:
  fixes X :: "'i \<Rightarrow> 'a::field"
  assumes "finite E" "inj_on X E" "\<And>p. p \<in> E \<Longrightarrow> X p \<noteq> 0" "\<And>r. a \<le> r \<Longrightarrow> r < a + card E \<Longrightarrow> (\<Sum>p\<in>E. g p * X p ^ r) = 0"
  shows "\<forall>p\<in>E. g p = 0"
proof -
  have "(\<Sum>p\<in>E. (g p * X p ^ a) * X p ^ r) = 0" if "r < card E" for r
    using assms(4) [of "a + r"] that by (simp add: power_add ac_simps)
  then have "\<forall>p\<in>E. g p * X p ^ a = 0" by (rule powers_independent [OF assms(1,2)])
  then show ?thesis using assms(3) by simp
qed

lemma roots_bound:
  fixes c :: "nat \<Rightarrow> 'a::field"
  assumes "finite R" "n < card R" "\<And>x. x \<in> R \<Longrightarrow> (\<Sum>i\<le>n. c i * x ^ i) = 0" "i \<le> n"
  shows "c i = 0"
  using assms
proof (induction n arbitrary: R c i)
  case 0
  then have "R \<noteq> {}" by auto
  then obtain x where "x \<in> R" by blast
  then show ?case using 0(3) [of x] 0(4) by simp
next
  case (Suc n)
  have "R \<noteq> {}" using Suc.prems(2) by auto
  then obtain a where a: "a \<in> R" by blast
  define b where "b j = (\<Sum>i=Suc j..Suc n. c i * a ^ (i - j - 1))" for j
  have f: "(\<Sum>i\<le>Suc n. c i * x ^ i) = (x - a) * (\<Sum>j\<le>n. b j * x ^ j)" for x
    using polyfun_diff [of "Suc n" c x a] Suc.prems(3) [OF a] by (simp add: b_def lessThan_Suc_atMost)
  have "(\<Sum>j\<le>n. b j * x ^ j) = 0" if "x \<in> R - {a}" for x using f [of x] Suc.prems(3) [of x] that by auto
  moreover have "n < card (R - {a})" using Suc.prems(1,2) a by simp
  ultimately have b: "b j = 0" if "j \<le> n" for j using Suc.IH [of "R - {a}"] Suc.prems(1) that by blast
  have top: "c j = 0" if "0 < j" "j \<le> Suc n" for j
    using that
  proof (induction "Suc n - j" arbitrary: j rule: less_induct)
    case less
    then have "b (j - 1) = (\<Sum>i=j..Suc n. c i * a ^ (i - j))" by (simp add: b_def)
    also have "\<dots> = c j + (\<Sum>i=Suc j..Suc n. c i * a ^ (i - j))"
      using less.prems by (simp only: sum.atLeast_Suc_atMost) simp
    finally have "b (j - 1) = c j + (\<Sum>i=Suc j..Suc n. c i * a ^ (i - j))" .
    moreover have "(\<Sum>i=Suc j..Suc n. c i * a ^ (i - j)) = 0"
    proof (intro sum.neutral ballI)
      fix i assume i: "i \<in> {Suc j..Suc n}"
      then have "c i = 0" using less.prems by (intro less.hyps) auto
      then show "c i * a ^ (i - j) = 0" by simp
    qed
    ultimately show ?case using b [of "j - 1"] less.prems by simp
  qed
  have "(\<Sum>i\<le>Suc n. c i * a ^ i) = c 0" using top by (subst sum.atMost_shift) simp
  then show ?case using Suc.prems(3) [OF a] Suc.prems(4) top by (cases "i = 0") simp_all
qed

section \<open>Linear recurrences\<close>

text \<open>The coefficient of the product of the sequence \<open>s\<close> with the polynomial \<open>c\<close>.\<close>

definition conv :: "(nat \<Rightarrow> 'a::field) \<Rightarrow> (nat \<Rightarrow> 'a) \<Rightarrow> nat \<Rightarrow> 'a" where
  "conv s c r = (\<Sum>i\<le>r. c i * s (r - i))"

definition deg_le :: "(nat \<Rightarrow> 'a::field) \<Rightarrow> nat \<Rightarrow> bool" where
  "deg_le c L \<longleftrightarrow> (\<forall>i>L. c i = 0)"

text \<open>\<open>c\<close> describes a recurrence of length \<open>L\<close> that generates \<open>s\<close> up to \<open>n\<close>.\<close>

definition generates :: "(nat \<Rightarrow> 'a::field) \<Rightarrow> (nat \<Rightarrow> 'a) \<Rightarrow> nat \<Rightarrow> nat \<Rightarrow> bool" where
  "generates s c L n \<longleftrightarrow> c 0 = 1 \<and> deg_le c L \<and> (\<forall>r. L \<le> r \<and> r < n \<longrightarrow> conv s c r = 0)"

lemma conv_bounded: "deg_le c L \<Longrightarrow> L \<le> r \<Longrightarrow> conv s c r = (\<Sum>i\<le>L. c i * s (r - i))"
  unfolding conv_def deg_le_def by (intro sum.mono_neutral_right) auto

lemma massey:
  assumes "generates s c L n" "conv s c n \<noteq> 0" "generates s c' L' (Suc n)"
  shows "Suc n \<le> L + L'"
proof (rule ccontr)
  assume "\<not> Suc n \<le> L + L'"
  then have L: "L + L' \<le> n" by simp
  have c: "deg_le c L" "deg_le c' L'" "c' 0 = 1" using assms(1,3) by (simp_all add: generates_def)
  let ?S = "\<Sum>i\<le>L. \<Sum>k\<le>L'. c i * c' k * s (n - i - k)"
  have "?S = (\<Sum>i\<le>L. c i * conv s c' (n - i))"
    using L c(2) by (intro sum.cong) (simp_all add: conv_bounded sum_distrib_left mult.assoc)
  also have "\<dots> = 0"
  proof (intro sum.neutral ballI)
    fix i assume "i \<in> {..L}"
    then have "L' \<le> n - i" "n - i < Suc n" using L by auto
    then show "c i * conv s c' (n - i) = 0" using assms(3) by (simp add: generates_def)
  qed
  finally have "?S = 0" .
  moreover have "?S = (\<Sum>k\<le>L'. c' k * conv s c (n - k))"
    unfolding sum.swap [of _ "{..L'}"] using L c(1)
    by (intro sum.cong) (simp_all add: conv_bounded sum_distrib_left ac_simps)
  moreover have "\<dots> = c' 0 * conv s c n"
  proof -
    have "c' k * conv s c (n - k) = 0" if "0 < k" "k \<le> L'" for k
      using that L assms(1) by (simp add: generates_def)
    then have "(\<Sum>k\<le>L'. c' k * conv s c (n - k)) = (\<Sum>k\<in>{0}. c' k * conv s c (n - k))"
      by (intro sum.mono_neutral_right) auto
    then show ?thesis by simp
  qed
  ultimately show False using assms(2) c(3) by simp
qed

section \<open>Lengthening a recurrence\<close>

text \<open>
  The invariant of Berlekamp and Massey's algorithm before step \<open>n\<close>: \<open>c\<close> generates the
  sequence so far and is no longer than any recurrence of length \<open>v\<close> that generates all of it;
  \<open>b\<close> corrects a discrepancy at the next step without disturbing the earlier ones.
\<close>

definition bm_inv :: "(nat \<Rightarrow> 'a::field) \<Rightarrow> nat \<Rightarrow> nat \<Rightarrow> (nat \<Rightarrow> 'a) \<Rightarrow> (nat \<Rightarrow> 'a) \<Rightarrow> nat \<Rightarrow> bool" where
  "bm_inv s v n c b l \<longleftrightarrow> l \<le> n \<and> l \<le> v \<and> generates s c l n \<and> deg_le b (n - l) \<and>
     (0 < l \<longrightarrow> (\<forall>r. n - l \<le> r \<and> Suc r < n \<longrightarrow> conv s b r = 0) \<and> conv s b (n - 1) = 1)"

fun shift_poly :: "(nat \<Rightarrow> 'a::zero) \<Rightarrow> nat \<Rightarrow> 'a" where
  "shift_poly c 0 = 0"
| "shift_poly c (Suc i) = c i"

lemma conv_shift: "conv s (shift_poly c) (Suc r) = conv s c r"
  unfolding conv_def by (subst sum.atMost_Suc_shift) simp

lemma conv_diff: "conv s (\<lambda>i. c i - d * b i) r = conv s c r - d * conv s b r"
  by (simp add: conv_def algebra_simps sum_subtractf sum_distrib_left)

lemma conv_scale: "conv s (\<lambda>i. c i * d) r = conv s c r * d"
  by (simp add: conv_def algebra_simps sum_distrib_left)

lemma deg_le_shift: "deg_le c n \<Longrightarrow> deg_le (shift_poly c) (Suc n)"
  unfolding deg_le_def by (metis Suc_less_SucD less_imp_Suc_add shift_poly.simps(2))

lemma shifted_corrector:
  assumes "bm_inv s v n c b l" "0 < l"
  shows "\<forall>r. Suc n - l \<le> r \<and> r < n \<longrightarrow> conv s (shift_poly b) r = 0" "conv s (shift_poly b) n = 1"
proof -
  have n: "0 < n" "l \<le> n" using assms by (auto simp: bm_inv_def)
  show "\<forall>r. Suc n - l \<le> r \<and> r < n \<longrightarrow> conv s (shift_poly b) r = 0"
  proof (intro allI impI)
    fix r assume r: "Suc n - l \<le> r \<and> r < n"
    then obtain k where "r = Suc k" using n by (cases r) auto
    then show "conv s (shift_poly b) r = 0" using assms r by (auto simp: bm_inv_def conv_shift)
  qed
  show "conv s (shift_poly b) n = 1" using assms n by (cases n) (auto simp: bm_inv_def conv_shift)
qed

lemma bm_same:
  assumes "bm_inv s v n c b l" "conv s c n = 0"
  shows "bm_inv s v (Suc n) c (shift_poly b) l"
proof -
  have "generates s c l (Suc n)" using assms by (auto simp: bm_inv_def generates_def less_Suc_eq)
  moreover have "deg_le (shift_poly b) (Suc n - l)"
    using assms(1) deg_le_shift [of b "n - l"] by (simp add: bm_inv_def Suc_diff_le)
  ultimately show ?thesis using assms(1) shifted_corrector [OF assms(1)] by (auto simp: bm_inv_def)
qed

lemma bm_corrected:
  assumes "bm_inv s v n c b l" "l' = max l (Suc n - l)" "l = 0 \<longrightarrow> l' = Suc n"
  shows "generates s (\<lambda>i. c i - conv s c n * shift_poly b i) l' (Suc n)"
proof -
  let ?d = "\<lambda>i. c i - conv s c n * shift_poly b i"
  have "deg_le (shift_poly b) (Suc n - l)" "deg_le c l"
    using assms(1) deg_le_shift [of b "n - l"] by (simp_all add: bm_inv_def generates_def Suc_diff_le)
  then have "deg_le ?d l'" using assms(2) by (auto simp: deg_le_def)
  moreover have "?d 0 = 1" using assms(1) by (simp add: bm_inv_def generates_def)
  moreover have "conv s ?d r = 0" if r: "l' \<le> r" "r < Suc n" for r
  proof -
    have l: "0 < l" using assms(3) r by auto
    show ?thesis
    proof (cases "r = n")
      case True
      then show ?thesis using shifted_corrector(2) [OF assms(1) l] by (simp add: conv_diff)
    next
      case False
      then have "conv s c r = 0" "conv s (shift_poly b) r = 0"
        using shifted_corrector(1) [OF assms(1) l] assms(1,2) r by (auto simp: bm_inv_def generates_def)
      then show ?thesis by (simp add: conv_diff)
    qed
  qed
  ultimately show ?thesis by (simp add: generates_def)
qed

lemma bm_adjust:
  assumes "bm_inv s v n c b l" "\<not> 2 * l \<le> n"
  shows "bm_inv s v (Suc n) (\<lambda>i. c i - conv s c n * shift_poly b i) (shift_poly b) l"
proof -
  have "generates s (\<lambda>i. c i - conv s c n * shift_poly b i) l (Suc n)"
    using assms by (intro bm_corrected) auto
  moreover have "deg_le (shift_poly b) (Suc n - l)"
    using assms(1) deg_le_shift [of b "n - l"] by (simp add: bm_inv_def Suc_diff_le)
  ultimately show ?thesis using assms(1) shifted_corrector [OF assms(1)] by (auto simp: bm_inv_def)
qed

lemma bm_lengthen:
  assumes "bm_inv s v n c b l" "2 * l \<le> n" "conv s c n \<noteq> 0" "generates s c' v (Suc n)"
  shows "bm_inv s v (Suc n) (\<lambda>i. c i - conv s c n * shift_poly b i) (\<lambda>i. c i * inverse (conv s c n)) (Suc n - l)"
proof -
  have g: "generates s c l n" using assms(1) by (simp add: bm_inv_def)
  have "Suc n \<le> l + v" using massey [OF g assms(3,4)] .
  moreover have "generates s (\<lambda>i. c i - conv s c n * shift_poly b i) (Suc n - l) (Suc n)"
    using assms(1,2) by (intro bm_corrected) auto
  moreover have "Suc n - (Suc n - l) = l" using assms(2) by simp
  moreover have "deg_le (\<lambda>i. c i * inverse (conv s c n)) l" using g by (simp add: generates_def deg_le_def)
  moreover have "conv s (\<lambda>i. c i * inverse (conv s c n)) r = 0" if "l \<le> r" "r < n" for r
    using g that by (simp add: conv_scale generates_def)
  ultimately show ?thesis using assms(3) by (auto simp: bm_inv_def conv_scale)
qed

section \<open>The error locator\<close>

text \<open>The syndromes of the errors \<open>f p\<close> with locators \<open>X p\<close>.\<close>

definition power_sums :: "('i \<Rightarrow> 'a::field) \<Rightarrow> ('i \<Rightarrow> 'a) \<Rightarrow> 'i set \<Rightarrow> nat \<Rightarrow> 'a" where
  "power_sums f X E r = (\<Sum>p\<in>E. f p * X p ^ r)"

lemma conv_power_sums:
  assumes "finite E" "\<And>p. p \<in> E \<Longrightarrow> X p \<noteq> 0" "deg_le c L" "L \<le> r"
  shows "conv (power_sums f X E) c r = (\<Sum>p\<in>E. (f p * (\<Sum>i\<le>L. c i * inverse (X p) ^ i)) * X p ^ r)"
proof -
  have "conv (power_sums f X E) c r = (\<Sum>i\<le>L. \<Sum>p\<in>E. c i * (f p * X p ^ (r - i)))"
    using assms(3,4) by (simp add: conv_bounded power_sums_def sum_distrib_left)
  also have "\<dots> = (\<Sum>p\<in>E. \<Sum>i\<le>L. c i * (f p * X p ^ (r - i)))" by (rule sum.swap)
  also have "\<dots> = (\<Sum>p\<in>E. (f p * (\<Sum>i\<le>L. c i * inverse (X p) ^ i)) * X p ^ r)"
  proof (intro sum.cong refl)
    fix p assume p: "p \<in> E"
    have "X p ^ (r - i) = inverse (X p) ^ i * X p ^ r" if "i \<le> L" for i
      using that assms(2) [OF p] assms(4) by (simp add: power_diff field_simps)
    then have "(\<Sum>i\<le>L. c i * (f p * X p ^ (r - i))) = (\<Sum>i\<le>L. c i * (f p * (inverse (X p) ^ i * X p ^ r)))"
      by (intro sum.cong) simp_all
    then show "(\<Sum>i\<le>L. c i * (f p * X p ^ (r - i))) = f p * (\<Sum>i\<le>L. c i * inverse (X p) ^ i) * X p ^ r"
      by (simp add: sum_distrib_left sum_distrib_right ac_simps)
  qed
  finally show ?thesis .
qed

text \<open>The polynomial whose roots are the inverses of the locators.\<close>

lemma locator_exists:
  fixes X :: "'i \<Rightarrow> 'a::field"
  assumes "finite E" "\<And>p. p \<in> E \<Longrightarrow> X p \<noteq> 0"
  shows "\<exists>c. c 0 = 1 \<and> deg_le c (card E) \<and> (\<forall>p\<in>E. (\<Sum>i\<le>card E. c i * inverse (X p) ^ i) = 0)"
  using assms
proof (induction E rule: finite_induct)
  case empty
  then show ?case by (intro exI [of _ "\<lambda>i. if i = 0 then 1 else 0"]) (simp add: deg_le_def)
next
  case (insert q E)
  then obtain c where c: "c 0 = 1" "deg_le c (card E)" "\<forall>p\<in>E. (\<Sum>i\<le>card E. c i * inverse (X p) ^ i) = 0" by auto
  let ?d = "\<lambda>i. c i - (if i = 0 then 0 else X q * c (i - 1))"
  have e: "(\<Sum>i\<le>Suc (card E). ?d i * y ^ i) = (1 - X q * y) * (\<Sum>i\<le>card E. c i * y ^ i)" for y
  proof -
    have "(\<Sum>i\<le>Suc (card E). ?d i * y ^ i) =
        (\<Sum>i\<le>Suc (card E). c i * y ^ i) - (\<Sum>i\<le>Suc (card E). (if i = 0 then 0 else X q * c (i - 1)) * y ^ i)"
      by (simp only: left_diff_distrib sum_subtractf)
    also have "(\<Sum>i\<le>Suc (card E). c i * y ^ i) = (\<Sum>i\<le>card E. c i * y ^ i)" using c(2) by (simp add: deg_le_def)
    also have "(\<Sum>i\<le>Suc (card E). (if i = 0 then 0 else X q * c (i - 1)) * y ^ i) = X q * y * (\<Sum>i\<le>card E. c i * y ^ i)"
      by (subst sum.atMost_Suc_shift) (simp add: sum_distrib_left ac_simps)
    finally show ?thesis by (simp add: algebra_simps)
  qed
  have "deg_le ?d (Suc (card E))" using c(2) by (auto simp: deg_le_def)
  moreover have "(\<Sum>i\<le>Suc (card E). ?d i * inverse (X p) ^ i) = 0" if "p \<in> insert q E" for p
    unfolding e using that c(3) insert.prems by auto
  ultimately show ?case using c(1) insert.hyps by (intro exI [of _ ?d]) simp
qed

lemma locator_generates:
  fixes X :: "'i \<Rightarrow> 'a::field"
  assumes "finite E" "\<And>p. p \<in> E \<Longrightarrow> X p \<noteq> 0"
  shows "\<exists>c. \<forall>n. generates (power_sums f X E) c (card E) n"
proof -
  obtain c where c: "c 0 = 1" "deg_le c (card E)" "\<forall>p\<in>E. (\<Sum>i\<le>card E. c i * inverse (X p) ^ i) = 0"
    using locator_exists [of E X] assms by blast
  have "conv (power_sums f X E) c r = 0" if "card E \<le> r" for r
    using conv_power_sums [OF assms c(2) that] c(3) by simp
  then show ?thesis using c(1,2) by (auto simp: generates_def)
qed

text \<open>A recurrence no longer than the number of errors is the locator: its roots are the errors.\<close>

lemma recurrence_locates:
  fixes X :: "'i \<Rightarrow> 'a::field"
  assumes E: "finite E" "\<And>p. p \<in> E \<Longrightarrow> X p \<noteq> 0" "inj_on X E" "\<And>p. p \<in> E \<Longrightarrow> f p \<noteq> 0"
    and g: "generates (power_sums f X E) c L n" and L: "L \<le> card E" "L + card E \<le> n"
  shows "L = card E \<and> (\<forall>x. (\<Sum>i\<le>L. c i * x ^ i) = 0 \<longleftrightarrow> x \<in> (\<lambda>p. inverse (X p)) ` E)"
proof -
  have c: "c 0 = 1" "deg_le c L" using g by (simp_all add: generates_def)
  have "\<forall>p\<in>E. f p * (\<Sum>i\<le>L. c i * inverse (X p) ^ i) = 0"
  proof (rule powers_independent_from [OF E(1) E(3) E(2)])
    fix r assume r: "L \<le> r" "r < L + card E"
    have "conv (power_sums f X E) c r = 0" using g r L by (simp add: generates_def)
    then show "(\<Sum>p\<in>E. f p * (\<Sum>i\<le>L. c i * inverse (X p) ^ i) * X p ^ r) = 0"
      using conv_power_sums [OF E(1,2) c(2) r(1), where f = f] by simp
  qed
  then have roots: "(\<Sum>i\<le>L. c i * x ^ i) = 0" if "x \<in> (\<lambda>p. inverse (X p)) ` E" for x using that E(4) by auto
  let ?R = "(\<lambda>p. inverse (X p)) ` E"
  have R: "finite ?R" "card ?R = card E" using E(1,3) by (auto simp: card_image inj_on_def)
  have bound: "\<not> L < card R" if "finite R" "\<And>x. x \<in> R \<Longrightarrow> (\<Sum>i\<le>L. c i * x ^ i) = 0" for R
    using roots_bound [OF that(1) _ that(2), of 0] c(1) by auto
  have eq: "L = card E" using bound [OF R(1) roots] L(1) R(2) by simp
  have "x \<in> ?R" if "(\<Sum>i\<le>L. c i * x ^ i) = 0" for x
  proof (rule ccontr)
    assume "x \<notin> ?R"
    then have "card (insert x ?R) = Suc L" using R eq by simp
    then show False using bound [of "insert x ?R"] roots that R(1) by auto
  qed
  then show ?thesis using eq roots by blast
qed

section \<open>Forney's formula\<close>

text \<open>
  The evaluator, the product of syndromes and locator cut to the locator's degree, at the
  inverse of a locator is the error times the derivative there.
\<close>

lemma forney_formula:
  fixes X :: "'i \<Rightarrow> 'a::field"
  assumes E: "finite E" "\<And>p. p \<in> E \<Longrightarrow> X p \<noteq> 0" "inj_on X E" "q \<in> E"
    and c: "c 0 = 1" "deg_le c (card E)" "\<And>p. p \<in> E \<Longrightarrow> (\<Sum>i\<le>card E. c i * inverse (X p) ^ i) = 0"
  shows "(\<Sum>i<card E. conv (power_sums f X E) c i * inverse (X q) ^ i) =
      f q * - (\<Sum>j\<le>card E. of_nat j * c j * inverse (X q) ^ j)"
    and "(\<Sum>j\<le>card E. of_nat j * c j * inverse (X q) ^ j) \<noteq> 0"
proof -
  define v where "v = card E"
  define T where "T p i = (\<Sum>j\<le>i. c j * X p ^ (i - j))" for p i
  have T_Suc: "T p (Suc i) = X p * T p i + c (Suc i)" for p i
    by (simp add: T_def sum_distrib_left Suc_diff_le ac_simps)
  have divided: "(1 - X p * y) * (\<Sum>i<Suc m. T p i * y ^ i) = (\<Sum>i\<le>m. c i * y ^ i) - X p * T p m * y ^ Suc m" for p y m
  proof (induction m)
    case (Suc m)
    show ?case
      unfolding sum.lessThan_Suc [of _ "Suc m"] distrib_left Suc.IH sum.atMost_Suc
      by (simp only: T_Suc power_Suc) (simp add: algebra_simps)
  qed (simp add: T_def algebra_simps)
  have T_last: "T p v = 0" if p: "p \<in> E" for p
  proof -
    have "T p v = X p ^ v * (\<Sum>j\<le>v. c j * inverse (X p) ^ j)"
      unfolding T_def sum_distrib_left
      using E(2) [OF p] by (intro sum.cong) (simp_all add: power_diff field_simps)
    then show ?thesis using c(3) [OF p] by (simp add: v_def)
  qed
  have v: "0 < v" using E(1,4) by (auto simp: v_def card_gt_0_iff)
  have factor: "(1 - X p * y) * (\<Sum>i<v. T p i * y ^ i) = (\<Sum>i\<le>v. c i * y ^ i)" if "p \<in> E" for p y
  proof -
    obtain m where m: "v = Suc m" using v by (cases v) auto
    have "X p * T p m = - c v" using T_Suc [of p m] T_last [OF that] m by (simp add: eq_neg_iff_add_eq_0 add.commute)
    then show ?thesis using divided [of p y m] by (simp add: m)
  qed
  have diag: "(\<Sum>i<n. \<Sum>j\<le>i. a j) = (\<Sum>j\<le>n. (of_nat n - of_nat j) * a j)" for a :: "nat \<Rightarrow> 'a" and n
  proof (induction n)
    case (Suc n)
    have "(\<Sum>j\<le>Suc n. (of_nat (Suc n) - of_nat j) * a j) = (\<Sum>j\<le>n. (of_nat n - of_nat j) * a j + a j)"
      by (simp add: algebra_simps)
    then show ?case using Suc by (simp add: sum.distrib)
  qed simp
  have at: "(\<Sum>i<v. T p i * inverse (X p) ^ i) = - (\<Sum>j\<le>v. of_nat j * c j * inverse (X p) ^ j)" if p: "p \<in> E" for p
  proof -
    have "(\<Sum>i<v. T p i * inverse (X p) ^ i) = (\<Sum>i<v. \<Sum>j\<le>i. c j * inverse (X p) ^ j)"
      unfolding T_def sum_distrib_right using E(2) [OF p] by (intro sum.cong) (simp_all add: power_diff field_simps)
    also have "\<dots> = of_nat v * (\<Sum>j\<le>v. c j * inverse (X p) ^ j) - (\<Sum>j\<le>v. of_nat j * c j * inverse (X p) ^ j)"
      unfolding diag by (simp add: algebra_simps sum_subtractf sum_distrib_left)
    finally show ?thesis using c(3) [OF p] by (simp add: v_def)
  qed
  have other: "(\<Sum>i<v. T p i * inverse (X q) ^ i) = 0" if p: "p \<in> E" "p \<noteq> q" "q \<in> E" for p q
  proof -
    have "1 - X p * inverse (X q) \<noteq> 0" using p E(2,3) by (auto simp: inj_on_def field_simps)
    then show ?thesis using factor [OF p(1), of "inverse (X q)"] c(3) [OF p(3)] by (simp add: v_def)
  qed
  have "(\<Sum>i<v. conv (power_sums f X E) c i * inverse (X q) ^ i) = (\<Sum>i<v. \<Sum>p\<in>E. f p * (T p i * inverse (X q) ^ i))"
  proof (intro sum.cong refl)
    fix i
    have "conv (power_sums f X E) c i = (\<Sum>j\<le>i. \<Sum>p\<in>E. f p * (c j * X p ^ (i - j)))"
      by (simp add: conv_def power_sums_def sum_distrib_left ac_simps)
    also have "\<dots> = (\<Sum>p\<in>E. f p * T p i)"
      by (subst sum.swap) (simp add: T_def sum_distrib_left)
    finally show "conv (power_sums f X E) c i * inverse (X q) ^ i = (\<Sum>p\<in>E. f p * (T p i * inverse (X q) ^ i))"
      by (simp add: sum_distrib_right mult.assoc)
  qed
  also have "\<dots> = (\<Sum>p\<in>E. f p * (\<Sum>i<v. T p i * inverse (X q) ^ i))"
    by (subst sum.swap) (simp add: sum_distrib_left)
  also have "\<dots> = (\<Sum>p\<in>{q}. f p * (\<Sum>i<v. T p i * inverse (X q) ^ i))"
    using E(1,4) other by (intro sum.mono_neutral_right) auto
  finally show "(\<Sum>i<card E. conv (power_sums f X E) c i * inverse (X q) ^ i) =
      f q * - (\<Sum>j\<le>card E. of_nat j * c j * inverse (X q) ^ j)"
    using at [OF E(4)] by (simp add: v_def)
  show "(\<Sum>j\<le>card E. of_nat j * c j * inverse (X q) ^ j) \<noteq> 0"
  proof
    assume z: "(\<Sum>j\<le>card E. of_nat j * c j * inverse (X q) ^ j) = 0"
    let ?R = "(\<lambda>p. inverse (X p)) ` E"
    have R: "finite ?R" "card ?R = v" using E(1,3) by (auto simp: v_def card_image inj_on_def)
    have "(\<Sum>i\<le>v - 1. T q i * x ^ i) = 0" if x: "x \<in> ?R" for x
    proof -
      obtain p where p: "p \<in> E" "x = inverse (X p)" using x by auto
      have "(\<Sum>i<v. T q i * x ^ i) = 0"
        using other [OF E(4) _ p(1)] at [OF E(4)] z p by (cases "p = q") (auto simp: v_def)
      then show ?thesis using v by (simp add: lessThan_Suc_atMost [symmetric])
    qed
    then have "T q 0 = 0" using roots_bound [of ?R "v - 1" "T q" 0] R v by simp
    then show False using c(1) by (simp add: T_def)
  qed
qed

end
