(* ===== verification/Reed_Solomon.thy ===== *)
theory Reed_Solomon
  imports Galois Rs_Algebra
begin

text \<open>
  The Reed-Solomon (255,223) code (\<open>coding/fec/reed_solomon.rs\<close>): systematic encoder,
  Berlekamp-Massey decoder with Chien search and Forney's formula, and interleaving. A decoder
  works in place, so it returns the contents of its buffer beside its result.
\<close>

section \<open>The code\<close>

definition RS_N :: nat where "RS_N = 255"
definition RS_K :: nat where "RS_K = 223"
definition RS_PARITY :: nat where "RS_PARITY = RS_N - RS_K"
definition RS_T :: nat where "RS_T = RS_PARITY div 2"
definition FCR :: nat where "FCR = 112"

datatype RsError = RsBufferTooShort nat nat | TooManyErrors | InvalidInterleaveDepth u8

text \<open>The generator polynomial: the inner loop multiplies by one more root, in place from the end.\<close>

definition gen_multiply :: "u8 \<Rightarrow> nat \<Rightarrow> bytes \<Rightarrow> bytes" where
  "gen_multiply zero len g =
     fold (\<lambda>j g. if g ! (j - 1) \<noteq> 0
                 then g[j := g ! j XOR EXP ! ((unat (LOG ! unat (g ! (j - 1))) + unat (LOG ! unat zero)) mod 255)]
                 else g)
       (rev [1..<Suc len]) g"

definition GENERATOR :: bytes where
  "GENERATOR =
     fst (fold (\<lambda>i (g, len). (gen_multiply (EXP ! ((FCR + i) mod 255)) len g, len + 1)) [0..<RS_PARITY]
            ((replicate (RS_PARITY + 1) 0)[0 := 1], 1))"

definition divide_symbol :: "u8 \<Rightarrow> bytes \<Rightarrow> bytes" where
  "divide_symbol c remainder =
     (let feedback = gf_add c (remainder ! 0) in
      if feedback \<noteq> 0
      then map (\<lambda>j. gf_add (remainder ! (j + 1)) (gf_mul feedback (GENERATOR ! (j + 1)))) [0..<RS_PARITY - 1]
             @ [gf_mul feedback (GENERATOR ! RS_PARITY)]
      else drop 1 remainder @ [0])"

definition rs_encode :: "bytes \<Rightarrow> bytes \<Rightarrow> RsError + nat \<times> bytes" where
  "rs_encode data output =
     (if length data > RS_K then Inl (RsBufferTooShort RS_K (length data))
      else if length output < RS_N then Inl (RsBufferTooShort RS_N (length output))
      else
        let codeword = blit (replicate RS_N 0) 0 data;
            remainder = fold (\<lambda>i r. divide_symbol (codeword ! i) r) [0..<RS_K] (replicate RS_PARITY 0)
        in Inr (RS_N, blit (blit output 0 (take RS_K codeword)) RS_K remainder))"

definition syndromes :: "bytes \<Rightarrow> bytes" where
  "syndromes codeword = map (\<lambda>j. poly_eval codeword (gf_exp (FCR + j))) [0..<RS_PARITY]"

section \<open>Decoding\<close>

definition discrepancy :: "bytes \<Rightarrow> bytes \<Rightarrow> nat \<Rightarrow> nat \<Rightarrow> u8" where
  "discrepancy syn sigma l n =
     fold (\<lambda>i delta. gf_add delta (gf_mul (sigma ! i) (syn ! (n - i)))) [1..<Suc l] (syn ! n)"

definition bm_step :: "bytes \<Rightarrow> nat \<Rightarrow> bytes \<times> bytes \<times> nat \<Rightarrow> bytes \<times> bytes \<times> nat" where
  "bm_step syn n = (\<lambda>(sigma, old_sigma, l).
     let delta = discrepancy syn sigma l n;
         old_sigma = 0 # butlast old_sigma
     in if delta \<noteq> 0
        then
          let scaled = map (gf_mul delta) old_sigma;
              (old_sigma, l) =
                (if 2 * l \<le> n then (map (\<lambda>c. gf_mul c (gf_inv delta)) sigma, n + 1 - l) else (old_sigma, l))
          in (map2 gf_add sigma scaled, old_sigma, l)
        else (sigma, old_sigma, l))"

definition berlekamp_massey :: "bytes \<Rightarrow> RsError + bytes \<times> nat" where
  "berlekamp_massey syn =
     (let one = (replicate (RS_PARITY + 1) 0)[0 := 1];
          (sigma, _, l) = fold (bm_step syn) [0..<RS_PARITY] (one, one, 0)
      in if l > RS_T then Inl TooManyErrors else Inr (sigma, l))"

text \<open>The search stops at the last error; \<open>found\<close> positions are stored.\<close>

fun chien_loop :: "bytes \<Rightarrow> nat \<Rightarrow> nat list \<Rightarrow> nat \<times> bytes \<Rightarrow> nat \<times> bytes" where
  "chien_loop sigma num_errors [] st = st"
| "chien_loop sigma num_errors (m # ms) (found, positions) =
     (if poly_eval_asc (take (num_errors + 1) sigma) (gf_exp m) = 0
      then
        let positions = positions[found := of_nat ((m + RS_N - 1) mod RS_N)]; found = found + 1
        in if found = num_errors then (found, positions) else chien_loop sigma num_errors ms (found, positions)
      else chien_loop sigma num_errors ms (found, positions))"

definition chien_search :: "bytes \<Rightarrow> nat \<Rightarrow> RsError + bytes" where
  "chien_search sigma num_errors =
     (let (found, positions) = chien_loop sigma num_errors [0..<RS_N] (0, replicate RS_T 0)
      in if found \<noteq> num_errors then Inl TooManyErrors else Inr positions)"

definition forney_omega :: "bytes \<Rightarrow> bytes \<Rightarrow> nat \<Rightarrow> bytes" where
  "forney_omega syn sigma num_errors =
     map (\<lambda>i. fold (\<lambda>j val. gf_add val (gf_mul (sigma ! j) (syn ! (i - j)))) [0..<Suc (min i num_errors)] 0) [0..<RS_PARITY]"

definition forney_deriv :: "bytes \<Rightarrow> nat \<Rightarrow> bytes" where
  "forney_deriv sigma num_errors =
     fold (\<lambda>i d. d[i - 1 := sigma ! i]) (filter odd [1..<Suc num_errors]) (replicate RS_PARITY 0)"

definition forney :: "bytes \<Rightarrow> bytes \<Rightarrow> bytes \<Rightarrow> nat \<Rightarrow> bytes" where
  "forney syn sigma positions num_errors =
     (let omega = forney_omega syn sigma num_errors; sigma_deriv = forney_deriv sigma num_errors in
      fold (\<lambda>k magnitudes.
          let pos = unat (positions ! k);
              x_k_log = (RS_N - 1 - pos) mod RS_N;
              x_k_inv = gf_exp ((RS_N - x_k_log) mod RS_N);
              omega_val = poly_eval_asc (take RS_PARITY omega) x_k_inv;
              deriv_val = poly_eval_asc (take num_errors sigma_deriv) x_k_inv;
              power = gf_exp ((x_k_log * (1 + RS_N - FCR)) mod RS_N)
          in magnitudes[k := gf_mul power (gf_div omega_val deriv_val)])
        [0..<num_errors] (replicate RS_T 0))"

definition correct :: "bytes \<Rightarrow> bytes \<Rightarrow> nat \<Rightarrow> bytes \<Rightarrow> bytes" where
  "correct positions magnitudes num_errors codeword =
     fold (\<lambda>i cw. cw[unat (positions ! i) := gf_add (cw ! unat (positions ! i)) (magnitudes ! i)]) [0..<num_errors] codeword"

definition rs_decode :: "bytes \<Rightarrow> (RsError + nat) \<times> bytes" where
  "rs_decode codeword =
     (let syn = syndromes codeword in
      if list_all (\<lambda>s. s = 0) syn then (Inr 0, codeword)
      else case berlekamp_massey syn of
          Inl e \<Rightarrow> (Inl e, codeword)
        | Inr (sigma, num_errors) \<Rightarrow>
            (case chien_search sigma num_errors of
               Inl e \<Rightarrow> (Inl e, codeword)
             | Inr positions \<Rightarrow>
                 (let magnitudes = forney syn sigma positions num_errors;
                      codeword = correct positions magnitudes num_errors codeword
                  in if list_all (\<lambda>s. s = 0) (syndromes codeword) then (Inr num_errors, codeword)
                     else (Inl TooManyErrors, codeword))))"

section \<open>Interleaving\<close>

definition scatter :: "nat \<Rightarrow> nat \<Rightarrow> bytes \<Rightarrow> bytes \<Rightarrow> bytes" where
  "scatter d i codeword output = fold (\<lambda>j out. out[j * d + i := codeword ! j]) [0..<RS_N] output"

definition gather :: "nat \<Rightarrow> nat \<Rightarrow> nat \<Rightarrow> bytes \<Rightarrow> bytes" where
  "gather n d i data = map (\<lambda>j. data ! (j * d + i)) [0..<n]"

fun encode_columns :: "bytes \<Rightarrow> nat \<Rightarrow> nat list \<Rightarrow> bytes \<Rightarrow> RsError + bytes" where
  "encode_columns data d [] output = Inr output"
| "encode_columns data d (i # is) output =
     (case rs_encode (gather RS_K d i data) (replicate RS_N 0) of
        Inl e \<Rightarrow> Inl e
      | Inr (_, codeword) \<Rightarrow> encode_columns data d is (scatter d i codeword output))"

definition encode_interleaved :: "bytes \<Rightarrow> u8 \<Rightarrow> bytes \<Rightarrow> RsError + nat \<times> bytes" where
  "encode_interleaved data depth output =
     (if depth = 0 \<or> depth > 5 then Inl (InvalidInterleaveDepth depth)
      else
        let d = unat depth; total_data = d * RS_K; total_code = d * RS_N in
        if length data < total_data then Inl (RsBufferTooShort total_data (length data))
        else if length output < total_code then Inl (RsBufferTooShort total_code (length output))
        else map_sum id (Pair total_code) (encode_columns data d [0..<d] output))"

fun decode_columns :: "nat \<Rightarrow> nat list \<Rightarrow> nat \<Rightarrow> bytes \<Rightarrow> (RsError + nat) \<times> bytes" where
  "decode_columns d [] total_corrected data = (Inr total_corrected, data)"
| "decode_columns d (i # is) total_corrected data =
     (case rs_decode (gather RS_N d i data) of
        (Inl e, _) \<Rightarrow> (Inl e, data)
      | (Inr corrected, codeword) \<Rightarrow> decode_columns d is (total_corrected + corrected) (scatter d i codeword data))"

definition decode_interleaved :: "bytes \<Rightarrow> u8 \<Rightarrow> (RsError + nat) \<times> bytes" where
  "decode_interleaved data depth =
     (if depth = 0 \<or> depth > 5 then (Inl (InvalidInterleaveDepth depth), data)
      else
        let d = unat depth; total_code = d * RS_N in
        if length data < total_code then (Inl (RsBufferTooShort total_code (length data)), data)
        else decode_columns d [0..<d] 0 data)"

text \<open>The stages of the coding pipeline.\<close>

definition ReedSolomonEncoder_encode :: "u8 \<Rightarrow> bytes \<Rightarrow> bytes \<Rightarrow> RsError + nat \<times> bytes" where
  "ReedSolomonEncoder_encode interleave_depth data output =
     (if interleave_depth \<le> 1 then rs_encode data output else encode_interleaved data interleave_depth output)"

definition ReedSolomonDecoder_decode :: "u8 \<Rightarrow> bytes \<Rightarrow> (RsError + nat) \<times> bytes" where
  "ReedSolomonDecoder_decode interleave_depth data =
     (if interleave_depth \<le> 1
      then if length data < RS_N then (Inl (RsBufferTooShort RS_N (length data)), data)
           else let (res, codeword) = rs_decode (take RS_N data) in (res, codeword @ drop RS_N data)
      else decode_interleaved data interleave_depth)"

section \<open>In the field\<close>

lemma GF_inj [simp]: "GF a = GF b \<longleftrightarrow> a = b"
  by (simp add: GF_inject)

lemma GF_ops [simp]:
  "GF 0 = 0" "GF 1 = 1" "GF (gf_add a b) = GF a + GF b" "GF (gf_mul a b) = GF a * GF b"
  "GF (gf_inv a) = inverse (GF a)" "GF (gf_div a b) = GF a / GF b"
  by (simp_all add: zero_gf_def one_gf_def plus_gf_def times_gf_def inverse_gf_def divide_gf_def GF_inverse)

lemma GF_zero_iff [simp]: "GF a = 0 \<longleftrightarrow> a = 0"
  using GF_inj [of a 0] unfolding GF_ops .

lemma gf_char_2: "a + a = (0 :: gf)" "- a = (a :: gf)" "a - b = a + (b :: gf)"
proof -
  show z: "a + a = 0" for a :: gf by transfer (simp add: gf_add_def)
  show m: "- a = a" for a :: gf by transfer simp
  show "a - b = a + b" using m by (metis diff_conv_add_uminus)
qed

lemma gf_sum_0_iff: "a + b = 0 \<longleftrightarrow> a = (b :: gf)"
  by (metis add_eq_0_iff gf_char_2(2))

lemma gf_two [simp]: "(2 :: gf) = 0"
  using gf_char_2(1) [of 1] by simp

lemma gf_twice [simp]: "a + (a + b) = (b :: gf)" "a * c + (a * c + b) = b"
  by (metis add.assoc add.left_neutral gf_char_2(1))+

abbreviation A :: gf where "A \<equiv> GF 2"

lemma GF_alpha: "GF (alpha n) = A ^ n"
proof (induction n)
  case (Suc n)
  have "alpha (Suc n) = gf_mul 2 (alpha n)" using gf_mul_alpha [of 1 n] by (simp add: alpha_1)
  then show ?case using Suc by simp
qed simp

lemma GF_exp [simp]: "GF (gf_exp n) = A ^ n"
  by (simp add: gf_exp_alpha GF_alpha)

lemma A_nonzero [simp]: "A \<noteq> 0"
  by simp

lemma A_255: "A ^ 255 = 1"
  using alpha_values(7) GF_alpha [of 255] by simp

lemma A_mod: "A ^ (n mod 255) = A ^ n"
  by (metis GF_alpha alpha_mod)

lemma A_inj: "i < 255 \<Longrightarrow> j < 255 \<Longrightarrow> A ^ i = A ^ j \<longleftrightarrow> i = j"
  using alpha_inj [of i j] by (simp flip: GF_alpha)

definition coef :: "bytes \<Rightarrow> nat \<Rightarrow> gf" where
  "coef xs i = (if i < length xs then GF (xs ! i) else 0)"

lemma poly_eval_asc_sum:
  assumes "xs \<noteq> []"
  shows "GF (poly_eval_asc xs x) = (\<Sum>i<length xs. GF (xs ! i) * GF x ^ i)"
proof -
  have *: "GF (fold (\<lambda>i result. gf_add (gf_mul result x) (xs ! i)) (rev [0..<n]) r) =
      GF r * GF x ^ n + (\<Sum>i<n. GF (xs ! i) * GF x ^ i)" for n r
    by (induction n arbitrary: r) (simp_all add: algebra_simps)
  obtain n where "length xs = Suc n" using assms by (cases xs) auto
  then show ?thesis using assms by (simp add: poly_eval_asc_def * algebra_simps)
qed

text \<open>Horner's rule from the highest coefficient.\<close>

definition horner :: "gf \<Rightarrow> bytes \<Rightarrow> gf" where
  "horner x xs = foldl (\<lambda>r c. r * x + GF c) 0 xs"

lemma horner_foldl: "foldl (\<lambda>r c. r * x + GF c) r xs = r * x ^ length xs + horner x xs"
  unfolding horner_def
proof (induction xs rule: rev_induct)
  case (snoc c xs)
  then show ?case by (simp add: algebra_simps)
qed simp

lemma horner_append: "horner x (xs @ ys) = horner x xs * x ^ length ys + horner x ys"
  using horner_foldl [of x "horner x xs" ys] by (simp add: horner_def)

lemma horner_simps [simp]: "horner x [] = 0" "horner x (c # xs) = GF c * x ^ length xs + horner x xs"
  using horner_append [of x "[c]" xs] by (simp_all add: horner_def)

lemma poly_eval_horner: "GF (poly_eval xs x) = horner (GF x) xs"
proof (cases xs)
  case (Cons p ps)
  have "GF (foldl (\<lambda>r c. gf_add (gf_mul r x) c) a ps) = foldl (\<lambda>r c. r * GF x + GF c) (GF a) ps" for a
    by (induction ps arbitrary: a) simp_all
  then show ?thesis using Cons horner_foldl [of "GF x" "GF p" ps] by simp
qed simp

lemma horner_sum: "horner x xs = (\<Sum>i<length xs. GF (xs ! i) * x ^ (length xs - 1 - i))"
proof (induction xs)
  case (Cons c xs)
  show ?case unfolding length_Cons sum.lessThan_Suc_shift horner_simps Cons.IH by simp
qed simp

lemma length_syndromes [simp]: "length (syndromes cw) = 32"
  by (simp add: syndromes_def RS_PARITY_def RS_N_def RS_K_def)

lemma syndromes_nth: "j < 32 \<Longrightarrow> GF (syndromes cw ! j) = horner (A ^ (112 + j)) cw"
  by (simp add: syndromes_def RS_PARITY_def RS_N_def RS_K_def FCR_def poly_eval_horner)

definition is_codeword :: "bytes \<Rightarrow> bool" where
  "is_codeword cw \<longleftrightarrow> length cw = 255 \<and> (\<forall>j<32. horner (A ^ (112 + j)) cw = 0)"

lemma syndromes_zero_iff: "list_all (\<lambda>s. s = 0) (syndromes cw) \<longleftrightarrow> (\<forall>j<32. horner (A ^ (112 + j)) cw = 0)"
  by (auto simp: list_all_length simp flip: syndromes_nth)

end
