(* ===== verification/Rs_Encode.thy ===== *)
theory Rs_Encode
  imports Reed_Solomon
begin

text \<open>
  What the encoder produces: the generator polynomial has the 32 roots of the code, so that
  dividing by it leaves a codeword.
\<close>

section \<open>The generator\<close>

lemma gf_mul_tables: "a \<noteq> 0 \<Longrightarrow> b \<noteq> 0 \<Longrightarrow> EXP ! ((unat (LOG ! unat a) + unat (LOG ! unat b)) mod 255) = gf_mul a b"
  by (simp add: gf_mul_def gf_exp_def gf_log_def)

lemma EXP_nonzero: "i < 255 \<Longrightarrow> EXP ! i \<noteq> 0"
  by (simp add: EXP_nth alpha_nonzero)

text \<open>One factor, written without the loop.\<close>

lemma gen_multiply_loop:
  assumes "z \<noteq> 0" "len < length g"
  shows "gen_multiply z len g = map (\<lambda>j. if 1 \<le> j \<and> j \<le> len then g ! j XOR gf_mul (g ! (j - 1)) z else g ! j) [0..<length g]"
  using assms(2)
proof (induction len arbitrary: g)
  case 0
  show ?case unfolding gen_multiply_def by (intro nth_equalityI) auto
next
  case (Suc len)
  let ?g = "g[Suc len := g ! Suc len XOR gf_mul (g ! len) z]"
  have s: "(if g ! len \<noteq> 0 then g[Suc len := g ! Suc len XOR EXP ! ((unat (LOG ! unat (g ! len)) + unat (LOG ! unat z)) mod 255)] else g) = ?g"
    using assms(1) by (simp add: gf_mul_tables)
  have "gen_multiply z (Suc len) g = gen_multiply z len ?g"
    by (simp only: gen_multiply_def upt_Suc_append [of 1 "Suc len"] rev_append rev.simps append_Nil append_Cons fold_simps diff_Suc_1 s)
  also have "\<dots> = map (\<lambda>j. if 1 \<le> j \<and> j \<le> len then ?g ! j XOR gf_mul (?g ! (j - 1)) z else ?g ! j) [0..<length g]"
    using Suc.IH [of ?g] Suc.prems by simp
  also have "\<dots> = map (\<lambda>j. if 1 \<le> j \<and> j \<le> Suc len then g ! j XOR gf_mul (g ! (j - 1)) z else g ! j) [0..<length g]"
    using Suc.prems by (intro map_cong refl) (auto simp: nth_list_update)
  finally show ?case .
qed

lemma horner_zeros: "horner x (replicate n 0) = 0"
  by (induction n) simp_all

lemma horner_map2: "length us = length vs \<Longrightarrow> horner x (map2 gf_add us vs) = horner x us + horner x vs"
  by (induction us vs rule: list_induct2) (simp_all add: algebra_simps)

lemma horner_scaled: "horner x (map (gf_mul a) us) = GF a * horner x us"
  by (induction us) (simp_all add: algebra_simps)

lemma gen_factor:
  assumes "z \<noteq> 0" "Suc len \<le> n" "length g = len"
  shows "\<exists>h. gen_multiply z len (g @ replicate (n - len) 0) = h @ replicate (n - Suc len) 0 \<and> length h = Suc len \<and>
    (g \<noteq> [] \<longrightarrow> h ! 0 = g ! 0) \<and> (\<forall>x. horner x h = horner x g * (x + GF z))"
proof -
  let ?h = "map2 gf_add (g @ [0]) (0 # map (gf_mul z) g)"
  have h: "length ?h = Suc len" using assms(3) by simp
  have "gen_multiply z len (g @ replicate (n - len) 0) = ?h @ replicate (n - Suc len) 0"
  proof (rule nth_equalityI)
    show "length (gen_multiply z len (g @ replicate (n - len) 0)) = length (?h @ replicate (n - Suc len) 0)"
      using assms by (simp add: gen_multiply_loop)
    fix j assume "j < length (gen_multiply z len (g @ replicate (n - len) 0))"
    then have j: "j < n" using assms by (simp add: gen_multiply_loop)
    show "gen_multiply z len (g @ replicate (n - len) 0) ! j = (?h @ replicate (n - Suc len) 0) ! j"
      using j assms by (cases j) (auto simp: gen_multiply_loop nth_append gf_add_def gf_mul_commute)
  qed
  moreover have "horner x ?h = horner x g * (x + GF z)" for x
  proof -
    have "horner x ?h = horner x (g @ [0]) + horner x (0 # map (gf_mul z) g)" by (rule horner_map2) simp
    also have "horner x (0 # map (gf_mul z) g) = GF z * horner x g" by (simp add: horner_scaled)
    also have "horner x (g @ [0]) = horner x g * x" by (simp add: horner_append)
    finally show ?thesis by (simp add: algebra_simps)
  qed
  moreover have "g \<noteq> [] \<longrightarrow> ?h ! 0 = g ! 0" by (simp add: nth_append gf_add_def)
  ultimately show ?thesis using h by blast
qed

lemma GENERATOR_roots:
  "length GENERATOR = 33 \<and> GENERATOR ! 0 = 1 \<and> (\<forall>j<32. horner (A ^ (112 + j)) GENERATOR = 0)"
proof -
  let ?step = "\<lambda>i (g, len). (gen_multiply (EXP ! ((FCR + i) mod 255)) len g, len + 1)"
  let ?init = "(replicate 33 (0::u8))[0 := 1]"
  have "\<exists>h. fold ?step [0..<n] (?init, 1) = (h @ replicate (32 - n) 0, n + 1) \<and> length h = Suc n \<and> h ! 0 = 1 \<and>
      (\<forall>j<n. horner (A ^ (112 + j)) h = 0)" if "n \<le> 32" for n
    using that
  proof (induction n)
    case 0
    have "?init = [1] @ replicate 32 0" using replicate_Suc [of 32 "0 :: u8"] by simp
    then show ?case by (intro exI [of _ "[1]"]) simp
  next
    case (Suc n)
    then obtain h where h: "fold ?step [0..<n] (?init, 1) = (h @ replicate (32 - n) 0, n + 1)" "length h = Suc n" "h ! 0 = 1"
      "\<forall>j<n. horner (A ^ (112 + j)) h = 0" by auto
    let ?z = "EXP ! ((FCR + n) mod 255)"
    have z: "?z \<noteq> 0" "GF ?z = A ^ (112 + n)" by (simp_all add: alpha_nonzero EXP_nth GF_alpha A_mod FCR_def)
    obtain k where k: "gen_multiply ?z (Suc n) (h @ replicate (33 - Suc n) 0) = k @ replicate (33 - Suc (Suc n)) 0"
      "length k = Suc (Suc n)" "h \<noteq> [] \<longrightarrow> k ! 0 = h ! 0" "\<forall>x. horner x k = horner x h * (x + GF ?z)"
      using gen_factor [OF z(1), of "Suc n" 33 h] h(2) Suc.prems by auto
    have "horner (A ^ (112 + j)) k = 0" if "j < Suc n" for j
      using k(4) h(4) z(2) that gf_char_2(1) [of "A ^ (112 + n)"] by (cases "j = n") auto
    moreover have "h \<noteq> []" using h(2) by auto
    ultimately show ?case using h k by (intro exI [of _ k]) simp
  qed
  from this [of 32] obtain h where "fold ?step [0..<32] (?init, 1) = (h, 33)" "length h = 33" "h ! 0 = 1"
    "\<forall>j<32. horner (A ^ (112 + j)) h = 0" by auto
  then show ?thesis by (simp add: GENERATOR_def RS_PARITY_def RS_N_def RS_K_def)
qed

section \<open>Systematic encoding\<close>

lemma length_divide_symbol [simp]: "length r = 32 \<Longrightarrow> length (divide_symbol c r) = 32"
  by (simp add: divide_symbol_def RS_PARITY_def RS_N_def RS_K_def Let_def)

text \<open>At a root of the generator one step of the division continues Horner's rule.\<close>

lemma divide_symbol_root:
  assumes r: "length r = 32" and x: "horner x GENERATOR = 0"
  shows "horner x (divide_symbol c r) = horner x r * x + GF c * x ^ 32"
proof -
  obtain r0 rs where rs: "r = r0 # rs" "length rs = 31" using r by (cases r) auto
  obtain g0 gs where G0: "GENERATOR = g0 # gs" using GENERATOR_roots by (cases GENERATOR) auto
  have G: "g0 = 1" "length gs = 32" using GENERATOR_roots unfolding G0 by simp_all
  have g: "horner x gs = x ^ 32" using x G unfolding G0 by (simp add: gf_sum_0_iff)
  let ?f = "gf_add c r0"
  have d: "horner x (divide_symbol c r) = horner x (rs @ [0]) + GF ?f * horner x gs"
  proof (cases "?f = 0")
    case True
    then show ?thesis using rs by (simp add: divide_symbol_def)
  next
    case False
    have l: "i < 32 \<longleftrightarrow> i < 31 \<or> i = 31" for i :: nat by auto
    have "divide_symbol c r = map2 gf_add (rs @ [0]) (map (gf_mul ?f) gs)"
      using False rs G by (intro nth_equalityI)
        (auto simp: l G0 divide_symbol_def RS_PARITY_def RS_N_def RS_K_def nth_append gf_add_def Let_def)
    then show ?thesis using rs G(2) by (simp add: horner_map2 horner_scaled)
  qed
  have "horner x (rs @ [0]) = horner x r * x + GF r0 * x ^ 32" 
  proof -
    have p: "x * (GF r0 * x ^ 31) = GF r0 * x ^ 32"
      using power_Suc [of x 31] by (simp add: ac_simps)
    show ?thesis using rs gf_char_2(1) [of "GF r0 * x ^ 32"] by (simp add: horner_append algebra_simps p)
  qed
  then show ?thesis using d g by (simp add: algebra_simps)
qed

lemma length_division [simp]: "length r = 32 \<Longrightarrow> length (fold divide_symbol cs r) = 32"
  by (induction cs arbitrary: r) simp_all

lemma division:
  assumes "horner x GENERATOR = 0"
  shows "length (fold divide_symbol cs (replicate 32 0)) = 32 \<and> horner x (fold divide_symbol cs (replicate 32 0)) = horner x cs * x ^ 32"
proof (induction cs rule: rev_induct)
  case (snoc c cs)
  then show ?case using divide_symbol_root [OF _ assms, of "fold divide_symbol cs (replicate 32 0)" c]
    by (simp add: horner_append algebra_simps)
qed (simp add: horner_zeros)

definition rs_codeword :: "bytes \<Rightarrow> bytes" where
  "rs_codeword data = (let padded = data @ replicate (223 - length data) 0 in padded @ fold divide_symbol padded (replicate 32 0))"

lemma rs_codeword_is_codeword: "length data \<le> 223 \<Longrightarrow> is_codeword (rs_codeword data)"
proof -
  assume data: "length data \<le> 223"
  let ?p = "data @ replicate (223 - length data) 0"
  have "horner (A ^ (112 + j)) (?p @ fold divide_symbol ?p (replicate 32 0)) = 0" if "j < 32" for j
    using division [of "A ^ (112 + j)" ?p] GENERATOR_roots that by (simp only: horner_append [of _ ?p] gf_char_2(1))
  moreover have "length (fold divide_symbol ?p (replicate 32 0)) = 32" by (rule length_division) simp
  ultimately show ?thesis using data by (simp add: is_codeword_def rs_codeword_def Let_def)
qed

lemma rs_encode_eq:
  "rs_encode data output =
     (if 223 < length data then Inl (RsBufferTooShort 223 (length data))
      else if length output < 255 then Inl (RsBufferTooShort 255 (length output))
      else Inr (255, rs_codeword data @ drop 255 output))"
proof (cases "length data \<le> 223 \<and> 255 \<le> length output")
  case True
  let ?p = "data @ replicate (223 - length data) 0"
  let ?cw = "blit (replicate 255 0) 0 data"
  have cw: "?cw = ?p @ replicate 32 0" using True by (simp add: blit_def flip: replicate_add)
  have "fold (\<lambda>i r. divide_symbol (?cw ! i) r) [0..<223] (replicate 32 0) = fold divide_symbol (map (\<lambda>i. ?cw ! i) [0..<223]) (replicate 32 0)"
    by (simp add: fold_map comp_def)
  moreover have "map (\<lambda>i. ?cw ! i) [0..<223] = ?p" using True by (intro nth_equalityI) (auto simp: cw nth_append)
  moreover have "take 223 ?cw = ?p" using True by (simp add: cw)
  moreover have "length (fold divide_symbol ?p (replicate 32 0)) = 32" by (rule length_division) simp
  ultimately show ?thesis using True
    by (simp add: rs_encode_def RS_N_def RS_K_def RS_PARITY_def rs_codeword_def Let_def blit_def)
qed (auto simp: rs_encode_def RS_N_def RS_K_def)

end
