(* ===== verification/Rs_Decode.thy ===== *)
theory Rs_Decode
  imports Rs_Encode
begin

text \<open>
  The Reed-Solomon decoder corrects: whatever 16 symbols of a codeword the channel changes, the
  recurrence that Berlekamp and Massey's algorithm finds is the error locator, Chien's search
  finds exactly the changed positions, Forney's formula their changes.
\<close>

section \<open>Syndromes of a received word\<close>

definition errors :: "bytes \<Rightarrow> bytes \<Rightarrow> nat set" where
  "errors c r = {p. p < 255 \<and> c ! p \<noteq> r ! p}"

definition locator :: "nat \<Rightarrow> gf" where
  "locator p = A ^ (254 - p)"

definition change :: "bytes \<Rightarrow> bytes \<Rightarrow> nat \<Rightarrow> gf" where
  "change c r p = GF (c ! p) + GF (r ! p)"

definition syndrome_seq :: "bytes \<Rightarrow> bytes \<Rightarrow> nat \<Rightarrow> gf" where
  "syndrome_seq c r = power_sums (\<lambda>p. change c r p * locator p ^ 112) locator (errors c r)"

lemma finite_errors [simp]: "finite (errors c r)"
  by (simp add: errors_def)

lemma locator_nonzero [simp]: "locator p \<noteq> 0"
  by (simp add: locator_def)

lemma locator_inj: "inj_on locator (errors c r)"
  by (rule inj_onI) (auto simp: locator_def errors_def A_inj)

lemma change_nonzero: "p \<in> errors c r \<Longrightarrow> change c r p \<noteq> 0"
  by (auto simp: errors_def change_def gf_sum_0_iff)

lemma inverse_locator: "p < 255 \<Longrightarrow> inverse (locator p) = A ^ (p + 1)"
proof -
  assume "p < 255"
  then have "A ^ (p + 1) * locator p = 1" using A_255 by (simp only: locator_def flip: power_add) simp
  then show ?thesis by (metis inverse_unique mult.commute)
qed

lemma syndrome_power_sums:
  assumes c: "is_codeword c" and r: "length r = 255" and j: "j < 32"
  shows "GF (syndromes r ! j) = syndrome_seq c r j"
proof -
  let ?y = "A ^ (112 + j)"
  have y: "?y ^ (254 - i) = locator i ^ 112 * locator i ^ j" for i
    by (simp only: locator_def add_mult_distrib mult.commute [of "254 - i"] flip: power_mult power_add)
  have "GF (syndromes r ! j) = horner ?y c + horner ?y r" using c j by (simp add: is_codeword_def syndromes_nth)
  also have "\<dots> = (\<Sum>i<255. change c r i * ?y ^ (254 - i))"
    using c r by (simp add: is_codeword_def horner_sum change_def sum.distrib algebra_simps)
  also have "\<dots> = (\<Sum>i\<in>errors c r. change c r i * ?y ^ (254 - i))"
    by (rule sum.mono_neutral_right) (auto simp: errors_def change_def gf_char_2)
  finally show ?thesis by (simp add: syndrome_seq_def power_sums_def y mult.assoc)
qed

section \<open>Berlekamp and Massey's algorithm\<close>

lemma GF_fold: "GF (fold (\<lambda>i d. gf_add d (f i)) is d) = GF d + (\<Sum>i\<leftarrow>is. GF (f i))"
  by (induction "is" arbitrary: d) (simp_all add: algebra_simps)

lemma discrepancy_conv:
  assumes syn: "\<And>j. j < 32 \<Longrightarrow> GF (syn ! j) = s j" and n: "n < 32" and l: "l \<le> n"
    and c: "coef sigma 0 = 1" "deg_le (coef sigma) l" and len: "length sigma = 33"
  shows "GF (discrepancy syn sigma l n) = conv s (coef sigma) n"
proof -
  have "GF (discrepancy syn sigma l n) = s n + (\<Sum>i\<leftarrow>[1..<Suc l]. coef sigma i * s (n - i))"
    unfolding discrepancy_def GF_fold using n l len
    by (intro arg_cong2 [where f = plus] arg_cong [where f = sum_list] map_cong refl) (auto simp: syn coef_def)
  also have "\<dots> = (\<Sum>i\<le>l. coef sigma i * s (n - i))"
  proof -
    have "set [1..<Suc l] = {Suc 0..l}" by auto
    then show ?thesis using c(1)
      by (simp only: sum_list_distinct_conv_sum_set distinct_upt atMost_atLeast0 sum.atLeast_Suc_atMost [of 0 l]) simp
  qed
  also have "\<dots> = conv s (coef sigma) n" using conv_bounded [OF c(2) l] by simp
  finally show ?thesis .
qed

lemma coef_shift: "length b = 33 \<Longrightarrow> coef b 32 = 0 \<Longrightarrow> coef (0 # butlast b) = shift_poly (coef b)"
proof
  fix i assume b: "length b = 33" "coef b 32 = 0"
  show "coef (0 # butlast b) i = shift_poly (coef b) i"
  proof (cases i)
    case (Suc k)
    have "k < 33 \<longleftrightarrow> k < 32 \<or> k = 32" by auto
    then show ?thesis using b Suc by (auto simp: coef_def nth_butlast)
  qed (simp add: coef_def)
qed

lemma coef_scale: "coef (map (gf_mul a) b) = (\<lambda>i. GF a * coef b i)" "coef (map (\<lambda>c. gf_mul c a) b) = (\<lambda>i. coef b i * GF a)"
  by (auto simp: coef_def)

lemma coef_add: "length b = length c \<Longrightarrow> coef (map2 gf_add b c) = (\<lambda>i. coef b i + coef c i)"
  by (auto simp: coef_def)

definition bm_state :: "(nat \<Rightarrow> gf) \<Rightarrow> nat \<Rightarrow> nat \<Rightarrow> bytes \<times> bytes \<times> nat \<Rightarrow> bool" where
  "bm_state s v n = (\<lambda>(sigma, old, l). length sigma = 33 \<and> length old = 33 \<and> bm_inv s v n (coef sigma) (coef old) l)"

lemma bm_step_state:
  assumes syn: "\<And>j. j < 32 \<Longrightarrow> GF (syn ! j) = s j" and n: "n < 32"
    and st: "bm_state s v n st" and c': "generates s c' v (Suc n)"
  shows "bm_state s v (Suc n) (bm_step syn n st)"
proof -
  obtain sigma old l where st': "st = (sigma, old, l)" by (cases st)
  then have len: "length sigma = 33" "length old = 33" and inv: "bm_inv s v n (coef sigma) (coef old) l"
    using st by (simp_all add: bm_state_def)
  let ?delta = "discrepancy syn sigma l n"
  have delta: "GF ?delta = conv s (coef sigma) n"
    using inv n len by (intro discrepancy_conv) (auto simp: syn bm_inv_def generates_def)
  have "deg_le (coef old) (n - l)" using inv by (simp add: bm_inv_def)
  then have old: "coef (0 # butlast old) = shift_poly (coef old)" using n len by (intro coef_shift) (auto simp: deg_le_def)
  have sum: "coef (map2 gf_add sigma (map (gf_mul ?delta) (0 # butlast old))) =
      (\<lambda>i. coef sigma i - conv s (coef sigma) n * shift_poly (coef old) i)"
    using len old delta coef_scale(1) [of ?delta "0 # butlast old"]
    by (subst coef_add) (simp_all add: gf_char_2(3))
  show ?thesis
  proof (cases "?delta = 0")
    case True
    then have "conv s (coef sigma) n = 0" using delta by simp
    then have "bm_inv s v (Suc n) (coef sigma) (coef (0 # butlast old)) l" using bm_same [OF inv] old by simp
    then show ?thesis using True len by (simp add: st' bm_step_def bm_state_def Let_def)
  next
    case False
    then have d: "conv s (coef sigma) n \<noteq> 0" using delta by (metis GF_zero_iff)
    show ?thesis
    proof (cases "2 * l \<le> n")
      case True
      have "bm_inv s v (Suc n) (coef (map2 gf_add sigma (map (gf_mul ?delta) (0 # butlast old))))
          (coef (map (\<lambda>c. gf_mul c (gf_inv ?delta)) sigma)) (Suc n - l)"
        using bm_lengthen [OF inv True d c'] unfolding sum coef_scale(2) GF_ops delta .
      then show ?thesis using True False len
        by (simp add: st' bm_step_def bm_state_def Let_def)
    next
      case long: False
      have "bm_inv s v (Suc n) (coef (map2 gf_add sigma (map (gf_mul ?delta) (0 # butlast old)))) (coef (0 # butlast old)) l"
        using bm_adjust [OF inv long] unfolding sum old .
      then show ?thesis using long False len
        by (simp add: st' bm_step_def bm_state_def Let_def)
    qed
  qed
qed

lemma coef_one: "coef ((replicate 33 0)[0 := 1]) = (\<lambda>i. if i = 0 then 1 else 0)"
  by (auto simp: coef_def nth_list_update)

lemma berlekamp_massey_locates:
  assumes syn: "\<And>j. j < 32 \<Longrightarrow> GF (syn ! j) = s j" and v: "v \<le> 16" and c': "\<And>n. generates s c' v n"
  shows "\<exists>sigma l. berlekamp_massey syn = Inr (sigma, l) \<and> length sigma = 33 \<and> l \<le> v \<and> generates s (coef sigma) l 32"
proof -
  let ?one = "(replicate 33 (0 :: u8))[0 := 1]"
  have "bm_state s v n (fold (bm_step syn) [0..<n] (?one, ?one, 0))" if "n \<le> 32" for n
    using that
  proof (induction n)
    case 0
    have "deg_le (coef ?one) 0" by (simp add: coef_one deg_le_def)
    then show ?case by (simp add: bm_state_def bm_inv_def generates_def coef_one)
  next
    case (Suc n)
    then show ?case using bm_step_state [OF syn _ _ c', of n] by simp
  qed
  from this [of 32] obtain sigma old l where f: "fold (bm_step syn) [0..<32] (?one, ?one, 0) = (sigma, old, l)"
    "bm_state s v 32 (sigma, old, l)" by (metis order_refl prod_cases3)
  then have "berlekamp_massey syn = Inr (sigma, l)"
    using v by (simp add: berlekamp_massey_def RS_PARITY_def RS_N_def RS_K_def RS_T_def bm_state_def bm_inv_def Let_def)
  then show ?thesis using f(2) by (auto simp: bm_state_def bm_inv_def)
qed

section \<open>Chien's search\<close>

lemma chien_loop_finds:
  assumes "found + length (filter (\<lambda>m. poly_eval_asc (take (k + 1) sigma) (gf_exp m) = 0) ms) = k" "k \<le> length ps"
  shows "\<exists>qs. chien_loop sigma k ms (found, ps) = (k, qs) \<and> length qs = length ps \<and>
    take k qs = take found ps @ map (\<lambda>m. of_nat ((m + 254) mod 255)) (filter (\<lambda>m. poly_eval_asc (take (k + 1) sigma) (gf_exp m) = 0) ms)"
  using assms
proof (induction ms arbitrary: found ps)
  case (Cons m ms)
  show ?case
  proof (cases "poly_eval_asc (take (k + 1) sigma) (gf_exp m) = 0")
    case False
    then show ?thesis using Cons by simp
  next
    case True
    let ?ps = "ps[found := of_nat ((m + 254) mod 255)]"
    have f: "found + 1 + length (filter (\<lambda>m. poly_eval_asc (take (k + 1) sigma) (gf_exp m) = 0) ms) = k" "found < length ps"
      using Cons.prems True by simp_all
    have t: "take (found + 1) ?ps = take found ps @ [of_nat ((m + 254) mod 255)]"
      using f(2) by (simp add: take_Suc_conv_app_nth)
    show ?thesis
    proof (cases "found + 1 = k")
      case True
      then have "filter (\<lambda>m. poly_eval_asc (take (k + 1) sigma) (gf_exp m) = 0) ms = []" using f(1) by simp
      then show ?thesis using \<open>poly_eval_asc _ _ = 0\<close> True t by (simp add: RS_N_def add.commute)
    next
      case False
      obtain qs where "chien_loop sigma k ms (found + 1, ?ps) = (k, qs)" "length qs = length ps"
        "take k qs = take (found + 1) ?ps @ map (\<lambda>m. of_nat ((m + 254) mod 255)) (filter (\<lambda>m. poly_eval_asc (take (k + 1) sigma) (gf_exp m) = 0) ms)"
        using Cons.IH [of "found + 1" ?ps] f Cons.prems(2) by auto
      then show ?thesis using \<open>poly_eval_asc _ _ = 0\<close> False t by (simp add: RS_N_def add.commute)
    qed
  qed
qed simp

lemma rotated_positions:
  assumes "E \<subseteq> {p. p < 255}"
  shows "distinct (map (\<lambda>m. (m + 254) mod 255) (filter (\<lambda>m. (m + 254) mod 255 \<in> E) [0..<255])) \<and>
    set (map (\<lambda>m. (m + 254) mod 255) (filter (\<lambda>m. (m + 254) mod 255 \<in> E) [0..<255])) = E"
proof
  have m: "(m + 254) mod 255 = (if m = 0 then 254 else m - 1)" if "m < 255" for m :: nat
    using that by (auto simp: mod_if)
  show "distinct (map (\<lambda>m. (m + 254) mod 255) (filter (\<lambda>m. (m + 254) mod 255 \<in> E) [0..<255]))"
    by (auto simp: distinct_map inj_on_def m split: if_splits)
  show "set (map (\<lambda>m. (m + 254) mod 255) (filter (\<lambda>m. (m + 254) mod 255 \<in> E) [0..<255])) = E" (is "?S = E")
  proof
    show "E \<subseteq> ?S"
    proof
      fix p assume p: "p \<in> E"
      then have "((p + 1) mod 255 + 254) mod 255 = p" using assms by (auto simp: mod_simps)
      then show "p \<in> ?S" using p by (force intro!: image_eqI [of _ _ "(p + 1) mod 255"])
    qed
  qed auto
qed

lemma chien_search_finds:
  assumes E: "E \<subseteq> {p. p < 255}" "card E = v" "v \<le> 16" and len: "length sigma = 33"
    and roots: "\<And>x. (\<Sum>i\<le>v. coef sigma i * x ^ i) = 0 \<longleftrightarrow> x \<in> (\<lambda>p. inverse (locator p)) ` E"
  shows "\<exists>ps qs. chien_search sigma v = Inr ps \<and> length ps = 16 \<and> take v ps = map of_nat qs \<and> distinct qs \<and> set qs = E"
proof -
  have ev: "poly_eval_asc (take (v + 1) sigma) (gf_exp m) = 0 \<longleftrightarrow> (m + 254) mod 255 \<in> E" if m: "m < 255" for m
  proof -
    have "GF (poly_eval_asc (take (v + 1) sigma) (gf_exp m)) = (\<Sum>i\<le>v. coef sigma i * (A ^ m) ^ i)"
      using len E(3) by (subst poly_eval_asc_sum) (auto simp: coef_def lessThan_Suc_atMost intro!: sum.cong)
    then have "poly_eval_asc (take (v + 1) sigma) (gf_exp m) = 0 \<longleftrightarrow> A ^ m \<in> (\<lambda>p. inverse (locator p)) ` E"
      using roots by (metis GF_zero_iff)
    also have "\<dots> \<longleftrightarrow> (\<exists>p\<in>E. A ^ m = A ^ (p + 1))" using E(1) by (auto simp: image_iff inverse_locator subset_iff simp del: power_Suc)
    also have "\<dots> \<longleftrightarrow> (\<exists>p\<in>E. m = (p + 1) mod 255)"
      using A_inj [OF m, of "(_ + 1) mod 255"] A_mod by (metis mod_less_divisor zero_less_numeral)
    also have "\<dots> \<longleftrightarrow> (m + 254) mod 255 \<in> E"
    proof -
      have "m = (p + 1) mod 255 \<longleftrightarrow> (m + 254) mod 255 = p" if "p \<in> E" for p
      proof -
        have "p < 255" using that E(1) by auto
        then show ?thesis using m by (auto simp: mod_if split: if_splits)
      qed
      then show ?thesis by auto
    qed
    finally show ?thesis .
  qed
  let ?ms = "filter (\<lambda>m. (m + 254) mod 255 \<in> E) [0..<255]"
  have f: "filter (\<lambda>m. poly_eval_asc (take (v + 1) sigma) (gf_exp m) = 0) [0..<255] = ?ms"
    by (rule filter_cong [OF refl]) (use ev in simp)
  let ?qs = "map (\<lambda>m. (m + 254) mod 255) ?ms"
  have q: "distinct ?qs" "set ?qs = E" using rotated_positions [OF E(1)] by simp_all
  have "length ?ms = card (set ?qs)" using distinct_card [OF q(1)] by (simp only: length_map)
  then have "0 + length (filter (\<lambda>m. poly_eval_asc (take (v + 1) sigma) (gf_exp m) = 0) [0..<255]) = v"
    using E(2) q(2) f by simp
  from chien_loop_finds [OF this, of "replicate 16 0"] obtain ps where
    "chien_loop sigma v [0..<255] (0, replicate 16 0) = (v, ps)" "length ps = 16" "take v ps = map of_nat ?qs"
    using E(3) f by (auto simp: comp_def)
  then show ?thesis using q by (intro exI [of _ ps] exI [of _ ?qs])
    (simp add: chien_search_def RS_N_def RS_T_def RS_PARITY_def RS_K_def)
qed

end
