(* ===== verification/Rs_Correct.thy ===== *)
theory Rs_Correct
  imports Rs_Decode
begin

text \<open>
  The promises of the Reed-Solomon code: up to 16 changed symbols of a codeword are corrected,
  no word is accepted that is not within 16 symbols of a codeword, and with interleaving bursts
  are corrected.
\<close>

section \<open>Forney's algorithm\<close>

lemma forney_omega_conv:
  assumes syn: "\<And>j. j < 32 \<Longrightarrow> GF (syn ! j) = s j" and len: "length sigma = 33" and deg: "deg_le (coef sigma) v"
    and i: "i < 32"
  shows "GF (forney_omega syn sigma v ! i) = conv s (coef sigma) i"
proof -
  have "GF (forney_omega syn sigma v ! i) = (\<Sum>j\<leftarrow>[0..<Suc (min i v)]. GF (gf_mul (sigma ! j) (syn ! (i - j))))"
    using i by (simp add: forney_omega_def RS_PARITY_def RS_N_def RS_K_def GF_fold del: upt_Suc)
  also have "\<dots> = (\<Sum>j\<leftarrow>[0..<Suc (min i v)]. coef sigma j * s (i - j))"
    using i len by (intro arg_cong [where f = sum_list] map_cong refl) (auto simp: syn coef_def)
  also have "\<dots> = (\<Sum>j\<le>min i v. coef sigma j * s (i - j))"
  proof -
    have "set [0..<Suc (min i v)] = {..min i v}" by auto
    then show ?thesis by (simp only: sum_list_distinct_conv_sum_set distinct_upt)
  qed
  also have "\<dots> = conv s (coef sigma) i"
    unfolding conv_def using deg by (intro sum.mono_neutral_left) (auto simp: deg_le_def)
  finally show ?thesis .
qed

lemma forney_deriv_nth:
  assumes v: "v \<le> 32" and i: "i < 32" and len: "length sigma = 33"
  shows "GF (forney_deriv sigma v ! i) = (if even i \<and> i < v then coef sigma (i + 1) else 0)"
proof -
  let ?js = "filter odd [1..<Suc v]"
  have f: "(\<forall>j\<in>set ?js. forney_deriv sigma v ! (j - 1) = sigma ! j) \<and>
      (\<forall>k. k \<notin> (\<lambda>j. j - 1) ` set ?js \<longrightarrow> forney_deriv sigma v ! k = replicate 32 0 ! k)"
  proof -
    have d: "distinct (map (\<lambda>j. j - 1) ?js)" by (auto simp: distinct_map intro!: inj_onI)
    have l: "\<forall>j\<in>set ?js. j - 1 < length (replicate 32 (0 :: u8))" using v by auto
    have e: "forney_deriv sigma v = fold (\<lambda>j t. t[j - 1 := sigma ! j]) ?js (replicate 32 0)"
      by (simp add: forney_deriv_def RS_PARITY_def RS_N_def RS_K_def)
    show ?thesis unfolding e using fold_update_nth [OF d l, of "\<lambda>j. sigma ! j"] by blast
  qed
  show ?thesis
  proof (cases "even i \<and> i < v")
    case True
    then have "i + 1 \<in> set ?js" by (simp del: upt_Suc)
    then have "forney_deriv sigma v ! (i + 1 - 1) = sigma ! (i + 1)" by (rule bspec [OF conjunct1 [OF f]])
    then show ?thesis using True v len by (simp add: coef_def)
  next
    case False
    have "i \<notin> (\<lambda>j. j - 1) ` set ?js"
    proof
      assume "i \<in> (\<lambda>j. j - 1) ` set ?js"
      then obtain j where "i = j - 1" "odd j" "1 \<le> j" "j \<le> v" by auto
      then have "even i \<and> i < v" by (cases j) auto
      then show False using False by simp
    qed
    then have "forney_deriv sigma v ! i = replicate 32 0 ! i" using conjunct2 [OF f] by blast
    then show ?thesis using i False by (simp only: if_False nth_replicate GF_ops)
  qed
qed

lemma gf_of_nat: "(of_nat n :: gf) = (if odd n then 1 else 0)"
proof (induction n)
  case (Suc n)
  then show ?case using gf_char_2(1) [of 1] by simp
qed simp

text \<open>In characteristic 2 the formal derivative has the odd coefficients only.\<close>

lemma forney_deriv_sum:
  assumes "v \<le> 32" "length sigma = 33" "length (forney_deriv sigma v) = 32"
  shows "y * (\<Sum>i<v. GF (forney_deriv sigma v ! i) * y ^ i) = (\<Sum>j\<le>v. of_nat j * coef sigma j * y ^ j)"
proof -
  have "(\<Sum>j\<le>v. of_nat j * coef sigma j * y ^ j) = (\<Sum>i<v. of_nat (Suc i) * coef sigma (Suc i) * y ^ Suc i)"
    by (subst sum.atMost_shift) simp
  also have "\<dots> = (\<Sum>i<v. y * (GF (forney_deriv sigma v ! i) * y ^ i))"
    using assms by (intro sum.cong refl) (simp add: forney_deriv_nth gf_of_nat del: of_nat_Suc)
  finally show ?thesis by (simp add: sum_distrib_left)
qed

lemma length_forney_deriv [simp]: "length (forney_deriv sigma v) = 32"
proof -
  have "length (fold (\<lambda>i d. d[i - 1 := sigma ! i]) is d) = length d" for "is" and d :: bytes
    by (induction "is" arbitrary: d) simp_all
  then show ?thesis by (simp add: forney_deriv_def RS_PARITY_def RS_N_def RS_K_def)
qed

lemma fold_fill:
  assumes "k < v" "v \<le> m"
  shows "fold (\<lambda>i t. t[i := f i]) [0..<v] (replicate m a) ! k = f k"
proof -
  have "distinct (map (\<lambda>i. i) [0..<v])" "\<forall>i\<in>set [0..<v]. i < length (replicate m a)" using assms(2) by auto
  from fold_update_nth [OF this, of f] show ?thesis using assms(1) by auto
qed

lemma forney_changes:
  assumes c: "is_codeword c" and r: "length r = 255" and v: "card (errors c r) = v" "v \<le> 16"
    and len: "length sigma = 33" and gen: "generates (syndrome_seq c r) (coef sigma) v 32"
    and roots: "\<And>x. x \<in> (\<lambda>p. inverse (locator p)) ` errors c r \<Longrightarrow> (\<Sum>i\<le>v. coef sigma i * x ^ i) = 0"
    and ps: "length ps = 16" "take v ps = map of_nat qs" "set qs = errors c r" "k < v"
  shows "GF (forney (syndromes r) sigma ps v ! k) = change c r (qs ! k)"
proof -
  let ?s = "syndrome_seq c r"
  let ?q = "qs ! k"
  let ?y = "inverse (locator ?q)"
  have lq: "length qs = v" using arg_cong [OF ps(2), of length] ps(1) v(2) by simp
  then have q: "?q \<in> errors c r" using ps(4) nth_mem [of k qs] unfolding ps(3) by (simp only:)
  then have q255: "?q < 255" by (simp add: errors_def)
  have "ps ! k = of_nat ?q" using ps lq by (metis nth_map nth_take)
  then have pos: "unat (ps ! k) = ?q" using q255 by (simp add: unat_of_nat)
  have xlog: "(255 - 1 - ?q) mod 255 = 254 - ?q" by simp
  have xinv: "A ^ ((255 - (254 - ?q)) mod 255) = ?y"
  proof -
    have "255 - (254 - ?q) = ?q + 1" using q255 by simp
    then show ?thesis using inverse_locator [OF q255] by (simp only: A_mod)
  qed
  have deg: "deg_le (coef sigma) v" "coef sigma 0 = 1" using gen by (simp_all add: generates_def)
  define omega where "omega = poly_eval_asc (take 32 (forney_omega (syndromes r) sigma v)) (gf_exp ((255 - (254 - ?q)) mod 255))"
  define deriv where "deriv = poly_eval_asc (take v (forney_deriv sigma v)) (gf_exp ((255 - (254 - ?q)) mod 255))"
  have deriv: "GF deriv = (\<Sum>i<v. GF (forney_deriv sigma v ! i) * ?y ^ i)"
  proof -
    have "length (take v (forney_deriv sigma v)) = v" using v(2) by simp
    moreover from this have "take v (forney_deriv sigma v) \<noteq> []" using ps(4) by (metis list.size(3) not_less0)
    ultimately show ?thesis unfolding deriv_def by (subst poly_eval_asc_sum) (auto simp: xinv)
  qed
  have "GF omega = (\<Sum>i<32. conv ?s (coef sigma) i * ?y ^ i)"
  proof -
    have l: "length (forney_omega (syndromes r) sigma v) = 32" by (simp add: forney_omega_def RS_PARITY_def RS_N_def RS_K_def)
    then have "forney_omega (syndromes r) sigma v \<noteq> []" by auto
    then show ?thesis unfolding omega_def using l
      by (subst poly_eval_asc_sum)
        (auto simp: xinv intro!: sum.cong forney_omega_conv [OF syndrome_power_sums [OF c r] len deg(1)])
  qed
  also have "\<dots> = (\<Sum>i<card (errors c r). conv ?s (coef sigma) i * ?y ^ i)"
    using v gen by (intro sum.mono_neutral_right) (auto simp: generates_def)
  also have "\<dots> = change c r ?q * locator ?q ^ 112 * - (\<Sum>j\<le>card (errors c r). of_nat j * coef sigma j * ?y ^ j)"
    unfolding syndrome_seq_def
    by (rule forney_formula(1) [where E = "errors c r" and X = locator and c = "coef sigma", OF finite_errors locator_nonzero locator_inj q deg(2)])
      (use v deg roots in auto)
  also have "\<dots> = change c r ?q * locator ?q ^ 112 * (?y * GF deriv)"
    using forney_deriv_sum [of v sigma ?y] v len by (simp only: gf_char_2(2) deriv) simp
  finally have omega: "GF omega = change c r ?q * locator ?q ^ 112 * (?y * GF deriv)" .
  have "?y * GF deriv \<noteq> 0"
  proof -
    have "(\<Sum>j\<le>card (errors c r). of_nat j * coef sigma j * ?y ^ j) \<noteq> 0"
      by (rule forney_formula(2) [where E = "errors c r" and X = locator and c = "coef sigma", OF finite_errors locator_nonzero locator_inj q deg(2)])
      (use v deg roots in auto)
    then show ?thesis using forney_deriv_sum [of v sigma ?y] v len deriv by simp
  qed
  then have "GF omega / GF deriv = change c r ?q * (locator ?q ^ 112 * ?y)" unfolding omega by simp
  moreover have "GF (gf_exp (((254 - ?q) * 144) mod 255)) = locator ?q ^ 144"
    by (simp only: GF_exp A_mod locator_def flip: power_mult)
  moreover have "locator ?q ^ 144 * (locator ?q ^ 112 * ?y) = 1"
  proof -
    have "locator ?q ^ 255 = 1"
      unfolding locator_def by (metis A_255 mult.commute power_mult power_one)
    moreover have "locator ?q ^ 144 * (locator ?q ^ 112 * ?y) = locator ?q ^ 255 * (locator ?q * ?y)"
      by (simp add: mult.assoc flip: power_add power_Suc2) (simp add: eval_nat_numeral)
    ultimately show ?thesis by simp
  qed
  ultimately have mag: "GF (gf_mul (gf_exp (((254 - ?q) * 144) mod 255)) (gf_div omega deriv)) = change c r ?q"
    by (simp only: GF_ops) (simp add: ac_simps)
  have "forney (syndromes r) sigma ps v ! k = gf_mul (gf_exp (((254 - ?q) * 144) mod 255)) (gf_div omega deriv)"
    using ps(4) v(2)
    by (simp add: fold_fill forney_def Let_def RS_PARITY_def RS_N_def RS_K_def RS_T_def FCR_def pos omega_def deriv_def)
  then show ?thesis using mag by simp
qed

section \<open>Correction\<close>

lemma correct_nth:
  assumes "distinct qs" "length qs \<le> length ps" "\<And>k. k < length qs \<Longrightarrow> unat (ps ! k) = qs ! k" "set qs \<subseteq> {p. p < length r}"
  shows "length (correct ps ms (length qs) r) = length r \<and>
    (\<forall>k<length qs. correct ps ms (length qs) r ! (qs ! k) = gf_add (r ! (qs ! k)) (ms ! k)) \<and>
    (\<forall>i. i \<notin> set qs \<longrightarrow> correct ps ms (length qs) r ! i = r ! i)"
proof -
  let ?f = "\<lambda>n. fold (\<lambda>i cw. cw[unat (ps ! i) := gf_add (cw ! unat (ps ! i)) (ms ! i)]) [0..<n] r"
  have "length (?f n) = length r \<and> (\<forall>k<n. ?f n ! (qs ! k) = gf_add (r ! (qs ! k)) (ms ! k)) \<and>
      (\<forall>i. i \<notin> set (take n qs) \<longrightarrow> ?f n ! i = r ! i)" if "n \<le> length qs" for n
    using that
  proof (induction n)
    case (Suc n)
    then have n: "n < length qs" and IH: "length (?f n) = length r" "\<forall>k<n. ?f n ! (qs ! k) = gf_add (r ! (qs ! k)) (ms ! k)"
      "\<forall>i. i \<notin> set (take n qs) \<longrightarrow> ?f n ! i = r ! i" by simp_all
    have s: "?f (Suc n) = (?f n)[qs ! n := gf_add (?f n ! (qs ! n)) (ms ! n)]" using assms(3) [OF n] by simp
    have "qs ! n \<notin> set (take n qs)" using assms(1) n by (auto simp: in_set_conv_nth nth_eq_iff_index_eq)
    then have v: "?f n ! (qs ! n) = r ! (qs ! n)" using IH(3) by blast
    have l: "qs ! n < length r" using subsetD [OF assms(4) nth_mem [OF n]] by simp
    have d: "qs ! n \<noteq> qs ! k" if "k < n" for k using that assms(1) n by (simp add: nth_eq_iff_index_eq)
    have "?f (Suc n) ! (qs ! k) = gf_add (r ! (qs ! k)) (ms ! k)" if "k < Suc n" for k
      unfolding s v using that IH(1,2) l d by (cases "k = n") (auto simp: less_Suc_eq)
    moreover have "?f (Suc n) ! i = r ! i" if "i \<notin> set (take (Suc n) qs)" for i
      using that IH(3) n unfolding s by (auto simp: take_Suc_conv_app_nth)
    ultimately show ?case using IH(1) unfolding s by simp
  qed simp
  from this [of "length qs"] show ?thesis by (simp add: correct_def)
qed

lemma rs_decode_corrects:
  assumes c: "is_codeword c" and r: "length r = 255" and v: "card (errors c r) \<le> 16"
  shows "rs_decode r = (Inr (card (errors c r)), c)"
proof -
  let ?v = "card (errors c r)" and ?s = "syndrome_seq c r"
  have lc: "length c = 255" and c0: "list_all (\<lambda>s. s = 0) (syndromes c)"
    using c by (simp_all add: is_codeword_def syndromes_zero_iff)
  note syn = syndrome_power_sums [OF c r]
  have same: "r = c" if "errors c r = {}"
    using that lc r by (intro nth_equalityI) (auto simp: errors_def)
  show ?thesis
  proof (cases "list_all (\<lambda>s. s = 0) (syndromes r)")
    case True
    have "\<forall>p\<in>errors c r. change c r p * locator p ^ 112 = 0"
    proof (rule powers_independent [OF finite_errors locator_inj])
      fix j assume "j < ?v"
      then have "?s j = 0" using True v syn [of j] by (auto simp: list_all_length)
      then show "(\<Sum>p\<in>errors c r. change c r p * locator p ^ 112 * locator p ^ j) = 0"
        by (simp add: syndrome_seq_def power_sums_def)
    qed
    then have "errors c r = {}" using change_nonzero by fastforce
    then show ?thesis using True same by (simp add: rs_decode_def)
  next
    case False
    obtain lam where lam: "\<And>n. generates ?s lam ?v n"
      using locator_generates [of "errors c r" locator] unfolding syndrome_seq_def by auto
    obtain sigma l where bm: "berlekamp_massey (syndromes r) = Inr (sigma, l)" "length sigma = 33" "l \<le> ?v"
      "generates ?s (coef sigma) l 32"
      using berlekamp_massey_locates [OF syn v lam] by blast
    have loc: "l = ?v" "\<And>x. (\<Sum>i\<le>?v. coef sigma i * x ^ i) = 0 \<longleftrightarrow> x \<in> (\<lambda>p. inverse (locator p)) ` errors c r"
    proof -
      have "l = ?v \<and> (\<forall>x. (\<Sum>i\<le>l. coef sigma i * x ^ i) = 0 \<longleftrightarrow> x \<in> (\<lambda>p. inverse (locator p)) ` errors c r)"
        by (rule recurrence_locates [OF finite_errors locator_nonzero locator_inj _ bm(4) [unfolded syndrome_seq_def]])
          (use bm(3) v change_nonzero in auto)
      then show "l = ?v" "(\<Sum>i\<le>?v. coef sigma i * x ^ i) = 0 \<longleftrightarrow> x \<in> (\<lambda>p. inverse (locator p)) ` errors c r" for x
        by (auto simp only:)
    qed
    obtain ps qs where ch: "chien_search sigma ?v = Inr ps" "length ps = 16" "take ?v ps = map of_nat qs" "distinct qs"
      "set qs = errors c r"
      using chien_search_finds [OF _ refl v bm(2) loc(2)] by (auto simp: errors_def)
    have lq: "length qs = ?v" using arg_cong [OF ch(3), of length] ch(2) v by simp
    let ?ms = "forney (syndromes r) sigma ps ?v"
    have mag: "GF (?ms ! k) = change c r (qs ! k)" if "k < ?v" for k
      using forney_changes [OF c r refl v bm(2) bm(4) [unfolded loc(1)] _ ch(2,3,5) that] loc(2) by blast
    have pos: "unat (ps ! k) = qs ! k" if k: "k < length qs" for k
    proof -
      have "qs ! k \<in> errors c r" using nth_mem [OF k] ch(5) by simp
      then have "qs ! k < 255" by (simp add: errors_def)
      moreover have "ps ! k = of_nat (qs ! k)" using k ch(3) lq by (metis nth_map nth_take)
      ultimately show ?thesis by (simp add: unat_of_nat)
    qed
    have "correct ps ?ms ?v r = c"
    proof -
      have "set qs \<subseteq> {p. p < length r}" using ch(5) r by (auto simp: errors_def)
      then have cor: "length (correct ps ?ms ?v r) = length r \<and>
          (\<forall>k<?v. correct ps ?ms ?v r ! (qs ! k) = gf_add (r ! (qs ! k)) (?ms ! k)) \<and>
          (\<forall>i. i \<notin> set qs \<longrightarrow> correct ps ?ms ?v r ! i = r ! i)"
        using correct_nth [OF ch(4) _ pos, of r ?ms] ch(2) v lq by simp
      show ?thesis
      proof (rule nth_equalityI)
        show "length (correct ps ?ms ?v r) = length c" using cor lc r by simp
        fix i assume i: "i < length (correct ps ?ms ?v r)"
        show "correct ps ?ms ?v r ! i = c ! i"
        proof (cases "i \<in> set qs")
          case True
          then obtain k where k: "k < ?v" "i = qs ! k" using lq by (metis in_set_conv_nth)
          have "GF (gf_add (r ! i) (?ms ! k)) = GF (c ! i)"
            using mag [OF k(1)] gf_char_2(1) [of "GF (r ! i)"] by (simp add: k(2) change_def algebra_simps)
          then have "gf_add (r ! i) (?ms ! k) = c ! i" by (simp only: GF_inj)
          then show ?thesis using cor k by simp
        next
          case False
          then have "i \<notin> errors c r" using ch(5) by simp
          then show ?thesis using cor False i r by (auto simp: errors_def)
        qed
      qed
    qed
    then show ?thesis using False bm(1) ch(1) c0 by (simp add: rs_decode_def loc(1) Let_def)
  qed
qed

end
