(* ===== verification/Rs_Interleave.thy ===== *)
theory Rs_Interleave
  imports Rs_Correct
begin

text \<open>
  The properties of the Reed-Solomon code: correction of up to 16 symbols, the meaning of every
  answer of the decoder, and correction of bursts with interleaving.
\<close>

section \<open>One code block\<close>

lemma errors_alt: "{p. p < 255 \<and> c ! p \<noteq> r ! p} = errors c r"
  by (simp add: errors_def)

text \<open>
  C9: The Reed-Solomon decoder corrects every 16 errors. The encoder returns the data, padded
  to 223 bytes, followed by 32 parity bytes; whichever at most 16 of the 255 bytes a channel
  changes, the decoder restores them all and reports their number.
\<close>

theorem rs_corrects_sixteen:
  assumes "length data \<le> 223" "255 \<le> length buffer"
  shows "\<exists>cw. rs_encode data buffer = Inr (255, cw @ drop 255 buffer) \<and> length cw = 255 \<and>
    take 223 cw = data @ replicate (223 - length data) 0 \<and>
    (\<forall>r. length r = 255 \<and> card {p. p < 255 \<and> cw ! p \<noteq> r ! p} \<le> 16 \<longrightarrow>
       rs_decode r = (Inr (card {p. p < 255 \<and> cw ! p \<noteq> r ! p}), cw))"
proof (intro exI [of _ "rs_codeword data"] conjI allI impI)
  have cw: "is_codeword (rs_codeword data)" using rs_codeword_is_codeword [OF assms(1)] .
  show "rs_encode data buffer = Inr (255, rs_codeword data @ drop 255 buffer)" using assms by (simp add: rs_encode_eq)
  show "length (rs_codeword data) = 255" using cw by (simp add: is_codeword_def)
  show "take 223 (rs_codeword data) = data @ replicate (223 - length data) 0"
    using assms(1) by (simp add: rs_codeword_def Let_def)
  fix r :: bytes
  assume "length r = 255 \<and> card {p. p < 255 \<and> rs_codeword data ! p \<noteq> r ! p} \<le> 16"
  then show "rs_decode r = (Inr (card {p. p < 255 \<and> rs_codeword data ! p \<noteq> r ! p}), rs_codeword data)"
    unfolding errors_alt using rs_decode_corrects [OF cw] by simp
qed

theorem rs_corrects_sixteen_witness:
  "\<exists>cw. rs_encode [1, 2, 3] (replicate 255 0) = Inr (255, cw) \<and> rs_decode (cw[0 := 77]) = (Inr 1, cw)"
proof -
  obtain cw where cw: "rs_encode [1, 2, 3] (replicate 255 0) = Inr (255, cw)" "length cw = 255"
    "take 223 cw = [1, 2, 3] @ replicate 220 0"
    "\<And>r. length r = 255 \<and> card {p. p < 255 \<and> cw ! p \<noteq> r ! p} \<le> 16 \<Longrightarrow>
       rs_decode r = (Inr (card {p. p < 255 \<and> cw ! p \<noteq> r ! p}), cw)"
    using rs_corrects_sixteen [of "[1, 2, 3]" "replicate 255 0"] by auto
  have "cw ! 0 = take 223 cw ! 0" by simp
  then have "cw ! 0 = 1" by (simp add: cw(3))
  then have "{p. p < 255 \<and> cw ! p \<noteq> cw[0 := 77] ! p} = {0}" using cw(2) by (auto simp: nth_list_update)
  then show ?thesis using cw(1,2) cw(4) [of "cw[0 := 77]"] by auto
qed

lemma correct_unchanged:
  "length (correct ps ms n r) = length r \<and> (\<forall>i. i \<notin> (\<lambda>k. unat (ps ! k)) ` {..<n} \<longrightarrow> correct ps ms n r ! i = r ! i)"
  unfolding correct_def by (induction n) (auto simp: lessThan_Suc)

lemma few_changes: "card (errors (correct ps ms n r) r) \<le> n"
proof -
  have "errors (correct ps ms n r) r \<subseteq> (\<lambda>k. unat (ps ! k)) ` {..<n}"
    using correct_unchanged [of ps ms n r] by (auto simp: errors_def)
  then have "card (errors (correct ps ms n r) r) \<le> card ((\<lambda>k. unat (ps ! k)) ` {..<n})" by (intro card_mono) auto
  also have "\<dots> \<le> n" using card_image_le [of "{..<n}" "\<lambda>k. unat (ps ! k)"] by simp
  finally show ?thesis .
qed

lemma berlekamp_massey_bound:
  "berlekamp_massey syn = Inr (sigma, l) \<Longrightarrow> l \<le> 16" "berlekamp_massey syn = Inl e \<Longrightarrow> e = TooManyErrors"
  by (auto simp: berlekamp_massey_def RS_T_def RS_PARITY_def RS_N_def RS_K_def Let_def split: prod.splits if_splits)

lemma chien_search_error: "chien_search sigma n = Inl e \<Longrightarrow> e = TooManyErrors"
  by (auto simp: chien_search_def Let_def split: prod.splits if_splits)

lemma rs_decode_cases:
  assumes "length r = 255"
  shows "(\<exists>n w. rs_decode r = (Inr n, w) \<and> is_codeword w \<and> card (errors w r) \<le> 16) \<or> (\<exists>w. rs_decode r = (Inl TooManyErrors, w))"
proof (cases "list_all (\<lambda>s. s = 0) (syndromes r)")
  case True
  then have "is_codeword r" using assms by (simp add: is_codeword_def syndromes_zero_iff)
  moreover have "errors r r = {}" by (simp add: errors_def)
  ultimately show ?thesis using True by (simp add: rs_decode_def)
next
  case False
  show ?thesis
  proof (cases "berlekamp_massey (syndromes r)")
    case (Inl e)
    then show ?thesis using False berlekamp_massey_bound(2) by (simp add: rs_decode_def)
  next
    case (Inr a)
    then obtain sigma n where bm: "berlekamp_massey (syndromes r) = Inr (sigma, n)" by (cases a) auto
    show ?thesis
    proof (cases "chien_search sigma n")
      case (Inl e)
      then show ?thesis using False bm chien_search_error by (simp add: rs_decode_def)
    next
      case (Inr ps)
      let ?w = "correct ps (forney (syndromes r) sigma ps n) n r"
      have "card (errors ?w r) \<le> 16" using few_changes berlekamp_massey_bound(1) [OF bm] by (metis order_trans)
      moreover have "is_codeword ?w" if "list_all (\<lambda>s. s = 0) (syndromes ?w)"
        using that correct_unchanged assms by (simp add: is_codeword_def syndromes_zero_iff)
      ultimately show ?thesis using False bm Inr by (simp add: rs_decode_def Let_def)
    qed
  qed
qed

text \<open>
  C13: Every answer of the Reed-Solomon decoder is right. Given any 255 bytes, it either leaves
  a codeword in the buffer, the only one within 16 symbols of what it was given, and reports
  how many symbols it changed, or it reports too many errors, and then no codeword is within
  16 symbols.
\<close>

theorem rs_decode_spec:
  assumes "length r = 255"
  shows "case rs_decode r of
      (Inr n, w) \<Rightarrow> is_codeword w \<and> n \<le> 16 \<and> card {p. p < 255 \<and> w ! p \<noteq> r ! p} = n \<and>
         (\<forall>c. is_codeword c \<and> card {p. p < 255 \<and> c ! p \<noteq> r ! p} \<le> 16 \<longrightarrow> c = w)
    | (Inl e, w) \<Rightarrow> e = TooManyErrors \<and> (\<forall>c. is_codeword c \<longrightarrow> 16 < card {p. p < 255 \<and> c ! p \<noteq> r ! p})"
proof -
  have only: "rs_decode r = (Inr (card (errors c r)), c)" if "is_codeword c" "card (errors c r) \<le> 16" for c
    using rs_decode_corrects [OF that(1) assms that(2)] .
  from rs_decode_cases [OF assms] show ?thesis
  proof (elim disjE exE conjE)
    fix n w assume w: "rs_decode r = (Inr n, w)" "is_codeword w" "card (errors w r) \<le> 16"
    then have "n = card (errors w r)" using only [OF w(2,3)] by simp
    moreover have "\<forall>c. is_codeword c \<and> card (errors c r) \<le> 16 \<longrightarrow> c = w" using only w(1) by (metis prod.inject)
    ultimately show ?thesis unfolding errors_alt w(1) prod.case sum.case using w(2,3) by blast
  next
    fix w assume w: "rs_decode r = (Inl TooManyErrors, w)"
    have "16 < card (errors c r)" if "is_codeword c" for c using only [OF that] w by (cases "card (errors c r) \<le> 16") auto
    then show ?thesis unfolding errors_alt w prod.case sum.case by blast
  qed
qed

theorem rs_decode_spec_witness: "\<exists>w. rs_decode (replicate 255 0) = (Inr 0, w) \<and> is_codeword w"
proof -
  have z: "is_codeword (replicate 255 0)" by (simp add: is_codeword_def horner_zeros)
  have "rs_decode (replicate 255 0) = (Inr 0, replicate 255 0)"
    using z by (simp add: rs_decode_def is_codeword_def syndromes_zero_iff)
  then show ?thesis using rs_decode_spec [of "replicate 255 0"] by simp
qed

section \<open>Interleaving\<close>

lemma scatter_nth:
  assumes i: "i < d" and out: "d * 255 \<le> length out"
  shows "length (scatter d i cw out) = length out" "j < 255 \<Longrightarrow> scatter d i cw out ! (j * d + i) = cw ! j"
    "(\<forall>j<255. p \<noteq> j * d + i) \<Longrightarrow> scatter d i cw out ! p = out ! p"
proof -
  have d: "distinct (map (\<lambda>j. j * d + i) [0..<255])" using i by (auto simp: distinct_map inj_on_def)
  have l: "\<forall>j\<in>set [0..<255]. j * d + i < length out"
  proof
    fix j assume "j \<in> set [0..<255]"
    then have "j * d + d \<le> 255 * d" using mult_le_mono1 [of "j + 1" 255 d] by simp
    then show "j * d + i < length out" using i out by linarith
  qed
  note f = fold_update_nth [OF d l, of "\<lambda>j. cw ! j"]
  show "length (scatter d i cw out) = length out" using f by (simp add: scatter_def RS_N_def)
  show "j < 255 \<Longrightarrow> scatter d i cw out ! (j * d + i) = cw ! j" using f by (simp add: scatter_def RS_N_def)
  show "(\<forall>j<255. p \<noteq> j * d + i) \<Longrightarrow> scatter d i cw out ! p = out ! p"
    using f by (auto simp add: scatter_def RS_N_def image_iff)
qed

lemma columns_disjoint: "i < d \<Longrightarrow> i' < d \<Longrightarrow> j * d + i = j' * d + i' \<longleftrightarrow> j = j' \<and> i = (i' :: nat)"
  by (metis add.commute div_mult_self1 mod_less mod_mult_self1 div_less add_cancel_right_left less_nat_zero_code mult.commute
      add_left_cancel)

lemma scatter_other:
  assumes "i < d" "i' < d" "i \<noteq> i'" "d * 255 \<le> length out"
  shows "scatter d i cw out ! (j * d + i') = out ! (j * d + i')"
  using assms columns_disjoint [OF assms(2,1)] by (intro scatter_nth(3)) auto

lemma encode_columns_eq:
  assumes "set is \<subseteq> {..<d}" "distinct is" "d * 255 \<le> length out"
  shows "\<exists>code. encode_columns data d is out = Inr code \<and> length code = length out \<and>
    (\<forall>i\<in>set is. \<forall>j<255. code ! (j * d + i) = rs_codeword (gather 223 d i data) ! j) \<and>
    (\<forall>p. (\<forall>i\<in>set is. \<forall>j<255. p \<noteq> j * d + i) \<longrightarrow> code ! p = out ! p)"
  using assms
proof (induction "is" arbitrary: out)
  case (Cons i "is")
  let ?cw = "rs_codeword (gather 223 d i data)"
  have i: "i < d" "i \<notin> set is" using Cons.prems by auto
  have l: "length (gather 223 d i data) = 223" by (simp add: gather_def)
  have cw: "length ?cw = 255" using rs_codeword_is_codeword [of "gather 223 d i data"] l by (simp add: is_codeword_def)
  have e: "encode_columns data d (i # is) out = encode_columns data d is (scatter d i ?cw out)"
    using l cw by (simp add: rs_encode_eq RS_K_def RS_N_def)
  note s = scatter_nth [OF i(1) Cons.prems(3), where cw = ?cw]
  obtain code where code: "encode_columns data d is (scatter d i ?cw out) = Inr code" "length code = length out"
    "\<forall>i\<in>set is. \<forall>j<255. code ! (j * d + i) = rs_codeword (gather 223 d i data) ! j"
    "\<forall>p. (\<forall>i\<in>set is. \<forall>j<255. p \<noteq> j * d + i) \<longrightarrow> code ! p = scatter d i ?cw out ! p"
    using Cons.IH [of "scatter d i ?cw out"] Cons.prems s(1) by auto
  have "code ! (j * d + i) = ?cw ! j" if "j < 255" for j
  proof -
    have "j * d + i \<noteq> j' * d + i'" if "i' \<in> set is" for j' i'
      using that i Cons.prems(1) columns_disjoint [of i d i' j j'] by auto
    then show ?thesis using code(4) s(2) [OF that] by simp
  qed
  moreover have "code ! p = out ! p" if "\<forall>k\<in>set (i # is). \<forall>j<255. p \<noteq> j * d + k" for p
    using that code(4) s(3) [of p] by simp
  ultimately show ?case using e code(1-3) by (intro exI [of _ code]) simp
qed simp

lemma decode_columns_corrects:
  assumes "set is \<subseteq> {..<d}" "distinct is" "d * 255 \<le> length rx"
    "\<And>i. i \<in> set is \<Longrightarrow> is_codeword (cw i) \<and> card (errors (cw i) (gather 255 d i rx)) \<le> 16"
  shows "\<exists>n out. decode_columns d is t rx = (Inr n, out) \<and> length out = length rx \<and>
    (\<forall>i\<in>set is. \<forall>j<255. out ! (j * d + i) = cw i ! j) \<and>
    (\<forall>p. (\<forall>i\<in>set is. \<forall>j<255. p \<noteq> j * d + i) \<longrightarrow> out ! p = rx ! p)"
  using assms
proof (induction "is" arbitrary: rx t)
  case (Cons i "is")
  have i: "i < d" "i \<notin> set is" using Cons.prems by auto
  have c: "is_codeword (cw i)" "card (errors (cw i) (gather 255 d i rx)) \<le> 16" using Cons.prems(4) [of i] by auto
  then have dec: "rs_decode (gather 255 d i rx) = (Inr (card (errors (cw i) (gather 255 d i rx))), cw i)"
    by (intro rs_decode_corrects) (simp_all add: gather_def)
  let ?rx = "scatter d i (cw i) rx"
  note s = scatter_nth [OF i(1) Cons.prems(3), where cw = "cw i"]
  have g: "gather 255 d k ?rx = gather 255 d k rx" if "k \<in> set is" for k
    using that i Cons.prems(1,3) by (auto simp: gather_def intro!: scatter_other)
  obtain n out where out: "decode_columns d is (t + card (errors (cw i) (gather 255 d i rx))) ?rx = (Inr n, out)" "length out = length rx"
    "\<forall>i\<in>set is. \<forall>j<255. out ! (j * d + i) = cw i ! j"
    "\<forall>p. (\<forall>i\<in>set is. \<forall>j<255. p \<noteq> j * d + i) \<longrightarrow> out ! p = ?rx ! p"
    using Cons.IH [of ?rx "t + card (errors (cw i) (gather 255 d i rx))"] Cons.prems s(1) g by auto
  have "out ! (j * d + i) = cw i ! j" if "j < 255" for j
  proof -
    have "j * d + i \<noteq> j' * d + i'" if "i' \<in> set is" for j' i'
      using that i Cons.prems(1) columns_disjoint [of i d i' j j'] by auto
    then show ?thesis using out(4) s(2) [OF that] by simp
  qed
  moreover have "out ! p = rx ! p" if "\<forall>k\<in>set (i # is). \<forall>j<255. p \<noteq> j * d + k" for p
    using that out(4) s(3) [of p] by simp
  ultimately show ?case using out(1-3) dec by (intro exI [of _ n] exI [of _ out]) (simp add: RS_N_def)
qed simp

text \<open>A window of 16 times the depth has at most 16 symbols of each column.\<close>

lemma window_column:
  fixes a d i :: nat
  assumes "i < d"
  shows "card {j. a \<le> j * d + i \<and> j * d + i < a + 16 * d} \<le> (16 :: nat)"
proof -
  let ?W = "{j. a \<le> j * d + i \<and> j * d + i < a + 16 * d}"
  show ?thesis
  proof (cases "?W = {}")
    case False
    then have "\<exists>m. m \<in> ?W" by blast
    then obtain m where m: "m \<in> ?W" "\<And>j. j < m \<Longrightarrow> j \<notin> ?W" unfolding exists_least_iff [of "\<lambda>j. j \<in> ?W"] by blast
    have "j \<in> {m..<m + 16}" if j: "j \<in> ?W" for j
    proof -
      have "j * d + i < a + 16 * d" "a \<le> m * d + i" using j m(1) by blast+
      then have "j * d < (m + 16) * d" by (simp add: add_mult_distrib)
      then have "j < m + 16" by (simp only: mult_less_cancel2)
      moreover have "m \<le> j" using m(2) j by (meson not_le)
      ultimately show ?thesis by simp
    qed
    then have "?W \<subseteq> {m..<m + 16}" by blast
    then have "card ?W \<le> card {m..<m + 16}" by (intro card_mono) simp_all
    then show ?thesis by simp
  next
    case True
    then show ?thesis by (simp only: card.empty)
  qed
qed

text \<open>
  C14: Interleaved Reed-Solomon code blocks correct bursts. With interleaving depth 1 to 5 the
  encoder puts the data, as they are, in front of the parity symbols; when a received block
  differs from the encoded one only within a window of 16 times the depth consecutive bytes, the
  decoder restores the encoded block.
\<close>

theorem rs_interleaving_corrects_bursts:
  assumes "1 \<le> depth" "depth \<le> 5" "unat depth * 223 \<le> length data" "unat depth * 255 \<le> length buffer"
  shows "\<exists>code. encode_interleaved data depth buffer = Inr (unat depth * 255, code) \<and> length code = length buffer \<and>
    take (unat depth * 223) code = take (unat depth * 223) data \<and> drop (unat depth * 255) code = drop (unat depth * 255) buffer \<and>
    (\<forall>rx a. length rx = unat depth * 255 \<and>
        (\<forall>p < unat depth * 255. code ! p \<noteq> rx ! p \<longrightarrow> a \<le> p \<and> p < a + 16 * unat depth) \<longrightarrow>
      (\<exists>n. decode_interleaved rx depth = (Inr n, take (unat depth * 255) code)))"
proof -
  define d where "d = unat depth"
  have d: "0 < d" "depth \<noteq> 0" "\<not> depth > 5" 
  proof -
    show "depth \<noteq> 0" using assms(1) by auto
    then show "0 < d" by (simp add: d_def unat_gt_0)
    show "\<not> depth > 5" using assms(2) by (simp add: not_less)
  qed
  let ?cw = "\<lambda>i. rs_codeword (gather 223 d i data)"
  have cw: "is_codeword (?cw i)" for i by (intro rs_codeword_is_codeword) (simp add: gather_def)
  obtain code where code: "encode_columns data d [0..<d] buffer = Inr code" "length code = length buffer"
    "\<And>i j. i < d \<Longrightarrow> j < 255 \<Longrightarrow> code ! (j * d + i) = ?cw i ! j"
    "\<And>p. \<forall>i<d. \<forall>j<255. p \<noteq> j * d + i \<Longrightarrow> code ! p = buffer ! p"
  proof -
    have s: "set [0..<d] \<subseteq> {..<d}" by auto
    show ?thesis using that encode_columns_eq [OF s distinct_upt, of buffer data] assms(4) by (auto simp: d_def)
  qed
  have split: "p = (p div d) * d + p mod d \<and> p mod d < d" for p using d(1) by simp
  have row: "p div d < n" if "p < d * n" for p n using that d(1) by (simp add: less_mult_imp_div_less mult.commute)
  have enc: "encode_interleaved data depth buffer = Inr (d * 255, code)"
    using d assms(3,4) code(1) by (simp add: encode_interleaved_def RS_N_def RS_K_def Let_def flip: d_def)
  have sys: "take (d * 223) code = take (d * 223) data"
  proof (rule nth_equalityI)
    fix p assume "p < length (take (d * 223) code)"
    then have p: "p < d * 223" by simp
    have "code ! p = ?cw (p mod d) ! (p div d)" using code(3) [of "p mod d" "p div d"] split [of p] row [OF p] by simp
    also have "\<dots> = gather 223 d (p mod d) data ! (p div d)"
      using row [OF p] by (simp add: rs_codeword_def gather_def nth_append Let_def)
    finally show "take (d * 223) code ! p = take (d * 223) data ! p" using p row [OF p] split [of p] by (simp add: gather_def)
  qed (use assms(3,4) code(2) in \<open>simp add: d_def\<close>)
  have rest: "drop (d * 255) code = drop (d * 255) buffer"
  proof (rule nth_equalityI)
    fix p assume "p < length (drop (d * 255) code)"
    have "d * 255 + p \<noteq> j * d + i" if "i < d" "j < 255" for i j
    proof -
      have "j * d + d \<le> 255 * d" using mult_le_mono1 [of "j + 1" 255 d] that by simp
      then show ?thesis using that(1) by linarith
    qed
    then show "drop (d * 255) code ! p = drop (d * 255) buffer ! p"
      using code(2,4) \<open>p < length (drop (d * 255) code)\<close> by simp
  qed (use code(2) in simp)
  have burst: "\<exists>n. decode_interleaved rx depth = (Inr n, take (d * 255) code)"
    if rx: "length rx = d * 255" "\<forall>p < d * 255. code ! p \<noteq> rx ! p \<longrightarrow> a \<le> p \<and> p < a + 16 * d" for rx a
  proof -
    have "card (errors (?cw i) (gather 255 d i rx)) \<le> 16" if i: "i < d" for i
    proof -
      have "errors (?cw i) (gather 255 d i rx) \<subseteq> {j. a \<le> j * d + i \<and> j * d + i < a + 16 * d}"
      proof
        fix j assume "j \<in> errors (?cw i) (gather 255 d i rx)"
        then have j: "j < 255" "?cw i ! j \<noteq> rx ! (j * d + i)" by (auto simp: errors_def gather_def)
        have "j * d + d \<le> 255 * d" using mult_le_mono1 [of "j + 1" 255 d] j by simp
        then have "j * d + i < d * 255" using i by linarith
        then show "j \<in> {j. a \<le> j * d + i \<and> j * d + i < a + 16 * d}" using rx(2) j code(3) [OF i j(1)] by simp
      qed
      moreover have "finite {j. a \<le> j * d + i \<and> j * d + i < a + 16 * d}"
      proof (rule finite_subset)
        show "{j. a \<le> j * d + i \<and> j * d + i < a + 16 * d} \<subseteq> {..a + 16 * d}"
        proof
          fix j assume "j \<in> {j. a \<le> j * d + i \<and> j * d + i < a + 16 * d}"
          then have "j * d < a + 16 * d" by simp
          moreover have "j \<le> j * d" using d(1) by simp
          ultimately show "j \<in> {..a + 16 * d}" unfolding atMost_iff by (rule le_trans [OF _ less_imp_le, rotated])
        qed
      qed simp
      ultimately show ?thesis using window_column [OF i, of a] by (meson card_mono order_trans)
    qed
    then obtain n out where out: "decode_columns d [0..<d] 0 rx = (Inr n, out)" "length out = length rx"
      "\<And>i j. i < d \<Longrightarrow> j < 255 \<Longrightarrow> out ! (j * d + i) = ?cw i ! j"
    proof -
      assume e: "\<And>i. i < d \<Longrightarrow> card (errors (?cw i) (gather 255 d i rx)) \<le> 16"
      have s: "set [0..<d] \<subseteq> {..<d}" by auto
      show ?thesis using that decode_columns_corrects [OF s distinct_upt, of rx ?cw 0] cw rx(1) e by (auto simp: mult.commute)
    qed
    have "out = take (d * 255) code"
    proof (rule nth_equalityI)
      show "length out = length (take (d * 255) code)" using out(2) rx(1) code(2) assms(4) by (simp add: d_def)
      fix p assume "p < length out"
      then have p: "p < d * 255" using out(2) rx(1) by simp
      then show "out ! p = take (d * 255) code ! p"
        using out(3) [of "p mod d" "p div d"] code(3) [of "p mod d" "p div d"] split [of p] row [OF p] by simp
    qed
    then show ?thesis using d out(1) rx(1) by (simp add: decode_interleaved_def RS_N_def Let_def flip: d_def)
  qed
  show ?thesis unfolding d_def [symmetric] using enc code(2) sys rest burst by (intro exI [of _ code]) blast
qed

theorem rs_interleaving_corrects_bursts_witness:
  "\<exists>code n. encode_interleaved (replicate 446 5) 2 (replicate 510 0) = Inr (510, code) \<and>
     decode_interleaved (replicate 32 0 @ drop 32 code) 2 = (Inr n, code)"
proof -
  obtain code where code: "encode_interleaved (replicate 446 5) 2 (replicate 510 0) = Inr (510, code)" "length code = 510"
    "\<forall>rx. length rx = 510 \<and> (\<exists>a. \<forall>p<510. code ! p \<noteq> rx ! p \<longrightarrow> a \<le> p \<and> p < a + 32) \<longrightarrow>
       (\<exists>n. decode_interleaved rx 2 = (Inr n, take 510 code))"
    using rs_interleaving_corrects_bursts [of 2 "replicate 446 5" "replicate 510 0", simplified] by blast
  have "\<forall>p<510. code ! p \<noteq> (replicate 32 0 @ drop 32 code) ! p \<longrightarrow> 0 \<le> p \<and> p < 0 + 32"
    using code(2) by (simp add: nth_append)
  moreover have "length (replicate 32 0 @ drop 32 code) = 510" using code(2) by simp
  ultimately obtain n where "decode_interleaved (replicate 32 0 @ drop 32 code) 2 = (Inr n, take 510 code)"
    using code(3) by blast
  then show ?thesis using code(1,2) by simp
qed

end
