(* ===== verification/Spec2Isabelle.thy ===== *)
theory Spec2Isabelle
  imports Reliability Cop1_Recovery Isl_Packet Srspp_Sender Srspp_Link Rx_Packed Rice_Limits Cfdp_Transfer Coding_Pipeline Ringbuf
    Sdls_Safety Sdls_Keys Isl_Forwarding Gossip_Flood Srspp_Packet Rto Rs_Interleave
begin

text \<open>
  \<^bold>\<open>LeoDOS: a verification development of the protocol stack.\<close>

  LeoDOS is a distributed operating system for satellite constellations. Its core is the
  crate \<open>crates/leodos-protocols\<close>, a \<open>no_std\<close> implementation of the CCSDS protocols a satellite
  speaks to the ground and to its neighbours, from coding and framing up to reliable
  transport. This development models the parts of that crate that carry its own logic and
  proves what makes them correct. All paths below are under
  \<open>src/crates/leodos-protocols/src/\<close>.

  \<^bold>\<open>Parts, theories and sources.\<close>

  \<^item> \<open>Leo_Prelude\<close>, \<open>Bitfield\<close>, \<open>Wire\<close>, \<open>Slots\<close>: shared vocabulary. Machine integers, byte
    buffers (\<open>bslice\<close>, \<open>blit\<close>), \<open>heapless\<close> vectors (\<open>vec_push\<close>), packed header fields
    (\<open>utils/bits.rs\<close>, with the locale \<open>bit_field\<close> interpreted once per header field),
    network-endian numbers, identifiers (\<open>ids.rs\<close>), fixed slot arrays.
  \<^item> \<open>Clcw\<close>, \<open>Farm\<close>, \<open>Fop\<close>: COP-1, the reliable telecommand link
    (\<open>datalink/reliability/cop1/{clcw,farm,fop}.rs\<close>). The receiver FARM-1 and the sender FOP-1
    as state machines: a record of the state, one definition per handler, \<open>farm_handle\<close> and
    \<open>fop_handle\<close> the dispatch over events. \<open>Arq\<close> is the abstract go-back-n contract of the two
    sides as locales; \<open>Cop1_Link\<close> composes them over lossy channels (a step relation) and shows
    that what is delivered is a prefix of what was sent, \<open>Cop1_Recovery\<close> that delivery can
    always be completed.
  \<^item> \<open>Tc_Frame\<close>, \<open>Reliability\<close>: telecommand transfer frames (\<open>datalink/framing/sdlp/tc.rs\<close>)
    and the COP-1 wrappers around a frame reader and writer (\<open>datalink/reliability/mod.rs\<close>).
  \<^item> \<open>Torus\<close>, \<open>Routing\<close>: the constellation's grid of inter-satellite links and its routing
    algorithms (\<open>network/isl/{torus,address}.rs\<close>, \<open>network/isl/routing/algorithm/\<close>).
  \<^item> \<open>Spp\<close>, \<open>Isl_Packet\<close>: space packets (\<open>datalink/spp/mod.rs\<close>), cFE telecommands
    (\<open>network/cfe/tc.rs\<close>) and the packets of the inter-satellite network
    (\<open>network/isl/routing/packet.rs\<close>).
  \<^item> \<open>Srspp_Sender\<close>, \<open>Rx_Base\<close>, \<open>Rx_Spec\<close>, \<open>Rx_Fast\<close>, \<open>Rx_Packed\<close>, \<open>Srspp_Link\<close>: SRSPP, the
    selective-repeat transport (\<open>transport/srspp/machine/\<close>). The sender with its compacting
    byte buffer; the receiver base (acknowledgements, sequence window); an abstract
    window-indexed receiver with the locale \<open>receiver_backend\<close>, implemented by the fast and the
    packed receiver; sender and receiver composed over a network that loses, duplicates and
    reorders.
  \<^item> \<open>Rice_Bits\<close>, \<open>Rice\<close>, \<open>Rice_Lossless\<close>, \<open>Rice_Roundtrip\<close>, \<open>Rice_Limits\<close>: lossless data
    compression (\<open>application/compression/rice.rs\<close>): bit streams, predictor, choice of the
    coding option, encoder, decoder and their composition.
  \<^item> \<open>Cfdp_Types\<close>, \<open>Cfdp_Tracker\<close>, \<open>Cfdp_Checksum\<close>, \<open>Cfdp_Pdu\<close>, \<open>Cfdp_Directives\<close>, \<open>Cfdp_Build\<close>,
    \<open>Cfdp_Handlers\<close>, \<open>Cfdp_Parsing\<close>, \<open>Cfdp_Receiver\<close>, \<open>Cfdp_Sender\<close>, \<open>Cfdp_Transfer\<close>: file transfer
    (\<open>transport/cfdp/\<close>). Codes and fault handlers; the tracker of received segments; the modular
    checksum; PDUs as bytes with their parsers and builders; the two transaction machines
    (\<open>class2/machine/\<close>), one definition per handler, over the locale \<open>transaction_store\<close>; and the
    machines with the PDUs together.

  \<^item> \<open>Srspp_Packet\<close>, \<open>Rto\<close>: the three packet types of SRSPP (\<open>transport/srspp/packet.rs\<close>) and its
    retransmission timeouts, fixed or waiting for the next contact (\<open>rto.rs\<close>).
  \<^item> \<open>Isl_Router\<close>, \<open>Isl_Forwarding\<close>: the node that forwards packets between its four neighbours,
    the ground and its applications (\<open>network/isl/routing/mod.rs\<close>), one definition per step of
    the read loop; then every node of the constellation at once, as a step relation, with the
    loss-freedom of a router and the delivery of a packet over the whole path.
  \<^item> \<open>Gossip\<close>, \<open>Gossip_Flood\<close>: flooding (\<open>network/isl/gossip/\<close>): the sliding bit map of seen
    epochs, the node, and the flood over a connected network, in which every node delivers a
    message exactly once and every node is reached.
  \<^item> \<open>Ringbuf\<close>: the packet ring buffer (\<open>utils/ringbuf.rs\<close>) as an implementation of a bounded
    first-in first-out queue, and the case in which it is not one.
  \<^item> \<open>Sdls\<close>, \<open>Sdls_Safety\<close>, \<open>Sdls_Keys\<close>: frame security (\<open>datalink/security/sdls/\<close>). Security
    header and trailer, protection and verification of a frame for the three services, the
    anti-replay window; round trip and replay theorems over the locale of a cryptographic
    provider; key ring, over-the-air rekeying and the table of security associations.
  \<^item> \<open>Randomizer\<close>, \<open>Bch\<close>, \<open>Cltu\<close>, \<open>Cadu\<close>, \<open>Coding_Pipeline\<close>: the coding layer
    (\<open>coding/{randomizer,pipeline}.rs\<close>, \<open>coding/framing/\<close>). Pseudo-random sequences and their
    shift registers, the BCH code and its distance, command link transmission units, channel
    access data units with the search for the marker, and the pipeline over any stages (a locale
    per stage, interpreted on the modelled ones).
  \<^item> \<open>Galois\<close>, \<open>Rs_Algebra\<close>, \<open>Reed_Solomon\<close>, \<open>Rs_Encode\<close>, \<open>Rs_Decode\<close>, \<open>Rs_Correct\<close>, \<open>Rs_Interleave\<close>:
    the Reed-Solomon code (255, 223) (\<open>coding/fec/reed_solomon.rs\<close>). The field tables and the
    proof that they are a field (a type of class \<open>field\<close>), the algebra of linear recurrences
    and power sums in any field, the encoder, the Berlekamp-Massey, Chien and Forney steps as
    the code has them, the correction of every pattern of at most 16 wrong bytes, and
    interleaving.

  \<^bold>\<open>How the model corresponds to the code.\<close> A struct is a record, an enum a datatype, a
  method a definition of the same name (with the component's prefix where names clash) that
  takes the state and returns it updated. Integers are words of their width where they wrap,
  or natural numbers with the wrap-around written out; arithmetic follows the release profile
  of the workspace, without overflow checks. A call that may panic returns an \<open>outcome\<close>, an
  error of the code is a value of a sum or of the component's result type, and a loop that may
  not end is a \<open>partial_function (option)\<close>. \<open>zerocopy\<close> views of a header are its
  \<open>from_be_bytes\<close> and \<open>to_be_bytes\<close>.

  \<^bold>\<open>Parameters.\<close> What is not in the repository, or is floating-point geometry, is an argument
  of the definitions that use it: the comparison of path lengths \<open>nearer\<close> and the gateway table
  \<open>gw\<close> of the routing algorithms; the file store's \<open>intern\<close> and \<open>read_chunk\<close> in CFDP; the
  cryptographic provider of SDLS, with the law that what it seals it opens to the same text; the physical reader and writer of the coding layer, \<open>phys_read\<close> and
  \<open>phys_write\<close>; the packet pool, the clock and the contact schedule. What the links of a router
  or a gossip node report is an event of the read loop. Buffers from the pool are arguments.

  \<^bold>\<open>Bounds.\<close> FOP-1 is treated for windows of at most 127 frames, half the sequence space, and
  action queues of 16 and 32 entries, their capacities in the source, which the lemmas show to
  suffice. The SRSPP receivers are treated for windows \<open>WIN\<close> that divide the 14-bit
  sequence space and at most 16 bits of acknowledgement (interpreted at 8), the link for
  windows of at most 8191 packets. The Rice round trip holds for 3 to 29 bits per sample;
  outside it the code fails, as \<open>Rice_Limits\<close> shows. The duplicate filter of gossip is exact
  while a message is less than 32768 epochs ahead of the newest and at most 128 behind it. SDLS
  sequence numbers have one to seven bytes in the theorem that nothing is replayed; with
  none \<open>sdls_replays_accepted\<close> shows that every frame can be. The ring buffer is a queue while a packet fits without overwriting,
  the side condition \<open>push_ok\<close>. Reed-Solomon corrects at most 16 wrong bytes of a codeword. The
  only fuel is that of \<open>tx_transfer\<close>, the runner's loop of reads; the theorem says how much is
  enough. The read loops of the router and of the gossip node run over a list of events.

  \<^bold>\<open>Not modelled.\<close> Asynchronous drivers and sockets (\<open>transport/srspp/api\<close>,
  \<open>transport/cfdp/class2/api\<close>, \<open>datalink/link\<close>), which move the values of the machines modelled
  here; floating-point code (orbits, projection, modulators); wrappers of third-party crates
  (AES-GCM, the CRCs); the image and hyperspectral compressors, the LDPC and convolutional
  codes, the SLE services, time codes, and the TM, AOS, USLP and Proximity-1 frames, which are
  self-contained formats that no modelled part calls; the bindings to cFS
  (\<open>crates/leodos-libcfs\<close>), the simulator, applications and tools.
\<close>

end
